(* ===== verification/Prelude.thy ===== *)
theory Prelude
  imports Main "HOL-Library.Multiset" "HOL-Library.Sublist"
begin

text \<open>
  What every component shares: the two theorem collections of the development, the readings of
  JavaScript's \<open>||\<close> and truthiness on optional strings, \<open>Array.prototype.splice\<close> with one
  inserted or one removed element, runs of a step function over a list of events, and the lemmas
  on lists that several components use.
  Times (\<open>Date.now()\<close>, \<open>new Date()\<close>) are arguments, in milliseconds, of type \<open>int\<close>.
\<close>

named_theorems machine_simps "definitions that unfold a step of a state machine"
named_theorems doc_simps "evaluation of document operations"

type_synonym ident = string
type_synonym millis = int

section \<open>Optional strings\<close>

text \<open>An optional string counts as true when it is present and not empty.\<close>

definition truthy :: "string option \<Rightarrow> bool" where
  "truthy s = (case s of None \<Rightarrow> False | Some t \<Rightarrow> t \<noteq> [])"

text \<open>\<open>a || b\<close> on optional strings.\<close>

definition or_else :: "string option \<Rightarrow> string option \<Rightarrow> string option" where
  "or_else a b = (if truthy a then a else b)"

lemma truthy_simps [simp]:
  "\<not> truthy None" "truthy (Some t) \<longleftrightarrow> t \<noteq> []"
  by (simp_all add: truthy_def)

lemma or_else_simps [simp]:
  "or_else None b = b" "or_else (Some (c # cs)) b = Some (c # cs)" "or_else (Some []) b = b"
  by (simp_all add: or_else_def)

section \<open>Numbers as strings\<close>

text \<open>\<open>String(n)\<close>.\<close>

fun nat_string :: "nat \<Rightarrow> string" where
  "nat_string n = (if n < 10 then [char_of (48 + n)] else nat_string (n div 10) @ [char_of (48 + n mod 10)])"

declare nat_string.simps [simp del]

definition int_string :: "int \<Rightarrow> string" where
  "int_string n = (if n < 0 then CHR ''-'' # nat_string (nat (- n)) else nat_string (nat n))"

section \<open>Splicing lists\<close>

text \<open>
  \<open>xs.splice(start, 0, v)\<close> and \<open>xs.splice(start, 1)\<close>: a negative start counts from the
  end and is clamped at 0, a start beyond the end is clamped at the length.
\<close>

definition splice_start :: "int \<Rightarrow> nat \<Rightarrow> nat" where
  "splice_start start n =
     (if start < 0 then nat (max (int n + start) 0) else min (nat start) n)"

definition splice_insert :: "int \<Rightarrow> 'a \<Rightarrow> 'a list \<Rightarrow> 'a list" where
  "splice_insert start v xs =
     (let k = splice_start start (length xs) in take k xs @ v # drop k xs)"

definition splice_delete :: "int \<Rightarrow> 'a list \<Rightarrow> 'a list" where
  "splice_delete start xs =
     (let k = splice_start start (length xs) in take k xs @ drop (Suc k) xs)"

definition splice_item :: "int \<Rightarrow> 'a list \<Rightarrow> 'a option" where
  "splice_item start xs =
     (let k = splice_start start (length xs) in if k < length xs then Some (xs ! k) else None)"

lemma splice_start_nonneg [simp]: "0 \<le> i \<Longrightarrow> splice_start i n = min (nat i) n"
  by (simp add: splice_start_def)

lemma splice_start_le: "splice_start i n \<le> n"
  by (auto simp: splice_start_def)

lemma length_splice_insert [simp]: "length (splice_insert i v xs) = Suc (length xs)"
  using splice_start_le [of i "length xs"] by (simp add: splice_insert_def Let_def)

lemma length_splice_delete:
  "length (splice_delete i xs) = (if splice_start i (length xs) < length xs
     then length xs - 1 else length xs)"
  using splice_start_le [of i "length xs"] by (auto simp: splice_delete_def Let_def min_def)

text \<open>The splices at a natural index, as the proofs use them.\<close>

definition ins_at :: "nat \<Rightarrow> 'a \<Rightarrow> 'a list \<Rightarrow> 'a list" where
  "ins_at k v xs = take k xs @ v # drop k xs"

definition del_at :: "nat \<Rightarrow> 'a list \<Rightarrow> 'a list" where
  "del_at k xs = take k xs @ drop (Suc k) xs"

lemma splice_insert_nat: "k \<le> length xs \<Longrightarrow> splice_insert (int k) v xs = ins_at k v xs"
  by (simp add: splice_insert_def ins_at_def min_def)

lemma splice_delete_nat: "k < length xs \<Longrightarrow> splice_delete (int k) xs = del_at k xs"
  by (simp add: splice_delete_def del_at_def min_def)

lemma ins_at_length [simp]: "length (ins_at k v xs) = Suc (length xs)"
  by (simp add: ins_at_def)

lemma ins_at_not_Nil [simp]: "ins_at k v xs \<noteq> []"
  by (simp add: ins_at_def)

lemma del_at_length [simp]: "k < length xs \<Longrightarrow> length (del_at k xs) = length xs - 1"
  by (simp add: del_at_def)

lemma nth_ins_at:
  assumes "k \<le> length xs" and "i \<le> length xs"
  shows "ins_at k v xs ! i = (if i < k then xs ! i else if i = k then v else xs ! (i - 1))"
  using assms by (auto simp: ins_at_def nth_append nth_Cons' min_def)

lemma nth_del_at:
  assumes "k < length xs" and "i < length xs - 1"
  shows "del_at k xs ! i = (if i < k then xs ! i else xs ! Suc i)"
  using assms by (auto simp: del_at_def nth_append min_def)

text \<open>Two splices commute once the later position is adjusted to the earlier one.\<close>

lemma ins_ins_commute:
  assumes "i \<le> j" and "j \<le> length xs"
  shows "ins_at (Suc j) w (ins_at i v xs) = ins_at i v (ins_at j w xs)"
  by (rule nth_equalityI) (use assms in \<open>auto simp: nth_ins_at\<close>)

lemma del_ins_commute:
  assumes "i \<le> j" and "j < length xs"
  shows "del_at (Suc j) (ins_at i v xs) = ins_at i v (del_at j xs)"
  by (rule nth_equalityI) (use assms in \<open>auto simp: nth_ins_at nth_del_at\<close>)

lemma del_ins_commute':
  assumes "j < i" and "i \<le> length xs"
  shows "del_at j (ins_at i v xs) = ins_at (i - 1) v (del_at j xs)"
  by (rule nth_equalityI) (use assms in \<open>auto simp: nth_ins_at nth_del_at\<close>)

lemma del_del_commute:
  assumes "i < j" and "j < length xs"
  shows "del_at (j - 1) (del_at i xs) = del_at i (del_at j xs)"
  by (rule nth_equalityI) (use assms in \<open>auto simp: nth_del_at\<close>)

lemma del_ins_same: "k \<le> length xs \<Longrightarrow> del_at k (ins_at k v xs) = xs"
  by (simp add: ins_at_def del_at_def)

lemma ins_del_same: "k < length xs \<Longrightarrow> ins_at k (xs ! k) (del_at k xs) = xs"
  by (simp add: ins_at_def del_at_def id_take_nth_drop [symmetric] min_def)

section \<open>Errors\<close>

text \<open>
  The exceptions of the code: the built-in ones it can run into, its own with their message, and
  \<open>Unmodelled\<close> for the uses of a JavaScript value that the model does not follow (an inherited
  property, a named property of an array, the characters of a string): there the model makes no
  statement.
\<close>

datatype js_error = SyntaxError | TypeError | Error string | Unmodelled

definition ebind :: "'e + 'a \<Rightarrow> ('a \<Rightarrow> 'e + 'b) \<Rightarrow> 'e + 'b" where
  "ebind r f = (case r of Inl e \<Rightarrow> Inl e | Inr a \<Rightarrow> f a)"

lemma ebind_simps [simp]: "ebind (Inl e) f = Inl e" "ebind (Inr a) f = f a"
  by (simp_all add: ebind_def)

section \<open>Runs of a step function\<close>

definition run :: "('s \<Rightarrow> 'e \<Rightarrow> 's) \<Rightarrow> 's \<Rightarrow> 'e list \<Rightarrow> 's" where
  "run step s es = foldl step s es"

lemma run_Nil [simp]: "run step s [] = s"
  by (simp add: run_def)

lemma run_Cons [simp]: "run step s (e # es) = run step (step s e) es"
  by (simp add: run_def)

lemma run_append: "run step s (es @ fs) = run step (run step s es) fs"
  by (simp add: run_def)

lemma run_snoc [simp]: "run step s (es @ [e]) = step (run step s es) e"
  by (simp add: run_append)

section \<open>Lists\<close>

lemma distinct_nth_inj:
  "distinct xs \<Longrightarrow> i < length xs \<Longrightarrow> j < length xs \<Longrightarrow> xs ! i = xs ! j \<Longrightarrow> i = j"
  by (simp add: nth_eq_iff_index_eq)

section \<open>Maps\<close>

text \<open>\<open>map.set(k, v)\<close> of a JavaScript \<open>Map\<close>, the list of its entries in the order of insertion.\<close>

fun map_set :: "'k \<Rightarrow> 'v \<Rightarrow> ('k \<times> 'v) list \<Rightarrow> ('k \<times> 'v) list" where
  "map_set k v [] = [(k, v)]"
| "map_set k v ((k', v') # m) = (if k = k' then (k, v) # m else (k', v') # map_set k v m)"

lemma map_set_keys: "set (map fst (map_set k v m)) = insert k (set (map fst m))"
  by (induction k v m rule: map_set.induct) auto

lemma map_set_distinct: "distinct (map fst m) \<Longrightarrow> distinct (map fst (map_set k v m))"
proof (induction k v m rule: map_set.induct)
  case (2 k v k' v' m)
  then show ?case using map_set_keys [of k v m] by auto
qed simp

lemma map_of_map_set: "map_of (map_set k v m) = (map_of m)(k \<mapsto> v)"
  by (induction k v m rule: map_set.induct) (auto simp: fun_eq_iff)

lemma map_set_new: "k \<notin> fst ` set m \<Longrightarrow> map_set k v m = m @ [(k, v)]"
  by (induction k v m rule: map_set.induct) auto

lemma map_set_keys_known: "k \<in> set (map fst m) \<Longrightarrow> map fst (map_set k v m) = map fst m"
  by (induction k v m rule: map_set.induct) auto

section \<open>Strings\<close>

text \<open>\<open>s.includes(t)\<close>\<close>

fun js_includes :: "string \<Rightarrow> string \<Rightarrow> bool" where
  "js_includes [] t = (t = [])"
| "js_includes (c # s) t = (prefix t (c # s) \<or> js_includes s t)"

end
