(* ===== verification/Interfaces.thy ===== *)
theory Interfaces
  imports Prelude
begin

text \<open>
  The contracts between components, as locales: what a client may call (\<open>fixes\<close>) and the laws it
  may rely on (\<open>assumes\<close>). Each locale is interpreted on the model of the component that provides
  it, in that component's theory.
\<close>

section \<open>A component with an invariant\<close>

text \<open>A step function that keeps an invariant keeps it over every run.\<close>

locale invariant_machine =
  fixes step :: "'s \<Rightarrow> 'e \<Rightarrow> 's"
    and inv :: "'s \<Rightarrow> bool"
  assumes inv_step: "inv s \<Longrightarrow> inv (step s e)"
begin

lemma inv_run: "inv s \<Longrightarrow> inv (run step s es)"
  by (induction es arbitrary: s) (auto intro: inv_step)

end

section \<open>A component with a table of valid transitions\<close>

text \<open>
  \<open>mode\<close> reads the discrete state of a machine, \<open>valid\<close> is its transition table and \<open>free\<close> marks
  the events that may ignore the table. Every other event either keeps the mode or follows the
  table. What clients get: the modes of a run of guarded events form a path of the table, so a
  set of modes closed under the table cannot be left, and a run that leaves a set of modes
  closed but for one gate passes through the gate.
\<close>

locale guarded_machine =
  fixes mode :: "'s \<Rightarrow> 'm"
    and step :: "'s \<Rightarrow> 'e \<Rightarrow> 's"
    and valid :: "'m \<Rightarrow> 'm list"
    and free :: "'e \<Rightarrow> bool"
  assumes step_valid:
    "\<not> free e \<Longrightarrow> mode (step s e) = mode s \<or> mode (step s e) \<in> set (valid (mode s))"
begin

abbreviation guarded :: "'e list \<Rightarrow> bool" where
  "guarded es \<equiv> list_all (\<lambda>e. \<not> free e) es"

lemma run_path:
  "guarded es \<Longrightarrow> (\<lambda>a b. b \<in> set (valid a))\<^sup>*\<^sup>* (mode s) (mode (run step s es))"
proof (induction es arbitrary: s)
  case Nil
  then show ?case by simp
next
  case (Cons e es)
  then have "mode (step s e) = mode s \<or> mode (step s e) \<in> set (valid (mode s))"
    by (simp add: step_valid)
  moreover have "(\<lambda>a b. b \<in> set (valid a))\<^sup>*\<^sup>* (mode (step s e)) (mode (run step (step s e) es))"
    using Cons by simp
  ultimately show ?case
    by (auto intro: converse_rtranclp_into_rtranclp)
qed

lemma run_stays:
  assumes "guarded es" and "mode s \<in> M" and "\<And>m. m \<in> M \<Longrightarrow> set (valid m) \<subseteq> M"
  shows "mode (run step s es) \<in> M"
  using assms(1,2)
proof (induction es arbitrary: s)
  case Nil
  then show ?case by simp
next
  case (Cons e es)
  then have "mode (step s e) \<in> M"
    using step_valid [of e s] assms(3) by auto
  with Cons show ?case by simp
qed

lemma run_through_gate:
  assumes "guarded es" and "mode s \<in> M" and "mode (run step s es) \<notin> M"
    and "\<And>m. m \<in> M \<Longrightarrow> set (valid m) \<subseteq> insert g M" and "g \<notin> M"
  shows "\<exists>k \<le> length es. mode (run step s (take k es)) = g"
  using assms(1-3)
proof (induction es arbitrary: s)
  case Nil
  then show ?case by simp
next
  case (Cons e es)
  have next_mode: "mode (step s e) \<in> insert g M"
    using Cons.prems(1,2) step_valid [of e s] assms(4) by auto
  show ?case
  proof (cases "mode (step s e) = g")
    case True
    then have "mode (run step s (take 1 (e # es))) = g" by simp
    then show ?thesis by (metis One_nat_def Suc_le_mono le0 length_Cons)
  next
    case False
    with next_mode Cons obtain k where "k \<le> length es" "mode (run step (step s e) (take k es)) = g"
      by fastforce
    then have "Suc k \<le> length (e # es)" "mode (run step s (take (Suc k) (e # es))) = g" by simp_all
    then show ?thesis by blast
  qed
qed

end

section \<open>Replicas that exchange transformed operations\<close>

text \<open>
  \<open>ok d a b\<close> marks the pairs of concurrent operations on a document for which the transformation
  keeps its promise and does not depend on the side that computes it. Two sites that start with
  the same document, apply their own operation first and then the transformed other one, agree.
\<close>

locale replicas =
  fixes apply_to :: "'d \<Rightarrow> 'o \<Rightarrow> 'e + 'd"
    and transf :: "'o \<Rightarrow> 'o \<Rightarrow> 'o \<times> 'o"
    and ok :: "'d \<Rightarrow> 'o \<Rightarrow> 'o \<Rightarrow> bool"
  assumes tp1: "ok d a b \<Longrightarrow> \<exists>r.
      ebind (apply_to d a) (\<lambda>x. apply_to x (snd (transf a b))) = Inr r
    \<and> ebind (apply_to d b) (\<lambda>x. apply_to x (fst (transf a b))) = Inr r"
    and symmetric: "ok d a b \<Longrightarrow> transf b a = prod.swap (transf a b)"
begin

lemma sites_agree:
  assumes "ok d a b"
  shows "\<exists>r. ebind (apply_to d a) (\<lambda>x. apply_to x (snd (transf a b))) = Inr r
    \<and> ebind (apply_to d b) (\<lambda>x. apply_to x (snd (transf b a))) = Inr r"
  using tp1 [OF assms] symmetric [OF assms] by simp

end

section \<open>An undo history\<close>

text \<open>
  The abstract history: the past with the present on top, newest first, and the undone future,
  next one first. A commit forgets the future and keeps at most \<open>n\<close> entries.
\<close>

type_synonym 'e zipper = "'e list \<times> 'e list"

fun z_undo :: "'e zipper \<Rightarrow> 'e zipper" where
  "z_undo (x # y # past, future) = (y # past, x # future)"
| "z_undo z = z"

fun z_redo :: "'e zipper \<Rightarrow> 'e zipper" where
  "z_redo (past, x # future) = (x # past, future)"
| "z_redo z = z"

definition z_commit :: "nat \<Rightarrow> 'e \<Rightarrow> 'e zipper \<Rightarrow> 'e zipper" where
  "z_commit n x z = (take n (x # fst z), [])"

text \<open>
  An implementation \<open>'s\<close> of it: every operation keeps the invariant and does on the abstract
  history what the abstract operation does. What clients get: \<open>n\<close> undos are taken back by \<open>n\<close>
  redos, and the undos of a number of commits lead back to the present before them.
\<close>

locale undo_history =
  fixes inv :: "'s \<Rightarrow> bool"
    and abs :: "'s \<Rightarrow> 'e zipper"
    and undo :: "'s \<Rightarrow> 's"
    and redo :: "'s \<Rightarrow> 's"
    and commit :: "'a \<Rightarrow> 's \<Rightarrow> 's"
    and entry :: "'a \<Rightarrow> 'e"
    and bound :: "'s \<Rightarrow> nat"
  assumes undo: "inv s \<Longrightarrow> inv (undo s) \<and> abs (undo s) = z_undo (abs s) \<and> bound (undo s) = bound s"
    and redo: "inv s \<Longrightarrow> inv (redo s) \<and> abs (redo s) = z_redo (abs s) \<and> bound (redo s) = bound s"
    and commit: "inv s \<Longrightarrow> inv (commit a s) \<and> abs (commit a s) = z_commit (bound s) (entry a) (abs s)
      \<and> bound (commit a s) = bound s"
begin

lemma undo_pow: "inv s \<Longrightarrow> inv ((undo ^^ n) s) \<and> abs ((undo ^^ n) s) = (z_undo ^^ n) (abs s)"
  by (induction n) (auto simp: undo)

lemma redo_pow: "inv s \<Longrightarrow> inv ((redo ^^ n) s) \<and> abs ((redo ^^ n) s) = (z_redo ^^ n) (abs s)"
  by (induction n) (auto simp: redo)

lemma z_undo_pow:
  "n < length past \<Longrightarrow> (z_undo ^^ n) (past, future) = (drop n past, rev (take n past) @ future)"
proof (induction n)
  case 0
  then show ?case by simp
next
  case (Suc n)
  then obtain x y rest where "drop n past = x # y # rest"
    by (metis Cons_nth_drop_Suc Suc_lessD)
  moreover from this have "drop (Suc n) past = y # rest" "past ! n = x"
    using Suc.prems by (metis drop_Suc list.sel(3) tl_drop, metis Cons_nth_drop_Suc Suc_lessD list.inject)
  ultimately show ?case
    using Suc by (simp add: take_Suc_conv_app_nth)
qed

lemma z_redo_pow:
  "(z_redo ^^ length xs) (past, xs @ future) = (rev xs @ past, future)"
proof (induction xs arbitrary: past)
  case Nil
  then show ?case by simp
next
  case (Cons x xs)
  then show ?case by (simp add: funpow_swap1 [symmetric] funpow_Suc_right del: funpow.simps)
qed

lemma redos_take_back_undos:
  assumes "inv s" and "n < length (fst (abs s))"
  shows "abs ((redo ^^ n) ((undo ^^ n) s)) = abs s"
proof -
  obtain past future where z: "abs s = (past, future)" by fastforce
  have "abs ((undo ^^ n) s) = (drop n past, rev (take n past) @ future)"
    using undo_pow [OF assms(1)] z_undo_pow [of n past future] assms(2) z by simp
  then have "abs ((redo ^^ n) ((undo ^^ n) s))
      = (z_redo ^^ length (rev (take n past))) (drop n past, rev (take n past) @ future)"
    using redo_pow undo_pow [OF assms(1)] assms(2) z by simp
  also have "\<dots> = (past, future)"
    by (simp only: z_redo_pow) simp
  finally show ?thesis using z by simp
qed

lemma commits_abs:
  "inv s \<Longrightarrow> length as + length (fst (abs s)) \<le> bound s
     \<Longrightarrow> inv (fold commit as s) \<and> bound (fold commit as s) = bound s
       \<and> fst (abs (fold commit as s)) = rev (map entry as) @ fst (abs s)"
  by (induction as arbitrary: s) (auto simp: commit z_commit_def)

lemma undos_take_back_commits:
  assumes "inv s" and "length as + length (fst (abs s)) \<le> bound s" and "fst (abs s) \<noteq> []"
  shows "fst (abs ((undo ^^ length as) (fold commit as s))) = fst (abs s)"
proof -
  have c: "inv (fold commit as s)" "fst (abs (fold commit as s)) = rev (map entry as) @ fst (abs s)"
    using commits_abs [OF assms(1,2)] by simp_all
  obtain past future where z: "abs (fold commit as s) = (past, future)" by fastforce
  show ?thesis
    using undo_pow [OF c(1), of "length as"] z_undo_pow [of "length as" past future] c z assms(3) by simp
qed

end

end
