(* ===== verification/Sync_State_Machine.thy ===== *)
theory Sync_State_Machine
  imports Interfaces
begin

text \<open>
  \<open>frontend/src/lib/sync/sync-state-machine.ts\<close>: the modes of the project synchronisation, the
  context kept beside the mode, the transition table and \<open>send\<close>. The listeners and the log are
  left out: neither changes the context.
\<close>

datatype SyncState =
    Sync_idle | Sync_editing | Sync_saving | Sync_reloading | Sync_locked | Sync_conflict | Sync_error

record SyncContext =
  sc_state :: SyncState
  sc_projectId :: "string option"
  sc_localVersion :: int
  sc_serverVersion :: "int option"
  sc_baseVersion :: "int option"
  sc_pendingChanges :: bool
  sc_lastSyncedAt :: "millis option"
  sc_activeLockId :: "string option"
  sc_activeOperation :: "string option"
  sc_lockOwnerId :: "string option"
  sc_error :: "string option"
  sc_stateEnteredAt :: millis

datatype Resolution_kind = Res_local | Res_server | Res_merge

datatype SyncEvent =
    SE_USER_EDIT
  | SE_SAVE_REQUESTED
  | SE_SAVE_STARTED int
  | SE_SAVE_COMPLETED int
  | SE_SAVE_REJECTED int
  | SE_RELOAD_REQUESTED "bool option"
  | SE_RELOAD_STARTED
  | SE_RELOAD_COMPLETED int
  | SE_LOCK_ACQUIRED string string string
  | SE_LOCK_RELEASED string "int option"
  | SE_CONFLICT_DETECTED int int
  | SE_CONFLICT_RESOLVED Resolution_kind int
  | SE_ERROR string
  | SE_RESET
  | SE_SET_PROJECT string

fun SYNC_VALID_TRANSITIONS :: "SyncState \<Rightarrow> SyncState list" where
  "SYNC_VALID_TRANSITIONS Sync_idle = [Sync_editing, Sync_reloading, Sync_locked, Sync_error]"
| "SYNC_VALID_TRANSITIONS Sync_editing =
     [Sync_saving, Sync_reloading, Sync_locked, Sync_idle, Sync_error]"
| "SYNC_VALID_TRANSITIONS Sync_saving =
     [Sync_idle, Sync_conflict, Sync_error, Sync_reloading, Sync_locked]"
| "SYNC_VALID_TRANSITIONS Sync_reloading = [Sync_idle, Sync_editing, Sync_error, Sync_locked]"
| "SYNC_VALID_TRANSITIONS Sync_locked = [Sync_reloading, Sync_idle, Sync_error]"
| "SYNC_VALID_TRANSITIONS Sync_conflict = [Sync_idle, Sync_reloading, Sync_saving, Sync_error]"
| "SYNC_VALID_TRANSITIONS Sync_error = [Sync_idle, Sync_editing, Sync_reloading]"

definition sync_initial :: "millis \<Rightarrow> SyncContext" where
  "sync_initial now =
     \<lparr>sc_state = Sync_idle, sc_projectId = None, sc_localVersion = 0, sc_serverVersion = None,
      sc_baseVersion = None, sc_pendingChanges = False, sc_lastSyncedAt = None,
      sc_activeLockId = None, sc_activeOperation = None, sc_lockOwnerId = None,
      sc_error = None, sc_stateEnteredAt = now\<rparr>"

definition sync_canTransition :: "SyncContext \<Rightarrow> SyncState \<Rightarrow> bool" where
  "sync_canTransition c to = (to \<in> set (SYNC_VALID_TRANSITIONS (sc_state c)))"

text \<open>\<open>transition(to, updates)\<close>: the updates are applied first, then the mode and its time.\<close>

definition sync_transition ::
  "millis \<Rightarrow> SyncState \<Rightarrow> (SyncContext \<Rightarrow> SyncContext) \<Rightarrow> SyncContext \<Rightarrow> SyncContext" where
  "sync_transition now to updates c = (updates c)\<lparr>sc_state := to, sc_stateEnteredAt := now\<rparr>"

fun sync_send :: "millis \<Rightarrow> SyncContext \<Rightarrow> SyncEvent \<Rightarrow> SyncContext" where
  "sync_send now c (SE_SET_PROJECT projectId) =
     sync_transition now Sync_idle
       (\<lambda>c. c\<lparr>sc_projectId := Some projectId, sc_localVersion := 0, sc_serverVersion := None,
              sc_baseVersion := None, sc_pendingChanges := False, sc_error := None\<rparr>) c"
| "sync_send now c SE_USER_EDIT =
     (if sc_state c = Sync_idle \<or> sc_state c = Sync_editing
      then sync_transition now Sync_editing
             (\<lambda>c. c\<lparr>sc_localVersion := sc_localVersion c + 1, sc_pendingChanges := True\<rparr>) c
      else c)"
| "sync_send now c SE_SAVE_REQUESTED = c"
| "sync_send now c (SE_SAVE_STARTED version) =
     (if sync_canTransition c Sync_saving then sync_transition now Sync_saving id c else c)"
| "sync_send now c (SE_SAVE_COMPLETED newVersion) =
     (if sc_state c = Sync_saving
      then sync_transition now Sync_idle
             (\<lambda>c. c\<lparr>sc_serverVersion := Some newVersion, sc_baseVersion := Some newVersion,
                    sc_pendingChanges := False, sc_lastSyncedAt := Some now, sc_error := None\<rparr>) c
      else c)"
| "sync_send now c (SE_SAVE_REJECTED serverVersion) =
     (if sc_state c = Sync_saving
      then sync_transition now Sync_conflict (\<lambda>c. c\<lparr>sc_serverVersion := Some serverVersion\<rparr>) c
      else c)"
| "sync_send now c (SE_RELOAD_REQUESTED force) =
     (if sync_canTransition c Sync_reloading
      then sync_transition now Sync_reloading
             (\<lambda>c. c\<lparr>sc_pendingChanges := (if force = Some True then False
                                          else sc_pendingChanges c)\<rparr>) c
      else c)"
| "sync_send now c SE_RELOAD_STARTED =
     (if sync_canTransition c Sync_reloading then sync_transition now Sync_reloading id c else c)"
| "sync_send now c (SE_RELOAD_COMPLETED version) =
     (if sc_state c = Sync_reloading
      then sync_transition now Sync_idle
             (\<lambda>c. c\<lparr>sc_serverVersion := Some version, sc_baseVersion := Some version,
                    sc_localVersion := version, sc_pendingChanges := False,
                    sc_lastSyncedAt := Some now, sc_error := None\<rparr>) c
      else c)"
| "sync_send now c (SE_LOCK_ACQUIRED lockId operation userId) =
     (if sync_canTransition c Sync_locked
      then sync_transition now Sync_locked
             (\<lambda>c. c\<lparr>sc_activeLockId := Some lockId, sc_activeOperation := Some operation,
                    sc_lockOwnerId := Some userId, sc_pendingChanges := False\<rparr>) c
      else c)"
| "sync_send now c (SE_LOCK_RELEASED lockId newVersion) =
     (if sc_state c = Sync_locked
      then sync_transition now Sync_reloading
             (\<lambda>c. c\<lparr>sc_activeLockId := None, sc_activeOperation := None, sc_lockOwnerId := None,
                    sc_serverVersion := (case newVersion of None \<Rightarrow> sc_serverVersion c
                                                          | Some v \<Rightarrow> Some v)\<rparr>) c
      else c)"
| "sync_send now c (SE_CONFLICT_DETECTED localVersion serverVersion) =
     (if sync_canTransition c Sync_conflict
      then sync_transition now Sync_conflict (\<lambda>c. c\<lparr>sc_serverVersion := Some serverVersion\<rparr>) c
      else c)"
| "sync_send now c (SE_CONFLICT_RESOLVED resolution version) =
     (if sc_state c = Sync_conflict
      then (if resolution = Res_server then sync_transition now Sync_reloading id c
            else sync_transition now Sync_idle
                   (\<lambda>c. c\<lparr>sc_serverVersion := Some version, sc_baseVersion := Some version\<rparr>) c)
      else c)"
| "sync_send now c (SE_ERROR error) =
     (if sync_canTransition c Sync_error
      then sync_transition now Sync_error (\<lambda>c. c\<lparr>sc_error := Some error\<rparr>) c
      else c)"
| "sync_send now c SE_RESET = sync_initial now"

definition sync_isSyncing :: "SyncContext \<Rightarrow> bool" where
  "sync_isSyncing c = (sc_state c \<in> set [Sync_saving, Sync_reloading])"

definition sync_isSaveBlocked :: "SyncContext \<Rightarrow> bool" where
  "sync_isSaveBlocked c =
     (sc_state c \<in> set [Sync_locked, Sync_reloading, Sync_conflict, Sync_error])"

definition sync_isEditBlocked :: "SyncContext \<Rightarrow> bool" where
  "sync_isEditBlocked c = (sc_state c \<in> set [Sync_locked, Sync_reloading])"

definition sync_hasError :: "SyncContext \<Rightarrow> bool" where
  "sync_hasError c = (sc_state c = Sync_error)"

definition sync_hasConflict :: "SyncContext \<Rightarrow> bool" where
  "sync_hasConflict c = (sc_state c = Sync_conflict)"

definition sync_isLocked :: "SyncContext \<Rightarrow> bool" where
  "sync_isLocked c = (sc_state c = Sync_locked)"

definition sync_hasPendingChanges :: "SyncContext \<Rightarrow> bool" where
  "sync_hasPendingChanges c = sc_pendingChanges c"

definition sync_getExpectedVersion :: "SyncContext \<Rightarrow> int option" where
  "sync_getExpectedVersion c = sc_baseVersion c"

definition sync_incrementLocalVersion :: "SyncContext \<Rightarrow> SyncContext" where
  "sync_incrementLocalVersion c =
     c\<lparr>sc_localVersion := sc_localVersion c + 1, sc_pendingChanges := True\<rparr>"

lemmas sync_defs [machine_simps] =
  sync_transition_def sync_canTransition_def sync_initial_def
declare sync_send.simps [simp del, machine_simps]
lemmas sync_queries =
  sync_isSyncing_def sync_isSaveBlocked_def sync_isEditBlocked_def sync_hasError_def
  sync_hasConflict_def sync_isLocked_def sync_hasPendingChanges_def sync_getExpectedVersion_def

section \<open>The transition table\<close>

text \<open>One step of the machine takes the time of the event with the event.\<close>

definition sync_step :: "SyncContext \<Rightarrow> millis \<times> SyncEvent \<Rightarrow> SyncContext" where
  "sync_step c e = sync_send (fst e) c (snd e)"

text \<open>The two events that the code accepts in every mode.\<close>

fun sync_free :: "millis \<times> SyncEvent \<Rightarrow> bool" where
  "sync_free (_, SE_SET_PROJECT _) = True"
| "sync_free (_, SE_RESET) = True"
| "sync_free _ = False"

lemma sync_step_valid:
  assumes "\<not> sync_free e"
  shows "sc_state (sync_step c e) = sc_state c
       \<or> sc_state (sync_step c e) \<in> set (SYNC_VALID_TRANSITIONS (sc_state c))"
proof -
  obtain now ev where e: "e = (now, ev)" by (cases e)
  show ?thesis
    using assms by (cases ev; cases "sc_state c") (auto simp: e sync_step_def machine_simps)
qed

interpretation syncm: guarded_machine sc_state sync_step SYNC_VALID_TRANSITIONS sync_free
  by unfold_locales (rule sync_step_valid)

section \<open>What the context keeps\<close>

text \<open>
  A mode in which the local edits are authoritative has pending changes, a locked machine knows
  its lock, a base version comes with a server version, a conflict knows the server's version and
  an error its message.
\<close>

definition sync_inv :: "SyncContext \<Rightarrow> bool" where
  "sync_inv c \<longleftrightarrow>
     (sc_state c \<in> {Sync_editing, Sync_saving, Sync_conflict} \<longrightarrow> sc_pendingChanges c) \<and>
     (sc_state c = Sync_locked \<longrightarrow>
        sc_activeLockId c \<noteq> None \<and> sc_activeOperation c \<noteq> None \<and> sc_lockOwnerId c \<noteq> None) \<and>
     (sc_baseVersion c \<noteq> None \<longrightarrow> sc_serverVersion c \<noteq> None) \<and>
     (sc_state c = Sync_conflict \<longrightarrow> sc_serverVersion c \<noteq> None) \<and>
     (sc_state c = Sync_error \<longrightarrow> sc_error c \<noteq> None)"

lemma sync_inv_initial: "sync_inv (sync_initial now)"
  by (simp add: sync_inv_def sync_initial_def)

lemma sync_inv_send: "sync_inv c \<Longrightarrow> sync_inv (sync_send now c ev)"
  by (cases ev; cases "sc_state c")
    (auto simp: sync_inv_def machine_simps split: option.splits)

lemma sync_inv_incrementLocalVersion: "sync_inv c \<Longrightarrow> sync_inv (sync_incrementLocalVersion c)"
  by (simp add: sync_inv_def sync_incrementLocalVersion_def)

interpretation synci: invariant_machine sync_step sync_inv
  by unfold_locales (simp add: sync_step_def sync_inv_send)

text \<open>
  whatever events arrive, in any order and at any time, the machine started by the code keeps
  \<open>sync_inv\<close>: it never edits, saves or reports a conflict without pending changes, never is locked
  without the lock's id, operation and owner, and never knows a base version without a server
  version. Incrementing the local version by hand keeps it too.
\<close>

theorem sync_reachable_inv:
  "sync_inv (run sync_step (sync_initial now) es) \<and>
   sync_inv (sync_incrementLocalVersion (run sync_step (sync_initial now) es))"
  by (simp add: synci.inv_run sync_inv_initial sync_inv_incrementLocalVersion)

text \<open>The modes from which a save cannot start without an edit.\<close>

definition sync_resting :: "SyncState set" where
  "sync_resting = {Sync_idle, Sync_reloading, Sync_locked, Sync_error}"

text \<open>
  as long as the project is not switched and the machine not reset, a machine that rests
  (idle, reloading, locked or in error) and later saves or is in conflict has been in the editing
  mode in between: no sequence of lock, reload, conflict or error events starts a save.
\<close>

theorem sync_save_after_edit:
  assumes "list_all (\<lambda>e. \<not> sync_free e) es" and "sc_state c \<in> sync_resting"
    and "sc_state (run sync_step c es) \<in> {Sync_saving, Sync_conflict}"
  shows "\<exists>k \<le> length es. sc_state (run sync_step c (take k es)) = Sync_editing"
proof (rule syncm.run_through_gate)
  show "sc_state c \<in> sync_resting" by (rule assms)
  show "sc_state (run sync_step c es) \<notin> sync_resting"
    using assms(3) by (auto simp: sync_resting_def)
  show "set (SYNC_VALID_TRANSITIONS m) \<subseteq> insert Sync_editing sync_resting"
    if "m \<in> sync_resting" for m
    using that by (auto simp: sync_resting_def)
qed (use assms in \<open>auto simp: sync_resting_def\<close>)

theorem sync_save_after_edit_witness:
  "\<exists>k \<le> length [(1::millis, SE_USER_EDIT), (2, SE_SAVE_STARTED 1)].
     sc_state (run sync_step (sync_initial 0) (take k [(1, SE_USER_EDIT), (2, SE_SAVE_STARTED 1)]))
       = Sync_editing"
  by (rule sync_save_after_edit)
    (simp_all add: sync_resting_def sync_step_def machine_simps)

text \<open>The events that a locked machine must not react to.\<close>

fun sync_local_event :: "SyncEvent \<Rightarrow> bool" where
  "sync_local_event SE_USER_EDIT = True"
| "sync_local_event SE_SAVE_REQUESTED = True"
| "sync_local_event (SE_SAVE_STARTED _) = True"
| "sync_local_event (SE_SAVE_COMPLETED _) = True"
| "sync_local_event (SE_SAVE_REJECTED _) = True"
| "sync_local_event (SE_LOCK_ACQUIRED _ _ _) = True"
| "sync_local_event (SE_CONFLICT_DETECTED _ _) = True"
| "sync_local_event (SE_CONFLICT_RESOLVED _ _) = True"
| "sync_local_event _ = False"

lemma sync_locked_step:
  "sc_state c = Sync_locked \<Longrightarrow> sync_local_event ev \<Longrightarrow> sync_send now c ev = c"
  by (cases ev) (auto simp: machine_simps)

text \<open>
  while a backend operation holds the lock, edits, saves, conflicts and further locks leave the
  whole context as it is, so local work cannot interfere with the operation; saves and edits
  are reported as blocked throughout.
\<close>

theorem sync_locked_frozen:
  assumes "sc_state c = Sync_locked" and "list_all (\<lambda>e. sync_local_event (snd e)) es"
  shows "run sync_step c es = c \<and> sync_isSaveBlocked (run sync_step c es)
       \<and> sync_isEditBlocked (run sync_step c es)"
proof -
  have "run sync_step c es = c"
    using assms by (induction es) (auto simp: sync_step_def sync_locked_step)
  with assms show ?thesis by (simp add: sync_queries)
qed

theorem sync_locked_frozen_witness:
  "run sync_step (sync_send 1 (sync_initial 0) (SE_LOCK_ACQUIRED ''l'' ''import'' ''u''))
     [(2, SE_USER_EDIT), (3, SE_SAVE_STARTED 1)]
   = sync_send 1 (sync_initial 0) (SE_LOCK_ACQUIRED ''l'' ''import'' ''u'')"
  by (rule sync_locked_frozen [THEN conjunct1]) (simp_all add: machine_simps)

text \<open>
  the conflict mode is entered from the saving mode only. In particular the event
  \<open>CONFLICT_DETECTED\<close>, sent while the machine is idle or editing, is dropped without a trace.
\<close>

theorem sync_conflict_only_from_saving:
  "(sc_state (sync_send now c ev) = Sync_conflict \<and> sc_state c \<noteq> Sync_conflict
      \<longrightarrow> sc_state c = Sync_saving) \<and>
   (sc_state c \<in> {Sync_idle, Sync_editing} \<longrightarrow> sync_send now c (SE_CONFLICT_DETECTED l v) = c)"
  by (cases ev; cases "sc_state c") (auto simp: machine_simps)

theorem sync_conflict_only_from_saving_witness:
  "sync_send 2 (sync_send 1 (sync_initial 0) SE_USER_EDIT) (SE_CONFLICT_DETECTED 1 7)
   = sync_send 1 (sync_initial 0) SE_USER_EDIT"
  using sync_conflict_only_from_saving
    [of 2 "sync_send 1 (sync_initial 0) SE_USER_EDIT" "SE_CONFLICT_DETECTED 1 7" 1 7]
  by (simp add: machine_simps)

end
