(* ===== verification/Version_Tracker.thy ===== *)
theory Version_Tracker
  imports Interfaces
begin

text \<open>
  \<open>frontend/src/lib/sync/version-tracker.ts\<close>: the three versions of optimistic concurrency
  control, the dirty flag and the test that lets a save go out. Listeners and log left out.
\<close>

record VersionState =
  vs_localVersion :: int
  vs_serverVersion :: "int option"
  vs_baseVersion :: "int option"
  vs_dirty :: bool
  vs_lastUpdatedAt :: millis

datatype CanSave_reason = CS_not_dirty | CS_no_base_version | CS_stale | CS_version_mismatch

record CanSaveResult =
  cs_canSave :: bool
  cs_reason :: "CanSave_reason option"
  cs_serverVersion :: "int option"
  cs_baseVersion :: "int option"

definition vt_initial :: "millis \<Rightarrow> VersionState" where
  "vt_initial now = \<lparr>vs_localVersion = 0, vs_serverVersion = None, vs_baseVersion = None,
     vs_dirty = False, vs_lastUpdatedAt = now\<rparr>"

definition vt_markDirty :: "millis \<Rightarrow> VersionState \<Rightarrow> VersionState" where
  "vt_markDirty now s =
     s\<lparr>vs_localVersion := vs_localVersion s + 1, vs_dirty := True, vs_lastUpdatedAt := now\<rparr>"

definition vt_markClean :: "millis \<Rightarrow> VersionState \<Rightarrow> VersionState" where
  "vt_markClean now s = s\<lparr>vs_dirty := False, vs_lastUpdatedAt := now\<rparr>"

definition vt_updateServerVersion :: "millis \<Rightarrow> int \<Rightarrow> VersionState \<Rightarrow> VersionState" where
  "vt_updateServerVersion now version s =
     s\<lparr>vs_serverVersion := Some version, vs_baseVersion := Some version,
       vs_dirty := False, vs_lastUpdatedAt := now\<rparr>"

definition vt_updateFromReload :: "millis \<Rightarrow> int \<Rightarrow> VersionState \<Rightarrow> VersionState" where
  "vt_updateFromReload now version s =
     s\<lparr>vs_localVersion := version, vs_serverVersion := Some version,
       vs_baseVersion := Some version, vs_dirty := False, vs_lastUpdatedAt := now\<rparr>"

definition vt_updateServerVersionExternal :: "millis \<Rightarrow> int \<Rightarrow> VersionState \<Rightarrow> VersionState" where
  "vt_updateServerVersionExternal now version s =
     s\<lparr>vs_serverVersion := Some version, vs_lastUpdatedAt := now\<rparr>"

definition vt_canSave :: "VersionState \<Rightarrow> CanSaveResult" where
  "vt_canSave s =
     (if \<not> vs_dirty s
      then \<lparr>cs_canSave = False, cs_reason = Some CS_not_dirty, cs_serverVersion = None,
            cs_baseVersion = None\<rparr>
      else if vs_baseVersion s = None
      then \<lparr>cs_canSave = True, cs_reason = None, cs_serverVersion = None, cs_baseVersion = None\<rparr>
      else if vs_serverVersion s \<noteq> None \<and> vs_baseVersion s \<noteq> vs_serverVersion s
      then \<lparr>cs_canSave = False, cs_reason = Some CS_stale,
            cs_serverVersion = vs_serverVersion s, cs_baseVersion = vs_baseVersion s\<rparr>
      else \<lparr>cs_canSave = True, cs_reason = None, cs_serverVersion = None, cs_baseVersion = None\<rparr>)"

definition vt_getExpectedVersion :: "VersionState \<Rightarrow> int option" where
  "vt_getExpectedVersion s = vs_baseVersion s"

definition vt_isStale :: "VersionState \<Rightarrow> bool" where
  "vt_isStale s =
     (case (vs_baseVersion s, vs_serverVersion s) of
        (Some b, Some v) \<Rightarrow> b < v
      | _ \<Rightarrow> False)"

definition vt_isDirty :: "VersionState \<Rightarrow> bool" where
  "vt_isDirty s = vs_dirty s"

definition vt_getLocalVersion :: "VersionState \<Rightarrow> int" where
  "vt_getLocalVersion s = vs_localVersion s"

definition vt_getServerVersion :: "VersionState \<Rightarrow> int option" where
  "vt_getServerVersion s = vs_serverVersion s"

definition vt_reset :: "millis \<Rightarrow> VersionState \<Rightarrow> VersionState" where
  "vt_reset now s = vt_initial now"

lemmas vt_defs [machine_simps] =
  vt_initial_def vt_markDirty_def vt_markClean_def vt_updateServerVersion_def
  vt_updateFromReload_def vt_updateServerVersionExternal_def vt_reset_def
lemmas vt_queries =
  vt_canSave_def vt_getExpectedVersion_def vt_isStale_def vt_isDirty_def
  vt_getLocalVersion_def vt_getServerVersion_def

section \<open>The tracker as a store of versions\<close>

text \<open>
  What the coordinator relies on: a save or a reload makes the state current, a version
  announced by someone else does not move the base, and edits leave both versions alone.
\<close>

datatype vt_op =
    VO_markDirty | VO_markClean | VO_saved int | VO_reloaded int | VO_external int | VO_reset

fun vt_apply :: "VersionState \<Rightarrow> millis \<times> vt_op \<Rightarrow> VersionState" where
  "vt_apply s (now, VO_markDirty) = vt_markDirty now s"
| "vt_apply s (now, VO_markClean) = vt_markClean now s"
| "vt_apply s (now, VO_saved v) = vt_updateServerVersion now v s"
| "vt_apply s (now, VO_reloaded v) = vt_updateFromReload now v s"
| "vt_apply s (now, VO_external v) = vt_updateServerVersionExternal now v s"
| "vt_apply s (now, VO_reset) = vt_reset now s"

locale version_store =
  fixes apply_op :: "'s \<Rightarrow> 'o \<Rightarrow> 's"
    and base :: "'s \<Rightarrow> int option"
    and server :: "'s \<Rightarrow> int option"
    and may_save :: "'s \<Rightarrow> bool"
    and refresh :: "'o \<Rightarrow> bool"
    and announced :: "'o \<Rightarrow> int option"
  assumes base_kept: "\<not> refresh o' \<Longrightarrow> base (apply_op s o') = base s"
    and server_kept: "\<not> refresh o' \<Longrightarrow> announced o' = None \<Longrightarrow> server (apply_op s o') = server s"
    and server_announced: "\<not> refresh o' \<Longrightarrow> announced o' = Some v \<Longrightarrow> server (apply_op s o') = Some v"
    and save_needs_agreement:
      "may_save s \<Longrightarrow> base s = None \<or> server s = None \<or> base s = server s"
begin

lemma base_run: "list_all (\<lambda>o'. \<not> refresh o') os \<Longrightarrow> base (run apply_op s os) = base s"
  by (induction os arbitrary: s) (auto simp: base_kept)

lemma server_run_other:
  assumes "list_all (\<lambda>o'. \<not> refresh o') os" and "server s \<noteq> None" and "server s \<noteq> Some b"
    and "list_all (\<lambda>o'. announced o' \<noteq> Some b) os"
  shows "server (run apply_op s os) \<noteq> None \<and> server (run apply_op s os) \<noteq> Some b"
  using assms
proof (induction os arbitrary: s)
  case Nil
  then show ?case by simp
next
  case (Cons o' os)
  have "server (apply_op s o') \<noteq> None \<and> server (apply_op s o') \<noteq> Some b"
    using Cons.prems by (cases "announced o'") (auto simp: server_kept server_announced)
  with Cons show ?case by simp
qed

text \<open>No lost update: once another version is announced, no save goes out before a refresh.\<close>

lemma stale_until_refresh:
  assumes "base s = Some b" and "server s = Some v" and "v \<noteq> b"
    and "list_all (\<lambda>o'. \<not> refresh o' \<and> announced o' \<noteq> Some b) os"
  shows "base (run apply_op s os) = Some b \<and> \<not> may_save (run apply_op s os)
    \<and> (\<exists>w. w \<noteq> b \<and> server (run apply_op s os) = Some w)"
proof -
  have no_refresh: "list_all (\<lambda>o'. \<not> refresh o') os" and other: "list_all (\<lambda>o'. announced o' \<noteq> Some b) os"
    using assms(4) by (auto simp: list_all_iff)
  have b: "base (run apply_op s os) = Some b"
    using no_refresh assms(1) by (simp add: base_run)
  moreover have "server (run apply_op s os) \<noteq> None \<and> server (run apply_op s os) \<noteq> Some b"
    using no_refresh other assms(2,3) by (intro server_run_other) auto
  ultimately show ?thesis
    using save_needs_agreement [of "run apply_op s os"] by auto
qed

end

fun vo_refresh :: "millis \<times> vt_op \<Rightarrow> bool" where
  "vo_refresh (_, VO_saved _) = True"
| "vo_refresh (_, VO_reloaded _) = True"
| "vo_refresh (_, VO_reset) = True"
| "vo_refresh _ = False"

fun vo_announced :: "millis \<times> vt_op \<Rightarrow> int option" where
  "vo_announced (_, VO_external v) = Some v"
| "vo_announced _ = None"

lemma vt_apply_frame:
  assumes "\<not> vo_refresh e"
  shows "vs_baseVersion (vt_apply s e) = vs_baseVersion s"
    and "vs_serverVersion (vt_apply s e)
       = (case vo_announced e of None \<Rightarrow> vs_serverVersion s | Some v \<Rightarrow> Some v)"
  using assms by (cases "(s, e)" rule: vt_apply.cases; simp add: machine_simps)+

lemma vt_canSave_agreement:
  "cs_canSave (vt_canSave s) \<Longrightarrow>
   vs_baseVersion s = None \<or> vs_serverVersion s = None \<or> vs_baseVersion s = vs_serverVersion s"
  by (auto simp: vt_canSave_def split: if_splits)

interpretation vts: version_store vt_apply vs_baseVersion vs_serverVersion
  "\<lambda>s. cs_canSave (vt_canSave s)" vo_refresh vo_announced
  by unfold_locales (simp_all add: vt_apply_frame vt_canSave_agreement)

text \<open>
  C5: optimistic concurrency. The base version is known to be \<open>b\<close> and a version other than \<open>b\<close> has
  been announced from outside. Then, after any sequence of edits, clean marks and further
  announcements of versions other than \<open>b\<close> (no save result, reload or reset among them),
  \<open>canSave\<close> refuses; if the tracker is dirty it names staleness as the reason, and gives \<open>b\<close> as
  the base version and some server version other than \<open>b\<close>.
\<close>

theorem vt_no_lost_update:
  assumes "vs_baseVersion s = Some b" and "v \<noteq> b"
    and "list_all (\<lambda>e. \<not> vo_refresh e \<and> vo_announced e \<noteq> Some b) es"
  shows "let s' = run vt_apply (vt_updateServerVersionExternal now v s) es; r = vt_canSave s' in
    \<not> cs_canSave r \<and> (vs_dirty s' \<longrightarrow> cs_reason r = Some CS_stale \<and> cs_baseVersion r = Some b
      \<and> cs_serverVersion r \<noteq> None \<and> cs_serverVersion r \<noteq> Some b)"
  using vts.stale_until_refresh [of "vt_updateServerVersionExternal now v s" b v es] assms
  by (auto simp: machine_simps vt_canSave_def Let_def)

theorem vt_no_lost_update_witness:
  "cs_reason (vt_canSave (run vt_apply
       (vt_updateServerVersionExternal 2 8 (vt_updateFromReload 1 7 (vt_initial 0)))
       [(3, VO_markDirty), (4, VO_external 9), (5, VO_markDirty)])) = Some CS_stale"
  using vt_no_lost_update [of "vt_updateFromReload 1 7 (vt_initial 0)" 7 8
      "[(3, VO_markDirty), (4, VO_external 9), (5, VO_markDirty)]" 2]
  by (simp add: machine_simps Let_def)

text \<open>
  when \<open>canSave\<close> answers. A clean state is refused as such; a dirty state is refused exactly
  when both versions are known and differ, and the result then carries the two versions; saving,
  reloading and editing after either makes it agree. \<open>isStale\<close> is the weaker test: it implies the
  refusal of a dirty state but misses a base ahead of the server.
\<close>

theorem vt_canSave_characterised:
  "(cs_canSave (vt_canSave s) \<longleftrightarrow> vs_dirty s \<and>
      (vs_baseVersion s = None \<or> vs_serverVersion s = None \<or> vs_baseVersion s = vs_serverVersion s)) \<and>
   (cs_reason (vt_canSave s) = Some CS_stale \<longleftrightarrow>
      (\<exists>b v. vs_dirty s \<and> vs_baseVersion s = Some b \<and> vs_serverVersion s = Some v \<and> b \<noteq> v)) \<and>
   cs_canSave (vt_canSave (vt_markDirty t2 (vt_updateFromReload t1 n s))) \<and>
   cs_canSave (vt_canSave (vt_markDirty t2 (vt_updateServerVersion t1 n s))) \<and>
   \<not> (vt_isStale s \<and> cs_canSave (vt_canSave s))"
  by (auto simp: vt_queries machine_simps split: option.splits)

lemma vt_isStale_misses_rollback:
  "\<exists>s. \<not> vt_isStale s \<and> cs_reason (vt_canSave s) = Some CS_stale"
  by (rule exI [of _ "vt_markDirty 2 (vt_updateServerVersionExternal 1 3 (vt_updateFromReload 0 5 (vt_initial 0)))"])
    (simp add: vt_queries machine_simps)

end
