(* ===== verification/Change_Tracker.thy ===== *)
theory Change_Tracker
  imports Interfaces
begin

text \<open>
  \<open>frontend/src/lib/sync/change-tracker.ts\<close>: the changes waiting for a save, the debounce and
  the maximum-delay timer, the fallback interval and the flush. A timer is the time it is due,
  \<open>None\<close> when not armed. \<open>flushNow\<close> is asynchronous: the part up to the awaited callback is
  \<open>ct_flushNow\<close>, which says what it hands to the callback, and the rejected continuation is
  \<open>ct_flush_failed\<close> (a fulfilled callback changes nothing).
\<close>

datatype EntityType =
  ET_workflow | ET_state | ET_transition | ET_image | ET_settings | ET_context

datatype ChangeType = CT_create | CT_update | CT_delete

record ChangeEvent =
  ce_entityType :: EntityType
  ce_entityId :: ident
  ce_changeType :: ChangeType
  ce_timestamp :: millis

record ChangeTrackerConfig =
  cc_debounceDelay :: millis
  cc_maxDelay :: millis
  cc_maxPendingChanges :: int
  cc_fallbackInterval :: millis

record ChangeTrackerUpdate =
  cu_debounceDelay :: "millis option"
  cu_maxDelay :: "millis option"
  cu_maxPendingChanges :: "int option"
  cu_fallbackInterval :: "millis option"

definition CT_DEFAULT_CONFIG :: ChangeTrackerConfig where
  "CT_DEFAULT_CONFIG = \<lparr>cc_debounceDelay = 2000, cc_maxDelay = 30000,
     cc_maxPendingChanges = 100, cc_fallbackInterval = 60000\<rparr>"

record ChangeTracker =
  ct_config :: ChangeTrackerConfig
  ct_pendingChanges :: "ChangeEvent list"
  ct_debounceTimeout :: "millis option"
  ct_maxDelayTimeout :: "millis option"
  ct_fallbackInterval :: "millis option"
  ct_onFlush :: bool
  ct_firstChangeAt :: "millis option"
  ct_lastFlushAt :: "millis option"
  ct_isPaused :: bool

text \<open>\<open>{ ...config, ...update }\<close>.\<close>

definition ct_merge :: "ChangeTrackerUpdate \<Rightarrow> ChangeTrackerConfig \<Rightarrow> ChangeTrackerConfig" where
  "ct_merge u c =
     \<lparr>cc_debounceDelay = (case cu_debounceDelay u of None \<Rightarrow> cc_debounceDelay c | Some d \<Rightarrow> d),
      cc_maxDelay = (case cu_maxDelay u of None \<Rightarrow> cc_maxDelay c | Some d \<Rightarrow> d),
      cc_maxPendingChanges =
        (case cu_maxPendingChanges u of None \<Rightarrow> cc_maxPendingChanges c | Some n \<Rightarrow> n),
      cc_fallbackInterval =
        (case cu_fallbackInterval u of None \<Rightarrow> cc_fallbackInterval c | Some d \<Rightarrow> d)\<rparr>"

definition ct_create :: "ChangeTrackerUpdate \<Rightarrow> ChangeTracker" where
  "ct_create u =
     \<lparr>ct_config = ct_merge u CT_DEFAULT_CONFIG, ct_pendingChanges = [],
      ct_debounceTimeout = None, ct_maxDelayTimeout = None, ct_fallbackInterval = None,
      ct_onFlush = False, ct_firstChangeAt = None, ct_lastFlushAt = None, ct_isPaused = False\<rparr>"

section \<open>Timers\<close>

definition ct_cancelDebounceTimer :: "ChangeTracker \<Rightarrow> ChangeTracker" where
  "ct_cancelDebounceTimer t = t\<lparr>ct_debounceTimeout := None\<rparr>"

definition ct_restartDebounceTimer :: "millis \<Rightarrow> ChangeTracker \<Rightarrow> ChangeTracker" where
  "ct_restartDebounceTimer now t =
     (ct_cancelDebounceTimer t)\<lparr>ct_debounceTimeout := Some (now + cc_debounceDelay (ct_config t))\<rparr>"

definition ct_cancelMaxDelayTimer :: "ChangeTracker \<Rightarrow> ChangeTracker" where
  "ct_cancelMaxDelayTimer t = t\<lparr>ct_maxDelayTimeout := None\<rparr>"

definition ct_startMaxDelayTimer :: "millis \<Rightarrow> ChangeTracker \<Rightarrow> ChangeTracker" where
  "ct_startMaxDelayTimer now t =
     (ct_cancelMaxDelayTimer t)\<lparr>ct_maxDelayTimeout := Some (now + cc_maxDelay (ct_config t))\<rparr>"

definition ct_setupFallbackInterval :: "millis \<Rightarrow> ChangeTracker \<Rightarrow> ChangeTracker" where
  "ct_setupFallbackInterval now t =
     t\<lparr>ct_fallbackInterval :=
         (if 0 < cc_fallbackInterval (ct_config t)
          then Some (now + cc_fallbackInterval (ct_config t)) else None)\<rparr>"

definition ct_cancelAllTimers :: "ChangeTracker \<Rightarrow> ChangeTracker" where
  "ct_cancelAllTimers t =
     (ct_cancelMaxDelayTimer (ct_cancelDebounceTimer t))\<lparr>ct_fallbackInterval := None\<rparr>"

section \<open>Operations\<close>

text \<open>What a flush did with the changes: nothing to flush, no callback to take them, handed over.\<close>

datatype Flush = Flush_nothing | Flush_dropped "ChangeEvent list" | Flush_handed "ChangeEvent list"

definition ct_flushNow :: "millis \<Rightarrow> ChangeTracker \<Rightarrow> ChangeTracker \<times> Flush" where
  "ct_flushNow now t =
     (if ct_pendingChanges t = [] then (t, Flush_nothing)
      else let t1 = ct_cancelMaxDelayTimer (ct_cancelDebounceTimer t);
               changes = ct_pendingChanges t1;
               t2 = t1\<lparr>ct_pendingChanges := [], ct_firstChangeAt := None,
                       ct_lastFlushAt := Some now\<rparr>
           in (t2, if ct_onFlush t2 then Flush_handed changes else Flush_dropped changes))"

definition ct_flush_failed :: "ChangeEvent list \<Rightarrow> ChangeTracker \<Rightarrow> ChangeTracker" where
  "ct_flush_failed changes t =
     t\<lparr>ct_pendingChanges := changes @ ct_pendingChanges t,
       ct_firstChangeAt := (case changes of [] \<Rightarrow> None | c # _ \<Rightarrow> Some (ce_timestamp c))\<rparr>"

definition ct_trackChange :: "millis \<Rightarrow> ChangeEvent \<Rightarrow> ChangeTracker \<Rightarrow> ChangeTracker \<times> Flush" where
  "ct_trackChange now event t =
     (if ct_isPaused t then (t, Flush_nothing)
      else let t1 = t\<lparr>ct_pendingChanges := ct_pendingChanges t @ [event]\<rparr>;
               t2 = (if ct_firstChangeAt t1 = None
                     then ct_startMaxDelayTimer now (t1\<lparr>ct_firstChangeAt := Some now\<rparr>)
                     else t1)
           in if cc_maxPendingChanges (ct_config t2) \<le> int (length (ct_pendingChanges t2))
              then ct_flushNow now t2
              else (ct_restartDebounceTimer now t2, Flush_nothing))"

fun ct_trackChanges :: "millis \<Rightarrow> ChangeEvent list \<Rightarrow> ChangeTracker \<Rightarrow> ChangeTracker \<times> Flush list" where
  "ct_trackChanges now [] t = (t, [])"
| "ct_trackChanges now (e # es) t =
     (let (t1, f) = ct_trackChange now e t; (t2, fs) = ct_trackChanges now es t1 in (t2, f # fs))"

definition ct_cancel :: "ChangeTracker \<Rightarrow> ChangeTracker" where
  "ct_cancel t =
     (ct_cancelMaxDelayTimer (ct_cancelDebounceTimer t))
       \<lparr>ct_pendingChanges := [], ct_firstChangeAt := None\<rparr>"

definition ct_pause :: "ChangeTracker \<Rightarrow> ChangeTracker" where
  "ct_pause t = ct_cancelMaxDelayTimer (ct_cancelDebounceTimer (t\<lparr>ct_isPaused := True\<rparr>))"

definition ct_resume :: "ChangeTracker \<Rightarrow> ChangeTracker" where
  "ct_resume t = t\<lparr>ct_isPaused := False\<rparr>"

definition ct_discard :: "ChangeTracker \<Rightarrow> ChangeTracker" where
  "ct_discard t = ct_cancel t"

definition ct_setFlushCallback :: "ChangeTracker \<Rightarrow> ChangeTracker" where
  "ct_setFlushCallback t = t\<lparr>ct_onFlush := True\<rparr>"

definition ct_start :: "millis \<Rightarrow> ChangeTracker \<Rightarrow> ChangeTracker" where
  "ct_start now t = ct_setupFallbackInterval now t"

definition ct_stop :: "ChangeTracker \<Rightarrow> ChangeTracker" where
  "ct_stop t = ct_cancelAllTimers t"

definition ct_updateConfig :: "millis \<Rightarrow> ChangeTrackerUpdate \<Rightarrow> ChangeTracker \<Rightarrow> ChangeTracker" where
  "ct_updateConfig now u t =
     (let t1 = t\<lparr>ct_config := ct_merge u (ct_config t)\<rparr>
      in if cu_fallbackInterval u \<noteq> None then ct_setupFallbackInterval now t1 else t1)"

text \<open>The callbacks of the three timers.\<close>

definition ct_debounce_fires :: "millis \<Rightarrow> ChangeTracker \<Rightarrow> ChangeTracker \<times> Flush" where
  "ct_debounce_fires now t = ct_flushNow now (t\<lparr>ct_debounceTimeout := None\<rparr>)"

definition ct_maxDelay_fires :: "millis \<Rightarrow> ChangeTracker \<Rightarrow> ChangeTracker \<times> Flush" where
  "ct_maxDelay_fires now t = ct_flushNow now (t\<lparr>ct_maxDelayTimeout := None\<rparr>)"

definition ct_fallback_fires :: "millis \<Rightarrow> ChangeTracker \<Rightarrow> ChangeTracker \<times> Flush" where
  "ct_fallback_fires now t =
     (let t1 = t\<lparr>ct_fallbackInterval := Some (now + cc_fallbackInterval (ct_config t))\<rparr>
      in if ct_pendingChanges t1 \<noteq> [] \<and> \<not> ct_isPaused t1 then ct_flushNow now t1
         else (t1, Flush_nothing))"

definition ct_hasPendingChanges :: "ChangeTracker \<Rightarrow> bool" where
  "ct_hasPendingChanges t = (0 < length (ct_pendingChanges t))"

definition ct_getPendingCount :: "ChangeTracker \<Rightarrow> nat" where
  "ct_getPendingCount t = length (ct_pendingChanges t)"

record ChangeTrackerStatus =
  cs_pendingChanges :: nat
  cs_oldestChangeAt :: "millis option"
  cs_lastFlushAt :: "millis option"
  cs_isWaiting :: bool
  cs_timeUntilFlush :: "millis option"

text \<open>A first change at time 0 counts as absent, as the code's truth test has it.\<close>

definition ct_getStatus :: "millis \<Rightarrow> ChangeTracker \<Rightarrow> ChangeTrackerStatus" where
  "ct_getStatus now t =
     (let first = (if ct_firstChangeAt t = Some 0 then None else ct_firstChangeAt t)
      in \<lparr>cs_pendingChanges = length (ct_pendingChanges t),
          cs_oldestChangeAt = first,
          cs_lastFlushAt = ct_lastFlushAt t,
          cs_isWaiting = (ct_debounceTimeout t \<noteq> None),
          cs_timeUntilFlush =
            (case (ct_debounceTimeout t, first) of
               (Some _, Some f) \<Rightarrow>
                 Some (min (now + cc_debounceDelay (ct_config t))
                           (f + cc_maxDelay (ct_config t)) - now)
             | _ \<Rightarrow> None)\<rparr>)"

lemmas ct_timer_defs =
  ct_cancelDebounceTimer_def ct_restartDebounceTimer_def ct_cancelMaxDelayTimer_def
  ct_startMaxDelayTimer_def ct_setupFallbackInterval_def ct_cancelAllTimers_def
lemmas ct_defs [machine_simps] =
  ct_timer_defs ct_flushNow_def ct_flush_failed_def ct_trackChange_def ct_cancel_def ct_pause_def
  ct_resume_def ct_discard_def ct_setFlushCallback_def ct_start_def ct_stop_def
  ct_debounce_fires_def ct_maxDelay_fires_def ct_fallback_fires_def

section \<open>No change is lost\<close>

text \<open>
  The tracker with the flushes it has started: the batches whose callback is still running, the
  changes whose callback has returned, the changes given up (by a cancel, or by a flush without
  a callback) and every change accepted so far.
\<close>

record CTWorld =
  cw_tracker :: ChangeTracker
  cw_inflight :: "ChangeEvent list list"
  cw_saved :: "ChangeEvent list"
  cw_lost :: "ChangeEvent list"
  cw_accepted :: "ChangeEvent list"

datatype ct_op =
    CO_track ChangeEvent | CO_flushNow | CO_debounce | CO_maxDelay | CO_fallback
  | CO_flush_ok nat | CO_flush_fail nat | CO_cancel | CO_pause | CO_resume
  | CO_start | CO_stop
  | CO_setFlushCallback | CO_updateConfig ChangeTrackerUpdate

fun cw_flush :: "ChangeTracker \<times> Flush \<Rightarrow> CTWorld \<Rightarrow> CTWorld" where
  "cw_flush (t, Flush_nothing) w = w\<lparr>cw_tracker := t\<rparr>"
| "cw_flush (t, Flush_dropped cs) w = w\<lparr>cw_tracker := t, cw_lost := cw_lost w @ cs\<rparr>"
| "cw_flush (t, Flush_handed cs) w = w\<lparr>cw_tracker := t, cw_inflight := cw_inflight w @ [cs]\<rparr>"

fun cw_step :: "CTWorld \<Rightarrow> millis \<times> ct_op \<Rightarrow> CTWorld" where
  "cw_step w (now, CO_track e) =
     cw_flush (ct_trackChange now e (cw_tracker w))
       (if ct_isPaused (cw_tracker w) then w else w\<lparr>cw_accepted := cw_accepted w @ [e]\<rparr>)"
| "cw_step w (now, CO_flushNow) = cw_flush (ct_flushNow now (cw_tracker w)) w"
| "cw_step w (now, CO_debounce) =
     (if ct_debounceTimeout (cw_tracker w) = None then w
      else cw_flush (ct_debounce_fires now (cw_tracker w)) w)"
| "cw_step w (now, CO_maxDelay) =
     (if ct_maxDelayTimeout (cw_tracker w) = None then w
      else cw_flush (ct_maxDelay_fires now (cw_tracker w)) w)"
| "cw_step w (now, CO_fallback) =
     (if ct_fallbackInterval (cw_tracker w) = None then w
      else cw_flush (ct_fallback_fires now (cw_tracker w)) w)"
| "cw_step w (now, CO_flush_ok i) =
     (if i < length (cw_inflight w)
      then w\<lparr>cw_inflight := del_at i (cw_inflight w), cw_saved := cw_saved w @ cw_inflight w ! i\<rparr>
      else w)"
| "cw_step w (now, CO_flush_fail i) =
     (if i < length (cw_inflight w)
      then w\<lparr>cw_inflight := del_at i (cw_inflight w),
              cw_tracker := ct_flush_failed (cw_inflight w ! i) (cw_tracker w)\<rparr>
      else w)"
| "cw_step w (now, CO_start) = w\<lparr>cw_tracker := ct_start now (cw_tracker w)\<rparr>"
| "cw_step w (now, CO_stop) = w\<lparr>cw_tracker := ct_stop (cw_tracker w)\<rparr>"
| "cw_step w (now, CO_cancel) =
     w\<lparr>cw_tracker := ct_cancel (cw_tracker w),
       cw_lost := cw_lost w @ ct_pendingChanges (cw_tracker w)\<rparr>"
| "cw_step w (now, CO_pause) = w\<lparr>cw_tracker := ct_pause (cw_tracker w)\<rparr>"
| "cw_step w (now, CO_resume) = w\<lparr>cw_tracker := ct_resume (cw_tracker w)\<rparr>"
| "cw_step w (now, CO_setFlushCallback) = w\<lparr>cw_tracker := ct_setFlushCallback (cw_tracker w)\<rparr>"
| "cw_step w (now, CO_updateConfig u) = w\<lparr>cw_tracker := ct_updateConfig now u (cw_tracker w)\<rparr>"

definition cw_initial :: "ChangeTrackerUpdate \<Rightarrow> CTWorld" where
  "cw_initial u = \<lparr>cw_tracker = ct_setFlushCallback (ct_create u), cw_inflight = [],
     cw_saved = [], cw_lost = [], cw_accepted = []\<rparr>"

lemma mset_concat_nth:
  "i < length xs \<Longrightarrow> mset (concat xs) = mset (xs ! i) + mset (concat (del_at i xs))"
proof -
  assume "i < length xs"
  then have "xs = take i xs @ xs ! i # drop (Suc i) xs" by (rule id_take_nth_drop)
  then have "concat xs = concat (take i xs) @ xs ! i @ concat (drop (Suc i) xs)" by (metis concat.simps(2) concat_append)
  then show ?thesis by (simp add: del_at_def)
qed

definition cw_conserved :: "CTWorld \<Rightarrow> bool" where
  "cw_conserved w \<longleftrightarrow>
     mset (cw_accepted w) = mset (ct_pendingChanges (cw_tracker w)) + mset (concat (cw_inflight w))
       + mset (cw_saved w) + mset (cw_lost w)"

lemma ct_updateConfig_frame [simp]:
  "ct_pendingChanges (ct_updateConfig now u t) = ct_pendingChanges t"
  "ct_onFlush (ct_updateConfig now u t) = ct_onFlush t"
  "ct_isPaused (ct_updateConfig now u t) = ct_isPaused t"
  "ct_debounceTimeout (ct_updateConfig now u t) = ct_debounceTimeout t"
  "ct_maxDelayTimeout (ct_updateConfig now u t) = ct_maxDelayTimeout t"
  "ct_firstChangeAt (ct_updateConfig now u t) = ct_firstChangeAt t"
  by (simp_all add: ct_updateConfig_def ct_setupFallbackInterval_def Let_def)

lemma cw_conserved_step: "cw_conserved w \<Longrightarrow> cw_conserved (cw_step w e)"
  by (cases "(w, e)" rule: cw_step.cases)
    (auto simp: cw_conserved_def machine_simps Let_def mset_concat_nth split: list.splits)

lemma cw_onFlush_step: "ct_onFlush (cw_tracker w) \<Longrightarrow> ct_onFlush (cw_tracker (cw_step w e))"
  by (cases "(w, e)" rule: cw_step.cases) (auto simp: machine_simps Let_def split: list.splits)

lemma cw_lost_step:
  "ct_onFlush (cw_tracker w) \<Longrightarrow> snd e \<noteq> CO_cancel \<Longrightarrow> cw_lost (cw_step w e) = cw_lost w"
  by (cases "(w, e)" rule: cw_step.cases) (auto simp: machine_simps Let_def split: list.splits)

interpretation cwi: invariant_machine cw_step cw_conserved
  by unfold_locales (rule cw_conserved_step)

lemma cw_lost_run:
  "ct_onFlush (cw_tracker w) \<Longrightarrow> list_all (\<lambda>e. snd e \<noteq> CO_cancel) es
     \<Longrightarrow> cw_lost (run cw_step w es) = cw_lost w"
  by (induction es arbitrary: w) (auto simp: cw_onFlush_step cw_lost_step)

text \<open>
  C33: no change is lost or duplicated. From a tracker with a callback and whatever happens since
  (changes, flushes, timers, callbacks that return or fail in any order, starts and stops, pauses, configuration
  changes),
  every accepted change is exactly once pending, with a running callback, saved, or given up; and
  without a cancel nothing is given up.
\<close>

theorem ct_changes_conserved:
  "cw_conserved (run cw_step (cw_initial u) es) \<and>
   (list_all (\<lambda>e. snd e \<noteq> CO_cancel) es \<longrightarrow> cw_lost (run cw_step (cw_initial u) es) = [])"
proof -
  have "cw_conserved (cw_initial u)"
    by (simp add: cw_conserved_def cw_initial_def ct_create_def ct_setFlushCallback_def)
  moreover have "list_all (\<lambda>e. snd e \<noteq> CO_cancel) es
      \<Longrightarrow> cw_lost (run cw_step (cw_initial u) es) = cw_lost (cw_initial u)"
    by (rule cw_lost_run) (simp_all add: cw_initial_def ct_setFlushCallback_def)
  ultimately show ?thesis by (simp add: cwi.inv_run cw_initial_def)
qed

definition ce_example :: "string \<Rightarrow> millis \<Rightarrow> ChangeEvent" where
  "ce_example i t = \<lparr>ce_entityType = ET_state, ce_entityId = i, ce_changeType = CT_update,
     ce_timestamp = t\<rparr>"

definition cu_none :: ChangeTrackerUpdate where
  "cu_none = \<lparr>cu_debounceDelay = None, cu_maxDelay = None, cu_maxPendingChanges = None,
     cu_fallbackInterval = None\<rparr>"

theorem ct_changes_conserved_witness:
  "cw_lost (run cw_step (cw_initial cu_none)
     [(1, CO_track (ce_example ''a'' 1)), (2, CO_flushNow), (3, CO_flush_fail 0)]) = []"
  using ct_changes_conserved
    [of cu_none "[(1, CO_track (ce_example ''a'' 1)), (2, CO_flushNow), (3, CO_flush_fail 0)]"]
  by simp

section \<open>The timers\<close>

text \<open>
  The timers are in order when nothing pends and none of the two runs, or when changes pend,
  the maximum-delay timer is due \<open>d\<close> after the first of them and the debounce timer runs.
\<close>

definition ct_timed :: "millis \<Rightarrow> ChangeTracker \<Rightarrow> bool" where
  "ct_timed d t \<longleftrightarrow>
     (if ct_pendingChanges t = [] then ct_firstChangeAt t = None \<and> ct_maxDelayTimeout t = None
      else (\<exists>f. ct_firstChangeAt t = Some f \<and> ct_maxDelayTimeout t = Some (f + d)) \<and>
           ct_debounceTimeout t \<noteq> None)"

text \<open>The operations that keep the timers in order: all but a pause, a stop, a failed
  flush and a reconfiguration.\<close>

fun co_smooth :: "millis \<times> ct_op \<Rightarrow> bool" where
  "co_smooth (_, CO_pause) = False"
| "co_smooth (_, CO_flush_fail _) = False"
| "co_smooth (_, CO_stop) = False"
| "co_smooth (_, CO_updateConfig u) = False"
| "co_smooth _ = True"

lemma ct_config_frame:
  "co_smooth e \<Longrightarrow> ct_config (cw_tracker (cw_step w e)) = ct_config (cw_tracker w)"
  by (cases "(w, e)" rule: cw_step.cases) (auto simp: machine_simps Let_def split: list.splits)

lemma ct_timed_step:
  assumes "ct_timed (cc_maxDelay (ct_config (cw_tracker w))) (cw_tracker w)" and "co_smooth e"
  shows "ct_timed (cc_maxDelay (ct_config (cw_tracker w))) (cw_tracker (cw_step w e))"
  using assms
  by (cases "(w, e)" rule: cw_step.cases)
    (auto simp: machine_simps ct_timed_def Let_def split: list.splits if_splits)

lemma ct_timed_run:
  assumes "ct_timed (cc_maxDelay (ct_config (cw_tracker w))) (cw_tracker w)"
    and "list_all co_smooth es"
  shows "ct_timed (cc_maxDelay (ct_config (cw_tracker w))) (cw_tracker (run cw_step w es))"
  using assms
proof (induction es arbitrary: w)
  case Nil
  then show ?case by simp
next
  case (Cons e es)
  then show ?case
    using ct_timed_step [of w e] ct_config_frame [of e w] Cons.IH [of "cw_step w e"] by simp
qed

lemma ct_maxDelay_flushes_all:
  assumes "ct_onFlush t" and "ct_pendingChanges t \<noteq> []"
  shows "snd (ct_maxDelay_fires now t) = Flush_handed (ct_pendingChanges t)
       \<and> ct_pendingChanges (fst (ct_maxDelay_fires now t)) = []"
  using assms by (simp add: machine_simps Let_def)

text \<open>
  bounded latency. After any run without a pause, a stop, a failed flush or a reconfiguration, changes
  that pend have the maximum-delay timer armed at exactly the maximum delay after the first of
  them, however often the debounce was restarted; and when that timer fires, all of them, in
  order, are handed to the callback.
\<close>

theorem ct_bounded_latency:
  assumes "list_all co_smooth es" and "t = cw_tracker (run cw_step (cw_initial u) es)"
    and "ct_pendingChanges t \<noteq> []"
  shows "(\<exists>f. ct_firstChangeAt t = Some f \<and>
             ct_maxDelayTimeout t = Some (f + cc_maxDelay (ct_merge u CT_DEFAULT_CONFIG))) \<and>
         snd (ct_maxDelay_fires now t) = Flush_handed (ct_pendingChanges t) \<and>
         ct_pendingChanges (fst (ct_maxDelay_fires now t)) = []"
proof -
  have init: "ct_timed (cc_maxDelay (ct_config (cw_tracker (cw_initial u)))) (cw_tracker (cw_initial u))"
    and cfg: "ct_config (cw_tracker (cw_initial u)) = ct_merge u CT_DEFAULT_CONFIG"
    by (simp_all add: cw_initial_def ct_create_def ct_setFlushCallback_def ct_timed_def)
  have "ct_onFlush (cw_tracker (run cw_step (cw_initial u) es))"
  proof (rule invariant_machine.inv_run)
    show "invariant_machine cw_step (\<lambda>w. ct_onFlush (cw_tracker w))"
      by unfold_locales (rule cw_onFlush_step)
  qed (simp add: cw_initial_def ct_setFlushCallback_def)
  with ct_timed_run [OF init assms(1)] assms(2,3) show ?thesis
    by (simp add: ct_timed_def cfg ct_maxDelay_flushes_all)
qed

theorem ct_bounded_latency_witness:
  "\<exists>f. ct_firstChangeAt (cw_tracker (run cw_step (cw_initial cu_none)
         [(1, CO_track (ce_example ''a'' 1)), (1500, CO_track (ce_example ''b'' 1500))])) = Some f
     \<and> ct_maxDelayTimeout (cw_tracker (run cw_step (cw_initial cu_none)
         [(1, CO_track (ce_example ''a'' 1)), (1500, CO_track (ce_example ''b'' 1500))]))
       = Some (f + cc_maxDelay (ct_merge cu_none CT_DEFAULT_CONFIG))"
  by (rule ct_bounded_latency [THEN conjunct1, OF _ refl])
    (simp_all add: cw_initial_def ct_create_def cu_none_def ct_merge_def CT_DEFAULT_CONFIG_def
      machine_simps Let_def)

text \<open>
  The bound is lost by a failed flush. Once a flush has failed, tracking further changes,
  however many, never arms the maximum-delay timer again (the first change is not absent), so only
  the debounce, which every change postpones, and the fallback interval are left; this holds until
  the pending changes reach their maximum.
\<close>

theorem ct_failed_flush_loses_bound:
  assumes "changes \<noteq> []" and "ct_maxDelayTimeout t = None"
    and "int (length (changes @ ct_pendingChanges t) + length es) < cc_maxPendingChanges (ct_config t)"
  shows "ct_maxDelayTimeout
           (run (\<lambda>t e. fst (ct_trackChange (fst e) (snd e) t)) (ct_flush_failed changes t) es) = None"
proof -
  have "ct_maxDelayTimeout (run (\<lambda>t e. fst (ct_trackChange (fst e) (snd e) t)) s es) = None"
    if "ct_firstChangeAt s \<noteq> None" "ct_maxDelayTimeout s = None"
      "int (length (ct_pendingChanges s) + length es) < cc_maxPendingChanges (ct_config s)" for s
    using that
  proof (induction es arbitrary: s)
    case Nil
    then show ?case by simp
  next
    case (Cons e es)
    let ?s = "fst (ct_trackChange (fst e) (snd e) s)"
    have "ct_firstChangeAt ?s \<noteq> None" "ct_maxDelayTimeout ?s = None"
      "int (length (ct_pendingChanges ?s) + length es) < cc_maxPendingChanges (ct_config ?s)"
      using Cons.prems by (auto simp: ct_trackChange_def Let_def ct_timer_defs)
    then show ?case by (simp add: Cons.IH)
  qed
  from this [of "ct_flush_failed changes t"] assms show ?thesis
    by (cases changes) (simp_all add: ct_flush_failed_def)
qed

theorem ct_failed_flush_loses_bound_witness:
  "ct_maxDelayTimeout
     (run (\<lambda>t e. fst (ct_trackChange (fst e) (snd e) t))
        (ct_flush_failed [ce_example ''a'' 1] (ct_setFlushCallback (ct_create cu_none)))
        [(2, ce_example ''b'' 2), (3, ce_example ''c'' 3)]) = None"
  by (rule ct_failed_flush_loses_bound)
    (simp_all add: ct_create_def cu_none_def ct_merge_def CT_DEFAULT_CONFIG_def ct_setFlushCallback_def)

end
