(* ===== verification/Sync_Coordinator.thy ===== *)
theory Sync_Coordinator
  imports Sync_State_Machine Version_Tracker Change_Tracker
begin

text \<open>
  \<open>frontend/src/lib/sync/sync-coordinator.ts\<close>: the coordinator that runs the state machine, the
  version tracker and the change tracker together. Its asynchronous operations are cut at their
  awaits: a save that is under way is an entry of \<open>co_inflight\<close> (the expected version it sent and
  the batch of changes whose flush waits for it), a reload that is under way is counted in
  \<open>co_reloads\<close>, and what the registered functions answer arrives as a step of its own.
  The web socket client and its connection state, the listeners, the log, the \<open>beforeunload\<close>
  request and the booleans that the promises of \<open>saveNow\<close> and \<open>reload\<close> resolve to are left out.
\<close>

record SaveResult =
  sv_success :: bool
  sv_newVersion :: "int option"
  sv_error :: "string option"
  sv_isConflict :: bool
  sv_serverVersion :: "int option"

datatype WsEvent =
    WS_LOCK_ACQUIRED string string string
  | WS_LOCK_RELEASED string int
  | WS_VERSION_UPDATED int string
  | WS_CONFLICT int int
  | WS_PING
  | WS_ERROR string

record Coordinator =
  co_projectId :: "string option"
  co_enabled :: bool
  co_authToken :: "string option"
  co_sm :: SyncContext
  co_vt :: VersionState
  co_ct :: ChangeTracker
  co_hasSave :: bool
  co_hasReload :: bool
  co_hasGetter :: bool
  co_inflight :: "(int option \<times> ChangeEvent list) list"
  co_reloads :: nat

record CoordinatorUpdate =
  cp_projectId :: "string option option"
  cp_enabled :: "bool option"
  cp_authToken :: "string option option"
  cp_changeTracker :: "ChangeTrackerUpdate option"

definition co_create :: "millis \<Rightarrow> Coordinator" where
  "co_create now =
     \<lparr>co_projectId = None, co_enabled = True, co_authToken = None,
      co_sm = sync_initial now, co_vt = vt_initial now,
      co_ct = ct_create \<lparr>cu_debounceDelay = None, cu_maxDelay = None,
                         cu_maxPendingChanges = None, cu_fallbackInterval = None\<rparr>,
      co_hasSave = False, co_hasReload = False, co_hasGetter = False,
      co_inflight = [], co_reloads = 0\<rparr>"

definition co_send :: "millis \<Rightarrow> SyncEvent \<Rightarrow> Coordinator \<Rightarrow> Coordinator" where
  "co_send now ev co = co\<lparr>co_sm := sync_send now (co_sm co) ev\<rparr>"

text \<open>\<open>{ ...config, ...update }\<close> on the three fields kept.\<close>

definition co_merge :: "CoordinatorUpdate \<Rightarrow> Coordinator \<Rightarrow> Coordinator" where
  "co_merge u co =
     co\<lparr>co_projectId := (case cp_projectId u of None \<Rightarrow> co_projectId co | Some p \<Rightarrow> p),
        co_enabled := (case cp_enabled u of None \<Rightarrow> co_enabled co | Some b \<Rightarrow> b),
        co_authToken := (case cp_authToken u of None \<Rightarrow> co_authToken co | Some a \<Rightarrow> a)\<rparr>"

definition given :: "string option option \<Rightarrow> string option" where
  "given p = (case p of None \<Rightarrow> None | Some q \<Rightarrow> q)"

definition co_initialize :: "millis \<Rightarrow> CoordinatorUpdate \<Rightarrow> Coordinator \<Rightarrow> Coordinator" where
  "co_initialize now u co =
     (let c1 = co_merge u co;
          c2 = (case cp_changeTracker u of None \<Rightarrow> c1
                | Some cu \<Rightarrow> c1\<lparr>co_ct := ct_updateConfig now cu (co_ct c1)\<rparr>);
          c3 = c2\<lparr>co_ct := ct_start now (ct_setFlushCallback (co_ct c2))\<rparr>
      in if truthy (given (cp_projectId u)) \<and> truthy (given (cp_authToken u))
         then co_send now (SE_SET_PROJECT (the (given (cp_projectId u)))) c3
         else c3)"

definition co_updateConfig :: "millis \<Rightarrow> CoordinatorUpdate \<Rightarrow> Coordinator \<Rightarrow> Coordinator" where
  "co_updateConfig now u co =
     (let old = co_projectId co;
          c1 = co_merge u co;
          c2 = (if truthy (given (cp_projectId u)) \<and> given (cp_projectId u) \<noteq> old \<and>
                   (truthy (given (cp_authToken u)) \<or> truthy (co_authToken c1))
                then co_send now (SE_SET_PROJECT (the (given (cp_projectId u)))) c1
                else c1)
      in case cp_changeTracker u of None \<Rightarrow> c2
         | Some cu \<Rightarrow> c2\<lparr>co_ct := ct_updateConfig now cu (co_ct c2)\<rparr>)"

definition co_registerSaveFunction :: "Coordinator \<Rightarrow> Coordinator" where
  "co_registerSaveFunction co = co\<lparr>co_hasSave := True\<rparr>"

definition co_registerReloadFunction :: "Coordinator \<Rightarrow> Coordinator" where
  "co_registerReloadFunction co = co\<lparr>co_hasReload := True\<rparr>"

definition co_registerConfigurationGetter :: "Coordinator \<Rightarrow> Coordinator" where
  "co_registerConfigurationGetter co = co\<lparr>co_hasGetter := True\<rparr>"

section \<open>Saving\<close>

text \<open>
  \<open>performSave\<close> up to the call of the save function: the new state, and the expected version sent
  when the call is made. \<open>hasData\<close> is what the registered getter's configuration amounts to.
\<close>

definition co_performSave :: "millis \<Rightarrow> bool \<Rightarrow> Coordinator \<Rightarrow> Coordinator \<times> int option option" where
  "co_performSave now hasData co =
     (if sync_isSaveBlocked (co_sm co) then (co, None)
      else let r = vt_canSave (co_vt co) in
        if \<not> cs_canSave r
        then (case (cs_reason r, cs_serverVersion r) of
                (Some CS_stale, Some v) \<Rightarrow>
                  (co_send now (SE_CONFLICT_DETECTED (vt_getLocalVersion (co_vt co)) v) co, None)
              | _ \<Rightarrow> (co, None))
        else if \<not> truthy (co_projectId co) \<or> \<not> co_hasSave co then (co, None)
        else if co_hasGetter co \<and> \<not> hasData then (co, None)
        else (co_send now (SE_SAVE_STARTED (vt_getLocalVersion (co_vt co))) co,
              Some (vt_getExpectedVersion (co_vt co))))"

text \<open>What the change tracker's flush does next: its callback runs \<open>performSave\<close>.\<close>

fun co_flush :: "millis \<Rightarrow> bool \<Rightarrow> ChangeTracker \<times> Flush \<Rightarrow> Coordinator \<Rightarrow> Coordinator" where
  "co_flush now hasData (t, Flush_handed batch) co =
     (case co_performSave now hasData (co\<lparr>co_ct := t\<rparr>) of
        (c1, None) \<Rightarrow> c1
      | (c1, Some expected) \<Rightarrow> c1\<lparr>co_inflight := co_inflight c1 @ [(expected, batch)]\<rparr>)"
| "co_flush now hasData (t, _) co = co\<lparr>co_ct := t\<rparr>"

text \<open>The continuation of \<open>performSave\<close> when the save function returned, and when it threw.\<close>

definition co_save_returned :: "millis \<Rightarrow> SaveResult \<Rightarrow> Coordinator \<Rightarrow> Coordinator" where
  "co_save_returned now r co =
     (if sv_success r \<and> sv_newVersion r \<noteq> None
      then co_send now (SE_SAVE_COMPLETED (the (sv_newVersion r)))
             (co\<lparr>co_vt := vt_updateServerVersion now (the (sv_newVersion r)) (co_vt co)\<rparr>)
      else if sv_isConflict r \<and> sv_serverVersion r \<noteq> None
      then co_send now (SE_SAVE_REJECTED (the (sv_serverVersion r))) co
      else co_send now
             (SE_ERROR (case sv_error r of None \<Rightarrow> ''Unknown save error'' | Some e \<Rightarrow> e)) co)"

definition co_save_threw :: "millis \<Rightarrow> string \<Rightarrow> ChangeEvent list \<Rightarrow> Coordinator \<Rightarrow> Coordinator" where
  "co_save_threw now msg batch co =
     (let c1 = co_send now (SE_ERROR msg) co in c1\<lparr>co_ct := ct_flush_failed batch (co_ct c1)\<rparr>)"

definition co_trackChange :: "millis \<Rightarrow> bool \<Rightarrow> ChangeEvent \<Rightarrow> Coordinator \<Rightarrow> Coordinator" where
  "co_trackChange now hasData event co =
     (if \<not> co_enabled co \<or> \<not> truthy (co_projectId co) then co
      else if sync_isEditBlocked (co_sm co) then co
      else let c1 = co_send now SE_USER_EDIT (co\<lparr>co_vt := vt_markDirty now (co_vt co)\<rparr>)
           in co_flush now hasData (ct_trackChange now event (co_ct c1)) c1)"

definition co_scheduleSave :: "millis \<Rightarrow> bool \<Rightarrow> Coordinator \<Rightarrow> Coordinator" where
  "co_scheduleSave now hasData co =
     co_trackChange now hasData
       \<lparr>ce_entityType = ET_settings, ce_entityId = ''legacy'', ce_changeType = CT_update,
        ce_timestamp = now\<rparr> co"

definition co_saveNow :: "millis \<Rightarrow> bool \<Rightarrow> Coordinator \<Rightarrow> Coordinator" where
  "co_saveNow now hasData co =
     (if sync_isSaveBlocked (co_sm co) then co
      else co_flush now hasData (ct_flushNow now (co_ct co)) co)"

section \<open>Reloading\<close>

definition co_performReload :: "millis \<Rightarrow> Coordinator \<Rightarrow> Coordinator" where
  "co_performReload now co =
     (if \<not> co_hasReload co then co
      else let c1 = co_send now SE_RELOAD_STARTED (co\<lparr>co_ct := ct_cancel (co_ct co)\<rparr>)
           in c1\<lparr>co_reloads := Suc (co_reloads c1)\<rparr>)"

definition co_reload_returned :: "millis \<Rightarrow> int \<Rightarrow> Coordinator \<Rightarrow> Coordinator" where
  "co_reload_returned now version co =
     co_send now (SE_RELOAD_COMPLETED version)
       (co\<lparr>co_vt := vt_updateFromReload now version (co_vt co)\<rparr>)"

definition co_reload_threw :: "millis \<Rightarrow> string \<Rightarrow> Coordinator \<Rightarrow> Coordinator" where
  "co_reload_threw now msg co = co_send now (SE_ERROR msg) co"

definition co_setLoadingFromBackend :: "millis \<Rightarrow> bool \<Rightarrow> Coordinator \<Rightarrow> Coordinator" where
  "co_setLoadingFromBackend now loading co =
     (if loading then co_send now SE_RELOAD_STARTED co
      else co_send now (SE_RELOAD_COMPLETED
             (case vt_getServerVersion (co_vt co) of None \<Rightarrow> 0 | Some v \<Rightarrow> v)) co)"

definition co_updateServerVersion :: "millis \<Rightarrow> int \<Rightarrow> bool \<Rightarrow> Coordinator \<Rightarrow> Coordinator" where
  "co_updateServerVersion now version isReload co =
     co\<lparr>co_vt := (if isReload then vt_updateFromReload now version (co_vt co)
                  else vt_updateServerVersion now version (co_vt co))\<rparr>"

definition co_destroy :: "millis \<Rightarrow> Coordinator \<Rightarrow> Coordinator" where
  "co_destroy now co =
     co_send now SE_RESET (co\<lparr>co_ct := ct_stop (co_ct co), co_vt := vt_reset now (co_vt co)\<rparr>)"

fun co_handleWebSocketEvent :: "millis \<Rightarrow> WsEvent \<Rightarrow> Coordinator \<Rightarrow> Coordinator" where
  "co_handleWebSocketEvent now (WS_LOCK_ACQUIRED lockId operation userId) co =
     co_send now (SE_LOCK_ACQUIRED lockId operation userId)
       (co\<lparr>co_ct := ct_cancel (co_ct co), co_vt := vt_markClean now (co_vt co)\<rparr>)"
| "co_handleWebSocketEvent now (WS_LOCK_RELEASED lockId newVersion) co =
     co_performReload now
       (co_send now (SE_LOCK_RELEASED lockId (Some newVersion))
          (co\<lparr>co_vt := vt_updateServerVersionExternal now newVersion (co_vt co)\<rparr>))"
| "co_handleWebSocketEvent now (WS_VERSION_UPDATED version source) co =
     co\<lparr>co_vt := vt_updateServerVersionExternal now version (co_vt co)\<rparr>"
| "co_handleWebSocketEvent now (WS_CONFLICT localVersion serverVersion) co =
     co_send now (SE_CONFLICT_DETECTED localVersion serverVersion) co"
| "co_handleWebSocketEvent now (WS_ERROR message) co = co"
| "co_handleWebSocketEvent now WS_PING co = co"

record CoStatus =
  st_state :: SyncState
  st_isSyncing :: bool
  st_isSaveBlocked :: bool
  st_hasPendingChanges :: bool
  st_lastSyncedAt :: "millis option"
  st_lastError :: "string option"
  st_activeOperation :: "string option"
  st_localVersion :: int
  st_serverVersion :: "int option"
  st_isStale :: bool

definition co_getStatus :: "Coordinator \<Rightarrow> CoStatus" where
  "co_getStatus co =
     \<lparr>st_state = sc_state (co_sm co),
      st_isSyncing = sync_isSyncing (co_sm co),
      st_isSaveBlocked = sync_isSaveBlocked (co_sm co),
      st_hasPendingChanges = (ct_hasPendingChanges (co_ct co) \<or> vs_dirty (co_vt co)),
      st_lastSyncedAt = sc_lastSyncedAt (co_sm co),
      st_lastError = sc_error (co_sm co),
      st_activeOperation = sc_activeOperation (co_sm co),
      st_localVersion = vs_localVersion (co_vt co),
      st_serverVersion = vs_serverVersion (co_vt co),
      st_isStale = vt_isStale (co_vt co)\<rparr>"

section \<open>Steps\<close>

text \<open>
  Everything that can happen to the coordinator, in any order: calls of its operations, timers of
  the change tracker, web socket events, and the answers of the saves and reloads under way.
  \<open>data\<close> says whether the configuration getter gives something when it is asked at a time.
\<close>

datatype co_op =
    CE_initialize CoordinatorUpdate | CE_updateConfig CoordinatorUpdate
  | CE_registerSave | CE_registerReload | CE_registerGetter
  | CE_trackChange ChangeEvent | CE_scheduleSave | CE_saveNow
  | CE_debounce | CE_maxDelay | CE_fallback
  | CE_save_returned nat SaveResult | CE_save_threw nat string
  | CE_reload | CE_reload_returned int | CE_reload_threw string
  | CE_setLoading bool | CE_updateServerVersion int bool | CE_ws WsEvent | CE_destroy

definition co_drop :: "nat \<Rightarrow> Coordinator \<Rightarrow> Coordinator" where
  "co_drop i co = co\<lparr>co_inflight := take i (co_inflight co) @ drop (Suc i) (co_inflight co)\<rparr>"

fun co_step :: "(millis \<Rightarrow> bool) \<Rightarrow> Coordinator \<Rightarrow> millis \<times> co_op \<Rightarrow> Coordinator" where
  "co_step data co (now, CE_initialize u) = co_initialize now u co"
| "co_step data co (now, CE_updateConfig u) = co_updateConfig now u co"
| "co_step data co (now, CE_registerSave) = co_registerSaveFunction co"
| "co_step data co (now, CE_registerReload) = co_registerReloadFunction co"
| "co_step data co (now, CE_registerGetter) = co_registerConfigurationGetter co"
| "co_step data co (now, CE_trackChange e) = co_trackChange now (data now) e co"
| "co_step data co (now, CE_scheduleSave) = co_scheduleSave now (data now) co"
| "co_step data co (now, CE_saveNow) = co_saveNow now (data now) co"
| "co_step data co (now, CE_debounce) =
     (if ct_debounceTimeout (co_ct co) = None then co
      else co_flush now (data now) (ct_debounce_fires now (co_ct co)) co)"
| "co_step data co (now, CE_maxDelay) =
     (if ct_maxDelayTimeout (co_ct co) = None then co
      else co_flush now (data now) (ct_maxDelay_fires now (co_ct co)) co)"
| "co_step data co (now, CE_fallback) =
     (if ct_fallbackInterval (co_ct co) = None then co
      else co_flush now (data now) (ct_fallback_fires now (co_ct co)) co)"
| "co_step data co (now, CE_save_returned i r) =
     (if i < length (co_inflight co) then co_save_returned now r (co_drop i co) else co)"
| "co_step data co (now, CE_save_threw i msg) =
     (if i < length (co_inflight co)
      then co_save_threw now msg (snd (co_inflight co ! i)) (co_drop i co) else co)"
| "co_step data co (now, CE_reload) = co_performReload now co"
| "co_step data co (now, CE_reload_returned v) =
     (case co_reloads co of 0 \<Rightarrow> co
      | Suc n \<Rightarrow> co_reload_returned now v (co\<lparr>co_reloads := n\<rparr>))"
| "co_step data co (now, CE_reload_threw msg) =
     (case co_reloads co of 0 \<Rightarrow> co
      | Suc n \<Rightarrow> co_reload_threw now msg (co\<lparr>co_reloads := n\<rparr>))"
| "co_step data co (now, CE_setLoading b) = co_setLoadingFromBackend now b co"
| "co_step data co (now, CE_updateServerVersion v r) = co_updateServerVersion now v r co"
| "co_step data co (now, CE_ws ev) = co_handleWebSocketEvent now ev co"
| "co_step data co (now, CE_destroy) = co_destroy now co"

lemmas co_defs =
  co_send_def co_merge_def co_initialize_def co_updateConfig_def co_registerSaveFunction_def
  co_registerReloadFunction_def co_registerConfigurationGetter_def co_save_returned_def
  co_save_threw_def co_trackChange_def co_scheduleSave_def co_saveNow_def co_performReload_def
  co_reload_returned_def co_reload_threw_def co_setLoadingFromBackend_def
  co_updateServerVersion_def co_destroy_def co_drop_def co_performSave_def

section \<open>The coordinator drives the state machine by events only\<close>

lemma co_sm_fields [simp]:
  "co_sm (co_merge u co) = co_sm co"
  "co_sm (co_drop i co) = co_sm co"
  by (simp_all add: co_merge_def co_drop_def)

lemma co_performSave_inv: "sync_inv (co_sm co) \<Longrightarrow> sync_inv (co_sm (fst (co_performSave now data co)))"
  by (auto simp: co_performSave_def co_send_def Let_def sync_inv_send
      split: option.splits CanSave_reason.splits)

lemma co_flush_inv: "sync_inv (co_sm co) \<Longrightarrow> sync_inv (co_sm (co_flush now data tf co))"
proof (cases "(now, data, tf, co)" rule: co_flush.cases)
  case (1 now' data' t batch co')
  then show "sync_inv (co_sm co) \<Longrightarrow> ?thesis"
    using co_performSave_inv [of "co\<lparr>co_ct := t\<rparr>" now data]
    by (auto split: prod.splits option.splits)
qed auto

lemma co_step_inv: "sync_inv (co_sm co) \<Longrightarrow> sync_inv (co_sm (co_step data co e))"
proof (cases "(data, co, e)" rule: co_step.cases)
  case (6 d c now ev)
  then show "sync_inv (co_sm co) \<Longrightarrow> ?thesis"
    by (auto simp: co_trackChange_def co_send_def Let_def intro!: co_flush_inv sync_inv_send)
next
  case (7 d c now)
  then show "sync_inv (co_sm co) \<Longrightarrow> ?thesis"
    by (auto simp: co_scheduleSave_def co_trackChange_def co_send_def Let_def
        intro!: co_flush_inv sync_inv_send)
next
  case (19 d c now ev)
  then show "sync_inv (co_sm co) \<Longrightarrow> ?thesis"
    by (cases ev) (auto simp: co_performReload_def co_send_def Let_def intro!: sync_inv_send)
qed (auto simp: co_initialize_def co_updateConfig_def co_registerSaveFunction_def
      co_registerReloadFunction_def co_registerConfigurationGetter_def co_saveNow_def
      co_save_returned_def co_save_threw_def co_performReload_def co_reload_returned_def
      co_reload_threw_def co_setLoadingFromBackend_def co_updateServerVersion_def co_destroy_def
      co_send_def Let_def intro!: co_flush_inv sync_inv_send
      split: option.splits nat.splits bool.splits)

interpretation coi: invariant_machine "co_step data" "\<lambda>co. sync_inv (co_sm co)" for data
  by unfold_locales (rule co_step_inv)

section \<open>When a save goes out\<close>

text \<open>
  C2: a save call is made only when it is safe: the machine is in none of the blocked modes, there
  are unsaved changes, the base version agrees with the last server version known (or one of them
  is unknown), the project and the save function are there and, if a configuration getter is
  registered, it gives data (without a getter nothing is asked about the configuration); and the
  version sent with it is the base version.
\<close>

theorem co_save_call_safe:
  assumes "co_performSave now data co = (co', Some expected)"
  shows "sc_state (co_sm co) \<in> {Sync_idle, Sync_editing, Sync_saving} \<and> vs_dirty (co_vt co) \<and>
     (vs_baseVersion (co_vt co) = None \<or> vs_serverVersion (co_vt co) = None \<or>
      vs_baseVersion (co_vt co) = vs_serverVersion (co_vt co)) \<and>
     truthy (co_projectId co) \<and> co_hasSave co \<and> (co_hasGetter co \<longrightarrow> data) \<and>
     expected = vs_baseVersion (co_vt co)"
proof -
  have "\<not> sync_isSaveBlocked (co_sm co)" and can: "cs_canSave (vt_canSave (co_vt co))"
    using assms by (auto simp: co_performSave_def Let_def split: if_splits option.splits CanSave_reason.splits)
  then have "sc_state (co_sm co) \<in> {Sync_idle, Sync_editing, Sync_saving}"
    by (cases "sc_state (co_sm co)") (auto simp: sync_queries)
  moreover have "vs_dirty (co_vt co)"
    using can by (auto simp: vt_canSave_def split: if_splits)
  moreover have "truthy (co_projectId co)" "co_hasSave co" "co_hasGetter co \<longrightarrow> data"
    "expected = vs_baseVersion (co_vt co)"
    using assms can
    by (auto simp: co_performSave_def Let_def vt_queries split: if_splits option.splits CanSave_reason.splits)
  ultimately show ?thesis using vt_canSave_agreement [OF can] by blast
qed

definition co_example :: "Coordinator" where
  "co_example =
     run (co_step (\<lambda>_. True)) (co_create 0)
       [(1, CE_initialize \<lparr>cp_projectId = Some (Some ''p''), cp_enabled = None,
              cp_authToken = Some (Some ''t''), cp_changeTracker = None\<rparr>),
        (2, CE_registerSave), (3, CE_registerReload),
        (4, CE_reload), (5, CE_reload_returned 7), (6, CE_trackChange (ce_example ''a'' 6))]"

lemmas co_eval =
  co_defs machine_simps Let_def vt_queries sync_queries given_def ct_create_def ct_merge_def
  CT_DEFAULT_CONFIG_def ct_updateConfig_def co_create_def ce_example_def cu_none_def

lemma co_example_eval:
  "sc_state (co_sm co_example) = Sync_editing" "vs_dirty (co_vt co_example)"
  "vs_baseVersion (co_vt co_example) = Some 7" "vs_serverVersion (co_vt co_example) = Some 7"
  "co_hasSave co_example" "co_hasReload co_example" "\<not> co_hasGetter co_example"
  "co_projectId co_example = Some ''p''" "co_enabled co_example"
  "ct_pendingChanges (co_ct co_example) = [ce_example ''a'' 6]"
  "ct_onFlush (co_ct co_example)" "co_inflight co_example = []"
  "\<not> ct_isPaused (co_ct co_example)" "cc_maxPendingChanges (ct_config (co_ct co_example)) = 100"
  by (simp_all add: co_example_def co_eval)

theorem co_save_call_safe_witness:
  "sc_state (co_sm co_example) \<in> {Sync_idle, Sync_editing, Sync_saving} \<and> vs_dirty (co_vt co_example)"
proof -
  have "co_performSave 9 True co_example
     = (co_send 9 (SE_SAVE_STARTED (vs_localVersion (co_vt co_example))) co_example, Some (Some 7))"
    by (simp add: co_performSave_def Let_def vt_queries sync_queries co_example_eval)
  from co_save_call_safe [OF this] show ?thesis by blast
qed

section \<open>Locks\<close>

lemma co_trackChange_blocked:
  "sync_isEditBlocked (co_sm co) \<Longrightarrow> co_trackChange now data e co = co"
  by (simp add: co_trackChange_def)

text \<open>The operations of the local user, and the timers that run on their behalf.\<close>

fun co_local :: "co_op \<Rightarrow> bool" where
  "co_local (CE_trackChange _) = True"
| "co_local CE_scheduleSave = True"
| "co_local CE_saveNow = True"
| "co_local CE_debounce = True"
| "co_local CE_maxDelay = True"
| "co_local CE_fallback = True"
| "co_local _ = False"

definition co_quiet :: "Coordinator \<Rightarrow> bool" where
  "co_quiet co \<longleftrightarrow> sync_isLocked (co_sm co) \<and> ct_pendingChanges (co_ct co) = [] \<and>
     ct_debounceTimeout (co_ct co) = None \<and> ct_maxDelayTimeout (co_ct co) = None \<and>
     \<not> vs_dirty (co_vt co)"

lemma co_quiet_step:
  assumes "co_quiet co" and "co_local (snd e)"
  shows "co_quiet (co_step data co e) \<and> co_inflight (co_step data co e) = co_inflight co"
  using assms
  by (cases "(data, co, e)" rule: co_step.cases)
    (auto simp: co_quiet_def co_scheduleSave_def co_trackChange_def co_saveNow_def sync_queries
      ct_fallback_fires_def Let_def)

text \<open>
  a lock announced over the web socket while the machine is idle, editing, saving or reloading
  discards the pending changes and cleans the version state; from then on, until something else
  than the local user or a timer acts, no change is accepted, no save goes out and nothing becomes
  dirty.
\<close>

theorem co_lock_silences_client:
  assumes "sc_state (co_sm co) \<in> {Sync_idle, Sync_editing, Sync_saving, Sync_reloading}"
    and "list_all (\<lambda>e. co_local (snd e)) es"
  shows "co_quiet (run (co_step data)
           (co_handleWebSocketEvent now (WS_LOCK_ACQUIRED lockId operation userId) co) es) \<and>
         co_inflight (run (co_step data)
           (co_handleWebSocketEvent now (WS_LOCK_ACQUIRED lockId operation userId) co) es)
         = co_inflight co"
proof -
  let ?c = "co_handleWebSocketEvent now (WS_LOCK_ACQUIRED lockId operation userId) co"
  have start: "co_quiet ?c" "co_inflight ?c = co_inflight co"
    using assms(1) by (auto simp: co_quiet_def co_send_def machine_simps sync_queries)
  have "co_quiet (run (co_step data) c es) \<and> co_inflight (run (co_step data) c es) = co_inflight c"
    if "co_quiet c" for c
    using assms(2) that by (induction es arbitrary: c) (auto simp: co_quiet_step)
  from this [OF start(1)] start(2) show ?thesis by simp
qed

theorem co_lock_silences_client_witness:
  "co_quiet (run (co_step (\<lambda>_. True))
     (co_handleWebSocketEvent 7 (WS_LOCK_ACQUIRED ''l'' ''import'' ''u'') co_example)
     [(8, CE_trackChange (ce_example ''b'' 8)), (9, CE_debounce), (10, CE_saveNow)])"
  by (rule co_lock_silences_client [THEN conjunct1]) (simp_all add: co_example_eval)

text \<open>
  when a reload returns, in the reloading mode, both components agree on the loaded version,
  nothing is dirty or stale, and the next save will be conditional on exactly that version.
\<close>

theorem co_reload_synchronises:
  assumes "sc_state (co_sm co) = Sync_reloading"
  shows "sc_state (co_sm (co_reload_returned now v co)) = Sync_idle \<and>
     sc_localVersion (co_sm (co_reload_returned now v co)) = v \<and>
     sc_serverVersion (co_sm (co_reload_returned now v co)) = Some v \<and>
     sync_getExpectedVersion (co_sm (co_reload_returned now v co)) = Some v \<and>
     vt_getLocalVersion (co_vt (co_reload_returned now v co)) = v \<and>
     vt_getServerVersion (co_vt (co_reload_returned now v co)) = Some v \<and>
     vt_getExpectedVersion (co_vt (co_reload_returned now v co)) = Some v \<and>
     \<not> vt_isDirty (co_vt (co_reload_returned now v co)) \<and>
     \<not> vt_isStale (co_vt (co_reload_returned now v co)) \<and>
     \<not> sc_pendingChanges (co_sm (co_reload_returned now v co))"
  using assms by (simp add: co_reload_returned_def co_send_def machine_simps vt_queries sync_queries)

theorem co_reload_synchronises_witness:
  "sc_state (co_sm (co_reload_returned 8 9 (co_performReload 7 co_example))) = Sync_idle"
  by (rule co_reload_synchronises [THEN conjunct1])
    (simp add: co_performReload_def co_send_def Let_def machine_simps co_example_eval)

section \<open>Edits that are lost\<close>

text \<open>
  C40: An edit made while a save is under way is lost. With tracking on, a project and a flush callback, and no other
  change or save pending, an edit is accepted and marked dirty, but the state machine ignores it; the save then
  returns with a new version and clears the dirty flag, and the flush that the edit's timer starts finds nothing to
  save: the change has left the tracker and no save went out.
\<close>

theorem co_edit_during_save_lost:
  assumes "sc_state (co_sm co) = Sync_saving" and "co_enabled co" and "truthy (co_projectId co)"
    and "ct_onFlush (co_ct co)" and "\<not> ct_isPaused (co_ct co)" and "ct_pendingChanges (co_ct co) = []"
    and "1 < cc_maxPendingChanges (ct_config (co_ct co))"
    and "co_inflight co = [(expected, batch)]" and "sv_success r" and "sv_newVersion r = Some v"
  shows "ct_pendingChanges (co_ct (run (co_step data) co [(t1, CE_trackChange e)])) = [e] \<and>
     co_inflight (run (co_step data) co
       [(t1, CE_trackChange e), (t2, CE_save_returned 0 r), (t3, CE_debounce)]) = [] \<and>
     ct_pendingChanges (co_ct (run (co_step data) co
       [(t1, CE_trackChange e), (t2, CE_save_returned 0 r), (t3, CE_debounce)])) = [] \<and>
     \<not> st_hasPendingChanges (co_getStatus (run (co_step data) co
       [(t1, CE_trackChange e), (t2, CE_save_returned 0 r), (t3, CE_debounce)])) \<and>
     sc_state (co_sm (run (co_step data) co
       [(t1, CE_trackChange e), (t2, CE_save_returned 0 r), (t3, CE_debounce)])) = Sync_idle"
proof -
  define c1 where "c1 = co_step data co (t1, CE_trackChange e)"
  define c2 where "c2 = co_step data c1 (t2, CE_save_returned 0 r)"
  define c3 where "c3 = co_step data c2 (t3, CE_debounce)"
  have c1: "ct_pendingChanges (co_ct c1) = [e]" "ct_onFlush (co_ct c1)"
    "ct_debounceTimeout (co_ct c1) \<noteq> None" "co_sm c1 = co_sm co" "co_inflight c1 = co_inflight co"
    using assms
    by (auto simp: c1_def co_trackChange_def co_send_def sync_queries ct_trackChange_def
        ct_timer_defs Let_def sync_send.simps)
  have c2: "co_ct c2 = co_ct c1" "co_inflight c2 = []" "sc_state (co_sm c2) = Sync_idle"
    "\<not> vs_dirty (co_vt c2)"
    using assms c1(4,5)
    by (auto simp: c2_def co_drop_def co_save_returned_def co_send_def machine_simps)
  have c3: "ct_pendingChanges (co_ct c3) = []" "co_inflight c3 = []" "\<not> vs_dirty (co_vt c3)"
    "sc_state (co_sm c3) = Sync_idle"
    using c1 c2
    by (auto simp: c3_def ct_debounce_fires_def ct_flushNow_def ct_timer_defs Let_def
        co_performSave_def sync_queries vt_canSave_def)
  have "run (co_step data) co [(t1, CE_trackChange e)] = c1"
    and "run (co_step data) co
       [(t1, CE_trackChange e), (t2, CE_save_returned 0 r), (t3, CE_debounce)] = c3"
    by (simp_all add: c1_def c2_def c3_def)
  with c1(1) c3 show ?thesis
    by (simp add: co_getStatus_def ct_hasPendingChanges_def)
qed

definition sv_ok :: "int \<Rightarrow> SaveResult" where
  "sv_ok v = \<lparr>sv_success = True, sv_newVersion = Some v, sv_error = None, sv_isConflict = False,
     sv_serverVersion = None\<rparr>"

theorem co_edit_during_save_lost_witness:
  "\<not> st_hasPendingChanges (co_getStatus (run (co_step (\<lambda>_. True)) (co_step (\<lambda>_. True) co_example (8, CE_saveNow))
       [(9, CE_trackChange (ce_example ''b'' 9)), (10, CE_save_returned 0 (sv_ok 8)),
        (2009, CE_debounce)]))"
proof -
  have "sc_state (co_sm (co_step (\<lambda>_. True) co_example (8, CE_saveNow))) = Sync_saving"
    "co_enabled (co_step (\<lambda>_. True) co_example (8, CE_saveNow))"
    "truthy (co_projectId (co_step (\<lambda>_. True) co_example (8, CE_saveNow)))"
    "ct_onFlush (co_ct (co_step (\<lambda>_. True) co_example (8, CE_saveNow)))"
    "\<not> ct_isPaused (co_ct (co_step (\<lambda>_. True) co_example (8, CE_saveNow)))"
    "ct_pendingChanges (co_ct (co_step (\<lambda>_. True) co_example (8, CE_saveNow))) = []"
    "1 < cc_maxPendingChanges (ct_config (co_ct (co_step (\<lambda>_. True) co_example (8, CE_saveNow))))"
    "co_inflight (co_step (\<lambda>_. True) co_example (8, CE_saveNow)) = [(Some 7, [ce_example ''a'' 6])]"
    by (simp_all add: co_saveNow_def ct_flushNow_def ct_timer_defs Let_def co_performSave_def
        co_send_def sync_queries vt_queries machine_simps co_example_eval)
  from co_edit_during_save_lost [OF this, of "sv_ok 8" 8 "\<lambda>_. True" 9 "ce_example ''b'' 9" 10 2009] show ?thesis
    by (simp add: sv_ok_def del: run_Cons)
qed

text \<open>The operations that may lead out of the error mode: reloads, lock releases, resets, projects.\<close>

fun co_recovers :: "co_op \<Rightarrow> bool" where
  "co_recovers (CE_initialize _) = True"
| "co_recovers (CE_updateConfig _) = True"
| "co_recovers CE_reload = True"
| "co_recovers (CE_setLoading _) = True"
| "co_recovers (CE_ws (WS_LOCK_RELEASED _ _)) = True"
| "co_recovers CE_destroy = True"
| "co_recovers _ = False"

lemma co_performSave_error:
  "sc_state (co_sm co) = Sync_error \<Longrightarrow> co_performSave now data co = (co, None)"
  by (simp add: co_performSave_def sync_queries)

lemma co_flush_error:
  "sc_state (co_sm co) = Sync_error \<Longrightarrow> co_flush now data tf co = co\<lparr>co_ct := fst tf\<rparr>"
  by (cases "(now, data, tf, co)" rule: co_flush.cases) (simp_all add: co_performSave_error)

lemma sync_error_sticky:
  "sc_state c = Sync_error \<Longrightarrow>
   ev \<in> {SE_USER_EDIT, SE_SAVE_STARTED v, SE_SAVE_COMPLETED v, SE_SAVE_REJECTED v,
         SE_RELOAD_COMPLETED v, SE_LOCK_ACQUIRED l p u, SE_CONFLICT_DETECTED v w, SE_ERROR m}
   \<Longrightarrow> sync_send now c ev = c"
  by (auto simp: machine_simps)

lemma co_error_step:
  assumes "sc_state (co_sm co) = Sync_error" and "\<not> co_recovers (snd e)"
  shows "sc_state (co_sm (co_step data co e)) = Sync_error \<and>
     length (co_inflight (co_step data co e)) \<le> length (co_inflight co)"
proof (cases "(data, co, e)" rule: co_step.cases)
  case (19 d c now ev)
  with assms show ?thesis
    by (cases ev) (auto simp: co_send_def machine_simps)
qed (use assms in \<open>auto simp: co_registerSaveFunction_def co_registerReloadFunction_def
    co_registerConfigurationGetter_def co_trackChange_def co_scheduleSave_def co_saveNow_def
    sync_queries co_save_returned_def co_save_threw_def co_reload_returned_def co_reload_threw_def
    co_updateServerVersion_def co_send_def co_drop_def co_flush_error machine_simps Let_def
    split: option.splits nat.splits bool.splits\<close>)

text \<open>
  After a failed save or reload the coordinator stays in error: edits, timers, explicit saves,
  answers still under way, announcements and new locks leave the mode as it is, and no save goes out
  any more. Only a reload (which discards the edits), a lock release, a project change or a reset
  leads out, so edits made after an error cannot be saved.
\<close>

theorem co_error_is_sticky:
  assumes "sc_state (co_sm co) = Sync_error" and "list_all (\<lambda>e. \<not> co_recovers (snd e)) es"
  shows "sc_state (co_sm (run (co_step data) co es)) = Sync_error \<and>
     length (co_inflight (run (co_step data) co es)) \<le> length (co_inflight co)"
  using assms
proof (induction es arbitrary: co)
  case Nil
  then show ?case by simp
next
  case (Cons e es)
  then show ?case
    using co_error_step [of co e data] Cons.IH [of "co_step data co e"] by fastforce
qed

theorem co_error_is_sticky_witness:
  "sc_state (co_sm (run (co_step (\<lambda>_. True)) (co_send 8 (SE_ERROR ''network'') co_example)
     [(9, CE_trackChange (ce_example ''b'' 9)), (10, CE_saveNow), (11, CE_trackChange (ce_example ''c'' 11))]))
   = Sync_error"
  by (rule co_error_is_sticky [THEN conjunct1])
    (simp_all add: co_send_def machine_simps co_example_eval)

end
