(* ===== verification/Sync_WebSocket.thy ===== *)
theory Sync_WebSocket
  imports Complex_Main Sync_Coordinator
begin

text \<open>
  The web socket client of the project synchronisation (frontend/src/lib/sync/sync-websocket.ts):
  connecting, the handlers of a socket, the keep-alive timers and the reconnection. The sockets that
  the client ever made are a list, a socket's number its identity; pending timers are a list of
  handles. What the environment does (a socket opens, closes or delivers a message, a timer fires, the
  user calls) are the rules of an inductive step relation. The registered listeners are left out;
  \<open>handleMessage\<close> answers the event they get.
\<close>

section \<open>The client\<close>

datatype ConnectionState = Ws_disconnected | Ws_connecting | Ws_connected | Ws_reconnecting | Ws_error

record SyncWebSocketConfig =
  wc_baseUrl :: "string option"
  wc_reconnectDelay :: rat
  wc_maxReconnectDelay :: rat
  wc_reconnectBackoff :: rat
  wc_maxReconnectAttempts :: int
  wc_pingInterval :: rat
  wc_pongTimeout :: rat

definition WC_DEFAULT_CONFIG :: SyncWebSocketConfig where
  "WC_DEFAULT_CONFIG = \<lparr>wc_baseUrl = None, wc_reconnectDelay = 1000, wc_maxReconnectDelay = 30000,
     wc_reconnectBackoff = 3 / 2, wc_maxReconnectAttempts = 0, wc_pingInterval = 30000,
     wc_pongTimeout = 10000\<rparr>"

datatype phase = Connecting | Open | Closing | Closed

text \<open>A browser's socket; whether its \<open>onclose\<close> is still set.\<close>

record Socket =
  so_url :: string
  so_phase :: phase
  so_onclose :: bool

datatype timer = Reconnect_timer | Ping_timer | Pong_timer

record WsClient =
  wsc_config :: SyncWebSocketConfig
  wsc_ws :: "nat option"
  wsc_projectId :: "ident option"
  wsc_state :: ConnectionState
  wsc_attempts :: nat
  wsc_reconnectTimeout :: "nat option"
  wsc_pingInterval :: "nat option"
  wsc_pongTimeout :: "nat option"
  wsc_authToken :: "string option"
  wsc_sockets :: "Socket list"
  wsc_timers :: "(nat \<times> timer \<times> rat) list"
  wsc_handle :: nat

definition createSyncWebSocketClient :: "SyncWebSocketConfig \<Rightarrow> WsClient" where
  "createSyncWebSocketClient config =
     \<lparr>wsc_config = config, wsc_ws = None, wsc_projectId = None, wsc_state = Ws_disconnected,
      wsc_attempts = 0, wsc_reconnectTimeout = None, wsc_pingInterval = None, wsc_pongTimeout = None,
      wsc_authToken = None, wsc_sockets = [], wsc_timers = [], wsc_handle = 0\<rparr>"

definition setAuthToken :: "string option \<Rightarrow> WsClient \<Rightarrow> WsClient" where
  "setAuthToken token s = s\<lparr>wsc_authToken := token\<rparr>"

definition ws_isConnected :: "WsClient \<Rightarrow> bool" where
  "ws_isConnected s = (wsc_state s = Ws_connected)"

text \<open>\<open>setConnectionState\<close>, \<open>setTimeout\<close> or \<open>setInterval\<close>, and \<open>clearTimeout\<close> or \<open>clearInterval\<close>.\<close>

definition setConnectionState :: "ConnectionState \<Rightarrow> WsClient \<Rightarrow> WsClient" where
  "setConnectionState st s = (if wsc_state s = st then s else s\<lparr>wsc_state := st\<rparr>)"

definition start_timer :: "timer \<Rightarrow> rat \<Rightarrow> WsClient \<Rightarrow> WsClient" where
  "start_timer t delay s =
     s\<lparr>wsc_timers := wsc_timers s @ [(wsc_handle s, t, delay)], wsc_handle := wsc_handle s + 1\<rparr>"

definition clear_timer :: "nat option \<Rightarrow> WsClient \<Rightarrow> WsClient" where
  "clear_timer h s =
     (case h of None \<Rightarrow> s | Some n \<Rightarrow> s\<lparr>wsc_timers := filter (\<lambda>t. fst t \<noteq> n) (wsc_timers s)\<rparr>)"

definition resetPongTimeout :: "WsClient \<Rightarrow> WsClient" where
  "resetPongTimeout s = (clear_timer (wsc_pongTimeout s) s)\<lparr>wsc_pongTimeout := None\<rparr>"

definition clearTimers :: "WsClient \<Rightarrow> WsClient" where
  "clearTimers s =
     (let s1 = (clear_timer (wsc_pingInterval s) s)\<lparr>wsc_pingInterval := None\<rparr>;
          s2 = resetPongTimeout s1
      in (clear_timer (wsc_reconnectTimeout s2) s2)\<lparr>wsc_reconnectTimeout := None\<rparr>)"

text \<open>\<open>close()\<close> of a socket: an open or connecting one starts closing.\<close>

definition close_phase :: "phase \<Rightarrow> phase" where
  "close_phase p = (if p = Closed then Closed else Closing)"

definition ws_update :: "nat \<Rightarrow> (Socket \<Rightarrow> Socket) \<Rightarrow> WsClient \<Rightarrow> WsClient" where
  "ws_update i f s = s\<lparr>wsc_sockets := (wsc_sockets s)[i := f (wsc_sockets s ! i)]\<rparr>"

definition ws_disconnect :: "WsClient \<Rightarrow> WsClient" where
  "ws_disconnect s =
     (let s1 = clearTimers s;
          s2 = (case wsc_ws s1 of
                  None \<Rightarrow> s1
                | Some i \<Rightarrow> (ws_update i (\<lambda>so. so\<lparr>so_onclose := False, so_phase := close_phase (so_phase so)\<rparr>) s1)
                              \<lparr>wsc_ws := None\<rparr>)
      in setConnectionState Ws_disconnected (s2\<lparr>wsc_projectId := None\<rparr>))"

section \<open>The URL\<close>

text \<open>The characters that \<open>encodeURIComponent\<close> keeps; the others become the bytes of their UTF-8 form.\<close>

definition uri_unreserved :: "char \<Rightarrow> bool" where
  "uri_unreserved c = (c \<in> set ''ABCDEFGHIJKLMNOPQRSTUVWXYZabcdefghijklmnopqrstuvwxyz0123456789-_.!~*''
     \<or> c \<in> {CHR 39, CHR ''('', CHR '')''})"

definition hex_digit :: "nat \<Rightarrow> char" where
  "hex_digit n = ''0123456789ABCDEF'' ! n"

definition percent :: "nat \<Rightarrow> string" where
  "percent b = [CHR ''%'', hex_digit (b div 16), hex_digit (b mod 16)]"

definition encodeURIComponent :: "string \<Rightarrow> string" where
  "encodeURIComponent s =
     concat (map (\<lambda>c. if uri_unreserved c then [c]
                      else let n = of_char c :: nat
                           in if n < 128 then percent n else percent (192 + n div 64) @ percent (128 + n mod 64)) s)"

text \<open>
  What \<open>ApiConfig.resolveWebSocketBaseUrl()\<close> answers: a base URL, the error of an unresolved endpoint,
  or another exception.
\<close>

datatype resolve_error = Endpoint_unresolved | Other_exception

definition starts_with :: "string \<Rightarrow> string \<Rightarrow> bool" where
  "starts_with p s = (take (length p) s = p)"

definition buildWebSocketUrl :: "resolve_error + string \<Rightarrow> WsClient \<Rightarrow> resolve_error + string" where
  "buildWebSocketUrl resolved s =
     ebind (case wc_baseUrl (wsc_config s) of Some u \<Rightarrow> Inr u | None \<Rightarrow> resolved)
       (\<lambda>base.
          let baseUrl = (if starts_with ''http://'' base then ''ws://'' @ drop 7 base
                         else if starts_with ''https://'' base then ''wss://'' @ drop 8 base
                         else base);
              url = baseUrl @ ''/ws/projects/'' @ (case wsc_projectId s of None \<Rightarrow> ''null'' | Some p \<Rightarrow> p) @ ''/sync''
          in Inr (if truthy (wsc_authToken s)
                  then url @ ''?token='' @ encodeURIComponent (the (wsc_authToken s)) else url))"

section \<open>Connecting and reconnecting\<close>

definition reconnect_delay :: "SyncWebSocketConfig \<Rightarrow> nat \<Rightarrow> rat" where
  "reconnect_delay c n = min (wc_reconnectDelay c * wc_reconnectBackoff c ^ n) (wc_maxReconnectDelay c)"

definition scheduleReconnect :: "WsClient \<Rightarrow> WsClient" where
  "scheduleReconnect s =
     (if wc_maxReconnectAttempts (wsc_config s) > 0
         \<and> int (wsc_attempts s) \<ge> wc_maxReconnectAttempts (wsc_config s)
      then setConnectionState Ws_error s
      else (start_timer Reconnect_timer (reconnect_delay (wsc_config s) (wsc_attempts s)) s)
             \<lparr>wsc_reconnectTimeout := Some (wsc_handle s)\<rparr>)"

text \<open>
  What the environment answers to an attempt to connect: the resolution of the base URL, and whether
  \<open>new WebSocket\<close> throws. Another exception than the unresolved endpoint leaves the client connecting
  and goes to the caller.
\<close>

type_synonym attempt = "(resolve_error + string) \<times> bool"

definition doConnect :: "attempt \<Rightarrow> WsClient \<Rightarrow> WsClient" where
  "doConnect answer s =
     (if \<not> truthy (wsc_projectId s) then s
      else let s1 = setConnectionState Ws_connecting s
           in case buildWebSocketUrl (fst answer) s1 of
                Inl Endpoint_unresolved \<Rightarrow> setConnectionState Ws_error s1
              | Inl Other_exception \<Rightarrow> s1
              | Inr url \<Rightarrow>
                  if snd answer then scheduleReconnect (setConnectionState Ws_error s1)
                  else s1\<lparr>wsc_ws := Some (length (wsc_sockets s1)),
                          wsc_sockets := wsc_sockets s1
                            @ [\<lparr>so_url = url, so_phase = Connecting, so_onclose = True\<rparr>]\<rparr>)"

definition ws_connect :: "ident \<Rightarrow> attempt \<Rightarrow> WsClient \<Rightarrow> WsClient" where
  "ws_connect projectId answer s =
     (if wsc_projectId s = Some projectId \<and> wsc_state s = Ws_connected then s
      else let s1 = (if wsc_ws s \<noteq> None then ws_disconnect s else s)
           in doConnect answer (s1\<lparr>wsc_projectId := Some projectId, wsc_attempts := 0\<rparr>))"

section \<open>The handlers of a socket and of the timers\<close>

definition startPingInterval :: "WsClient \<Rightarrow> WsClient" where
  "startPingInterval s =
     (let s1 = clearTimers s
      in (start_timer Ping_timer (wc_pingInterval (wsc_config s1)) s1)\<lparr>wsc_pingInterval := Some (wsc_handle s1)\<rparr>)"

definition ws_onopen :: "WsClient \<Rightarrow> WsClient" where
  "ws_onopen s = startPingInterval ((setConnectionState Ws_connected s)\<lparr>wsc_attempts := 0\<rparr>)"

definition ws_onclose :: "WsClient \<Rightarrow> WsClient" where
  "ws_onclose s =
     (let s1 = clearTimers s
      in if truthy (wsc_projectId s1) then scheduleReconnect (setConnectionState Ws_reconnecting s1)
         else setConnectionState Ws_disconnected s1)"

definition current_open :: "WsClient \<Rightarrow> bool" where
  "current_open s = (case wsc_ws s of None \<Rightarrow> False | Some i \<Rightarrow> so_phase (wsc_sockets s ! i) = Open)"

text \<open>
  A message: \<open>None\<close> when it does not parse. The result is the state, whether a PONG is sent on the
  current socket, and the event that the listeners get.
\<close>

definition handleMessage :: "WsEvent option \<Rightarrow> WsClient \<Rightarrow> WsClient \<times> bool \<times> WsEvent option" where
  "handleMessage message s =
     (case message of
        None \<Rightarrow> (s, False, None)
      | Some ev \<Rightarrow> if ev = WS_PING then (s, current_open s, None) else (resetPongTimeout s, False, Some ev))"

definition ping_fires :: "WsClient \<Rightarrow> WsClient" where
  "ping_fires s =
     (if current_open s
      then (start_timer Pong_timer (wc_pongTimeout (wsc_config s)) s)\<lparr>wsc_pongTimeout := Some (wsc_handle s)\<rparr>
      else s)"

text \<open>A timeout that fires is no longer pending.\<close>

definition pong_fires :: "nat \<Rightarrow> WsClient \<Rightarrow> WsClient" where
  "pong_fires h s =
     (let s1 = clear_timer (Some h) s
      in case wsc_ws s1 of
           None \<Rightarrow> s1
         | Some i \<Rightarrow> ws_update i (\<lambda>so. so\<lparr>so_phase := close_phase (so_phase so)\<rparr>) s1)"

definition reconnect_fires :: "nat \<Rightarrow> attempt \<Rightarrow> WsClient \<Rightarrow> WsClient" where
  "reconnect_fires h answer s =
     (let s1 = clear_timer (Some h) s in doConnect answer (s1\<lparr>wsc_attempts := wsc_attempts s1 + 1\<rparr>))"

section \<open>Steps\<close>

datatype ws_label =
    L_connect ident attempt | L_disconnect | L_token "string option"
  | L_open nat | L_close nat | L_message nat "WsEvent option"
  | L_reconnect nat attempt | L_ping nat | L_pong nat

definition has_timer :: "WsClient \<Rightarrow> nat \<Rightarrow> timer \<Rightarrow> bool" where
  "has_timer s h t \<longleftrightarrow> (\<exists>d. (h, t, d) \<in> set (wsc_timers s))"

inductive ws_step :: "WsClient \<Rightarrow> ws_label \<Rightarrow> WsClient \<Rightarrow> bool" where
  connect: "ws_step s (L_connect p answer) (ws_connect p answer s)"
| disconnect: "ws_step s L_disconnect (ws_disconnect s)"
| token: "ws_step s (L_token t) (setAuthToken t s)"
| opened: "i < length (wsc_sockets s) \<Longrightarrow> so_phase (wsc_sockets s ! i) = Connecting
    \<Longrightarrow> ws_step s (L_open i) (ws_onopen (ws_update i (\<lambda>so. so\<lparr>so_phase := Open\<rparr>) s))"
| closed: "i < length (wsc_sockets s) \<Longrightarrow> so_phase (wsc_sockets s ! i) \<noteq> Closed \<Longrightarrow> so_onclose (wsc_sockets s ! i)
    \<Longrightarrow> ws_step s (L_close i) (ws_onclose (ws_update i (\<lambda>so. so\<lparr>so_phase := Closed\<rparr>) s))"
| closed_detached: "i < length (wsc_sockets s) \<Longrightarrow> so_phase (wsc_sockets s ! i) \<noteq> Closed
    \<Longrightarrow> \<not> so_onclose (wsc_sockets s ! i)
    \<Longrightarrow> ws_step s (L_close i) (ws_update i (\<lambda>so. so\<lparr>so_phase := Closed\<rparr>) s)"
| message: "i < length (wsc_sockets s) \<Longrightarrow> so_phase (wsc_sockets s ! i) = Open
    \<Longrightarrow> ws_step s (L_message i m) (fst (handleMessage m s))"
| reconnect: "has_timer s h Reconnect_timer \<Longrightarrow> ws_step s (L_reconnect h answer) (reconnect_fires h answer s)"
| ping: "has_timer s h Ping_timer \<Longrightarrow> ws_step s (L_ping h) (ping_fires s)"
| pong: "has_timer s h Pong_timer \<Longrightarrow> ws_step s (L_pong h) (pong_fires h s)"

inductive ws_steps :: "WsClient \<Rightarrow> ws_label list \<Rightarrow> WsClient \<Rightarrow> bool" where
  stop: "ws_steps s [] s"
| go: "ws_step s l s' \<Longrightarrow> ws_steps s' ls s'' \<Longrightarrow> ws_steps s (l # ls) s''"


section \<open>The invariant\<close>

text \<open>A socket that can still call a handler of the client.\<close>

definition live :: "Socket \<Rightarrow> bool" where
  "live so \<longleftrightarrow> so_phase so \<noteq> Closed \<and> (so_onclose so \<or> so_phase so \<noteq> Closing)"

text \<open>The current socket is live.\<close>

definition current_live :: "WsClient \<Rightarrow> bool" where
  "current_live s \<longleftrightarrow> (\<exists>i. wsc_ws s = Some i \<and> live (wsc_sockets s ! i))"

text \<open>
  As long as the constructor of a socket does not throw: only the current socket is live; a pending
  reconnection is the one that the client remembers, has the delay for the number of attempts and
  excludes a live socket; the number of attempts respects its bound; the state tells whether a
  reconnection is pending or a socket is there.
\<close>

definition sockets_ok :: "WsClient \<Rightarrow> bool" where
  "sockets_ok s \<longleftrightarrow> (\<forall>i < length (wsc_sockets s). live (wsc_sockets s ! i)
        \<longrightarrow> wsc_ws s = Some i \<and> so_onclose (wsc_sockets s ! i))
     \<and> (\<forall>i. wsc_ws s = Some i \<longrightarrow> i < length (wsc_sockets s))"

definition handles_ok :: "WsClient \<Rightarrow> bool" where
  "handles_ok s \<longleftrightarrow> distinct (map fst (wsc_timers s))
     \<and> (\<forall>(h, t, d) \<in> set (wsc_timers s). h < wsc_handle s
          \<and> (t = Ping_timer \<longrightarrow> wsc_pingInterval s = Some h)
          \<and> (t = Reconnect_timer \<longrightarrow> wsc_reconnectTimeout s = Some h))"

definition reconnect_ok :: "WsClient \<Rightarrow> bool" where
  "reconnect_ok s \<longleftrightarrow> (\<forall>h d. (h, Reconnect_timer, d) \<in> set (wsc_timers s) \<longrightarrow>
     truthy (wsc_projectId s) \<and> wsc_ws s \<noteq> None \<and> \<not> current_live s
     \<and> d = reconnect_delay (wsc_config s) (wsc_attempts s)
     \<and> (0 < wc_maxReconnectAttempts (wsc_config s)
          \<longrightarrow> int (wsc_attempts s) < wc_maxReconnectAttempts (wsc_config s)))"

definition state_ok :: "WsClient \<Rightarrow> bool" where
  "state_ok s \<longleftrightarrow> (wsc_state s = Ws_connected \<longrightarrow> current_live s)
     \<and> (wsc_state s = Ws_reconnecting \<longrightarrow> (\<exists>h. has_timer s h Reconnect_timer))
     \<and> (0 < wc_maxReconnectAttempts (wsc_config s)
          \<longrightarrow> int (wsc_attempts s) \<le> wc_maxReconnectAttempts (wsc_config s))"

definition ws_inv :: "WsClient \<Rightarrow> bool" where
  "ws_inv s \<longleftrightarrow> sockets_ok s \<and> handles_ok s \<and> reconnect_ok s \<and> state_ok s"

text \<open>Clearing the timers: no reconnection and no ping is pending afterwards.\<close>

lemma clearTimers_fields [simp]:
  "wsc_config (clearTimers s) = wsc_config s" "wsc_ws (clearTimers s) = wsc_ws s"
  "wsc_projectId (clearTimers s) = wsc_projectId s" "wsc_state (clearTimers s) = wsc_state s"
  "wsc_attempts (clearTimers s) = wsc_attempts s" "wsc_sockets (clearTimers s) = wsc_sockets s"
  "wsc_authToken (clearTimers s) = wsc_authToken s"
  by (simp_all add: clearTimers_def resetPongTimeout_def clear_timer_def Let_def split: option.split)

lemma clear_timer_handles: "handles_ok s \<Longrightarrow> handles_ok (clear_timer h s)"
  by (auto simp: handles_ok_def clear_timer_def distinct_map_filter split: option.split)

lemma clearTimers_sub: "set (wsc_timers (clearTimers s)) \<subseteq> set (wsc_timers s)"
  by (auto simp: clearTimers_def resetPongTimeout_def clear_timer_def Let_def split: option.splits)

lemma clearTimers_timers:
  "handles_ok s \<Longrightarrow> (h, t, d) \<in> set (wsc_timers (clearTimers s)) \<Longrightarrow> t = Pong_timer"
  by (cases t)
    (fastforce simp: handles_ok_def clearTimers_def resetPongTimeout_def clear_timer_def Let_def
      split: option.splits)+

lemma clearTimers_handles: "handles_ok s \<Longrightarrow> handles_ok (clearTimers s)"
  using clearTimers_timers [of s] clearTimers_sub [of s]
  by (fastforce simp: handles_ok_def clearTimers_def resetPongTimeout_def clear_timer_def Let_def
      distinct_map_filter split: option.split)

lemma setConnectionState_eq: "setConnectionState st s = s\<lparr>wsc_state := st\<rparr>"
  by (simp add: setConnectionState_def)

text \<open>After a disconnection nothing of the old connection is left.\<close>

definition quiet :: "WsClient \<Rightarrow> bool" where
  "quiet s \<longleftrightarrow> wsc_ws s = None \<and> (\<forall>so \<in> set (wsc_sockets s). \<not> live so)
     \<and> handles_ok s \<and> (\<forall>h t d. (h, t, d) \<in> set (wsc_timers s) \<longrightarrow> t = Pong_timer)"

lemma disconnect_parts:
  "wsc_timers (ws_disconnect s) = wsc_timers (clearTimers s)"
  "wsc_ws (ws_disconnect s) = None" "handles_ok (ws_disconnect s) = handles_ok (clearTimers s)"
  "wsc_sockets (ws_disconnect s) =
     (case wsc_ws s of None \<Rightarrow> wsc_sockets s
      | Some i \<Rightarrow> (wsc_sockets s)[i := (wsc_sockets s ! i)
          \<lparr>so_onclose := False, so_phase := close_phase (so_phase (wsc_sockets s ! i))\<rparr>])"
  by (simp_all add: ws_disconnect_def ws_update_def Let_def setConnectionState_eq handles_ok_def split: option.split)

lemma disconnect_quiet:
  assumes "ws_inv s"
  shows "quiet (ws_disconnect s)"
proof -
  have h: "handles_ok s" using assms by (simp add: ws_inv_def)
  have so: "live (wsc_sockets s ! i) \<Longrightarrow> i < length (wsc_sockets s) \<Longrightarrow> wsc_ws s = Some i" for i
    using assms unfolding ws_inv_def sockets_ok_def by blast
  have "\<not> live (wsc_sockets (ws_disconnect s) ! j)" if j: "j < length (wsc_sockets (ws_disconnect s))" for j
  proof (cases "wsc_ws s")
    case None
    then show ?thesis using so [of j] j unfolding disconnect_parts by force
  next
    case (Some i)
    have len: "j < length (wsc_sockets s)" using j Some unfolding disconnect_parts by simp
    show ?thesis
    proof (cases "i = j")
      case True
      with Some len show ?thesis unfolding disconnect_parts by (simp add: live_def close_phase_def)
    next
      case False
      with Some so [OF _ len] show ?thesis unfolding disconnect_parts by auto
    qed
  qed
  then have "\<forall>so \<in> set (wsc_sockets (ws_disconnect s)). \<not> live so" by (auto simp: in_set_conv_nth)
  then show ?thesis
    using clearTimers_timers [OF h] clearTimers_handles [OF h]
    unfolding quiet_def disconnect_parts by blast
qed

lemma disconnect_fields [simp]:
  "wsc_projectId (ws_disconnect s) = None" "wsc_state (ws_disconnect s) = Ws_disconnected"
  "wsc_config (ws_disconnect s) = wsc_config s" "wsc_attempts (ws_disconnect s) = wsc_attempts s"
  by (simp_all add: ws_disconnect_def ws_update_def Let_def setConnectionState_eq split: option.split)

text \<open>No socket can call back and no reconnection is pending.\<close>

definition idle :: "WsClient \<Rightarrow> bool" where
  "idle s \<longleftrightarrow> (\<forall>so \<in> set (wsc_sockets s). \<not> live so) \<and> handles_ok s
     \<and> (\<forall>h d. (h, Reconnect_timer, d) \<notin> set (wsc_timers s))
     \<and> (\<forall>i. wsc_ws s = Some i \<longrightarrow> i < length (wsc_sockets s))
     \<and> (0 < wc_maxReconnectAttempts (wsc_config s) \<longrightarrow> int (wsc_attempts s) \<le> wc_maxReconnectAttempts (wsc_config s))"

lemma idle_update [simp]:
  "idle (s\<lparr>wsc_state := st\<rparr>) = idle s" "idle (s\<lparr>wsc_projectId := p\<rparr>) = idle s"
  "idle s \<Longrightarrow> idle (s\<lparr>wsc_attempts := 0\<rparr>)"
  by (simp_all add: idle_def handles_ok_def)

lemma idle_inv:
  assumes "idle s" and "wsc_state s \<noteq> Ws_connected" and "wsc_state s \<noteq> Ws_reconnecting"
  shows "ws_inv s"
proof -
  have "sockets_ok s" using assms(1) by (auto simp: idle_def sockets_ok_def dest: nth_mem)
  moreover have "reconnect_ok s" using assms(1) by (simp add: idle_def reconnect_ok_def)
  moreover have "state_ok s" using assms by (simp add: state_ok_def idle_def)
  ultimately show ?thesis using assms(1) by (simp add: ws_inv_def idle_def)
qed

lemma quiet_idle:
  "quiet s \<Longrightarrow> (0 < wc_maxReconnectAttempts (wsc_config s) \<longrightarrow> int (wsc_attempts s) \<le> wc_maxReconnectAttempts (wsc_config s))
    \<Longrightarrow> idle s"
  by (fastforce simp: quiet_def idle_def)

lemma new_socket_inv:
  assumes "idle s" and "so_phase so = Connecting" and "so_onclose so"
  shows "ws_inv (s\<lparr>wsc_state := Ws_connecting, wsc_ws := Some (length (wsc_sockets s)),
    wsc_sockets := wsc_sockets s @ [so]\<rparr>)" (is "ws_inv ?s")
proof -
  have "\<not> live (wsc_sockets s ! i)" if "i < length (wsc_sockets s)" for i
    using assms(1) that by (simp add: idle_def)
  then have "sockets_ok ?s" using assms(2,3) by (auto simp: sockets_ok_def nth_append less_Suc_eq)
  moreover have "reconnect_ok ?s" "handles_ok ?s" "state_ok ?s"
    using assms(1) by (simp_all add: idle_def reconnect_ok_def state_ok_def handles_ok_def)
  ultimately show ?thesis by (simp add: ws_inv_def)
qed

lemma doConnect_inv:
  assumes "idle s" and "\<not> snd answer"
    and "wsc_state s \<in> {Ws_connected, Ws_reconnecting} \<longrightarrow> truthy (wsc_projectId s)"
  shows "ws_inv (doConnect answer s)"
proof (cases "truthy (wsc_projectId s)")
  case False
  with assms show ?thesis using idle_inv [OF assms(1)] by (auto simp: doConnect_def)
next
  case True
  have "ws_inv (s\<lparr>wsc_state := Ws_error\<rparr>)" "ws_inv (s\<lparr>wsc_state := Ws_connecting\<rparr>)"
    using idle_inv [of "s\<lparr>wsc_state := _\<rparr>"] assms(1) by simp_all
  moreover have "ws_inv (s\<lparr>wsc_state := Ws_connecting, wsc_ws := Some (length (wsc_sockets s)),
      wsc_sockets := wsc_sockets s @ [\<lparr>so_url = url, so_phase = Connecting, so_onclose = True\<rparr>]\<rparr>)" for url
    by (rule new_socket_inv [OF assms(1)]) simp_all
  ultimately show ?thesis
    using True assms(2)
    by (auto simp: doConnect_def Let_def setConnectionState_eq split: sum.split resolve_error.split)
qed

lemma no_ws_idle: "ws_inv s \<Longrightarrow> wsc_ws s = None \<Longrightarrow> idle s \<and> wsc_state s \<notin> {Ws_connected, Ws_reconnecting}"
  unfolding ws_inv_def sockets_ok_def reconnect_ok_def state_ok_def idle_def has_timer_def current_live_def
  by (auto simp: in_set_conv_nth) (metis+)?

lemma connect_inv: "ws_inv s \<Longrightarrow> \<not> snd answer \<Longrightarrow> ws_inv (ws_connect p answer s)"
proof -
  assume s: "ws_inv s" and answer: "\<not> snd answer"
  have "idle (ws_disconnect s)"
    by (rule quiet_idle [OF disconnect_quiet [OF s]]) (use s in \<open>simp add: ws_inv_def state_ok_def\<close>)
  then have "ws_inv (doConnect answer ((ws_disconnect s)\<lparr>wsc_projectId := Some p, wsc_attempts := 0\<rparr>))"
    using answer by (intro doConnect_inv) simp_all
  moreover have "ws_inv (doConnect answer (s\<lparr>wsc_projectId := Some p, wsc_attempts := 0\<rparr>))" if "wsc_ws s = None"
    using no_ws_idle [OF s that] answer by (intro doConnect_inv) auto
  ultimately show ?thesis using s by (simp add: ws_connect_def)
qed

lemma disconnect_inv: "ws_inv s \<Longrightarrow> ws_inv (ws_disconnect s)"
proof -
  assume s: "ws_inv s"
  have "idle (ws_disconnect s)"
    by (rule quiet_idle [OF disconnect_quiet [OF s]]) (use s in \<open>simp add: ws_inv_def state_ok_def\<close>)
  then show ?thesis by (rule idle_inv) simp_all
qed

text \<open>What the handlers may rely on: the socket that calls one is the current one.\<close>

lemma live_current:
  assumes "ws_inv s" and "i < length (wsc_sockets s)" and "live (wsc_sockets s ! i)"
  shows "wsc_ws s = Some i" "so_onclose (wsc_sockets s ! i)" "current_live s"
    "\<And>h d. (h, Reconnect_timer, d) \<notin> set (wsc_timers s)"
proof -
  show ws: "wsc_ws s = Some i" and "so_onclose (wsc_sockets s ! i)"
    using assms unfolding ws_inv_def sockets_ok_def by blast+
  show cl: "current_live s" using ws assms(3) by (simp add: current_live_def)
  show "(h, Reconnect_timer, d) \<notin> set (wsc_timers s)" for h d
    using cl assms(1) unfolding ws_inv_def reconnect_ok_def by blast
qed

text \<open>A change of one socket that keeps whether it is live.\<close>

lemma ws_update_fields [simp]:
  "wsc_config (ws_update i f s) = wsc_config s" "wsc_ws (ws_update i f s) = wsc_ws s"
  "wsc_projectId (ws_update i f s) = wsc_projectId s" "wsc_state (ws_update i f s) = wsc_state s"
  "wsc_attempts (ws_update i f s) = wsc_attempts s" "wsc_timers (ws_update i f s) = wsc_timers s"
  "wsc_handle (ws_update i f s) = wsc_handle s" "wsc_pingInterval (ws_update i f s) = wsc_pingInterval s"
  "wsc_reconnectTimeout (ws_update i f s) = wsc_reconnectTimeout s"
  "wsc_pongTimeout (ws_update i f s) = wsc_pongTimeout s"
  "length (wsc_sockets (ws_update i f s)) = length (wsc_sockets s)"
  by (simp_all add: ws_update_def)

lemma ws_update_nth:
  "j < length (wsc_sockets s) \<Longrightarrow>
     wsc_sockets (ws_update i f s) ! j = (if i = j then f (wsc_sockets s ! j) else wsc_sockets s ! j)"
  by (simp add: ws_update_def)

lemma update_inv:
  assumes "ws_inv s" and "live (f (wsc_sockets s ! i)) = live (wsc_sockets s ! i)"
    and "so_onclose (f (wsc_sockets s ! i)) = so_onclose (wsc_sockets s ! i)"
  shows "ws_inv (ws_update i f s)"
proof -
  let ?s = "ws_update i f s"
  have so: "live (wsc_sockets ?s ! j) = live (wsc_sockets s ! j)"
    "so_onclose (wsc_sockets ?s ! j) = so_onclose (wsc_sockets s ! j)" if "j < length (wsc_sockets s)" for j
    using that assms(2,3) by (auto simp: ws_update_nth)
  have "current_live ?s = current_live s"
  proof (cases "wsc_ws s")
    case (Some j)
    then have "j < length (wsc_sockets s)" using assms(1) unfolding ws_inv_def sockets_ok_def by blast
    with Some so show ?thesis by (simp add: current_live_def)
  qed (simp add: current_live_def)
  moreover have "sockets_ok ?s"
    unfolding sockets_ok_def ws_update_fields
  proof (intro conjI allI impI)
    fix j assume j: "j < length (wsc_sockets s)" "live (wsc_sockets ?s ! j)"
    then have "live (wsc_sockets s ! j)" using so(1) by blast
    with j(1) assms(1) so(2) [OF j(1)] show "wsc_ws s = Some j" "so_onclose (wsc_sockets ?s ! j)"
      unfolding ws_inv_def sockets_ok_def by blast+
  next
    fix j assume "wsc_ws s = Some j"
    with assms(1) show "j < length (wsc_sockets s)" unfolding ws_inv_def sockets_ok_def by blast
  qed
  moreover have "handles_ok ?s = handles_ok s" by (simp add: handles_ok_def)
  ultimately show ?thesis
    using assms(1) by (simp add: ws_inv_def reconnect_ok_def state_ok_def has_timer_def)
qed

lemma start_timer_fields [simp]:
  "wsc_config (start_timer t d s) = wsc_config s" "wsc_ws (start_timer t d s) = wsc_ws s"
  "wsc_projectId (start_timer t d s) = wsc_projectId s" "wsc_state (start_timer t d s) = wsc_state s"
  "wsc_attempts (start_timer t d s) = wsc_attempts s" "wsc_sockets (start_timer t d s) = wsc_sockets s"
  "wsc_timers (start_timer t d s) = wsc_timers s @ [(wsc_handle s, t, d)]"
  "wsc_handle (start_timer t d s) = Suc (wsc_handle s)"
  "wsc_pingInterval (start_timer t d s) = wsc_pingInterval s"
  "wsc_reconnectTimeout (start_timer t d s) = wsc_reconnectTimeout s"
  by (simp_all add: start_timer_def)

lemma sockets_ok_cong:
  "wsc_sockets s' = wsc_sockets s \<Longrightarrow> wsc_ws s' = wsc_ws s \<Longrightarrow> sockets_ok s' = sockets_ok s"
  by (simp only: sockets_ok_def)

lemma handles_only_pong:
  assumes "handles_ok s" and "\<And>h t d. (h, t, d) \<in> set (wsc_timers s) \<Longrightarrow> t = Pong_timer"
  shows "handles_ok ((start_timer Ping_timer d s)\<lparr>wsc_pingInterval := Some (wsc_handle s)\<rparr>)"
    "handles_ok ((start_timer Reconnect_timer d s)\<lparr>wsc_reconnectTimeout := Some (wsc_handle s)\<rparr>)"
  using assms unfolding handles_ok_def by fastforce+

lemma open_inv:
  assumes "ws_inv s" and "i < length (wsc_sockets s)" and "live (wsc_sockets s ! i)"
  shows "ws_inv (ws_onopen s)"
proof -
  let ?s1 = "clearTimers ((setConnectionState Ws_connected s)\<lparr>wsc_attempts := 0\<rparr>)"
  have h1: "handles_ok ((setConnectionState Ws_connected s)\<lparr>wsc_attempts := 0\<rparr>)"
    using assms(1) by (simp add: ws_inv_def handles_ok_def setConnectionState_eq)
  note pong = clearTimers_timers [OF h1]
  have eq: "ws_onopen s = (start_timer Ping_timer (wc_pingInterval (wsc_config s)) ?s1)
      \<lparr>wsc_pingInterval := Some (wsc_handle ?s1)\<rparr>"
    by (simp add: ws_onopen_def startPingInterval_def Let_def setConnectionState_eq)
  have "handles_ok (ws_onopen s)"
    unfolding eq by (rule handles_only_pong(1) [OF clearTimers_handles [OF h1]]) (rule pong)
  moreover have "reconnect_ok (ws_onopen s)"
    using pong by (auto simp: eq reconnect_ok_def)
  moreover have "sockets_ok (ws_onopen s) = sockets_ok s"
    by (rule sockets_ok_cong) (simp_all add: eq setConnectionState_eq)
  moreover have "state_ok (ws_onopen s)"
    using live_current(3) [OF assms] by (simp add: eq state_ok_def current_live_def setConnectionState_eq)
  ultimately show ?thesis using assms(1) by (simp add: ws_inv_def)
qed

text \<open>The state in which \<open>onclose\<close> is called: the current socket has just been closed.\<close>

lemma close_inv:
  assumes "idle s" and "wsc_ws s \<noteq> None"
  shows "ws_inv (ws_onclose s)"
proof -
  have h: "handles_ok s" using assms(1) by (simp add: idle_def)
  have sub: "(h, Reconnect_timer, d) \<notin> set (wsc_timers (clearTimers s))" for h d
    using clearTimers_timers [OF h] by blast
  have idle: "idle (clearTimers s)"
    using assms(1) clearTimers_handles [OF h] sub by (simp add: idle_def)
  show ?thesis
  proof (cases "truthy (wsc_projectId s) \<and> \<not> (wc_maxReconnectAttempts (wsc_config s) > 0
      \<and> int (wsc_attempts s) \<ge> wc_maxReconnectAttempts (wsc_config s))")
    case False
    then have "\<exists>st. ws_onclose s = (clearTimers s)\<lparr>wsc_state := st\<rparr> \<and> st \<noteq> Ws_connected \<and> st \<noteq> Ws_reconnecting"
      by (auto simp: ws_onclose_def scheduleReconnect_def Let_def setConnectionState_eq)
    then show ?thesis using idle_inv idle by force
  next
    case True
    let ?s1 = "(clearTimers s)\<lparr>wsc_state := Ws_reconnecting\<rparr>"
    have eq: "ws_onclose s = (start_timer Reconnect_timer (reconnect_delay (wsc_config s) (wsc_attempts s)) ?s1)
        \<lparr>wsc_reconnectTimeout := Some (wsc_handle ?s1)\<rparr>"
      using True by (auto simp: ws_onclose_def scheduleReconnect_def Let_def setConnectionState_eq)
    have dead: "\<not> live (wsc_sockets s ! i)" if "i < length (wsc_sockets s)" for i
      using assms(1) that by (simp add: idle_def)
    have "handles_ok (ws_onclose s)"
      unfolding eq by (rule handles_only_pong(2))
        (use clearTimers_handles [OF h] clearTimers_timers [OF h] in \<open>auto simp: handles_ok_def\<close>)
    moreover have "\<not> current_live (ws_onclose s)"
      using dead assms(1) by (auto simp: eq current_live_def idle_def)
    then have "reconnect_ok (ws_onclose s)"
      using True sub assms(2) by (auto simp: eq reconnect_ok_def)
    moreover have "sockets_ok (ws_onclose s)"
      using dead assms(1) by (simp add: eq sockets_ok_def idle_def)
    moreover have "state_ok (ws_onclose s)"
      using assms(1) by (auto simp: eq state_ok_def idle_def has_timer_def)
    ultimately show ?thesis by (simp add: ws_inv_def)
  qed
qed

lemma closed_idle:
  assumes "ws_inv s" and "i < length (wsc_sockets s)" and "live (wsc_sockets s ! i)"
  shows "idle (ws_update i (\<lambda>so. so\<lparr>so_phase := Closed\<rparr>) s)"
proof -
  let ?s = "ws_update i (\<lambda>so. so\<lparr>so_phase := Closed\<rparr>) s"
  note current = live_current [OF assms]
  have "\<not> live (wsc_sockets ?s ! j)" if j: "j < length (wsc_sockets s)" for j
  proof (cases "i = j")
    case False
    then have "\<not> live (wsc_sockets s ! j)" using live_current(1) [OF assms(1) j] current(1) by auto
    with False j show ?thesis by (simp add: ws_update_nth)
  qed (use j in \<open>simp add: ws_update_nth live_def\<close>)
  then have "\<forall>so \<in> set (wsc_sockets ?s). \<not> live so" by (auto simp: in_set_conv_nth)
  moreover have "\<forall>k. wsc_ws s = Some k \<longrightarrow> k < length (wsc_sockets s)"
    using assms(1) unfolding ws_inv_def sockets_ok_def by blast
  ultimately show ?thesis
    using assms(1) current(4) by (auto simp: idle_def ws_inv_def state_ok_def handles_ok_def)
qed

lemma message_inv:
  assumes "ws_inv s" and "i < length (wsc_sockets s)" and "live (wsc_sockets s ! i)"
  shows "ws_inv (fst (handleMessage m s))"
proof -
  let ?s = "resetPongTimeout s"
  have "sockets_ok ?s = sockets_ok s"
    by (rule sockets_ok_cong) (simp_all add: resetPongTimeout_def clear_timer_def split: option.split)
  moreover have "handles_ok ?s"
    using clear_timer_handles [of s "wsc_pongTimeout s"] assms(1)
    by (simp add: ws_inv_def resetPongTimeout_def handles_ok_def)
  moreover have "reconnect_ok ?s"
    using live_current(4) [OF assms]
    by (auto simp: reconnect_ok_def resetPongTimeout_def clear_timer_def split: option.splits)
  moreover have "state_ok s" using assms(1) by (simp add: ws_inv_def)
  then have "wsc_state s \<noteq> Ws_reconnecting"
    using live_current(4) [OF assms] by (auto simp: state_ok_def has_timer_def)
  with \<open>state_ok s\<close> have "state_ok ?s"
    by (auto simp: state_ok_def current_live_def resetPongTimeout_def clear_timer_def split: option.split)
  ultimately have "ws_inv ?s" using assms(1) by (simp add: ws_inv_def)
  then show ?thesis using assms(1) by (auto simp: handleMessage_def split: option.split)
qed

lemma ping_inv: "ws_inv s \<Longrightarrow> ws_inv (ping_fires s)"
proof -
  assume s: "ws_inv s"
  let ?s = "(start_timer Pong_timer (wc_pongTimeout (wsc_config s)) s)\<lparr>wsc_pongTimeout := Some (wsc_handle s)\<rparr>"
  have "sockets_ok ?s = sockets_ok s" by (rule sockets_ok_cong) simp_all
  moreover have "handles_ok ?s" using s by (fastforce simp: ws_inv_def handles_ok_def)
  moreover have "reconnect_ok ?s" "state_ok ?s"
    using s by (auto simp: ws_inv_def reconnect_ok_def state_ok_def current_live_def has_timer_def)
  ultimately show ?thesis using s by (simp add: ping_fires_def ws_inv_def)
qed

lemma handle_unique:
  "handles_ok s \<Longrightarrow> (h, t, d) \<in> set (wsc_timers s) \<Longrightarrow> (h, t', d') \<in> set (wsc_timers s) \<Longrightarrow> t' = t \<and> d' = d"
  unfolding handles_ok_def by (metis eq_key_imp_eq_value prod.inject)

lemma pong_inv:
  assumes "ws_inv s" and "has_timer s h Pong_timer"
  shows "ws_inv (pong_fires h s)"
proof -
  let ?s = "clear_timer (Some h) s"
  obtain d where d: "(h, Pong_timer, d) \<in> set (wsc_timers s)" using assms(2) by (auto simp: has_timer_def)
  have fields: "wsc_ws ?s = wsc_ws s" "wsc_sockets ?s = wsc_sockets s" "wsc_state ?s = wsc_state s"
    "wsc_config ?s = wsc_config s" "wsc_attempts ?s = wsc_attempts s" "wsc_projectId ?s = wsc_projectId s"
    by (simp_all add: clear_timer_def)
  have keep: "(h', Reconnect_timer, d') \<in> set (wsc_timers ?s) \<longleftrightarrow> (h', Reconnect_timer, d') \<in> set (wsc_timers s)"
    for h' d'
    using handle_unique [OF _ d, of Reconnect_timer d'] assms(1) by (auto simp: clear_timer_def ws_inv_def)
  have "sockets_ok ?s = sockets_ok s" by (rule sockets_ok_cong) (simp_all add: fields)
  moreover have "handles_ok ?s" using clear_timer_handles assms(1) by (simp add: ws_inv_def)
  moreover have "reconnect_ok ?s" "state_ok ?s"
    using assms(1) keep by (simp_all add: ws_inv_def reconnect_ok_def state_ok_def current_live_def has_timer_def fields)
  ultimately have inv: "ws_inv ?s" using assms(1) by (simp add: ws_inv_def)
  show ?thesis
  proof (cases "wsc_ws s")
    case None
    with inv show ?thesis by (simp add: pong_fires_def fields)
  next
    case (Some i)
    then have "i < length (wsc_sockets s)" using assms(1) unfolding ws_inv_def sockets_ok_def by blast
    then have "live (wsc_sockets s ! i) \<longrightarrow> so_onclose (wsc_sockets s ! i)"
      using live_current(2) [OF assms(1)] by blast
    then have "ws_inv (ws_update i (\<lambda>so. so\<lparr>so_phase := close_phase (so_phase so)\<rparr>) ?s)"
      by (intro update_inv [OF inv]) (auto simp: fields live_def close_phase_def)
    with Some show ?thesis by (simp add: pong_fires_def fields)
  qed
qed

lemma reconnect_inv:
  assumes "ws_inv s" and "has_timer s h Reconnect_timer" and "\<not> snd answer"
  shows "ws_inv (reconnect_fires h answer s)"
proof -
  let ?s = "(clear_timer (Some h) s)\<lparr>wsc_attempts := wsc_attempts s + 1\<rparr>"
  obtain d where d: "(h, Reconnect_timer, d) \<in> set (wsc_timers s)" using assms(2) by (auto simp: has_timer_def)
  then have r: "truthy (wsc_projectId s)" "\<not> current_live s"
    "0 < wc_maxReconnectAttempts (wsc_config s) \<longrightarrow> int (wsc_attempts s) < wc_maxReconnectAttempts (wsc_config s)"
    using assms(1) unfolding ws_inv_def reconnect_ok_def by blast+
  have dead: "\<forall>so \<in> set (wsc_sockets s). \<not> live so"
    using live_current(3) [OF assms(1)] r(2) by (metis in_set_conv_nth)
  have "(h', Reconnect_timer, d') \<notin> set (wsc_timers (clear_timer (Some h) s))" for h' d'
  proof
    assume "(h', Reconnect_timer, d') \<in> set (wsc_timers (clear_timer (Some h) s))"
    then have h': "(h', Reconnect_timer, d') \<in> set (wsc_timers s)" "h' \<noteq> h" by (auto simp: clear_timer_def)
    then have "wsc_reconnectTimeout s = Some h'" "wsc_reconnectTimeout s = Some h"
      using assms(1) d unfolding ws_inv_def handles_ok_def by blast+
    with h'(2) show False by simp
  qed
  moreover have "handles_ok ?s" using clear_timer_handles [of s "Some h"] assms(1) by (simp add: ws_inv_def handles_ok_def)
  moreover have "\<forall>k. wsc_ws s = Some k \<longrightarrow> k < length (wsc_sockets s)"
    using assms(1) unfolding ws_inv_def sockets_ok_def by blast
  ultimately have "idle ?s" using dead r(3) by (auto simp: idle_def clear_timer_def)
  moreover have "truthy (wsc_projectId ?s)" using r(1) by (simp add: clear_timer_def)
  ultimately have "ws_inv (doConnect answer ?s)" using doConnect_inv assms(3) by blast
  then show ?thesis by (simp add: reconnect_fires_def Let_def clear_timer_def)
qed

section \<open>Runs\<close>

text \<open>The steps in which no constructor throws, and those that the environment takes on its own.\<close>

fun calm :: "ws_label \<Rightarrow> bool" where
  "calm (L_connect p answer) = (\<not> snd answer)"
| "calm (L_reconnect h answer) = (\<not> snd answer)"
| "calm _ = True"

fun no_connect :: "ws_label \<Rightarrow> bool" where
  "no_connect (L_connect p answer) = False"
| "no_connect _ = True"

lemma step_inv:
  assumes "ws_step s l s'" and "calm l" and "ws_inv s"
  shows "ws_inv s'"
  using assms
proof (cases rule: ws_step.cases)
  case (token t)
  then show ?thesis
    using assms(3) sockets_ok_cong [of "setAuthToken t s" s]
    by (simp add: setAuthToken_def ws_inv_def handles_ok_def reconnect_ok_def state_ok_def current_live_def
        has_timer_def)
next
  case (opened i)
  then have live: "live (wsc_sockets s ! i)" by (simp add: live_def)
  let ?s = "ws_update i (\<lambda>so. so\<lparr>so_phase := Open\<rparr>) s"
  have "ws_inv ?s" by (rule update_inv [OF assms(3)]) (use opened in \<open>simp_all add: live_def\<close>)
  moreover have "live (wsc_sockets ?s ! i)" using opened by (simp add: ws_update_nth live_def)
  ultimately show ?thesis using open_inv [of ?s i] opened by simp
next
  case (closed i)
  then have "live (wsc_sockets s ! i)" by (simp add: live_def)
  with closed show ?thesis
    using close_inv [OF closed_idle [OF assms(3)]] live_current(1) [OF assms(3)] by simp
next
  case (closed_detached i)
  then have "\<not> live (wsc_sockets s ! i)" using live_current(2) [OF assms(3)] by blast
  with closed_detached show ?thesis by (auto intro!: update_inv [OF assms(3)] simp: live_def)
next
  case (message i m)
  then show ?thesis using message_inv [OF assms(3)] by (simp add: live_def)
qed (auto simp: connect_inv disconnect_inv reconnect_inv ping_inv pong_inv)

lemma create_inv: "ws_inv (createSyncWebSocketClient c)"
  by (simp add: createSyncWebSocketClient_def ws_inv_def sockets_ok_def handles_ok_def reconnect_ok_def state_ok_def)

lemma steps_inv: "ws_steps s ls s' \<Longrightarrow> list_all calm ls \<Longrightarrow> ws_inv s \<Longrightarrow> ws_inv s'"
  by (induction rule: ws_steps.induct) (auto intro: step_inv)

lemma quiet_socket: "quiet s \<Longrightarrow> i < length (wsc_sockets s) \<Longrightarrow> \<not> live (wsc_sockets s ! i)"
  by (simp add: quiet_def)

lemma quiet_step:
  assumes "ws_step s l s'" and "no_connect l" and "quiet s" and "wsc_projectId s = None" and "wsc_state s = Ws_disconnected"
  shows "quiet s' \<and> wsc_projectId s' = None \<and> wsc_state s' = Ws_disconnected
    \<and> length (wsc_sockets s') = length (wsc_sockets s)"
  using assms(1)
proof (cases rule: ws_step.cases)
  case disconnect
  then show ?thesis
    using assms(3) clearTimers_handles [of s] clearTimers_timers [of s]
    by (simp add: disconnect_parts quiet_def)
next
  case (opened i)
  then show ?thesis using quiet_socket [OF assms(3), of i] by (simp add: live_def)
next
  case (closed i)
  then show ?thesis using quiet_socket [OF assms(3), of i] by (simp add: live_def)
next
  case (closed_detached i)
  have "\<not> live (wsc_sockets s' ! j)" if "j < length (wsc_sockets s)" for j
    using quiet_socket [OF assms(3) that] that closed_detached by (auto simp: ws_update_nth live_def)
  then have "\<forall>so \<in> set (wsc_sockets s'). \<not> live so"
    using closed_detached by (auto simp: in_set_conv_nth)
  then show ?thesis using closed_detached assms(3-5) by (simp add: quiet_def handles_ok_def)
next
  case (message i m)
  then show ?thesis using quiet_socket [OF assms(3), of i] by (simp add: live_def)
next
  case (reconnect h answer)
  then show ?thesis using assms(3) by (auto simp: quiet_def has_timer_def)
next
  case (ping h)
  then show ?thesis using assms(3) by (auto simp: quiet_def has_timer_def)
next
  case (pong h)
  have "handles_ok (clear_timer (Some h) s)" using clear_timer_handles assms(3) by (simp add: quiet_def)
  then show ?thesis
    using pong assms(3-5) by (auto simp: pong_fires_def quiet_def clear_timer_def Let_def)
qed (use assms in \<open>simp_all add: setAuthToken_def quiet_def handles_ok_def\<close>)

lemma quiet_steps:
  "ws_steps s ls s' \<Longrightarrow> list_all no_connect ls \<Longrightarrow> quiet s \<Longrightarrow> wsc_projectId s = None
     \<Longrightarrow> wsc_state s = Ws_disconnected
     \<Longrightarrow> wsc_projectId s' = None \<and> wsc_state s' = Ws_disconnected
       \<and> length (wsc_sockets s') = length (wsc_sockets s)"
proof (induction rule: ws_steps.induct)
  case (go s l s' ls s'')
  then show ?case using quiet_step [OF go(1)] by auto
qed simp

section \<open>Properties\<close>

lemmas ws_eval = ws_connect_def doConnect_def buildWebSocketUrl_def reconnect_fires_def ws_onopen_def ws_onclose_def
  startPingInterval_def clearTimers_def resetPongTimeout_def clear_timer_def scheduleReconnect_def
  setConnectionState_eq start_timer_def ws_update_def ws_disconnect_def ping_fires_def has_timer_def
  createSyncWebSocketClient_def WC_DEFAULT_CONFIG_def starts_with_def reconnect_delay_def Let_def

text \<open>
  C3: one connection. In every run from a new client, with calls, timers, messages and closings in any
  order, in which the constructor of a socket does not throw: at most one socket can still call the
  client, the current one; a pending reconnection is unique, excludes a live socket and has the delay
  for the number of attempts made; the attempts stay within their limit; a connected client has a live
  current socket and a reconnecting one has a reconnection pending.
\<close>

theorem websocket_one_connection:
  assumes "ws_steps (createSyncWebSocketClient c) ls s" and "list_all calm ls"
  shows "(\<forall>i < length (wsc_sockets s). live (wsc_sockets s ! i) \<longrightarrow> wsc_ws s = Some i)
    \<and> (\<forall>h d. (h, Reconnect_timer, d) \<in> set (wsc_timers s) \<longrightarrow> wsc_reconnectTimeout s = Some h
         \<and> (\<forall>so \<in> set (wsc_sockets s). \<not> live so) \<and> d = reconnect_delay (wsc_config s) (wsc_attempts s))
    \<and> (0 < wc_maxReconnectAttempts (wsc_config s) \<longrightarrow> int (wsc_attempts s) \<le> wc_maxReconnectAttempts (wsc_config s))
    \<and> (wsc_state s = Ws_connected \<longrightarrow> (\<exists>i. wsc_ws s = Some i \<and> live (wsc_sockets s ! i)))
    \<and> (wsc_state s = Ws_reconnecting \<longrightarrow> (\<exists>h. has_timer s h Reconnect_timer))"
proof -
  have inv: "ws_inv s" using steps_inv [OF assms create_inv] .
  have "\<not> live so" if "(h, Reconnect_timer, d) \<in> set (wsc_timers s)" "so \<in> set (wsc_sockets s)" for h d so
    using live_current(4) [OF inv] that by (metis in_set_conv_nth)
  moreover have "wsc_reconnectTimeout s = Some h \<and> d = reconnect_delay (wsc_config s) (wsc_attempts s)"
    if "(h, Reconnect_timer, d) \<in> set (wsc_timers s)" for h d
    using that inv unfolding ws_inv_def handles_ok_def reconnect_ok_def by blast
  moreover have "live (wsc_sockets s ! i) \<longrightarrow> wsc_ws s = Some i" if "i < length (wsc_sockets s)" for i
    using live_current(1) [OF inv that] by blast
  ultimately show ?thesis using inv by (simp add: ws_inv_def state_ok_def current_live_def)
qed

text \<open>
  a disconnection is final. After such a run and a call of \<open>disconnect\<close>, whatever else happens
  (late messages, closings, timers, further disconnections), without a call of \<open>connect\<close> the client
  stays disconnected and makes no socket.
\<close>

theorem websocket_disconnect_final:
  assumes "ws_steps (createSyncWebSocketClient c) ls s" and "list_all calm ls"
    and "ws_steps (ws_disconnect s) ls' s'" and "list_all no_connect ls'"
  shows "wsc_state s' = Ws_disconnected \<and> wsc_projectId s' = None
    \<and> length (wsc_sockets s') = length (wsc_sockets s)"
proof -
  have "quiet (ws_disconnect s)" using disconnect_quiet steps_inv [OF assms(1,2) create_inv] by blast
  then have "wsc_projectId s' = None \<and> wsc_state s' = Ws_disconnected
      \<and> length (wsc_sockets s') = length (wsc_sockets (ws_disconnect s))"
    using quiet_steps [OF assms(3,4)] by simp
  then show ?thesis by (simp add: disconnect_parts split: option.splits)
qed

text \<open>
  C4: a reconnecting client can always get its connection back: in every state that a new client reaches by steps in
  which the constructor of the socket does not throw (calm steps), if it is reconnecting, a timer is pending; when
  that fires, the endpoint is resolved and the new socket opens, the client is connected, with no attempts
  counted, to the same project.
\<close>

theorem websocket_reconnects:
  assumes "ws_steps (createSyncWebSocketClient c) ls s" and "list_all calm ls" and "wsc_state s = Ws_reconnecting"
  shows "\<exists>h s'. ws_steps s [L_reconnect h (Inr base, False), L_open (length (wsc_sockets s))] s'
    \<and> wsc_state s' = Ws_connected \<and> wsc_attempts s' = 0 \<and> wsc_projectId s' = wsc_projectId s"
proof -
  have inv: "ws_inv s" using steps_inv [OF assms(1,2) create_inv] .
  then obtain h where h: "has_timer s h Reconnect_timer" using assms(3) by (auto simp: ws_inv_def state_ok_def)
  then have p: "truthy (wsc_projectId s)" using inv by (auto simp: ws_inv_def reconnect_ok_def has_timer_def)
  let ?s1 = "reconnect_fires h (Inr base, False) s"
  have s1: "length (wsc_sockets ?s1) = Suc (length (wsc_sockets s))" "wsc_projectId ?s1 = wsc_projectId s"
    "so_phase (wsc_sockets ?s1 ! length (wsc_sockets s)) = Connecting"
    using p by (simp_all add: reconnect_fires_def doConnect_def buildWebSocketUrl_def clear_timer_def
        setConnectionState_eq Let_def split: option.split)
  let ?s2 = "ws_onopen (ws_update (length (wsc_sockets s)) (\<lambda>so. so\<lparr>so_phase := Open\<rparr>) ?s1)"
  have "ws_steps s [L_reconnect h (Inr base, False), L_open (length (wsc_sockets s))] ?s2"
    by (rule ws_steps.go [OF ws_step.reconnect [OF h] ws_steps.go [OF ws_step.opened ws_steps.stop]])
      (simp_all add: s1)
  moreover have "wsc_state ?s2 = Ws_connected" "wsc_attempts ?s2 = 0" "wsc_projectId ?s2 = wsc_projectId s"
    by (simp_all add: ws_onopen_def startPingInterval_def Let_def setConnectionState_eq s1(2))
  ultimately show ?thesis by blast
qed

text \<open>
  the server's pings do not keep a connection alive. Once the client waits for an answer, messages
  of type PING, however many, leave its timeout pending, and when that fires the open socket is closed.
\<close>

theorem websocket_pings_ignored:
  assumes "has_timer s h Pong_timer" and "wsc_ws s = Some i" and "i < length (wsc_sockets s)"
    and "so_phase (wsc_sockets s ! i) = Open"
  shows "\<exists>s'. ws_steps s (replicate n (L_message i (Some WS_PING)) @ [L_pong h]) s'
    \<and> wsc_ws s' = Some i \<and> so_phase (wsc_sockets s' ! i) = Closing"
proof -
  have "ws_steps s (replicate n (L_message i (Some WS_PING)) @ [L_pong h]) (pong_fires h s)"
  proof (induction n)
    case 0
    show ?case using ws_steps.go [OF ws_step.pong [OF assms(1)] ws_steps.stop] by simp
  next
    case (Suc n)
    then show ?case
      using ws_steps.go [OF ws_step.message [OF assms(3,4), of "Some WS_PING"]] by (simp add: handleMessage_def)
  qed
  moreover have "wsc_ws (pong_fires h s) = Some i" "so_phase (wsc_sockets (pong_fires h s) ! i) = Closing"
    using assms by (simp_all add: pong_fires_def clear_timer_def ws_update_def close_phase_def Let_def)
  ultimately show ?thesis by blast
qed

text \<open>
  After a constructor that throws, a second call of \<open>connect\<close> does not cancel the pending
  reconnection, and the client ends with two live sockets, of which it knows one.
\<close>

theorem websocket_throw_leaks:
  "\<exists>s. ws_steps (createSyncWebSocketClient WC_DEFAULT_CONFIG)
      [L_connect ''p'' (Inr ''ws://h'', True), L_connect ''p'' (Inr ''ws://h'', False), L_reconnect 0 (Inr ''ws://h'', False),
       L_open 0, L_open 1] s
    \<and> live (wsc_sockets s ! 0) \<and> live (wsc_sockets s ! 1) \<and> wsc_ws s = Some 1 \<and> wsc_state s = Ws_connected"
proof -
  let ?w = "Inr ''ws://h'' :: resolve_error + string"
  let ?s1 = "ws_connect ''p'' (?w, True) (createSyncWebSocketClient WC_DEFAULT_CONFIG)"
  let ?s2 = "ws_connect ''p'' (?w, False) ?s1"
  let ?s3 = "reconnect_fires 0 (?w, False) ?s2"
  let ?s4 = "ws_onopen (ws_update 0 (\<lambda>so. so\<lparr>so_phase := Open\<rparr>) ?s3)"
  let ?s5 = "ws_onopen (ws_update 1 (\<lambda>so. so\<lparr>so_phase := Open\<rparr>) ?s4)"
  note steps = ws_steps.go [OF ws_step.connect ws_steps.go [OF ws_step.connect ws_steps.go [OF ws_step.reconnect
    ws_steps.go [OF ws_step.opened ws_steps.go [OF ws_step.opened ws_steps.stop]]]]]
  have "ws_steps (createSyncWebSocketClient WC_DEFAULT_CONFIG)
      [L_connect ''p'' (?w, True), L_connect ''p'' (?w, False), L_reconnect 0 (?w, False), L_open 0, L_open 1] ?s5"
    by (rule steps) (simp_all add: ws_eval)
  moreover have "live (wsc_sockets ?s5 ! 0) \<and> live (wsc_sockets ?s5 ! 1) \<and> wsc_ws ?s5 = Some 1
      \<and> wsc_state ?s5 = Ws_connected"
    by (simp add: ws_eval live_def)
  ultimately show ?thesis by blast
qed

section \<open>Examples\<close>

text \<open>A client that connects, loses its connection, and is then disconnected.\<close>

definition ws_closed_example :: WsClient where
  "ws_closed_example = ws_onclose (ws_update 0 (\<lambda>so. so\<lparr>so_phase := Closed\<rparr>)
     (ws_connect ''p'' (Inr ''ws://h'', False) (createSyncWebSocketClient WC_DEFAULT_CONFIG)))"

lemma ws_closed_steps:
  "ws_steps (createSyncWebSocketClient WC_DEFAULT_CONFIG) [L_connect ''p'' (Inr ''ws://h'', False), L_close 0]
     ws_closed_example"
  unfolding ws_closed_example_def
  by (rule ws_steps.go [OF ws_step.connect ws_steps.go [OF ws_step.closed ws_steps.stop]]) (simp_all add: ws_eval)

theorem websocket_one_connection_witness:
  "wsc_reconnectTimeout ws_closed_example = Some 0 \<and> list_all (\<lambda>so. \<not> live so) (wsc_sockets ws_closed_example)"
proof -
  have "(0, Reconnect_timer, 1000) \<in> set (wsc_timers ws_closed_example)"
    by (simp add: ws_closed_example_def ws_eval)
  with websocket_one_connection [OF ws_closed_steps] show ?thesis by (simp add: list_all_iff)
qed

theorem websocket_disconnect_final_witness:
  "wsc_state (ws_disconnect ws_closed_example) = Ws_disconnected"
  using websocket_disconnect_final [OF ws_closed_steps _ ws_steps.go [OF ws_step.disconnect ws_steps.stop]]
  by simp

theorem websocket_reconnects_witness:
  "\<exists>h s'. ws_steps ws_closed_example [L_reconnect h (Inr ''ws://h'', False), L_open (length (wsc_sockets ws_closed_example))] s'
    \<and> wsc_state s' = Ws_connected \<and> wsc_attempts s' = 0 \<and> wsc_projectId s' = wsc_projectId ws_closed_example"
  by (rule websocket_reconnects [OF ws_closed_steps]) (simp_all add: ws_closed_example_def ws_eval)

text \<open>A connected client whose ping interval has passed.\<close>

definition ws_waiting_example :: WsClient where
  "ws_waiting_example = ping_fires (ws_onopen (ws_update 0 (\<lambda>so. so\<lparr>so_phase := Open\<rparr>)
     (ws_connect ''p'' (Inr ''ws://h'', False) (createSyncWebSocketClient WC_DEFAULT_CONFIG))))"

theorem websocket_pings_ignored_witness:
  "\<exists>s'. ws_steps ws_waiting_example (replicate 3 (L_message 0 (Some WS_PING)) @ [L_pong 1]) s'
    \<and> wsc_ws s' = Some 0 \<and> so_phase (wsc_sockets s' ! 0) = Closing"
  by (rule websocket_pings_ignored) (simp_all add: ws_waiting_example_def ws_eval current_open_def)

end
