(* ===== verification/Loading_State_Machine.thy ===== *)
theory Loading_State_Machine
  imports Interfaces
begin

text \<open>
  frontend/src/lib/project/loading-state-machine.ts: the states of loading a project, the context,
  the fetched data and \<open>send\<close>. The data is of any type; the listeners and the log are left out,
  they do not change the machine.
\<close>

datatype LoadingState =
    Ld_idle | Ld_validating | Ld_saving_current | Ld_fetching | Ld_hydrating | Ld_loaded | Ld_error

record LoadingContext =
  lc_state :: LoadingState
  lc_projectId :: "ident option"
  lc_previousProjectId :: "ident option"
  lc_error :: "string option"
  lc_stateEnteredAt :: millis
  lc_retryCount :: nat

record 'd LoadingMachine =
  lm_context :: LoadingContext
  lm_projectData :: "'d option"

datatype 'd LoadingEvent =
    LE_LOAD ident
  | LE_VALIDATED ident "ident option"
  | LE_CURRENT_SAVED
  | LE_SKIP_SAVE
  | LE_FETCHED 'd
  | LE_HYDRATED
  | LE_ERROR string
  | LE_RETRY
  | LE_RESET

fun LOADING_VALID_TRANSITIONS :: "LoadingState \<Rightarrow> LoadingState list" where
  "LOADING_VALID_TRANSITIONS Ld_idle = [Ld_validating]"
| "LOADING_VALID_TRANSITIONS Ld_validating = [Ld_saving_current, Ld_fetching, Ld_error, Ld_idle]"
| "LOADING_VALID_TRANSITIONS Ld_saving_current = [Ld_fetching, Ld_error]"
| "LOADING_VALID_TRANSITIONS Ld_fetching = [Ld_hydrating, Ld_error]"
| "LOADING_VALID_TRANSITIONS Ld_hydrating = [Ld_loaded, Ld_error]"
| "LOADING_VALID_TRANSITIONS Ld_loaded = [Ld_validating, Ld_idle]"
| "LOADING_VALID_TRANSITIONS Ld_error = [Ld_idle, Ld_validating]"

definition createLoadingStateMachine :: "millis \<Rightarrow> 'd LoadingMachine" where
  "createLoadingStateMachine now =
     \<lparr>lm_context = \<lparr>lc_state = Ld_idle, lc_projectId = None, lc_previousProjectId = None,
        lc_error = None, lc_stateEnteredAt = now, lc_retryCount = 0\<rparr>, lm_projectData = None\<rparr>"

definition ld_canTransition :: "'d LoadingMachine \<Rightarrow> LoadingState \<Rightarrow> bool" where
  "ld_canTransition m to = (to \<in> set (LOADING_VALID_TRANSITIONS (lc_state (lm_context m))))"

definition ld_transition ::
    "millis \<Rightarrow> LoadingState \<Rightarrow> (LoadingContext \<Rightarrow> LoadingContext) \<Rightarrow> 'd LoadingMachine \<Rightarrow> 'd LoadingMachine"
where
  "ld_transition now to updates m =
     m\<lparr>lm_context := (updates (lm_context m))\<lparr>lc_state := to, lc_stateEnteredAt := now\<rparr>\<rparr>"

fun ld_send :: "millis \<Rightarrow> 'd LoadingMachine \<Rightarrow> 'd LoadingEvent \<Rightarrow> 'd LoadingMachine" where
  "ld_send now m (LE_LOAD projectId) =
     (if ld_canTransition m Ld_validating
      then ld_transition now Ld_validating (\<lambda>c. c\<lparr>lc_projectId := Some projectId, lc_error := None\<rparr>) m
      else m)"
| "ld_send now m (LE_VALIDATED projectId previousProjectId) =
     (if truthy previousProjectId \<and> previousProjectId \<noteq> Some projectId
      then (if ld_canTransition m Ld_saving_current
            then ld_transition now Ld_saving_current
                   (\<lambda>c. c\<lparr>lc_previousProjectId := previousProjectId\<rparr>) m
            else m)
      else if ld_canTransition m Ld_fetching then ld_transition now Ld_fetching id m else m)"
| "ld_send now m LE_CURRENT_SAVED =
     (if ld_canTransition m Ld_fetching then ld_transition now Ld_fetching id m else m)"
| "ld_send now m LE_SKIP_SAVE =
     (if ld_canTransition m Ld_fetching then ld_transition now Ld_fetching id m else m)"
| "ld_send now m (LE_FETCHED projectData) =
     (if ld_canTransition m Ld_hydrating
      then ld_transition now Ld_hydrating id (m\<lparr>lm_projectData := Some projectData\<rparr>) else m)"
| "ld_send now m LE_HYDRATED =
     (if ld_canTransition m Ld_loaded
      then ld_transition now Ld_loaded (\<lambda>c. c\<lparr>lc_retryCount := 0\<rparr>) m else m)"
| "ld_send now m (LE_ERROR error) =
     (if ld_canTransition m Ld_error
      then ld_transition now Ld_error (\<lambda>c. c\<lparr>lc_error := Some error\<rparr>) m else m)"
| "ld_send now m LE_RETRY =
     (if lc_state (lm_context m) = Ld_error \<and> ld_canTransition m Ld_validating
      then ld_transition now Ld_validating
             (\<lambda>c. c\<lparr>lc_retryCount := lc_retryCount c + 1, lc_error := None\<rparr>) m
      else m)"
| "ld_send now m LE_RESET =
     (ld_transition now Ld_idle
        (\<lambda>c. c\<lparr>lc_projectId := None, lc_previousProjectId := None, lc_error := None,
               lc_retryCount := 0\<rparr>) m)\<lparr>lm_projectData := None\<rparr>"

definition ld_isLoading :: "'d LoadingMachine \<Rightarrow> bool" where
  "ld_isLoading m = (lc_state (lm_context m) \<in>
     set [Ld_validating, Ld_saving_current, Ld_fetching, Ld_hydrating])"

definition ld_hasError :: "'d LoadingMachine \<Rightarrow> bool" where
  "ld_hasError m = (lc_state (lm_context m) = Ld_error)"

definition ld_isLoaded :: "'d LoadingMachine \<Rightarrow> bool" where
  "ld_isLoaded m = (lc_state (lm_context m) = Ld_loaded)"

lemmas [machine_simps] = ld_canTransition_def ld_transition_def

text \<open>An event with the time at which it is sent.\<close>

definition ld_step :: "'d LoadingMachine \<Rightarrow> millis \<times> 'd LoadingEvent \<Rightarrow> 'd LoadingMachine" where
  "ld_step m e = ld_send (fst e) m (snd e)"

definition ld_free :: "millis \<times> 'd LoadingEvent \<Rightarrow> bool" where
  "ld_free e = (snd e = LE_RESET)"

abbreviation ld_mode :: "'d LoadingMachine \<Rightarrow> LoadingState" where
  "ld_mode m \<equiv> lc_state (lm_context m)"

lemma ld_step_valid:
  "\<not> ld_free e \<Longrightarrow> ld_mode (ld_step m e) = ld_mode m
     \<or> ld_mode (ld_step m e) \<in> set (LOADING_VALID_TRANSITIONS (ld_mode m))"
  by (cases "snd e") (auto simp: ld_step_def ld_free_def machine_simps)

interpretation ldm: guarded_machine ld_mode ld_step LOADING_VALID_TRANSITIONS ld_free
  by unfold_locales (rule ld_step_valid)

text \<open>
  What the context promises: a project is set exactly outside the idle state, an error message
  exactly in the error state, no retry is counted when a project is loaded, and data is present
  while it is hydrated and afterwards.
\<close>

definition ld_inv :: "'d LoadingMachine \<Rightarrow> bool" where
  "ld_inv m =
     ((ld_mode m = Ld_idle) = (lc_projectId (lm_context m) = None)
      \<and> (ld_mode m = Ld_error) = (lc_error (lm_context m) \<noteq> None)
      \<and> (ld_mode m = Ld_loaded \<longrightarrow> lc_retryCount (lm_context m) = 0)
      \<and> (ld_mode m \<in> {Ld_hydrating, Ld_loaded} \<longrightarrow> lm_projectData m \<noteq> None))"

lemma ld_inv_step: "ld_inv m \<Longrightarrow> ld_inv (ld_step m e)"
  by (cases "snd e"; cases "ld_mode m") (auto simp: ld_step_def ld_inv_def machine_simps)

interpretation ldi: invariant_machine ld_step ld_inv
  by unfold_locales (rule ld_inv_step)

text \<open>
  after any events a project is set exactly when the machine is not idle, an error message
  exactly in the error state, the retry count of a loaded project is 0, and a project that is
  hydrated or loaded has data.
\<close>

theorem loading_reachable_inv:
  "ld_inv (run ld_step (createLoadingStateMachine now) es)"
  by (rule ldi.inv_run) (simp add: ld_inv_def createLoadingStateMachine_def)

lemma into_hydration:
  assumes "ld_mode (ld_step m e) \<in> {Ld_hydrating, Ld_loaded}" and "\<not> ld_free e"
  shows "(ld_mode m = Ld_fetching \<and> ld_mode (ld_step m e) = Ld_hydrating
      \<and> (\<exists>t d. e = (t, LE_FETCHED d) \<and> lm_projectData (ld_step m e) = Some d))
    \<or> (ld_mode m \<in> {Ld_hydrating, Ld_loaded} \<and> lm_projectData (ld_step m e) = lm_projectData m
      \<and> (ld_mode (ld_step m e) = Ld_loaded \<longrightarrow> ld_mode m = Ld_loaded \<or> snd e = LE_HYDRATED))"
  using assms
  by (cases e; cases "snd e"; cases "ld_mode m")
    (auto simp: ld_step_def ld_free_def machine_simps split: if_splits)

lemma loaded_from_fetched:
  assumes "ld_mode m \<notin> {Ld_hydrating, Ld_loaded}" and "list_all (\<lambda>e. \<not> ld_free e) es"
    and "ld_mode (run ld_step m es) \<in> {Ld_hydrating, Ld_loaded}"
  shows "\<exists>pre t d post. es = pre @ (t, LE_FETCHED d) # post \<and> ld_mode (run ld_step m pre) = Ld_fetching
    \<and> lm_projectData (run ld_step m es) = Some d
    \<and> (ld_mode (run ld_step m es) = Ld_loaded \<longrightarrow> LE_HYDRATED \<in> snd ` set post)"
  using assms(2,3)
proof (induction es rule: rev_induct)
  case Nil
  then show ?case using assms(1) by simp
next
  case (snoc e es)
  let ?s = "run ld_step m es"
  have free: "\<not> ld_free e" using snoc.prems by simp
  have keep: ?case
    if mode: "ld_mode ?s \<in> {Ld_hydrating, Ld_loaded}" and other: "lm_projectData (ld_step ?s e) = lm_projectData ?s"
      "ld_mode (ld_step ?s e) = Ld_loaded \<longrightarrow> ld_mode ?s = Ld_loaded \<or> snd e = LE_HYDRATED"
  proof -
    obtain pre t d post where p: "es = pre @ (t, LE_FETCHED d) # post"
      "ld_mode (run ld_step m pre) = Ld_fetching" "lm_projectData ?s = Some d"
      "ld_mode ?s = Ld_loaded \<longrightarrow> LE_HYDRATED \<in> snd ` set post"
      using snoc.IH [OF _ mode] snoc.prems(1) by (simp only: list_all_append) blast
    show ?thesis
    proof (intro exI conjI impI)
      show "es @ [e] = pre @ (t, LE_FETCHED d) # (post @ [e])" using p(1) by simp
      show "ld_mode (run ld_step m pre) = Ld_fetching" by (rule p(2))
      show "lm_projectData (run ld_step m (es @ [e])) = Some d" using other p(3) by simp
      assume "ld_mode (run ld_step m (es @ [e])) = Ld_loaded"
      then show "LE_HYDRATED \<in> snd ` set (post @ [e])" using other p(4) by auto
    qed
  qed
  have "ld_mode (ld_step ?s e) \<in> {Ld_hydrating, Ld_loaded}" using snoc.prems(2) by simp
  from into_hydration [OF this free] show ?case
  proof
    assume new: "ld_mode ?s = Ld_fetching \<and> ld_mode (ld_step ?s e) = Ld_hydrating
      \<and> (\<exists>t d. e = (t, LE_FETCHED d) \<and> lm_projectData (ld_step ?s e) = Some d)"
    then obtain t d where e: "e = (t, LE_FETCHED d)" "lm_projectData (ld_step ?s e) = Some d" by blast
    show ?thesis
      by (rule exI [of _ es], rule exI [of _ t], rule exI [of _ d], rule exI [of _ "[]"])
        (use new e in simp)
  next
    assume "ld_mode ?s \<in> {Ld_hydrating, Ld_loaded} \<and> lm_projectData (ld_step ?s e) = lm_projectData ?s
      \<and> (ld_mode (ld_step ?s e) = Ld_loaded \<longrightarrow> ld_mode ?s = Ld_loaded \<or> snd e = LE_HYDRATED)"
    then show ?thesis by (elim conjE) (rule keep)
  qed
qed

text \<open>
  A project that becomes loaded has been fetched. In every sequence of events without a reset
  that leads from outside hydration to the loaded state, some fetched data arrived while the
  machine was fetching, a hydration was completed after it, and the data of the loaded project is
  the data that arrived.
\<close>

theorem loading_loaded_by_fetch:
  assumes "ld_mode m \<notin> {Ld_hydrating, Ld_loaded}" and "LE_RESET \<notin> snd ` set es"
    and "ld_isLoaded (run ld_step m es)"
  shows "\<exists>pre t d post. es = pre @ (t, LE_FETCHED d) # post \<and> ld_mode (run ld_step m pre) = Ld_fetching
    \<and> LE_HYDRATED \<in> snd ` set post \<and> lm_projectData (run ld_step m es) = Some d"
proof -
  have "list_all (\<lambda>e. \<not> ld_free e) es"
    using assms(2) by (force simp: list_all_iff ld_free_def)
  moreover have loaded: "ld_mode (run ld_step m es) = Ld_loaded"
    using assms(3) by (simp add: ld_isLoaded_def)
  ultimately show ?thesis
    using loaded_from_fetched [OF assms(1), of es] by (simp only: loaded) blast
qed

theorem loading_loaded_by_fetch_witness:
  "\<exists>pre t d post. [(1, LE_LOAD ''p''), (2, LE_VALIDATED ''p'' None), (3, LE_FETCHED True), (4, LE_HYDRATED)]
      = pre @ (t, LE_FETCHED d) # post
    \<and> ld_mode (run ld_step (createLoadingStateMachine 0) pre) = Ld_fetching
    \<and> LE_HYDRATED \<in> snd ` set post
    \<and> lm_projectData (run ld_step (createLoadingStateMachine 0)
        [(1, LE_LOAD ''p''), (2, LE_VALIDATED ''p'' None), (3, LE_FETCHED True), (4, LE_HYDRATED)]) = Some d"
  by (rule loading_loaded_by_fetch)
    (simp_all add: createLoadingStateMachine_def ld_isLoaded_def ld_step_def machine_simps)

end
