(* ===== verification/Debounce_Manager.thy ===== *)
theory Debounce_Manager
  imports Interfaces "HOL-Library.AList"
begin

text \<open>
  \<open>DebounceManagerImpl\<close> of frontend/src/lib/sync/debounce-manager.ts. A scheduled function is a
  value of any type; \<open>db_executed\<close> lists the functions that have been called. A timer is the handle
  that the code keeps (set or \<open>null\<close>) and the due time while the timeout is armed. What a function
  does when it is called (calls of the manager included) is outside the model.
\<close>

record DebounceConfig =
  dc_delay :: nat
  dc_maxDelay :: "nat option"
  dc_leading :: "bool option"

text \<open>An override: an absent field is \<open>None\<close>.\<close>

record DebounceOverride =
  dv_delay :: "nat option"
  dv_maxDelay :: "nat option option"
  dv_leading :: "bool option option"

definition no_override :: DebounceOverride where
  "no_override = \<lparr>dv_delay = None, dv_maxDelay = None, dv_leading = None\<rparr>"

record 'f DbTimer =
  db_timeout :: bool
  db_due :: "millis option"
  db_maxTimeout :: bool
  db_maxDue :: "millis option"
  db_lastCallTime :: millis
  db_pendingFn :: "'f option"

record 'f DebounceManager =
  db_timers :: "(string \<times> 'f DbTimer) list"
  db_configs :: "(string \<times> DebounceConfig) list"
  db_executed :: "'f list"

definition db_configure :: "string \<Rightarrow> DebounceConfig \<Rightarrow> 'f DebounceManager \<Rightarrow> 'f DebounceManager" where
  "db_configure name config m = m\<lparr>db_configs := AList.update name config (db_configs m)\<rparr>"

definition db_initial :: "'f DebounceManager" where
  "db_initial = \<lparr>db_timers = [],
     db_configs = map (\<lambda>n. (n, \<lparr>dc_delay = 500, dc_maxDelay = None, dc_leading = None\<rparr>)) [''local-save'']
       @ [(''backend-save'', \<lparr>dc_delay = 5000, dc_maxDelay = Some 30000, dc_leading = None\<rparr>)]
       @ map (\<lambda>n. (n, \<lparr>dc_delay = 500, dc_maxDelay = None, dc_leading = None\<rparr>))
           [''persist-workflows'', ''persist-states'', ''persist-transitions'', ''persist-images'',
            ''persist-screenshots''],
     db_executed = []\<rparr>"

definition db_config :: "'f DebounceManager \<Rightarrow> string \<Rightarrow> DebounceOverride \<Rightarrow> DebounceConfig" where
  "db_config m name ov =
     (let base = (case map_of (db_configs m) name of
                    None \<Rightarrow> \<lparr>dc_delay = 500, dc_maxDelay = None, dc_leading = None\<rparr> | Some c \<Rightarrow> c)
      in \<lparr>dc_delay = (case dv_delay ov of None \<Rightarrow> dc_delay base | Some d \<Rightarrow> d),
          dc_maxDelay = (case dv_maxDelay ov of None \<Rightarrow> dc_maxDelay base | Some d \<Rightarrow> d),
          dc_leading = (case dv_leading ov of None \<Rightarrow> dc_leading base | Some d \<Rightarrow> d)\<rparr>)"

definition new_timer :: "'f DbTimer" where
  "new_timer = \<lparr>db_timeout = False, db_due = None, db_maxTimeout = False, db_maxDue = None,
     db_lastCallTime = 0, db_pendingFn = None\<rparr>"

definition set_timer :: "string \<Rightarrow> 'f DbTimer \<Rightarrow> 'f DebounceManager \<Rightarrow> 'f DebounceManager" where
  "set_timer name s m = m\<lparr>db_timers := AList.update name s (db_timers m)\<rparr>"

text \<open>Both timeouts cleared and no function pending.\<close>

definition clear_timers :: "'f DbTimer \<Rightarrow> 'f DbTimer" where
  "clear_timers s =
     s\<lparr>db_due := (if db_timeout s then None else db_due s), db_timeout := False,
       db_maxDue := (if db_maxTimeout s then None else db_maxDue s), db_maxTimeout := False,
       db_pendingFn := None\<rparr>"

definition db_execute :: "string \<Rightarrow> 'f DebounceManager \<Rightarrow> 'f DebounceManager" where
  "db_execute name m =
     (case map_of (db_timers m) name of
        None \<Rightarrow> m
      | Some s \<Rightarrow>
          (case db_pendingFn s of
             None \<Rightarrow> m
           | Some fn \<Rightarrow> (set_timer name (clear_timers s) m)\<lparr>db_executed := db_executed m @ [fn]\<rparr>))"

definition db_arm :: "millis \<Rightarrow> DebounceConfig \<Rightarrow> 'f DbTimer \<Rightarrow> 'f DbTimer" where
  "db_arm now config s =
     (let s1 = s\<lparr>db_timeout := True, db_due := Some (now + int (dc_delay config))\<rparr>
      in case dc_maxDelay config of
           None \<Rightarrow> s1
         | Some d \<Rightarrow> if d \<noteq> 0 \<and> \<not> db_maxTimeout s1
                     then s1\<lparr>db_maxTimeout := True, db_maxDue := Some (now + int d)\<rparr> else s1)"

definition db_schedule ::
    "millis \<Rightarrow> string \<Rightarrow> 'f \<Rightarrow> DebounceOverride \<Rightarrow> 'f DebounceManager \<Rightarrow> 'f DebounceManager" where
  "db_schedule now name fn ov m =
     (let config = db_config m name ov;
          s = (case map_of (db_timers m) name of None \<Rightarrow> new_timer | Some s \<Rightarrow> s);
          s1 = s\<lparr>db_due := (if db_timeout s then None else db_due s), db_pendingFn := Some fn,
                 db_lastCallTime := now\<rparr>;
          m1 = set_timer name s1 m;
          m2 = (if dc_leading config = Some True \<and> \<not> db_maxTimeout s1 then db_execute name m1 else m1)
      in set_timer name (db_arm now config (the (map_of (db_timers m2) name))) m2)"

text \<open>The timeouts of a timer run when they are due.\<close>

definition db_fire :: "millis \<Rightarrow> string \<Rightarrow> 'f DebounceManager \<Rightarrow> 'f DebounceManager" where
  "db_fire now name m =
     (case map_of (db_timers m) name of
        None \<Rightarrow> m
      | Some s \<Rightarrow>
          (case db_due s of
             None \<Rightarrow> m
           | Some due \<Rightarrow> if due \<le> now then db_execute name (set_timer name (s\<lparr>db_due := None\<rparr>) m) else m))"

definition db_fire_max :: "millis \<Rightarrow> string \<Rightarrow> 'f DebounceManager \<Rightarrow> 'f DebounceManager" where
  "db_fire_max now name m =
     (case map_of (db_timers m) name of
        None \<Rightarrow> m
      | Some s \<Rightarrow>
          (case db_maxDue s of
             None \<Rightarrow> m
           | Some due \<Rightarrow>
               if due \<le> now then db_execute name (set_timer name (s\<lparr>db_maxDue := None\<rparr>) m) else m))"

definition db_cancel :: "string \<Rightarrow> 'f DebounceManager \<Rightarrow> 'f DebounceManager" where
  "db_cancel name m =
     (case map_of (db_timers m) name of None \<Rightarrow> m | Some s \<Rightarrow> set_timer name (clear_timers s) m)"

definition db_flush :: "string \<Rightarrow> 'f DebounceManager \<Rightarrow> 'f DebounceManager" where
  "db_flush name m = db_execute name m"

definition db_flushAll :: "'f DebounceManager \<Rightarrow> 'f DebounceManager" where
  "db_flushAll m = fold db_flush (map fst (db_timers m)) m"

definition db_cancelAll :: "'f DebounceManager \<Rightarrow> 'f DebounceManager" where
  "db_cancelAll m = fold db_cancel (map fst (db_timers m)) m"

definition db_isPending :: "string \<Rightarrow> 'f DebounceManager \<Rightarrow> bool" where
  "db_isPending name m =
     (case map_of (db_timers m) name of None \<Rightarrow> True | Some s \<Rightarrow> db_pendingFn s \<noteq> None)"

definition db_getTimeSinceLastCall :: "millis \<Rightarrow> string \<Rightarrow> 'f DebounceManager \<Rightarrow> millis option" where
  "db_getTimeSinceLastCall now name m =
     (case map_of (db_timers m) name of
        None \<Rightarrow> None
      | Some s \<Rightarrow> if db_lastCallTime s = 0 then None else Some (now - db_lastCallTime s))"

section \<open>A burst of calls\<close>

datatype 'f db_event = Db_call millis 'f | Db_time millis

fun db_time :: "'f db_event \<Rightarrow> millis" where
  "db_time (Db_call t f) = t"
| "db_time (Db_time t) = t"

definition db_step :: "string \<Rightarrow> DebounceOverride \<Rightarrow> 'f DebounceManager \<Rightarrow> 'f db_event \<Rightarrow> 'f DebounceManager" where
  "db_step name ov m e = (case e of
     Db_call t f \<Rightarrow> db_schedule t name f ov m
   | Db_time t \<Rightarrow> db_fire_max t name (db_fire t name m))"

text \<open>Every event comes less than \<open>d\<close> after the last call before it.\<close>

fun db_burst :: "nat \<Rightarrow> millis \<Rightarrow> 'f db_event list \<Rightarrow> bool" where
  "db_burst d prev [] = True"
| "db_burst d prev (Db_call t f # es) = (t < prev + int d \<and> db_burst d t es)"
| "db_burst d prev (Db_time t # es) = (t < prev + int d \<and> db_burst d prev es)"

fun last_call :: "millis \<times> 'f \<Rightarrow> 'f db_event list \<Rightarrow> millis \<times> 'f" where
  "last_call c [] = c"
| "last_call c (Db_call t f # es) = last_call (t, f) es"
| "last_call c (Db_time t # es) = last_call c es"

definition db_limit :: "DebounceConfig \<Rightarrow> millis \<Rightarrow> millis option" where
  "db_limit config t = (case dc_maxDelay config of None \<Rightarrow> None
     | Some d \<Rightarrow> if d = 0 then None else Some (t + int d))"

text \<open>The state of the timer during a burst.\<close>

definition db_waiting ::
    "string \<Rightarrow> nat \<Rightarrow> millis option \<Rightarrow> 'f list \<Rightarrow> millis \<times> 'f \<Rightarrow> 'f DebounceManager \<Rightarrow> bool" where
  "db_waiting name d limit ex c m =
     (\<exists>s. map_of (db_timers m) name = Some s \<and> db_timeout s \<and> db_due s = Some (fst c + int d)
        \<and> db_maxDue s = limit \<and> (db_maxTimeout s = (limit \<noteq> None)) \<and> db_pendingFn s = Some (snd c)
        \<and> db_executed m = ex)"

lemma map_of_set_timer [simp]:
  "map_of (db_timers (set_timer name s m)) = (map_of (db_timers m))(name \<mapsto> s)"
  "db_configs (set_timer name s m) = db_configs m" "db_executed (set_timer name s m) = db_executed m"
  by (simp_all add: set_timer_def update_conv')

lemma db_config_unchanged:
  "db_config (set_timer name s m) name ov = db_config m name ov"
  by (simp add: db_config_def)

lemma db_waiting_call:
  assumes "db_waiting name d limit ex c m" and "db_config m name ov = config" and "dc_delay config = d"
    and "dc_leading config \<noteq> Some True" and "limit = db_limit config start"
  shows "db_waiting name d limit ex (t, f) (db_schedule t name f ov m)
    \<and> db_config (db_schedule t name f ov m) name ov = config"
  using assms
  by (auto simp: db_waiting_def db_schedule_def db_arm_def Let_def db_limit_def db_config_unchanged
      split: option.splits if_splits)

lemma db_waiting_time:
  assumes "db_waiting name d limit ex c m" and "t < fst c + int d"
    and "case limit of None \<Rightarrow> True | Some l \<Rightarrow> t < l"
  shows "db_fire_max t name (db_fire t name m) = m"
  using assms by (auto simp: db_waiting_def db_fire_def db_fire_max_def split: option.splits)

lemma db_waiting_burst:
  assumes "db_waiting name d limit ex c m" and "db_config m name ov = config" and "dc_delay config = d"
    and "dc_leading config \<noteq> Some True" and "limit = db_limit config start"
    and "db_burst d (fst c) es" and "list_all (\<lambda>e. case limit of None \<Rightarrow> True | Some l \<Rightarrow> db_time e < l) es"
  shows "db_waiting name d limit ex (last_call c es) (run (db_step name ov) m es)"
  using assms(1,2,6,7)
proof (induction es arbitrary: c m)
  case Nil
  then show ?case by simp
next
  case (Cons e es)
  show ?case
  proof (cases e)
    case (Db_call t f)
    then show ?thesis
      using Cons.IH [of "(t, f)"] db_waiting_call [OF Cons.prems(1,2) assms(3-5)] Cons.prems
      by (simp add: db_step_def)
  next
    case (Db_time t)
    then have "db_step name ov m e = m"
      using db_waiting_time [OF Cons.prems(1), of t] Cons.prems(3,4)
      by (simp add: db_step_def split: option.splits)
    then show ?thesis using Cons.IH [OF Cons.prems(1,2)] Cons.prems Db_time by simp
  qed
qed

section \<open>Reachable managers\<close>

text \<open>All operations that change a manager, and the timeouts that fall due.\<close>

datatype 'f db_op =
    Do_configure string DebounceConfig | Do_schedule millis string 'f DebounceOverride
  | Do_fire millis string | Do_fire_max millis string
  | Do_cancel string | Do_flush string | Do_cancelAll | Do_flushAll

definition db_do :: "'f DebounceManager \<Rightarrow> 'f db_op \<Rightarrow> 'f DebounceManager" where
  "db_do m e = (case e of
     Do_configure name config \<Rightarrow> db_configure name config m
   | Do_schedule now name fn ov \<Rightarrow> db_schedule now name fn ov m
   | Do_fire now name \<Rightarrow> db_fire now name m
   | Do_fire_max now name \<Rightarrow> db_fire_max now name m
   | Do_cancel name \<Rightarrow> db_cancel name m
   | Do_flush name \<Rightarrow> db_flush name m
   | Do_cancelAll \<Rightarrow> db_cancelAll m
   | Do_flushAll \<Rightarrow> db_flushAll m)"

text \<open>No armed timeout without its handle: clearing the handles of a timer stops both timeouts.\<close>

definition timer_ok :: "'f DbTimer \<Rightarrow> bool" where
  "timer_ok s = ((db_due s \<noteq> None \<longrightarrow> db_timeout s) \<and> (db_maxDue s \<noteq> None \<longrightarrow> db_maxTimeout s))"

definition db_inv :: "'f DebounceManager \<Rightarrow> bool" where
  "db_inv m = (\<forall>name s. map_of (db_timers m) name = Some s \<longrightarrow> timer_ok s)"

lemma timer_ok_simps [simp]:
  "timer_ok new_timer" "timer_ok (clear_timers s) = timer_ok s"
  "timer_ok s \<Longrightarrow> timer_ok (db_arm now config s)"
  "timer_ok s \<Longrightarrow> timer_ok (s\<lparr>db_due := None\<rparr>)" "timer_ok s \<Longrightarrow> timer_ok (s\<lparr>db_maxDue := None\<rparr>)"
  "timer_ok s \<Longrightarrow> timer_ok (s\<lparr>db_due := if db_timeout s then None else db_due s, db_pendingFn := p, db_lastCallTime := now\<rparr>)"
  by (auto simp: timer_ok_def new_timer_def clear_timers_def db_arm_def Let_def split: option.split)

lemma set_timer_inv: "db_inv m \<Longrightarrow> timer_ok s \<Longrightarrow> db_inv (set_timer name s m)"
  by (simp add: db_inv_def)

lemma execute_inv: "db_inv m \<Longrightarrow> db_inv (db_execute name m)"
  by (auto simp: db_execute_def db_inv_def split: option.split)

lemma execute_known: "map_of (db_timers m) name \<noteq> None \<Longrightarrow> map_of (db_timers (db_execute name m)) name \<noteq> None"
  by (auto simp: db_execute_def split: option.split)

lemma schedule_inv:
  assumes "db_inv m"
  shows "db_inv (db_schedule now name fn ov m)"
proof -
  let ?s = "case map_of (db_timers m) name of None \<Rightarrow> new_timer | Some s \<Rightarrow> s"
  let ?m1 = "set_timer name (?s\<lparr>db_due := if db_timeout ?s then None else db_due ?s, db_pendingFn := Some fn, db_lastCallTime := now\<rparr>) m"
  have "timer_ok ?s" using assms by (auto simp: db_inv_def split: option.split)
  then have m1: "db_inv ?m1" by (intro set_timer_inv assms timer_ok_simps)
  have armed: "db_inv (set_timer name (db_arm now config (the (map_of (db_timers m2) name))) m2)"
    if "db_inv m2" "map_of (db_timers m2) name \<noteq> None" for m2 :: "'a DebounceManager" and config
    using that by (intro set_timer_inv timer_ok_simps) (auto simp: db_inv_def)
  have known: "map_of (db_timers ?m1) name \<noteq> None" by (simp only: map_of_set_timer) simp
  have m2: "db_inv (if b then db_execute name ?m1 else ?m1)"
    "map_of (db_timers (if b then db_execute name ?m1 else ?m1)) name \<noteq> None" for b
    by (cases b, simp_all only: if_True if_False execute_inv [OF m1] m1 execute_known [OF known] known not_False_eq_True)+
  show ?thesis
    unfolding db_schedule_def Let_def by (rule armed [OF m2])
qed

lemma cancel_inv: "db_inv m \<Longrightarrow> db_inv (db_cancel name m)"
  by (auto simp: db_cancel_def db_inv_def split: option.split)

lemma fold_inv: "(\<And>name m. db_inv m \<Longrightarrow> db_inv (g name m)) \<Longrightarrow> db_inv m \<Longrightarrow> db_inv (fold g names m)"
  by (induction names arbitrary: m) auto

lemma fire_inv: "db_inv m \<Longrightarrow> db_inv (db_fire now name m)" "db_inv m \<Longrightarrow> db_inv (db_fire_max now name m)"
  by (auto simp: db_fire_def db_fire_max_def split: option.split intro!: execute_inv set_timer_inv timer_ok_simps)
     (auto simp: db_inv_def)

interpretation debounce_machine: invariant_machine db_do db_inv
proof
  fix m :: "'f DebounceManager" and e
  assume "db_inv m"
  then show "db_inv (db_do m e)"
    by (cases e)
      (auto simp: db_do_def db_flush_def db_cancelAll_def db_flushAll_def schedule_inv fire_inv cancel_inv execute_inv
        intro!: fold_inv, simp add: db_inv_def db_configure_def)
qed

lemma reached_debounce: "db_inv (run db_do db_initial ops)"
  by (rule debounce_machine.inv_run) (simp add: db_inv_def db_initial_def)

text \<open>No call waits under the name, and no maximal timeout is running.\<close>

definition db_idle :: "string \<Rightarrow> 'f DebounceManager \<Rightarrow> bool" where
  "db_idle name m = (case map_of (db_timers m) name of None \<Rightarrow> True
     | Some s \<Rightarrow> db_pendingFn s = None \<and> \<not> db_maxTimeout s)"

lemma db_waiting_start:
  assumes "db_config m name ov = config" and "dc_delay config = d" and "dc_leading config \<noteq> Some True"
    and "db_idle name m" and "db_inv m"
  shows "db_waiting name d (db_limit config t) (db_executed m) (t, f) (db_schedule t name f ov m)
    \<and> db_config (db_schedule t name f ov m) name ov = config"
proof -
  have stopped: "db_maxDue s = None" if "map_of (db_timers m) name = Some s" "\<not> db_maxTimeout s" for s
  proof -
    have "timer_ok s" using assms(5) that(1) unfolding db_inv_def by blast
    with that(2) show ?thesis by (auto simp: timer_ok_def)
  qed
  show ?thesis
    using assms(1-4)
    by (auto simp: db_waiting_def db_schedule_def db_arm_def Let_def db_limit_def db_config_unchanged
        new_timer_def db_idle_def stopped split: option.splits if_splits)
qed

text \<open>
  C39: a burst of calls under one name runs only the last of them, once. Take any manager reached from a new one
  by calls of its operations and timeouts, under any names, in which under this name no call waits and no
  maximal timeout is running (so after any earlier burst that was executed, cancelled or flushed). The configuration in
  force for the burst has no leading edge, and every event under the name (a call or a moment at which due
  timeouts run) comes less than the delay after the call before it, and before the maximal delay after the
  first call if there is one. Then nothing is executed during the burst; the timeout that falls due a delay after the
  last call executes exactly the function of the last call; and after that nothing waits and no maximal timeout runs.
\<close>

theorem debounce_runs_last_call:
  assumes "m = run db_do db_initial ops" and "db_idle name m"
    and "db_config m name ov = config" and "dc_leading config \<noteq> Some True"
    and "db_burst (dc_delay config) t0 es"
    and "list_all (\<lambda>e. case db_limit config t0 of None \<Rightarrow> True | Some l \<Rightarrow> db_time e < l) es"
    and "last_call (t0, f0) es = (t, f)" and "t + int (dc_delay config) \<le> now"
  shows "db_executed (run (db_step name ov) (db_schedule t0 name f0 ov m) es) = db_executed m
    \<and> db_executed (db_fire now name (run (db_step name ov) (db_schedule t0 name f0 ov m) es))
      = db_executed m @ [f]
    \<and> db_idle name (db_fire now name (run (db_step name ov) (db_schedule t0 name f0 ov m) es))"
proof -
  have "db_inv m" unfolding assms(1) by (rule reached_debounce)
  note start = db_waiting_start [OF assms(3) refl assms(4,2) this, of t0 f0]
  have "db_waiting name (dc_delay config) (db_limit config t0) (db_executed m) (last_call (t0, f0) es)
      (run (db_step name ov) (db_schedule t0 name f0 ov m) es)"
    by (rule db_waiting_burst [where config = config and start = t0]) (use start assms(3-) in simp_all)
  then show ?thesis
    using assms(7,8)
    by (auto simp: db_waiting_def db_fire_def db_execute_def db_idle_def clear_timers_def)
qed

text \<open>A second burst under a name with a maximal delay: the first one was executed.\<close>

definition debounced_once :: "nat DebounceManager" where
  "debounced_once = run db_do db_initial
     [Do_schedule 0 ''backend-save'' 1 no_override, Do_schedule 10 ''local-save'' 7 no_override, Do_fire 5000 ''backend-save'']"

theorem debounce_runs_last_call_witness:
  "db_executed (db_fire 15600 ''backend-save'' (run (db_step ''backend-save'' no_override)
      (db_schedule 10000 ''backend-save'' 2 no_override debounced_once)
      [Db_call 10300 3, Db_time 10700, Db_call 10600 4])) = [1, 4]"
proof -
  let ?config = "\<lparr>dc_delay = 5000, dc_maxDelay = Some 30000, dc_leading = None\<rparr>"
  have c: "db_idle ''backend-save'' debounced_once" "db_config debounced_once ''backend-save'' no_override = ?config"
    "db_executed debounced_once = [1]"
    by (simp_all add: debounced_once_def db_do_def db_schedule_def db_config_def db_initial_def no_override_def db_arm_def
        Let_def new_timer_def db_fire_def db_execute_def set_timer_def clear_timers_def db_idle_def)
  from debounce_runs_last_call [OF debounced_once_def c(1,2), of 10000 "[Db_call 10300 3, Db_time 10700, Db_call 10600 4]" 2 10600 4 15600]
  show ?thesis by (simp add: c(3) db_limit_def)
qed

end
