(* ===== verification/Conflict_Resolver.thy ===== *)
theory Conflict_Resolver
  imports Prelude
begin

text \<open>
  Conflicts between local and server data (frontend/src/lib/sync/conflict-resolver.ts): their
  detection in a collection and their resolution. Dates are milliseconds; an \<open>updatedAt\<close> that is
  absent or empty is \<open>None\<close>. What the user's callback answers, or that it throws, is an argument
  that the configuration carries; the log is left out.
\<close>

section \<open>The resolver\<close>

datatype ConflictStrategy = Local_wins | Server_wins | Merge | Ask_user

record 'a ConflictInfo =
  cf_entityType :: string
  cf_entityId :: ident
  cf_localData :: 'a
  cf_serverData :: 'a
  cf_localTimestamp :: millis
  cf_serverTimestamp :: millis

datatype source = From_local | From_server | From_merge

record 'a ResolutionResult =
  rr_resolvedData :: 'a
  rr_source :: source
  rr_userIntervened :: bool

text \<open>The callback either throws (\<open>Inl\<close>) or gives the resolved data.\<close>

record ('a, 'e) ConflictResolverConfig =
  cc_defaultStrategy :: ConflictStrategy
  cc_gracePeriodMs :: int
  cc_onUserIntervention :: "('a ConflictInfo \<Rightarrow> 'e + 'a) option"

definition cr_initial :: "('a, 'e) ConflictResolverConfig" where
  "cr_initial = \<lparr>cc_defaultStrategy = Local_wins, cc_gracePeriodMs = 5000, cc_onUserIntervention = None\<rparr>"

definition configure ::
    "ConflictStrategy option \<Rightarrow> int option \<Rightarrow> ('a ConflictInfo \<Rightarrow> 'e + 'a) option
      \<Rightarrow> ('a, 'e) ConflictResolverConfig \<Rightarrow> ('a, 'e) ConflictResolverConfig" where
  "configure defaultStrategy gracePeriodMs onUserIntervention c =
     \<lparr>cc_defaultStrategy = case_option (cc_defaultStrategy c) (\<lambda>x. x) defaultStrategy,
      cc_gracePeriodMs = case_option (cc_gracePeriodMs c) (\<lambda>x. x) gracePeriodMs,
      cc_onUserIntervention = case_option (cc_onUserIntervention c) Some onUserIntervention\<rparr>"

definition take_local :: "'a ConflictInfo \<Rightarrow> 'a ResolutionResult" where
  "take_local cf = \<lparr>rr_resolvedData = cf_localData cf, rr_source = From_local, rr_userIntervened = False\<rparr>"

definition take_server :: "'a ConflictInfo \<Rightarrow> 'a ResolutionResult" where
  "take_server cf = \<lparr>rr_resolvedData = cf_serverData cf, rr_source = From_server, rr_userIntervened = False\<rparr>"

definition attemptMerge :: "'a ConflictInfo \<Rightarrow> 'a ResolutionResult" where
  "attemptMerge cf =
     (let useLocal = cf_localTimestamp cf > cf_serverTimestamp cf
      in \<lparr>rr_resolvedData = (if useLocal then cf_localData cf else cf_serverData cf),
          rr_source = (if useLocal then From_local else From_server), rr_userIntervened = False\<rparr>)"

definition askUser :: "('a, 'e) ConflictResolverConfig \<Rightarrow> 'a ConflictInfo \<Rightarrow> 'a ResolutionResult" where
  "askUser c cf =
     (case cc_onUserIntervention c of
        Some callback \<Rightarrow>
          (case callback cf of
             Inr resolvedData \<Rightarrow>
               \<lparr>rr_resolvedData = resolvedData, rr_source = From_merge, rr_userIntervened = True\<rparr>
           | Inl _ \<Rightarrow> take_local cf)
      | None \<Rightarrow> take_local cf)"

definition cr_resolve ::
    "('a, 'e) ConflictResolverConfig \<Rightarrow> 'a ConflictInfo \<Rightarrow> ConflictStrategy option \<Rightarrow> 'a ResolutionResult" where
  "cr_resolve c cf strategy =
     (let effectiveStrategy = case_option (cc_defaultStrategy c) (\<lambda>x. x) strategy;
          timeDiff = \<bar>cf_localTimestamp cf - cf_serverTimestamp cf\<bar>
      in if timeDiff < cc_gracePeriodMs c
         then let useLocal = cf_localTimestamp cf > cf_serverTimestamp cf
              in \<lparr>rr_resolvedData = (if useLocal then cf_localData cf else cf_serverData cf),
                  rr_source = (if useLocal then From_local else From_server), rr_userIntervened = False\<rparr>
         else case effectiveStrategy of
                Local_wins \<Rightarrow> take_local cf
              | Server_wins \<Rightarrow> take_server cf
              | Merge \<Rightarrow> attemptMerge cf
              | Ask_user \<Rightarrow> askUser c cf)"

section \<open>Detection\<close>

text \<open>An item of a collection; what it holds beside these fields is of no concern here.\<close>

record 'a sync_item =
  it_id :: ident
  it_updatedAt :: "millis option"
  it_rest :: 'a

definition cr_hasConflict :: "'a sync_item \<Rightarrow> 'a sync_item \<Rightarrow> millis \<Rightarrow> bool" where
  "cr_hasConflict loc server lastSyncTime =
     (let localUpdated = case_option 0 (\<lambda>t. t) (it_updatedAt loc);
          serverUpdated = case_option 0 (\<lambda>t. t) (it_updatedAt server)
      in localUpdated > lastSyncTime \<and> serverUpdated > lastSyncTime)"

definition conflict_of :: "millis \<Rightarrow> string \<Rightarrow> 'a sync_item \<Rightarrow> 'a sync_item \<Rightarrow> 'a sync_item ConflictInfo" where
  "conflict_of now entityType localItem serverItem =
     \<lparr>cf_entityType = entityType, cf_entityId = it_id localItem,
      cf_localData = localItem, cf_serverData = serverItem,
      cf_localTimestamp = case_option now (\<lambda>t. t) (it_updatedAt localItem),
      cf_serverTimestamp = case_option now (\<lambda>t. t) (it_updatedAt serverItem)\<rparr>"

definition detectConflicts ::
    "millis \<Rightarrow> 'a sync_item list \<Rightarrow> 'a sync_item list \<Rightarrow> millis \<Rightarrow> string \<Rightarrow> 'a sync_item ConflictInfo list" where
  "detectConflicts now localItems serverItems lastSyncTime entityType =
     (let serverMap = foldl (\<lambda>m it. m(it_id it \<mapsto> it)) Map.empty serverItems
      in concat (map (\<lambda>localItem.
           case serverMap (it_id localItem) of
             None \<Rightarrow> []
           | Some serverItem \<Rightarrow>
               if cr_hasConflict localItem serverItem lastSyncTime
               then [conflict_of now entityType localItem serverItem]
               else []) localItems))"

text \<open>The table of the server's items holds the last item of every identifier.\<close>

lemma foldl_map_upd:
  "foldl (\<lambda>m x. m(f x \<mapsto> x)) M xs k
     = (case find (\<lambda>x. f x = k) (rev xs) of Some x \<Rightarrow> Some x | None \<Rightarrow> M k)"
  by (induction xs rule: rev_induct) auto

lemma detected_item:
  assumes "0 \<le> lastSyncTime"
  shows "cr_hasConflict l s lastSyncTime
    \<longleftrightarrow> (\<exists>t1 t2. it_updatedAt l = Some t1 \<and> it_updatedAt s = Some t2 \<and> lastSyncTime < t1 \<and> lastSyncTime < t2)"
  using assms by (auto simp: cr_hasConflict_def Let_def split: option.splits)

lemma detected_pair:
  "cf \<in> set (detectConflicts now ls ss t ty)
     \<longleftrightarrow> (\<exists>l s. l \<in> set ls \<and> find (\<lambda>x. it_id x = it_id l) (rev ss) = Some s
           \<and> cr_hasConflict l s t \<and> cf = conflict_of now ty l s)"
  by (force simp: detectConflicts_def foldl_map_upd split: option.splits)

section \<open>Properties\<close>

text \<open>
  a conflict is reported for exactly the local items for which the last item of the server with
  the same identifier and the item itself carry a time of change after the last synchronisation; the
  times of the conflict are these two, the clock is never used. An item that was changed on one side
  only, or that carries no time, is no conflict.
\<close>

theorem conflicts_exact:
  assumes "0 \<le> lastSyncTime"
  shows "cf \<in> set (detectConflicts now localItems serverItems lastSyncTime entityType)
    \<longleftrightarrow> (\<exists>l s t1 t2. l \<in> set localItems \<and> find (\<lambda>x. it_id x = it_id l) (rev serverItems) = Some s
          \<and> it_updatedAt l = Some t1 \<and> it_updatedAt s = Some t2 \<and> lastSyncTime < t1 \<and> lastSyncTime < t2
          \<and> cf = \<lparr>cf_entityType = entityType, cf_entityId = it_id l, cf_localData = l, cf_serverData = s,
                  cf_localTimestamp = t1, cf_serverTimestamp = t2\<rparr>)"
  unfolding detected_pair detected_item [OF assms] conflict_of_def by auto

text \<open>
  which side a resolution takes. Within the grace period the later change, the server's on a tie,
  under every strategy, so that neither \<open>server-wins\<close> nor \<open>ask-user\<close> has an effect there; outside of it
  the strategy decides, and \<open>merge\<close> merges nothing but takes the later change as well. The user is the
  source of the data exactly when the callback is asked and answers.
\<close>

theorem resolution_source:
  "cr_resolve c cf strategy =
    (let st = case_option (cc_defaultStrategy c) (\<lambda>x. x) strategy in
     if \<bar>cf_localTimestamp cf - cf_serverTimestamp cf\<bar> < cc_gracePeriodMs c \<or> st = Merge
     then if cf_serverTimestamp cf < cf_localTimestamp cf then take_local cf else take_server cf
     else if st = Server_wins then take_server cf
     else if st = Ask_user then
       (case map_option (\<lambda>callback. callback cf) (cc_onUserIntervention c) of
          Some (Inr x) \<Rightarrow> \<lparr>rr_resolvedData = x, rr_source = From_merge, rr_userIntervened = True\<rparr>
        | _ \<Rightarrow> take_local cf)
     else take_local cf)"
  by (cases "case_option (cc_defaultStrategy c) (\<lambda>x. x) strategy")
    (auto simp: cr_resolve_def attemptMerge_def askUser_def take_local_def take_server_def Let_def
      split: option.splits sum.splits)

text \<open>
  with the resolver as it is configured from the start, the local version of a detected conflict is
  given up only when the server's change is not earlier and less than five seconds later.
\<close>

theorem default_resolution_keeps_local:
  assumes "0 \<le> lastSyncTime" and "cf \<in> set (detectConflicts now localItems serverItems lastSyncTime entityType)"
  shows "rr_resolvedData (cr_resolve cr_initial cf None)
      = (case (it_updatedAt (cf_localData cf), it_updatedAt (cf_serverData cf)) of
           (Some t1, Some t2) \<Rightarrow>
             if t1 \<le> t2 \<and> t2 < t1 + 5000 then cf_serverData cf else cf_localData cf)"
proof -
  obtain t1 t2 where "it_updatedAt (cf_localData cf) = Some t1" "it_updatedAt (cf_serverData cf) = Some t2"
    "cf_localTimestamp cf = t1" "cf_serverTimestamp cf = t2"
    using assms(2) unfolding detected_pair detected_item [OF assms(1)] conflict_of_def by auto
  then show ?thesis
    by (auto simp: cr_resolve_def cr_initial_def take_local_def Let_def)
qed

section \<open>Examples\<close>

definition item_example :: "ident \<Rightarrow> millis \<Rightarrow> string sync_item" where
  "item_example i t = \<lparr>it_id = i, it_updatedAt = Some t, it_rest = ''data''\<rparr>"

lemmas conflict_eval = conflict_of_def item_example_def detectConflicts_def cr_hasConflict_def

theorem conflicts_exact_witness:
  "(\<exists>l s t1 t2. l \<in> set [item_example ''a'' 20, item_example ''b'' 5]
        \<and> find (\<lambda>x. it_id x = it_id l) (rev [item_example ''a'' 30, item_example ''b'' 30]) = Some s
        \<and> it_updatedAt l = Some t1 \<and> it_updatedAt s = Some t2 \<and> 10 < t1 \<and> 10 < t2
        \<and> \<lparr>cf_entityType = ''workflow'', cf_entityId = ''a'', cf_localData = item_example ''a'' 20,
            cf_serverData = item_example ''a'' 30, cf_localTimestamp = 20, cf_serverTimestamp = 30\<rparr>
          = \<lparr>cf_entityType = ''workflow'', cf_entityId = it_id l, cf_localData = l, cf_serverData = s,
              cf_localTimestamp = t1, cf_serverTimestamp = t2\<rparr>)"
  by (rule iffD1 [OF conflicts_exact [where now = 0]]) (simp_all add: conflict_eval)

theorem default_resolution_keeps_local_witness:
  "rr_resolvedData (cr_resolve cr_initial
      \<lparr>cf_entityType = ''workflow'', cf_entityId = ''a'', cf_localData = item_example ''a'' 20,
       cf_serverData = item_example ''a'' 30, cf_localTimestamp = 20, cf_serverTimestamp = 30\<rparr> None)
    = item_example ''a'' 30"
  by (subst default_resolution_keeps_local
      [where lastSyncTime = 10 and now = 0 and localItems = "[item_example ''a'' 20]"
        and serverItems = "[item_example ''a'' 30]" and entityType = "''workflow''"])
    (simp_all add: conflict_eval)

end
