(* ===== verification/Json_Doc.thy ===== *)
theory Json_Doc
  imports Prelude "HOL-Library.Finite_Map"
begin

text \<open>
  Documents as the collaboration services see them (\<open>unknown\<close> in the code): JSON values and
  \<open>undefined\<close>. Objects are finite maps, so the order of keys, which no operation looks at, is not
  kept; numbers are integers. The reads, writes and deletes of a property follow JavaScript in
  strict mode on own properties; what they would do on inherited names, on named properties of
  arrays and on strings is \<open>Unmodelled\<close>.
\<close>

datatype json =
    JUndef | JNull | JBool bool | JNum int | JStr string
  | JArr "json list" | JObj "(string, json) fmap"

fun falsy :: "json \<Rightarrow> bool" where
  "falsy JUndef = True"
| "falsy JNull = True"
| "falsy (JBool b) = (\<not> b)"
| "falsy (JNum n) = (n = 0)"
| "falsy (JStr s) = (s = [])"
| "falsy _ = False"

section \<open>The deep clone\<close>

definition null_undef :: "json \<Rightarrow> json" where
  "null_undef j = (if j = JUndef then JNull else j)"

definition drop_undef :: "(string, json) fmap \<Rightarrow> (string, json) fmap" where
  "drop_undef m = fmfilter (\<lambda>k. fmlookup m k \<noteq> Some JUndef) m"

text \<open>\<open>JSON.parse(JSON.stringify(j))\<close>, with \<open>JUndef\<close> for a value that is not serialised.\<close>

primrec json_clone :: "json \<Rightarrow> json" where
  "json_clone JUndef = JUndef"
| "json_clone JNull = JNull"
| "json_clone (JBool b) = JBool b"
| "json_clone (JNum n) = JNum n"
| "json_clone (JStr s) = JStr s"
| "json_clone (JArr xs) = JArr (map null_undef (map json_clone xs))"
| "json_clone (JObj m) = JObj (drop_undef (fmmap json_clone m))"

text \<open>A document in JSON form: cloning it gives it back.\<close>

definition is_json :: "json \<Rightarrow> bool" where
  "is_json j \<longleftrightarrow> j \<noteq> JUndef \<and> json_clone j = j"

lemma fmlookup_drop_undef:
  "fmlookup (drop_undef m) k = (if fmlookup m k = Some JUndef then None else fmlookup m k)"
  by (simp add: drop_undef_def)

lemma is_json_not_JUndef [simp]: "\<not> is_json JUndef"
  by (simp add: is_json_def)

lemma is_json_JNull [simp]: "is_json JNull"
  by (simp add: is_json_def)

lemma is_json_clone [simp]: "is_json j \<Longrightarrow> json_clone j = j"
  by (simp add: is_json_def)

lemma is_json_JArr: "is_json (JArr xs) \<longleftrightarrow> (\<forall>x \<in> set xs. is_json x)"
proof -
  have "null_undef (json_clone x) = x \<longleftrightarrow> is_json x" for x
    by (cases x) (auto simp: null_undef_def is_json_def)
  moreover have "map (null_undef \<circ> json_clone) xs = xs \<longleftrightarrow> (\<forall>x \<in> set xs. null_undef (json_clone x) = x)"
    using map_eq_conv [of "null_undef \<circ> json_clone" xs "\<lambda>x. x"] by simp
  ultimately show ?thesis by (simp add: is_json_def [of "JArr xs"])
qed

lemma is_json_JObj: "is_json (JObj m) \<longleftrightarrow> (\<forall>k v. fmlookup m k = Some v \<longrightarrow> is_json v)"
proof -
  have eq: "fmlookup (drop_undef (fmmap json_clone m)) k
      = (case fmlookup m k of None \<Rightarrow> None
         | Some v \<Rightarrow> if json_clone v = JUndef then None else Some (json_clone v))" for k
    by (simp add: fmlookup_drop_undef split: option.splits)
  have undef: "json_clone v = JUndef \<longleftrightarrow> v = JUndef" for v
    by (cases v) auto
  show ?thesis
  proof
    assume "is_json (JObj m)"
    then have same: "fmlookup (drop_undef (fmmap json_clone m)) k = fmlookup m k" for k
      by (simp add: is_json_def)
    have "is_json v" if "fmlookup m k = Some v" for k v
      using same [of k] that unfolding eq by (auto simp: is_json_def undef split: if_splits)
    then show "\<forall>k v. fmlookup m k = Some v \<longrightarrow> is_json v" by blast
  next
    assume all: "\<forall>k v. fmlookup m k = Some v \<longrightarrow> is_json v"
    have "drop_undef (fmmap json_clone m) = m"
      by (rule fmap_ext) (use all in \<open>auto simp: eq is_json_def split: option.splits\<close>)
    then show "is_json (JObj m)" by (simp add: is_json_def)
  qed
qed

section \<open>Property names\<close>

text \<open>Names that a plain object, a number or a boolean inherits.\<close>

definition inherited_name :: "string \<Rightarrow> bool" where
  "inherited_name k = (k \<in> set [''__proto__'', ''constructor'', ''hasOwnProperty'', ''isPrototypeOf'',
     ''propertyIsEnumerable'', ''toLocaleString'', ''toString'', ''valueOf'', ''__defineGetter__'',
     ''__defineSetter__'', ''__lookupGetter__'', ''__lookupSetter__'', ''toExponential'', ''toFixed'',
     ''toPrecision''])"

definition is_digit :: "char \<Rightarrow> bool" where
  "is_digit c = (48 \<le> (of_char c :: nat) \<and> (of_char c :: nat) \<le> 57)"

definition digit_val :: "char \<Rightarrow> nat" where
  "digit_val c = of_char c - 48"

definition digits_val :: "string \<Rightarrow> nat" where
  "digits_val s = foldl (\<lambda>n c. 10 * n + digit_val c) 0 s"

text \<open>An array index is a decimal number without leading zeros, below \<open>2^32 - 1\<close>.\<close>

definition array_index :: "string \<Rightarrow> nat option" where
  "array_index k =
     (if k \<noteq> [] \<and> list_all is_digit k \<and> (k = ''0'' \<or> hd k \<noteq> CHR ''0'') \<and> digits_val k < 2 ^ 32 - 1
      then Some (digits_val k) else None)"

text \<open>\<open>parseInt(s, 10)\<close>, with \<open>None\<close> for \<open>NaN\<close>; exact below \<open>2^53\<close>.\<close>

definition is_space :: "char \<Rightarrow> bool" where
  "is_space c = ((9 \<le> (of_char c :: nat) \<and> (of_char c :: nat) \<le> 13) \<or> (of_char c :: nat) \<in> {32, 160})"

definition parse_digits :: "string \<Rightarrow> int option" where
  "parse_digits s = (let ds = takeWhile is_digit s in
     if ds = [] then None else Some (int (digits_val ds)))"

definition parseInt :: "string \<Rightarrow> int option" where
  "parseInt s =
     (case dropWhile is_space s of
        [] \<Rightarrow> None
      | c # cs \<Rightarrow> if c = CHR ''-'' then map_option uminus (parse_digits cs)
                  else if c = CHR ''+'' then parse_digits cs
                  else parse_digits (c # cs))"

section \<open>Reading, writing and deleting a property\<close>

fun js_get :: "json \<Rightarrow> string \<Rightarrow> js_error + json" where
  "js_get (JObj m) k =
     (if inherited_name k then Inl Unmodelled
      else Inr (case fmlookup m k of None \<Rightarrow> JUndef | Some v \<Rightarrow> v))"
| "js_get (JArr xs) k =
     (case array_index k of None \<Rightarrow> Inl Unmodelled
      | Some i \<Rightarrow> Inr (if i < length xs then xs ! i else JUndef))"
| "js_get (JStr s) k = Inl Unmodelled"
| "js_get (JNum n) k = (if inherited_name k then Inl Unmodelled else Inr JUndef)"
| "js_get (JBool b) k = (if inherited_name k then Inl Unmodelled else Inr JUndef)"
| "js_get JNull k = Inl TypeError"
| "js_get JUndef k = Inl TypeError"

text \<open>Writing beyond the end of an array leaves holes, which read as \<open>undefined\<close>.\<close>

fun js_set :: "json \<Rightarrow> string \<Rightarrow> json \<Rightarrow> js_error + json" where
  "js_set (JObj m) k v = (if inherited_name k then Inl Unmodelled else Inr (JObj (fmupd k v m)))"
| "js_set (JArr xs) k v =
     (case array_index k of None \<Rightarrow> Inl Unmodelled
      | Some i \<Rightarrow> Inr (JArr (if i < length xs then xs[i := v]
                             else xs @ replicate (i - length xs) JUndef @ [v])))"
| "js_set (JStr s) k v = (if inherited_name k then Inl Unmodelled else Inl TypeError)"
| "js_set (JNum n) k v = (if inherited_name k then Inl Unmodelled else Inl TypeError)"
| "js_set (JBool b) k v = (if inherited_name k then Inl Unmodelled else Inl TypeError)"
| "js_set JNull k v = Inl TypeError"
| "js_set JUndef k v = Inl TypeError"

fun js_delete :: "json \<Rightarrow> string \<Rightarrow> js_error + json" where
  "js_delete (JObj m) k = (if inherited_name k then Inl Unmodelled else Inr (JObj (fmdrop k m)))"
| "js_delete (JArr xs) k =
     (case array_index k of None \<Rightarrow> Inl Unmodelled
      | Some i \<Rightarrow> Inr (JArr (if i < length xs then xs[i := JUndef] else xs)))"
| "js_delete (JStr s) k = Inl Unmodelled"
| "js_delete (JNum n) k = Inr (JNum n)"
| "js_delete (JBool b) k = Inr (JBool b)"
| "js_delete JNull k = Inl TypeError"
| "js_delete JUndef k = Inl TypeError"

section \<open>Paths\<close>

text \<open>
  Specification side: the value at a path of own properties and array elements, and the document
  with another value there. A path that leads through anything else has no value.
\<close>

fun doc_at :: "string list \<Rightarrow> json \<Rightarrow> json option" where
  "doc_at [] d = Some d"
| "doc_at (k # ks) (JObj m) =
     (if inherited_name k then None
      else case fmlookup m k of None \<Rightarrow> None | Some c \<Rightarrow> doc_at ks c)"
| "doc_at (k # ks) (JArr xs) =
     (case array_index k of None \<Rightarrow> None
      | Some i \<Rightarrow> if i < length xs then doc_at ks (xs ! i) else None)"
| "doc_at (k # ks) d = None"

fun doc_put :: "string list \<Rightarrow> json \<Rightarrow> json \<Rightarrow> json" where
  "doc_put [] v d = v"
| "doc_put (k # ks) v (JObj m) =
     (case fmlookup m k of None \<Rightarrow> JObj m | Some c \<Rightarrow> JObj (fmupd k (doc_put ks v c) m))"
| "doc_put (k # ks) v (JArr xs) =
     (case array_index k of None \<Rightarrow> JArr xs
      | Some i \<Rightarrow> if i < length xs then JArr (xs[i := doc_put ks v (xs ! i)]) else JArr xs)"
| "doc_put (k # ks) v d = d"

lemma doc_at_put:
  "doc_at p d = Some c \<Longrightarrow> doc_at p (doc_put p v d) = Some v"
  by (induction p d arbitrary: c rule: doc_at.induct)
    (auto split: option.splits if_splits)

lemma doc_put_put:
  "doc_at p d = Some c \<Longrightarrow> doc_put p w (doc_put p v d) = doc_put p w d"
  by (induction p d arbitrary: c rule: doc_at.induct)
    (auto split: option.splits if_splits)

lemma fmupd_same [simp]: "fmlookup m k = Some x \<Longrightarrow> fmupd k x m = m"
  by (rule fmap_ext) auto

lemma doc_put_same: "doc_at p d = Some c \<Longrightarrow> doc_put p c d = d"
  by (induction p d arbitrary: c rule: doc_at.induct)
    (auto split: option.splits if_splits)

lemma doc_at_json: "is_json d \<Longrightarrow> doc_at p d = Some c \<Longrightarrow> is_json c"
  by (induction p d arbitrary: c rule: doc_at.induct)
    (auto split: option.splits if_splits simp: is_json_JObj is_json_JArr)

lemma doc_put_json: "is_json d \<Longrightarrow> is_json v \<Longrightarrow> is_json (doc_put p v d)"
proof (induction p v d rule: doc_put.induct)
  case (3 k ks v xs)
  then show ?case
    by (auto simp: is_json_JArr split: option.splits dest!: set_update_subset_insert [THEN subsetD])
qed (auto split: option.splits if_splits simp: is_json_JObj)

text \<open>Two paths part when they have a common prefix and then differ.\<close>

fun paths_part :: "string list \<Rightarrow> string list \<Rightarrow> bool" where
  "paths_part (a # as) (b # bs) = (if a = b then paths_part as bs else True)"
| "paths_part _ _ = False"

lemma digits_val_snoc: "digits_val (s @ [c]) = 10 * digits_val s + digit_val c"
  by (simp add: digits_val_def)

lemma digit_val_less: "is_digit c \<Longrightarrow> digit_val c < 10"
  by (auto simp: is_digit_def digit_val_def)

lemma digit_val_inj: "is_digit a \<Longrightarrow> is_digit b \<Longrightarrow> digit_val a = digit_val b \<Longrightarrow> a = b"
proof -
  assume "is_digit a" "is_digit b" "digit_val a = digit_val b"
  then have "(of_char a :: nat) = of_char b"
    unfolding is_digit_def digit_val_def by linarith
  then show "a = b" by simp
qed

lemma digits_val_less: "list_all is_digit s \<Longrightarrow> digits_val s < 10 ^ length s"
proof (induction s rule: rev_induct)
  case Nil
  then show ?case by (simp add: digits_val_def)
next
  case (snoc c s)
  then have "digits_val s < 10 ^ length s" "digit_val c < 10"
    by (auto simp: digit_val_less)
  then show ?case by (simp add: digits_val_snoc)
qed

lemma digits_val_ge:
  assumes "list_all is_digit s" and "s \<noteq> []" and "hd s \<noteq> CHR ''0''"
  shows "10 ^ (length s - 1) \<le> digits_val s"
  using assms
proof (induction s rule: rev_induct)
  case Nil
  then show ?case by simp
next
  case (snoc c s)
  show ?case
  proof (cases "s = []")
    case True
    then have "is_digit c" "c \<noteq> CHR ''0''" using snoc.prems by auto
    then have "digit_val c \<noteq> 0"
      using digit_val_inj [of c "CHR ''0''"] by (auto simp: is_digit_def digit_val_def)
    with True show ?thesis by (simp add: digits_val_def)
  next
    case False
    with snoc have "10 ^ (length s - 1) \<le> digits_val s" by auto
    moreover from False have "(10::nat) ^ length s = 10 * 10 ^ (length s - 1)"
      by (cases s) auto
    ultimately show ?thesis by (simp add: digits_val_snoc)
  qed
qed

lemma digits_val_inj:
  "length a = length b \<Longrightarrow> list_all is_digit a \<Longrightarrow> list_all is_digit b
     \<Longrightarrow> digits_val a = digits_val b \<Longrightarrow> a = b"
proof (induction a arbitrary: b rule: rev_induct)
  case Nil
  then show ?case by simp
next
  case (snoc c s)
  then obtain e t where b: "b = t @ [e]" by (cases b rule: rev_cases) auto
  have digits: "is_digit c" "is_digit e" and less: "digit_val c < 10" "digit_val e < 10"
    using snoc.prems b by (auto simp: digit_val_less)
  have sum: "10 * digits_val s + digit_val c = 10 * digits_val t + digit_val e"
    using snoc.prems(4) b by (simp add: digits_val_snoc)
  with less have "digits_val s = digits_val t" by arith
  moreover from this sum have "digit_val c = digit_val e" by simp
  ultimately show ?case
    using snoc b digits digit_val_inj by auto
qed

lemma array_index_inj:
  assumes "array_index a = Some i" and "array_index b = Some i"
  shows "a = b"
proof -
  have props: "s \<noteq> [] \<and> list_all is_digit s \<and> (s = ''0'' \<or> hd s \<noteq> CHR ''0'') \<and> digits_val s = i"
    if "array_index s = Some i" for s
    using that by (auto simp: array_index_def split: if_splits)
  have len: "length s \<le> length t"
    if s: "array_index s = Some i" and t: "array_index t = Some i" for s t
  proof (cases "s = ''0''")
    case True
    then show ?thesis using props [OF t] by (cases t) auto
  next
    case False
    then have "10 ^ (length s - 1) \<le> i" and "i < 10 ^ length t"
      using props [OF s] props [OF t] digits_val_ge [of s] digits_val_less [of t] by auto
    then have "10 ^ (length s - 1) < (10::nat) ^ length t" by (rule le_less_trans)
    then have "length s - 1 < length t" by (simp only: power_strict_increasing_iff)
    then show ?thesis by simp
  qed
  show ?thesis
    by (rule digits_val_inj)
      (use props [OF assms(1)] props [OF assms(2)] len [OF assms] len [OF assms(2,1)] in auto)
qed

lemma array_index_neq: "a \<noteq> b \<Longrightarrow> array_index a = Some i \<Longrightarrow> array_index b = Some j \<Longrightarrow> i \<noteq> j"
  using array_index_inj by blast

lemma doc_put_commute:
  assumes "paths_part p q"
  shows "doc_put p v (doc_put q w d) = doc_put q w (doc_put p v d)"
  using assms
proof (induction p q arbitrary: d rule: paths_part.induct)
  case (1 a as b bs)
  show ?case
  proof (cases d)
    case (JArr xs)
    show ?thesis
    proof (cases "a = b")
      case True
      with 1 JArr show ?thesis by (auto split: option.splits)
    next
      case False
      with JArr show ?thesis
        by (auto split: option.splits simp: list_update_swap dest: array_index_neq [OF False])
    qed
  next
    case (JObj m)
    show ?thesis
    proof (cases "a = b")
      case True
      with 1 JObj show ?thesis by (auto split: option.splits)
    next
      case False
      with JObj show ?thesis
        by (auto split: option.splits intro!: fmap_ext)
    qed
  qed auto
qed auto

lemma doc_at_put_other:
  assumes "paths_part p q"
  shows "doc_at p (doc_put q w d) = doc_at p d"
  using assms
proof (induction p q arbitrary: d rule: paths_part.induct)
  case (1 a as b bs)
  show ?case
  proof (cases d)
    case (JArr xs)
    show ?thesis
    proof (cases "a = b")
      case True
      with 1 JArr show ?thesis by (auto split: option.splits)
    next
      case False
      with JArr show ?thesis
        by (auto split: option.splits dest: array_index_neq [OF False])
    qed
  next
    case (JObj m)
    with 1 show ?thesis by (cases "a = b") (auto split: option.splits)
  qed auto
qed auto

lemma paths_part_sym: "paths_part p q \<Longrightarrow> paths_part q p"
  by (induction p q rule: paths_part.induct) (auto split: if_splits)

end
