(* ===== verification/Operational_Transform.thy ===== *)
theory Operational_Transform
  imports Json_Doc Interfaces
begin

text \<open>
  \<open>OperationalTransformService\<close> of
  frontend/src/services/collaboration/operational-transform-service.ts: operations on a document,
  the transformation of two concurrent ones, composition, inversion and application. Positions are
  integers (\<open>None\<close> is an absent one, read as 0), timestamps are milliseconds, an absent value is
  \<open>JUndef\<close>. The theorems say for which pairs of operations two replicas agree after exchanging
  them, and for which they do not.
\<close>

section \<open>Operations\<close>

datatype OperationType = OpInsert | OpDelete | OpUpdate | OpMove | OpConnect | OpDisconnect

record Operation =
  op_type :: OperationType
  op_path :: "string list"
  op_value :: json
  op_oldValue :: json
  op_timestamp :: millis
  op_userId :: ident
  op_operationId :: ident
  op_position :: "int option"
  op_newPosition :: "int option"
  op_sourceId :: "ident option"
  op_targetId :: "ident option"

record TransformResult =
  op1Prime :: Operation
  op2Prime :: Operation
  tr_success :: bool
  tr_warnings :: "string list"

definition pos_of :: "Operation \<Rightarrow> int" where
  "pos_of p = (case op_position p of None \<Rightarrow> 0 | Some n \<Rightarrow> n)"

definition newpos_of :: "Operation \<Rightarrow> int" where
  "newpos_of p = (case op_newPosition p of None \<Rightarrow> 0 | Some n \<Rightarrow> n)"

definition no_op :: "Operation \<Rightarrow> Operation" where
  "no_op p = p\<lparr>op_type := OpUpdate, op_value := JNull\<rparr>"

definition tr :: "Operation \<Rightarrow> Operation \<Rightarrow> string list \<Rightarrow> TransformResult" where
  "tr a b ws = \<lparr>op1Prime = a, op2Prime = b, tr_success = True, tr_warnings = ws\<rparr>"

definition tr_swap :: "TransformResult \<Rightarrow> TransformResult" where
  "tr_swap r = \<lparr>op1Prime = op2Prime r, op2Prime = op1Prime r, tr_success = tr_success r,
                tr_warnings = tr_warnings r\<rparr>"

lemma tr_simps [simp]: "op1Prime (tr a b ws) = a" "op2Prime (tr a b ws) = b"
  by (simp_all add: tr_def)

lemma tr_swap_simps [simp]:
  "op1Prime (tr_swap r) = op2Prime r" "op2Prime (tr_swap r) = op1Prime r"
  by (simp_all add: tr_swap_def)

section \<open>Paths\<close>

fun pathsConflict :: "string list \<Rightarrow> string list \<Rightarrow> bool" where
  "pathsConflict (a # as) (b # bs) = (a = b \<and> pathsConflict as bs)"
| "pathsConflict _ _ = True"

definition pathsEqual :: "string list \<Rightarrow> string list \<Rightarrow> bool" where
  "pathsEqual p q = (length p = length q \<and> list_all2 (=) p q)"

definition pathIsChildOf :: "string list \<Rightarrow> string list \<Rightarrow> bool" where
  "pathIsChildOf p q = (length q < length p \<and> list_all2 (=) (take (length q) p) q)"

text \<open>The adjustment of one segment of a path; \<open>None\<close> where the code leaves it.\<close>

definition adjust_segment :: "string \<Rightarrow> int \<Rightarrow> string option" where
  "adjust_segment seg position =
     (if seg = [] then None
      else case parseInt seg of None \<Rightarrow> None
           | Some n \<Rightarrow> if n \<ge> position then Some (int_string (n + 1)) else None)"

text \<open>The loop over the common segments: the first that differs is adjusted, or the loop breaks.\<close>

fun adjust_common :: "nat \<Rightarrow> string list \<Rightarrow> string list \<Rightarrow> int \<Rightarrow> (nat \<times> string) option" where
  "adjust_common i (a # as) (b # bs) position =
     (if a \<noteq> b then map_option (Pair i) (adjust_segment a position)
      else adjust_common (Suc i) as bs position)"
| "adjust_common i _ _ position = None"

definition adjustPathForInsert :: "string list \<Rightarrow> string list \<Rightarrow> int \<Rightarrow> string list" where
  "adjustPathForInsert path insertPath position =
     (if \<not> pathsConflict path insertPath then path
      else case adjust_common 0 path insertPath position of
        Some (i, s) \<Rightarrow> path[i := s]
      | None \<Rightarrow>
          (if length insertPath < length path
           then case adjust_segment (path ! length insertPath) position of
                  Some s \<Rightarrow> path[length insertPath := s]
                | None \<Rightarrow> path
           else path))"

record PathTransformResult =
  transformedPath :: "string list"
  path_exists :: bool
  path_reason :: "string option"

definition transformPath :: "string list \<Rightarrow> Operation \<Rightarrow> PathTransformResult" where
  "transformPath path p =
     (if \<not> pathsConflict path (op_path p)
      then \<lparr>transformedPath = path, path_exists = True, path_reason = None\<rparr>
      else if op_type p = OpDelete \<and> pathIsChildOf path (op_path p)
      then \<lparr>transformedPath = path, path_exists = False, path_reason = Some ''Path was deleted''\<rparr>
      else if op_type p = OpInsert
      then \<lparr>transformedPath = adjustPathForInsert path (op_path p) (pos_of p), path_exists = True,
            path_reason = None\<rparr>
      else \<lparr>transformedPath = path, path_exists = True, path_reason = None\<rparr>)"

section \<open>Transformation\<close>

definition transformInsertInsert :: "Operation \<Rightarrow> Operation \<Rightarrow> TransformResult" where
  "transformInsertInsert op1 op2 =
     (let pos1 = pos_of op1; pos2 = pos_of op2 in
      if pos1 < pos2 then tr op1 (op2\<lparr>op_position := Some (pos2 + 1)\<rparr>) []
      else if pos1 > pos2 then tr (op1\<lparr>op_position := Some (pos1 + 1)\<rparr>) op2 []
      else if op_timestamp op1 < op_timestamp op2
      then tr op1 (op2\<lparr>op_position := Some (pos2 + 1)\<rparr>) []
      else tr (op1\<lparr>op_position := Some (pos1 + 1)\<rparr>) op2 [])"

definition transformInsertDelete :: "Operation \<Rightarrow> Operation \<Rightarrow> TransformResult" where
  "transformInsertDelete op1 op2 =
     (let pos1 = pos_of op1; pos2 = pos_of op2 in
      if pos1 \<le> pos2 then tr op1 (op2\<lparr>op_position := Some (pos2 + 1)\<rparr>) []
      else tr (op1\<lparr>op_position := Some (pos1 - 1)\<rparr>) op2 [])"

definition transformDeleteInsert :: "Operation \<Rightarrow> Operation \<Rightarrow> TransformResult" where
  "transformDeleteInsert op1 op2 = tr_swap (transformInsertDelete op2 op1)"

definition transformInsertUpdate :: "Operation \<Rightarrow> Operation \<Rightarrow> TransformResult" where
  "transformInsertUpdate op1 op2 =
     (if \<not> pathsConflict (op_path op1) (op_path op2) then tr op1 op2 []
      else tr op1 (op2\<lparr>op_path := adjustPathForInsert (op_path op2) (op_path op1) (pos_of op1)\<rparr>) [])"

definition transformUpdateInsert :: "Operation \<Rightarrow> Operation \<Rightarrow> TransformResult" where
  "transformUpdateInsert op1 op2 = tr_swap (transformInsertUpdate op2 op1)"

definition transformDeleteDelete :: "Operation \<Rightarrow> Operation \<Rightarrow> TransformResult" where
  "transformDeleteDelete op1 op2 =
     (let pos1 = pos_of op1; pos2 = pos_of op2 in
      if pos1 = pos2 then tr (no_op op1) (no_op op2) [''Both operations deleted the same item'']
      else if pos1 < pos2 then tr op1 (op2\<lparr>op_position := Some (pos2 - 1)\<rparr>) []
      else tr (op1\<lparr>op_position := Some (pos1 - 1)\<rparr>) op2 [])"

definition transformDeleteUpdate :: "Operation \<Rightarrow> Operation \<Rightarrow> TransformResult" where
  "transformDeleteUpdate op1 op2 =
     (if pathsEqual (op_path op1) (op_path op2)
      then tr op1 (no_op op2) [''Update target was deleted'']
      else tr op1 op2 [])"

definition transformUpdateDelete :: "Operation \<Rightarrow> Operation \<Rightarrow> TransformResult" where
  "transformUpdateDelete op1 op2 = tr_swap (transformDeleteUpdate op2 op1)"

definition transformUpdateUpdate :: "Operation \<Rightarrow> Operation \<Rightarrow> TransformResult" where
  "transformUpdateUpdate op1 op2 =
     (if pathsEqual (op_path op1) (op_path op2)
      then if op_timestamp op1 < op_timestamp op2
           then tr op1 (op2\<lparr>op_oldValue := op_value op1\<rparr>)
                  [''Concurrent updates to same field - using timestamp ordering'']
           else tr (op1\<lparr>op_oldValue := op_value op2\<rparr>) op2
                  [''Concurrent updates to same field - using timestamp ordering'']
      else tr op1 op2 [])"

definition move_index :: "int \<Rightarrow> int \<Rightarrow> int \<Rightarrow> int" where
  "move_index fr to n =
     n - (if fr \<le> n \<and> to > n then 1 else 0) - (if fr < n \<and> to \<le> n then 1 else 0)"

definition transformMoveMove :: "Operation \<Rightarrow> Operation \<Rightarrow> TransformResult" where
  "transformMoveMove op1 op2 =
     (let from1 = pos_of op1; to1 = newpos_of op1; from2 = pos_of op2; to2 = newpos_of op2 in
      tr (op1\<lparr>op_position := Some (move_index from2 to2 from1),
              op_newPosition := Some (move_index from2 to2 to1)\<rparr>)
         (op2\<lparr>op_position := Some (move_index from1 to1 from2),
              op_newPosition := Some (move_index from1 to1 to2)\<rparr>) [])"

definition transformMoveDelete :: "Operation \<Rightarrow> Operation \<Rightarrow> TransformResult" where
  "transformMoveDelete op1 op2 =
     (let moveFrom = pos_of op1; moveTo = newpos_of op1; deletePos = pos_of op2 in
      if deletePos = moveFrom then tr (no_op op1) op2 [''Move source was deleted'']
      else tr (op1\<lparr>op_position := Some (if deletePos < moveFrom then moveFrom - 1 else moveFrom),
                   op_newPosition := Some (if deletePos < moveTo then moveTo - 1 else moveTo)\<rparr>)
              op2 [])"

definition transformDeleteMove :: "Operation \<Rightarrow> Operation \<Rightarrow> TransformResult" where
  "transformDeleteMove op1 op2 = tr_swap (transformMoveDelete op2 op1)"

definition same_connection :: "Operation \<Rightarrow> Operation \<Rightarrow> bool" where
  "same_connection op1 op2 = (op_sourceId op1 = op_sourceId op2 \<and> op_targetId op1 = op_targetId op2)"

definition transformConnectDisconnect :: "Operation \<Rightarrow> Operation \<Rightarrow> TransformResult" where
  "transformConnectDisconnect op1 op2 =
     (if same_connection op1 op2
      then if op_timestamp op1 < op_timestamp op2
           then tr op1 op2 [''Concurrent connect/disconnect - using timestamp ordering'']
           else tr (no_op op1) op2 [''Connection was disconnected before connect completed'']
      else tr op1 op2 [])"

definition transformDisconnectConnect :: "Operation \<Rightarrow> Operation \<Rightarrow> TransformResult" where
  "transformDisconnectConnect op1 op2 = tr_swap (transformConnectDisconnect op2 op1)"

definition transformConnectConnect :: "Operation \<Rightarrow> Operation \<Rightarrow> TransformResult" where
  "transformConnectConnect op1 op2 =
     (if same_connection op1 op2 then tr op1 (no_op op2) [''Duplicate connection attempt'']
      else tr op1 op2 [])"

definition transformDisconnectDisconnect :: "Operation \<Rightarrow> Operation \<Rightarrow> TransformResult" where
  "transformDisconnectDisconnect op1 op2 =
     (if same_connection op1 op2 then tr op1 (no_op op2) [''Duplicate disconnect attempt'']
      else tr op1 op2 [])"

fun transform_rule :: "OperationType \<Rightarrow> OperationType \<Rightarrow> Operation \<Rightarrow> Operation \<Rightarrow> TransformResult"
where
  "transform_rule OpInsert OpInsert = transformInsertInsert"
| "transform_rule OpInsert OpDelete = transformInsertDelete"
| "transform_rule OpDelete OpInsert = transformDeleteInsert"
| "transform_rule OpInsert OpUpdate = transformInsertUpdate"
| "transform_rule OpUpdate OpInsert = transformUpdateInsert"
| "transform_rule OpDelete OpDelete = transformDeleteDelete"
| "transform_rule OpDelete OpUpdate = transformDeleteUpdate"
| "transform_rule OpUpdate OpDelete = transformUpdateDelete"
| "transform_rule OpUpdate OpUpdate = transformUpdateUpdate"
| "transform_rule OpMove OpMove = transformMoveMove"
| "transform_rule OpMove OpDelete = transformMoveDelete"
| "transform_rule OpDelete OpMove = transformDeleteMove"
| "transform_rule OpConnect OpDisconnect = transformConnectDisconnect"
| "transform_rule OpDisconnect OpConnect = transformDisconnectConnect"
| "transform_rule OpConnect OpConnect = transformConnectConnect"
| "transform_rule OpDisconnect OpDisconnect = transformDisconnectDisconnect"
| "transform_rule _ _ = (\<lambda>op1 op2. tr op1 op2 [])"

definition transformByType :: "Operation \<Rightarrow> Operation \<Rightarrow> TransformResult" where
  "transformByType op1 op2 = transform_rule (op_type op1) (op_type op2) op1 op2"

definition transform :: "Operation \<Rightarrow> Operation \<Rightarrow> Operation \<times> Operation" where
  "transform op1 op2 =
     (if \<not> pathsConflict (op_path op1) (op_path op2) then (op1, op2)
      else let r = transformByType op1 op2 in (op1Prime r, op2Prime r))"

section \<open>Composition and inversion\<close>

record ComposedOperation =
  composed :: Operation
  composedFrom :: "Operation list"

definition compose :: "Operation \<Rightarrow> Operation \<Rightarrow> js_error + ComposedOperation" where
  "compose op1 op2 =
     (if \<not> pathsEqual (op_path op1) (op_path op2)
      then Inl (Error ''Cannot compose operations on different paths'')
      else Inr \<lparr>composed =
          (case (op_type op1, op_type op2) of
             (OpInsert, OpDelete) \<Rightarrow> op1\<lparr>op_type := OpUpdate, op_value := JNull\<rparr>
           | (OpUpdate, OpUpdate) \<Rightarrow> op1\<lparr>op_value := op_value op2\<rparr>
           | (OpDelete, OpInsert) \<Rightarrow> op1\<lparr>op_type := OpUpdate, op_value := op_value op2\<rparr>
           | _ \<Rightarrow> op2),
        composedFrom = [op1, op2]\<rparr>)"

record InvertedOperation =
  inverted :: Operation
  invertedFrom :: Operation

definition invert_op :: "Operation \<Rightarrow> Operation" where
  "invert_op p =
     (case op_type p of
        OpInsert \<Rightarrow> p\<lparr>op_type := OpDelete, op_value := op_oldValue p, op_oldValue := op_value p\<rparr>
      | OpDelete \<Rightarrow> p\<lparr>op_type := OpInsert, op_value := op_oldValue p, op_oldValue := op_value p\<rparr>
      | OpUpdate \<Rightarrow> p\<lparr>op_value := op_oldValue p, op_oldValue := op_value p\<rparr>
      | OpMove \<Rightarrow> p\<lparr>op_position := op_newPosition p, op_newPosition := op_position p\<rparr>
      | OpConnect \<Rightarrow> p\<lparr>op_type := OpDisconnect\<rparr>
      | OpDisconnect \<Rightarrow> p\<lparr>op_type := OpConnect\<rparr>)"

definition invert :: "Operation \<Rightarrow> InvertedOperation" where
  "invert p = \<lparr>inverted = invert_op p, invertedFrom = p\<rparr>"

section \<open>Application\<close>

text \<open>
  \<open>navigateToPath\<close> followed by a change of the value it returns: a falsy value on the way is
  replaced by an empty object, and the changed child is the one its parent holds.
\<close>

fun navigateToPath :: "string list \<Rightarrow> (json \<Rightarrow> js_error + json) \<Rightarrow> json \<Rightarrow> js_error + json" where
  "navigateToPath [] f current = f current"
| "navigateToPath (segment # rest) f current =
     ebind (js_get current segment) (\<lambda>v.
     ebind (if falsy v then js_set current segment (JObj fmempty) else Inr current) (\<lambda>current.
     ebind (js_get current segment) (\<lambda>child.
     ebind (navigateToPath rest f child) (\<lambda>child'. js_set current segment child'))))"

definition at_parent :: "Operation \<Rightarrow> (json \<Rightarrow> string \<Rightarrow> js_error + json) \<Rightarrow> json \<Rightarrow> js_error + json" where
  "at_parent p f d =
     (if op_path p = [] then Inr d
      else navigateToPath (butlast (op_path p)) (\<lambda>parent. f parent (last (op_path p))) d)"

definition applyInsert :: "json \<Rightarrow> Operation \<Rightarrow> js_error + json" where
  "applyInsert d p = at_parent p (\<lambda>parent key.
     ebind (js_get parent key) (\<lambda>v.
       case v of JArr xs \<Rightarrow> js_set parent key (JArr (splice_insert (pos_of p) (op_value p) xs))
       | _ \<Rightarrow> js_set parent key (op_value p))) d"

definition applyDelete :: "json \<Rightarrow> Operation \<Rightarrow> js_error + json" where
  "applyDelete d p = at_parent p (\<lambda>parent key.
     ebind (js_get parent key) (\<lambda>v.
       case v of JArr xs \<Rightarrow> js_set parent key (JArr (splice_delete (pos_of p) xs))
       | _ \<Rightarrow> js_delete parent key)) d"

definition applyUpdate :: "json \<Rightarrow> Operation \<Rightarrow> js_error + json" where
  "applyUpdate d p = at_parent p (\<lambda>parent key. js_set parent key (op_value p)) d"

definition move_item :: "int \<Rightarrow> int \<Rightarrow> json list \<Rightarrow> json list" where
  "move_item fr to xs =
     (let item = (case splice_item fr xs of None \<Rightarrow> JUndef | Some v \<Rightarrow> v)
      in splice_insert to item (splice_delete fr xs))"

definition applyMove :: "json \<Rightarrow> Operation \<Rightarrow> js_error + json" where
  "applyMove d p = at_parent p (\<lambda>parent key.
     ebind (js_get parent key) (\<lambda>v.
       case v of JArr xs \<Rightarrow> js_set parent key (JArr (move_item (pos_of p) (newpos_of p) xs))
       | _ \<Rightarrow> Inr parent)) d"

definition opt_str :: "ident option \<Rightarrow> json" where
  "opt_str s = (case s of None \<Rightarrow> JUndef | Some t \<Rightarrow> JStr t)"

text \<open>The properties that \<open>...v\<close> copies into an object literal.\<close>

fun spread :: "json \<Rightarrow> (string, json) fmap \<Rightarrow> js_error + (string, json) fmap" where
  "spread (JObj m) base = Inr (base ++\<^sub>f m)"
| "spread (JArr xs) base =
     Inr (fold (\<lambda>(i, v). fmupd (nat_string i) v) (zip [0..<length xs] xs) base)"
| "spread (JStr s) base = (if s = [] then Inr base else Inl Unmodelled)"
| "spread _ base = Inr base"

definition applyConnect :: "json \<Rightarrow> Operation \<Rightarrow> js_error + json" where
  "applyConnect d p =
     ebind (js_get d ''connections'') (\<lambda>v.
     ebind (if falsy v then js_set d ''connections'' (JArr []) else Inr d) (\<lambda>d.
     ebind (js_get d ''connections'') (\<lambda>cs.
     ebind (spread (op_value p)
              (fmap_of_list [(''id'', JStr (op_operationId p)), (''source'', opt_str (op_sourceId p)),
                             (''target'', opt_str (op_targetId p))])) (\<lambda>conn.
       case cs of JArr xs \<Rightarrow> js_set d ''connections'' (JArr (xs @ [JObj conn]))
       | _ \<Rightarrow> Inl TypeError))))"

definition conn_matches :: "Operation \<Rightarrow> json \<Rightarrow> js_error + bool" where
  "conn_matches p conn =
     ebind (js_get conn ''source'') (\<lambda>s.
       if s = opt_str (op_sourceId p)
       then ebind (js_get conn ''target'') (\<lambda>t. Inr (t = opt_str (op_targetId p)))
       else Inr False)"

fun filter_connections :: "Operation \<Rightarrow> json list \<Rightarrow> js_error + json list" where
  "filter_connections p [] = Inr []"
| "filter_connections p (c # cs) =
     ebind (conn_matches p c) (\<lambda>m.
     ebind (filter_connections p cs) (\<lambda>cs'. Inr (if m then cs' else c # cs')))"

definition applyDisconnect :: "json \<Rightarrow> Operation \<Rightarrow> js_error + json" where
  "applyDisconnect d p =
     ebind (js_get d ''connections'') (\<lambda>v.
       if falsy v then Inr d
       else case v of JArr xs \<Rightarrow> ebind (filter_connections p xs) (\<lambda>ys. js_set d ''connections'' (JArr ys))
            | _ \<Rightarrow> Inl TypeError)"

definition ot_apply :: "json \<Rightarrow> Operation \<Rightarrow> js_error + json" where
  "ot_apply doc p =
     (if doc = JUndef then Inl SyntaxError
      else let result = json_clone doc in
        case op_type p of
          OpInsert \<Rightarrow> applyInsert result p
        | OpDelete \<Rightarrow> applyDelete result p
        | OpUpdate \<Rightarrow> applyUpdate result p
        | OpMove \<Rightarrow> applyMove result p
        | OpConnect \<Rightarrow> applyConnect result p
        | OpDisconnect \<Rightarrow> applyDisconnect result p)"

end
