(* ===== verification/OT_Convergence.thy ===== *)
theory OT_Convergence
  imports Operational_Transform
begin

text \<open>
  What the transformation guarantees: the specification of \<open>ot_apply\<close> at an existing path, the
  pairs of operations for which two replicas converge, and inversion as undo.
\<close>

section \<open>Application at an existing path\<close>

lemma doc_at_append:
  "doc_at (p @ q) d = (case doc_at p d of None \<Rightarrow> None | Some c \<Rightarrow> doc_at q c)"
  by (induction p d rule: doc_at.induct) (auto split: option.splits)

lemma doc_put_append:
  "doc_at p d = Some c \<Longrightarrow> doc_put (p @ q) v d = doc_put p (doc_put q v c) d"
  by (induction p d arbitrary: c rule: doc_at.induct) (auto split: option.splits if_splits)

lemma js_get_at: "doc_at [k] d = Some v \<Longrightarrow> js_get d k = Inr v"
  by (cases d) (auto split: option.splits if_splits)

lemma js_set_at: "doc_at [k] d = Some v \<Longrightarrow> js_set d k w = Inr (doc_put [k] w d)"
  by (cases d) (auto split: option.splits if_splits)

lemma doc_at_container: "doc_at (k # ks) d = Some v \<Longrightarrow> \<not> falsy d"
  by (cases d) auto

lemma navigate_at:
  "doc_at p d = Some c \<Longrightarrow> \<not> falsy c \<Longrightarrow> f c = Inr r \<Longrightarrow> navigateToPath p f d = Inr (doc_put p r d)"
proof (induction p arbitrary: d)
  case Nil
  then show ?case by simp
next
  case (Cons k ks)
  from Cons.prems(1) obtain e where e: "doc_at [k] d = Some e" "doc_at ks e = Some c"
    using doc_at_append [of "[k]" ks d] by (auto split: option.splits)
  have "\<not> falsy e"
    using e Cons.prems(2) by (cases ks) (auto dest: doc_at_container)
  moreover have "navigateToPath ks f e = Inr (doc_put ks r e)"
    using Cons e by auto
  ultimately show ?case
    using e doc_put_append [OF e(1), of ks r] by (simp add: js_get_at js_set_at)
qed

lemma at_parent_at:
  assumes "p \<noteq> []" and "op_path q = p" and "doc_at p d = Some c"
    and "\<And>parent. doc_at [last p] parent = Some c \<Longrightarrow>
      f parent (last p) = Inr (doc_put [last p] v parent)"
  shows "at_parent q f d = Inr (doc_put p v d)"
proof -
  have p: "p = butlast p @ [last p]" using assms(1) by simp
  obtain e where e: "doc_at (butlast p) d = Some e" "doc_at [last p] e = Some c"
    using assms(3) doc_at_append [of "butlast p" "[last p]" d] p by (auto split: option.splits)
  have "navigateToPath (butlast p) (\<lambda>parent. f parent (last p)) d
      = Inr (doc_put (butlast p) (doc_put [last p] v e) d)"
    by (rule navigate_at [OF e(1)]) (use e assms(4) doc_at_container in auto)
  also have "doc_put (butlast p) (doc_put [last p] v e) d = doc_put p v d"
    using doc_put_append [OF e(1), of "[last p]" v] p by simp
  finally show ?thesis
    using assms(1,2) by (simp add: at_parent_def)
qed

text \<open>
  \<open>op_fits p c\<close>: the operation works on the value \<open>c\<close> at its path, with a value in JSON form, and
  \<open>op_effect p c\<close> is what it leaves there.
\<close>

definition op_effect :: "Operation \<Rightarrow> json \<Rightarrow> json" where
  "op_effect p c =
     (case op_type p of
        OpInsert \<Rightarrow> (case c of JArr xs \<Rightarrow> JArr (splice_insert (pos_of p) (op_value p) xs)
                     | _ \<Rightarrow> op_value p)
      | OpDelete \<Rightarrow> (case c of JArr xs \<Rightarrow> JArr (splice_delete (pos_of p) xs) | _ \<Rightarrow> c)
      | OpMove \<Rightarrow> (case c of JArr xs \<Rightarrow> JArr (move_item (pos_of p) (newpos_of p) xs) | _ \<Rightarrow> c)
      | _ \<Rightarrow> op_value p)"

definition is_array :: "json \<Rightarrow> bool" where
  "is_array c = (case c of JArr xs \<Rightarrow> xs \<noteq> [] | _ \<Rightarrow> False)"

definition op_fits :: "Operation \<Rightarrow> json \<Rightarrow> bool" where
  "op_fits p c =
     (case op_type p of
        OpInsert \<Rightarrow> is_json (op_value p)
      | OpUpdate \<Rightarrow> is_json (op_value p)
      | OpDelete \<Rightarrow> is_array c
      | OpMove \<Rightarrow> is_array c \<and> pos_of p < int (length (case c of JArr xs \<Rightarrow> xs))
      | _ \<Rightarrow> False)"

lemma set_splice_insert: "set (splice_insert i v xs) = insert v (set xs)"
proof -
  have "set (splice_insert i v xs) = insert v (set (take k xs @ drop k xs))"
    if "k = splice_start i (length xs)" for k
    unfolding splice_insert_def Let_def that by (simp del: append_take_drop_id)
  then show ?thesis by simp
qed

lemma in_set_splice_delete: "x \<in> set (splice_delete i xs) \<Longrightarrow> x \<in> set xs"
  by (auto simp: splice_delete_def Let_def dest: in_set_takeD in_set_dropD)

lemma splice_item_some:
  "xs \<noteq> [] \<Longrightarrow> i < int (length xs) \<Longrightarrow> \<exists>v \<in> set xs. splice_item i xs = Some v"
  by (cases "i < 0") (auto simp: splice_item_def splice_start_def Let_def max_def)

lemma is_json_op_effect:
  assumes "is_json c" and "op_fits p c"
  shows "is_json (op_effect p c)"
proof (cases "op_type p")
  case OpMove
  with assms(2) obtain xs where xs: "c = JArr xs" "xs \<noteq> []" "pos_of p < int (length xs)"
    by (auto simp: op_fits_def is_array_def split: json.splits)
  then obtain v where "v \<in> set xs" "splice_item (pos_of p) xs = Some v"
    using splice_item_some by blast
  with xs OpMove assms(1) show ?thesis
    by (auto simp: op_effect_def move_item_def is_json_JArr set_splice_insert
          dest: in_set_splice_delete)
qed (use assms in
      \<open>auto simp: op_effect_def op_fits_def is_array_def is_json_JArr set_splice_insert
            split: json.splits dest: in_set_splice_delete\<close>)

lemma apply_at [doc_simps]:
  assumes "is_json d" and "op_path p \<noteq> []" and "doc_at (op_path p) d = Some c" and "op_fits p c"
  shows "ot_apply d p = Inr (doc_put (op_path p) (op_effect p c) d)"
proof -
  note at = at_parent_at [OF assms(2) refl assms(3)]
  have leaf: "at_parent p f d = Inr (doc_put (op_path p) v d)"
    if "\<And>parent key. js_get parent key = Inr c \<Longrightarrow> f parent key = js_set parent key v" for f v
    by (rule at) (use that js_get_at js_set_at in simp)
  have "applyInsert d p = Inr (doc_put (op_path p) (op_effect p c) d)" if "op_type p = OpInsert"
    unfolding applyInsert_def by (rule leaf) (use that in \<open>simp add: op_effect_def split: json.splits\<close>)
  moreover have "applyDelete d p = Inr (doc_put (op_path p) (op_effect p c) d)" if "op_type p = OpDelete"
    unfolding applyDelete_def by (rule leaf)
      (use that assms(4) in \<open>simp add: op_fits_def is_array_def op_effect_def split: json.splits\<close>)
  moreover have "applyUpdate d p = Inr (doc_put (op_path p) (op_effect p c) d)" if "op_type p = OpUpdate"
    unfolding applyUpdate_def by (rule leaf) (use that in \<open>simp add: op_effect_def\<close>)
  moreover have "applyMove d p = Inr (doc_put (op_path p) (op_effect p c) d)" if "op_type p = OpMove"
    unfolding applyMove_def by (rule leaf)
      (use that assms(4) in \<open>simp add: op_fits_def is_array_def op_effect_def split: json.splits\<close>)
  moreover have "d \<noteq> JUndef" "json_clone d = d"
    using assms(1) by (auto simp: is_json_def)
  ultimately show ?thesis
    using assms(4) by (cases "op_type p") (simp_all add: ot_apply_def op_fits_def)
qed

section \<open>Operations that part\<close>

lemma pathsConflict_iff: "pathsConflict p q \<longleftrightarrow> \<not> paths_part p q"
  by (induction p q rule: pathsConflict.induct) auto

lemma not_paths_part_refl [simp]: "\<not> paths_part p p" "\<not> paths_part p (p @ q)" "\<not> paths_part (p @ q) p"
  by (induction p) auto

definition fits_at :: "Operation \<Rightarrow> json \<Rightarrow> bool" where
  "fits_at p d = (op_path p \<noteq> []
     \<and> (case doc_at (op_path p) d of None \<Rightarrow> False | Some c \<Rightarrow> op_fits p c))"

lemma transform_part: "paths_part (op_path a) (op_path b) \<Longrightarrow> transform a b = (a, b)"
  by (simp add: transform_def pathsConflict_iff)

lemma apply_both_part:
  assumes "is_json d" and "paths_part (op_path a) (op_path b)" and "fits_at a d" and "fits_at b d"
  shows "\<exists>c e. ebind (ot_apply d a) (\<lambda>x. ot_apply x b)
    = Inr (doc_put (op_path b) (op_effect b e) (doc_put (op_path a) (op_effect a c) d))
    \<and> doc_at (op_path a) d = Some c \<and> doc_at (op_path b) d = Some e"
proof -
  obtain c e where ce: "op_path a \<noteq> []" "doc_at (op_path a) d = Some c" "op_fits a c"
    "op_path b \<noteq> []" "doc_at (op_path b) d = Some e" "op_fits b e"
    using assms(3,4) by (auto simp: fits_at_def split: option.splits)
  let ?d = "doc_put (op_path a) (op_effect a c) d"
  have "is_json ?d"
    using assms(1) ce by (auto intro!: doc_put_json is_json_op_effect dest: doc_at_json)
  moreover have "doc_at (op_path b) ?d = Some e"
    using doc_at_put_other [OF paths_part_sym [OF assms(2)]] ce by simp
  ultimately show ?thesis
    using ce assms(1) by (simp add: apply_at)
qed

lemma converge_part:
  assumes "is_json d" and "paths_part (op_path a) (op_path b)" and "fits_at a d" and "fits_at b d"
  shows "\<exists>r. ebind (ot_apply d a) (\<lambda>x. ot_apply x b) = Inr r
    \<and> ebind (ot_apply d b) (\<lambda>x. ot_apply x a) = Inr r"
  using apply_both_part [OF assms] apply_both_part [OF assms(1) paths_part_sym [OF assms(2)] assms(4,3)]
    doc_put_commute [OF assms(2)]
  by auto

section \<open>Insertions and deletions in one array\<close>

definition edits_list :: "Operation \<Rightarrow> json list \<Rightarrow> bool" where
  "edits_list p xs = (0 \<le> pos_of p
     \<and> ((op_type p = OpInsert \<and> is_json (op_value p) \<and> pos_of p \<le> int (length xs))
        \<or> (op_type p = OpDelete \<and> pos_of p < int (length xs))))"

definition edits_array :: "Operation \<Rightarrow> json \<Rightarrow> bool" where
  "edits_array p d = (op_path p \<noteq> []
     \<and> (case doc_at (op_path p) d of Some (JArr xs) \<Rightarrow> edits_list p xs | _ \<Rightarrow> False))"

definition list_edit :: "Operation \<Rightarrow> json list \<Rightarrow> json list" where
  "list_edit p xs = (if op_type p = OpInsert then ins_at (nat (pos_of p)) (op_value p) xs
                     else del_at (nat (pos_of p)) xs)"

lemma edits_arrayD:
  "edits_array p d \<Longrightarrow> \<exists>xs. op_path p \<noteq> [] \<and> doc_at (op_path p) d = Some (JArr xs) \<and> edits_list p xs"
  by (auto simp: edits_array_def split: option.splits json.splits)

lemma op_effect_edit:
  "edits_list p xs \<Longrightarrow> op_effect p (JArr xs) = JArr (list_edit p xs) \<and> op_fits p (JArr xs)"
  using splice_insert_nat [of "nat (pos_of p)" xs] splice_delete_nat [of "nat (pos_of p)" xs]
  by (auto simp: edits_list_def op_effect_def list_edit_def op_fits_def is_array_def)

lemma apply_edit:
  assumes "is_json d" and "op_path p \<noteq> []" and "doc_at (op_path p) d = Some (JArr xs)"
    and "edits_list p xs"
  shows "ot_apply d p = Inr (doc_put (op_path p) (JArr (list_edit p xs)) d)"
  using assms op_effect_edit [OF assms(4)] by (simp add: apply_at)

lemma apply_edit_edit:
  assumes "is_json d" and "op_path p \<noteq> []" and at: "doc_at (op_path p) d = Some (JArr xs)"
    and p: "edits_list p xs" and q: "edits_list q (list_edit p xs)" and "op_path q = op_path p"
  shows "ebind (ot_apply d p) (\<lambda>x. ot_apply x q)
    = Inr (doc_put (op_path p) (JArr (list_edit q (list_edit p xs))) d)"
proof -
  let ?d = "doc_put (op_path p) (JArr (list_edit p xs)) d"
  have "is_json (JArr (list_edit p xs))"
    using is_json_op_effect [of "JArr xs" p] op_effect_edit [OF p] doc_at_json [OF assms(1) at] by simp
  then have "is_json ?d" by (rule doc_put_json [OF assms(1)])
  then have "ot_apply ?d q = Inr (doc_put (op_path q) (JArr (list_edit q (list_edit p xs))) ?d)"
    by (rule apply_edit) (use assms in \<open>auto simp: doc_at_put [OF at]\<close>)
  then show ?thesis
    using apply_edit [OF assms(1-4)] assms(6) at by (simp add: doc_put_put)
qed

text \<open>Two deletions of the same element are the one pair the rules do not keep.\<close>

definition same_deletion :: "Operation \<Rightarrow> Operation \<Rightarrow> bool" where
  "same_deletion a b = (op_type a = OpDelete \<and> op_type b = OpDelete \<and> pos_of a = pos_of b)"

lemma pos_of_update [simp]: "pos_of (p\<lparr>op_position := Some n\<rparr>) = n"
  by (simp add: pos_of_def)

lemmas array_rules = transform_def transformByType_def pathsConflict_iff transformInsertInsert_def
  transformInsertDelete_def transformDeleteInsert_def transformDeleteDelete_def Let_def

lemma transform_list_edit:
  assumes "op_path a = op_path b" and "edits_list a xs" and "edits_list b xs"
    and "\<not> same_deletion a b" and "transform a b = (a', b')"
  shows "list_edit b' (list_edit a xs) = list_edit a' (list_edit b xs)
    \<and> edits_list b' (list_edit a xs) \<and> edits_list a' (list_edit b xs)
    \<and> op_path a' = op_path a \<and> op_path b' = op_path a"
proof -
  obtain i where i: "pos_of a = int i" using assms(2) by (metis edits_list_def zero_le_imp_eq_int)
  obtain j where j: "pos_of b = int j" using assms(3) by (metis edits_list_def zero_le_imp_eq_int)
  have [simp]: "nat (int k + 1) = Suc k" "nat (int k - 1) = k - 1" for k by auto
  have ii: ?thesis if "op_type a = OpInsert" "op_type b = OpInsert"
    using assms i j that
    by (auto simp: array_rules list_edit_def edits_list_def ins_ins_commute split: if_splits)
  have id: ?thesis if "op_type a = OpInsert" "op_type b = OpDelete"
    using assms i j that
    by (auto simp: array_rules list_edit_def edits_list_def del_ins_commute del_ins_commute' split: if_splits)
  have di: ?thesis if "op_type a = OpDelete" "op_type b = OpInsert"
    using assms i j that
    by (auto simp: array_rules list_edit_def edits_list_def del_ins_commute del_ins_commute' split: if_splits)
  have dd: ?thesis if "op_type a = OpDelete" "op_type b = OpDelete"
    using assms i j that
    by (auto simp: array_rules list_edit_def edits_list_def same_deletion_def
        del_del_commute [unfolded One_nat_def] split: if_splits)
  show ?thesis
    using ii id di dd assms(2,3) by (auto simp: edits_list_def)
qed

lemma converge_array:
  assumes "is_json d" and "op_path a = op_path b" and "edits_array a d" and "edits_array b d"
    and "\<not> same_deletion a b"
  shows "\<exists>r. ebind (ot_apply d a) (\<lambda>x. ot_apply x (snd (transform a b))) = Inr r
    \<and> ebind (ot_apply d b) (\<lambda>x. ot_apply x (fst (transform a b))) = Inr r"
proof -
  obtain xs where xs: "op_path a \<noteq> []" "doc_at (op_path a) d = Some (JArr xs)" "edits_list a xs"
      "edits_list b xs"
    using edits_arrayD [OF assms(3)] edits_arrayD [OF assms(4)] assms(2) by auto
  obtain a' b' where ab: "transform a b = (a', b')" by fastforce
  note t = transform_list_edit [OF assms(2) xs(3,4) assms(5) ab]
  show ?thesis
    using apply_edit_edit [OF assms(1) xs(1,2,3), of b'] apply_edit_edit [OF assms(1), of b xs a']
      xs t assms(2) ab by simp
qed

section \<open>An insertion and an update inside the array\<close>

lemma digit_char: "n < 10 \<Longrightarrow> is_digit (char_of (48 + n)) \<and> digit_val (char_of (48 + n)) = n"
  by (simp add: is_digit_def digit_val_def of_char_of)

lemma nat_string_small:
  assumes "n < 10"
  obtains c where "nat_string n = [c]" "is_digit c" "digit_val c = n"
  using nat_string.simps [of n] digit_char [OF assms] assms by auto

lemma nat_string_large:
  "\<not> n < 10 \<Longrightarrow> nat_string n = nat_string (n div 10) @ [char_of (48 + n mod 10)]"
  using nat_string.simps [of n] by simp

lemma nat_string_digits:
  "nat_string n \<noteq> [] \<and> list_all is_digit (nat_string n) \<and> digits_val (nat_string n) = n"
proof (induction n rule: nat_string.induct)
  case (1 n)
  show ?case
  proof (cases "n < 10")
    case True
    then obtain c where "nat_string n = [c]" "is_digit c" "digit_val c = n"
      by (rule nat_string_small)
    then show ?thesis by (simp add: digits_val_def)
  next
    case False
    then show ?thesis
      using 1 digit_char [of "n mod 10"] by (simp add: nat_string_large digits_val_snoc)
  qed
qed

lemma nat_string_hd: "0 < n \<Longrightarrow> hd (nat_string n) \<noteq> CHR ''0''"
proof (induction n rule: nat_string.induct)
  case (1 n)
  show ?case
  proof (cases "n < 10")
    case True
    then obtain c where "nat_string n = [c]" "is_digit c" "digit_val c = n"
      by (rule nat_string_small)
    moreover have "digit_val (CHR ''0'') = 0" by (simp add: digit_val_def)
    ultimately show ?thesis using 1(2) by auto
  next
    case False
    then show ?thesis
      using 1 nat_string_digits [of "n div 10"] by (simp add: nat_string_large)
  qed
qed

lemma array_index_nat_string:
  assumes "n < 2 ^ 32 - 1" shows "array_index (nat_string n) = Some n"
proof -
  obtain c where "nat_string 0 = [c]" "is_digit c" "digit_val c = 0"
    by (rule nat_string_small [of 0]) simp_all
  moreover have "is_digit (CHR ''0'')" "digit_val (CHR ''0'') = 0"
    by (simp_all add: is_digit_def digit_val_def)
  ultimately have "nat_string 0 = ''0''" using digit_val_inj [of c "CHR ''0''"] by simp
  then have "nat_string n = ''0'' \<or> hd (nat_string n) \<noteq> CHR ''0''"
    using nat_string_hd [of n] by (cases "n = 0") auto
  then show ?thesis
    using nat_string_digits [of n] assms by (simp add: array_index_def)
qed

lemma array_index_string:
  assumes "array_index s = Some n" shows "s = nat_string n"
proof -
  have "n < 2 ^ 32 - 1" using assms unfolding array_index_def by (simp split: if_splits)
  then show ?thesis using array_index_inj [OF assms array_index_nat_string] by blast
qed

lemma parseInt_nat_string: "parseInt (nat_string n) = Some (int n)"
proof -
  obtain c cs where s: "nat_string n = c # cs" and c: "is_digit c"
    using nat_string_digits [of n] by (cases "nat_string n") auto
  have digits: "takeWhile is_digit (nat_string n) = nat_string n"
    using nat_string_digits [of n] by (simp add: list_all_iff)
  have "parse_digits (nat_string n) = Some (int n)"
    unfolding parse_digits_def digits using nat_string_digits [of n] by (simp add: Let_def)
  moreover have "\<not> is_space c" "c \<noteq> CHR ''-''" "c \<noteq> CHR ''+''"
    using c by (auto simp: is_digit_def is_space_def)
  ultimately show ?thesis
    using s by (simp add: parseInt_def)
qed

lemma adjust_common_prefix: "adjust_common n (p @ q) p i = None"
  by (induction p arbitrary: n) (cases q, auto)

lemma adjust_element_path:
  "adjustPathForInsert (p @ nat_string k # rest) p (int i)
   = p @ nat_string (if i \<le> k then Suc k else k) # rest"
  using nat_string_digits [of k]
  by (simp add: adjustPathForInsert_def pathsConflict_iff adjust_common_prefix adjust_segment_def
      parseInt_nat_string int_string_def nat_add_distrib)

text \<open>
  \<open>updates_inside a b d\<close>: \<open>a\<close> inserts into an array and \<open>b\<close> updates something inside one of its
  elements, \<open>k\<close> being the element and \<open>rest\<close> the path from there.
\<close>

definition updates_inside :: "Operation \<Rightarrow> Operation \<Rightarrow> json \<Rightarrow> bool" where
  "updates_inside a b d = (op_path a \<noteq> [] \<and> op_type a = OpInsert \<and> op_type b = OpUpdate
     \<and> is_json (op_value b)
     \<and> take (length (op_path a)) (op_path b) = op_path a \<and> length (op_path a) < length (op_path b)
     \<and> (case doc_at (op_path a) d of Some (JArr xs) \<Rightarrow> edits_list a xs \<and> length xs < 2 ^ 32 - 2 | _ \<Rightarrow> False)
     \<and> doc_at (op_path b) d \<noteq> None)"

lemma doc_at_element: "doc_at (s # rest) (JArr xs) = Some c
   \<longleftrightarrow> (\<exists>k. array_index s = Some k \<and> k < length xs \<and> doc_at rest (xs ! k) = Some c)"
  by (auto split: option.splits)

lemma doc_put_element:
  "doc_at p d = Some (JArr xs) \<Longrightarrow> array_index s = Some k \<Longrightarrow> k < length xs
     \<Longrightarrow> doc_put (p @ s # rest) v d = doc_put p (JArr (xs[k := doc_put rest v (xs ! k)])) d"
  by (simp add: doc_put_append)

lemma updates_insideD:
  assumes "updates_inside a b d"
  obtains xs i k rest c where "op_path a \<noteq> []" "op_type a = OpInsert" "op_type b = OpUpdate"
    "is_json (op_value b)" "op_path b = op_path a @ nat_string k # rest"
    "doc_at (op_path a) d = Some (JArr xs)" "edits_list a xs" "pos_of a = int i" "i \<le> length xs"
    "length xs < 2 ^ 32 - 2" "k < length xs" "doc_at rest (xs ! k) = Some c"
proof -
  obtain xs where xs: "doc_at (op_path a) d = Some (JArr xs)" "edits_list a xs" "length xs < 2 ^ 32 - 2"
    using assms by (auto simp: updates_inside_def split: option.splits json.splits)
  let ?q = "drop (length (op_path a)) (op_path b)"
  have b: "op_path b = op_path a @ ?q"
    using assms append_take_drop_id [of "length (op_path a)" "op_path b"]
    by (simp add: updates_inside_def)
  obtain c where c: "doc_at ?q (JArr xs) = Some c"
    using assms xs(1) b doc_at_append [of "op_path a" ?q d] by (auto simp: updates_inside_def)
  obtain s rest where q: "?q = s # rest"
    using assms by (cases ?q) (auto simp: updates_inside_def)
  then obtain k where "array_index s = Some k" "k < length xs" "doc_at rest (xs ! k) = Some c"
    using c by (simp only: doc_at_element) blast
  moreover obtain i where "pos_of a = int i"
    using xs(2) by (metis edits_list_def zero_le_imp_eq_int)
  ultimately show ?thesis
    using that [of k rest xs i c] assms xs b q array_index_string [of s k]
    by (auto simp: updates_inside_def edits_list_def)
qed

lemma transform_inside:
  assumes "updates_inside a b d" and "op_path b = op_path a @ nat_string k # rest" and "pos_of a = int i"
  shows "transform a b = (a, b\<lparr>op_path := op_path a @ nat_string (if i \<le> k then Suc k else k) # rest\<rparr>)"
    and "transform b a = (b\<lparr>op_path := op_path a @ nat_string (if i \<le> k then Suc k else k) # rest\<rparr>, a)"
  using assms adjust_element_path [of "op_path a" k rest i]
  by (auto simp: transform_def transformByType_def pathsConflict_iff updates_inside_def Let_def
      transformInsertUpdate_def transformUpdateInsert_def dest: paths_part_sym)

lemma ins_at_update:
  "i \<le> length xs \<Longrightarrow> k < length xs
     \<Longrightarrow> (ins_at i v xs)[(if i \<le> k then Suc k else k) := w] = ins_at i v (xs[k := w])"
  by (rule nth_equalityI) (auto simp: nth_ins_at nth_list_update split: if_splits)

lemma apply_update:
  assumes "is_json d" and "op_type p = OpUpdate" and "is_json (op_value p)" and "op_path p \<noteq> []"
    and "doc_at (op_path p) d = Some c"
  shows "ot_apply d p = Inr (doc_put (op_path p) (op_value p) d)"
  using apply_at [OF assms(1,4,5)] assms(2,3) by (simp add: op_fits_def op_effect_def)

lemma converge_inside:
  assumes json: "is_json d" and inside: "updates_inside a b d"
  shows "\<exists>r. ebind (ot_apply d a) (\<lambda>x. ot_apply x (snd (transform a b))) = Inr r
    \<and> ebind (ot_apply d b) (\<lambda>x. ot_apply x (fst (transform a b))) = Inr r"
proof -
  obtain xs i k rest c where o: "op_path a \<noteq> []" "op_type a = OpInsert" "op_type b = OpUpdate"
    "is_json (op_value b)" "op_path b = op_path a @ nat_string k # rest"
    "doc_at (op_path a) d = Some (JArr xs)" "edits_list a xs" "pos_of a = int i" "i \<le> length xs"
    "length xs < 2 ^ 32 - 2" "k < length xs" "doc_at rest (xs ! k) = Some c"
    using inside by (rule updates_insideD)
  let ?p = "op_path a" and ?k = "if i \<le> k then Suc k else k"
  let ?w = "doc_put rest (op_value b) (xs ! k)"
  let ?r = "doc_put ?p (JArr (ins_at i (op_value a) (xs[k := ?w]))) d"
  have index: "array_index (nat_string k) = Some k" "array_index (nat_string ?k) = Some ?k"
    using o(10,11) by (auto intro!: array_index_nat_string)
  have list: "list_edit a ys = ins_at i (op_value a) ys" for ys
    using o(2,8) by (simp add: list_edit_def)
  let ?d1 = "doc_put ?p (JArr (list_edit a xs)) d"
  have d1: "doc_at ?p ?d1 = Some (JArr (list_edit a xs))" by (rule doc_at_put [OF o(6)])
  have "is_json (JArr (list_edit a xs))"
    using is_json_op_effect [of "JArr xs" a] op_effect_edit [OF o(7)] doc_at_json [OF json o(6)] by simp
  then have json1: "is_json ?d1" by (rule doc_put_json [OF json])
  have el: "list_edit a xs ! ?k = xs ! k" and len: "?k < length (list_edit a xs)"
    using o(9,11) by (auto simp: list nth_ins_at)
  have "ot_apply ?d1 (b\<lparr>op_path := ?p @ nat_string ?k # rest\<rparr>)
      = Inr (doc_put (?p @ nat_string ?k # rest) (op_value b) ?d1)"
    by (subst apply_update [where c = c])
      (use o json1 el len index in \<open>auto simp: doc_at_append d1\<close>)
  also have "doc_put (?p @ nat_string ?k # rest) (op_value b) ?d1 = ?r"
    unfolding doc_put_element [OF d1 index(2) len] el doc_put_put [OF o(6)]
    unfolding list ins_at_update [OF o(9,11)] ..
  finally have one: "ebind (ot_apply d a) (\<lambda>x. ot_apply x (snd (transform a b))) = Inr ?r"
    using apply_edit [OF json o(1,6,7)] transform_inside(1) [OF inside o(5,8)] by simp
  let ?d2 = "doc_put (op_path b) (op_value b) d"
  have d2: "?d2 = doc_put ?p (JArr (xs[k := ?w])) d"
    using o(5,11) index(1) by (simp add: doc_put_append [OF o(6)])
  then have at2: "doc_at ?p ?d2 = Some (JArr (xs[k := ?w]))" by (simp add: doc_at_put [OF o(6)])
  have "ot_apply d b = Inr ?d2"
    by (rule apply_update [OF json o(3,4)]) (use o index in \<open>auto simp: doc_at_append\<close>)
  moreover have "ot_apply ?d2 a = Inr (doc_put ?p (JArr (list_edit a (xs[k := ?w]))) ?d2)"
    by (rule apply_edit [OF _ o(1) at2])
      (use json o doc_put_json in \<open>auto simp: edits_list_def\<close>)
  ultimately have "ebind (ot_apply d b) (\<lambda>x. ot_apply x (fst (transform a b))) = Inr ?r"
    using d2 transform_inside(1) [OF inside o(5,8)] by (simp add: doc_put_put [OF o(6)] list)
  with one show ?thesis by blast
qed

section \<open>Which pairs converge\<close>

definition clear_order :: "Operation \<Rightarrow> Operation \<Rightarrow> bool" where
  "clear_order a b = (\<not> (op_type a = OpInsert \<and> op_type b = OpInsert \<and> pos_of a = pos_of b
     \<and> op_timestamp a = op_timestamp b))"

definition ot_ok :: "json \<Rightarrow> Operation \<Rightarrow> Operation \<Rightarrow> bool" where
  "ot_ok d a b = (is_json d
     \<and> (paths_part (op_path a) (op_path b) \<and> fits_at a d \<and> fits_at b d
        \<or> op_path a = op_path b \<and> edits_array a d \<and> edits_array b d \<and> \<not> same_deletion a b
          \<and> clear_order a b
        \<or> updates_inside a b d \<or> updates_inside b a d))"

lemma edits_array_type: "edits_array p d \<Longrightarrow> op_type p = OpInsert \<or> op_type p = OpDelete"
  by (auto simp: edits_array_def edits_list_def split: option.splits json.splits)

lemma transform_symmetric_array:
  assumes "op_path a = op_path b" and "edits_array a d" and "edits_array b d"
    and "\<not> same_deletion a b" and "clear_order a b"
  shows "transform b a = prod.swap (transform a b)"
  using edits_array_type [OF assms(2)] edits_array_type [OF assms(3)] assms(1,4,5)
  by (auto simp: array_rules same_deletion_def clear_order_def)

lemma transform_symmetric_inside:
  assumes "updates_inside a b d"
  shows "transform b a = prod.swap (transform a b)"
  using assms
proof (rule updates_insideD)
  fix k i rest
  assume "op_path b = op_path a @ nat_string k # rest" "pos_of a = int i"
  then show ?thesis using transform_inside [OF assms] by simp
qed

lemma converge_swap:
  assumes "transform b a = prod.swap (transform a b)"
    and "\<exists>r. ebind (ot_apply d b) (\<lambda>x. ot_apply x (snd (transform b a))) = Inr r
      \<and> ebind (ot_apply d a) (\<lambda>x. ot_apply x (fst (transform b a))) = Inr r"
  shows "\<exists>r. ebind (ot_apply d a) (\<lambda>x. ot_apply x (snd (transform a b))) = Inr r
    \<and> ebind (ot_apply d b) (\<lambda>x. ot_apply x (fst (transform a b))) = Inr r"
  using assms by auto

lemma ot_ok_cases [consumes 1, case_names part array inside inside']:
  assumes "ot_ok d a b"
  obtains "is_json d" "paths_part (op_path a) (op_path b)" "fits_at a d" "fits_at b d"
  | "is_json d" "op_path a = op_path b" "edits_array a d" "edits_array b d" "\<not> same_deletion a b"
      "clear_order a b"
  | "is_json d" "updates_inside a b d" | "is_json d" "updates_inside b a d"
  using assms unfolding ot_ok_def by blast

lemma ot_ok_symmetric:
  assumes "ot_ok d a b"
  shows "transform b a = prod.swap (transform a b)"
  using assms
proof (cases rule: ot_ok_cases)
  case part
  then show ?thesis by (simp add: transform_part paths_part_sym)
next
  case array
  then show ?thesis by (intro transform_symmetric_array)
next
  case inside
  then show ?thesis by (intro transform_symmetric_inside)
next
  case inside'
  then show ?thesis using transform_symmetric_inside [of b a d] by simp
qed

lemma ot_ok_converges:
  assumes "ot_ok d a b"
  shows "\<exists>r. ebind (ot_apply d a) (\<lambda>x. ot_apply x (snd (transform a b))) = Inr r
    \<and> ebind (ot_apply d b) (\<lambda>x. ot_apply x (fst (transform a b))) = Inr r"
  using assms
proof (cases rule: ot_ok_cases)
  case part
  then show ?thesis using converge_part [OF part] by (simp add: transform_part)
next
  case array
  then show ?thesis by (intro converge_array)
next
  case inside
  then show ?thesis by (rule converge_inside)
next
  case inside'
  then show ?thesis by (rule converge_swap [OF ot_ok_symmetric [OF assms] converge_inside])
qed

interpretation ot: replicas ot_apply transform ot_ok
  by unfold_locales (auto intro: ot_ok_converges ot_ok_symmetric)

text \<open>
  C1: two replicas converge on the pairs of operations that \<open>ot_ok\<close> admits: each applies its own operation, then the other one as
  it transforms it, and they end with the same document, without an error. Document and written values are plain JSON, paths are not
  empty and lead to values that exist. The pairs: (a) at paths that part, any two of: insertion, update, deletion from a
  non-empty array, move in a non-empty array from a position below its length; (b) at one path, insertions into and deletions
  from an array at valid positions, not both of the same element, and with different timestamps for two insertions at one
  position; (c) an insertion into an array (shorter than \<open>2 ^ 32 - 2\<close>) at a valid position and an update inside one of its
  elements. Not claimed: connecting, disconnecting, deleting a property of an object, inserting or updating an absent property.
  (For two connects it fails, by the separate lemma \<open>ot_connects_diverge\<close>.)
\<close>

theorem ot_sites_agree:
  assumes "ot_ok d a b"
  shows "\<exists>r. ebind (ot_apply d a) (\<lambda>x. ot_apply x (snd (transform a b))) = Inr r
    \<and> ebind (ot_apply d b) (\<lambda>x. ot_apply x (snd (transform b a))) = Inr r"
  by (rule ot.sites_agree [OF assms])

definition op_example :: "OperationType \<Rightarrow> string list \<Rightarrow> json \<Rightarrow> int \<Rightarrow> int \<Rightarrow> Operation" where
  "op_example t p v n stamp = \<lparr>op_type = t, op_path = p, op_value = v, op_oldValue = JUndef,
     op_timestamp = stamp, op_userId = ''u'', op_operationId = ''o'', op_position = Some n,
     op_newPosition = None, op_sourceId = None, op_targetId = None\<rparr>"

definition doc_example :: json where
  "doc_example = JObj (fmap_of_list [(''xs'', JArr [JNum 1, JNum 2, JNum 3])])"

lemma doc_example_facts [simp]:
  "is_json doc_example" "doc_at [''xs''] doc_example = Some (JArr [JNum 1, JNum 2, JNum 3])"
  "is_json (JNum n)" "is_json (JStr s)" "is_json (JBool b)"
  by (auto simp: doc_example_def is_json_JObj is_json_JArr fmap_of_list.rep_eq inherited_name_def)
     (simp_all add: is_json_def)

lemma op_example_simps [simp]:
  "op_type (op_example t p v n stamp) = t" "op_path (op_example t p v n stamp) = p"
  "op_value (op_example t p v n stamp) = v" "pos_of (op_example t p v n stamp) = n"
  "op_timestamp (op_example t p v n stamp) = stamp"
  by (simp_all add: op_example_def pos_of_def)

text \<open>
  What is left out: two connections made at paths that part append to \<open>connections\<close> in the order in which each
  replica sees them, and the documents differ.
\<close>

definition connect_example :: "string \<Rightarrow> string \<Rightarrow> Operation" where
  "connect_example p i = (op_example OpConnect [p] JUndef 0 0)\<lparr>op_value := JObj fmempty,
     op_operationId := i, op_sourceId := Some i, op_targetId := Some ''t''\<rparr>"

lemma ot_connects_diverge:
  "let a = connect_example ''a'' ''1''; b = connect_example ''b'' ''2''; d = JObj fmempty in
    ebind (ot_apply d a) (\<lambda>x. ot_apply x (snd (transform a b)))
      \<noteq> ebind (ot_apply d b) (\<lambda>x. ot_apply x (snd (transform b a)))"
  unfolding Let_def by code_simp

theorem ot_sites_agree_witness:
  "\<exists>r. ebind (ot_apply doc_example (op_example OpInsert [''xs''] (JNum 9) 1 5))
         (\<lambda>x. ot_apply x (snd (transform (op_example OpInsert [''xs''] (JNum 9) 1 5)
                                         (op_example OpDelete [''xs''] JUndef 2 7)))) = Inr r
     \<and> ebind (ot_apply doc_example (op_example OpDelete [''xs''] JUndef 2 7))
         (\<lambda>x. ot_apply x (snd (transform (op_example OpDelete [''xs''] JUndef 2 7)
                                         (op_example OpInsert [''xs''] (JNum 9) 1 5)))) = Inr r"
  by (rule ot_sites_agree)
    (simp add: ot_ok_def edits_array_def edits_list_def same_deletion_def clear_order_def)

section \<open>Which pairs do not\<close>

text \<open>
  The tie break of concurrent insertions needs distinct timestamps. Two insertions at one
  position of an array with equal timestamps leave the two replicas with the two new elements in
  opposite order: each site moves its own operation behind the other one.
\<close>

theorem ot_equal_stamps_diverge:
  assumes "is_json d" and "doc_at (op_path a) d = Some (JArr xs)" and "op_path a \<noteq> []"
    and "op_path b = op_path a" and "op_type a = OpInsert" and "op_type b = OpInsert"
    and "is_json (op_value a)" and "is_json (op_value b)" and "pos_of a = int k" and "pos_of b = int k"
    and "k \<le> length xs" and "op_timestamp a = op_timestamp b"
  shows "ebind (ot_apply d a) (\<lambda>x. ot_apply x (snd (transform a b)))
      = Inr (doc_put (op_path a) (JArr (ins_at k (op_value b) (ins_at k (op_value a) xs))) d)
    \<and> ebind (ot_apply d b) (\<lambda>x. ot_apply x (snd (transform b a)))
      = Inr (doc_put (op_path a) (JArr (ins_at k (op_value a) (ins_at k (op_value b) xs))) d)"
proof -
  have t: "transform a b = (a\<lparr>op_position := Some (int k + 1)\<rparr>, b)"
    "transform b a = (b\<lparr>op_position := Some (int k + 1)\<rparr>, a)"
    using assms by (simp_all add: array_rules)
  have e: "edits_list p ys = (k \<le> length ys)" "list_edit p ys = ins_at k (op_value p) ys"
    if "p = a \<or> p = b" for p ys
    using that assms by (auto simp: edits_list_def list_edit_def)
  note ea = e [OF disjI1 [OF refl]] and eb = e [OF disjI2 [OF refl]]
  have "ebind (ot_apply d a) (\<lambda>x. ot_apply x b)
      = Inr (doc_put (op_path a) (JArr (list_edit b (list_edit a xs))) d)"
    by (rule apply_edit_edit [OF assms(1,3,2)]) (use assms(4,11) in \<open>simp_all add: ea eb\<close>)
  moreover have "ebind (ot_apply d b) (\<lambda>x. ot_apply x a)
      = Inr (doc_put (op_path b) (JArr (list_edit a (list_edit b xs))) d)"
    by (rule apply_edit_edit [OF assms(1)]) (use assms(2,3,4,11) in \<open>simp_all add: ea eb\<close>)
  ultimately show ?thesis unfolding t ea eb using assms(4) by simp
qed

theorem ot_equal_stamps_diverge_witness:
  "ebind (ot_apply doc_example (op_example OpInsert [''xs''] (JNum 8) 1 5))
      (\<lambda>x. ot_apply x (snd (transform (op_example OpInsert [''xs''] (JNum 8) 1 5)
                                      (op_example OpInsert [''xs''] (JNum 9) 1 5))))
    = Inr (doc_put [''xs''] (JArr [JNum 1, JNum 9, JNum 8, JNum 2, JNum 3]) doc_example)
   \<and> ebind (ot_apply doc_example (op_example OpInsert [''xs''] (JNum 9) 1 5))
      (\<lambda>x. ot_apply x (snd (transform (op_example OpInsert [''xs''] (JNum 9) 1 5)
                                      (op_example OpInsert [''xs''] (JNum 8) 1 5))))
    = Inr (doc_put [''xs''] (JArr [JNum 1, JNum 8, JNum 9, JNum 2, JNum 3]) doc_example)"
  using ot_equal_stamps_diverge [of doc_example "op_example OpInsert [''xs''] (JNum 8) 1 5"
      "[JNum 1, JNum 2, JNum 3]" "op_example OpInsert [''xs''] (JNum 9) 1 5" 1]
  by (simp add: ins_at_def)

text \<open>
  two concurrent updates of one field never converge. Whatever the timestamps, each site ends
  with the value of the other one: the transformed updates still write, only their old value is
  changed.
\<close>

theorem ot_updates_never_converge:
  assumes "is_json d" and "fits_at a d" and "fits_at b d" and "op_path a = op_path b"
    and "op_type a = OpUpdate" and "op_type b = OpUpdate" and "op_value a \<noteq> op_value b"
  shows "ebind (ot_apply d a) (\<lambda>x. ot_apply x (snd (transform a b)))
      = Inr (doc_put (op_path a) (op_value b) d)
    \<and> ebind (ot_apply d b) (\<lambda>x. ot_apply x (snd (transform b a)))
      = Inr (doc_put (op_path a) (op_value a) d)
    \<and> doc_put (op_path a) (op_value a) d \<noteq> doc_put (op_path a) (op_value b) d"
proof -
  obtain c where c: "op_path a \<noteq> []" "doc_at (op_path a) d = Some c" "is_json (op_value a)"
      "is_json (op_value b)"
    using assms by (auto simp: fits_at_def op_fits_def split: option.splits)
  have one: "ot_apply d p = Inr (doc_put (op_path a) (op_value p) d)"
    and two: "ot_apply (doc_put (op_path a) v d) p = Inr (doc_put (op_path a) (op_value p) d)"
    if "op_type p = OpUpdate" "op_path p = op_path a" "is_json (op_value p)" "is_json v" for p v
    using that c assms(1) apply_update [of d p c] apply_update [of "doc_put (op_path a) v d" p v]
    by (auto simp: doc_at_put doc_put_put doc_put_json)
  have t: "snd (transform p q) = q \<or> snd (transform p q) = q\<lparr>op_oldValue := op_value p\<rparr>"
    if "op_type p = OpUpdate" "op_type q = OpUpdate" for p q
    using that by (simp add: transform_def transformByType_def transformUpdateUpdate_def Let_def)
  have "doc_at (op_path a) (doc_put (op_path a) v d) = Some v" for v
    by (rule doc_at_put [OF c(2)])
  then have "doc_put (op_path a) (op_value a) d \<noteq> doc_put (op_path a) (op_value b) d"
    using assms(7) by (metis option.inject)
  moreover have "ebind (ot_apply d p) (\<lambda>x. ot_apply x (snd (transform p q)))
      = Inr (doc_put (op_path a) (op_value q) d)"
    if "op_type p = OpUpdate" "op_type q = OpUpdate" "op_path p = op_path a" "op_path q = op_path a"
      "is_json (op_value p)" "is_json (op_value q)" for p q
  proof -
    have "op_type (snd (transform p q)) = OpUpdate" "op_path (snd (transform p q)) = op_path a"
      "op_value (snd (transform p q)) = op_value q"
      using t [OF that(1,2)] that by auto
    then show ?thesis using that two [of "snd (transform p q)" "op_value p"] by (simp add: one)
  qed
  ultimately show ?thesis using assms(4-6) c by simp
qed

theorem ot_updates_never_converge_witness:
  "ebind (ot_apply doc_example (op_example OpUpdate [''xs''] (JNum 8) 0 5))
      (\<lambda>x. ot_apply x (snd (transform (op_example OpUpdate [''xs''] (JNum 8) 0 5)
                                      (op_example OpUpdate [''xs''] (JNum 9) 0 6))))
    = Inr (doc_put [''xs''] (JNum 9) doc_example)
   \<and> ebind (ot_apply doc_example (op_example OpUpdate [''xs''] (JNum 9) 0 6))
      (\<lambda>x. ot_apply x (snd (transform (op_example OpUpdate [''xs''] (JNum 9) 0 6)
                                      (op_example OpUpdate [''xs''] (JNum 8) 0 5))))
    = Inr (doc_put [''xs''] (JNum 8) doc_example)"
  using ot_updates_never_converge [of doc_example "op_example OpUpdate [''xs''] (JNum 8) 0 5"
      "op_example OpUpdate [''xs''] (JNum 9) 0 6"]
  by (simp add: fits_at_def op_fits_def)

text \<open>
  Two concurrent deletions of one element destroy the array. Both transformed operations are
  meant to do nothing, but they are updates of the array's own path with \<open>null\<close>, so both replicas
  end with \<open>null\<close> where the array was.
\<close>

theorem ot_same_deletion_wipes_array:
  assumes "is_json d" and "edits_array a d" and "edits_array b d" and "op_path a = op_path b"
    and "same_deletion a b"
  shows "ebind (ot_apply d a) (\<lambda>x. ot_apply x (snd (transform a b)))
      = Inr (doc_put (op_path a) JNull d)
    \<and> ebind (ot_apply d b) (\<lambda>x. ot_apply x (fst (transform a b)))
      = Inr (doc_put (op_path a) JNull d)"
proof -
  obtain xs where xs: "op_path a \<noteq> []" "doc_at (op_path a) d = Some (JArr xs)" "edits_list a xs"
      "edits_list b xs"
    using edits_arrayD [OF assms(2)] edits_arrayD [OF assms(3)] assms(4) by auto
  have t: "transform a b = (no_op a, no_op b)"
    using assms(4,5) by (simp add: array_rules same_deletion_def)
  have "ebind (ot_apply d p) (\<lambda>x. ot_apply x (no_op q)) = Inr (doc_put (op_path a) JNull d)"
    if "edits_list p xs" "op_path p = op_path a" "op_path q = op_path a" for p q
  proof -
    have "is_json (JArr (list_edit p xs))"
      using is_json_op_effect [of "JArr xs" p] op_effect_edit [OF that(1)]
        doc_at_json [OF assms(1) xs(2)] by simp
    then have "ot_apply (doc_put (op_path a) (JArr (list_edit p xs)) d) (no_op q)
        = Inr (doc_put (op_path a) JNull (doc_put (op_path a) (JArr (list_edit p xs)) d))"
      using apply_update [of "doc_put (op_path a) (JArr (list_edit p xs)) d" "no_op q"] that xs
        assms(1)
      by (simp add: no_op_def doc_put_json doc_at_put)
    with that xs assms(1) show ?thesis by (simp add: apply_edit doc_put_put)
  qed
  with xs t assms(4) show ?thesis by simp
qed

theorem ot_same_deletion_wipes_array_witness:
  "ebind (ot_apply doc_example (op_example OpDelete [''xs''] JUndef 1 5))
      (\<lambda>x. ot_apply x (snd (transform (op_example OpDelete [''xs''] JUndef 1 5)
                                      (op_example OpDelete [''xs''] JUndef 1 6))))
    = Inr (doc_put [''xs''] JNull doc_example)"
  using ot_same_deletion_wipes_array [of doc_example "op_example OpDelete [''xs''] JUndef 1 5"
      "op_example OpDelete [''xs''] JUndef 1 6"]
  by (simp add: edits_array_def edits_list_def same_deletion_def)

lemmas ot_eval = ot_apply_def applyMove_def applyDelete_def applyUpdate_def at_parent_def
  array_index_def is_digit_def digits_val_def digit_val_def null_undef_def op_example_def pos_of_def
  newpos_of_def move_item_def splice_insert_def splice_delete_def splice_item_def splice_start_def
  transform_def transformByType_def transformMoveMove_def move_index_def transformDeleteUpdate_def
  pathsEqual_def

definition move_example :: "int \<Rightarrow> int \<Rightarrow> Operation" where
  "move_example fr to = (op_example OpMove [''0''] JUndef fr 0)\<lparr>op_newPosition := Some to\<rparr>"

text \<open>
  moves do not converge, and a deletion does not adjust an update inside the array. Moving
  the first of three elements to index 1 and to index 2 leaves two different orders, and one of
  the transformed moves starts at index -1; after a deletion of the first element, an update of
  the second one hits the third.
\<close>

theorem ot_moves_and_shifts_diverge:
  "ebind (ot_apply (JArr [JArr [JNum 1, JNum 2, JNum 3]]) (move_example 0 1))
      (\<lambda>x. ot_apply x (snd (transform (move_example 0 1) (move_example 0 2))))
    = Inr (JArr [JArr [JNum 2, JNum 3, JNum 1]])
   \<and> ebind (ot_apply (JArr [JArr [JNum 1, JNum 2, JNum 3]]) (move_example 0 2))
      (\<lambda>x. ot_apply x (fst (transform (move_example 0 1) (move_example 0 2))))
    = Inr (JArr [JArr [JNum 1, JNum 2, JNum 3]])
   \<and> pos_of (fst (transform (move_example 0 1) (move_example 0 2))) = - 1
   \<and> ebind (ot_apply (JArr [JArr [JNum 1, JNum 2, JNum 3]]) (op_example OpDelete [''0''] JUndef 0 5))
      (\<lambda>x. ot_apply x (snd (transform (op_example OpDelete [''0''] JUndef 0 5)
                                      (op_example OpUpdate [''0'', ''1''] (JNum 9) 0 6))))
    = Inr (JArr [JArr [JNum 2, JNum 9]])
   \<and> ebind (ot_apply (JArr [JArr [JNum 1, JNum 2, JNum 3]])
            (op_example OpUpdate [''0'', ''1''] (JNum 9) 0 6))
      (\<lambda>x. ot_apply x (fst (transform (op_example OpDelete [''0''] JUndef 0 5)
                                      (op_example OpUpdate [''0'', ''1''] (JNum 9) 0 6))))
    = Inr (JArr [JArr [JNum 9, JNum 3]])"
  by (intro conjI) (simp_all add: ot_eval move_example_def)

section \<open>Inversion\<close>

text \<open>
  \<open>undoable p d\<close>: the operation works at an existing path and within the bounds of the array
  there, and an update or a deletion carries what it overwrites as its old value.
\<close>

definition undoable :: "Operation \<Rightarrow> json \<Rightarrow> bool" where
  "undoable p d = (op_path p \<noteq> []
     \<and> (case doc_at (op_path p) d of None \<Rightarrow> False
        | Some c \<Rightarrow>
            (case op_type p of
               OpUpdate \<Rightarrow> is_json (op_value p) \<and> op_oldValue p = c
             | OpInsert \<Rightarrow> (case c of JArr xs \<Rightarrow> edits_list p xs | _ \<Rightarrow> False)
             | OpDelete \<Rightarrow> (case c of JArr xs \<Rightarrow> edits_list p xs \<and> op_oldValue p = xs ! nat (pos_of p)
                            | _ \<Rightarrow> False)
             | OpMove \<Rightarrow> (case c of JArr xs \<Rightarrow> 0 \<le> pos_of p \<and> pos_of p < int (length xs)
                            \<and> 0 \<le> newpos_of p \<and> newpos_of p < int (length xs) | _ \<Rightarrow> False)
             | _ \<Rightarrow> False)))"

lemma move_item_nat:
  "i < length xs \<Longrightarrow> j < length xs
     \<Longrightarrow> move_item (int i) (int j) xs = ins_at j (xs ! i) (del_at i xs)"
  by (simp add: move_item_def splice_delete_nat splice_insert_nat splice_item_def)

lemma move_back:
  assumes "i < length xs" and "j < length xs"
  shows "move_item (int j) (int i) (move_item (int i) (int j) xs) = xs"
  using assms
  by (simp add: move_item_nat nth_ins_at del_ins_same ins_del_same)

lemma undo_effect:
  assumes "undoable p d" and "is_json d" and "doc_at (op_path p) d = Some c"
  shows "op_fits p c \<and> op_fits (invert_op p) (op_effect p c)
    \<and> op_effect (invert_op p) (op_effect p c) = c \<and> op_path (invert_op p) = op_path p"
proof (cases "op_type p")
  case OpInsert
  then obtain xs where xs: "c = JArr xs" "edits_list p xs"
    using assms by (auto simp: undoable_def split: json.splits)
  moreover from this obtain i where "pos_of p = int i" by (metis edits_list_def zero_le_imp_eq_int)
  ultimately show ?thesis
    using OpInsert
    by (auto simp: invert_op_def op_fits_def op_effect_def edits_list_def is_array_def pos_of_def
        splice_insert_nat splice_delete_nat del_ins_same)
next
  case OpDelete
  then obtain xs where xs: "c = JArr xs" "edits_list p xs" "op_oldValue p = xs ! nat (pos_of p)"
    using assms by (auto simp: undoable_def split: json.splits)
  moreover from this obtain i where "pos_of p = int i" by (metis edits_list_def zero_le_imp_eq_int)
  moreover have "is_json (JArr xs)" using doc_at_json [OF assms(2,3)] xs by simp
  ultimately show ?thesis
    using OpDelete
    by (auto simp: invert_op_def op_fits_def op_effect_def edits_list_def is_array_def pos_of_def
        splice_insert_nat splice_delete_nat ins_del_same is_json_JArr)
next
  case OpUpdate
  then show ?thesis
    using assms doc_at_json [OF assms(2,3)]
    by (auto simp: undoable_def invert_op_def op_fits_def op_effect_def)
next
  case OpMove
  then obtain xs where xs: "c = JArr xs" "0 \<le> pos_of p" "pos_of p < int (length xs)"
      "0 \<le> newpos_of p" "newpos_of p < int (length xs)"
    using assms by (auto simp: undoable_def split: json.splits)
  then obtain i j where "pos_of p = int i" "newpos_of p = int j"
    by (metis zero_le_imp_eq_int)
  with xs OpMove show ?thesis
    using move_back [of i xs j]
    by (auto simp: invert_op_def op_fits_def op_effect_def is_array_def pos_of_def newpos_of_def
        move_item_nat ins_at_def)
qed (use assms in \<open>auto simp: undoable_def\<close>)

text \<open>
  inversion undoes. Applying an insertion, deletion, update or move and then its inverse
  gives the document back, when the operation works within the bounds of an existing array (or,
  for an update, on an existing value) and carries the old value that its inverse restores.
\<close>

theorem ot_invert_undoes:
  assumes "is_json d" and "undoable p d"
  shows "ebind (ot_apply d p) (\<lambda>x. ot_apply x (inverted (invert p))) = Inr d"
proof -
  obtain c where c: "op_path p \<noteq> []" "doc_at (op_path p) d = Some c"
    using assms(2) by (auto simp: undoable_def split: option.splits)
  note u = undo_effect [OF assms(2,1) c(2)]
  let ?d = "doc_put (op_path p) (op_effect p c) d"
  have "is_json ?d"
    using u c assms(1) by (auto intro!: doc_put_json is_json_op_effect dest: doc_at_json)
  then have "ot_apply ?d (invert_op p) = Inr (doc_put (op_path p) c ?d)"
    using apply_at [of ?d "invert_op p"] u c by (simp add: doc_at_put)
  then show ?thesis
    using apply_at [OF assms(1) c] u by (simp add: invert_def doc_put_put [OF c(2)] doc_put_same [OF c(2)])
qed

theorem ot_invert_undoes_witness:
  "ebind (ot_apply doc_example ((op_example OpDelete [''xs''] JUndef 1 5)\<lparr>op_oldValue := JNum 2\<rparr>))
     (\<lambda>x. ot_apply x (inverted (invert ((op_example OpDelete [''xs''] JUndef 1 5)\<lparr>op_oldValue := JNum 2\<rparr>))))
    = Inr doc_example"
  by (rule ot_invert_undoes) (simp_all add: undoable_def edits_list_def op_example_def pos_of_def)

end
