(* ===== verification/Workflow_Graph.thy ===== *)
theory Workflow_Graph
  imports Complex_Main Json_Doc Interfaces
begin

text \<open>
  Workflows (frontend/src/lib/action-schema/action-types.ts) and their graph algorithms
  (frontend/src/lib/action-schema/workflow-utils.ts). Parts of an action, a connection and a
  workflow that no modelled function looks into are JSON values, \<open>JUndef\<close> when absent. The
  \<open>connections\<close> object is an association list in the order in which JavaScript enumerates it.
  Identifiers and times that the code generates are arguments.
\<close>

section \<open>Workflows\<close>

record Action =
  ac_id :: ident
  ac_type :: string
  ac_name :: "string option"
  ac_config :: json
  ac_base :: json
  ac_execution :: json
  ac_position :: "rat list option"
  ac_expectations :: json

datatype ConnectionType = CMain | CError | CSuccess | CParallel

record Connection =
  cn_action :: ident
  cn_type :: ConnectionType
  cn_index :: int
  cn_edge :: json

record Outputs =
  ou_main :: "Connection list list option"
  ou_error :: "Connection list list option"
  ou_success :: "Connection list list option"
  ou_parallel :: "Connection list list option"

type_synonym Connections = "(ident \<times> Outputs) list"

datatype ViewMode = Sequential | Graph

record WorkflowMetadata =
  md_viewMode :: "ViewMode option"
  md_created :: "string option"
  md_other :: json

record Workflow =
  wf_id :: ident
  wf_name :: string
  wf_version :: string
  wf_format :: string
  wf_actions :: "Action list"
  wf_connections :: Connections
  wf_category :: "string option"
  wf_description :: "string option"
  wf_initialScreenshotId :: "ident option"
  wf_initialStateIds :: "ident list option"
  wf_variables :: json
  wf_settings :: json
  wf_metadata :: "WorkflowMetadata option"
  wf_tags :: json
  wf_expectations :: json

text \<open>
  Objects used as maps. \<open>m[k] = v\<close> replaces the value of a key in place; a new key comes last,
  except that keys that are array indices come first, in ascending order.
\<close>

definition key_before :: "ident \<Rightarrow> ident \<Rightarrow> bool" where
  "key_before a b =
     (case array_index a of None \<Rightarrow> False
      | Some i \<Rightarrow> (case array_index b of None \<Rightarrow> True | Some j \<Rightarrow> i < j))"

fun obj_set :: "ident \<Rightarrow> 'a \<Rightarrow> (ident \<times> 'a) list \<Rightarrow> (ident \<times> 'a) list" where
  "obj_set k v [] = [(k, v)]"
| "obj_set k v ((k', v') # m) =
     (if k = k' then (k, v) # m
      else if k \<notin> fst ` set m \<and> key_before k k' then (k, v) # (k', v') # m
      else (k', v') # obj_set k v m)"

lemma map_of_obj_set [simp]: "map_of (obj_set k v m) = (map_of m)(k \<mapsto> v)"
  by (induction m) (auto simp: map_of_eq_None_iff intro!: ext)

lemma keys_obj_set [simp]: "fst ` set (obj_set k v m) = insert k (fst ` set m)"
proof (induction m)
  case (Cons p m)
  then show ?case by (cases p) (simp add: insert_commute)
qed simp

lemma distinct_obj_set: "distinct (map fst m) \<Longrightarrow> distinct (map fst (obj_set k v m))"
proof (induction m)
  case (Cons p m)
  then show ?case using keys_obj_set [of k v m] by (cases p) (simp del: keys_obj_set)
qed simp

text \<open>The elements of a JavaScript \<open>Set\<close>, in order of insertion.\<close>

definition uniq :: "'a list \<Rightarrow> 'a list" where
  "uniq xs = rev (remdups (rev xs))"

lemma set_uniq [simp]: "set (uniq xs) = set xs"
  by (simp add: uniq_def)

lemma distinct_uniq [simp]: "distinct (uniq xs)"
  by (simp add: uniq_def)

section \<open>Connections\<close>

text \<open>The order in which the code visits the outputs.\<close>

definition all_types :: "ConnectionType list" where
  "all_types = [CMain, CError, CSuccess, CParallel]"

fun output_of :: "Outputs \<Rightarrow> ConnectionType \<Rightarrow> Connection list list" where
  "output_of u CMain = (case ou_main u of None \<Rightarrow> [] | Some c \<Rightarrow> c)"
| "output_of u CError = (case ou_error u of None \<Rightarrow> [] | Some c \<Rightarrow> c)"
| "output_of u CSuccess = (case ou_success u of None \<Rightarrow> [] | Some c \<Rightarrow> c)"
| "output_of u CParallel = (case ou_parallel u of None \<Rightarrow> [] | Some c \<Rightarrow> c)"

definition targets_of :: "ConnectionType list \<Rightarrow> Outputs \<Rightarrow> ident list" where
  "targets_of ts u = map cn_action (concat (concat (map (output_of u) ts)))"

text \<open>All targets, one for each connection, in the order of the loops over \<open>connections\<close>.\<close>

definition all_targets :: "Workflow \<Rightarrow> ident list" where
  "all_targets w = concat (map (\<lambda>(s, u). targets_of all_types u) (wf_connections w))"

definition getEntryPoints :: "Workflow \<Rightarrow> ident list" where
  "getEntryPoints w = filter (\<lambda>i. i \<notin> set (all_targets w)) (map ac_id (wf_actions w))"

definition getActionConnections :: "Workflow \<Rightarrow> ident \<Rightarrow> Outputs option" where
  "getActionConnections w actionId = map_of (wf_connections w) actionId"

definition getNextActions :: "Workflow \<Rightarrow> ident \<Rightarrow> ConnectionType option \<Rightarrow> ident list" where
  "getNextActions w actionId connectionType =
     (case getActionConnections w actionId of
        None \<Rightarrow> []
      | Some u \<Rightarrow> uniq (targets_of (case connectionType of Some t \<Rightarrow> [t] | None \<Rightarrow> all_types) u))"

definition getPreviousActions :: "Workflow \<Rightarrow> ident \<Rightarrow> ident list" where
  "getPreviousActions w actionId =
     concat (map (\<lambda>(sourceId, u).
       map (\<lambda>out. sourceId)
         (filter (list_ex (\<lambda>conn. cn_action conn = actionId)) (concat (map (output_of u) all_types))))
       (wf_connections w))"

section \<open>Depth-first searches\<close>

text \<open>
  \<open>hasCycleFrom\<close> on the elements of a list, with the visited nodes and the nodes on the recursion
  stack. The fuel bounds the depth of the recursion; \<open>None\<close> is running out of it.
\<close>

fun cycle_search ::
    "('v \<Rightarrow> 'v list) \<Rightarrow> nat \<Rightarrow> 'v list \<Rightarrow> 'v list \<Rightarrow> 'v list \<Rightarrow> (bool \<times> 'v list) option" where
  "cycle_search succ fuel visited stack [] = Some (False, visited)"
| "cycle_search succ fuel visited stack (x # xs) =
     (if x \<in> set stack then Some (True, visited)
      else if x \<in> set visited then cycle_search succ fuel visited stack xs
      else case fuel of
        0 \<Rightarrow> None
      | Suc n \<Rightarrow>
          (case cycle_search succ n (x # visited) (x # stack) (succ x) of
             None \<Rightarrow> None
           | Some (True, visited') \<Rightarrow> Some (True, visited')
           | Some (False, visited') \<Rightarrow> cycle_search succ fuel visited' stack xs))"

text \<open>\<open>visit\<close> of the topological sort, with the visited nodes and the order so far.\<close>

fun topo_visit ::
    "('v \<Rightarrow> 'v list) \<Rightarrow> nat \<Rightarrow> 'v list \<Rightarrow> 'v list \<Rightarrow> 'v list \<Rightarrow> ('v list \<times> 'v list) option" where
  "topo_visit succ fuel visited order [] = Some (visited, order)"
| "topo_visit succ fuel visited order (x # xs) =
     (if x \<in> set visited then topo_visit succ fuel visited order xs
      else case fuel of
        0 \<Rightarrow> None
      | Suc n \<Rightarrow>
          (case topo_visit succ n (x # visited) order (succ x) of
             None \<Rightarrow> None
           | Some (visited', order') \<Rightarrow> topo_visit succ fuel visited' (x # order') xs))"

definition graph_nodes :: "Workflow \<Rightarrow> ident list" where
  "graph_nodes w = map ac_id (wf_actions w) @ all_targets w"

definition graph_fuel :: "Workflow \<Rightarrow> nat" where
  "graph_fuel w = Suc (length (graph_nodes w))"

definition succs :: "Workflow \<Rightarrow> ident \<Rightarrow> ident list" where
  "succs w a = getNextActions w a None"

definition hasCycles :: "Workflow \<Rightarrow> bool" where
  "hasCycles w =
     (case cycle_search (succs w) (graph_fuel w) [] [] (getEntryPoints w) of
        None \<Rightarrow> False | Some (b, _) \<Rightarrow> b)"

definition getTopologicalOrder :: "Workflow \<Rightarrow> ident list option" where
  "getTopologicalOrder w =
     (if hasCycles w then None
      else map_option snd (topo_visit (succs w) (graph_fuel w) [] [] (getEntryPoints w)))"

section \<open>Finite graphs\<close>

text \<open>
  What the searches rely on: every successor is one of finitely many nodes. Then enough fuel is
  one more than their number, the cycle search finds exactly the cycles that can be reached from
  where it starts, and without such a cycle the visit lists what can be reached with every node
  before its successors.
\<close>

fun succs_later :: "('v \<Rightarrow> 'v list) \<Rightarrow> 'v list \<Rightarrow> bool" where
  "succs_later succ [] = True"
| "succs_later succ (x # xs) = (set (succ x) \<subseteq> set xs \<and> succs_later succ xs)"

definition edges :: "('v \<Rightarrow> 'v list) \<Rightarrow> ('v \<times> 'v) set" where
  "edges succ = {(a, b). b \<in> set (succ a)}"

lemma edges_iff [simp]: "(a, b) \<in> edges succ \<longleftrightarrow> b \<in> set (succ a)"
  by (simp add: edges_def)

locale finite_graph =
  fixes succ :: "'v \<Rightarrow> 'v list"
    and nodes :: "'v list"
  assumes succ_nodes: "set (succ a) \<subseteq> set nodes"
begin

lemma search_ConsE:
  assumes "cycle_search succ fuel vs st (x # xs) = Some r"
  obtains (stack) "x \<in> set st" "r = (True, vs)"
  | (seen) "x \<notin> set st" "x \<in> set vs" "cycle_search succ fuel vs st xs = Some r"
  | (cyclic) n vs' where "fuel = Suc n" "x \<notin> set st" "x \<notin> set vs"
      "cycle_search succ n (x # vs) (x # st) (succ x) = Some (True, vs')" "r = (True, vs')"
  | (explored) n vs' where "fuel = Suc n" "x \<notin> set st" "x \<notin> set vs"
      "cycle_search succ n (x # vs) (x # st) (succ x) = Some (False, vs')"
      "cycle_search succ fuel vs' st xs = Some r"
  using assms that by (auto split: if_splits nat.splits option.splits prod.splits bool.splits)

lemma visit_ConsE:
  assumes "topo_visit succ fuel vs os (x # xs) = Some r"
  obtains (seen) "x \<in> set vs" "topo_visit succ fuel vs os xs = Some r"
  | (new) n vs' os' where "fuel = Suc n" "x \<notin> set vs"
      "topo_visit succ n (x # vs) os (succ x) = Some (vs', os')"
      "topo_visit succ fuel vs' (x # os') xs = Some r"
  using assms that by (auto split: if_splits nat.splits option.splits prod.splits)

text \<open>Induction over a search that returns: on the fuel, and for each fuel on the list.\<close>

lemma search_visited:
  "cycle_search succ fuel vs st xs = Some (b, vs') \<Longrightarrow> set vs \<subseteq> set vs'"
proof (induction fuel arbitrary: vs st xs b vs')
  case 0
  then show ?case
    by (induction xs) (auto elim!: search_ConsE simp del: cycle_search.simps(2))
next
  case (Suc n)
  note depth = Suc.IH
  from Suc.prems show ?case
  proof (induction xs arbitrary: vs)
    case (Cons x xs)
    from Cons.prems show ?case
    proof (cases rule: search_ConsE)
      case seen
      then show ?thesis using Cons.IH by blast
    next
      case (cyclic m ws)
      then show ?thesis using depth by fastforce
    next
      case (explored m ws)
      then have "set (x # vs) \<subseteq> set ws" using depth by blast
      then show ?thesis using Cons.IH [OF explored(5)] by auto
    qed simp
  qed simp
qed

lemma visit_visited:
  "topo_visit succ fuel vs os xs = Some (vs', os') \<Longrightarrow> set vs \<subseteq> set vs'"
proof (induction fuel arbitrary: vs os xs vs' os')
  case 0
  then show ?case
    by (induction xs) (auto elim!: visit_ConsE simp del: topo_visit.simps(2))
next
  case (Suc n)
  note depth = Suc.IH
  from Suc.prems show ?case
  proof (induction xs arbitrary: vs os)
    case (Cons x xs)
    from Cons.prems show ?case
    proof (cases rule: visit_ConsE)
      case seen
      then show ?thesis using Cons.IH by blast
    next
      case (new m ws ps)
      then have "set (x # vs) \<subseteq> set ws" using depth by blast
      then show ?thesis using Cons.IH [OF new(4)] by auto
    qed
  qed simp
qed

text \<open>The nodes that are not visited yet bound the depth of the recursion.\<close>

lemma unvisited_less:
  assumes "x \<in> set nodes" and "x \<notin> set vs" and "card (set nodes - set vs) < Suc n"
  shows "card (set nodes - set (x # vs)) < n"
proof -
  have "set nodes - set (x # vs) = (set nodes - set vs) - {x}" by auto
  then have "card (set nodes - set (x # vs)) = card (set nodes - set vs) - 1"
    using assms by (simp add: card_Diff_singleton)
  moreover have "card (set nodes - set vs) \<noteq> 0" using assms by auto
  ultimately show ?thesis using assms(3) by arith
qed

lemma unvisited_mono:
  "set vs \<subseteq> set vs' \<Longrightarrow> card (set nodes - set vs) < n \<Longrightarrow> card (set nodes - set vs') < n"
  by (rule le_less_trans [OF card_mono]) auto

lemma search_returns:
  "set xs \<subseteq> set nodes \<Longrightarrow> card (set nodes - set vs) < fuel
     \<Longrightarrow> cycle_search succ fuel vs st xs \<noteq> None"
proof (induction fuel arbitrary: vs st xs)
  case 0
  then show ?case by simp
next
  case (Suc n)
  note depth = Suc.IH
  from Suc.prems show ?case
  proof (induction xs arbitrary: vs)
    case Nil
    then show ?case by simp
  next
    case (Cons x xs)
    show ?case
    proof (cases "x \<in> set st \<or> x \<in> set vs")
      case True
      with Cons show ?thesis by auto
    next
      case False
      then have "card (set nodes - set (x # vs)) < n"
        using Cons.prems unvisited_less [of x vs n] by simp
      then obtain b vs' where r: "cycle_search succ n (x # vs) (x # st) (succ x) = Some (b, vs')"
        using depth [OF succ_nodes] by fastforce
      have "card (set nodes - set vs') < Suc n"
        using unvisited_mono [of vs vs'] search_visited [OF r] Cons.prems(2) by simp
      then show ?thesis using False r Cons by (cases b) auto
    qed
  qed
qed

lemma visit_returns:
  "set xs \<subseteq> set nodes \<Longrightarrow> card (set nodes - set vs) < fuel
     \<Longrightarrow> topo_visit succ fuel vs os xs \<noteq> None"
proof (induction fuel arbitrary: vs os xs)
  case 0
  then show ?case by simp
next
  case (Suc n)
  note depth = Suc.IH
  from Suc.prems show ?case
  proof (induction xs arbitrary: vs os)
    case Nil
    then show ?case by simp
  next
    case (Cons x xs)
    show ?case
    proof (cases "x \<in> set vs")
      case True
      with Cons show ?thesis by auto
    next
      case False
      then have "card (set nodes - set (x # vs)) < n"
        using Cons.prems unvisited_less [of x vs n] by simp
      then obtain vs' os' where r: "topo_visit succ n (x # vs) os (succ x) = Some (vs', os')"
        using depth [OF succ_nodes] by fastforce
      have "card (set nodes - set vs') < Suc n"
        using unvisited_mono [of vs vs'] visit_visited [OF r] Cons.prems(2) by simp
      then show ?thesis using False r Cons by auto
    qed
  qed
qed

text \<open>A search that finds a cycle has followed one.\<close>

lemma search_sound:
  "cycle_search succ fuel vs st xs = Some (True, vs') \<Longrightarrow>
     \<forall>s \<in> set st. \<forall>x \<in> set xs. (s, x) \<in> (edges succ)\<^sup>+ \<Longrightarrow>
     \<exists>x \<in> set xs. \<exists>y. (x, y) \<in> (edges succ)\<^sup>* \<and> (y, y) \<in> (edges succ)\<^sup>+"
proof (induction fuel arbitrary: vs st xs vs')
  case 0
  from 0 show ?case
    by (induction xs arbitrary: vs) (auto elim!: search_ConsE simp del: cycle_search.simps(2))
next
  case (Suc n)
  note depth = Suc.IH
  from Suc.prems show ?case
  proof (induction xs arbitrary: vs)
    case (Cons x xs)
    from Cons.prems(1) show ?case
    proof (cases rule: search_ConsE)
      case stack
      then show ?thesis using Cons.prems(2) by auto
    next
      case seen
      then show ?thesis using Cons by auto
    next
      case (cyclic m ws)
      have "\<forall>s \<in> set (x # st). \<forall>z \<in> set (succ x). (s, z) \<in> (edges succ)\<^sup>+"
        using Cons.prems(2) by (auto intro: trancl_into_trancl)
      then obtain z y where "z \<in> set (succ x)" "(z, y) \<in> (edges succ)\<^sup>*" "(y, y) \<in> (edges succ)\<^sup>+"
        using depth cyclic by blast
      then have "(x, y) \<in> (edges succ)\<^sup>*" by (meson converse_rtrancl_into_rtrancl edges_iff)
      with \<open>(y, y) \<in> (edges succ)\<^sup>+\<close> show ?thesis by auto
    next
      case (explored m ws)
      then show ?thesis using Cons.IH [OF explored(5)] Cons.prems(2) by auto
    qed
  qed simp
qed

text \<open>What a search without a result leaves behind is closed and has no cycles.\<close>

definition explored_set :: "'v set \<Rightarrow> bool" where
  "explored_set D \<longleftrightarrow> (\<forall>x \<in> D. set (succ x) \<subseteq> D \<and> (x, x) \<notin> (edges succ)\<^sup>+)"

lemma explored_reach: "(x, y) \<in> (edges succ)\<^sup>* \<Longrightarrow> explored_set D \<Longrightarrow> x \<in> D \<Longrightarrow> y \<in> D"
  by (induction rule: rtrancl_induct) (auto simp: explored_set_def)

lemma explored_insert:
  assumes "explored_set D" and "set (succ x) \<subseteq> D" and "x \<notin> D"
  shows "explored_set (insert x D)"
proof -
  have "(x, x) \<notin> (edges succ)\<^sup>+"
  proof
    assume "(x, x) \<in> (edges succ)\<^sup>+"
    then obtain z where "z \<in> set (succ x)" "(z, x) \<in> (edges succ)\<^sup>*"
      by (meson edges_iff tranclD)
    then show False using explored_reach [OF _ assms(1)] assms(2,3) by blast
  qed
  then show ?thesis using assms by (auto simp: explored_set_def)
qed

lemma search_complete:
  "cycle_search succ fuel vs st xs = Some (False, vs') \<Longrightarrow> set st \<subseteq> set vs
     \<Longrightarrow> explored_set (set vs - set st)
     \<Longrightarrow> explored_set (set vs' - set st) \<and> set xs \<subseteq> set vs' - set st"
proof (induction fuel arbitrary: vs st xs vs')
  case 0
  from 0 show ?case
  proof (induction xs arbitrary: vs)
    case (Cons x xs)
    from Cons.prems(1) show ?case
    proof (cases rule: search_ConsE)
      case seen
      then have "x \<in> set vs'" using search_visited [OF seen(3)] by auto
      then show ?thesis using Cons seen by auto
    qed simp_all
  qed simp
next
  case (Suc n)
  note depth = Suc.IH
  from Suc.prems show ?case
  proof (induction xs arbitrary: vs)
    case (Cons x xs)
    from Cons.prems(1) show ?case
    proof (cases rule: search_ConsE)
      case seen
      then have "x \<in> set vs'" using search_visited [OF seen(3)] by auto
      then show ?thesis using Cons seen by auto
    next
      case (explored m ws)
      have same: "set (x # vs) - set (x # st) = set vs - set st" using explored by auto
      have nested: "explored_set (set ws - set (x # st))" "set (succ x) \<subseteq> set ws - set (x # st)"
        using depth [of "x # vs" "x # st" "succ x" ws] explored Cons.prems(2,3) same by auto
      have vis: "set (x # vs) \<subseteq> set ws" "set ws \<subseteq> set vs'"
        using search_visited explored by blast+
      have "set ws - set st = insert x (set ws - set (x # st))"
        using vis(1) explored(2) by auto
      then have "explored_set (set ws - set st)"
        using explored_insert [OF nested] by simp
      then show ?thesis
        using Cons.IH [OF explored(5)] Cons.prems(2) vis explored(2) by auto
    qed auto
  qed simp
qed

lemma search_correct:
  assumes "set xs \<subseteq> set nodes"
  shows "\<exists>vs'. cycle_search succ (Suc (length nodes)) [] [] xs =
    Some (\<exists>x \<in> set xs. \<exists>y. (x, y) \<in> (edges succ)\<^sup>* \<and> (y, y) \<in> (edges succ)\<^sup>+, vs')"
proof -
  have "card (set nodes - set []) < Suc (length nodes)"
    by (simp add: card_length less_Suc_eq_le)
  then obtain b vs' where r: "cycle_search succ (Suc (length nodes)) [] [] xs = Some (b, vs')"
    using search_returns [OF assms] by fastforce
  have "b = (\<exists>x \<in> set xs. \<exists>y. (x, y) \<in> (edges succ)\<^sup>* \<and> (y, y) \<in> (edges succ)\<^sup>+)"
  proof (cases b)
    case True
    with r search_sound [of "Suc (length nodes)" "[]" "[]" xs vs'] show ?thesis by simp
  next
    case False
    with r have D: "explored_set (set vs')" "set xs \<subseteq> set vs'"
      using search_complete [of "Suc (length nodes)" "[]" "[]" xs vs']
      by (simp_all add: explored_set_def)
    have "(y, y) \<notin> (edges succ)\<^sup>+" if "x \<in> set xs" "(x, y) \<in> (edges succ)\<^sup>*" for x y
      using explored_reach [OF that(2) D(1)] that(1) D by (auto simp: explored_set_def)
    with False show ?thesis by blast
  qed
  with r show ?thesis by (intro exI [of _ vs']) simp
qed

text \<open>The visit without cycles.\<close>

lemma visit_order:
  "topo_visit succ fuel vs os xs = Some (vs', os') \<Longrightarrow>
     set os \<subseteq> set vs \<Longrightarrow> distinct os \<Longrightarrow> succs_later succ os \<Longrightarrow>
     \<forall>x \<in> set xs. \<forall>y. (x, y) \<in> (edges succ)\<^sup>* \<longrightarrow> (y, y) \<notin> (edges succ)\<^sup>+ \<Longrightarrow>
     \<forall>g \<in> set vs - set os. \<forall>x \<in> set xs. (g, x) \<in> (edges succ)\<^sup>+ \<Longrightarrow>
     set os' \<subseteq> set vs' \<and> distinct os' \<and> succs_later succ os' \<and> set os \<subseteq> set os' \<and> set xs \<subseteq> set os'
     \<and> set vs' - set os' = set vs - set os \<and> set os' \<subseteq> set os \<union> (edges succ)\<^sup>* `` set xs"
proof (induction fuel arbitrary: vs os xs vs' os')
  case 0
  from 0 show ?case
  proof (induction xs arbitrary: vs os)
    case (Cons x xs)
    from Cons.prems(1) show ?case
    proof (cases rule: visit_ConsE)
      case seen
      then have "x \<in> set os" using Cons.prems(5,6) by (meson DiffI list.set_intros(1) rtrancl.rtrancl_refl)
      then show ?thesis using Cons.IH [OF seen(2)] Cons.prems by auto
    qed simp
  qed auto
next
  case (Suc n)
  note depth = Suc.IH
  from Suc.prems show ?case
  proof (induction xs arbitrary: vs os)
    case (Cons x xs)
    from Cons.prems(1) show ?case
    proof (cases rule: visit_ConsE)
      case seen
      then have "x \<in> set os" using Cons.prems(5,6) by (meson DiffI list.set_intros(1) rtrancl.rtrancl_refl)
      then show ?thesis using Cons.IH [OF seen(2)] Cons.prems by auto
    next
      case (new m ws ps)
      have x: "x \<notin> set os" using new Cons.prems(2) by auto
      have "\<forall>z \<in> set (succ x). \<forall>y. (z, y) \<in> (edges succ)\<^sup>* \<longrightarrow> (y, y) \<notin> (edges succ)\<^sup>+"
        using Cons.prems(5) by (meson converse_rtrancl_into_rtrancl edges_iff list.set_intros(1))
      moreover have "\<forall>g \<in> set (x # vs) - set os. \<forall>z \<in> set (succ x). (g, z) \<in> (edges succ)\<^sup>+"
        using Cons.prems(6) by (auto intro: trancl_into_trancl)
      moreover have "topo_visit succ n (x # vs) os (succ x) = Some (ws, ps)" using new by simp
      moreover have "set os \<subseteq> set (x # vs)" using Cons.prems(2) by auto
      ultimately have "set ps \<subseteq> set ws \<and> distinct ps \<and> succs_later succ ps \<and> set os \<subseteq> set ps
          \<and> set (succ x) \<subseteq> set ps \<and> set ws - set ps = set (x # vs) - set os
          \<and> set ps \<subseteq> set os \<union> (edges succ)\<^sup>* `` set (succ x)"
        by (intro depth [of "x # vs" os "succ x" ws ps] Cons.prems(3,4))
      then have nested: "set ps \<subseteq> set ws" "distinct ps" "succs_later succ ps" "set os \<subseteq> set ps"
          "set (succ x) \<subseteq> set ps" "set ws - set ps = insert x (set vs) - set os"
          "set ps \<subseteq> set os \<union> (edges succ)\<^sup>* `` set (succ x)"
        by simp_all
      have "(x, y) \<in> (edges succ)\<^sup>*" if "z \<in> set (succ x)" "(z, y) \<in> (edges succ)\<^sup>*" for y z
        using that by (meson converse_rtrancl_into_rtrancl edges_iff)
      then have reach: "(edges succ)\<^sup>* `` set (succ x) \<subseteq> (edges succ)\<^sup>* `` set (x # xs)"
        by auto
      have xps: "x \<in> set ws" "x \<notin> set ps" using nested(6) x by auto
      then have gray: "set ws - set (x # ps) = set vs - set os"
        using nested(6) new(2) by auto
      have rest: "set os' \<subseteq> set vs' \<and> distinct os' \<and> succs_later succ os' \<and> set (x # ps) \<subseteq> set os'
          \<and> set xs \<subseteq> set os' \<and> set vs' - set os' = set ws - set (x # ps)
          \<and> set os' \<subseteq> set (x # ps) \<union> (edges succ)\<^sup>* `` set xs"
        by (rule Cons.IH [OF new(4)]) (use nested xps gray Cons.prems(5,6) in auto)
      have more: "(edges succ)\<^sup>* `` set xs \<subseteq> (edges succ)\<^sup>* `` set (x # xs)"
        "x \<in> (edges succ)\<^sup>* `` set (x # xs)"
        by auto
      have bound: "A \<subseteq> B \<union> R" if "A \<subseteq> set (x # ps) \<union> X" "set ps \<subseteq> B \<union> S" "S \<subseteq> R" "X \<subseteq> R" "x \<in> R"
        for A B R S X
        using that by auto
      have "set os' \<subseteq> set os \<union> (edges succ)\<^sup>* `` set (x # xs)"
        by (rule bound [OF _ nested(7) reach more]) (use rest in \<open>simp only: simp_thms\<close>)
      moreover have "set os \<subseteq> set os'" "set (x # xs) \<subseteq> set os'"
        using rest nested(4) by auto
      ultimately show ?thesis using rest gray by (simp only: simp_thms)
    qed
  qed auto
qed

lemma succs_later_closed:
  "(x, y) \<in> (edges succ)\<^sup>* \<Longrightarrow> succs_later succ os \<Longrightarrow> x \<in> set os \<Longrightarrow> y \<in> set os"
proof (induction rule: rtrancl_induct)
  case (step y z)
  have "succs_later succ os \<Longrightarrow> y \<in> set os \<Longrightarrow> set (succ y) \<subseteq> set os" for os
    by (induction os) auto
  with step show ?case by auto
qed

lemma visit_correct:
  assumes "set xs \<subseteq> set nodes"
    and "\<not> (\<exists>x \<in> set xs. \<exists>y. (x, y) \<in> (edges succ)\<^sup>* \<and> (y, y) \<in> (edges succ)\<^sup>+)"
  shows "\<exists>vs' os. topo_visit succ (Suc (length nodes)) [] [] xs = Some (vs', os)
    \<and> distinct os \<and> succs_later succ os \<and> set os = (edges succ)\<^sup>* `` set xs"
proof -
  have "card (set nodes - set []) < Suc (length nodes)"
    by (simp add: card_length less_Suc_eq_le)
  then obtain vs' os where r: "topo_visit succ (Suc (length nodes)) [] [] xs = Some (vs', os)"
    using visit_returns [OF assms(1)] by fastforce
  have o: "distinct os" "succs_later succ os" "set xs \<subseteq> set os" "set os \<subseteq> (edges succ)\<^sup>* `` set xs"
    using visit_order [OF r] assms(2) by auto
  then have "set os = (edges succ)\<^sup>* `` set xs"
    using succs_later_closed [OF _ o(2)] by blast
  with r o show ?thesis by blast
qed

end

section \<open>The graph of a workflow\<close>

lemma targets_in_all:
  "(s, u) \<in> set (wf_connections w) \<Longrightarrow> set (targets_of all_types u) \<subseteq> set (all_targets w)"
  by (auto simp: all_targets_def)

lemma succs_iff:
  "b \<in> set (succs w a) \<longleftrightarrow> (\<exists>u. map_of (wf_connections w) a = Some u \<and> b \<in> set (targets_of all_types u))"
  by (cases "map_of (wf_connections w) a") (simp_all add: succs_def getNextActions_def getActionConnections_def)

lemma succs_targets: "set (succs w a) \<subseteq> set (all_targets w)"
  using targets_in_all by (fastforce simp: succs_iff dest: map_of_SomeD)

interpretation wg: finite_graph "succs w" "graph_nodes w" for w
  by unfold_locales (use succs_targets in \<open>auto simp: graph_nodes_def\<close>)

lemma entry_nodes: "set (getEntryPoints w) \<subseteq> set (graph_nodes w)"
  by (auto simp: getEntryPoints_def graph_nodes_def)

lemma hasCycles_iff:
  "hasCycles w \<longleftrightarrow> (\<exists>e \<in> set (getEntryPoints w). \<exists>y. (e, y) \<in> (edges (succs w))\<^sup>*
     \<and> (y, y) \<in> (edges (succs w))\<^sup>+)"
proof -
  obtain vs' where "cycle_search (succs w) (graph_fuel w) [] [] (getEntryPoints w)
      = Some (\<exists>e \<in> set (getEntryPoints w). \<exists>y. (e, y) \<in> (edges (succs w))\<^sup>*
          \<and> (y, y) \<in> (edges (succs w))\<^sup>+, vs')"
    using wg.search_correct [OF entry_nodes, of w] unfolding graph_fuel_def by blast
  then show ?thesis unfolding hasCycles_def by simp
qed

text \<open>
  C21: \<open>hasCycles\<close> answers whether a cycle can be reached from an entry point, for every workflow
  (the search always returns).
\<close>

theorem hasCycles_correct:
  "hasCycles w = (\<exists>e y. e \<in> set (getEntryPoints w) \<and> (e, y) \<in> {(a, b). b \<in> set (getNextActions w a None)}\<^sup>*
     \<and> (y, y) \<in> {(a, b). b \<in> set (getNextActions w a None)}\<^sup>+)"
proof -
  have "edges (succs w) = {(a, b). b \<in> set (getNextActions w a None)}"
    by (simp add: edges_def succs_def)
  then show ?thesis using hasCycles_iff [of w] by auto
qed

lemma succs_later_split:
  "succs_later f (pre @ a # post) \<Longrightarrow> set (f a) \<subseteq> set post"
  by (induction pre) auto

lemma topological_order:
  assumes "getTopologicalOrder w = Some os"
  shows "distinct os" "succs_later (succs w) os" "set os = (edges (succs w))\<^sup>* `` set (getEntryPoints w)"
proof -
  have "\<not> hasCycles w" using assms by (auto simp: getTopologicalOrder_def split: if_splits)
  then have "\<not> (\<exists>x \<in> set (getEntryPoints w). \<exists>y. (x, y) \<in> (edges (succs w))\<^sup>*
      \<and> (y, y) \<in> (edges (succs w))\<^sup>+)"
    by (simp add: hasCycles_iff)
  then obtain vs os' where r: "topo_visit (succs w) (graph_fuel w) [] [] (getEntryPoints w) = Some (vs, os')"
    and o: "distinct os'" "succs_later (succs w) os'" "set os' = (edges (succs w))\<^sup>* `` set (getEntryPoints w)"
    using wg.visit_correct [OF entry_nodes] unfolding graph_fuel_def by blast
  have "os' = os"
    using assms r by (auto simp: getTopologicalOrder_def split: if_splits)
  with o show "distinct os" "succs_later (succs w) os"
    "set os = (edges (succs w))\<^sup>* `` set (getEntryPoints w)" by simp_all
qed

lemma topological_order_exists: "\<not> hasCycles w \<Longrightarrow> \<exists>os. getTopologicalOrder w = Some os"
proof -
  assume "\<not> hasCycles w"
  then have "\<not> (\<exists>x \<in> set (getEntryPoints w). \<exists>y. (x, y) \<in> (edges (succs w))\<^sup>*
      \<and> (y, y) \<in> (edges (succs w))\<^sup>+)"
    by (simp add: hasCycles_iff)
  with \<open>\<not> hasCycles w\<close> show ?thesis
    using wg.visit_correct [OF entry_nodes] unfolding graph_fuel_def getTopologicalOrder_def by fastforce
qed

text \<open>
  C22: the order that \<open>getTopologicalOrder\<close> returns lists exactly the actions that can be reached
  from an entry point, each once, and every action before all actions that follow it.
\<close>

theorem topological_order_correct:
  assumes "getTopologicalOrder w = Some os"
  shows "distinct os \<and> set os = {(a, b). b \<in> set (getNextActions w a None)}\<^sup>* `` set (getEntryPoints w)
    \<and> (\<forall>pre a post. os = pre @ a # post \<longrightarrow> set (getNextActions w a None) \<subseteq> set post)"
proof -
  note o = topological_order [OF assms]
  have "edges (succs w) = {(a, b). b \<in> set (getNextActions w a None)}"
    by (simp add: edges_def succs_def)
  moreover have "set (getNextActions w a None) \<subseteq> set post" if "os = pre @ a # post" for pre a post
    using succs_later_split [of "succs w" pre a post] o(2) that by (simp add: succs_def)
  ultimately show ?thesis using o by simp
qed

text \<open>
  A workflow in which every action has an incoming connection has a cycle, but no entry point
  to reach it from: \<open>hasCycles\<close> says there is none, and the topological order is empty instead of
  \<open>null\<close>.
\<close>

theorem cycles_without_entry_missed:
  assumes "wf_actions w \<noteq> []" and "getEntryPoints w = []" and "distinct (map fst (wf_connections w))"
    and "fst ` set (wf_connections w) \<subseteq> ac_id ` set (wf_actions w)"
  shows "(\<exists>y. (y, y) \<in> {(a, b). b \<in> set (getNextActions w a None)}\<^sup>+) \<and> \<not> hasCycles w
    \<and> getTopologicalOrder w = Some []"
proof -
  have none: "\<not> hasCycles w" using assms(2) by (simp add: hasCycles_iff)
  then have topo: "getTopologicalOrder w = Some []"
    using assms(2) by (simp add: getTopologicalOrder_def)
  let ?E = "edges (succs w)" and ?A = "ac_id ` set (wf_actions w)"
  have dom: "a \<in> fst ` set (wf_connections w)" if "(a, b) \<in> ?E" for a b
    using that by (force simp: succs_iff dest: map_of_SomeD)
  have "?E \<subseteq> (fst ` set (wf_connections w)) \<times> set (all_targets w)"
    using dom succs_targets by fastforce
  then have fin: "finite ?E" by (rule finite_subset) simp
  have "\<not> acyclic ?E"
  proof
    assume "acyclic ?E"
    then have "wf ?E" by (rule finite_acyclic_wf [OF fin])
    moreover have "?A \<noteq> {}" using assms(1) by simp
    ultimately obtain a where a: "a \<in> ?A" "\<And>b. (b, a) \<in> ?E \<Longrightarrow> b \<notin> ?A"
      by (metis wfE_min ex_in_conv)
    have "a \<in> set (all_targets w)"
      using assms(2) a(1) by (auto simp: getEntryPoints_def filter_empty_conv)
    then obtain s u where su: "(s, u) \<in> set (wf_connections w)" "a \<in> set (targets_of all_types u)"
      by (auto simp: all_targets_def)
    then have "map_of (wf_connections w) s = Some u" by (simp add: assms(3))
    then have "(s, a) \<in> ?E" using su(2) by (simp add: succs_iff)
    moreover have "s \<in> ?A" using su(1) assms(4) by force
    ultimately show False using a(2) by blast
  qed
  then have "\<exists>y. (y, y) \<in> ?E\<^sup>+" by (auto simp: acyclic_def)
  moreover have "?E = {(a, b). b \<in> set (getNextActions w a None)}"
    by (simp add: edges_def succs_def)
  ultimately show ?thesis using none topo by simp
qed

section \<open>Examples\<close>

definition action_example :: "ident \<Rightarrow> Action" where
  "action_example i = \<lparr>ac_id = i, ac_type = ''CLICK'', ac_name = None, ac_config = JNull, ac_base = JUndef,
     ac_execution = JUndef, ac_position = Some [0, 0], ac_expectations = JUndef\<rparr>"

definition main_to :: "ident list \<Rightarrow> Outputs" where
  "main_to is = \<lparr>ou_main = Some [map (\<lambda>i. \<lparr>cn_action = i, cn_type = CMain, cn_index = 0, cn_edge = JUndef\<rparr>) is],
     ou_error = None, ou_success = None, ou_parallel = None\<rparr>"

definition workflow_example :: "ident list \<Rightarrow> (ident \<times> ident list) list \<Rightarrow> Workflow" where
  "workflow_example as cs = \<lparr>wf_id = ''w'', wf_name = ''w'', wf_version = ''1.0.0'', wf_format = ''graph'',
     wf_actions = map action_example as, wf_connections = map (\<lambda>(s, is). (s, main_to is)) cs,
     wf_category = None, wf_description = None, wf_initialScreenshotId = None,
     wf_initialStateIds = None, wf_variables = JUndef, wf_settings = JUndef, wf_metadata = None,
     wf_tags = JUndef, wf_expectations = JUndef\<rparr>"

lemmas graph_eval = workflow_example_def action_example_def main_to_def getEntryPoints_def
  all_targets_def targets_of_def all_types_def getNextActions_def getActionConnections_def
  succs_def uniq_def graph_fuel_def graph_nodes_def

definition diamond :: Workflow where
  "diamond = workflow_example [''a'', ''b'', ''c'', ''d'']
     [(''a'', [''b'', ''c'']), (''b'', [''d'']), (''c'', [''d''])]"

definition ring :: Workflow where
  "ring = workflow_example [''a'', ''b''] [(''a'', [''b'']), (''b'', [''a''])]"

theorem topological_order_correct_witness:
  "distinct [''a'', ''c'', ''b'', ''d'']
   \<and> set [''a'', ''c'', ''b'', ''d'']
       = {(a, b). b \<in> set (getNextActions diamond a None)}\<^sup>* `` set (getEntryPoints diamond)"
proof -
  have "getTopologicalOrder diamond = Some [''a'', ''c'', ''b'', ''d'']"
    by (simp add: getTopologicalOrder_def hasCycles_def diamond_def graph_eval)
  from topological_order_correct [OF this] show ?thesis by blast
qed

theorem cycles_without_entry_missed_witness:
  "(\<exists>y. (y, y) \<in> {(a, b). b \<in> set (getNextActions ring a None)}\<^sup>+) \<and> \<not> hasCycles ring
    \<and> getTopologicalOrder ring = Some []"
  by (rule cycles_without_entry_missed) (simp_all add: ring_def graph_eval)

end
