(* ===== verification/Workflow_Utils.thy ===== *)
theory Workflow_Utils
  imports Workflow_Graph "HOL-Library.AList"
begin

text \<open>
  The rest of frontend/src/lib/action-schema/workflow-utils.ts: merge nodes and orphans, depths,
  cloning, the conversion from and to the legacy process format, linear workflows and their
  layout. Generated identifiers and the creation time are arguments.
\<close>

section \<open>Graph analysis\<close>

text \<open>The counts in order of the first occurrence, as the \<open>Map\<close> of the code keeps them.\<close>

fun bump :: "ident \<Rightarrow> (ident \<times> nat) list \<Rightarrow> (ident \<times> nat) list" where
  "bump k m = AList.update k (Suc (case map_of m k of None \<Rightarrow> 0 | Some n \<Rightarrow> n)) m"

definition incomingCounts :: "Workflow \<Rightarrow> (ident \<times> nat) list" where
  "incomingCounts w = fold bump (all_targets w) []"

definition hasMergeNodes :: "Workflow \<Rightarrow> bool" where
  "hasMergeNodes w = list_ex (\<lambda>(k, n). n > 1) (incomingCounts w)"

definition findOrphanedActions :: "Workflow \<Rightarrow> ident list" where
  "findOrphanedActions w =
     (if length (wf_actions w) \<le> 1 then []
      else if wf_connections w = [] then map ac_id (wf_actions w)
      else filter (\<lambda>i. i \<notin> set (map fst (wf_connections w)) \<union> set (all_targets w))
             (map ac_id (wf_actions w)))"

definition getActionById :: "Workflow \<Rightarrow> ident \<Rightarrow> Action option" where
  "getActionById w actionId = find (\<lambda>a. ac_id a = actionId) (wf_actions w)"

definition getActionsByType :: "Workflow \<Rightarrow> string \<Rightarrow> Action list" where
  "getActionsByType w t = filter (\<lambda>a. ac_type a = t) (wf_actions w)"

section \<open>Depths\<close>

type_synonym 'v depth_state = "('v \<times> nat) list \<times> ('v \<times> nat) list"

text \<open>One successor: the depths so far and the queue.\<close>

definition relax :: "nat \<Rightarrow> 'v \<Rightarrow> 'v depth_state \<Rightarrow> 'v depth_state" where
  "relax newDepth b s =
     (case s of (depths, queue) \<Rightarrow>
        if (case map_of depths b of None \<Rightarrow> True | Some currentDepth \<Rightarrow> newDepth < currentDepth)
        then (AList.update b newDepth depths, queue @ [(b, newDepth)])
        else (depths, queue))"

fun depth_loop :: "('v \<Rightarrow> 'v list) \<Rightarrow> nat \<Rightarrow> 'v depth_state \<Rightarrow> ('v \<times> nat) list option" where
  "depth_loop succ fuel (depths, []) = Some depths"
| "depth_loop succ 0 (depths, q # queue) = None"
| "depth_loop succ (Suc n) (depths, (a, d) # queue) =
     depth_loop succ n (fold (relax (d + 1)) (succ a) (depths, queue))"

definition depth_start :: "ident list \<Rightarrow> ident depth_state" where
  "depth_start entries =
     (fold (\<lambda>i. AList.update i 0) entries [], map (\<lambda>i. (i, 0)) entries)"

definition calculateActionDepths :: "Workflow \<Rightarrow> (ident \<times> nat) list option" where
  "calculateActionDepths w =
     depth_loop (succs w) (length (wf_actions w) + length (graph_nodes w)) (depth_start (getEntryPoints w))"

section \<open>Cloning\<close>

text \<open>\<open>ids\<close> are the identifiers generated for the actions, \<open>generated\<close> the one for the workflow.\<close>

definition clone_idMap :: "Workflow \<Rightarrow> ident list \<Rightarrow> ident \<Rightarrow> ident option" where
  "clone_idMap w ids = foldl (\<lambda>m (a, n). m(ac_id a \<mapsto> n)) Map.empty (zip (wf_actions w) ids)"

definition clone_target :: "(ident \<Rightarrow> ident option) \<Rightarrow> ident \<Rightarrow> ident" where
  "clone_target idMap t = (case or_else (idMap t) (Some t) of None \<Rightarrow> t | Some n \<Rightarrow> n)"

definition clone_connection :: "(ident \<Rightarrow> ident option) \<Rightarrow> Connection \<Rightarrow> Connection" where
  "clone_connection idMap c = c\<lparr>cn_action := clone_target idMap (cn_action c)\<rparr>"

definition clone_outputs :: "(ident \<Rightarrow> ident option) \<Rightarrow> Outputs \<Rightarrow> Outputs" where
  "clone_outputs idMap u =
     (let f = map_option (map (map (clone_connection idMap)))
      in \<lparr>ou_main = f (ou_main u), ou_error = f (ou_error u), ou_success = f (ou_success u),
          ou_parallel = f (ou_parallel u)\<rparr>)"

definition clone_connections :: "(ident \<Rightarrow> ident option) \<Rightarrow> Connections \<Rightarrow> Connections" where
  "clone_connections idMap cs =
     fold (\<lambda>(oldSourceId, u) m.
       if truthy (idMap oldSourceId)
       then obj_set (the (idMap oldSourceId)) (clone_outputs idMap u) m else m) cs []"

definition cloneWorkflow :: "Workflow \<Rightarrow> ident list \<Rightarrow> ident option \<Rightarrow> ident \<Rightarrow> Workflow" where
  "cloneWorkflow w ids newWorkflowId generated =
     w\<lparr>wf_id := the (or_else newWorkflowId (Some generated)),
       wf_actions := map2 (\<lambda>a n. a\<lparr>ac_id := n\<rparr>) (wf_actions w) ids,
       wf_connections := clone_connections (clone_idMap w ids) (wf_connections w)\<rparr>"

section \<open>Linear workflows\<close>

definition nonempty :: "'a list option \<Rightarrow> bool" where
  "nonempty xs = (case xs of None \<Rightarrow> False | Some ys \<Rightarrow> ys \<noteq> [])"

definition linear_outputs :: "Outputs \<Rightarrow> bool" where
  "linear_outputs u =
     (\<not> nonempty (ou_error u) \<and> \<not> nonempty (ou_success u)
      \<and> (case ou_main u of None \<Rightarrow> True
         | Some main \<Rightarrow> length main \<le> 1 \<and> (main = [] \<or> length (hd main) \<le> 1)))"

definition isLinearWorkflow :: "Workflow \<Rightarrow> bool" where
  "isLinearWorkflow w = list_all (\<lambda>(s, u). linear_outputs u) (wf_connections w)"

text \<open>\<open>connections[i]?.main?.[0]\<close>\<close>

definition first_main :: "Outputs \<Rightarrow> Connection list" where
  "first_main u = (case ou_main u of None \<Rightarrow> [] | Some [] \<Rightarrow> [] | Some (out # _) \<Rightarrow> out)"

definition next_linear :: "Workflow \<Rightarrow> Action \<Rightarrow> Action option" where
  "next_linear w current =
     (case map_of (wf_connections w) (ac_id current) of
        None \<Rightarrow> None
      | Some u \<Rightarrow> (case first_main u of [] \<Rightarrow> None | conn # _ \<Rightarrow> getActionById w (cn_action conn)))"

lemma next_linear_in: "next_linear w a = Some b \<Longrightarrow> ac_id b \<in> ac_id ` set (wf_actions w)"
  by (auto simp: next_linear_def getActionById_def find_Some_iff split: option.splits list.splits)

text \<open>
  The loop along the chain. It ends because every round visits another identifier, of the current
  action or of the actions of the workflow.
\<close>

function follow_chain :: "Workflow \<Rightarrow> Action option \<Rightarrow> ident list \<Rightarrow> Action list" where
  "follow_chain w current visited =
     (case current of
        None \<Rightarrow> []
      | Some a \<Rightarrow>
          if ac_id a \<in> set visited then []
          else a # follow_chain w (next_linear w a) (ac_id a # visited))"
  by pat_completeness auto

termination
proof (relation "measure (\<lambda>(w, current, visited). card
    ((case current of None \<Rightarrow> {} | Some a \<Rightarrow> insert (ac_id a) (ac_id ` set (wf_actions w))) - set visited))")
  fix w :: Workflow and current visited and a :: Action
  assume a: "current = Some a" "ac_id a \<notin> set visited"
  let ?S = "insert (ac_id a) (ac_id ` set (wf_actions w)) - set visited"
  let ?T = "(case next_linear w a of None \<Rightarrow> {}
     | Some b \<Rightarrow> insert (ac_id b) (ac_id ` set (wf_actions w))) - set (ac_id a # visited)"
  have "?T \<subseteq> ?S - {ac_id a}"
    using next_linear_in [of w a] by (auto split: option.splits)
  moreover have "ac_id a \<in> ?S" using a by auto
  ultimately have "?T \<subset> ?S" by blast
  then have "card ?T < card ?S" by (intro psubset_card_mono) auto
  then show "((w, next_linear w a, ac_id a # visited), w, current, visited)
      \<in> measure (\<lambda>(w, current, visited). card
         ((case current of None \<Rightarrow> {} | Some a \<Rightarrow> insert (ac_id a) (ac_id ` set (wf_actions w))) - set visited))"
    using a by simp
qed simp

declare follow_chain.simps [simp del]

definition getLinearActionOrder :: "Workflow \<Rightarrow> Action list" where
  "getLinearActionOrder w =
     (if \<not> isLinearWorkflow w then []
      else if length (wf_actions w) \<le> 1 then wf_actions w
      else let incoming = concat (map (\<lambda>(s, u). map cn_action (first_main u)) (wf_connections w));
               entryActions = filter (\<lambda>a. ac_id a \<notin> set incoming) (wf_actions w)
           in case entryActions of
                [] \<Rightarrow> wf_actions w
              | a # _ \<Rightarrow> follow_chain w (Some a) [])"

definition detectViewMode :: "Workflow \<Rightarrow> ViewMode" where
  "detectViewMode w =
     (case Option.bind (wf_metadata w) md_viewMode of
        Some v \<Rightarrow> v
      | None \<Rightarrow> if isLinearWorkflow w then Sequential else Graph)"

section \<open>Creation and layout\<close>

definition createWorkflow ::
    "ident \<Rightarrow> string \<Rightarrow> string \<Rightarrow> string option \<Rightarrow> string option \<Rightarrow> ViewMode option \<Rightarrow> Workflow" where
  "createWorkflow generated now name category description viewMode =
     \<lparr>wf_id = generated, wf_name = name, wf_version = ''1.0.0'', wf_format = ''graph'',
      wf_actions = [], wf_connections = [],
      wf_category = or_else category (Some ''Main''), wf_description = or_else description (Some []),
      wf_initialScreenshotId = None, wf_initialStateIds = None, wf_variables = JUndef,
      wf_settings = JUndef,
      wf_metadata = Some \<lparr>md_viewMode = Some (case viewMode of None \<Rightarrow> Sequential | Some v \<Rightarrow> v),
                          md_created = Some now, md_other = JUndef\<rparr>,
      wf_tags = JUndef, wf_expectations = JUndef\<rparr>"

definition autoLayoutVertical :: "Workflow \<Rightarrow> Workflow" where
  "autoLayoutVertical w =
     (let orderedActions = (if isLinearWorkflow w then getLinearActionOrder w else wf_actions w)
      in w\<lparr>wf_actions := map2 (\<lambda>index a. a\<lparr>ac_position := Some [100, 100 + of_nat index * 150]\<rparr>)
             [0..<length orderedActions] orderedActions\<rparr>)"

definition has_position :: "Action \<Rightarrow> bool" where
  "has_position a = (case ac_position a of None \<Rightarrow> False | Some p \<Rightarrow> length p = 2)"

definition ensurePositions :: "Workflow \<Rightarrow> Workflow" where
  "ensurePositions w =
     (if list_all has_position (wf_actions w) then w
      else w\<lparr>wf_actions := map2 (\<lambda>index a. if has_position a then a
                else a\<lparr>ac_position := Some [100 + of_nat (index mod 5) * 250, 100 + of_nat (index div 5) * 150]\<rparr>)
             [0..<length (wf_actions w)] (wf_actions w)\<rparr>)"

definition link_to :: "ident \<Rightarrow> Outputs" where
  "link_to i = \<lparr>ou_main = Some [[\<lparr>cn_action = i, cn_type = CMain, cn_index = 0, cn_edge = JUndef\<rparr>]],
     ou_error = None, ou_success = None, ou_parallel = None\<rparr>"

fun link_chain :: "ident list \<Rightarrow> Connections \<Rightarrow> Connections" where
  "link_chain (a # b # rest) m = link_chain (b # rest) (obj_set a (link_to b) m)"
| "link_chain _ m = m"

definition buildLinearConnections :: "Action list \<Rightarrow> Connections" where
  "buildLinearConnections actions = link_chain (map ac_id actions) []"

section \<open>The legacy process format\<close>

record LegacyAction =
  la_id :: ident
  la_type :: string
  la_config :: json

record LegacyProcess =
  lp_id :: ident
  lp_name :: string
  lp_description :: string
  lp_category :: "string option"
  lp_actions :: "LegacyAction list"
  lp_initialScreenshotId :: "ident option"
  lp_initialStateIds :: "ident list option"

definition legacy_action :: "nat \<Rightarrow> LegacyAction \<Rightarrow> Action" where
  "legacy_action index a =
     \<lparr>ac_id = la_id a, ac_type = la_type a, ac_name = None, ac_config = la_config a, ac_base = JUndef,
      ac_execution = JUndef, ac_position = Some [100, 100 + of_nat index * 150],
      ac_expectations = JUndef\<rparr>"

definition processToWorkflow :: "string \<Rightarrow> LegacyProcess \<Rightarrow> Workflow" where
  "processToWorkflow now p =
     \<lparr>wf_id = lp_id p, wf_name = lp_name p, wf_version = ''1.0.0'', wf_format = ''graph'',
      wf_actions = map2 legacy_action [0..<length (lp_actions p)] (lp_actions p),
      wf_connections = link_chain (map la_id (lp_actions p)) [],
      wf_category = lp_category p, wf_description = Some (lp_description p),
      wf_initialScreenshotId = lp_initialScreenshotId p, wf_initialStateIds = lp_initialStateIds p,
      wf_variables = JUndef, wf_settings = JUndef,
      wf_metadata = Some \<lparr>md_viewMode = Some Sequential, md_created = Some now, md_other = JUndef\<rparr>,
      wf_tags = JUndef, wf_expectations = JUndef\<rparr>"

definition workflowToProcess :: "Workflow \<Rightarrow> LegacyProcess option" where
  "workflowToProcess w =
     (if \<not> isLinearWorkflow w then None
      else Some \<lparr>lp_id = wf_id w, lp_name = wf_name w,
                 lp_description = (case wf_description w of None \<Rightarrow> [] | Some d \<Rightarrow> d),
                 lp_category = wf_category w,
                 lp_actions = map (\<lambda>a. \<lparr>la_id = ac_id a, la_type = ac_type a, la_config = ac_config a\<rparr>)
                   (getLinearActionOrder w),
                 lp_initialScreenshotId = wf_initialScreenshotId w,
                 lp_initialStateIds = wf_initialStateIds w\<rparr>)"

section \<open>Merge nodes\<close>

lemma map_of_bump: "map_of (bump k m) = (map_of m)(k \<mapsto> Suc (case map_of m k of None \<Rightarrow> 0 | Some n \<Rightarrow> n))"
  by (simp add: update_conv')

lemma keys_bump: "distinct (map fst m) \<Longrightarrow> distinct (map fst (bump k m))"
  by (simp add: distinct_update)

lemma bumps_count:
  "distinct (map fst m) \<Longrightarrow> distinct (map fst (fold bump xs m))
    \<and> map_of (fold bump xs m) k =
      (case map_of m k of None \<Rightarrow> (if k \<in> set xs then Some (count_list xs k) else None)
       | Some n \<Rightarrow> Some (n + count_list xs k))"
proof (induction xs arbitrary: m)
  case Nil
  then show ?case by (simp split: option.splits)
next
  case (Cons x xs)
  show ?case
    using Cons.IH [OF keys_bump [OF Cons.prems, of x]]
    by (simp add: map_of_bump del: bump.simps split: option.splits)
qed

lemma incomingCounts_iff:
  "(k, n) \<in> set (incomingCounts w) \<longleftrightarrow> k \<in> set (all_targets w) \<and> n = count_list (all_targets w) k"
  using bumps_count [of "[]" "all_targets w" k]
  by (auto simp: incomingCounts_def map_of_eq_Some_iff [symmetric] split: if_splits)

lemma count_list_distinct: "distinct xs \<longleftrightarrow> (\<forall>k \<in> set xs. count_list xs k \<le> 1)"
proof (induction xs)
  case (Cons x xs)
  have "count_list xs x = 0 \<longleftrightarrow> x \<notin> set xs" by (rule count_list_0_iff)
  with Cons show ?case by auto
qed simp

lemma hasMergeNodes_iff: "hasMergeNodes w \<longleftrightarrow> \<not> distinct (all_targets w)"
  by (auto simp: hasMergeNodes_def list_ex_iff incomingCounts_iff count_list_distinct not_le)

section \<open>Depths are distances\<close>

text \<open>
  The queue of a breadth-first search: its depths never decrease and the last is at most one more
  than the first, every entry has the depth that the table has for it, and no depth of the table
  is more than one above the first. So an action is put into the queue only once.
\<close>

locale finite_depths = finite_graph succ nodes for succ :: "'v \<Rightarrow> 'v list" and nodes +
  fixes entries :: "'v list"
  assumes entries_nodes: "set entries \<subseteq> set nodes"
begin

definition walk :: "nat \<Rightarrow> 'v \<Rightarrow> bool" where
  "walk n a \<longleftrightarrow> (\<exists>e \<in> set entries. (e, a) \<in> edges succ ^^ n)"

lemma walk_0: "walk 0 a \<longleftrightarrow> a \<in> set entries"
  by (simp add: walk_def)

lemma walk_Suc: "walk n a \<Longrightarrow> b \<in> set (succ a) \<Longrightarrow> walk (Suc n) b"
  by (meson walk_def relpow_Suc_I edges_iff)

lemma walk_SucE:
  assumes "walk (Suc n) b"
  obtains a where "walk n a" "b \<in> set (succ a)"
  using assms by (meson walk_def relpow_Suc_E edges_iff)

definition table_ok :: "('v \<times> nat) list \<Rightarrow> bool" where
  "table_ok ds \<longleftrightarrow> (\<forall>a d. map_of ds a = Some d \<longrightarrow> walk d a) \<and> (\<forall>e \<in> set entries. map_of ds e = Some 0)"

definition settled :: "('v \<times> nat) list \<Rightarrow> 'v \<Rightarrow> bool" where
  "settled ds a \<longleftrightarrow> (\<forall>b \<in> set (succ a). \<exists>n. map_of ds b = Some n \<and> n \<le> Suc (the (map_of ds a)))"

text \<open>\<open>d\<close> is the depth of the first element of the queue, or any bound when it is empty.\<close>

definition queue_ok :: "nat \<Rightarrow> ('v \<times> nat) list \<Rightarrow> ('v \<times> nat) list \<Rightarrow> bool" where
  "queue_ok d ds q \<longleftrightarrow> sorted (map snd q) \<and> (\<forall>(a, n) \<in> set q. map_of ds a = Some n \<and> d \<le> n)
     \<and> (\<forall>a n. map_of ds a = Some n \<longrightarrow> n \<le> Suc d)"

lemma relax_known: "map_of ds b = Some n \<Longrightarrow> n \<le> Suc d \<Longrightarrow> relax (Suc d) b (ds, q) = (ds, q)"
  by (simp add: relax_def)

lemma relax_new:
  "map_of ds b = None \<Longrightarrow> relax (Suc d) b (ds, q) = (AList.update b (Suc d) ds, q @ [(b, Suc d)])"
  by (simp add: relax_def)

lemma relax_step:
  assumes "queue_ok d ds q" and "table_ok ds" and "walk d a" and "b \<in> set (succ a)"
    and "relax (Suc d) b (ds, q) = (ds', q')"
  shows "queue_ok d ds' q' \<and> table_ok ds' \<and> (\<forall>x n. map_of ds x = Some n \<longrightarrow> map_of ds' x = Some n)
    \<and> (\<exists>n. map_of ds' b = Some n \<and> n \<le> Suc d)
    \<and> set q' = set q \<union> {(x, n). map_of ds x = None \<and> map_of ds' x = Some n}
    \<and> dom (map_of ds') \<subseteq> insert b (dom (map_of ds))
    \<and> length q' + card (set nodes - dom (map_of ds')) = length q + card (set nodes - dom (map_of ds))"
proof (cases "map_of ds b")
  case None
  have b: "b \<in> set nodes" using assms(4) succ_nodes by blast
  have ds': "map_of ds' = (map_of ds)(b \<mapsto> Suc d)" "q' = q @ [(b, Suc d)]"
    using assms(5) None by (auto simp: relax_new update_conv')
  have "sorted (map snd q @ [Suc d])"
    using assms(1) by (fastforce simp: queue_ok_def sorted_append)
  then have "queue_ok d ds' q'"
    using assms(1) None by (fastforce simp: queue_ok_def ds')
  moreover have "table_ok ds'"
    using assms(2,3,4) None walk_Suc by (auto simp: table_ok_def ds')
  moreover have "card (set nodes - dom (map_of ds)) = Suc (card (set nodes - dom (map_of ds')))"
  proof -
    have "set nodes - dom (map_of ds) = insert b (set nodes - dom (map_of ds'))"
      using b None by (auto simp: ds')
    moreover have "b \<notin> set nodes - dom (map_of ds')" by (auto simp: ds')
    moreover have "finite (set nodes - dom (map_of ds'))" by blast
    ultimately show ?thesis by (metis card_insert_disjoint)
  qed
  moreover have "set q' = set q \<union> {(x, n). map_of ds x = None \<and> map_of ds' x = Some n}"
    using None by (auto simp: ds' split: if_splits)
  moreover have "\<forall>x n. map_of ds x = Some n \<longrightarrow> map_of ds' x = Some n"
    using None by (simp add: ds')
  moreover have "dom (map_of ds') \<subseteq> insert b (dom (map_of ds))" "map_of ds' b = Some (Suc d)"
    "length q' = Suc (length q)"
    by (simp_all add: ds')
  ultimately show ?thesis by simp
next
  case (Some n)
  moreover from this have "n \<le> Suc d" using assms(1) by (auto simp: queue_ok_def)
  ultimately have "ds' = ds" "q' = q" using assms(5) by (auto simp: relax_known)
  with assms Some \<open>n \<le> Suc d\<close> show ?thesis by auto
qed

text \<open>All successors of the first element of the queue.\<close>

lemma relax_all:
  assumes "queue_ok d ds q" and "table_ok ds" and "walk d a" and "set bs \<subseteq> set (succ a)"
    and "fold (relax (Suc d)) bs (ds, q) = (ds', q')"
  shows "queue_ok d ds' q' \<and> table_ok ds' \<and> (\<forall>x n. map_of ds x = Some n \<longrightarrow> map_of ds' x = Some n)
    \<and> (\<forall>b \<in> set bs. \<exists>n. map_of ds' b = Some n \<and> n \<le> Suc d)
    \<and> set q' = set q \<union> {(x, n). map_of ds x = None \<and> map_of ds' x = Some n}
    \<and> length q' + card (set nodes - dom (map_of ds')) = length q + card (set nodes - dom (map_of ds))"
  using assms
proof (induction bs arbitrary: ds q)
  case Nil
  then show ?case by auto
next
  case (Cons b bs)
  obtain ds1 q1 where one: "relax (Suc d) b (ds, q) = (ds1, q1)" by fastforce
  have b: "b \<in> set (succ a)" using Cons.prems(4) by simp
  note r = relax_step [OF Cons.prems(1-3) b one]
  have rest: "fold (relax (Suc d)) bs (ds1, q1) = (ds', q')"
    using Cons.prems(5) one by simp
  have p: "queue_ok d ds1 q1" "table_ok ds1" "set bs \<subseteq> set (succ a)"
    using r Cons.prems(4) by simp_all
  note i = Cons.IH [OF p(1,2) Cons.prems(3) p(3) rest]
  have mono: "\<forall>x n. map_of ds x = Some n \<longrightarrow> map_of ds1 x = Some n" using r by blast
  have mono': "\<forall>x n. map_of ds1 x = Some n \<longrightarrow> map_of ds' x = Some n" using i by blast
  have "{(x, n). map_of ds x = None \<and> map_of ds1 x = Some n}
      \<union> {(x, n). map_of ds1 x = None \<and> map_of ds' x = Some n}
      = {(x, n). map_of ds x = None \<and> map_of ds' x = Some n}" (is "?A \<union> ?B = ?C")
    using mono mono' by auto (metis not_None_eq option.inject)+
  moreover have "set q1 = set q \<union> ?A" using r by (elim conjE)
  moreover have "set q' = set q1 \<union> ?B" using i by (elim conjE)
  ultimately have queue: "set q' = set q \<union> ?C" by (simp only: Un_assoc)
  have found: "\<exists>n. map_of ds' c = Some n \<and> n \<le> Suc d" if "c \<in> set (b # bs)" for c
    using that r i mono' by (metis set_ConsD)
  have count: "length q' + card (set nodes - dom (map_of ds')) = length q + card (set nodes - dom (map_of ds))"
  proof -
    have "length q' + card (set nodes - dom (map_of ds')) = length q1 + card (set nodes - dom (map_of ds1))"
      using i by (elim conjE)
    also have "\<dots> = length q + card (set nodes - dom (map_of ds))"
      using r by (elim conjE)
    finally show ?thesis .
  qed
  have "queue_ok d ds' q'" using i by (elim conjE)
  moreover have "table_ok ds'" using i by (elim conjE)
  moreover have "\<forall>x n. map_of ds x = Some n \<longrightarrow> map_of ds' x = Some n" using mono mono' by blast
  moreover have "\<forall>c \<in> set (b # bs). \<exists>n. map_of ds' c = Some n \<and> n \<le> Suc d" using found by blast
  ultimately show ?case using queue count by (intro conjI)
qed

lemma depth_loop_returns:
  assumes "queue_ok d ds q" and "table_ok ds"
    and "\<forall>a \<in> dom (map_of ds). (\<exists>n. (a, n) \<in> set q) \<or> settled ds a"
    and "length q + card (set nodes - dom (map_of ds)) \<le> fuel"
  shows "\<exists>ds'. depth_loop succ fuel (ds, q) = Some ds' \<and> table_ok ds' \<and> (\<forall>a \<in> dom (map_of ds'). settled ds' a)"
  using assms
proof (induction fuel arbitrary: d ds q)
  case 0
  then show ?case by auto
next
  case (Suc fuel)
  show ?case
  proof (cases q)
    case Nil
    then show ?thesis using Suc.prems by auto
  next
    case (Cons p rest)
    obtain a n where q: "q = (a, n) # rest" using Cons by (cases p) auto
    have at: "map_of ds a = Some n" "d \<le> n" using Suc.prems(1) q by (auto simp: queue_ok_def)
    then have walk: "walk n a" using Suc.prems(2) by (simp add: table_ok_def)
    have rest_ok: "queue_ok n ds rest"
      using Suc.prems(1) q at(2) by (fastforce simp: queue_ok_def)
    obtain ds' q' where f: "fold (relax (Suc n)) (succ a) (ds, rest) = (ds', q')" by fastforce
    note r = relax_all [OF rest_ok Suc.prems(2) walk subset_refl f]
    have mono: "map_of ds x = Some m \<Longrightarrow> map_of ds' x = Some m" for x m using r by blast
    have "(\<exists>m. (x, m) \<in> set q') \<or> settled ds' x" if "x \<in> dom (map_of ds')" for x
    proof (cases "map_of ds x")
      case None
      then show ?thesis using r that by auto
    next
      case (Some m)
      then have "(\<exists>k. (x, k) \<in> set q) \<or> settled ds x" using Suc.prems(3) by blast
      moreover have "settled ds' x" if "settled ds x"
        using that Some mono [OF Some] mono by (fastforce simp: settled_def)
      moreover have "settled ds' a" using r mono [OF at(1)] by (auto simp: settled_def)
      ultimately show ?thesis using q r by auto
    qed
    moreover have "length q' + card (set nodes - dom (map_of ds')) \<le> fuel"
      using r Suc.prems(4) q by simp
    ultimately have "\<exists>ds2. depth_loop succ fuel (ds', q') = Some ds2 \<and> table_ok ds2
        \<and> (\<forall>a \<in> dom (map_of ds2). settled ds2 a)"
      using Suc.IH [of n ds' q'] r by blast
    then show ?thesis using q f by simp
  qed
qed

text \<open>A settled table has every distance.\<close>

lemma settled_walk:
  assumes "table_ok ds" and "\<forall>a \<in> dom (map_of ds). settled ds a"
  shows "walk n a \<Longrightarrow> \<exists>m \<le> n. map_of ds a = Some m"
proof (induction n arbitrary: a)
  case 0
  then show ?case using assms(1) by (auto simp: table_ok_def walk_0)
next
  case (Suc n)
  from Suc.prems obtain c where c: "walk n c" "a \<in> set (succ c)" by (rule walk_SucE)
  then obtain m where m: "m \<le> n" "map_of ds c = Some m" using Suc.IH by blast
  then have "settled ds c" using assms(2) by blast
  then show ?case using c(2) m by (fastforce simp: settled_def)
qed

lemma settled_distance:
  assumes "table_ok ds" and "\<forall>a \<in> dom (map_of ds). settled ds a"
  shows "map_of ds a = (if \<exists>n. walk n a then Some (LEAST n. walk n a) else None)"
proof (cases "map_of ds a")
  case None
  then show ?thesis using settled_walk [OF assms, of _ a] by auto
next
  case (Some d)
  then have "walk d a" using assms(1) by (simp add: table_ok_def)
  moreover have "d \<le> n" if "walk n a" for n using settled_walk [OF assms that] Some by auto
  ultimately have "(LEAST n. walk n a) = d" by (intro Least_equality)
  with Some \<open>walk d a\<close> show ?thesis by auto
qed

end

interpretation wd: finite_depths "succs w" "graph_nodes w" "getEntryPoints w" for w
  by unfold_locales (rule entry_nodes)

lemma depth_start_table:
  "map_of (fold (\<lambda>i. AList.update i 0) es ds) a = (if a \<in> set es then Some 0 else map_of ds a)"
  by (induction es arbitrary: ds) (auto simp: update_conv')

lemma length_filter_map: "length (filter P (map f xs)) \<le> length xs"
  by (metis length_filter_le length_map)

text \<open>
  C25: \<open>calculateActionDepths\<close> returns for every action the length of the shortest path from an
  entry point to it, and nothing for the actions that no entry point leads to.
\<close>

theorem depths_are_distances:
  "\<exists>ds. calculateActionDepths w = Some ds
     \<and> map_of ds = (\<lambda>a. if \<exists>n e. e \<in> set (getEntryPoints w)
                             \<and> (e, a) \<in> {(a, b). b \<in> set (getNextActions w a None)} ^^ n
                        then Some (LEAST n. \<exists>e. e \<in> set (getEntryPoints w)
                             \<and> (e, a) \<in> {(a, b). b \<in> set (getNextActions w a None)} ^^ n)
                        else None)"
proof -
  let ?es = "getEntryPoints w"
  obtain ds q where start: "depth_start ?es = (ds, q)" by fastforce
  have ds: "map_of ds a = (if a \<in> set ?es then Some 0 else None)" for a
    using start depth_start_table [of ?es "[]" a] by (auto simp: depth_start_def)
  have q: "q = map (\<lambda>i. (i, 0)) ?es"
    using start by (simp add: depth_start_def)
  have queue: "wd.queue_ok 0 ds q"
    using ds q by (auto simp: wd.queue_ok_def sorted_wrt_map comp_def split: if_splits)
  have table: "wd.table_ok w ds"
    using ds by (auto simp: wd.table_ok_def wd.walk_0 split: if_splits)
  have "length ?es \<le> length (wf_actions w)"
    by (simp add: getEntryPoints_def length_filter_map)
  moreover have "card (set (graph_nodes w) - dom (map_of ds)) \<le> length (graph_nodes w)"
    by (meson List.finite_set card_length card_mono Diff_subset le_trans)
  ultimately have fuel: "length q + card (set (graph_nodes w) - dom (map_of ds))
      \<le> length (wf_actions w) + length (graph_nodes w)"
    using q by simp
  have "\<forall>a \<in> dom (map_of ds). (\<exists>n. (a, n) \<in> set q) \<or> wd.settled w ds a"
    using ds q by (force split: if_splits)
  then obtain ds' where r: "calculateActionDepths w = Some ds'" "wd.table_ok w ds'"
      "\<forall>a \<in> dom (map_of ds'). wd.settled w ds' a"
    using wd.depth_loop_returns [OF queue table _ fuel] start unfolding calculateActionDepths_def by auto
  have "edges (succs w) = {(a, b). b \<in> set (getNextActions w a None)}"
    by (simp add: edges_def succs_def)
  then have walk: "wd.walk w n a = (\<exists>e. e \<in> set ?es
      \<and> (e, a) \<in> {(a, b). b \<in> set (getNextActions w a None)} ^^ n)" for n a
    by (auto simp: wd.walk_def)
  show ?thesis
    using r(1) wd.settled_distance [OF r(2,3)] by (intro exI [of _ ds'] conjI ext) (simp_all add: walk)
qed

section \<open>The round trip through the legacy format\<close>

lemma set_obj_set: "set (obj_set k v m) \<subseteq> insert (k, v) (set m)"
  by (induction m) (auto split: if_splits)

lemma link_chain_values:
  "(s, u) \<in> set (link_chain is m) \<Longrightarrow> (s, u) \<in> set m \<or> (\<exists>b \<in> set (tl is). u = link_to b)"
proof (induction "is" m rule: link_chain.induct)
  case (1 a b rest m)
  then show ?case using set_obj_set [of a "link_to b" m] by auto
qed auto

lemma link_chain_other:
  "x \<notin> set (butlast is) \<Longrightarrow> map_of (link_chain is m) x = map_of m x"
  by (induction "is" m rule: link_chain.induct) auto

lemma link_chain_nth:
  "distinct is \<Longrightarrow> Suc i < length is \<Longrightarrow> map_of (link_chain is m) (is ! i) = Some (link_to (is ! Suc i))"
proof (induction "is" m arbitrary: i rule: link_chain.induct)
  case (1 a b rest m)
  show ?case
  proof (cases i)
    case 0
    have "a \<notin> set (butlast (b # rest))" using 1(2) in_set_butlastD [of a "b # rest"] by auto
    with 0 show ?thesis by (simp add: link_chain_other)
  next
    case (Suc j)
    with 1 show ?thesis by simp
  qed
qed auto

lemma linear_link [simp]: "linear_outputs (link_to b)"
  by (simp add: linear_outputs_def link_to_def nonempty_def)

lemma first_main_link [simp]: "map cn_action (first_main (link_to b)) = [b]"
  by (simp add: first_main_def link_to_def)

lemma find_nth_id:
  assumes "distinct (map ac_id as)" and "i < length as"
  shows "find (\<lambda>a. ac_id a = ac_id (as ! i)) as = Some (as ! i)"
  using assms
proof (induction as arbitrary: i)
  case (Cons a as)
  then show ?case by (cases i) auto
qed simp

lemma follow_linked:
  assumes "distinct (map ac_id (wf_actions w))"
    and "wf_connections w = link_chain (map ac_id (wf_actions w)) []"
  shows "i < length (wf_actions w) \<Longrightarrow> set vis = ac_id ` set (take i (wf_actions w))
    \<Longrightarrow> follow_chain w (Some (wf_actions w ! i)) vis = drop i (wf_actions w)"
proof (induction "length (wf_actions w) - i" arbitrary: i vis)
  case 0
  then show ?case by simp
next
  case (Suc n)
  let ?as = "wf_actions w"
  have new: "ac_id (?as ! i) \<notin> set vis"
    using assms(1) Suc.prems
    by (auto simp: in_set_conv_nth distinct_conv_nth)
  have vis: "set (ac_id (?as ! i) # vis) = ac_id ` set (take (Suc i) ?as)"
    using Suc.prems by (simp add: take_Suc_conv_app_nth)
  show ?case
  proof (cases "Suc i < length ?as")
    case True
    then have "map_of (wf_connections w) (ac_id (?as ! i)) = Some (link_to (ac_id (?as ! Suc i)))"
      using link_chain_nth [OF assms(1), of i "[]"] assms(2) by simp
    then have "next_linear w (?as ! i) = Some (?as ! Suc i)"
      using find_nth_id [OF assms(1) True]
      by (simp add: next_linear_def first_main_def link_to_def getActionById_def)
    moreover have "follow_chain w (Some (?as ! Suc i)) (ac_id (?as ! i) # vis) = drop (Suc i) ?as"
      by (rule Suc.hyps(1)) (use Suc.hyps(2) True vis in simp_all)
    ultimately show ?thesis
      using new Suc.prems(1) by (subst follow_chain.simps) (simp add: Cons_nth_drop_Suc)
  next
    case False
    then have i: "i = length ?as - 1" "?as \<noteq> []" using Suc.prems(1) by auto
    have "ac_id (?as ! i) \<notin> set (butlast (map ac_id ?as))"
      using assms(1) i by (metis distinct_butlast last_conv_nth last_map append_butlast_last_id
          distinct_append disjoint_insert(1) list.set(2) list.set_intros(1) disjoint_iff map_is_Nil_conv)
    then have "map_of (wf_connections w) (ac_id (?as ! i)) = None"
      using assms(2) by (simp add: link_chain_other)
    then have "next_linear w (?as ! i) = None" by (simp add: next_linear_def)
    then show ?thesis
      using new i by (subst follow_chain.simps) (simp add: follow_chain.simps [of w None] Cons_nth_drop_Suc [symmetric])
  qed
qed

lemma linked_order:
  assumes "distinct (map ac_id (wf_actions w))"
    and "wf_connections w = link_chain (map ac_id (wf_actions w)) []"
  shows "isLinearWorkflow w \<and> getLinearActionOrder w = wf_actions w"
proof -
  have vals: "\<exists>b \<in> set (tl (map ac_id (wf_actions w))). u = link_to b"
    if "(s, u) \<in> set (wf_connections w)" for s u
    using link_chain_values [of s u "map ac_id (wf_actions w)" "[]"] that assms(2) by simp
  then have lin: "isLinearWorkflow w" by (fastforce simp: isLinearWorkflow_def list_all_iff)
  show ?thesis
  proof (cases "length (wf_actions w) \<le> 1")
    case True
    with lin show ?thesis by (simp add: getLinearActionOrder_def)
  next
    case False
    then obtain a as where as: "wf_actions w = a # as" by (cases "wf_actions w") auto
    let ?incoming = "concat (map (\<lambda>(s, u). map cn_action (first_main u)) (wf_connections w))"
    have "set (map cn_action (first_main u)) \<subseteq> set (map ac_id as)" if "(s, u) \<in> set (wf_connections w)" for s u
    proof -
      have "\<exists>b \<in> set (tl (map ac_id (wf_actions w))). u = link_to b" by (rule vals [OF that])
      then show ?thesis using as by (auto simp del: set_map)
    qed
    then have "set ?incoming \<subseteq> set (map ac_id as)" by fastforce
    then have "ac_id a \<notin> set ?incoming" using assms(1) as by auto
    then have "filter (\<lambda>x. ac_id x \<notin> set ?incoming) (wf_actions w)
        = a # filter (\<lambda>x. ac_id x \<notin> set ?incoming) as"
      using as by simp
    then have "getLinearActionOrder w = follow_chain w (Some a) []"
      using lin False unfolding getLinearActionOrder_def Let_def by simp
    also have "\<dots> = wf_actions w"
      using follow_linked [OF assms, of 0 "[]"] as by simp
    finally show ?thesis using lin by simp
  qed
qed

lemma map2_index: "map2 f [0..<length xs] xs = map (\<lambda>i. f i (xs ! i)) [0..<length xs]"
  by (rule nth_equalityI) simp_all

text \<open>
  a legacy process survives the conversion to a workflow and back, when its actions have
  distinct identifiers: the workflow it becomes is linear, and its actions are read back in order.
\<close>

theorem process_round_trip:
  assumes "distinct (map la_id (lp_actions p))"
  shows "workflowToProcess (processToWorkflow now p) = Some p"
proof -
  let ?w = "processToWorkflow now p"
  have "map ac_id (wf_actions ?w) = map la_id (lp_actions p)"
    by (rule nth_equalityI) (simp_all add: processToWorkflow_def legacy_action_def)
  then have "isLinearWorkflow ?w \<and> getLinearActionOrder ?w = wf_actions ?w"
    by (intro linked_order) (use assms in \<open>simp_all add: processToWorkflow_def\<close>)
  moreover have "map (\<lambda>a. \<lparr>la_id = ac_id a, la_type = ac_type a, la_config = ac_config a\<rparr>) (wf_actions ?w)
      = lp_actions p"
    by (rule nth_equalityI) (simp_all add: processToWorkflow_def legacy_action_def)
  ultimately show ?thesis
    by (simp add: workflowToProcess_def) (simp add: processToWorkflow_def)
qed

theorem process_round_trip_witness:
  "workflowToProcess (processToWorkflow ''now'' \<lparr>lp_id = ''p'', lp_name = ''p'', lp_description = ''d'',
      lp_category = None, lp_actions = [\<lparr>la_id = ''2'', la_type = ''CLICK'', la_config = JNull\<rparr>,
        \<lparr>la_id = ''1'', la_type = ''TYPE'', la_config = JNum 3\<rparr>],
      lp_initialScreenshotId = None, lp_initialStateIds = None\<rparr>)
   = Some \<lparr>lp_id = ''p'', lp_name = ''p'', lp_description = ''d'',
      lp_category = None, lp_actions = [\<lparr>la_id = ''2'', la_type = ''CLICK'', la_config = JNull\<rparr>,
        \<lparr>la_id = ''1'', la_type = ''TYPE'', la_config = JNum 3\<rparr>],
      lp_initialScreenshotId = None, lp_initialStateIds = None\<rparr>"
  by (rule process_round_trip) simp

section \<open>Actions outside the chain\<close>

text \<open>
  \<open>autoLayoutVertical\<close> deletes actions. In a workflow without connections, which counts as
  linear, only the first action is on the chain, so the workflow it returns has lost all others.
\<close>

theorem auto_layout_drops_unconnected:
  assumes "wf_actions w = a # rest" and "wf_connections w = []" and "rest \<noteq> []"
  shows "map ac_id (wf_actions (autoLayoutVertical w)) = [ac_id a]"
proof -
  have lin: "isLinearWorkflow w" using assms(2) by (simp add: isLinearWorkflow_def)
  have "next_linear w a = None" using assms(2) by (simp add: next_linear_def)
  then have "follow_chain w (Some a) [] = [a]"
    by (subst follow_chain.simps) (simp add: follow_chain.simps [of w None])
  then have "getLinearActionOrder w = [a]"
    using lin assms by (cases rest) (simp_all add: getLinearActionOrder_def)
  then show ?thesis using lin by (simp add: autoLayoutVertical_def)
qed

theorem auto_layout_drops_unconnected_witness:
  "map ac_id (wf_actions (autoLayoutVertical (workflow_example [''a'', ''b'', ''c''] []))) = [''a'']"
  using auto_layout_drops_unconnected [of "workflow_example [''a'', ''b'', ''c''] []" "action_example ''a''"
      "[action_example ''b'', action_example ''c'']"]
  by (simp add: workflow_example_def) (simp add: action_example_def)

section \<open>Clones\<close>

lemma foldl_zip_map:
  "distinct (map ac_id as) \<Longrightarrow> length ids = length as
     \<Longrightarrow> foldl (\<lambda>m (a, n). m(ac_id a \<mapsto> n)) m (zip as ids) = m ++ map_of (zip (map ac_id as) ids)"
proof (induction as arbitrary: ids m)
  case (Cons a as)
  then obtain n ns where "ids = n # ns" by (cases ids) auto
  moreover have "map_of (zip (map ac_id as) ns) (ac_id a) = None" if "length ns = length as" for ns :: "ident list"
    using Cons.prems that by (simp add: map_of_zip_is_None)
  ultimately show ?case
    using Cons by (auto simp: map_add_def fun_eq_iff split: option.splits dest: set_zip_leftD)
qed simp

lemma clone_idMap_eq:
  assumes "distinct (map ac_id (wf_actions w))" and "length ids = length (wf_actions w)"
  shows "clone_idMap w ids = map_of (zip (map ac_id (wf_actions w)) ids)"
  using foldl_zip_map [OF assms, of Map.empty] by (simp add: clone_idMap_def)

lemma clone_outputs_at: "output_of (clone_outputs M u) t = map (map (clone_connection M)) (output_of u t)"
  by (cases t) (simp_all add: clone_outputs_def Let_def split: option.splits)

lemma clone_outputs_targets:
  "targets_of ts (clone_outputs M u) = map (clone_target M) (targets_of ts u)"
proof -
  have "map (output_of (clone_outputs M u)) ts = map (map (map (clone_connection M))) (map (output_of u) ts)"
    by (simp add: clone_outputs_at)
  then have "concat (concat (map (output_of (clone_outputs M u)) ts))
      = map (clone_connection M) (concat (concat (map (output_of u) ts)))"
    by (simp only: map_concat [symmetric])
  then show ?thesis by (simp add: targets_of_def clone_connection_def)
qed

lemma clone_connections_map:
  assumes "inj_on (\<lambda>k. the (M k)) K" and "\<forall>k \<in> K. truthy (M k)" and "k \<in> K"
  shows "fst ` set cs \<subseteq> K \<Longrightarrow> distinct (map fst cs) \<Longrightarrow>
   map_of (fold (\<lambda>(s, u) m. if truthy (M s) then obj_set (the (M s)) (clone_outputs M u) m else m) cs m)
      (the (M k))
    = (case map_of cs k of Some u \<Rightarrow> Some (clone_outputs M u) | None \<Rightarrow> map_of m (the (M k)))"
proof (induction cs arbitrary: m)
  case (Cons p cs)
  obtain s u where p: "p = (s, u)" by (cases p)
  have s: "s \<in> K" "truthy (M s)" using Cons.prems(1) p assms(2) by auto
  show ?case
  proof (cases "k = s")
    case True
    then have "map_of cs k = None" using Cons.prems(2) p by (simp add: map_of_eq_None_iff)
    with True s Cons p show ?thesis by simp
  next
    case False
    then have "the (M k) \<noteq> the (M s)" using assms(1,3) s(1) by (auto dest: inj_onD)
    with False s Cons p show ?thesis by (simp split: option.splits)
  qed
qed simp

lemma targets_of_all: "set (targets_of ts u) \<subseteq> set (targets_of all_types u)"
proof -
  have "t \<in> set all_types" for t by (cases t) (simp_all add: all_types_def)
  then show ?thesis by (auto simp: targets_of_def)
qed

lemma remdups_map_inj: "inj_on f (set xs) \<Longrightarrow> remdups (map f xs) = map f (remdups xs)"
  by (induction xs) (auto simp: inj_on_def)

lemma uniq_map: "inj_on f (set xs) \<Longrightarrow> uniq (map f xs) = map f (uniq xs)"
  using remdups_map_inj [of f "rev xs"] by (simp add: uniq_def rev_map)

text \<open>New identifiers for the actions: distinct, not empty, and different from every node.\<close>

definition fresh_ids :: "Workflow \<Rightarrow> ident list \<Rightarrow> bool" where
  "fresh_ids w ids \<longleftrightarrow> distinct (map ac_id (wf_actions w)) \<and> distinct ids
     \<and> length ids = length (wf_actions w) \<and> [] \<notin> set ids \<and> set ids \<inter> set (graph_nodes w) = {}"

lemma clone_idMap_nth:
  "fresh_ids w ids \<Longrightarrow> j < length ids \<Longrightarrow> clone_idMap w ids (ac_id (wf_actions w ! j)) = Some (ids ! j)"
  unfolding fresh_ids_def using map_of_zip_nth [of "map ac_id (wf_actions w)" ids j]
  by (simp add: clone_idMap_eq)

lemma clone_idMap_other:
  "fresh_ids w ids \<Longrightarrow> x \<notin> ac_id ` set (wf_actions w) \<Longrightarrow> clone_idMap w ids x = None"
  unfolding fresh_ids_def by (subst clone_idMap_eq) (auto simp: map_of_zip_is_None)

lemma clone_idMap_action:
  assumes "fresh_ids w ids" and "x \<in> ac_id ` set (wf_actions w)"
  obtains j where "j < length ids" "x = ac_id (wf_actions w ! j)" "clone_idMap w ids x = Some (ids ! j)"
proof -
  obtain j where "j < length ids" "x = ac_id (wf_actions w ! j)"
    using assms by (auto simp: fresh_ids_def in_set_conv_nth)
  with clone_idMap_nth [OF assms(1)] that show thesis by blast
qed

lemma clone_idMap_truthy:
  "fresh_ids w ids \<Longrightarrow> \<forall>x \<in> ac_id ` set (wf_actions w). truthy (clone_idMap w ids x)"
  by (metis clone_idMap_action fresh_ids_def nth_mem truthy_simps(2))

lemma clone_idMap_inj:
  assumes "fresh_ids w ids"
  shows "inj_on (\<lambda>x. the (clone_idMap w ids x)) (ac_id ` set (wf_actions w))"
proof (rule inj_onI)
  fix x y
  assume xy: "x \<in> ac_id ` set (wf_actions w)" "y \<in> ac_id ` set (wf_actions w)"
    and eq: "the (clone_idMap w ids x) = the (clone_idMap w ids y)"
  obtain j where j: "j < length ids" "x = ac_id (wf_actions w ! j)" "clone_idMap w ids x = Some (ids ! j)"
    using clone_idMap_action [OF assms xy(1)] .
  obtain k where k: "k < length ids" "y = ac_id (wf_actions w ! k)" "clone_idMap w ids y = Some (ids ! k)"
    using clone_idMap_action [OF assms xy(2)] .
  have "j = k" using j k eq assms by (simp add: fresh_ids_def nth_eq_iff_index_eq)
  with j k show "x = y" by simp
qed

lemma clone_target_eq:
  assumes "fresh_ids w ids"
  shows "clone_target (clone_idMap w ids) x
    = (if x \<in> ac_id ` set (wf_actions w) then the (clone_idMap w ids x) else x)"
  using clone_idMap_other [OF assms] clone_idMap_truthy [OF assms]
  by (auto simp: clone_target_def or_else_def split: option.splits)

lemma clone_target_inj:
  assumes "fresh_ids w ids"
  shows "inj_on (clone_target (clone_idMap w ids)) (set (all_targets w))"
proof (rule inj_onI)
  fix x y
  assume "x \<in> set (all_targets w)" "y \<in> set (all_targets w)"
    and "clone_target (clone_idMap w ids) x = clone_target (clone_idMap w ids) y"
  moreover have "the (clone_idMap w ids z) \<in> set ids" if "z \<in> ac_id ` set (wf_actions w)" for z
    using clone_idMap_action [OF assms that] by (metis nth_mem option.sel)
  moreover have "set (all_targets w) \<inter> set ids = {}"
    using assms by (auto simp: fresh_ids_def graph_nodes_def)
  ultimately show "x = y"
    using clone_target_eq [OF assms] inj_onD [OF clone_idMap_inj [OF assms]] by (metis disjoint_iff)
qed

lemma clone_connections_at:
  assumes "fresh_ids w ids" and "distinct (map fst (wf_connections w))"
    and "fst ` set (wf_connections w) \<subseteq> ac_id ` set (wf_actions w)" and "i < length ids"
  shows "map_of (wf_connections (cloneWorkflow w ids newId generated)) (ids ! i)
    = map_option (clone_outputs (clone_idMap w ids))
        (map_of (wf_connections w) (ac_id (wf_actions w ! i)))"
proof -
  have i: "ac_id (wf_actions w ! i) \<in> ac_id ` set (wf_actions w)"
    "the (clone_idMap w ids (ac_id (wf_actions w ! i))) = ids ! i"
    using clone_idMap_nth [OF assms(1,4)] assms(1,4) by (auto simp: fresh_ids_def)
  have "wf_connections (cloneWorkflow w ids newId generated)
      = clone_connections (clone_idMap w ids) (wf_connections w)"
    by (simp add: cloneWorkflow_def)
  then show ?thesis
    using clone_connections_map [OF clone_idMap_inj [OF assms(1)] clone_idMap_truthy [OF assms(1)]
        i(1) assms(3,2), of "[]"]
    unfolding i(2) clone_connections_def [symmetric]
    by (cases "map_of (wf_connections w) (ac_id (wf_actions w ! i))") simp_all
qed

text \<open>
  a clone has the same graph. With fresh, distinct identifiers, the actions of the clone are
  those of the workflow under their new identifiers, and the successors of an action, for every
  kind of output, are the clones of its successors (a target that is no action keeps its name).
\<close>

theorem clone_same_graph:
  assumes "distinct (map ac_id (wf_actions w))" and "distinct ids" and "length ids = length (wf_actions w)"
    and "[] \<notin> set ids" and "set ids \<inter> set (graph_nodes w) = {}"
    and "distinct (map fst (wf_connections w))"
    and "fst ` set (wf_connections w) \<subseteq> ac_id ` set (wf_actions w)" and "i < length ids"
  shows "map ac_id (wf_actions (cloneWorkflow w ids newId generated)) = ids
    \<and> getNextActions (cloneWorkflow w ids newId generated) (ids ! i) t
      = map (clone_target (clone_idMap w ids)) (getNextActions w (ac_id (wf_actions w ! i)) t)"
proof -
  have fresh: "fresh_ids w ids" using assms(1-5) by (simp add: fresh_ids_def)
  have inj_t: "inj_on (clone_target (clone_idMap w ids)) (set (targets_of ts u))"
    if "(s, u) \<in> set (wf_connections w)" for s u ts
    by (rule inj_on_subset [OF clone_target_inj [OF fresh]])
      (use targets_in_all [OF that] targets_of_all [of ts u] in blast)
  have "getNextActions (cloneWorkflow w ids newId generated) (ids ! i) t
      = map (clone_target (clone_idMap w ids)) (getNextActions w (ac_id (wf_actions w ! i)) t)"
    using inj_t [OF map_of_SomeD] clone_connections_at [OF fresh assms(6-8)]
    by (simp add: getNextActions_def getActionConnections_def clone_outputs_targets uniq_map
        split: option.splits)
  moreover have "map ac_id (wf_actions (cloneWorkflow w ids newId generated)) = ids"
    by (rule nth_equalityI) (simp_all add: cloneWorkflow_def assms(3))
  ultimately show ?thesis by blast
qed

theorem clone_same_graph_witness:
  "getNextActions (cloneWorkflow diamond [''p'', ''q'', ''r'', ''s''] None ''g'') ''p'' None
    = map (clone_target (clone_idMap diamond [''p'', ''q'', ''r'', ''s''])) [''b'', ''c'']
   \<and> map (clone_target (clone_idMap diamond [''p'', ''q'', ''r'', ''s''])) [''b'', ''c''] = [''q'', ''r'']"
  using clone_same_graph [of diamond "[''p'', ''q'', ''r'', ''s'']" 0 None "''g''" None]
  by (simp add: diamond_def graph_eval clone_target_def clone_idMap_def)

end
