(* ===== verification/Auto_Layout.thy ===== *)
theory Auto_Layout
  imports Workflow_Utils
begin

text \<open>
  The layout of converted workflows (frontend/src/lib/workflow-converter/auto-layout.ts): depths,
  groups of equal depth, coordinates, and the adjustment of branches. The map of nodes is an
  association list in the order of insertion; a node has its position here, which the code keeps in
  the action. Coordinates are rational numbers.
\<close>

section \<open>Options and nodes\<close>

record LayoutOptions =
  lo_horizontalSpacing :: rat
  lo_verticalSpacing :: rat
  lo_startX :: rat
  lo_startY :: rat
  lo_branchOffset :: rat

text \<open>The options of the constructor; the width and the height of a node are never read.\<close>

definition createAutoLayout ::
    "rat option \<Rightarrow> rat option \<Rightarrow> rat option \<Rightarrow> rat option \<Rightarrow> rat option \<Rightarrow> LayoutOptions" where
  "createAutoLayout hs vs x y bo =
     (let get = (\<lambda>v d. case v of None \<Rightarrow> d | Some r \<Rightarrow> r)
      in \<lparr>lo_horizontalSpacing = get hs 200, lo_verticalSpacing = get vs 150, lo_startX = get x 100,
          lo_startY = get y 100, lo_branchOffset = get bo 50\<rparr>)"

record LayoutNode =
  ln_depth :: nat
  ln_position :: "rat \<times> rat"
  ln_children :: "ident list"
  ln_parents :: "ident list"

type_synonym LayoutNodes = "(ident \<times> LayoutNode) list"

text \<open>The update of the value of a key.\<close>

definition node_update :: "ident \<Rightarrow> (LayoutNode \<Rightarrow> LayoutNode) \<Rightarrow> LayoutNodes \<Rightarrow> LayoutNodes" where
  "node_update i f nodes = map (\<lambda>(k, n). (k, if k = i then f n else n)) nodes"

text \<open>The position of an action, a pair by its type.\<close>

definition action_position :: "Action \<Rightarrow> rat \<times> rat" where
  "action_position a = (case ac_position a of Some [x, y] \<Rightarrow> (x, y) | _ \<Rightarrow> (0, 0))"

definition new_node :: "Action \<Rightarrow> LayoutNode" where
  "new_node a = \<lparr>ln_depth = 0, ln_position = action_position a, ln_children = [], ln_parents = []\<rparr>"

text \<open>One connection: both ends must be nodes.\<close>

definition relate :: "ident \<Rightarrow> ident \<Rightarrow> LayoutNodes \<Rightarrow> LayoutNodes" where
  "relate sourceId target nodes =
     (if map_of nodes sourceId = None \<or> map_of nodes target = None then nodes
      else node_update target (\<lambda>n. n\<lparr>ln_parents := ln_parents n @ [sourceId]\<rparr>)
             (node_update sourceId (\<lambda>n. n\<lparr>ln_children := ln_children n @ [target]\<rparr>) nodes))"

definition buildNodeGraph :: "Action list \<Rightarrow> Connections \<Rightarrow> LayoutNodes" where
  "buildNodeGraph actions connections =
     (let nodes = foldl (\<lambda>m a. map_set (ac_id a) (new_node a) m) [] actions
      in foldl (\<lambda>m (s, u). foldl (\<lambda>m t. relate s t m) m (targets_of all_types u)) nodes connections)"

section \<open>Depths\<close>

text \<open>The step for one child, on the queue, the visited nodes and the depths.\<close>

type_synonym bfs = "(ident \<times> nat) list \<times> ident list \<times> (ident \<Rightarrow> nat)"

fun al_relax :: "ident list \<Rightarrow> nat \<Rightarrow> ident \<Rightarrow> bfs \<Rightarrow> bfs" where
  "al_relax ids newDepth child (queue, visited, depth) =
     (if child \<notin> set ids \<or> newDepth > length ids then (queue, visited, depth)
      else if child \<notin> set visited \<or> depth child < newDepth
      then (queue @ [(child, newDepth)], child # visited, depth(child := newDepth))
      else (queue, visited, depth))"

text \<open>What the queue may still cause: every entry, and every rise of a depth up to its bound.\<close>

definition slack :: "ident list \<Rightarrow> ident list \<Rightarrow> (ident \<Rightarrow> nat) \<Rightarrow> nat" where
  "slack ids visited depth =
     (\<Sum>i \<in> set ids. if i \<in> set visited then length ids + 1 - depth i else length ids + 2)"

lemma slack_less:
  assumes "c \<in> set ids" and "d \<le> length ids" and "c \<notin> set visited \<or> depth c < d"
  shows "slack ids (c # visited) (depth(c := d)) < slack ids visited depth"
  unfolding slack_def
  by (rule sum_strict_mono_ex1) (use assms in \<open>auto intro!: bexI [of _ c]\<close>)

lemma al_relax_slack:
  "al_relax ids d c (q, v, dep) = (q', v', dep') \<Longrightarrow> length q' + slack ids v' dep' \<le> length q + slack ids v dep"
  using slack_less [of c ids d v dep] by (auto split: if_splits)

lemma al_relaxes_slack:
  "fold (al_relax ids d) cs (q, v, dep) = (q', v', dep')
     \<Longrightarrow> length q' + slack ids v' dep' \<le> length q + slack ids v dep"
proof (induction cs arbitrary: q v dep)
  case (Cons c cs)
  obtain q1 v1 dep1 where r: "al_relax ids d c (q, v, dep) = (q1, v1, dep1)" by (metis prod_cases3)
  then have "fold (al_relax ids d) cs (q1, v1, dep1) = (q', v', dep')" using Cons.prems by simp
  from Cons.IH [OF this] al_relax_slack [OF r] show ?case by simp
qed simp

function al_bfs :: "(ident \<Rightarrow> ident list) \<Rightarrow> ident list \<Rightarrow> bfs \<Rightarrow> (ident \<Rightarrow> nat)" where
  "al_bfs children ids ([], visited, depth) = depth"
| "al_bfs children ids ((i, d) # queue, visited, depth) =
     (if i \<notin> set ids then al_bfs children ids (queue, visited, depth)
      else al_bfs children ids (fold (al_relax ids (d + 1)) (children i) (queue, visited, depth)))"
  by pat_completeness auto
termination
proof (relation "measure (\<lambda>(_, ids, q, v, dep). length q + slack ids v dep)", goal_cases)
  case (3 children ids i d queue visited depth)
  obtain q' v' dep' where "fold (al_relax ids (d + 1)) (children i) (queue, visited, depth) = (q', v', dep')"
    by (metis prod_cases3)
  then show ?case using al_relaxes_slack by fastforce
qed simp_all

definition children_of :: "LayoutNodes \<Rightarrow> ident \<Rightarrow> ident list" where
  "children_of nodes i = (case map_of nodes i of None \<Rightarrow> [] | Some n \<Rightarrow> ln_children n)"

text \<open>The nodes without parents, or the first action when there are none.\<close>

definition layout_entries :: "Action list \<Rightarrow> LayoutNodes \<Rightarrow> ident list" where
  "layout_entries actions nodes =
     (case map fst (filter (\<lambda>(i, n). ln_parents n = []) nodes) of
        [] \<Rightarrow> (case actions of [] \<Rightarrow> [] | a # _ \<Rightarrow> if map_of nodes (ac_id a) = None then [] else [ac_id a])
      | es \<Rightarrow> es)"

definition layout_depths :: "Action list \<Rightarrow> LayoutNodes \<Rightarrow> ident \<Rightarrow> nat" where
  "layout_depths actions nodes =
     (let entryPoints = layout_entries actions nodes
      in al_bfs (children_of nodes) (map fst nodes) (map (\<lambda>i. (i, 0)) entryPoints, entryPoints, (\<lambda>_. 0)))"

definition calculateDepths :: "Action list \<Rightarrow> LayoutNodes \<Rightarrow> LayoutNodes" where
  "calculateDepths actions nodes =
     (let depth = layout_depths actions nodes in map (\<lambda>(i, n). (i, n\<lparr>ln_depth := depth i\<rparr>)) nodes)"

section \<open>Positions\<close>

definition groupByDepth :: "LayoutNodes \<Rightarrow> (nat \<times> ident list) list" where
  "groupByDepth nodes =
     map (\<lambda>d. (d, map fst (filter (\<lambda>(i, n). ln_depth n = d) nodes))) (uniq (map (\<lambda>(i, n). ln_depth n) nodes))"

definition avgParentY :: "LayoutNodes \<Rightarrow> ident \<Rightarrow> rat" where
  "avgParentY nodes i =
     (let parents = (case map_of nodes i of None \<Rightarrow> [] | Some n \<Rightarrow> ln_parents n);
          parentYs = map (\<lambda>n. snd (ln_position n)) (List.map_filter (map_of nodes) parents)
      in if parents = [] then 0 else sum_list parentYs / of_nat (length parentYs))"

text \<open>
  The comparison puts the nodes without parents first, in their order, and orders the others by the
  mean ordinate of their parents; sorting is stable.
\<close>

definition sortNodesByParentPosition :: "LayoutNodes \<Rightarrow> ident list \<Rightarrow> ident list" where
  "sortNodesByParentPosition nodes is =
     (let orphan = (\<lambda>i. case map_of nodes i of None \<Rightarrow> True | Some n \<Rightarrow> ln_parents n = [])
      in filter orphan is @ sort_key (avgParentY nodes) (filter (\<lambda>i. \<not> orphan i) is))"

definition place_group :: "LayoutOptions \<Rightarrow> nat \<times> ident list \<Rightarrow> LayoutNodes \<Rightarrow> LayoutNodes" where
  "place_group o' g nodes =
     fold (\<lambda>(index, i). node_update i (\<lambda>n. n\<lparr>ln_position :=
         (lo_startX o' + of_nat (fst g) * lo_horizontalSpacing o',
          lo_startY o' + of_nat index * lo_verticalSpacing o')\<rparr>))
       (enumerate 0 (sortNodesByParentPosition nodes (snd g))) nodes"

definition al_assignPositions :: "LayoutOptions \<Rightarrow> LayoutNodes \<Rightarrow> LayoutNodes" where
  "al_assignPositions o' nodes = fold (place_group o') (groupByDepth nodes) nodes"

definition adjust_children :: "LayoutOptions \<Rightarrow> rat \<Rightarrow> ident list \<Rightarrow> LayoutNodes \<Rightarrow> LayoutNodes" where
  "adjust_children o' parentY children nodes =
     (let startY = parentY - of_nat (length children - 1) * lo_verticalSpacing o' / 2
      in fold (\<lambda>(index, i). node_update i (\<lambda>n. n\<lparr>ln_position := (fst (ln_position n),
             startY + of_nat index * lo_verticalSpacing o' + of_nat index * lo_branchOffset o')\<rparr>))
           (enumerate 0 children) nodes)"

definition adjust_node :: "LayoutOptions \<Rightarrow> Connections \<Rightarrow> ident \<Rightarrow> LayoutNodes \<Rightarrow> LayoutNodes" where
  "adjust_node o' connections i nodes =
     (case Option.bind (map_of connections i) ou_main of
        None \<Rightarrow> nodes
      | Some main \<Rightarrow>
          (let children = filter (\<lambda>c. map_of nodes c \<noteq> None) (map cn_action (concat main))
           in if length main \<le> 1 \<or> length children \<le> 1 then nodes
              else adjust_children o' (case map_of nodes i of None \<Rightarrow> 0 | Some n \<Rightarrow> snd (ln_position n)) children nodes))"

definition adjustBranches :: "LayoutOptions \<Rightarrow> Connections \<Rightarrow> LayoutNodes \<Rightarrow> LayoutNodes" where
  "adjustBranches o' connections nodes = fold (adjust_node o' connections) (map fst nodes) nodes"

definition applyPositions :: "LayoutNodes \<Rightarrow> Action list \<Rightarrow> Action list" where
  "applyPositions nodes actions =
     map (\<lambda>a. case map_of nodes (ac_id a) of
            None \<Rightarrow> a
          | Some n \<Rightarrow> a\<lparr>ac_position := Some [fst (ln_position n), snd (ln_position n)]\<rparr>) actions"

definition layout_nodes :: "LayoutOptions \<Rightarrow> Action list \<Rightarrow> Connections \<Rightarrow> LayoutNodes" where
  "layout_nodes o' actions connections =
     adjustBranches o' connections (al_assignPositions o' (calculateDepths actions (buildNodeGraph actions connections)))"

definition layoutActions :: "LayoutOptions \<Rightarrow> Action list \<Rightarrow> Connections \<Rightarrow> Action list" where
  "layoutActions o' actions connections =
     (if actions = [] then [] else applyPositions (layout_nodes o' actions connections) actions)"

definition findOptimalPosition :: "LayoutOptions \<Rightarrow> Action list \<Rightarrow> rat \<times> rat" where
  "findOptimalPosition o' actions =
     (if actions = [] then (lo_startX o', lo_startY o')
      else (foldl (\<lambda>m a. max m (fst (action_position a))) (lo_startX o') actions + lo_horizontalSpacing o',
            lo_startY o'))"

section \<open>What the depths are\<close>

text \<open>The edges between nodes, and what holds of queue, visited nodes and depths all along.\<close>

definition node_edges :: "(ident \<Rightarrow> ident list) \<Rightarrow> ident list \<Rightarrow> (ident \<times> ident) set" where
  "node_edges f ids = {(a, b). a \<in> set ids \<and> b \<in> set ids \<and> b \<in> set (f a)}"

definition path_to :: "(ident \<Rightarrow> ident list) \<Rightarrow> ident list \<Rightarrow> ident list \<Rightarrow> nat \<Rightarrow> ident \<Rightarrow> bool" where
  "path_to f ids es d i \<longleftrightarrow> (\<exists>e \<in> set es. (e, i) \<in> node_edges f ids ^^ d)"

fun bfs_sound :: "(ident \<Rightarrow> ident list) \<Rightarrow> ident list \<Rightarrow> ident list \<Rightarrow> bfs \<Rightarrow> bool" where
  "bfs_sound f ids es (q, v, dep) \<longleftrightarrow>
     set es \<subseteq> set v \<and> set v \<subseteq> set ids
     \<and> (\<forall>i d. (i, d) \<in> set q \<longrightarrow> i \<in> set v \<and> d \<le> dep i \<and> path_to f ids es d i)
     \<and> (\<forall>i \<in> set v. path_to f ids es (dep i) i)"

definition raised :: "(ident \<Rightarrow> ident list) \<Rightarrow> ident list \<Rightarrow> ident list \<Rightarrow> (ident \<Rightarrow> nat) \<Rightarrow> nat \<Rightarrow> ident \<Rightarrow> bool" where
  "raised f ids v dep d i \<longleftrightarrow>
     (\<forall>c \<in> set (f i). c \<in> set ids \<longrightarrow> d < length ids \<longrightarrow> c \<in> set v \<and> d < dep c)"

fun bfs_complete :: "(ident \<Rightarrow> ident list) \<Rightarrow> ident list \<Rightarrow> bfs \<Rightarrow> bool" where
  "bfs_complete f ids (q, v, dep) \<longleftrightarrow> (\<forall>i \<in> set v. (i, dep i) \<in> set q \<or> raised f ids v dep (dep i) i)"

text \<open>One round of relaxations.\<close>

fun grows :: "bfs \<Rightarrow> bfs \<Rightarrow> bool" where
  "grows (q, v, dep) (q', v', dep') \<longleftrightarrow>
     set q \<subseteq> set q' \<and> set v \<subseteq> set v' \<and> (\<forall>x \<in> set v. dep x \<le> dep' x)
     \<and> (\<forall>x \<in> set v'. x \<in> set v \<and> dep' x = dep x \<or> (x, dep' x) \<in> set q')"

lemma grows_trans: "grows a b \<Longrightarrow> grows b c \<Longrightarrow> grows a c"
  by (cases a; cases b; cases c) (auto, (metis le_trans subsetD)+)

lemma al_relax_grows:
  "grows (q, v, dep) (al_relax ids d c (q, v, dep))"
  by auto

lemma al_relax_sound:
  assumes "bfs_sound f ids es (q, v, dep)" and "path_to f ids es d i" and "i \<in> set ids" and "c \<in> set (f i)"
  shows "bfs_sound f ids es (al_relax ids (Suc d) c (q, v, dep))"
proof -
  have "path_to f ids es (Suc d) c" if "c \<in> set ids"
    using assms(2-4) that by (auto simp: path_to_def node_edges_def)
  then show ?thesis using assms(1) by auto (meson le_less_trans less_imp_le)
qed

lemma al_relax_child:
  "al_relax ids (Suc d) c (q, v, dep) = (q', v', dep') \<Longrightarrow> c \<in> set ids \<Longrightarrow> d < length ids
     \<Longrightarrow> c \<in> set v' \<and> d < dep' c"
  by (auto split: if_splits)

lemma al_round:
  assumes "bfs_sound f ids es s" and "path_to f ids es d i" and "i \<in> set ids" and "set cs \<subseteq> set (f i)"
  shows "bfs_sound f ids es (fold (al_relax ids (Suc d)) cs s) \<and> grows s (fold (al_relax ids (Suc d)) cs s)
    \<and> (\<forall>c \<in> set cs. c \<in> set ids \<longrightarrow> d < length ids \<longrightarrow>
         c \<in> set (fst (snd (fold (al_relax ids (Suc d)) cs s))) \<and> d < snd (snd (fold (al_relax ids (Suc d)) cs s)) c)"
  using assms(1,4)
proof (induction cs arbitrary: s)
  case Nil
  then show ?case by (cases s) auto
next
  case (Cons c cs)
  obtain q v dep where s: "s = (q, v, dep)" by (metis prod_cases3)
  obtain q1 v1 dep1 where s1: "al_relax ids (Suc d) c (q, v, dep) = (q1, v1, dep1)" by (metis prod_cases3)
  obtain q2 v2 dep2 where s2: "fold (al_relax ids (Suc d)) cs (q1, v1, dep1) = (q2, v2, dep2)" by (metis prod_cases3)
  have "bfs_sound f ids es (q1, v1, dep1)"
    using al_relax_sound [OF _ assms(2,3), of q v dep c] Cons.prems s s1 by simp
  then have IH: "bfs_sound f ids es (q2, v2, dep2) \<and> grows (q1, v1, dep1) (q2, v2, dep2)
      \<and> (\<forall>c \<in> set cs. c \<in> set ids \<longrightarrow> d < length ids \<longrightarrow> c \<in> set v2 \<and> d < dep2 c)"
    using Cons.IH [of "(q1, v1, dep1)"] Cons.prems(2) s2 by simp
  have "grows (q, v, dep) (q1, v1, dep1)" using al_relax_grows [of q v dep ids "Suc d" c] s1 by simp
  with IH have "grows (q, v, dep) (q2, v2, dep2)" using grows_trans by blast
  moreover have "c \<in> set v2 \<and> d < dep2 c" if "c \<in> set ids" "d < length ids"
  proof -
    have "c \<in> set v1" "d < dep1 c" using al_relax_child [OF s1 that] by simp_all
    moreover from this have "c \<in> set v2" "dep1 c \<le> dep2 c" using IH by auto
    ultimately show ?thesis by simp
  qed
  ultimately show ?case
    using IH by (simp add: s s1 s2 del: bfs_sound.simps grows.simps al_relax.simps)
qed

lemma al_pop:
  assumes "bfs_sound f ids es ((i, d) # q, v, dep)" and "bfs_complete f ids ((i, d) # q, v, dep)"
  shows "bfs_sound f ids es (fold (al_relax ids (Suc d)) (f i) (q, v, dep))
    \<and> bfs_complete f ids (fold (al_relax ids (Suc d)) (f i) (q, v, dep))"
proof -
  let ?r = "fold (al_relax ids (Suc d)) (f i) (q, v, dep)"
  obtain q' v' dep' where r: "?r = (q', v', dep')" by (metis prod_cases3)
  have i: "i \<in> set v" "i \<in> set ids" "path_to f ids es d i" using assms(1) by auto
  have "bfs_sound f ids es (q, v, dep)" using assms(1) by auto
  from al_round [OF this i(3,2) subset_refl]
  have round: "bfs_sound f ids es (q', v', dep')" "grows (q, v, dep) (q', v', dep')"
    "\<forall>c \<in> set (f i). c \<in> set ids \<longrightarrow> d < length ids \<longrightarrow> c \<in> set v' \<and> d < dep' c"
    unfolding r by simp_all
  have "(j, dep' j) \<in> set q' \<or> raised f ids v' dep' (dep' j) j" if j: "j \<in> set v'" for j
  proof (cases "j \<in> set v \<and> dep' j = dep j")
    case False
    then show ?thesis using round(2) j by auto
  next
    case True
    then have "(j, dep j) \<in> set ((i, d) # q) \<or> raised f ids v dep (dep j) j" using assms(2) by auto
    then consider "(j, dep j) \<in> set q" | "j = i" "dep j = d" | "raised f ids v dep (dep j) j" by auto
    then show ?thesis
    proof cases
      case 1
      then show ?thesis using round(2) True by auto
    next
      case 2
      then show ?thesis using round(3) True by (auto simp: raised_def)
    next
      case 3
      have "c \<in> set v' \<and> dep' j < dep' c" if "c \<in> set (f j)" "c \<in> set ids" "dep' j < length ids" for c
      proof -
        have "c \<in> set v" "dep j < dep c" using 3 that True by (auto simp: raised_def)
        moreover from this have "c \<in> set v'" "dep c \<le> dep' c" using round(2) by auto
        ultimately show ?thesis using True by simp
      qed
      then show ?thesis by (simp add: raised_def)
    qed
  qed
  then show ?thesis using round(1) by (simp add: r)
qed

lemma al_bfs_correct:
  "bfs_sound f ids es s \<Longrightarrow> bfs_complete f ids s \<Longrightarrow>
     \<exists>v. bfs_sound f ids es ([], v, al_bfs f ids s) \<and> bfs_complete f ids ([], v, al_bfs f ids s)"
proof (induction f ids s rule: al_bfs.induct)
  case (1 children ids visited depth)
  then show ?case by auto
next
  case (2 children ids i d queue visited depth)
  have "i \<in> set ids" using 2(3) by auto
  moreover from this have "\<exists>v. bfs_sound children ids es ([], v, al_bfs children ids
        (fold (al_relax ids (d + 1)) (children i) (queue, visited, depth)))
      \<and> bfs_complete children ids ([], v, al_bfs children ids
        (fold (al_relax ids (d + 1)) (children i) (queue, visited, depth)))"
    using 2(2) al_pop [OF 2(3,4)] by simp
  ultimately show ?case by simp
qed

section \<open>The graph of the nodes\<close>

lemma map_of_node_update:
  "map_of (node_update i f m) k = map_option (\<lambda>n. if k = i then f n else n) (map_of m k)"
  by (induction m) (auto simp: node_update_def)

lemma node_update_keys [simp]: "map fst (node_update i f m) = map fst m"
  by (induction m) (auto simp: node_update_def)

definition parents_of :: "LayoutNodes \<Rightarrow> ident \<Rightarrow> ident list" where
  "parents_of nodes i = (case map_of nodes i of None \<Rightarrow> [] | Some n \<Rightarrow> ln_parents n)"

lemma relate_graph:
  "map fst (relate s t m) = map fst m"
  "children_of (relate s t m) a = children_of m a @ (if a = s \<and> map_of m s \<noteq> None \<and> map_of m t \<noteq> None then [t] else [])"
  "parents_of (relate s t m) a = parents_of m a @ (if a = t \<and> map_of m s \<noteq> None \<and> map_of m t \<noteq> None then [s] else [])"
  by (auto simp: relate_def children_of_def parents_of_def map_of_node_update split: option.splits)

text \<open>A pair becomes an edge when both ends are nodes.\<close>

definition relates :: "LayoutNodes \<Rightarrow> ident \<Rightarrow> ident list \<Rightarrow> ident \<Rightarrow> ident \<Rightarrow> bool" where
  "relates m s ts a b \<longleftrightarrow> a = s \<and> b \<in> set ts \<and> a \<in> set (map fst m) \<and> b \<in> set (map fst m)"

lemma relates_simps [simp]:
  "\<not> relates m s [] a b"
  "relates m s (t # ts) a b \<longleftrightarrow> relates m s [t] a b \<or> relates m s ts a b"
  by (auto simp: relates_def)

lemma relates_keys: "map fst m' = map fst m \<Longrightarrow> relates m' = relates m"
  unfolding relates_def by simp

lemma relate_one:
  "map fst (relate s t m) = map fst m"
  "b \<in> set (children_of (relate s t m) a) \<longleftrightarrow> b \<in> set (children_of m a) \<or> relates m s [t] a b"
  "a \<in> set (parents_of (relate s t m) b) \<longleftrightarrow> a \<in> set (parents_of m b) \<or> relates m s [t] a b"
  by (auto simp: relate_graph relates_def map_of_eq_None_iff)

lemma relate_targets:
  "map fst (foldl (\<lambda>m t. relate s t m) m ts) = map fst m"
  "b \<in> set (children_of (foldl (\<lambda>m t. relate s t m) m ts) a) \<longleftrightarrow> b \<in> set (children_of m a) \<or> relates m s ts a b"
  "a \<in> set (parents_of (foldl (\<lambda>m t. relate s t m) m ts) b) \<longleftrightarrow> a \<in> set (parents_of m b) \<or> relates m s ts a b"
proof (induction ts arbitrary: m)
  case (Cons t ts)
  have k: "relates (relate s t m) = relates m" for m by (rule relates_keys [OF relate_one(1)])
  { case 1 show ?case using Cons(1) by (simp add: relate_one(1)) }
  { case 2 show ?case unfolding foldl_Cons Cons(2) relate_one(2) k relates_simps(2) [of m s t ts] by (rule disj_assoc) }
  { case 3 show ?case unfolding foldl_Cons Cons(3) relate_one(3) k relates_simps(2) [of m s t ts] by (rule disj_assoc) }
qed simp_all

definition connects :: "LayoutNodes \<Rightarrow> Connections \<Rightarrow> ident \<Rightarrow> ident \<Rightarrow> bool" where
  "connects m cs a b \<longleftrightarrow> (\<exists>u. (a, u) \<in> set cs \<and> relates m a (targets_of all_types u) a b)"

lemma connects_simps [simp]:
  "\<not> connects m [] a b"
  "connects m ((s, u) # cs) a b \<longleftrightarrow> relates m s (targets_of all_types u) a b \<or> connects m cs a b"
  by (auto simp: connects_def relates_def)

lemma connects_keys: "map fst m' = map fst m \<Longrightarrow> connects m' = connects m"
  unfolding connects_def using relates_keys by metis

definition relate_all :: "ident \<times> Outputs \<Rightarrow> LayoutNodes \<Rightarrow> LayoutNodes" where
  "relate_all c m = foldl (\<lambda>m t. relate (fst c) t m) m (targets_of all_types (snd c))"

lemma relate_connections:
  "map fst (foldl (\<lambda>m c. relate_all c m) m cs) = map fst m"
  "b \<in> set (children_of (foldl (\<lambda>m c. relate_all c m) m cs) a) \<longleftrightarrow> b \<in> set (children_of m a) \<or> connects m cs a b"
  "a \<in> set (parents_of (foldl (\<lambda>m c. relate_all c m) m cs) b) \<longleftrightarrow> a \<in> set (parents_of m b) \<or> connects m cs a b"
proof (induction cs arbitrary: m)
  case (Cons c cs)
  obtain s u where c: "c = (s, u)" by (cases c)
  have r: "map fst (relate_all c m) = map fst m" for m
    unfolding relate_all_def by (rule relate_targets(1))
  have r': "b \<in> set (children_of (relate_all c m) a) \<longleftrightarrow> b \<in> set (children_of m a) \<or> relates m s (targets_of all_types u) a b"
    "a \<in> set (parents_of (relate_all c m) b) \<longleftrightarrow> a \<in> set (parents_of m b) \<or> relates m s (targets_of all_types u) a b" for m
    unfolding relate_all_def c fst_conv snd_conv by (rule relate_targets)+
  have k: "connects (relate_all c m) = connects m" for m by (rule connects_keys [OF r])
  { case 1 show ?case using Cons(1) by (simp add: r) }
  { case 2 show ?case unfolding foldl_Cons Cons(2) r'(1) k unfolding c connects_simps by (rule disj_assoc) }
  { case 3 show ?case unfolding foldl_Cons Cons(3) r'(2) k unfolding c connects_simps by (rule disj_assoc) }
qed simp_all

text \<open>The edges between actions.\<close>

definition action_edges :: "Action list \<Rightarrow> Connections \<Rightarrow> (ident \<times> ident) set" where
  "action_edges actions connections =
     {(a, b). a \<in> ac_id ` set actions \<and> b \<in> ac_id ` set actions
        \<and> (\<exists>u. (a, u) \<in> set connections \<and> b \<in> set (targets_of all_types u))}"

lemma initial_nodes:
  "set (map fst (foldl (\<lambda>m a. map_set (ac_id a) (new_node a) m) m actions)) = set (map fst m) \<union> ac_id ` set actions"
proof (induction actions arbitrary: m)
  case (Cons a as)
  then show ?case by (simp only: foldl_Cons map_set_keys) simp
qed simp

lemma initial_distinct:
  "distinct (map fst m) \<Longrightarrow> distinct (map fst (foldl (\<lambda>m a. map_set (ac_id a) (new_node a) m) m actions))"
  by (induction actions arbitrary: m) (simp_all add: map_set_distinct)

lemma initial_unrelated:
  "(\<And>i. children_of m i = [] \<and> parents_of m i = []) \<Longrightarrow>
     children_of (foldl (\<lambda>m a. map_set (ac_id a) (new_node a) m) m actions) i = []
     \<and> parents_of (foldl (\<lambda>m a. map_set (ac_id a) (new_node a) m) m actions) i = []"
proof (induction actions arbitrary: m)
  case (Cons a as)
  have "children_of (map_set (ac_id a) (new_node a) m) i = [] \<and> parents_of (map_set (ac_id a) (new_node a) m) i = []" for i
    using Cons(2) [of i] by (simp add: children_of_def parents_of_def map_of_map_set new_node_def)
  then show ?case using Cons(1) by simp
qed simp

lemma build_graph:
  "set (map fst (buildNodeGraph actions cs)) = ac_id ` set actions"
  "distinct (map fst (buildNodeGraph actions cs))"
  "b \<in> set (children_of (buildNodeGraph actions cs) a) \<longleftrightarrow> (a, b) \<in> action_edges actions cs"
  "a \<in> set (parents_of (buildNodeGraph actions cs) b) \<longleftrightarrow> (a, b) \<in> action_edges actions cs"
proof -
  let ?m = "foldl (\<lambda>m a. map_set (ac_id a) (new_node a) m) [] actions"
  have e: "children_of ?m i = []" "parents_of ?m i = []" for i
    using initial_unrelated [of "[]" actions i] by (simp_all add: children_of_def parents_of_def)
  have b: "buildNodeGraph actions cs = foldl (\<lambda>m c. relate_all c m) ?m cs"
    by (simp add: buildNodeGraph_def relate_all_def case_prod_beta' Let_def)
  have k: "connects ?m cs a b \<longleftrightarrow> (a, b) \<in> action_edges actions cs"
    using initial_nodes [of "[]" actions] by (auto simp: connects_def relates_def action_edges_def simp del: set_map)
  show "set (map fst (buildNodeGraph actions cs)) = ac_id ` set actions"
    unfolding b relate_connections(1) using initial_nodes [of "[]"] by simp
  show "distinct (map fst (buildNodeGraph actions cs))"
    unfolding b relate_connections(1) by (rule initial_distinct) simp
  show "b \<in> set (children_of (buildNodeGraph actions cs) a) \<longleftrightarrow> (a, b) \<in> action_edges actions cs"
    unfolding b relate_connections(2) k e by simp
  show "a \<in> set (parents_of (buildNodeGraph actions cs) b) \<longleftrightarrow> (a, b) \<in> action_edges actions cs"
    unfolding b relate_connections(3) k e by simp
qed

section \<open>Depths are lengths of longest paths\<close>

lemma acyclic_path_short:
  assumes "acyclic E" and "E \<subseteq> A \<times> A" and "finite A" and "a \<in> A" and "(a, b) \<in> E ^^ m"
  shows "m < card A"
proof -
  obtain p where p: "p 0 = a" "\<And>i. i < m \<Longrightarrow> (p i, p (Suc i)) \<in> E"
    using assms(5) by (auto simp: relpow_fun_conv)
  have far: "(p i, p (Suc (i + k))) \<in> E\<^sup>+" if "i + k < m" for i k
    using that by (induction k) (auto intro: p(2) trancl_into_trancl)
  have "p i \<noteq> p j" if ij: "i < j" "j \<le> m" for i j
  proof -
    have "i + (j - Suc i) < m" "Suc (i + (j - Suc i)) = j" using ij by simp_all
    then show ?thesis using far [of i "j - Suc i"] assms(1) unfolding acyclic_def by metis
  qed
  then have "inj_on p {..m}" unfolding inj_on_def by (metis atMost_iff linorder_neqE_nat)
  moreover have "p i \<in> A" if "i \<le> m" for i
    using that p(1) p(2) [of "i - 1"] assms(2,4) by (cases i) auto
  ultimately have "card {..m} \<le> card A" using assms(3) by (intro card_inj_on_le) auto
  then show ?thesis by simp
qed

lemma complete_longest:
  assumes "bfs_sound f ids es ([], v, dep)" and "bfs_complete f ids ([], v, dep)"
    and "acyclic (node_edges f ids)" and "distinct ids"
    and "\<And>i. i \<in> set ids \<Longrightarrow> \<forall>a. (a, i) \<notin> node_edges f ids \<Longrightarrow> i \<in> set es"
    and "i \<in> set ids"
  shows "(\<exists>e. (e, i) \<in> node_edges f ids ^^ dep i) \<and> (\<forall>e k. (e, i) \<in> node_edges f ids ^^ k \<longrightarrow> k \<le> dep i)"
proof -
  let ?E = "node_edges f ids"
  have E: "?E \<subseteq> set ids \<times> set ids" by (auto simp: node_edges_def)
  have "finite ?E" using finite_subset [OF E] by simp
  then have wf: "wf ?E" using assms(3) by (simp add: wf_iff_acyclic_if_finite)
  have short: "dep x < length ids" if "x \<in> set v" for x
  proof -
    have "path_to f ids es (dep x) x" using assms(1) that by simp
    then obtain e where "e \<in> set es" "(e, x) \<in> ?E ^^ dep x" by (auto simp: path_to_def)
    moreover have "set es \<subseteq> set ids" using assms(1) by auto
    ultimately show ?thesis
      using acyclic_path_short [OF assms(3) E] distinct_card [OF assms(4)] by auto
  qed
  have step: "y \<in> set v \<and> dep x < dep y" if "x \<in> set v" "(x, y) \<in> ?E" for x y
    using assms(2) short that by (auto simp: raised_def node_edges_def)
  have all: "x \<in> set ids \<longrightarrow> x \<in> set v" for x
  proof (induction x rule: wf_induct_rule [OF wf])
    case (1 x)
    show ?case
    proof (cases "\<exists>a. (a, x) \<in> ?E")
      case True
      then obtain a where "(a, x) \<in> ?E" by blast
      moreover from this have "a \<in> set v" using 1 E by blast
      ultimately show ?thesis using step by blast
    next
      case False
      then have "x \<in> set ids \<Longrightarrow> x \<in> set es" using assms(5) by blast
      then show ?thesis using assms(1) by auto
    qed
  qed
  have up: "y \<in> set v \<and> dep x + k \<le> dep y" if "(x, y) \<in> ?E ^^ k" "x \<in> set v" for x y k
    using that
  proof (induction k arbitrary: y)
    case (Suc k)
    then obtain z where "(x, z) \<in> ?E ^^ k" "(z, y) \<in> ?E" by auto
    with Suc have "z \<in> set v" "dep x + k \<le> dep z" by simp_all
    with step [OF _ \<open>(z, y) \<in> ?E\<close>] show ?case by fastforce
  qed simp
  have "k \<le> dep i" if p: "(e, i) \<in> ?E ^^ k" for e k
  proof (cases k)
    case (Suc n)
    then obtain y where "(e, y) \<in> ?E" using p by (metis relpow_Suc_D2)
    then have "e \<in> set ids" using E by blast
    then have "e \<in> set v" using all by blast
    from up [OF p this] show ?thesis by simp
  qed simp
  moreover have "path_to f ids es (dep i) i" using assms(1,6) all by simp
  ultimately show ?thesis by (auto simp: path_to_def)
qed

lemma layout_entries_roots:
  "map fst (filter (\<lambda>(i, n). ln_parents n = []) nodes) = es \<Longrightarrow> es \<noteq> [] \<Longrightarrow> layout_entries actions nodes = es"
  unfolding layout_entries_def by (auto split: list.split)

lemma layout_entries_complete:
  assumes "i \<in> set (map fst nodes)" and "distinct (map fst nodes)" and "parents_of nodes i = []"
  shows "i \<in> set (layout_entries actions nodes)"
proof -
  let ?es = "map fst (filter (\<lambda>(i, n). ln_parents n = []) nodes)"
  obtain n where n: "(i, n) \<in> set nodes" using assms(1) by auto
  then have "ln_parents n = []" using assms(2,3) by (simp add: parents_of_def)
  with n have "i \<in> set ?es" by force
  then show ?thesis using layout_entries_roots [OF refl] by (metis empty_iff empty_set)
qed

lemma layout_entries_known: "set (layout_entries actions nodes) \<subseteq> set (map fst nodes)"
proof (cases "map fst (filter (\<lambda>(i, n). ln_parents n = []) nodes) = []")
  case True
  then show ?thesis
    by (auto simp: layout_entries_def map_of_eq_None_iff rev_image_eqI split: list.split if_splits)
next
  case False
  from layout_entries_roots [OF refl this] show ?thesis by auto
qed

lemma layout_depths_longest:
  assumes "acyclic (action_edges actions cs)" and "i \<in> ac_id ` set actions"
  shows "(\<exists>e. (e, i) \<in> action_edges actions cs ^^ layout_depths actions (buildNodeGraph actions cs) i)
    \<and> (\<forall>e k. (e, i) \<in> action_edges actions cs ^^ k \<longrightarrow> k \<le> layout_depths actions (buildNodeGraph actions cs) i)"
proof -
  let ?n = "buildNodeGraph actions cs"
  let ?ids = "map fst ?n" and ?f = "children_of ?n" and ?es = "layout_entries actions ?n"
  have E: "node_edges ?f ?ids = action_edges actions cs"
    unfolding node_edges_def build_graph(1,3) by (auto simp: action_edges_def)
  have es: "set ?es \<subseteq> set ?ids" by (rule layout_entries_known)
  have "bfs_sound ?f ?ids ?es (map (\<lambda>i. (i, 0)) ?es, ?es, \<lambda>_. 0)"
    "bfs_complete ?f ?ids (map (\<lambda>i. (i, 0)) ?es, ?es, \<lambda>_. 0)"
    using es by (auto simp: path_to_def simp del: set_map) (auto simp: path_to_def)
  from al_bfs_correct [OF this] obtain v
    where v: "bfs_sound ?f ?ids ?es ([], v, layout_depths actions ?n)" "bfs_complete ?f ?ids ([], v, layout_depths actions ?n)"
    unfolding layout_depths_def Let_def by blast
  have "x \<in> set ?es" if "x \<in> set ?ids" "\<forall>a. (a, x) \<notin> node_edges ?f ?ids" for x
  proof (rule layout_entries_complete [OF that(1) build_graph(2)])
    show "parents_of ?n x = []" using that(2) build_graph(4) [of _ actions cs x] unfolding E by (metis list.set_intros(1) neq_Nil_conv)
  qed
  from complete_longest [OF v _ build_graph(2) this] show ?thesis unfolding E build_graph(1) using assms by blast
qed

section \<open>Columns\<close>

text \<open>Identifiers, depths and abscissas of the nodes, which the adjustment of branches keeps.\<close>

definition columns :: "LayoutNodes \<Rightarrow> (ident \<times> nat \<times> rat) list" where
  "columns nodes = map (\<lambda>(i, n). (i, ln_depth n, fst (ln_position n))) nodes"

lemma columns_keys: "map fst (columns nodes) = map fst nodes"
  by (simp add: columns_def case_prod_beta')

lemma map_of_columns: "map_of (columns nodes) i = map_option (\<lambda>n. (ln_depth n, fst (ln_position n))) (map_of nodes i)"
  unfolding columns_def by (induction nodes) auto

lemma columns_update:
  "(\<And>n. ln_depth (f n) = ln_depth n \<and> fst (ln_position (f n)) = fst (ln_position n))
     \<Longrightarrow> columns (node_update i f nodes) = columns nodes"
  by (auto simp: columns_def node_update_def)

lemma fold_keeps: "(\<And>x s. x \<in> set xs \<Longrightarrow> g (f x s) = g s) \<Longrightarrow> g (fold f xs s) = g s"
  by (induction xs arbitrary: s) simp_all

lemma columns_adjust: "columns (adjustBranches o' cs nodes) = columns nodes"
proof -
  have "columns (adjust_children o' y ch m) = columns m" for y ch m
    unfolding adjust_children_def Let_def by (rule fold_keeps) (auto intro: columns_update)
  then have "columns (adjust_node o' cs i m) = columns m" for i m
    unfolding adjust_node_def Let_def by (simp split: option.split)
  then show ?thesis unfolding adjustBranches_def by (rule fold_keeps)
qed

text \<open>A group is placed in its column, and the other nodes stay.\<close>

lemma sort_nodes_set: "set (sortNodesByParentPosition nodes is) = set is"
  by (auto simp: sortNodesByParentPosition_def Let_def)

definition in_column :: "LayoutOptions \<Rightarrow> nat \<Rightarrow> rat" where
  "in_column o' d = lo_startX o' + of_nat d * lo_horizontalSpacing o'"

lemma place_nodes:
  "map_of (columns (fold (\<lambda>(index, i). node_update i (\<lambda>n. n\<lparr>ln_position := (x, y index)\<rparr>)) (enumerate k is) nodes)) j
     = map_option (\<lambda>(d, x'). (d, if j \<in> set is then x else x')) (map_of (columns nodes) j)"
proof (induction "is" arbitrary: k nodes)
  case (Cons i "is")
  have "map_of (columns (node_update i (\<lambda>n. n\<lparr>ln_position := (x, y k)\<rparr>) nodes)) j
      = map_option (\<lambda>(d, x'). (d, if j = i then x else x')) (map_of (columns nodes) j)"
    by (cases "map_of nodes j") (simp_all add: map_of_columns map_of_node_update)
  then show ?case
    unfolding enumerate_simps fold_Cons o_apply prod.case Cons.IH
    by (cases "map_of (columns nodes) j") auto
qed (simp add: case_prod_beta' option.map_ident)

lemma place_group_columns:
  "map_of (columns (place_group o' g nodes)) j
     = map_option (\<lambda>(d, x'). (d, if j \<in> set (snd g) then in_column o' (fst g) else x')) (map_of (columns nodes) j)"
  unfolding place_group_def place_nodes sort_nodes_set in_column_def by (rule refl)

lemma place_groups_columns:
  assumes "map_of (columns nodes) j = Some (d, x)" and "\<forall>g \<in> set gs. j \<in> set (snd g) \<longleftrightarrow> fst g = d"
  shows "map_of (columns (fold (place_group o') gs nodes)) j
    = Some (d, if d \<in> fst ` set gs then in_column o' d else x)"
  using assms
proof (induction gs arbitrary: nodes x)
  case (Cons g gs)
  have "map_of (columns (place_group o' g nodes)) j = Some (d, if fst g = d then in_column o' d else x)"
    using Cons.prems by (auto simp: place_group_columns)
  then show ?case using Cons.IH [of "place_group o' g nodes"] Cons.prems(2) by auto
qed simp

lemma assigned_columns:
  assumes "distinct (map fst nodes)" and "map_of nodes j = Some n"
  shows "map_of (columns (al_assignPositions o' nodes)) j = Some (ln_depth n, in_column o' (ln_depth n))"
proof -
  have n: "(j, n) \<in> set nodes" using assms(2) by (rule map_of_SomeD)
  have "(j \<in> set (snd g)) = (fst g = ln_depth n)" if g: "g \<in> set (groupByDepth nodes)" for g
  proof -
    from g obtain d where "g = (d, map fst (filter (\<lambda>(i, n). ln_depth n = d) nodes))"
      by (auto simp: groupByDepth_def)
    then have "j \<in> set (snd g) \<longleftrightarrow> (\<exists>n'. (j, n') \<in> set nodes \<and> ln_depth n' = fst g)"
      by (simp add: image_iff)
    also have "\<dots> \<longleftrightarrow> fst g = ln_depth n"
    proof
      assume "\<exists>n'. (j, n') \<in> set nodes \<and> ln_depth n' = fst g"
      then obtain n' where "(j, n') \<in> set nodes" "ln_depth n' = fst g" by blast
      with eq_key_imp_eq_value [OF assms(1) this(1) n] show "fst g = ln_depth n" by simp
    next
      assume "fst g = ln_depth n"
      then have "(j, n) \<in> set nodes \<and> ln_depth n = fst g" using n by simp
      then show "\<exists>n'. (j, n') \<in> set nodes \<and> ln_depth n' = fst g" by (rule exI)
    qed
    finally show ?thesis .
  qed
  moreover have "ln_depth n \<in> fst ` set (groupByDepth nodes)"
    using n by (force simp: groupByDepth_def)
  moreover have "map_of (columns nodes) j = Some (ln_depth n, fst (ln_position n))"
    using assms(2) by (simp add: map_of_columns)
  ultimately show ?thesis
    using place_groups_columns [of nodes j "ln_depth n"] unfolding al_assignPositions_def by simp
qed

lemma map_of_map_depth:
  "map_of (map (\<lambda>(i, n). (i, n\<lparr>ln_depth := depth i\<rparr>)) nodes) i = map_option (\<lambda>n. n\<lparr>ln_depth := depth i\<rparr>) (map_of nodes i)"
  by (induction nodes) auto

lemma layout_columns_depth:
  assumes "i \<in> ac_id ` set actions"
  shows "\<exists>n. map_of (layout_nodes o' actions cs) i = Some n
    \<and> fst (ln_position n) = in_column o' (layout_depths actions (buildNodeGraph actions cs) i)"
proof -
  let ?g = "buildNodeGraph actions cs"
  let ?c = "calculateDepths actions ?g"
  obtain n where n: "map_of ?g i = Some n"
    using assms build_graph(1) [of actions cs] by (metis map_of_eq_None_iff not_None_eq set_map)
  have "map_of ?c i = Some (n\<lparr>ln_depth := layout_depths actions ?g i\<rparr>)"
    using n by (simp add: calculateDepths_def Let_def map_of_map_depth)
  moreover have "distinct (map fst ?c)"
    using build_graph(2) [of actions cs] by (simp add: calculateDepths_def Let_def comp_def case_prod_beta')
  ultimately have "map_of (columns (layout_nodes o' actions cs)) i
      = Some (layout_depths actions ?g i, in_column o' (layout_depths actions ?g i))"
    using assigned_columns [of ?c i _ o'] by (simp add: layout_nodes_def columns_adjust)
  then show ?thesis by (auto simp: map_of_columns)
qed

section \<open>Rows\<close>

lemma place_other:
  "j \<notin> set is \<Longrightarrow> map_of (fold (\<lambda>(index, i). node_update i (f index)) (enumerate k is) nodes) j = map_of nodes j"
  by (induction "is" arbitrary: k nodes) (simp_all add: map_of_node_update option.map_ident)

lemma place_ordinate:
  assumes "map_of (fold (\<lambda>(index, i). node_update i (\<lambda>n. n\<lparr>ln_position := (x, y index)\<rparr>)) (enumerate k is) nodes) j
      = Some n" and "j \<in> set is"
  shows "\<exists>m < k + length is. snd (ln_position n) = y m"
  using assms
proof (induction "is" arbitrary: k nodes)
  case (Cons i "is")
  show ?case
  proof (cases "j \<in> set is")
    case True
    with Cons.IH [of "Suc k"] Cons.prems(1) show ?thesis by (auto simp del: fold_simps simp: fold_Cons)
  next
    case False
    then have "map_of (node_update i (\<lambda>n. n\<lparr>ln_position := (x, y k)\<rparr>) nodes) j = Some n" "j = i"
      using Cons.prems place_other [OF False, of "\<lambda>index n. n\<lparr>ln_position := (x, y index)\<rparr>"] by simp_all
    then have "snd (ln_position n) = y k" by (auto simp: map_of_node_update)
    then show ?thesis by (intro exI [of _ k]) simp
  qed
qed simp

lemma sort_nodes_length: "length (sortNodesByParentPosition nodes is) = length is"
  unfolding sortNodesByParentPosition_def Let_def length_append length_sort by (rule sum_length_filter_compl)

text \<open>The ordinate of a node, when it is one of the first rows.\<close>

definition in_rows :: "LayoutOptions \<Rightarrow> nat \<Rightarrow> ident \<Rightarrow> LayoutNodes \<Rightarrow> bool" where
  "in_rows o' k j nodes \<longleftrightarrow>
     (\<forall>n. map_of nodes j = Some n \<longrightarrow> (\<exists>m < k. snd (ln_position n) = lo_startY o' + of_nat m * lo_verticalSpacing o'))"

lemma place_group_rows:
  assumes "j \<in> set (snd g)" and "length (snd g) \<le> k"
  shows "in_rows o' k j (place_group o' g nodes)"
proof -
  have "\<exists>m < k. snd (ln_position n) = lo_startY o' + of_nat m * lo_verticalSpacing o'"
    if "map_of (place_group o' g nodes) j = Some n" for n
  proof -
    have "\<exists>m < 0 + length (sortNodesByParentPosition nodes (snd g)).
        snd (ln_position n) = lo_startY o' + of_nat m * lo_verticalSpacing o'"
      by (rule place_ordinate [OF that [unfolded place_group_def]]) (simp add: sort_nodes_set assms(1))
    then show ?thesis using assms(2) unfolding sort_nodes_length by (metis add_0 order_less_le_trans)
  qed
  then show ?thesis by (simp add: in_rows_def)
qed

lemma place_groups_rows:
  assumes "\<forall>g \<in> set gs. j \<in> set (snd g) \<longrightarrow> length (snd g) \<le> k"
  shows "(\<exists>g \<in> set gs. j \<in> set (snd g)) \<or> in_rows o' k j nodes \<Longrightarrow> in_rows o' k j (fold (place_group o') gs nodes)"
  using assms
proof (induction gs arbitrary: nodes)
  case (Cons g gs)
  have "in_rows o' k j (place_group o' g nodes)" if "in_rows o' k j nodes" "j \<notin> set (snd g)"
    using that place_other [of j "sortNodesByParentPosition nodes (snd g)"]
    by (simp add: in_rows_def place_group_def sort_nodes_set)
  then have "(\<exists>h \<in> set gs. j \<in> set (snd h)) \<or> in_rows o' k j (place_group o' g nodes)"
    using Cons.prems place_group_rows [of j g k o' nodes] by auto
  then show ?case using Cons by simp
qed simp

lemma adjust_unbranched:
  assumes "\<forall>(s, u) \<in> set cs. \<forall>main. ou_main u = Some main \<longrightarrow> length main \<le> 1"
  shows "adjustBranches o' cs nodes = nodes"
proof -
  have "length main \<le> 1" if "Option.bind (map_of cs i) ou_main = Some main" for i main
    using that assms by (auto simp: bind_eq_Some_conv dest!: map_of_SomeD)
  then have "adjust_node o' cs i m = m" for i m
    unfolding adjust_node_def Let_def by (auto split: option.split)
  then have "adjust_node o' cs = (\<lambda>_ m. m)" by blast
  then have "fold (adjust_node o' cs) is nodes = nodes" for "is" by (induction "is") simp_all
  then show ?thesis by (simp add: adjustBranches_def)
qed

text \<open>An action that is alone at its depth is put in the first row, when nothing branches.\<close>

lemma layout_single:
  assumes "\<forall>(s, u) \<in> set cs. \<forall>main. ou_main u = Some main \<longrightarrow> length main \<le> 1"
    and "i \<in> ac_id ` set actions"
    and "\<And>j. j \<in> ac_id ` set actions \<Longrightarrow> layout_depths actions (buildNodeGraph actions cs) j
      = layout_depths actions (buildNodeGraph actions cs) i \<Longrightarrow> j = i"
  shows "\<exists>n. map_of (layout_nodes o' actions cs) i = Some n
    \<and> ln_position n = (in_column o' (layout_depths actions (buildNodeGraph actions cs) i), lo_startY o')"
proof -
  let ?g = "buildNodeGraph actions cs"
  let ?c = "calculateDepths actions ?g"
  obtain n where n: "map_of (layout_nodes o' actions cs) i = Some n"
    "fst (ln_position n) = in_column o' (layout_depths actions ?g i)"
    using layout_columns_depth [OF assms(2)] by blast
  have keys: "map fst ?c = map fst ?g" by (simp add: calculateDepths_def Let_def comp_def case_prod_beta')
  have depth: "ln_depth m = layout_depths actions ?g j" if "(j, m) \<in> set ?c" for j m
    using that by (auto simp: calculateDepths_def Let_def)
  have "j \<in> ac_id ` set actions" if "(j, m) \<in> set ?c" for j m
    using that keys build_graph(1) [of actions cs] by (metis fst_conv image_eqI set_map)
  then have single: "j = i" if "(j, m) \<in> set ?c" "ln_depth m = layout_depths actions ?g i" for j m
    using assms(3) [of j] depth that by metis
  have "length (snd g) \<le> 1" if g: "g \<in> set (groupByDepth ?c)" "i \<in> set (snd g)" for g
  proof -
    from g obtain d where d: "snd g = map fst (filter (\<lambda>(i, n). ln_depth n = d) ?c)"
      by (auto simp: groupByDepth_def)
    have "distinct (map fst ?c)" unfolding keys by (rule build_graph(2))
    then have "distinct (snd g)" unfolding d by (rule distinct_map_filter)
    moreover have "set (snd g) \<subseteq> {i}"
    proof
      fix j assume "j \<in> set (snd g)"
      then obtain m where "(j, m) \<in> set ?c" "ln_depth m = d" unfolding d by auto
      moreover obtain m' where "(i, m') \<in> set ?c" "ln_depth m' = d" using g(2) unfolding d by auto
      ultimately show "j \<in> {i}" using depth single by (metis singletonI)
    qed
    ultimately have "card (set (snd g)) \<le> 1" "length (snd g) = card (set (snd g))"
      using card_mono [of "{i}" "set (snd g)"] by (simp_all add: distinct_card)
    then show ?thesis by simp
  qed
  moreover have "\<exists>g \<in> set (groupByDepth ?c). i \<in> set (snd g)"
  proof -
    have "i \<in> set (map fst ?c)" unfolding keys build_graph(1) by (rule assms(2))
    then obtain m where "(i, m) \<in> set ?c" by auto
    then show ?thesis by (force simp: groupByDepth_def)
  qed
  ultimately have "in_rows o' 1 i (al_assignPositions o' ?c)"
    unfolding al_assignPositions_def by (intro place_groups_rows) blast+
  then have "snd (ln_position n) = lo_startY o'"
    using n(1) unfolding layout_nodes_def adjust_unbranched [OF assms(1)] in_rows_def by auto
  with n show ?thesis by (metis prod.collapse)
qed

section \<open>Properties\<close>

text \<open>
  C28: the columns of the layout. In a workflow without cycles every action is put in the column of its
  depth, startX plus that many spacings, and the depth is the length of the longest path of connections
  that ends in the action.
\<close>

theorem layout_longest_path:
  assumes "acyclic (action_edges actions cs)" and "i < length actions"
  shows "\<exists>d y. ac_position (layoutActions o' actions cs ! i)
        = Some [lo_startX o' + of_nat d * lo_horizontalSpacing o', y]
    \<and> (\<exists>e. (e, ac_id (actions ! i)) \<in> action_edges actions cs ^^ d)
    \<and> (\<forall>e k. (e, ac_id (actions ! i)) \<in> action_edges actions cs ^^ k \<longrightarrow> k \<le> d)"
proof -
  have i: "ac_id (actions ! i) \<in> ac_id ` set actions" using assms(2) by simp
  obtain n where n: "map_of (layout_nodes o' actions cs) (ac_id (actions ! i)) = Some n"
      "fst (ln_position n) = in_column o' (layout_depths actions (buildNodeGraph actions cs) (ac_id (actions ! i)))"
    using layout_columns_depth [OF i] by blast
  have "ac_position (layoutActions o' actions cs ! i) = Some [fst (ln_position n), snd (ln_position n)]"
    using assms(2) n(1) by (auto simp: layoutActions_def applyPositions_def)
  then show ?thesis using layout_depths_longest [OF assms(1) i] unfolding n(2) in_column_def by blast
qed

text \<open>The connections of a workflow lead forward in a list of identifiers.\<close>

lemma acyclic_forward:
  assumes "\<forall>(s, u) \<in> set cs. \<forall>t \<in> set (targets_of all_types u). rank s < (rank t :: nat)"
  shows "acyclic (action_edges actions cs)"
proof -
  have "(a, b) \<in> action_edges actions cs \<Longrightarrow> rank a < rank b" for a b
    using assms by (auto simp: action_edges_def)
  then show ?thesis by (intro acyclicI_order [of _ "\<lambda>x. - int (rank x)"]) simp
qed

definition shortcut :: Workflow where
  "shortcut = workflow_example [''a'', ''b'', ''c''] [(''a'', [''b'', ''c'']), (''b'', [''c''])]"

theorem layout_longest_path_witness:
  "\<exists>d y. ac_position (layoutActions (createAutoLayout None None None None None) (wf_actions shortcut)
        (wf_connections shortcut) ! 2) = Some [100 + of_nat d * 200, y]
    \<and> (\<exists>e. (e, ''c'') \<in> action_edges (wf_actions shortcut) (wf_connections shortcut) ^^ d)
    \<and> (\<forall>e k. (e, ''c'') \<in> action_edges (wf_actions shortcut) (wf_connections shortcut) ^^ k \<longrightarrow> k \<le> d)"
proof -
  let ?rank = "\<lambda>x. if x = ''a'' then 0 else if x = ''b'' then 1 else (2 :: nat)"
  have "acyclic (action_edges (wf_actions shortcut) (wf_connections shortcut))"
    by (rule acyclic_forward [where rank = ?rank]) (simp add: shortcut_def graph_eval)
  moreover have "2 < length (wf_actions shortcut)" "ac_id (wf_actions shortcut ! 2) = ''c''"
    by (simp_all add: shortcut_def graph_eval)
  ultimately show ?thesis
    using layout_longest_path [of "wf_actions shortcut" "wf_connections shortcut" 2 "createAutoLayout None None None None None"]
    by (simp add: createAutoLayout_def)
qed

end
