(* ===== verification/Three_Way_Merge.thy ===== *)
theory Three_Way_Merge
  imports Auto_Layout
begin

text \<open>
  The three-way merge of the collaboration services (ConflictDetector and ConflictResolutionService in
  frontend/src/services/collaboration/conflict-resolution-service.ts). The three versions are parsed from
  three responses, so they are JSON values that share no object: \<open>!==\<close> holds between any two of their
  objects. Objects keep the order of their keys, which \<open>JSON.stringify\<close> shows; no key is the name of
  something that every object inherits. Identifiers and times of conflicts are given by a
  function of the number of the conflict. Below the top level the merge writes into the base that it was
  given; this is not followed, since what is written there belongs to keys with a conflict, which no later
  step reads.
\<close>

section \<open>Values\<close>

datatype jval =
    VUndef | VNull | VBool bool | VNum rat | VStr string
  | VArr "jval list" | VObj "(string \<times> jval) list"

fun js_truthy :: "jval \<Rightarrow> bool" where
  "js_truthy VUndef = False"
| "js_truthy VNull = False"
| "js_truthy (VBool b) = b"
| "js_truthy (VNum q) = (q \<noteq> 0)"
| "js_truthy (VStr s) = (s \<noteq> [])"
| "js_truthy _ = True"

text \<open>\<open>typeof v === "object"\<close>, and the same without arrays.\<close>

fun is_object :: "jval \<Rightarrow> bool" where
  "is_object VNull = True"
| "is_object (VArr _) = True"
| "is_object (VObj _) = True"
| "is_object _ = False"

definition is_record :: "jval \<Rightarrow> bool" where
  "is_record v \<longleftrightarrow> is_object v \<and> (case v of VArr _ \<Rightarrow> False | _ \<Rightarrow> True)"

text \<open>\<open>===\<close> between values of different documents.\<close>

fun strict_eq :: "jval \<Rightarrow> jval \<Rightarrow> bool" where
  "strict_eq (VArr _) _ = False"
| "strict_eq (VObj _) _ = False"
| "strict_eq a b = (a = b)"

text \<open>Own enumerable properties, and reading one of a value that has properties.\<close>

fun own_entries :: "jval \<Rightarrow> (string \<times> jval) list" where
  "own_entries (VObj m) = m"
| "own_entries (VArr xs) = zip (map nat_string [0..<length xs]) xs"
| "own_entries (VStr s) = zip (map nat_string [0..<length s]) (map (\<lambda>c. VStr [c]) s)"
| "own_entries _ = []"

definition js_prop :: "jval \<Rightarrow> string \<Rightarrow> jval" where
  "js_prop v k = (case map_of (own_entries v) k of None \<Rightarrow> VUndef | Some x \<Rightarrow> x)"

definition get_prop :: "jval \<Rightarrow> string \<Rightarrow> js_error + jval" where
  "get_prop v k = (if v = VUndef \<or> v = VNull then Inl TypeError else Inr (js_prop v k))"

section \<open>Conflicts\<close>

datatype ConflictType =
  ActionModified | ActionRemoved | PropertyChanged | ConnectionChanged | StructureChanged | MetadataChanged

datatype ResolutionStrategy = KeepLocal | KeepRemote | MergeVersions | Manual

datatype ConflictSeverity = Low | Medium | High

datatype ResourceType = Res_workflow | Res_state | Res_image | Res_transition | Res_action | Res_connection

record Conflict =
  cf_id :: ident
  cf_type :: ConflictType
  cf_resourceType :: ResourceType
  cf_resourceId :: ident
  cf_local :: jval
  cf_server :: jval
  cf_base :: jval
  cf_path :: "string list"
  cf_severity :: ConflictSeverity
  cf_autoResolvable :: bool
  cf_createdAt :: millis

record ConflictDetectorConfig =
  cd_detectPropertyChanges :: bool
  cd_detectStructuralChanges :: bool
  cd_minimumSeverity :: ConflictSeverity
  cd_customRules :: "(jval \<Rightarrow> jval \<Rightarrow> jval \<Rightarrow> Conflict option) list"

definition default_detector :: ConflictDetectorConfig where
  "default_detector =
     \<lparr>cd_detectPropertyChanges = True, cd_detectStructuralChanges = True, cd_minimumSeverity = Low, cd_customRules = []\<rparr>"

definition isAutoResolvable :: "ConflictType \<Rightarrow> jval \<Rightarrow> jval \<Rightarrow> jval \<Rightarrow> bool" where
  "isAutoResolvable t l r b =
     (case t of
        PropertyChanged \<Rightarrow> (case (l, r, b) of (VNum _, VNum _, VNum _) \<Rightarrow> True | _ \<Rightarrow> False)
      | MetadataChanged \<Rightarrow> True
      | _ \<Rightarrow> False)"

definition determineSeverity :: "ConflictType \<Rightarrow> ConflictSeverity" where
  "determineSeverity t =
     (if t \<in> {ActionRemoved, StructureChanged, ConnectionChanged} then High
      else if t = ActionModified then Medium else Low)"

definition lower_char :: "char \<Rightarrow> char" where
  "lower_char c = (let n = of_char c :: nat in if 65 \<le> n \<and> n \<le> 90 then char_of (n + 32) else c)"

definition inferResourceType :: "string list \<Rightarrow> ResourceType" where
  "inferResourceType path =
     (case path of
        [] \<Rightarrow> Res_workflow
      | firstSegment # _ \<Rightarrow>
          if firstSegment = [] then Res_workflow
          else let segment = map lower_char firstSegment
               in if sublist ''action'' segment then Res_action
                  else if sublist ''connection'' segment then Res_connection
                  else if sublist ''state'' segment then Res_state
                  else if sublist ''image'' segment then Res_image
                  else if sublist ''transition'' segment then Res_transition
                  else Res_workflow)"

text \<open>A conflict before it has its identifier and its time.\<close>

definition createConflict :: "ConflictType \<Rightarrow> jval \<Rightarrow> jval \<Rightarrow> jval \<Rightarrow> string list \<Rightarrow> Conflict" where
  "createConflict t l r b path =
     \<lparr>cf_id = [], cf_type = t, cf_resourceType = inferResourceType path,
      cf_resourceId = (case path of [] \<Rightarrow> [] | p # _ \<Rightarrow> p), cf_local = l, cf_server = r, cf_base = b,
      cf_path = path, cf_severity = determineSeverity t, cf_autoResolvable = isAutoResolvable t l r b,
      cf_createdAt = 0\<rparr>"

definition stamp_conflicts :: "(nat \<Rightarrow> ident \<times> millis) \<Rightarrow> Conflict list \<Rightarrow> Conflict list" where
  "stamp_conflicts gen cs =
     map (\<lambda>(k, c). c\<lparr>cf_id := fst (gen k), cf_createdAt := snd (gen k)\<rparr>) (enumerate 0 cs)"

definition getSeverityLevel :: "ConflictSeverity \<Rightarrow> nat" where
  "getSeverityLevel s = (case s of Low \<Rightarrow> 1 | Medium \<Rightarrow> 2 | High \<Rightarrow> 3)"

section \<open>Detection\<close>

lemma entry_size: "(k, v) \<in> set m \<Longrightarrow> size v < size (VObj m)"
proof (induction m)
  case (Cons p m)
  then show ?case by (cases p) auto
qed simp

lemma prop_size:
  assumes "is_record (js_prop v k)"
  shows "size (js_prop v k) < size v"
proof -
  obtain x where x: "map_of (own_entries v) k = Some x" "js_prop v k = x"
    using assms by (auto simp: js_prop_def is_record_def split: option.splits)
  note e = map_of_SomeD [OF x(1)]
  show ?thesis
  proof (cases v)
    case (VStr s)
    then show ?thesis using e assms x(2) by (auto simp: is_record_def dest!: set_zip_rightD)
  next
    case (VArr xs)
    then have "x \<in> set xs" using e by (auto dest: set_zip_rightD)
    then show ?thesis using VArr x(2) by (simp add: size_list_estimation' less_Suc_eq_le)
  next
    case (VObj m)
    then show ?thesis using e x(2) entry_size by simp
  qed (use x in auto)
qed

function detectPropertyConflicts :: "jval \<Rightarrow> jval \<Rightarrow> jval \<Rightarrow> string list \<Rightarrow> Conflict list" where
  "detectPropertyConflicts l r b path =
     (if \<not> js_truthy l \<or> \<not> js_truthy r \<or> \<not> js_truthy b then []
      else if \<not> is_object l \<or> \<not> is_object r \<or> \<not> is_object b
      then (if \<not> strict_eq l b \<and> \<not> strict_eq r b \<and> \<not> strict_eq l r then [createConflict PropertyChanged l r b path] else [])
      else concat (map (\<lambda>key.
        let lv = js_prop l key; rv = js_prop r key; bv = js_prop b key
        in (if \<not> strict_eq lv bv \<and> \<not> strict_eq rv bv \<and> \<not> strict_eq lv rv
            then if is_record lv \<and> is_record rv \<and> is_record bv
                 then detectPropertyConflicts lv rv bv (path @ [key])
                 else [createConflict PropertyChanged lv rv bv (path @ [key])]
            else [])
           @ (if lv = VUndef \<and> \<not> strict_eq rv bv \<and> bv \<noteq> VUndef \<or> rv = VUndef \<and> \<not> strict_eq lv bv \<and> bv \<noteq> VUndef
              then [createConflict ActionRemoved lv rv bv (path @ [key])] else []))
        (uniq (map fst (own_entries l @ own_entries r @ own_entries b)))))"
  by pat_completeness auto

termination
  by (relation "measure (\<lambda>(l, r, b, path). size l)") (auto intro: prop_size)

declare detectPropertyConflicts.simps [simp del]

text \<open>
  The properties \<open>actions\<close> and \<open>connections\<close> as arrays of items with an identifier. A value without a method
  \<open>map\<close>, or an item that has no properties, is a \<open>TypeError\<close>.
\<close>

definition item_id :: "jval \<Rightarrow> js_error + string" where
  "item_id item =
     (case item of
        VUndef \<Rightarrow> Inl TypeError
      | VNull \<Rightarrow> Inl TypeError
      | _ \<Rightarrow> (case js_prop item ''id'' of VStr s \<Rightarrow> Inr s | _ \<Rightarrow> Inl Unmodelled))"

fun items_by_id :: "jval list \<Rightarrow> (string \<times> jval) list \<Rightarrow> js_error + (string \<times> jval) list" where
  "items_by_id [] m = Inr m"
| "items_by_id (x # xs) m = ebind (item_id x) (\<lambda>i. items_by_id xs (map_set i x m))"

definition as_items :: "jval \<Rightarrow> js_error + (string \<times> jval) list" where
  "as_items v = (case v of VArr xs \<Rightarrow> items_by_id xs [] | _ \<Rightarrow> Inl TypeError)"

text \<open>\<open>JSON.stringify\<close> of two JSON values is the same exactly if they are, with the order of their keys.\<close>

definition item_conflicts ::
    "ConflictType \<Rightarrow> string list \<Rightarrow> (string \<times> jval) list \<Rightarrow> (string \<times> jval) list \<Rightarrow> (string \<times> jval) list
      \<Rightarrow> string \<Rightarrow> Conflict list" where
  "item_conflicts t path lm rm bm i =
     (case (map_of lm i, map_of rm i, map_of bm i) of
        (Some li, Some ri, Some bi) \<Rightarrow>
          if li \<noteq> bi \<and> ri \<noteq> bi \<and> li \<noteq> ri then [createConflict t li ri bi (path @ [i])] else []
      | (None, Some ri, Some bi) \<Rightarrow>
          if ri \<noteq> bi then [createConflict ActionRemoved VUndef ri bi (path @ [i])] else []
      | (Some li, None, Some bi) \<Rightarrow>
          if li \<noteq> bi then [createConflict ActionRemoved li VUndef bi (path @ [i])] else []
      | _ \<Rightarrow> [])"

definition detectArrayConflicts ::
    "jval \<Rightarrow> jval \<Rightarrow> jval \<Rightarrow> string list \<Rightarrow> ConflictType \<Rightarrow> js_error + Conflict list" where
  "detectArrayConflicts l r b path t =
     ebind (as_items l) (\<lambda>lm. ebind (as_items r) (\<lambda>rm. ebind (as_items b) (\<lambda>bm.
       Inr (concat (map (item_conflicts t path lm rm bm) (uniq (map fst (lm @ rm @ bm))))))))"

text \<open>\<open>l.k && r.k && b.k\<close>, read from left to right.\<close>

definition all_truthy :: "string \<Rightarrow> jval \<Rightarrow> jval \<Rightarrow> jval \<Rightarrow> js_error + bool" where
  "all_truthy k l r b =
     ebind (get_prop l k) (\<lambda>lv. if \<not> js_truthy lv then Inr False
       else ebind (get_prop r k) (\<lambda>rv. if \<not> js_truthy rv then Inr False
         else ebind (get_prop b k) (\<lambda>bv. Inr (js_truthy bv))))"

definition structural_conflicts :: "string \<Rightarrow> ConflictType \<Rightarrow> jval \<Rightarrow> jval \<Rightarrow> jval \<Rightarrow> js_error + Conflict list" where
  "structural_conflicts k t l r b =
     ebind (all_truthy k l r b) (\<lambda>yes.
       if yes then detectArrayConflicts (js_prop l k) (js_prop r k) (js_prop b k) [k] t else Inr [])"

definition detectStructuralConflicts :: "jval \<Rightarrow> jval \<Rightarrow> jval \<Rightarrow> js_error + Conflict list" where
  "detectStructuralConflicts l r b =
     ebind (structural_conflicts ''actions'' ActionModified l r b) (\<lambda>as.
       ebind (structural_conflicts ''connections'' ConnectionChanged l r b) (\<lambda>cs. Inr (as @ cs)))"

definition detectVersionConflicts ::
    "ConflictDetectorConfig \<Rightarrow> (nat \<Rightarrow> ident \<times> millis) \<Rightarrow> jval \<Rightarrow> jval \<Rightarrow> jval \<Rightarrow> js_error + Conflict list" where
  "detectVersionConflicts cfg gen l r b =
     (let properties = (if cd_detectPropertyChanges cfg then detectPropertyConflicts l r b [] else [])
      in ebind (if cd_detectStructuralChanges cfg then detectStructuralConflicts l r b else Inr []) (\<lambda>structural.
        Inr (filter (\<lambda>c. getSeverityLevel (cf_severity c) \<ge> getSeverityLevel (cd_minimumSeverity cfg))
          (stamp_conflicts gen (properties @ structural)
           @ concat (map (\<lambda>rule. case rule l r b of None \<Rightarrow> [] | Some c \<Rightarrow> [c]) (cd_customRules cfg))))))"

section \<open>Resolution\<close>

text \<open>Spreading a value into an object.\<close>

definition spread_into :: "jval \<Rightarrow> (string \<times> jval) list \<Rightarrow> (string \<times> jval) list" where
  "spread_into v m = foldl (\<lambda>m kv. obj_set (fst kv) (snd kv) m) m (own_entries v)"

definition attemptAutoMerge :: "Conflict \<Rightarrow> jval" where
  "attemptAutoMerge c =
     (case cf_type c of
        PropertyChanged \<Rightarrow>
          (case (cf_local c, cf_server c, cf_base c) of
             (VNum l, VNum r, VNum b) \<Rightarrow> VNum (b + (l - b) + (r - b))
           | (VStr l, VStr r, _) \<Rightarrow> if length l \<ge> length r then VStr l else VStr r
           | _ \<Rightarrow> cf_local c)
      | MetadataChanged \<Rightarrow> VObj (spread_into (cf_local c) (spread_into (cf_server c) (spread_into (cf_base c) [])))
      | _ \<Rightarrow> cf_local c)"

definition resolve_with :: "Conflict \<Rightarrow> ResolutionStrategy \<Rightarrow> js_error + jval" where
  "resolve_with c strategy =
     (case strategy of
        KeepLocal \<Rightarrow> Inr (cf_local c)
      | KeepRemote \<Rightarrow> Inr (cf_server c)
      | MergeVersions \<Rightarrow> Inr (attemptAutoMerge c)
      | Manual \<Rightarrow> Inl (Error ''Manual resolution required - no automatic resolution available''))"

text \<open>Assigning a property; on an array, only to an element it has or to the next one.\<close>

definition set_prop :: "jval \<Rightarrow> string \<Rightarrow> jval \<Rightarrow> js_error + jval" where
  "set_prop v k x =
     (case v of
        VObj m \<Rightarrow> Inr (VObj (obj_set k x m))
      | VArr xs \<Rightarrow>
          (case array_index k of
             None \<Rightarrow> Inl Unmodelled
           | Some n \<Rightarrow> if n < length xs then Inr (VArr (xs[n := x]))
                       else if n = length xs then Inr (VArr (xs @ [x])) else Inl Unmodelled)
      | _ \<Rightarrow> Inl TypeError)"

fun applyResolution :: "jval \<Rightarrow> string list \<Rightarrow> jval \<Rightarrow> js_error + jval" where
  "applyResolution v [] x = Inr v"
| "applyResolution v [k] x = set_prop v k x"
| "applyResolution v (k # ks) x =
     (if k = [] then applyResolution v ks x
      else let child = (if js_truthy (js_prop v k) then js_prop v k else VObj [])
           in ebind (applyResolution child ks x) (\<lambda>child'. set_prop v k child'))"

record Resolution =
  rs_conflictId :: ident
  rs_strategy :: ResolutionStrategy
  rs_resolvedValue :: jval
  rs_resolvedAt :: millis

record MergeResult =
  mg_success :: bool
  mg_conflicts :: "Conflict list"
  mg_mergedVersion :: jval
  mg_resolutions :: "Resolution list"

definition auto_resolve_one :: "millis \<Rightarrow> Conflict \<Rightarrow> jval \<times> Resolution list \<Rightarrow> jval \<times> Resolution list" where
  "auto_resolve_one now c s =
     (if cf_autoResolvable c
      then (case applyResolution (fst s) (cf_path c) (attemptAutoMerge c) of
              Inl _ \<Rightarrow> s
            | Inr merged \<Rightarrow> (merged, snd s @ [\<lparr>rs_conflictId = cf_id c, rs_strategy = MergeVersions,
                rs_resolvedValue = attemptAutoMerge c, rs_resolvedAt = now\<rparr>]))
      else s)"

definition apply_change :: "jval \<Rightarrow> Conflict list \<Rightarrow> (string \<times> jval) list \<Rightarrow> string \<times> jval \<Rightarrow> (string \<times> jval) list" where
  "apply_change base conflicts target p =
     (if list_ex (\<lambda>c. cf_path c \<noteq> [] \<and> hd (cf_path c) = fst p) conflicts then target
      else if snd p \<noteq> js_prop base (fst p) then obj_set (fst p) (snd p) target
      else target)"

definition applyNonConflictingChanges :: "jval \<Rightarrow> jval \<Rightarrow> Conflict list \<Rightarrow> (string \<times> jval) list \<Rightarrow> (string \<times> jval) list" where
  "applyNonConflictingChanges source base conflicts target =
     (if \<not> js_truthy source \<or> \<not> is_object source then target
      else foldl (apply_change base conflicts) target (own_entries source))"

definition threeWayMerge ::
    "ConflictDetectorConfig \<Rightarrow> (nat \<Rightarrow> ident \<times> millis) \<Rightarrow> millis \<Rightarrow> jval \<Rightarrow> jval \<Rightarrow> jval \<Rightarrow> js_error + MergeResult" where
  "threeWayMerge cfg gen now l r b =
     ebind (detectVersionConflicts cfg gen l r b) (\<lambda>conflicts.
       let (merged, resolutions) = fold (auto_resolve_one now) conflicts (VObj (spread_into b []), []);
           open_conflicts = filter (\<lambda>c. \<not> cf_autoResolvable c) conflicts;
           changed = applyNonConflictingChanges r b conflicts (applyNonConflictingChanges l b conflicts (own_entries merged))
       in Inr \<lparr>mg_success = (open_conflicts = []), mg_conflicts = open_conflicts,
               mg_mergedVersion = VObj changed, mg_resolutions = resolutions\<rparr>)"

section \<open>The service\<close>

text \<open>What the server answers is an argument: the value of the response, or the exception of the request.\<close>

record ConflictCheckResult =
  cc_hasConflicts :: bool
  cc_conflicts :: "Conflict list"
  cc_serverVersion :: jval
  cc_canSave :: bool
  cc_suggestedStrategy :: "ResolutionStrategy option"

definition checkForConflicts ::
    "ConflictDetectorConfig \<Rightarrow> (nat \<Rightarrow> ident \<times> millis) \<Rightarrow> js_error + (jval \<times> jval) \<Rightarrow> jval \<Rightarrow> js_error + ConflictCheckResult" where
  "checkForConflicts cfg gen response localChanges =
     ebind response (\<lambda>(serverVersion, baseVersion).
       ebind (detectVersionConflicts cfg gen localChanges serverVersion baseVersion) (\<lambda>conflicts.
         Inr \<lparr>cc_hasConflicts = (conflicts \<noteq> []), cc_conflicts = conflicts, cc_serverVersion = serverVersion,
              cc_canSave = (conflicts = [] \<or> list_all cf_autoResolvable conflicts),
              cc_suggestedStrategy = (if conflicts = [] then None
                else if list_all cf_autoResolvable conflicts then Some MergeVersions else Some Manual)\<rparr>))"

record ConflictDetails =
  cx_conflict :: Conflict
  cx_availableStrategies :: "ResolutionStrategy list"
  cx_recommendedStrategy :: ResolutionStrategy
  cx_strategyPreviews :: "(ResolutionStrategy \<times> jval) list"

definition getConflictDetails :: "js_error + Conflict \<Rightarrow> js_error + ConflictDetails" where
  "getConflictDetails response =
     ebind response (\<lambda>c. ebind (resolve_with c MergeVersions) (\<lambda>preview.
       Inr \<lparr>cx_conflict = c,
            cx_availableStrategies = [KeepLocal, KeepRemote, Manual] @ (if cf_autoResolvable c then [MergeVersions] else []),
            cx_recommendedStrategy = (if cf_autoResolvable c then MergeVersions else Manual),
            cx_strategyPreviews = [(KeepLocal, cf_local c), (KeepRemote, cf_server c), (MergeVersions, preview), (Manual, VNull)]\<rparr>))"

record AutoResolutionResult =
  ar_resolved :: "Resolution list"
  ar_requiresManual :: "Conflict list"
  ar_successRate :: rat

text \<open>\<open>posted i\<close>: whether the request that resolves conflict \<open>i\<close> succeeds.\<close>

definition autoResolve :: "(ident \<Rightarrow> bool) \<Rightarrow> millis \<Rightarrow> Conflict list \<Rightarrow> AutoResolutionResult" where
  "autoResolve posted now conflicts =
     (let ok = (\<lambda>c. cf_autoResolvable c \<and> posted (cf_id c));
          resolved = map (\<lambda>c. \<lparr>rs_conflictId = cf_id c, rs_strategy = MergeVersions,
            rs_resolvedValue = attemptAutoMerge c, rs_resolvedAt = now\<rparr>) (filter ok conflicts)
      in \<lparr>ar_resolved = resolved, ar_requiresManual = filter (\<lambda>c. \<not> ok c) conflicts,
          ar_successRate = (if conflicts = [] then 1 else of_nat (length resolved) / of_nat (length conflicts))\<rparr>)"

definition mergeBranches ::
    "ConflictDetectorConfig \<Rightarrow> (nat \<Rightarrow> ident \<times> millis) \<Rightarrow> millis \<Rightarrow> js_error + jval \<Rightarrow> js_error + jval \<Rightarrow> js_error + jval
      \<Rightarrow> js_error + MergeResult" where
  "mergeBranches cfg gen now source target base =
     ebind source (\<lambda>s. ebind target (\<lambda>t. ebind base (\<lambda>b. threeWayMerge cfg gen now s t b)))"

section \<open>Flat documents\<close>

definition scalar :: "jval \<Rightarrow> bool" where
  "scalar v \<longleftrightarrow> (case v of VArr _ \<Rightarrow> False | VObj _ \<Rightarrow> False | _ \<Rightarrow> True)"

lemma scalar_simps [simp]:
  "scalar VUndef" "scalar VNull" "scalar (VBool c)" "scalar (VNum q)" "scalar (VStr s)" "\<not> scalar (VArr xs)" "\<not> scalar (VObj m)"
  by (simp_all add: scalar_def)

lemma scalar_eq [simp]: "scalar a \<Longrightarrow> strict_eq a b \<longleftrightarrow> a = b"
  by (cases a) auto

lemma scalar_record: "scalar v \<Longrightarrow> is_record v \<longleftrightarrow> v = VNull"
  by (cases v) (auto simp: is_record_def)

text \<open>An object with distinct keys and simple values.\<close>

definition flat :: "(string \<times> jval) list \<Rightarrow> bool" where
  "flat m \<longleftrightarrow> distinct (map fst m) \<and> list_all (\<lambda>(k, v). scalar v \<and> v \<noteq> VUndef) m"

lemma prop_obj: "js_prop (VObj m) k = (case map_of m k of None \<Rightarrow> VUndef | Some v \<Rightarrow> v)"
  by (simp add: js_prop_def)

lemma flat_prop: "flat m \<Longrightarrow> scalar (js_prop (VObj m) k)"
  by (auto simp: prop_obj flat_def list_all_iff split: option.split dest!: map_of_SomeD)

lemma flat_defined: "flat m \<Longrightarrow> js_prop (VObj m) k = VUndef \<longleftrightarrow> k \<notin> fst ` set m"
  by (auto simp: prop_obj flat_def list_all_iff map_of_eq_None_iff split: option.split dest!: map_of_SomeD)
    (metis map_of_eq_None_iff not_None_eq fst_conv image_eqI)+

text \<open>What is found at one key, and how a key is merged.\<close>

definition clash :: "jval \<Rightarrow> jval \<Rightarrow> jval \<Rightarrow> bool" where
  "clash l r b \<longleftrightarrow> l \<noteq> b \<and> r \<noteq> b \<and> l \<noteq> r"

definition numbers :: "jval \<Rightarrow> jval \<Rightarrow> jval \<Rightarrow> bool" where
  "numbers l r b \<longleftrightarrow> isAutoResolvable PropertyChanged l r b"

definition deletes :: "jval \<Rightarrow> jval \<Rightarrow> jval \<Rightarrow> bool" where
  "deletes l r b \<longleftrightarrow> b \<noteq> VUndef \<and> (l = VUndef \<and> r \<noteq> b \<or> r = VUndef \<and> l \<noteq> b)"

definition key_conflicts :: "jval \<Rightarrow> jval \<Rightarrow> jval \<Rightarrow> string list \<Rightarrow> Conflict list" where
  "key_conflicts l r b path =
     (if clash l r b then [createConflict PropertyChanged l r b path] else [])
     @ (if deletes l r b then [createConflict ActionRemoved l r b path] else [])"

definition doc_keys :: "(string \<times> jval) list \<Rightarrow> (string \<times> jval) list \<Rightarrow> (string \<times> jval) list \<Rightarrow> string list" where
  "doc_keys lm rm bm = uniq (map fst (lm @ rm @ bm))"

lemma detect_flat:
  assumes "flat lm" and "flat rm" and "flat bm"
  shows "detectPropertyConflicts (VObj lm) (VObj rm) (VObj bm) path
    = concat (map (\<lambda>k. key_conflicts (js_prop (VObj lm) k) (js_prop (VObj rm) k) (js_prop (VObj bm) k) (path @ [k])) (doc_keys lm rm bm))"
proof -
  let ?l = "\<lambda>k. js_prop (VObj lm) k" and ?r = "\<lambda>k. js_prop (VObj rm) k" and ?b = "\<lambda>k. js_prop (VObj bm) k"
  have "\<not> (is_record (?l k) \<and> is_record (?r k) \<and> is_record (?b k))" if "clash (?l k) (?r k) (?b k)" for k
    using that assms by (auto simp: clash_def flat_prop scalar_record)
  then have "(let lv = ?l k; rv = ?r k; bv = ?b k
      in (if \<not> strict_eq lv bv \<and> \<not> strict_eq rv bv \<and> \<not> strict_eq lv rv
          then if is_record lv \<and> is_record rv \<and> is_record bv
               then detectPropertyConflicts lv rv bv (path @ [k])
               else [createConflict PropertyChanged lv rv bv (path @ [k])]
          else [])
         @ (if lv = VUndef \<and> \<not> strict_eq rv bv \<and> bv \<noteq> VUndef \<or> rv = VUndef \<and> \<not> strict_eq lv bv \<and> bv \<noteq> VUndef
            then [createConflict ActionRemoved lv rv bv (path @ [k])] else []))
      = key_conflicts (?l k) (?r k) (?b k) (path @ [k])" for k
    using flat_prop [OF assms(1), of k] flat_prop [OF assms(2), of k]
    by (auto simp: Let_def key_conflicts_def clash_def deletes_def)
  then show ?thesis
    by (subst detectPropertyConflicts.simps) (simp only: doc_keys_def js_truthy.simps is_object.simps own_entries.simps simp_thms if_False)
qed

text \<open>The three outcomes for a value: the sum of two changes, the change of one side, the base.\<close>

definition merge_value :: "jval \<Rightarrow> jval \<Rightarrow> jval \<Rightarrow> jval" where
  "merge_value l r b =
     (if clash l r b
      then (case (l, r, b) of (VNum x, VNum y, VNum z) \<Rightarrow> VNum (x + y - z) | _ \<Rightarrow> b)
      else if r \<noteq> b \<and> r \<noteq> VUndef then r
      else if l \<noteq> b \<and> l \<noteq> VUndef then l
      else b)"

definition mergeable :: "jval \<Rightarrow> jval \<Rightarrow> jval \<Rightarrow> bool" where
  "mergeable l r b \<longleftrightarrow> (clash l r b \<longrightarrow> numbers l r b) \<and> \<not> deletes l r b"

section \<open>Conflicts at given paths\<close>

text \<open>The parts of a conflict that the merge looks at.\<close>

definition conflict_key :: "Conflict \<Rightarrow> string list \<times> bool \<times> jval" where
  "conflict_key c = (cf_path c, cf_autoResolvable c, attemptAutoMerge c)"

lemma stamped: "map conflict_key (stamp_conflicts gen cs) = map conflict_key cs"
proof -
  have key: "conflict_key (c\<lparr>cf_id := i, cf_createdAt := t\<rparr>) = conflict_key c" for c i t
  proof -
    have f: "cf_type (c\<lparr>cf_id := i, cf_createdAt := t\<rparr>) = cf_type c" "cf_local (c\<lparr>cf_id := i, cf_createdAt := t\<rparr>) = cf_local c"
      "cf_server (c\<lparr>cf_id := i, cf_createdAt := t\<rparr>) = cf_server c" "cf_base (c\<lparr>cf_id := i, cf_createdAt := t\<rparr>) = cf_base c"
      by simp_all
    have "attemptAutoMerge (c\<lparr>cf_id := i, cf_createdAt := t\<rparr>) = attemptAutoMerge c"
      unfolding attemptAutoMerge_def f ..
    then show ?thesis by (simp add: conflict_key_def)
  qed
  have "map conflict_key (map (\<lambda>(k, c). c\<lparr>cf_id := fst (gen k), cf_createdAt := snd (gen k)\<rparr>) (enumerate n cs)) = map conflict_key cs" for n
    by (induction cs arbitrary: n) (simp_all add: key)
  then show ?thesis by (simp add: stamp_conflicts_def)
qed

lemma low_keeps: "filter (\<lambda>c. getSeverityLevel (cf_severity c) \<ge> getSeverityLevel Low) cs = cs"
  by (rule filter_True) (auto simp: getSeverityLevel_def split: ConflictSeverity.split)

text \<open>The merge as a function of what is found.\<close>

definition merged_at :: "(string list \<times> bool \<times> jval) \<Rightarrow> jval \<Rightarrow> jval" where
  "merged_at p v = (if fst (snd p) then (case applyResolution v (fst p) (snd (snd p)) of Inl _ \<Rightarrow> v | Inr v' \<Rightarrow> v') else v)"

lemma fold_auto: "fst (fold (auto_resolve_one now) cs s) = fold merged_at (map conflict_key cs) (fst s)"
proof (induction cs arbitrary: s)
  case (Cons c cs)
  have "fst (auto_resolve_one now c s) = merged_at (conflict_key c) (fst s)"
    by (auto simp: auto_resolve_one_def merged_at_def conflict_key_def split: sum.split)
  then show ?case using Cons by simp
qed simp

lemma apply_changes_keys:
  "map conflict_key cs = map conflict_key ds \<Longrightarrow> applyNonConflictingChanges src base cs = applyNonConflictingChanges src base ds"
proof -
  assume keys: "map conflict_key cs = map conflict_key ds"
  have "list_ex (\<lambda>c. cf_path c \<noteq> [] \<and> hd (cf_path c) = k) es = list_ex (\<lambda>p. fst p \<noteq> [] \<and> hd (fst p) = k) (map conflict_key es)" for k es
    by (simp add: list_ex_iff conflict_key_def)
  then have change: "apply_change base cs = apply_change base ds" using keys by (simp add: apply_change_def fun_eq_iff)
  show ?thesis unfolding applyNonConflictingChanges_def change ..
qed

lemma merge_outcome:
  assumes "detectStructuralConflicts l r b = Inr []"
  shows "\<exists>m. threeWayMerge default_detector gen now l r b = Inr m
    \<and> (mg_success m \<longleftrightarrow> list_all cf_autoResolvable (detectPropertyConflicts l r b []))
    \<and> mg_mergedVersion m = VObj (applyNonConflictingChanges r b (detectPropertyConflicts l r b [])
        (applyNonConflictingChanges l b (detectPropertyConflicts l r b [])
          (own_entries (fold merged_at (map conflict_key (detectPropertyConflicts l r b [])) (VObj (spread_into b []))))))"
proof -
  let ?cs = "detectPropertyConflicts l r b []"
  let ?ds = "stamp_conflicts gen ?cs"
  have keys: "map conflict_key ?ds = map conflict_key ?cs" by (rule stamped)
  have found: "detectVersionConflicts default_detector gen l r b = Inr ?ds"
    using low_keeps [of ?ds] assms by (simp add: detectVersionConflicts_def default_detector_def)
  obtain merged res where f: "fold (auto_resolve_one now) ?ds (VObj (spread_into b []), []) = (merged, res)" by fastforce
  have "merged = fold merged_at (map conflict_key ?cs) (VObj (spread_into b []))"
    using fold_auto [of now ?ds "(VObj (spread_into b []), [])"] by (simp add: f keys)
  moreover have "(filter (\<lambda>c. \<not> cf_autoResolvable c) ?ds = []) \<longleftrightarrow> list_all cf_autoResolvable ?cs"
  proof -
    have "map cf_autoResolvable ?ds = map cf_autoResolvable ?cs"
      using arg_cong [OF keys, of "map (\<lambda>p. fst (snd p))"] by (simp add: comp_def conflict_key_def)
    then have "list_all id (map cf_autoResolvable ?ds) = list_all id (map cf_autoResolvable ?cs)" by (simp only:)
    then show ?thesis by (simp add: filter_empty_conv list.pred_map comp_def list_all_iff)
  qed
  ultimately show ?thesis
    by (simp add: threeWayMerge_def found f Let_def apply_changes_keys [OF keys])
qed

lemma numbers_iff: "numbers l r b \<longleftrightarrow> (\<exists>x y z. l = VNum x \<and> r = VNum y \<and> b = VNum z)"
  by (auto simp: numbers_def isAutoResolvable_def split: jval.split)

lemma clash_merge: "clash l r b \<Longrightarrow> \<not> numbers l r b \<Longrightarrow> merge_value l r b = b"
  by (auto simp: merge_value_def numbers_iff split: jval.split)

text \<open>What the conflicts at a key write into the merged version, for keys of it and for those below a key.\<close>

definition adds_up :: "jval \<Rightarrow> jval \<Rightarrow> jval \<Rightarrow> bool" where
  "adds_up l r b \<longleftrightarrow> clash l r b \<and> numbers l r b"

definition write_sum :: "jval \<Rightarrow> jval \<Rightarrow> jval \<Rightarrow> string \<Rightarrow> (string \<times> jval) list \<Rightarrow> (string \<times> jval) list" where
  "write_sum l r b k m = (if adds_up l r b then obj_set k (merge_value l r b) m else m)"

lemma conflict_keys:
  "map conflict_key (key_conflicts l r b path)
     = (if clash l r b then [(path, numbers l r b, if numbers l r b then merge_value l r b else attemptAutoMerge (createConflict PropertyChanged l r b path))] else [])
       @ (if deletes l r b then [(path, False, l)] else [])"
  by (auto simp: key_conflicts_def conflict_key_def createConflict_def numbers_iff isAutoResolvable_def attemptAutoMerge_def
      merge_value_def split: jval.split)

lemma write_key: "fold merged_at (map conflict_key (key_conflicts l r b [k])) (VObj m) = VObj (write_sum l r b k m)"
  by (auto simp: conflict_keys merged_at_def set_prop_def write_sum_def adds_up_def)

lemma write_below:
  "j \<noteq> [] \<Longrightarrow> fold merged_at (map conflict_key (key_conflicts l r b [j, k])) (VObj [(j, VObj m)]) = VObj [(j, VObj (write_sum l r b k m))]"
  by (auto simp: conflict_keys merged_at_def set_prop_def write_sum_def adds_up_def js_prop_def Let_def)

lemma fold_concat_map: "fold f (map g (concat (map h xs))) s = fold (\<lambda>x. fold f (map g (h x))) xs s"
  by (induction xs arbitrary: s) simp_all

lemma fold_write_key:
  "fold (\<lambda>k. fold merged_at (map conflict_key (key_conflicts (l k) (r k) (b k) [k]))) ks (VObj m)
     = VObj (fold (\<lambda>k. write_sum (l k) (r k) (b k) k) ks m)"
  by (induction ks arbitrary: m) (simp_all add: write_key)

lemma fold_write_below:
  "j \<noteq> [] \<Longrightarrow> fold (\<lambda>k. fold merged_at (map conflict_key (key_conflicts (l k) (r k) (b k) [j, k]))) ks (VObj [(j, VObj m)])
     = VObj [(j, VObj (fold (\<lambda>k. write_sum (l k) (r k) (b k) k) ks m))]"
  by (induction ks arbitrary: m) (simp_all add: write_below)

lemma map_of_sums:
  "map_of (fold (\<lambda>k. write_sum (l k) (r k) (b k) k) ks m) x
     = (if x \<in> set ks \<and> adds_up (l x) (r x) (b x) then Some (merge_value (l x) (r x) (b x)) else map_of m x)"
  by (induction ks arbitrary: m) (auto simp: write_sum_def)

lemma map_of_spread:
  "distinct (map fst es) \<Longrightarrow> map_of (foldl (\<lambda>m kv. obj_set (fst kv) (snd kv) m) m es) x
     = (case map_of es x of None \<Rightarrow> map_of m x | Some v \<Rightarrow> Some v)"
proof (induction es arbitrary: m)
  case (Cons p es)
  have "map_of es (fst p) = None" using Cons.prems by (simp add: map_of_eq_None_iff)
  then show ?case using Cons by (cases p) (auto split: option.split)
qed simp

lemma map_of_changes:
  "distinct (map fst es) \<Longrightarrow> map_of (foldl (apply_change base cs) m es) x
     = (case map_of es x of
          None \<Rightarrow> map_of m x
        | Some v \<Rightarrow> if list_ex (\<lambda>c. cf_path c \<noteq> [] \<and> hd (cf_path c) = x) cs \<or> v = js_prop base x then map_of m x else Some v)"
proof (induction es arbitrary: m)
  case (Cons p es)
  have "map_of es (fst p) = None" using Cons.prems by (simp add: map_of_eq_None_iff)
  then show ?case
    using Cons by (cases p) (auto simp: apply_change_def split: option.split)
qed simp

lemma key_conflict_at:
  "list_ex (\<lambda>c. cf_path c \<noteq> [] \<and> hd (cf_path c) = x) (concat (map (\<lambda>k. key_conflicts (l k) (r k) (b k) [k]) ks))
     \<longleftrightarrow> x \<in> set ks \<and> (clash (l x) (r x) (b x) \<or> deletes (l x) (r x) (b x))"
  by (induction ks) (auto simp: key_conflicts_def createConflict_def)

lemma key_conflict_below:
  "list_ex (\<lambda>c. cf_path c \<noteq> [] \<and> hd (cf_path c) = j) (concat (map (\<lambda>k. key_conflicts (l k) (r k) (b k) [j, k]) ks))
     \<longleftrightarrow> list_ex (\<lambda>k. clash (l k) (r k) (b k) \<or> deletes (l k) (r k) (b k)) ks"
  by (induction ks) (auto simp: key_conflicts_def createConflict_def)

lemma key_mergeable:
  "list_all cf_autoResolvable (concat (map (\<lambda>k. key_conflicts (l k) (r k) (b k) (path k)) ks))
     \<longleftrightarrow> list_all (\<lambda>k. mergeable (l k) (r k) (b k)) ks"
  by (auto simp: list_all_iff key_conflicts_def createConflict_def mergeable_def numbers_def isAutoResolvable_def)

lemma no_structure:
  "js_prop b ''actions'' = VUndef \<Longrightarrow> js_prop b ''connections'' = VUndef \<Longrightarrow> {l, r, b} \<inter> {VUndef, VNull} = {}
     \<Longrightarrow> detectStructuralConflicts l r b = Inr []"
  by (auto simp: detectStructuralConflicts_def structural_conflicts_def all_truthy_def get_prop_def)

lemma set_doc_keys: "set (doc_keys lm rm bm) = fst ` set lm \<union> fst ` set rm \<union> fst ` set bm"
  by (auto simp: doc_keys_def)

lemma flat_merge:
  assumes flat: "flat lm" "flat rm" "flat bm" and free: "{''actions'', ''connections''} \<inter> fst ` set bm = {}"
  shows "\<exists>m. threeWayMerge default_detector gen now (VObj lm) (VObj rm) (VObj bm) = Inr m
    \<and> js_prop (mg_mergedVersion m) = (\<lambda>k. merge_value (js_prop (VObj lm) k) (js_prop (VObj rm) k) (js_prop (VObj bm) k))
    \<and> (mg_success m \<longleftrightarrow> list_all (\<lambda>k. mergeable (js_prop (VObj lm) k) (js_prop (VObj rm) k) (js_prop (VObj bm) k)) (doc_keys lm rm bm))"
proof -
  let ?l = "js_prop (VObj lm)" and ?r = "js_prop (VObj rm)" and ?b = "js_prop (VObj bm)"
  let ?ks = "doc_keys lm rm bm"
  let ?cs = "detectPropertyConflicts (VObj lm) (VObj rm) (VObj bm) []"
  have cs: "?cs = concat (map (\<lambda>k. key_conflicts (?l k) (?r k) (?b k) [k]) ?ks)" by (simp add: detect_flat flat)
  have "?b ''actions'' = VUndef" "?b ''connections'' = VUndef" using free by (auto simp: flat_defined flat)
  note merge = merge_outcome [OF no_structure [OF this], of "VObj lm" "VObj rm" gen now]
  let ?sums = "fold (\<lambda>k. write_sum (?l k) (?r k) (?b k) k) ?ks (spread_into (VObj bm) [])"
  let ?m = "applyNonConflictingChanges (VObj rm) (VObj bm) ?cs (applyNonConflictingChanges (VObj lm) (VObj bm) ?cs ?sums)"
  have merged: "fold merged_at (map conflict_key ?cs) (VObj (spread_into (VObj bm) [])) = VObj ?sums"
    unfolding cs fold_concat_map fold_write_key ..
  have d: "distinct (map fst lm)" "distinct (map fst rm)" "distinct (map fst bm)" using flat by (simp_all add: flat_def)
  have "js_prop (VObj ?m) k = merge_value (?l k) (?r k) (?b k)" for k
  proof -
    have base: "map_of (spread_into (VObj bm) []) k = map_of bm k"
      using map_of_spread [OF d(3), of "[]" k] by (simp add: spread_into_def split: option.split)
    have conf: "list_ex (\<lambda>c. cf_path c \<noteq> [] \<and> hd (cf_path c) = k) ?cs
        \<longleftrightarrow> k \<in> set ?ks \<and> (clash (?l k) (?r k) (?b k) \<or> deletes (?l k) (?r k) (?b k))"
      unfolding cs by (rule key_conflict_at)
    have known: "k \<in> set ?ks \<longleftrightarrow> ?l k \<noteq> VUndef \<or> ?r k \<noteq> VUndef \<or> ?b k \<noteq> VUndef"
      using flat by (simp add: flat_defined set_doc_keys)
    have val: "map_of m k = (if js_prop (VObj m) k = VUndef then None else Some (js_prop (VObj m) k))" if "flat m" for m
      using flat_defined [OF that, of k] by (auto simp: prop_obj map_of_eq_None_iff split: option.split)
    have "map_of ?m k = (if merge_value (?l k) (?r k) (?b k) = VUndef then None else Some (merge_value (?l k) (?r k) (?b k)))"
      using known
      by (auto simp: applyNonConflictingChanges_def map_of_changes d conf map_of_sums base val flat
          merge_value_def adds_up_def clash_def deletes_def numbers_iff split: jval.split)
    then show ?thesis by (simp add: prop_obj)
  qed
  then have at_key: "js_prop (VObj ?m) = (\<lambda>k. merge_value (?l k) (?r k) (?b k))" by blast
  have "list_all cf_autoResolvable ?cs \<longleftrightarrow> list_all (\<lambda>k. mergeable (?l k) (?r k) (?b k)) ?ks" unfolding cs key_mergeable ..
  moreover obtain m where m: "threeWayMerge default_detector gen now (VObj lm) (VObj rm) (VObj bm) = Inr m"
      "mg_success m \<longleftrightarrow> list_all cf_autoResolvable ?cs" "mg_mergedVersion m = VObj ?m"
    using merge unfolding merged own_entries.simps by blast
  moreover have "js_prop (mg_mergedVersion m) = (\<lambda>k. merge_value (?l k) (?r k) (?b k))"
    unfolding m(3) by (rule at_key)
  ultimately show ?thesis by blast
qed

text \<open>The same below one key, where a clash keeps every other change of both sides out.\<close>

lemma nested_merge:
  assumes flat: "flat lm" "flat rm" "flat bm" and j: "j \<notin> {[], ''actions'', ''connections''}"
    and clash: "list_ex (\<lambda>k. clash (js_prop (VObj lm) k) (js_prop (VObj rm) k) (js_prop (VObj bm) k)) (doc_keys lm rm bm)"
  shows "\<exists>m v. threeWayMerge default_detector gen now (VObj [(j, VObj lm)]) (VObj [(j, VObj rm)]) (VObj [(j, VObj bm)]) = Inr m
    \<and> mg_mergedVersion m = VObj [(j, VObj v)]
    \<and> js_prop (VObj v) = (\<lambda>k. if adds_up (js_prop (VObj lm) k) (js_prop (VObj rm) k) (js_prop (VObj bm) k)
        then merge_value (js_prop (VObj lm) k) (js_prop (VObj rm) k) (js_prop (VObj bm) k) else js_prop (VObj bm) k)
    \<and> (mg_success m \<longleftrightarrow> list_all (\<lambda>k. mergeable (js_prop (VObj lm) k) (js_prop (VObj rm) k) (js_prop (VObj bm) k)) (doc_keys lm rm bm))"
proof -
  let ?l = "js_prop (VObj lm)" and ?r = "js_prop (VObj rm)" and ?b = "js_prop (VObj bm)"
  let ?ks = "doc_keys lm rm bm"
  let ?L = "VObj [(j, VObj lm)]" and ?R = "VObj [(j, VObj rm)]" and ?B = "VObj [(j, VObj bm)]"
  let ?cs = "detectPropertyConflicts ?L ?R ?B []"
  have cs: "?cs = concat (map (\<lambda>k. key_conflicts (?l k) (?r k) (?b k) [j, k]) ?ks)"
    by (subst detectPropertyConflicts.simps)
      (simp add: uniq_def js_prop_def is_record_def detect_flat [unfolded js_prop_def own_entries.simps] flat)
  have "js_prop ?B ''actions'' = VUndef" "js_prop ?B ''connections'' = VUndef" using j by (auto simp: js_prop_def)
  note merge = merge_outcome [OF no_structure [OF this], of ?L ?R gen now]
  have spread_into: "spread_into ?B [] = [(j, VObj bm)]" by (simp add: spread_into_def)
  let ?v = "fold (\<lambda>k. write_sum (?l k) (?r k) (?b k) k) ?ks bm"
  have merged: "fold merged_at (map conflict_key ?cs) (VObj [(j, VObj bm)]) = VObj [(j, VObj ?v)]"
    unfolding cs fold_concat_map using j by (simp add: fold_write_below)
  have conf: "list_ex (\<lambda>c. cf_path c \<noteq> [] \<and> hd (cf_path c) = j) ?cs"
    using clash unfolding cs key_conflict_below by (auto simp: list_ex_iff)
  have "applyNonConflictingChanges (VObj [(j, VObj xs)]) ?B ?cs m = m" for xs m
    using conf by (simp add: applyNonConflictingChanges_def apply_change_def)
  note unchanged = this
  have "js_prop (VObj ?v) k = (if adds_up (?l k) (?r k) (?b k) then merge_value (?l k) (?r k) (?b k) else ?b k)" for k
  proof -
    have "adds_up (?l k) (?r k) (?b k) \<Longrightarrow> k \<in> set ?ks"
      using flat_defined [OF flat(3), of k] by (auto simp: adds_up_def numbers_iff set_doc_keys)
    then show ?thesis by (auto simp: prop_obj [of ?v] map_of_sums) (simp_all add: prop_obj)
  qed
  then have "js_prop (VObj ?v) = (\<lambda>k. if adds_up (?l k) (?r k) (?b k) then merge_value (?l k) (?r k) (?b k) else ?b k)" by blast
  moreover have "list_all cf_autoResolvable ?cs \<longleftrightarrow> list_all (\<lambda>k. mergeable (?l k) (?r k) (?b k)) ?ks" unfolding cs key_mergeable ..
  moreover obtain m where "threeWayMerge default_detector gen now ?L ?R ?B = Inr m"
      "mg_success m \<longleftrightarrow> list_all cf_autoResolvable ?cs" "mg_mergedVersion m = VObj [(j, VObj ?v)]"
    using merge unfolding spread_into merged own_entries.simps unchanged by blast
  ultimately show ?thesis by blast
qed

section \<open>Documents that cannot be merged\<close>

text \<open>Actions as the code stores them: an array of objects that have a string as identifier.\<close>

definition action_items :: "jval \<Rightarrow> bool" where
  "action_items v \<longleftrightarrow>
     (case v of VArr xs \<Rightarrow> list_all (\<lambda>x. \<exists>m i. x = VObj m \<and> map_of m ''id'' = Some (VStr i)) xs | _ \<Rightarrow> False)"

lemma action_items_read: "action_items v \<Longrightarrow> \<exists>m. as_items v = Inr m"
proof -
  have "list_all (\<lambda>x. \<exists>m i. x = VObj m \<and> map_of m ''id'' = Some (VStr i)) xs \<Longrightarrow> \<exists>m'. items_by_id xs m = Inr m'" for xs m
    by (induction xs arbitrary: m) (auto simp: item_id_def js_prop_def)
  then show "action_items v \<Longrightarrow> \<exists>m. as_items v = Inr m"
    by (auto simp: action_items_def as_items_def split: jval.splits)
qed

lemma actions_found:
  assumes "action_items l" and "action_items r" and "action_items b"
  shows "\<exists>cs. detectArrayConflicts l r b path t = Inr cs"
  using action_items_read [OF assms(1)] action_items_read [OF assms(2)] action_items_read [OF assms(3)]
  by (auto simp: detectArrayConflicts_def)

lemma array_conflict:
  assumes "js_prop l k = VArr xs" and "js_prop r k = VArr ys" and "js_prop b k = VArr zs"
    and "is_record l" and "is_record r" and "is_record b"
  shows "\<exists>c \<in> set (detectPropertyConflicts l r b []). \<not> cf_autoResolvable c"
proof -
  have "l \<noteq> VNull" "r \<noteq> VNull" "b \<noteq> VNull" using assms(1-3) by (auto simp: js_prop_def)
  then have t: "js_truthy l" "is_object l" "js_truthy r" "is_object r" "js_truthy b" "is_object b"
    using assms(4-6) by (cases l; cases r; cases b; simp add: is_record_def)+
  have "map_of (own_entries l) k = Some (VArr xs)" using assms(1) by (simp add: js_prop_def split: option.splits)
  then have k: "k \<in> set (uniq (map fst (own_entries l @ own_entries r @ own_entries b)))"
    using map_of_SomeD [of "own_entries l" k] by force
  have "createConflict PropertyChanged (VArr xs) (VArr ys) (VArr zs) [k] \<in> set (detectPropertyConflicts l r b [])"
    unfolding detectPropertyConflicts.simps [of l r b] set_concat set_map Let_def using t k
    by (simp only: simp_thms if_False set_concat set_map) (rule UN_I [OF imageI [OF k]], simp add: assms is_record_def)
  moreover have "\<not> cf_autoResolvable (createConflict PropertyChanged (VArr xs) (VArr ys) (VArr zs) [k])"
    by (simp add: createConflict_def isAutoResolvable_def)
  ultimately show ?thesis by blast
qed

lemma found_fails:
  assumes "threeWayMerge default_detector gen now l r b = Inr m"
    and "\<exists>c \<in> set (detectPropertyConflicts l r b []). \<not> cf_autoResolvable c"
  shows "\<not> mg_success m"
proof -
  obtain ss where ss: "detectStructuralConflicts l r b = Inr ss"
    using assms(1) by (cases "detectStructuralConflicts l r b") (simp_all add: threeWayMerge_def detectVersionConflicts_def default_detector_def)
  let ?ds = "stamp_conflicts gen (detectPropertyConflicts l r b [] @ ss)"
  have "detectVersionConflicts default_detector gen l r b = Inr ?ds"
    using low_keeps [of ?ds] ss by (simp add: detectVersionConflicts_def default_detector_def)
  then have "mg_success m \<longleftrightarrow> filter (\<lambda>c. \<not> cf_autoResolvable c) ?ds = []"
    using assms(1) by (auto simp: threeWayMerge_def Let_def split: prod.splits)
  moreover have "map cf_autoResolvable ?ds = map cf_autoResolvable (detectPropertyConflicts l r b [] @ ss)"
    using arg_cong [OF stamped [of gen "detectPropertyConflicts l r b [] @ ss"], of "map (\<lambda>p. fst (snd p))"]
    by (simp add: comp_def conflict_key_def)
  then have "cf_autoResolvable ` set ?ds = cf_autoResolvable ` set (detectPropertyConflicts l r b [] @ ss)"
    by (metis set_map)
  then have "False \<in> cf_autoResolvable ` set ?ds" using assms(2) by force
  ultimately show ?thesis by (auto simp: filter_empty_conv)
qed

section \<open>Properties\<close>

text \<open>
  C19: Flat documents, whose values are numbers, strings, booleans or null, and whose base has no keys actions and
  connections, are merged key by key: if both
  sides changed a value differently, two numbers are changed by the sum of the changes and anything else
  keeps its base; if one side changed it, or both alike, the change is taken, except that a deletion is not.
  The merge reports success exactly if no key was changed differently to something that is not a number,
  and none was deleted on one side and changed or deleted on the other.
\<close>

theorem flat_merge_exact:
  assumes "flat lm" and "flat rm" and "flat bm" and "{''actions'', ''connections''} \<inter> fst ` set bm = {}"
  shows "\<exists>m. threeWayMerge default_detector gen now (VObj lm) (VObj rm) (VObj bm) = Inr m
    \<and> js_prop (mg_mergedVersion m) = (\<lambda>k. merge_value (js_prop (VObj lm) k) (js_prop (VObj rm) k) (js_prop (VObj bm) k))
    \<and> (mg_success m \<longleftrightarrow> list_all (\<lambda>k. mergeable (js_prop (VObj lm) k) (js_prop (VObj rm) k) (js_prop (VObj bm) k)) (doc_keys lm rm bm))"
  by (rule flat_merge [OF assms])

lemma flat_merge_exact_witness:
  "\<exists>m. threeWayMerge default_detector (\<lambda>_. ([], 0)) 0
      (VObj [(''x'', VNum 3), (''s'', VStr ''l'')]) (VObj [(''x'', VNum 5), (''s'', VStr ''b''), (''t'', VNull)])
      (VObj [(''x'', VNum 1), (''s'', VStr ''b'')]) = Inr m
    \<and> js_prop (mg_mergedVersion m) ''x'' = VNum 7 \<and> js_prop (mg_mergedVersion m) ''s'' = VStr ''l'' \<and> mg_success m"
proof -
  have f: "flat [(''x'', VNum 3), (''s'', VStr ''l'')]" "flat [(''x'', VNum 5), (''s'', VStr ''b''), (''t'', VNull)]"
    "flat [(''x'', VNum 1), (''s'', VStr ''b'')]" by (simp_all add: flat_def)
  from flat_merge_exact [OF f, of "\<lambda>_. ([], 0)" 0] obtain m where
    m: "threeWayMerge default_detector (\<lambda>_. ([], 0)) 0 (VObj [(''x'', VNum 3), (''s'', VStr ''l'')])
        (VObj [(''x'', VNum 5), (''s'', VStr ''b''), (''t'', VNull)]) (VObj [(''x'', VNum 1), (''s'', VStr ''b'')]) = Inr m"
      "js_prop (mg_mergedVersion m) = (\<lambda>k. merge_value (js_prop (VObj [(''x'', VNum 3), (''s'', VStr ''l'')]) k)
        (js_prop (VObj [(''x'', VNum 5), (''s'', VStr ''b''), (''t'', VNull)]) k) (js_prop (VObj [(''x'', VNum 1), (''s'', VStr ''b'')]) k))"
      "mg_success m" by (auto simp: doc_keys_def uniq_def prop_obj mergeable_def clash_def numbers_iff deletes_def)
  have "js_prop (mg_mergedVersion m) ''x'' = VNum 7" "js_prop (mg_mergedVersion m) ''s'' = VStr ''l''"
    unfolding m(2) by (simp_all add: prop_obj merge_value_def clash_def)
  then show ?thesis using m by blast
qed

text \<open>
  below a key, changes get lost without a report. In documents with one top-level key that holds flat objects, if both
  sides changed some number under the key, to different values, and nothing under it is in conflict that cannot be
  resolved, the merge is a success in which every other value under the key has the value of the base, also where one
  side changed it.
\<close>

theorem nested_changes_lost:
  assumes "flat lm" and "flat rm" and "flat bm" and "j \<notin> {[], ''actions'', ''connections''}"
    and "list_ex (\<lambda>k. clash (js_prop (VObj lm) k) (js_prop (VObj rm) k) (js_prop (VObj bm) k)) (doc_keys lm rm bm)"
    and "list_all (\<lambda>k. mergeable (js_prop (VObj lm) k) (js_prop (VObj rm) k) (js_prop (VObj bm) k)) (doc_keys lm rm bm)"
  shows "\<exists>m v. threeWayMerge default_detector gen now (VObj [(j, VObj lm)]) (VObj [(j, VObj rm)]) (VObj [(j, VObj bm)]) = Inr m
    \<and> mg_success m \<and> mg_mergedVersion m = VObj [(j, VObj v)]
    \<and> js_prop (VObj v) = (\<lambda>k. if clash (js_prop (VObj lm) k) (js_prop (VObj rm) k) (js_prop (VObj bm) k)
        then merge_value (js_prop (VObj lm) k) (js_prop (VObj rm) k) (js_prop (VObj bm) k) else js_prop (VObj bm) k)"
proof -
  let ?l = "js_prop (VObj lm)" and ?r = "js_prop (VObj rm)" and ?b = "js_prop (VObj bm)"
  have "adds_up (?l k) (?r k) (?b k) \<longleftrightarrow> clash (?l k) (?r k) (?b k)" for k
  proof (cases "k \<in> set (doc_keys lm rm bm)")
    case True
    then show ?thesis using assms(6) by (auto simp: adds_up_def mergeable_def list_all_iff)
  next
    case False
    then have "?l k = VUndef" "?b k = VUndef" using assms(1,3) by (simp_all add: flat_defined set_doc_keys)
    then show ?thesis by (simp add: adds_up_def clash_def)
  qed
  then show ?thesis using nested_merge [OF assms(1-5), of gen now] assms(6) by auto
qed

lemma nested_changes_lost_witness:
  "\<exists>m v. threeWayMerge default_detector (\<lambda>_. ([], 0)) 0 (VObj [(''position'', VObj [(''x'', VNum 1), (''y'', VNum 5)])])
      (VObj [(''position'', VObj [(''x'', VNum 2), (''y'', VNum 0)])]) (VObj [(''position'', VObj [(''x'', VNum 0), (''y'', VNum 0)])]) = Inr m
    \<and> mg_success m \<and> mg_mergedVersion m = VObj [(''position'', VObj v)]
    \<and> js_prop (VObj v) ''x'' = VNum 3 \<and> js_prop (VObj v) ''y'' = VNum 0"
proof -
  have f: "flat [(''x'', VNum 1), (''y'', VNum 5)]" "flat [(''x'', VNum 2), (''y'', VNum 0)]" "flat [(''x'', VNum 0), (''y'', VNum 0)]"
    by (simp_all add: flat_def)
  from nested_changes_lost [OF f, of "''position''" "\<lambda>_. ([], 0)" 0] obtain m v where
    m: "threeWayMerge default_detector (\<lambda>_. ([], 0)) 0 (VObj [(''position'', VObj [(''x'', VNum 1), (''y'', VNum 5)])])
        (VObj [(''position'', VObj [(''x'', VNum 2), (''y'', VNum 0)])]) (VObj [(''position'', VObj [(''x'', VNum 0), (''y'', VNum 0)])]) = Inr m"
      "mg_success m" "mg_mergedVersion m = VObj [(''position'', VObj v)]"
      "js_prop (VObj v) = (\<lambda>k. if clash (js_prop (VObj [(''x'', VNum 1), (''y'', VNum 5)]) k) (js_prop (VObj [(''x'', VNum 2), (''y'', VNum 0)]) k)
          (js_prop (VObj [(''x'', VNum 0), (''y'', VNum 0)]) k)
        then merge_value (js_prop (VObj [(''x'', VNum 1), (''y'', VNum 5)]) k) (js_prop (VObj [(''x'', VNum 2), (''y'', VNum 0)]) k)
          (js_prop (VObj [(''x'', VNum 0), (''y'', VNum 0)]) k) else js_prop (VObj [(''x'', VNum 0), (''y'', VNum 0)]) k)"
    by (auto simp: doc_keys_def uniq_def prop_obj mergeable_def clash_def numbers_iff deletes_def)
  have "js_prop (VObj v) ''x'' = VNum 3" "js_prop (VObj v) ''y'' = VNum 0"
    unfolding m(4) by (simp_all add: prop_obj merge_value_def clash_def)
  then show ?thesis using m by blast
qed

text \<open>
  Arrays are never merged: if the three documents have arrays at some key, even equal ones, the merge
  does not succeed.
\<close>

theorem arrays_never_merge:
  assumes "threeWayMerge default_detector gen now l r b = Inr m"
    and "is_record l" and "is_record r" and "is_record b"
    and "js_prop l k = VArr xs" and "js_prop r k = VArr ys" and "js_prop b k = VArr zs"
  shows "\<not> mg_success m"
  by (rule found_fails [OF assms(1) array_conflict [OF assms(5-7) assms(2-4)]])

lemma arrays_never_merge_witness:
  "\<exists>m. threeWayMerge default_detector (\<lambda>_. ([], 0)) 0 (VObj [(''tags'', VArr [])]) (VObj [(''tags'', VArr [])]) (VObj [(''tags'', VArr [])]) = Inr m
     \<and> \<not> mg_success m"
proof -
  have "detectStructuralConflicts (VObj [(''tags'', VArr [])]) (VObj [(''tags'', VArr [])]) (VObj [(''tags'', VArr [])]) = Inr []"
    by (rule no_structure) (simp_all add: js_prop_def)
  then obtain m where "threeWayMerge default_detector (\<lambda>_. ([], 0)) 0 (VObj [(''tags'', VArr [])]) (VObj [(''tags'', VArr [])])
      (VObj [(''tags'', VArr [])]) = Inr m"
    using merge_outcome by blast
  then show ?thesis
    using arrays_never_merge [of "\<lambda>_. ([], 0)" 0 "VObj [(''tags'', VArr [])]" "VObj [(''tags'', VArr [])]" "VObj [(''tags'', VArr [])]" m "''tags''" "[]" "[]" "[]"]
    by (simp add: is_record_def js_prop_def)
qed

text \<open>
  C20: Workflows in graph format are not merged at all: when the connections of all three versions are objects and
  their actions are arrays of objects with string ids, the connections are treated as arrays, so the detection of
  conflicts throws.
\<close>

theorem graph_workflows_throw:
  assumes "list_all (\<lambda>d. action_items (js_prop d ''actions'')) [l, r, b]"
    and "js_prop l ''connections'' = VObj lc" and "js_prop r ''connections'' = VObj rc" and "js_prop b ''connections'' = VObj bc"
  shows "threeWayMerge default_detector gen now l r b = Inl TypeError"
proof -
  have "l \<notin> {VUndef, VNull}" "r \<notin> {VUndef, VNull}" "b \<notin> {VUndef, VNull}" using assms(2-4) by (auto simp: js_prop_def)
  then have get: "get_prop l k = Inr (js_prop l k)" "get_prop r k = Inr (js_prop r k)" "get_prop b k = Inr (js_prop b k)" for k
    by (simp_all add: get_prop_def)
  have "\<exists>as. structural_conflicts ''actions'' ActionModified l r b = Inr as"
    using actions_found assms(1) by (auto simp: structural_conflicts_def all_truthy_def get)
  moreover have "structural_conflicts ''connections'' ConnectionChanged l r b = Inl TypeError"
    by (simp add: structural_conflicts_def all_truthy_def get assms(2-4) detectArrayConflicts_def as_items_def)
  ultimately have "detectStructuralConflicts l r b = Inl TypeError" by (auto simp: detectStructuralConflicts_def)
  then show ?thesis by (simp add: threeWayMerge_def detectVersionConflicts_def default_detector_def)
qed

lemma graph_workflows_throw_witness:
  "threeWayMerge default_detector (\<lambda>_. ([], 0)) 0
     (VObj [(''actions'', VArr [VObj [(''id'', VStr ''a'')]]), (''connections'', VObj [])])
     (VObj [(''actions'', VArr [VObj [(''id'', VStr ''a'')]]), (''connections'', VObj [])])
     (VObj [(''actions'', VArr [VObj [(''id'', VStr ''a'')]]), (''connections'', VObj [])]) = Inl TypeError"
  by (rule graph_workflows_throw) (simp_all add: action_items_def js_prop_def)

end
