(* ===== verification/Collab_Sync.thy ===== *)
theory Collab_Sync
  imports Operational_Transform Three_Way_Merge
begin

text \<open>
  The synchronisation service of the collaboration
  (frontend/src/services/collaboration/sync-service.ts): the exchange of one resource with the server, optimistic
  updates, the queue of changes made offline, the web socket. Asynchronous functions are cut at
  their awaits: the answers of the server are arguments, or events that resume what waits. The queue is an
  array of shared objects that its own loop iterates while others push to it and shift it, so the loop keeps
  its index, where in the array the operation it waits for is now, and the array itself once it is no longer that of the
  service. Dates that went through JSON are texts, without \<open>getTime\<close>.
\<close>

section \<open>Data\<close>

record 'v Change =
  cg_id :: ident
  cg_type :: OperationType
  cg_resourceType :: ResourceType
  cg_resourceId :: ident
  cg_path :: "string list"
  cg_value :: 'v
  cg_oldValue :: 'v
  cg_timestamp :: millis
  cg_userId :: ident

datatype CollabStatus = CsPending | CsSyncing | CsSuccess | CsConflict | CsError

record CollabResult =
  sr_success :: bool
  sr_status :: CollabStatus
  sr_conflicts :: "Conflict list"
  sr_appliedChanges :: "jval Change list"
  sr_currentVersion :: jval
  sr_versionId :: ident
  sr_errors :: "js_error list"

datatype queue_date = DateObject millis | DateText millis

datatype queue_status = Q_queued | Q_processing | Q_completed | Q_failed

record QueuedOperation =
  qo_id :: ident
  qo_change :: "json Change"
  qo_priority :: int
  qo_retryCount :: nat
  qo_queuedAt :: queue_date
  qo_status :: queue_status

record OptimisticUpdate =
  ou_id :: ident
  ou_change :: "json Change"
  ou_originalState :: json
  ou_appliedAt :: millis
  ou_confirmed :: bool

record SyncServiceConfig =
  sv_syncInterval :: nat
  sv_maxRetries :: nat
  sv_retryDelay :: nat
  sv_enableOptimisticUpdates :: bool
  sv_enableOfflineQueue :: bool
  sv_maxQueueSize :: nat

text \<open>\<open>n || d\<close> on optional numbers.\<close>

definition or_number :: "nat option \<Rightarrow> nat \<Rightarrow> nat" where
  "or_number n d = (case n of None \<Rightarrow> d | Some k \<Rightarrow> if k = 0 then d else k)"

definition sync_config ::
  "nat option \<Rightarrow> nat option \<Rightarrow> nat option \<Rightarrow> bool option \<Rightarrow> bool option \<Rightarrow> nat option \<Rightarrow> SyncServiceConfig" where
  "sync_config interval retries delay optimistic offline maxSize =
     \<lparr>sv_syncInterval = or_number interval 5000, sv_maxRetries = or_number retries 3,
      sv_retryDelay = or_number delay 1000,
      sv_enableOptimisticUpdates = (case optimistic of None \<Rightarrow> True | Some b \<Rightarrow> b),
      sv_enableOfflineQueue = (case offline of None \<Rightarrow> True | Some b \<Rightarrow> b),
      sv_maxQueueSize = or_number maxSize 100\<rparr>"

section \<open>One resource\<close>

text \<open>What the server answers to the request for a resource and to that which stores it.\<close>

record ServerData =
  sd_data :: jval
  sd_baseVersion :: jval
  sd_versionId :: ident

record SyncedData =
  sy_changeId :: ident
  sy_data :: jval
  sy_versionId :: ident

definition sync_failed :: "jval \<Rightarrow> js_error \<Rightarrow> CollabResult" where
  "sync_failed localVersion e =
     \<lparr>sr_success = False, sr_status = CsError, sr_conflicts = [], sr_appliedChanges = [],
      sr_currentVersion = localVersion, sr_versionId = [], sr_errors = [e]\<rparr>"

definition sync_conflict :: "ServerData \<Rightarrow> Conflict list \<Rightarrow> CollabResult" where
  "sync_conflict server conflicts =
     \<lparr>sr_success = False, sr_status = CsConflict, sr_conflicts = conflicts, sr_appliedChanges = [],
      sr_currentVersion = sd_data server, sr_versionId = sd_versionId server, sr_errors = []\<rparr>"

text \<open>
  The version to be sent, given the check for conflicts, or the result that ends the call: what the code does between
  the check and the second request.
\<close>

definition version_to_sync ::
  "ConflictDetectorConfig \<Rightarrow> (nat \<Rightarrow> ident \<times> millis) \<Rightarrow> (ident \<Rightarrow> bool) \<Rightarrow> millis \<Rightarrow> bool \<Rightarrow> ServerData
   \<Rightarrow> jval \<Rightarrow> ConflictCheckResult \<Rightarrow> js_error + (CollabResult + jval)" where
  "version_to_sync cfg gen posted now forceSync server localVersion check =
     (if cc_hasConflicts check \<and> \<not> forceSync then Inr (Inl (sync_conflict server (cc_conflicts check)))
      else if cc_hasConflicts check \<and> cc_canSave check then
        (let manual = ar_requiresManual (autoResolve posted now (cc_conflicts check)) in
         if manual \<noteq> [] then Inr (Inl (sync_conflict server manual))
         else ebind (threeWayMerge cfg gen now localVersion (sd_data server) (sd_baseVersion server))
                (\<lambda>merge. Inr (Inr (mg_mergedVersion merge))))
      else Inr (Inr localVersion))"

text \<open>
  \<open>syncResource\<close> while online (or forced): its result, the version that is sent, if one is, and the conflicts the
  callbacks are notified of.
\<close>

definition syncResource ::
  "ConflictDetectorConfig \<Rightarrow> (nat \<Rightarrow> ident \<times> millis) \<Rightarrow> (ident \<Rightarrow> bool) \<Rightarrow> millis \<Rightarrow> ident option \<Rightarrow> ResourceType \<Rightarrow> ident
   \<Rightarrow> jval \<Rightarrow> bool \<Rightarrow> js_error + ServerData \<Rightarrow> js_error + (jval \<times> jval) \<Rightarrow> (jval \<Rightarrow> js_error + SyncedData)
   \<Rightarrow> CollabResult \<times> jval option \<times> Conflict list" where
  "syncResource cfg gen posted now userId resourceType resourceId localVersion forceSync fetched check put =
     (case fetched of Inl e \<Rightarrow> (sync_failed localVersion e, None, []) | Inr server \<Rightarrow>
      case checkForConflicts cfg gen check localVersion of Inl e \<Rightarrow> (sync_failed localVersion e, None, []) | Inr conflictCheck \<Rightarrow>
      let notified = (if cc_hasConflicts conflictCheck \<and> \<not> forceSync then cc_conflicts conflictCheck else []) in
      case version_to_sync cfg gen posted now forceSync server localVersion conflictCheck of
        Inl e \<Rightarrow> (sync_failed localVersion e, None, notified)
      | Inr (Inl result) \<Rightarrow> (result, None, notified)
      | Inr (Inr version) \<Rightarrow>
          (case put version of
             Inl e \<Rightarrow> (sync_failed localVersion e, Some version, notified)
           | Inr synced \<Rightarrow>
               (\<lparr>sr_success = True, sr_status = CsSuccess, sr_conflicts = [],
                 sr_appliedChanges = [\<lparr>cg_id = sy_changeId synced, cg_type = OpUpdate, cg_resourceType = resourceType,
                   cg_resourceId = resourceId, cg_path = [], cg_value = version, cg_oldValue = VUndef, cg_timestamp = now,
                   cg_userId = (case userId of Some u \<Rightarrow> if u = [] then ''unknown-user'' else u | None \<Rightarrow> ''unknown-user'')\<rparr>],
                 sr_currentVersion = sy_data synced, sr_versionId = sy_versionId synced, sr_errors = []\<rparr>,
                Some version, notified)))"

text \<open>\<open>pushChanges\<close>, given the results of its calls of \<open>syncResource\<close>, \<open>None\<close> for one that threw.\<close>

record PushResult =
  pr_success :: bool
  pr_status :: CollabStatus
  pr_conflicts :: "Conflict list"
  pr_appliedChanges :: "jval Change list"
  pr_failedChanges :: "json Change list"

definition push_one :: "json Change \<times> CollabResult option \<Rightarrow> PushResult \<Rightarrow> PushResult" where
  "push_one cr p =
     (case snd cr of
        None \<Rightarrow> p\<lparr>pr_failedChanges := pr_failedChanges p @ [fst cr]\<rparr>
      | Some r \<Rightarrow> if sr_success r then p\<lparr>pr_appliedChanges := pr_appliedChanges p @ sr_appliedChanges r\<rparr>
          else p\<lparr>pr_failedChanges := pr_failedChanges p @ [fst cr], pr_conflicts := pr_conflicts p @ sr_conflicts r\<rparr>)"

definition pushChanges :: "(json Change \<times> CollabResult option) list \<Rightarrow> PushResult" where
  "pushChanges results =
     (let p = fold push_one results \<lparr>pr_success = True, pr_status = CsSuccess, pr_conflicts = [], pr_appliedChanges = [], pr_failedChanges = []\<rparr> in
      p\<lparr>pr_success := pr_failedChanges p = [],
        pr_status := (if pr_conflicts p \<noteq> [] then CsConflict else if pr_failedChanges p \<noteq> [] then CsError else CsSuccess)\<rparr>)"

section \<open>Remote changes\<close>

definition changeToOperation :: "json Change \<Rightarrow> Operation" where
  "changeToOperation c =
     \<lparr>op_type = cg_type c, op_path = cg_path c, op_value = cg_value c, op_oldValue = cg_oldValue c,
      op_timestamp = cg_timestamp c, op_userId = cg_userId c, op_operationId = cg_id c,
      op_position = None, op_newPosition = None, op_sourceId = None, op_targetId = None\<rparr>"

definition operationToChange :: "Operation \<Rightarrow> ResourceType \<Rightarrow> ident \<Rightarrow> json Change" where
  "operationToChange p resourceType resourceId =
     \<lparr>cg_id = op_operationId p, cg_type = op_type p, cg_resourceType = resourceType, cg_resourceId = resourceId,
      cg_path = op_path p, cg_value = op_value p, cg_oldValue = op_oldValue p, cg_timestamp = op_timestamp p,
      cg_userId = op_userId p\<rparr>"

datatype sync_event =
    RemoteChangeEvent ResourceType ident "json Change"
  | RemoteVersionEvent ResourceType ident jval
  | RollbackEvent ident json

datatype update_kind = Upd_change | Upd_conflict | Upd_version

record RemoteUpdate =
  ru_type :: update_kind
  ru_resourceType :: ResourceType
  ru_resourceId :: ident
  ru_change :: "json Change option"
  ru_conflict :: "Conflict option"
  ru_version :: "jval option"

type_synonym resource_key = "ResourceType \<times> ident"

definition change_key :: "'v Change \<Rightarrow> resource_key" where
  "change_key c = (cg_resourceType c, cg_resourceId c)"

text \<open>
  The remote change comes out of JSON, so its timestamp is a text, and no date is less than a text in JavaScript:
  the transformation sees a local operation that is never older than the remote one.
\<close>

definition never_older :: "Operation \<Rightarrow> Operation \<Rightarrow> Operation" where
  "never_older localOp remoteOp = localOp\<lparr>op_timestamp := op_timestamp remoteOp\<rparr>"

definition transform_remote :: "json Change \<Rightarrow> json Change \<Rightarrow> Operation" where
  "transform_remote localChange remote =
     (let remoteOp = changeToOperation remote in
      snd (transform (never_older (changeToOperation localChange) remoteOp) remoteOp))"

definition handleRemoteChange :: "(resource_key \<times> OptimisticUpdate) list \<Rightarrow> RemoteUpdate \<Rightarrow> sync_event list" where
  "handleRemoteChange optimisticUpdates u =
     (case ru_change u of None \<Rightarrow> [] | Some change \<Rightarrow>
        (case map_of optimisticUpdates (ru_resourceType u, ru_resourceId u) of
           Some opt \<Rightarrow>
             if \<not> ou_confirmed opt then
               [RemoteChangeEvent (ru_resourceType u) (ru_resourceId u)
                 (operationToChange (transform_remote (ou_change opt) change) (ru_resourceType u) (ru_resourceId u))]
             else [RemoteChangeEvent (ru_resourceType u) (ru_resourceId u) change]
         | None \<Rightarrow> [RemoteChangeEvent (ru_resourceType u) (ru_resourceId u) change]))"

section \<open>The service\<close>

text \<open>
  A run of \<open>processOfflineQueue\<close>: the index of the loop, where the operation it is at stands in the array (\<open>None\<close> once it was shifted
  out), its identifier and resource, whether the loop waits for the retry delay (or else for the server), the identifiers
  processed, and the array when the service has another one.
\<close>

record Drain =
  dr_index :: nat
  dr_at :: "nat option"
  dr_id :: ident
  dr_key :: resource_key
  dr_delay :: bool
  dr_processed :: "ident list"
  dr_array :: "QueuedOperation list option"

datatype socket_state = Sock_connecting | Sock_open | Sock_closing | Sock_closed

record Socket =
  sk_project :: ident
  sk_state :: socket_state

record SyncService =
  ss_config :: SyncServiceConfig
  ss_queue :: "QueuedOperation list"
  ss_optimistic :: "(resource_key \<times> OptimisticUpdate) list"
  ss_online :: bool
  ss_processing :: bool
  ss_drain :: "Drain option"
  ss_stored :: "QueuedOperation list option"
  ss_events :: "sync_event list"
  ss_conflicts :: "Conflict list"
  ss_timeouts :: "(resource_key \<times> ident) list"
  ss_sockets :: "Socket list"
  ss_ws :: "nat option"
  ss_reconnects :: "ident list"
  ss_interval :: bool

definition sync_create :: "SyncServiceConfig \<Rightarrow> bool \<Rightarrow> QueuedOperation list option \<Rightarrow> SyncService" where
  "sync_create config online stored =
     \<lparr>ss_config = config, ss_queue = [], ss_optimistic = [], ss_online = online, ss_processing = False,
      ss_drain = None, ss_stored = stored, ss_events = [], ss_conflicts = [], ss_timeouts = [], ss_sockets = [],
      ss_ws = None, ss_reconnects = [], ss_interval = True\<rparr>"

subsection \<open>The queue\<close>

definition date_text :: "queue_date \<Rightarrow> queue_date" where
  "date_text d = (case d of DateObject n \<Rightarrow> DateText n | DateText n \<Rightarrow> DateText n)"

definition saveQueueToStorage :: "SyncService \<Rightarrow> SyncService" where
  "saveQueueToStorage s = s\<lparr>ss_stored := Some (map (\<lambda>q. q\<lparr>qo_queuedAt := date_text (qo_queuedAt q)\<rparr>) (ss_queue s))\<rparr>"

text \<open>Another array takes the place of the queue; a loop that runs keeps the old one.\<close>

definition replace_queue :: "QueuedOperation list \<Rightarrow> SyncService \<Rightarrow> SyncService" where
  "replace_queue q s =
     s\<lparr>ss_queue := q,
       ss_drain := map_option (\<lambda>d. if dr_array d = None then d\<lparr>dr_array := Some (ss_queue s)\<rparr> else d) (ss_drain s)\<rparr>"

definition loadQueueFromStorage :: "SyncService \<Rightarrow> SyncService" where
  "loadQueueFromStorage s = (case ss_stored s of None \<Rightarrow> s | Some q \<Rightarrow> replace_queue q s)"

definition clearQueue :: "SyncService \<Rightarrow> SyncService" where
  "clearQueue s = saveQueueToStorage (replace_queue [] s)"

text \<open>\<open>shift\<close> on the array that a loop iterates.\<close>

definition drain_shifted :: "Drain \<Rightarrow> Drain" where
  "drain_shifted d =
     (if dr_array d = None then d\<lparr>dr_at := (case dr_at d of Some (Suc k) \<Rightarrow> Some k | _ \<Rightarrow> None)\<rparr> else d)"

definition new_operation :: "json Change \<Rightarrow> millis \<Rightarrow> QueuedOperation" where
  "new_operation change now =
     \<lparr>qo_id = cg_id change, qo_change = change, qo_priority = 1, qo_retryCount = 0,
      qo_queuedAt = DateObject now, qo_status = Q_queued\<rparr>"

definition queueOfflineChange :: "json Change \<Rightarrow> millis \<Rightarrow> SyncService \<Rightarrow> SyncService" where
  "queueOfflineChange change now s =
     (if \<not> sv_enableOfflineQueue (ss_config s) then s
      else
        let full = length (ss_queue s) \<ge> sv_maxQueueSize (ss_config s);
            s1 = (if full then s\<lparr>ss_queue := drop 1 (ss_queue s), ss_drain := map_option drain_shifted (ss_drain s)\<rparr> else s) in
        saveQueueToStorage (s1\<lparr>ss_queue := ss_queue s1 @ [new_operation change now]\<rparr>))"

text \<open>The array of a loop, and a change of the operation that it is at.\<close>

definition drain_queue :: "SyncService \<Rightarrow> Drain \<Rightarrow> QueuedOperation list" where
  "drain_queue s d = (case dr_array d of None \<Rightarrow> ss_queue s | Some q \<Rightarrow> q)"

definition put_drain :: "QueuedOperation list \<Rightarrow> Drain \<Rightarrow> SyncService \<Rightarrow> SyncService" where
  "put_drain q d s =
     (case dr_array d of None \<Rightarrow> s\<lparr>ss_queue := q, ss_drain := Some d\<rparr>
      | Some _ \<Rightarrow> s\<lparr>ss_drain := Some (d\<lparr>dr_array := Some q\<rparr>)\<rparr>)"

definition drain_update :: "(QueuedOperation \<Rightarrow> QueuedOperation) \<Rightarrow> Drain \<Rightarrow> SyncService \<Rightarrow> SyncService" where
  "drain_update f d s =
     (case dr_at d of None \<Rightarrow> s\<lparr>ss_drain := Some d\<rparr>
      | Some k \<Rightarrow> put_drain ((drain_queue s d)[k := f (drain_queue s d ! k)]) d s)"

definition retry_operation :: "nat \<Rightarrow> QueuedOperation \<Rightarrow> QueuedOperation" where
  "retry_operation maxRetries q =
     q\<lparr>qo_retryCount := qo_retryCount q + 1,
       qo_status := (if qo_retryCount q + 1 \<ge> maxRetries then Q_failed else Q_queued)\<rparr>"

text \<open>After the loop: what was processed leaves the queue of the service.\<close>

definition drain_done :: "Drain \<Rightarrow> SyncService \<Rightarrow> SyncService" where
  "drain_done d s =
     (saveQueueToStorage (s\<lparr>ss_queue := filter (\<lambda>q. qo_id q \<notin> set (dr_processed d)) (ss_queue s)\<rparr>))
       \<lparr>ss_processing := False, ss_drain := None\<rparr>"

text \<open>
  The loop from an index on, until it waits. Offline, \<open>syncResource\<close> queues the change once more, under the identifier
  \<open>fresh\<close>, and answers at once.
\<close>

definition requeued :: "ident \<Rightarrow> ident \<Rightarrow> millis \<Rightarrow> json Change \<Rightarrow> json Change" where
  "requeued fresh userId now c =
     \<lparr>cg_id = fresh, cg_type = OpUpdate, cg_resourceType = cg_resourceType c, cg_resourceId = cg_resourceId c, cg_path = [],
      cg_value = cg_value c, cg_oldValue = JUndef, cg_timestamp = now,
      cg_userId = (if userId = [] then ''unknown-user'' else userId)\<rparr>"

function drain_from :: "ident \<Rightarrow> ident \<Rightarrow> millis \<Rightarrow> Drain \<Rightarrow> SyncService \<Rightarrow> SyncService" where
  "drain_from fresh userId now d s =
     (let q = drain_queue s d in
      if dr_index d \<ge> length q then drain_done d s
      else
        let p = q ! dr_index d in
        if qo_status p = Q_completed then
          drain_from fresh userId now (d\<lparr>dr_index := dr_index d + 1, dr_processed := dr_processed d @ [qo_id p]\<rparr>) s
        else
          let d1 = d\<lparr>dr_at := Some (dr_index d), dr_id := qo_id p, dr_key := change_key (qo_change p), dr_delay := False\<rparr>;
              s1 = drain_update (\<lambda>q. q\<lparr>qo_status := Q_processing\<rparr>) d1 s in
          if ss_online s1 then s1
          else
            let s2 = queueOfflineChange (requeued fresh userId now (qo_change p)) now s1 in
            (case ss_drain s2 of None \<Rightarrow> s2
             | Some d2 \<Rightarrow> drain_update (retry_operation (sv_maxRetries (ss_config s2))) (d2\<lparr>dr_delay := True\<rparr>) s2))"
  by pat_completeness auto

termination
  by (relation "measure (\<lambda>(fresh, userId, now, d, s). length (drain_queue s d) - dr_index d)")
    (auto simp: drain_queue_def)

declare drain_from.simps [simp del]

definition next_drain :: "Drain \<Rightarrow> Drain" where
  "next_drain d = d\<lparr>dr_index := dr_index d + 1, dr_at := None, dr_delay := False\<rparr>"

text \<open>Sorting reads \<open>getTime\<close> of dates, which a text does not have; all priorities are 1.\<close>

definition date_value :: "queue_date \<Rightarrow> millis" where
  "date_value d = (case d of DateObject n \<Rightarrow> n | DateText n \<Rightarrow> n)"

definition is_date :: "queue_date \<Rightarrow> bool" where
  "is_date d = (case d of DateObject _ \<Rightarrow> True | DateText _ \<Rightarrow> False)"

definition sort_queue :: "QueuedOperation list \<Rightarrow> QueuedOperation list option" where
  "sort_queue q =
     (if length q \<ge> 2 \<and> \<not> list_all (\<lambda>p. is_date (qo_queuedAt p)) q then None
      else Some (sort_key (\<lambda>p. - qo_priority p) (sort_key (\<lambda>p. date_value (qo_queuedAt p)) q)))"

definition processOfflineQueue :: "ident \<Rightarrow> ident \<Rightarrow> millis \<Rightarrow> SyncService \<Rightarrow> SyncService" where
  "processOfflineQueue fresh userId now s =
     (if \<not> ss_online s \<or> ss_processing s \<or> ss_queue s = [] then s
      else
        let s1 = s\<lparr>ss_processing := True\<rparr> in
        (case sort_queue (ss_queue s1) of
           None \<Rightarrow> s1
         | Some q \<Rightarrow> drain_from fresh userId now
             \<lparr>dr_index = 0, dr_at = None, dr_id = [], dr_key = (Res_workflow, []), dr_delay = False, dr_processed = [], dr_array = None\<rparr>
             (s1\<lparr>ss_queue := q\<rparr>)))"

text \<open>
  The result of \<open>syncResource\<close> for the operation that the loop waits for: a conflict was notified, a success confirmed
  the optimistic update of the resource.
\<close>

definition confirm_optimistic :: "resource_key \<Rightarrow> SyncService \<Rightarrow> SyncService" where
  "confirm_optimistic key s =
     s\<lparr>ss_optimistic := map (\<lambda>(k, u). (k, if k = key then u\<lparr>ou_confirmed := True\<rparr> else u)) (ss_optimistic s)\<rparr>"

definition drain_result :: "CollabResult \<Rightarrow> ident \<Rightarrow> ident \<Rightarrow> millis \<Rightarrow> SyncService \<Rightarrow> SyncService" where
  "drain_result r fresh userId now s =
     (case ss_drain s of None \<Rightarrow> s | Some d \<Rightarrow>
        if dr_delay d then s
        else let maxRetries = sv_maxRetries (ss_config s) in
          if sr_success r then
            let s1 = drain_update (\<lambda>q. q\<lparr>qo_status := Q_completed\<rparr>) d (confirm_optimistic (dr_key d) s) in
            (case ss_drain s1 of None \<Rightarrow> s1
             | Some d1 \<Rightarrow> drain_from fresh userId now (next_drain (d1\<lparr>dr_processed := dr_processed d1 @ [dr_id d1]\<rparr>)) s1)
          else if sr_status r = CsConflict then
            let s1 = drain_update (retry_operation maxRetries) d (s\<lparr>ss_conflicts := ss_conflicts s @ sr_conflicts r\<rparr>) in
            (case ss_drain s1 of None \<Rightarrow> s1 | Some d1 \<Rightarrow> drain_from fresh userId now (next_drain d1) s1)
          else drain_update (retry_operation maxRetries) (d\<lparr>dr_delay := True\<rparr>) s)"

definition drain_delay_over :: "ident \<Rightarrow> ident \<Rightarrow> millis \<Rightarrow> SyncService \<Rightarrow> SyncService" where
  "drain_delay_over fresh userId now s =
     (case ss_drain s of None \<Rightarrow> s | Some d \<Rightarrow>
        if dr_delay d then drain_from fresh userId now (next_drain d) s else s)"

subsection \<open>Optimistic updates\<close>

definition applyOptimisticUpdate :: "json Change \<Rightarrow> json \<Rightarrow> millis \<Rightarrow> SyncService \<Rightarrow> SyncService" where
  "applyOptimisticUpdate change originalState now s =
     (if \<not> sv_enableOptimisticUpdates (ss_config s) then s
      else let key = change_key change in
        s\<lparr>ss_optimistic := map_set key
            \<lparr>ou_id = cg_id change, ou_change = change, ou_originalState = originalState, ou_appliedAt = now, ou_confirmed = False\<rparr>
            (ss_optimistic s),
          ss_timeouts := ss_timeouts s @ [(key, cg_id change)]\<rparr>)"

definition rollbackOptimisticUpdate :: "ident \<Rightarrow> SyncService \<Rightarrow> SyncService" where
  "rollbackOptimisticUpdate changeId s =
     (case find (\<lambda>(key, u). ou_id u = changeId) (ss_optimistic s) of
        None \<Rightarrow> s
      | Some (key, u) \<Rightarrow>
          s\<lparr>ss_events := ss_events s @ [RollbackEvent changeId (ou_originalState u)],
            ss_optimistic := filter (\<lambda>(k, v). k \<noteq> key) (ss_optimistic s)\<rparr>)"

definition optimistic_timeout :: "resource_key \<Rightarrow> ident \<Rightarrow> SyncService \<Rightarrow> SyncService" where
  "optimistic_timeout key changeId s =
     (if (key, changeId) \<notin> set (ss_timeouts s) then s
      else let s1 = s\<lparr>ss_timeouts := remove1 (key, changeId) (ss_timeouts s)\<rparr> in
        case map_of (ss_optimistic s1) key of
          None \<Rightarrow> s1
        | Some u \<Rightarrow> if ou_confirmed u then s1 else rollbackOptimisticUpdate changeId s1)"

definition handleRemoteConflict :: "RemoteUpdate \<Rightarrow> SyncService \<Rightarrow> SyncService" where
  "handleRemoteConflict u s = (case ru_conflict u of None \<Rightarrow> s | Some c \<Rightarrow> s\<lparr>ss_conflicts := ss_conflicts s @ [c]\<rparr>)"

definition handleRemoteVersion :: "RemoteUpdate \<Rightarrow> SyncService \<Rightarrow> SyncService" where
  "handleRemoteVersion u s =
     (case ru_version u of None \<Rightarrow> s
      | Some v \<Rightarrow> s\<lparr>ss_events := ss_events s @ [RemoteVersionEvent (ru_resourceType u) (ru_resourceId u) v]\<rparr>)"

definition handleRemoteUpdate :: "RemoteUpdate \<Rightarrow> SyncService \<Rightarrow> SyncService" where
  "handleRemoteUpdate u s =
     (case ru_type u of
        Upd_change \<Rightarrow> s\<lparr>ss_events := ss_events s @ handleRemoteChange (ss_optimistic s) u\<rparr>
      | Upd_conflict \<Rightarrow> handleRemoteConflict u s
      | Upd_version \<Rightarrow> handleRemoteVersion u s)"

subsection \<open>The web socket\<close>

definition connectWebSocket :: "ident \<Rightarrow> SyncService \<Rightarrow> SyncService" where
  "connectWebSocket projectId s =
     (if (case ss_ws s of None \<Rightarrow> False | Some k \<Rightarrow> sk_state (ss_sockets s ! k) = Sock_open) then s
      else s\<lparr>ss_sockets := ss_sockets s @ [\<lparr>sk_project = projectId, sk_state = Sock_connecting\<rparr>],
             ss_ws := Some (length (ss_sockets s))\<rparr>)"

definition disconnectWebSocket :: "SyncService \<Rightarrow> SyncService" where
  "disconnectWebSocket s =
     (case ss_ws s of None \<Rightarrow> s
      | Some k \<Rightarrow> s\<lparr>ss_sockets := (ss_sockets s)[k := (ss_sockets s ! k)
            \<lparr>sk_state := (if sk_state (ss_sockets s ! k) = Sock_closed then Sock_closed else Sock_closing)\<rparr>], ss_ws := None\<rparr>)"

definition socket_opened :: "nat \<Rightarrow> SyncService \<Rightarrow> SyncService" where
  "socket_opened k s =
     (if k < length (ss_sockets s) \<and> sk_state (ss_sockets s ! k) = Sock_connecting
      then s\<lparr>ss_sockets := (ss_sockets s)[k := (ss_sockets s ! k)\<lparr>sk_state := Sock_open\<rparr>]\<rparr> else s)"

text \<open>The close event of a socket; its handler starts a timer that connects again.\<close>

definition socket_onclose :: "nat \<Rightarrow> SyncService \<Rightarrow> SyncService" where
  "socket_onclose k s =
     (if k < length (ss_sockets s) \<and> sk_state (ss_sockets s ! k) \<noteq> Sock_closed
      then s\<lparr>ss_sockets := (ss_sockets s)[k := (ss_sockets s ! k)\<lparr>sk_state := Sock_closed\<rparr>],
             ss_reconnects := ss_reconnects s @ [sk_project (ss_sockets s ! k)]\<rparr> else s)"

definition socket_reconnects :: "ident \<Rightarrow> SyncService \<Rightarrow> SyncService" where
  "socket_reconnects projectId s =
     (if projectId \<in> set (ss_reconnects s)
      then connectWebSocket projectId (s\<lparr>ss_reconnects := remove1 projectId (ss_reconnects s)\<rparr>) else s)"

definition sync_destroy :: "SyncService \<Rightarrow> SyncService" where
  "sync_destroy s = saveQueueToStorage ((disconnectWebSocket s)\<lparr>ss_interval := False\<rparr>)"

record OfflineQueueState =
  oq_pending :: "QueuedOperation list"
  oq_failed :: "QueuedOperation list"
  oq_size :: nat
  oq_processing :: bool

definition getQueueState :: "SyncService \<Rightarrow> OfflineQueueState" where
  "getQueueState s =
     \<lparr>oq_pending = filter (\<lambda>q. qo_status q = Q_queued) (ss_queue s), oq_failed = filter (\<lambda>q. qo_status q = Q_failed) (ss_queue s),
      oq_size = length (ss_queue s), oq_processing = ss_processing s\<rparr>"

section \<open>Events\<close>

datatype SyncServiceEvent =
    QueueEv "json Change" millis
  | ProcessEv ident ident millis
  | OnlineEv ident ident millis
  | OfflineEv
  | IntervalEv ident ident millis
  | ResultEv CollabResult ident ident millis
  | DelayEv ident ident millis
  | ClearEv
  | LoadEv
  | OptimisticEv "json Change" json millis
  | RollbackEv ident
  | TimeoutEv resource_key ident
  | ConfirmEv resource_key
  | RemoteEv RemoteUpdate
  | ConnectEv ident
  | DisconnectEv
  | OpenedEv nat
  | ClosedEv nat
  | ReconnectEv ident
  | DestroyEv

definition sync_service_step :: "SyncService \<Rightarrow> SyncServiceEvent \<Rightarrow> SyncService" where
  "sync_service_step s e =
     (case e of
        QueueEv c now \<Rightarrow> queueOfflineChange c now s
      | ProcessEv fresh u now \<Rightarrow> processOfflineQueue fresh u now s
      | OnlineEv fresh u now \<Rightarrow> processOfflineQueue fresh u now (s\<lparr>ss_online := True\<rparr>)
      | OfflineEv \<Rightarrow> s\<lparr>ss_online := False\<rparr>
      | IntervalEv fresh u now \<Rightarrow>
          if ss_interval s \<and> ss_online s \<and> \<not> ss_processing s then processOfflineQueue fresh u now s else s
      | ResultEv r fresh u now \<Rightarrow> drain_result r fresh u now s
      | DelayEv fresh u now \<Rightarrow> drain_delay_over fresh u now s
      | ClearEv \<Rightarrow> clearQueue s
      | LoadEv \<Rightarrow> loadQueueFromStorage s
      | OptimisticEv c original now \<Rightarrow> applyOptimisticUpdate c original now s
      | RollbackEv i \<Rightarrow> rollbackOptimisticUpdate i s
      | TimeoutEv k i \<Rightarrow> optimistic_timeout k i s
      | ConfirmEv k \<Rightarrow> confirm_optimistic k s
      | RemoteEv u \<Rightarrow> handleRemoteUpdate u s
      | ConnectEv p \<Rightarrow> connectWebSocket p s
      | DisconnectEv \<Rightarrow> disconnectWebSocket s
      | OpenedEv k \<Rightarrow> socket_opened k s
      | ClosedEv k \<Rightarrow> socket_onclose k s
      | ReconnectEv p \<Rightarrow> socket_reconnects p s
      | DestroyEv \<Rightarrow> sync_destroy s)"

end
