(* ===== verification/Sync_Service.thy ===== *)
theory Sync_Service
  imports Collab_Sync Interfaces
begin

text \<open>
  What the synchronisation service does in every run: the bound of its queue, the loop that goes on while the service
  is offline, the queue that blocks once it was read back from storage, and what is emitted for a remote change.
\<close>

section \<open>The bound of the queue\<close>

definition queue_bounded :: "SyncService \<Rightarrow> bool" where
  "queue_bounded s \<longleftrightarrow> 1 \<le> sv_maxQueueSize (ss_config s) \<and> length (ss_queue s) \<le> sv_maxQueueSize (ss_config s)
     \<and> (\<forall>q \<in> set_option (ss_stored s). length q \<le> sv_maxQueueSize (ss_config s))"

lemma length_drain_queue [simp]: "dr_array d = None \<Longrightarrow> drain_queue s d = ss_queue s"
  by (simp add: drain_queue_def)

lemma drain_update_fields [simp]:
  "ss_config (drain_update f d s) = ss_config s" "ss_stored (drain_update f d s) = ss_stored s"
  "ss_online (drain_update f d s) = ss_online s" "ss_processing (drain_update f d s) = ss_processing s"
  "length (ss_queue (drain_update f d s)) = length (ss_queue s)"
  by (auto simp: drain_update_def put_drain_def split: option.splits)

lemma bounded_update [simp]: "queue_bounded (drain_update f d s) \<longleftrightarrow> queue_bounded s"
  by (simp add: queue_bounded_def)

lemma bounded_save: "queue_bounded s \<Longrightarrow> queue_bounded (saveQueueToStorage s)"
  by (simp add: queue_bounded_def saveQueueToStorage_def)

lemma bounded_queue: "queue_bounded s \<Longrightarrow> queue_bounded (queueOfflineChange c now s)"
  by (auto simp: queue_bounded_def queueOfflineChange_def saveQueueToStorage_def Let_def)

lemma bounded_done: "queue_bounded s \<Longrightarrow> queue_bounded (drain_done d s)"
  by (auto simp: queue_bounded_def drain_done_def saveQueueToStorage_def intro: order_trans [OF length_filter_le])

lemma bounded_drain: "queue_bounded s \<Longrightarrow> queue_bounded (drain_from fresh u now d s)"
proof (induction fresh u now d s rule: drain_from.induct)
  case (1 fresh u now d s)
  then show ?case
    by (subst drain_from.simps) (auto simp: Let_def bounded_done bounded_queue split: option.splits)
qed

lemma length_sort_queue: "sort_queue q = Some q' \<Longrightarrow> length q' = length q"
  by (auto simp: sort_queue_def split: if_splits)

lemma bounded_other [simp]:
  "queue_bounded (s\<lparr>ss_online := b\<rparr>) \<longleftrightarrow> queue_bounded s"
  "queue_bounded (s\<lparr>ss_processing := b\<rparr>) \<longleftrightarrow> queue_bounded s"
  "queue_bounded (s\<lparr>ss_conflicts := cs\<rparr>) \<longleftrightarrow> queue_bounded s"
  "queue_bounded (s\<lparr>ss_events := es\<rparr>) \<longleftrightarrow> queue_bounded s"
  "queue_bounded (s\<lparr>ss_optimistic := os\<rparr>) \<longleftrightarrow> queue_bounded s"
  "queue_bounded (s\<lparr>ss_timeouts := ts\<rparr>) \<longleftrightarrow> queue_bounded s"
  "queue_bounded (s\<lparr>ss_interval := b\<rparr>) \<longleftrightarrow> queue_bounded s"
  "queue_bounded (s\<lparr>ss_sockets := ks\<rparr>) \<longleftrightarrow> queue_bounded s"
  "queue_bounded (s\<lparr>ss_reconnects := rs\<rparr>) \<longleftrightarrow> queue_bounded s"
  "queue_bounded (s\<lparr>ss_ws := w\<rparr>) \<longleftrightarrow> queue_bounded s"
  by (simp_all add: queue_bounded_def)

lemma bounded_sorted:
  "queue_bounded s \<Longrightarrow> sort_queue (ss_queue s) = Some q \<Longrightarrow> queue_bounded (s\<lparr>ss_processing := True, ss_queue := q\<rparr>)"
  by (simp add: queue_bounded_def length_sort_queue)

lemma bounded_process: "queue_bounded s \<Longrightarrow> queue_bounded (processOfflineQueue fresh u now s)"
  unfolding processOfflineQueue_def by (auto simp: Let_def bounded_drain bounded_sorted split: option.splits)

lemma bounded_confirm [simp]: "queue_bounded (confirm_optimistic k s) \<longleftrightarrow> queue_bounded s"
  by (simp add: confirm_optimistic_def)

lemma bounded_result: "queue_bounded s \<Longrightarrow> queue_bounded (drain_result r fresh u now s)"
  by (auto simp: drain_result_def Let_def bounded_drain split: option.splits)

lemma bounded_delay: "queue_bounded s \<Longrightarrow> queue_bounded (drain_delay_over fresh u now s)"
  by (auto simp: drain_delay_over_def bounded_drain split: option.splits)

lemma bounded_clear: "queue_bounded s \<Longrightarrow> queue_bounded (clearQueue s)"
  by (simp add: queue_bounded_def clearQueue_def replace_queue_def saveQueueToStorage_def)

lemma bounded_load: "queue_bounded s \<Longrightarrow> queue_bounded (loadQueueFromStorage s)"
  by (auto simp: queue_bounded_def loadQueueFromStorage_def replace_queue_def split: option.splits)

lemma bounded_rollback [simp]: "queue_bounded (rollbackOptimisticUpdate i s) \<longleftrightarrow> queue_bounded s"
  by (auto simp: rollbackOptimisticUpdate_def split: option.splits)

lemma bounded_connect [simp]: "queue_bounded (connectWebSocket p s) \<longleftrightarrow> queue_bounded s"
  by (auto simp: connectWebSocket_def)

lemma bounded_disconnect [simp]: "queue_bounded (disconnectWebSocket s) \<longleftrightarrow> queue_bounded s"
  by (auto simp: disconnectWebSocket_def split: option.splits)

lemma bounded_step: "queue_bounded s \<Longrightarrow> queue_bounded (sync_service_step s e)"
  by (cases e)
    (auto simp: sync_service_step_def applyOptimisticUpdate_def optimistic_timeout_def handleRemoteUpdate_def handleRemoteConflict_def handleRemoteVersion_def socket_opened_def
      socket_onclose_def socket_reconnects_def sync_destroy_def Let_def bounded_queue bounded_process bounded_result bounded_delay
      bounded_clear bounded_load bounded_save split: update_kind.splits option.splits)

interpretation sync_queue_bound: invariant_machine sync_service_step queue_bounded
  by unfold_locales (rule bounded_step)

section \<open>A queue that was read back\<close>

definition blocked :: "SyncService \<Rightarrow> bool" where
  "blocked s \<longleftrightarrow> ss_processing s \<and> ss_drain s = None"

lemma blocked_step: "blocked s \<Longrightarrow> blocked (sync_service_step s e)"
  by (cases e)
    (auto simp: blocked_def sync_service_step_def applyOptimisticUpdate_def optimistic_timeout_def handleRemoteUpdate_def
      handleRemoteConflict_def handleRemoteVersion_def
      socket_opened_def socket_onclose_def socket_reconnects_def sync_destroy_def Let_def queueOfflineChange_def
      processOfflineQueue_def drain_result_def drain_delay_over_def clearQueue_def loadQueueFromStorage_def replace_queue_def
      saveQueueToStorage_def rollbackOptimisticUpdate_def connectWebSocket_def disconnectWebSocket_def confirm_optimistic_def
      split: update_kind.splits option.splits)

interpretation queue_block: invariant_machine sync_service_step blocked
  by unfold_locales (rule blocked_step)

lemma text_dates: "list_all (\<lambda>p. is_date (qo_queuedAt p)) (map (\<lambda>q. q\<lparr>qo_queuedAt := date_text (qo_queuedAt q)\<rparr>) qs) \<longleftrightarrow> qs = []"
  by (cases qs) (auto simp: is_date_def date_text_def split: queue_date.splits)

lemma sort_texts:
  "length qs \<ge> 2 \<Longrightarrow> sort_queue (map (\<lambda>q. q\<lparr>qo_queuedAt := date_text (qo_queuedAt q)\<rparr>) qs) = None"
  by (auto simp: sort_queue_def text_dates)

section \<open>Offline in the middle of the queue\<close>

text \<open>The loop waits for a delay, and there is an operation after the one it is at.\<close>

definition waits_below :: "Drain \<Rightarrow> SyncService \<Rightarrow> bool" where
  "waits_below d s \<longleftrightarrow> ss_drain s = Some d \<and> dr_array d = None \<and> dr_delay d \<and> Suc (dr_index d) < length (ss_queue s)
     \<and> (\<forall>p \<in> set (drop (Suc (dr_index d)) (ss_queue s)). qo_status p \<noteq> Q_completed)"

text \<open>The changes and their values, in the order of the queue.\<close>

definition queued_changes :: "SyncService \<Rightarrow> json Change list" where
  "queued_changes s = map qo_change (ss_queue s)"

lemma map_update_same: "k < length xs \<Longrightarrow> g y = g (xs ! k) \<Longrightarrow> map g (xs[k := y]) = map g xs"
  by (metis list_update_id map_update)

lemma update_here:
  "dr_array d = None \<Longrightarrow> dr_at d = Some k \<Longrightarrow>
   drain_update f d s = s\<lparr>ss_queue := (ss_queue s)[k := f (ss_queue s ! k)], ss_drain := Some d\<rparr>"
  by (simp add: drain_update_def put_drain_def)

lemma queue_with_room:
  "sv_enableOfflineQueue (ss_config s) \<Longrightarrow> length (ss_queue s) < sv_maxQueueSize (ss_config s) \<Longrightarrow>
   queueOfflineChange c now s = saveQueueToStorage (s\<lparr>ss_queue := ss_queue s @ [new_operation c now]\<rparr>)"
  by (simp add: queueOfflineChange_def Let_def)

text \<open>The loop at an operation to be sent, while offline.\<close>

lemma drain_offline:
  fixes fresh u :: ident and now :: millis
  assumes d: "dr_array d = None" "dr_index d < length (ss_queue s)" "qo_status (ss_queue s ! dr_index d) \<noteq> Q_completed"
    and off: "\<not> ss_online s" "sv_enableOfflineQueue (ss_config s)"
    and room: "length (ss_queue s) < sv_maxQueueSize (ss_config s)"
  defines "p \<equiv> (ss_queue s ! dr_index d)\<lparr>qo_status := Q_processing\<rparr>"
  defines "c \<equiv> requeued fresh u now (qo_change p)"
  shows "\<exists>stored. drain_from fresh u now d s =
     s\<lparr>ss_stored := stored, ss_queue := (ss_queue s)[dr_index d := retry_operation (sv_maxRetries (ss_config s)) p] @ [new_operation c now],
       ss_drain := Some (d\<lparr>dr_at := Some (dr_index d), dr_id := qo_id p, dr_key := change_key (qo_change p), dr_delay := True\<rparr>)\<rparr>"
proof -
  let ?d = "d\<lparr>dr_at := Some (dr_index d), dr_id := qo_id p, dr_key := change_key (qo_change p), dr_delay := False\<rparr>"
  let ?s = "s\<lparr>ss_queue := (ss_queue s)[dr_index d := p], ss_drain := Some ?d\<rparr>"
  have up: "drain_update (\<lambda>q. q\<lparr>qo_status := Q_processing\<rparr>) ?d s = ?s"
    using d(1) by (simp add: update_here p_def)
  have queued: "queueOfflineChange c now ?s = saveQueueToStorage (?s\<lparr>ss_queue := ss_queue ?s @ [new_operation c now]\<rparr>)"
    using off room by (simp add: queue_with_room)
  have step: "drain_from fresh u now d s = drain_update (retry_operation (sv_maxRetries (ss_config s))) (?d\<lparr>dr_delay := True\<rparr>)
      (saveQueueToStorage (?s\<lparr>ss_queue := ss_queue ?s @ [new_operation c now]\<rparr>))"
    using d off up queued
    by (subst drain_from.simps) (simp add: Let_def c_def p_def saveQueueToStorage_def)
  have at: "((ss_queue s)[dr_index d := p] @ [new_operation c now])[dr_index d := retry_operation m p] =
      (ss_queue s)[dr_index d := retry_operation m p] @ [new_operation c now]" for m
    using d(2) by (simp add: list_update_append)
  show ?thesis
    unfolding step using d at
    by (subst update_here [where k = "dr_index d"]) (auto simp: saveQueueToStorage_def nth_append intro!: exI)
qed

lemma offline_delay:
  assumes w: "waits_below d s" and off: "\<not> ss_online s" "sv_enableOfflineQueue (ss_config s)"
    and room: "length (ss_queue s) < sv_maxQueueSize (ss_config s)"
  shows "\<exists>d' c. let t = sync_service_step s (DelayEv fresh u now) in
     waits_below d' t \<and> \<not> ss_online t \<and> ss_config t = ss_config s \<and> ss_processing t = ss_processing s
     \<and> queued_changes t = queued_changes s @ [c] \<and> cg_value c \<in> cg_value ` set (queued_changes s)"
proof -
  let ?q = "ss_queue s" and ?i = "Suc (dr_index d)"
  let ?p = "(?q ! ?i)\<lparr>qo_status := Q_processing\<rparr>"
  let ?c = "requeued fresh u now (qo_change ?p)" and ?m = "sv_maxRetries (ss_config s)"
  let ?t = "sync_service_step s (DelayEv fresh u now)"
  have i: "?i < length ?q" and d: "ss_drain s = Some d" "dr_delay d" "dr_array d = None"
    and open_below: "\<And>p. p \<in> set (drop ?i ?q) \<Longrightarrow> qo_status p \<noteq> Q_completed"
    using w by (auto simp: waits_below_def)
  have here: "?q ! ?i \<in> set (drop ?i ?q)" using i by (metis Cons_nth_drop_Suc list.set_intros(1))
  have "?t = drain_from fresh u now (next_drain d) s" using d by (simp add: sync_service_step_def drain_delay_over_def)
  then obtain stored d' where t: "?t = s\<lparr>ss_stored := stored, ss_queue := ?q[?i := retry_operation ?m ?p] @ [new_operation ?c now],
      ss_drain := Some d'\<rparr>" and d': "dr_array d' = None" "dr_delay d'" "dr_index d' = ?i"
    using drain_offline [of "next_drain d" s fresh u now] i d off room open_below [OF here] by (auto simp: next_drain_def)
  have "set (drop (Suc ?i) (?q[?i := retry_operation ?m ?p])) \<subseteq> set (drop ?i ?q)"
    using set_drop_subset_set_drop [of ?i "Suc ?i" ?q] by simp
  then have below: "\<forall>p \<in> set (drop (Suc ?i) (ss_queue ?t)). qo_status p \<noteq> Q_completed"
    using open_below i unfolding t by (auto simp: new_operation_def)
  then have "waits_below d' ?t" using d' i by (simp add: waits_below_def t)
  moreover have "queued_changes ?t = queued_changes s @ [?c]"
    using i by (simp add: queued_changes_def t new_operation_def map_update_same retry_operation_def)
  moreover have "cg_value ?c \<in> cg_value ` set (queued_changes s)"
    using i by (auto simp: queued_changes_def requeued_def)
  ultimately show ?thesis using off by (auto simp: Let_def t)
qed

lemma offline_delays:
  assumes "waits_below d s" "\<not> ss_online s" "sv_enableOfflineQueue (ss_config s)"
    "length (ss_queue s) + length ts \<le> sv_maxQueueSize (ss_config s)"
  shows "\<exists>d' cs. let t = run sync_service_step s (map (\<lambda>(fresh, u, now). DelayEv fresh u now) ts) in
     waits_below d' t \<and> ss_processing t = ss_processing s \<and> length cs = length ts
     \<and> queued_changes t = queued_changes s @ cs \<and> cg_value ` set cs \<subseteq> cg_value ` set (queued_changes s)"
  using assms
proof (induction ts arbitrary: s d)
  case Nil
  then show ?case by auto
next
  case (Cons e ts)
  obtain fresh u now where e: "e = (fresh, u, now)" by (cases e)
  let ?s = "sync_service_step s (DelayEv fresh u now)"
  obtain d' c where s: "waits_below d' ?s" "\<not> ss_online ?s" "ss_config ?s = ss_config s" "ss_processing ?s = ss_processing s"
    "queued_changes ?s = queued_changes s @ [c]" "cg_value c \<in> cg_value ` set (queued_changes s)"
    using offline_delay [OF Cons.prems(1,2,3), of fresh u now] Cons.prems(4) by (auto simp: Let_def)
  have len: "length (ss_queue ?s) = Suc (length (ss_queue s))" using arg_cong [OF s(5), of length] by (simp add: queued_changes_def)
  obtain d'' cs where "let t = run sync_service_step ?s (map (\<lambda>(fresh, u, now). DelayEv fresh u now) ts) in
     waits_below d'' t \<and> ss_processing t = ss_processing ?s \<and> length cs = length ts
     \<and> queued_changes t = queued_changes ?s @ cs \<and> cg_value ` set cs \<subseteq> cg_value ` set (queued_changes ?s)"
    using Cons.IH [OF s(1,2)] s(3) len Cons.prems(3,4) by auto
  then show ?case using s e by (intro exI [of _ d''] exI [of _ "c # cs"]) (auto simp: Let_def)
qed

section \<open>What is emitted for a remote change\<close>

text \<open>The remote operations that a local one, on a path in conflict, turns into the update to null.\<close>

definition swallows :: "json Change \<Rightarrow> json Change \<Rightarrow> bool" where
  "swallows localChange remote =
     ((cg_type localChange, cg_type remote)
        \<in> {(OpDelete, OpDelete), (OpDelete, OpMove), (OpConnect, OpConnect), (OpDisconnect, OpDisconnect), (OpDisconnect, OpConnect)}
      \<or> cg_type localChange = OpDelete \<and> cg_type remote = OpUpdate \<and> pathsEqual (cg_path localChange) (cg_path remote))"

definition emitted_remote :: "resource_key \<Rightarrow> json Change \<Rightarrow> json Change \<Rightarrow> json Change" where
  "emitted_remote key localChange remote =
     (let here = remote\<lparr>cg_resourceType := fst key, cg_resourceId := snd key\<rparr> in
      if \<not> pathsConflict (cg_path localChange) (cg_path remote) then here
      else if swallows localChange remote then here\<lparr>cg_type := OpUpdate, cg_value := JNull\<rparr>
      else if cg_type localChange = OpInsert \<and> cg_type remote = OpUpdate
      then here\<lparr>cg_path := adjustPathForInsert (cg_path remote) (cg_path localChange) 0\<rparr>
      else here)"

lemmas transform_defs = transformByType_def transformInsertInsert_def transformInsertDelete_def transformDeleteInsert_def
  transformInsertUpdate_def transformUpdateInsert_def transformDeleteDelete_def transformDeleteUpdate_def
  transformUpdateDelete_def transformUpdateUpdate_def transformMoveMove_def transformMoveDelete_def transformDeleteMove_def
  transformConnectDisconnect_def transformDisconnectConnect_def transformConnectConnect_def transformDisconnectDisconnect_def

lemma transform_remote_exact:
  "operationToChange (transform_remote l r) (fst key) (snd key) = emitted_remote key l r"
proof (cases "pathsConflict (cg_path l) (cg_path r)")
  case False
  then show ?thesis
    by (simp add: transform_remote_def never_older_def changeToOperation_def operationToChange_def emitted_remote_def transform_def)
next
  case True
  then show ?thesis
    by (cases "cg_type l"; cases "cg_type r")
      (simp_all add: transform_remote_def never_older_def changeToOperation_def operationToChange_def emitted_remote_def
        transform_def transform_defs swallows_def Let_def same_connection_def pos_of_def newpos_of_def no_op_def)
qed

section \<open>One resource without force\<close>

lemma unforced_version:
  "version_to_sync cfg gen posted now False server v check =
     (if cc_hasConflicts check then Inr (Inl (sync_conflict server (cc_conflicts check))) else Inr (Inr v))"
  by (simp add: version_to_sync_def)

lemma quiet_documents:
  assumes flat: "flat lm" "flat rm" "flat bm" and free: "{''actions'', ''connections''} \<inter> fst ` set bm = {}"
    and quiet: "list_all (\<lambda>k. let l = js_prop (VObj lm) k; r = js_prop (VObj rm) k; b = js_prop (VObj bm) k in
      \<not> clash l r b \<and> \<not> deletes l r b) (doc_keys lm rm bm)"
  shows "\<exists>c. checkForConflicts default_detector gen (Inr (VObj rm, VObj bm)) (VObj lm) = Inr c \<and> \<not> cc_hasConflicts c"
proof -
  have "detectPropertyConflicts (VObj lm) (VObj rm) (VObj bm) [] = []"
    using quiet by (auto simp: detect_flat flat list_all_iff key_conflicts_def Let_def)
  moreover have "js_prop (VObj bm) ''actions'' = VUndef" "js_prop (VObj bm) ''connections'' = VUndef"
    using free by (auto simp: flat_defined flat)
  then have "detectStructuralConflicts (VObj lm) (VObj rm) (VObj bm) = Inr []" by (rule no_structure) simp
  ultimately have "detectVersionConflicts default_detector gen (VObj lm) (VObj rm) (VObj bm) = Inr []"
    by (simp add: detectVersionConflicts_def default_detector_def stamp_conflicts_def)
  then show ?thesis by (simp add: checkForConflicts_def)
qed

section \<open>Properties\<close>

text \<open>
  C16: Whatever happens to the service (changes made offline, processing, answers of the server, going on and off
  line, loading and clearing the queue, other tabs of it closed), the queue, in memory and in storage, never holds
  more than the configured number of operations, when that number is at least 1 and the stored queue the service is
  created with holds no more.
\<close>

theorem offline_queue_bounded:
  assumes "1 \<le> sv_maxQueueSize config" and "\<forall>q \<in> set_option stored. length q \<le> sv_maxQueueSize config"
  shows "queue_bounded (run sync_service_step (sync_create config online stored) es)"
proof (rule sync_queue_bound.inv_run)
  show "queue_bounded (sync_create config online stored)" using assms by (simp add: queue_bounded_def sync_create_def)
qed

definition sample_change :: "string \<Rightarrow> json Change" where
  "sample_change i = \<lparr>cg_id = i, cg_type = OpUpdate, cg_resourceType = Res_workflow, cg_resourceId = ''w'', cg_path = [''name''],
     cg_value = JStr i, cg_oldValue = JNull, cg_timestamp = 5, cg_userId = ''u''\<rparr>"

lemma offline_queue_bounded_witness:
  "queue_bounded (run sync_service_step (sync_create (sync_config None None None None None (Some 1)) False None)
     [QueueEv (sample_change ''a'') 1, QueueEv (sample_change ''b'') 2])"
  by (rule offline_queue_bounded) (simp_all add: sync_config_def or_number_def)

text \<open>
  Without force, a resource is sent exactly if the server answered and the check found no conflict, and then it is the local version as it
  is: no merge takes place. A conflict is notified and returned, and nothing is sent. The call succeeds exactly if the
  version was sent and stored.
\<close>

theorem unforced_sync_exact:
  "case syncResource cfg gen posted now userId resourceType resourceId version False fetched check put of (r, sent, notified) \<Rightarrow>
     (sent = (if \<exists>server c. fetched = Inr server \<and> checkForConflicts cfg gen check version = Inr c \<and> \<not> cc_hasConflicts c
              then Some version else None))
   \<and> (sr_success r \<longleftrightarrow> sent = Some version \<and> (\<exists>synced. put version = Inr synced))
   \<and> (sr_status r = CsConflict \<longleftrightarrow> (\<exists>server c. fetched = Inr server \<and> checkForConflicts cfg gen check version = Inr c \<and> cc_hasConflicts c))
   \<and> notified = sr_conflicts r"
  by (auto simp: syncResource_def unforced_version sync_failed_def sync_conflict_def Let_def split: sum.splits)

text \<open>
  C12: Two users who change different properties of a flat document do not keep both changes. The three versions are flat and the base
  has no keys actions and connections; no property was changed differently on both sides, and none deleted on one side that the
  other changed or deleted. Then no conflict is found, and what is sent has the base value for a property that only the server changed
  (to a value, not by deletion), although the merge of the three versions, which is not called, would keep that change.
\<close>

theorem sync_overwrites_server:
  assumes "flat lm" and "flat rm" and "flat bm" and "{''actions'', ''connections''} \<inter> fst ` set bm = {}"
    and "list_all (\<lambda>k. let l = js_prop (VObj lm) k; r = js_prop (VObj rm) k; b = js_prop (VObj bm) k in
      \<not> clash l r b \<and> \<not> deletes l r b) (doc_keys lm rm bm)"
    and "js_prop (VObj lm) k = js_prop (VObj bm) k" and "js_prop (VObj rm) k \<notin> {js_prop (VObj bm) k, VUndef}"
  shows "\<exists>r sent m. syncResource default_detector gen posted now userId resourceType resourceId (VObj lm) False (Inr server)
        (Inr (VObj rm, VObj bm)) put = (r, Some sent, [])
    \<and> js_prop sent k = js_prop (VObj bm) k
    \<and> threeWayMerge default_detector gen now (VObj lm) (VObj rm) (VObj bm) = Inr m \<and> js_prop (mg_mergedVersion m) k = js_prop (VObj rm) k"
proof -
  obtain c where "checkForConflicts default_detector gen (Inr (VObj rm, VObj bm)) (VObj lm) = Inr c" "\<not> cc_hasConflicts c"
    using quiet_documents [OF assms(1-5)] by blast
  then have "\<exists>r. syncResource default_detector gen posted now userId resourceType resourceId (VObj lm) False (Inr server)
        (Inr (VObj rm, VObj bm)) put = (r, Some (VObj lm), [])"
    by (auto simp: syncResource_def unforced_version Let_def split: sum.split)
  moreover obtain m where "threeWayMerge default_detector gen now (VObj lm) (VObj rm) (VObj bm) = Inr m"
    "js_prop (mg_mergedVersion m) = (\<lambda>k. merge_value (js_prop (VObj lm) k) (js_prop (VObj rm) k) (js_prop (VObj bm) k))"
    using flat_merge [OF assms(1-4)] by blast
  ultimately show ?thesis using assms(6,7) by (auto simp: merge_value_def clash_def)
qed

lemma sync_overwrites_server_witness:
  "\<exists>r sent m. syncResource default_detector (\<lambda>_. ([], 0)) (\<lambda>_. True) 0 None Res_workflow ''w''
        (VObj [(''x'', VNum 3), (''s'', VStr ''b'')]) False (Inr \<lparr>sd_data = VNull, sd_baseVersion = VNull, sd_versionId = ''1''\<rparr>)
        (Inr (VObj [(''x'', VNum 1), (''s'', VStr ''r'')], VObj [(''x'', VNum 1), (''s'', VStr ''b'')])) (\<lambda>_. Inl (Error ''x'')) = (r, Some sent, [])
    \<and> js_prop sent ''s'' = VStr ''b''
    \<and> threeWayMerge default_detector (\<lambda>_. ([], 0)) 0 (VObj [(''x'', VNum 3), (''s'', VStr ''b'')])
        (VObj [(''x'', VNum 1), (''s'', VStr ''r'')]) (VObj [(''x'', VNum 1), (''s'', VStr ''b'')]) = Inr m
    \<and> js_prop (mg_mergedVersion m) ''s'' = VStr ''r''"
  using sync_overwrites_server [of "[(''x'', VNum 3), (''s'', VStr ''b'')]" "[(''x'', VNum 1), (''s'', VStr ''r'')]"
      "[(''x'', VNum 1), (''s'', VStr ''b'')]" "''s''"]
  by (simp add: flat_def doc_keys_def uniq_def prop_obj clash_def deletes_def)

text \<open>
  C13: A service that is created online where another one saved at least two operations, loads them and then starts
  processing, has dates that are texts: processing throws in the sort, and from then on, whatever happens, the service
  counts as processing and no loop runs: nothing of the queue is ever sent again.
\<close>

theorem reloaded_queue_blocks:
  assumes "length (ss_queue s) \<ge> 2"
  shows "let t = run sync_service_step (sync_create config True (ss_stored (saveQueueToStorage s)))
      (LoadEv # ProcessEv fresh u now # es) in
    oq_processing (getQueueState t) \<and> ss_drain t = None"
proof -
  let ?q = "map (\<lambda>q. q\<lparr>qo_queuedAt := date_text (qo_queuedAt q)\<rparr>) (ss_queue s)"
  let ?s = "sync_service_step (sync_create config True (Some ?q)) LoadEv"
  have "ss_queue ?s = ?q" "ss_online ?s" "\<not> ss_processing ?s" "ss_drain ?s = None"
    by (simp_all add: sync_service_step_def loadQueueFromStorage_def replace_queue_def sync_create_def)
  then have "blocked (sync_service_step ?s (ProcessEv fresh u now))"
    using sort_texts [OF assms] assms
    by (auto simp: sync_service_step_def processOfflineQueue_def blocked_def)
  from queue_block.inv_run [OF this, of es] show ?thesis
    by (simp add: blocked_def getQueueState_def saveQueueToStorage_def Let_def)
qed

lemma reloaded_queue_blocks_witness:
  "let c = sync_config None None None None None None;
       s = run sync_service_step (sync_create c False None) [QueueEv (sample_change ''a'') 1, QueueEv (sample_change ''b'') 2];
       t = run sync_service_step (sync_create c True (ss_stored (saveQueueToStorage s))) (LoadEv # ProcessEv ''f'' ''u'' 3 # [OfflineEv, OnlineEv ''f'' ''u'' 9])
   in oq_processing (getQueueState t) \<and> ss_drain t = None"
  unfolding Let_def by (rule reloaded_queue_blocks [unfolded Let_def])
    (simp add: sync_service_step_def queueOfflineChange_def sync_create_def sync_config_def or_number_def saveQueueToStorage_def)

text \<open>
  C14: With the offline queue enabled, a loop that is overtaken by the connection's loss does not stop: with an
  operation after the one it waits for, each delay queues one more copy of a queued value, which the same loop then
  takes up, so that, as long as the service is offline and there is room, the queue grows by one per delay and
  processing goes on.
\<close>

theorem offline_loop_copies:
  assumes "waits_below d s" and "\<not> ss_online s" and "sv_enableOfflineQueue (ss_config s)"
    and "length (ss_queue s) + length ts \<le> sv_maxQueueSize (ss_config s)"
  shows "\<exists>d' cs. let t = run sync_service_step s (map (\<lambda>(fresh, u, now). DelayEv fresh u now) ts) in
     waits_below d' t \<and> ss_processing t = ss_processing s \<and> length cs = length ts
     \<and> queued_changes t = queued_changes s @ cs \<and> cg_value ` set cs \<subseteq> cg_value ` set (queued_changes s)"
  by (rule offline_delays [OF assms])

definition overtaken :: SyncService where
  "overtaken = run sync_service_step (sync_create (sync_config None None None None None None) False None)
     [QueueEv (sample_change ''a'') 1, QueueEv (sample_change ''b'') 2, OnlineEv ''f'' ''u'' 3, OfflineEv,
      ResultEv (sync_failed VNull (Error ''lost'')) ''f'' ''u'' 4]"

lemma offline_loop_copies_witness:
  "\<exists>cs. let t = run sync_service_step overtaken (map (\<lambda>(fresh, u, now). DelayEv fresh u now) [(''c'', ''u'', 5), (''d'', ''u'', 6)]) in
     ss_processing t \<and> length cs = 2 \<and> queued_changes t = queued_changes overtaken @ cs"
proof -
  have "\<exists>d \<in> set_option (ss_drain overtaken). waits_below d overtaken" by code_simp
  then obtain d where d: "waits_below d overtaken" by blast
  have s: "\<not> ss_online overtaken" "sv_enableOfflineQueue (ss_config overtaken)" "ss_processing overtaken"
    "length (ss_queue overtaken) + 2 \<le> sv_maxQueueSize (ss_config overtaken)" by code_simp+
  show ?thesis using offline_loop_copies [OF d s(1,2), of "[(''c'', ''u'', 5), (''d'', ''u'', 6)]"] s(3,4) by (auto simp: Let_def)
qed

text \<open>
  C15: What is emitted for a remote change while an optimistic update of the resource is not confirmed: positions and
  connections take no part, since they are not carried over to the operations that are transformed. On paths in conflict, a remote
  deletion, move or (of the same path) update next to a local deletion, a remote connection next to a local connection or disconnection,
  and a remote disconnection next to a local one, become updates to null, whatever they connect; a remote update next to a local insertion moves on by one; and everything
  else is emitted as it came, an insertion next to a local insertion too.
\<close>

theorem remote_change_exact:
  assumes "map_of updates (ru_resourceType u, ru_resourceId u) = Some opt" and "\<not> ou_confirmed opt" and "ru_change u = Some remote"
  shows "handleRemoteChange updates u =
    [RemoteChangeEvent (ru_resourceType u) (ru_resourceId u)
      (emitted_remote (ru_resourceType u, ru_resourceId u) (ou_change opt) remote)]"
  using assms transform_remote_exact [of "ou_change opt" remote "(ru_resourceType u, ru_resourceId u)"]
  by (simp add: handleRemoteChange_def)

lemma remote_change_exact_witness:
  "let c = sample_change ''a'' \<lparr>cg_type := OpConnect\<rparr>; d = sample_change ''b'' \<lparr>cg_type := OpConnect\<rparr> in
   handleRemoteChange [((Res_workflow, ''w''), \<lparr>ou_id = ''a'', ou_change = c, ou_originalState = JNull, ou_appliedAt = 0, ou_confirmed = False\<rparr>)]
     \<lparr>ru_type = Upd_change, ru_resourceType = Res_workflow, ru_resourceId = ''w'', ru_change = Some d, ru_conflict = None, ru_version = None\<rparr>
   = [RemoteChangeEvent Res_workflow ''w'' (d\<lparr>cg_type := OpUpdate, cg_value := JNull\<rparr>)]"
proof -
  let ?c = "sample_change ''a'' \<lparr>cg_type := OpConnect\<rparr>" and ?d = "sample_change ''b'' \<lparr>cg_type := OpConnect\<rparr>"
  have "emitted_remote (Res_workflow, ''w'') ?c ?d = ?d\<lparr>cg_type := OpUpdate, cg_value := JNull\<rparr>" by code_simp
  then show ?thesis
    by (simp add: Let_def remote_change_exact [where opt = "\<lparr>ou_id = ''a'', ou_change = ?c, ou_originalState = JNull, ou_appliedAt = 0,
      ou_confirmed = False\<rparr>" and remote = ?d])
qed

end
