(* ===== verification/Undo_Index.thy ===== *)
theory Undo_Index
  imports Interfaces
begin

text \<open>
  Undo histories that are a list of entries with the index of the present one, as several stores of
  the frontend keep them: what moving the index and replacing the tail of the list do to the past
  and the future of the abstract history.
\<close>

definition idx_ok :: "int \<Rightarrow> 'e list \<Rightarrow> bool" where
  "idx_ok i es \<longleftrightarrow> es = [] \<and> i = - 1 \<or> 0 \<le> i \<and> i < int (length es)"

definition idx_abs :: "int \<Rightarrow> 'e list \<Rightarrow> 'e zipper" where
  "idx_abs i es = (rev (take (nat (i + 1)) es), drop (nat (i + 1)) es)"

lemma idx_abs_lists: "rev (fst (idx_abs i es)) @ snd (idx_abs i es) = es"
  by (simp add: idx_abs_def)

lemma idx_abs_length: "idx_ok i es \<Longrightarrow> int (length (fst (idx_abs i es))) = i + 1"
  by (auto simp: idx_ok_def idx_abs_def)

lemma idx_abs_inj:
  assumes "idx_ok i es" and "idx_ok j fs" and "idx_abs i es = idx_abs j fs"
  shows "es = fs \<and> i = j"
  using idx_abs_lists [of i es] idx_abs_lists [of j fs] idx_abs_length [OF assms(1)]
    idx_abs_length [OF assms(2)] assms(3) by simp

lemma idx_cases:
  assumes "idx_ok i es"
  obtains "es = []" "i = - 1" | n where "i = int n" "n < length es"
  using assms unfolding idx_ok_def by (metis of_nat_less_iff zero_le_imp_eq_int)

lemma idx_undo:
  assumes "idx_ok i es"
  shows "z_undo (idx_abs i es) = idx_abs (if 0 < i then i - 1 else i) es"
  using assms
proof (cases rule: idx_cases)
  case (2 n)
  then show ?thesis
  proof (cases n)
    case 0
    with 2 show ?thesis by (cases es) (simp_all add: idx_abs_def)
  next
    case (Suc m)
    then have i: "nat (i + 1) = Suc (Suc m)" "nat (i - 1 + 1) = Suc m" "0 < i" using 2 by simp_all
    have "take (Suc (Suc m)) es = take m es @ [es ! m, es ! Suc m]"
      using 2 Suc by (simp add: take_Suc_conv_app_nth)
    with i show ?thesis
      using 2 Suc by (simp add: idx_abs_def take_Suc_conv_app_nth Cons_nth_drop_Suc)
  qed
qed (simp add: idx_abs_def)

lemma idx_redo:
  assumes "idx_ok i es"
  shows "z_redo (idx_abs i es) = idx_abs (if i < int (length es) - 1 then i + 1 else i) es"
  using assms
proof (cases rule: idx_cases)
  case (2 n)
  show ?thesis
  proof (cases "Suc n < length es")
    case True
    have "nat (i + 1) = Suc n" "nat (i + 1 + 1) = Suc (Suc n)" using 2 by simp_all
    then show ?thesis
      using True 2 by (simp add: idx_abs_def take_Suc_conv_app_nth [of "Suc n"] Cons_nth_drop_Suc [symmetric])
  qed (use 2 in \<open>simp add: idx_abs_def\<close>)
qed (simp add: idx_abs_def)

text \<open>The list after a commit: the future replaced by the new entry, the oldest entry dropped.\<close>

definition idx_push :: "nat \<Rightarrow> 'e \<Rightarrow> int \<Rightarrow> 'e list \<Rightarrow> 'e list" where
  "idx_push n e i es =
     (let new = take (nat (i + 1)) es @ [e] in if length new > n then tl new else new)"

lemma idx_push_length:
  "idx_ok i es \<Longrightarrow> length es \<le> n \<Longrightarrow> length (idx_push n e i es) \<le> n"
  by (auto simp: idx_push_def idx_ok_def Let_def)

lemma distinct_idx_push:
  assumes "distinct (map f es)" and "f e \<notin> f ` set es"
  shows "distinct (map f (idx_push n e i es))"
proof -
  have "distinct (map f (take (nat (i + 1)) es @ [e]))"
    using assms by (auto simp: take_map [symmetric] dest: in_set_takeD)
  then show ?thesis by (simp add: idx_push_def Let_def map_tl distinct_tl del: map_append)
qed

lemma take_snoc_bounded:
  "length xs \<le> n \<Longrightarrow> rev (if length (xs @ [e]) > n then tl (xs @ [e]) else xs @ [e]) = take n (e # rev xs)"
proof (cases "length xs = n")
  case True
  then show ?thesis by (cases xs) auto
qed (cases xs, auto)

lemma idx_commit:
  assumes "length es \<le> n"
  shows "z_commit n e (idx_abs i es) = idx_abs (int (length (idx_push n e i es)) - 1) (idx_push n e i es)"
proof -
  have "rev (idx_push n e i es) = take n (e # rev (take (nat (i + 1)) es))"
    unfolding idx_push_def Let_def by (rule take_snoc_bounded) (use assms in simp)
  then show ?thesis by (simp add: z_commit_def idx_abs_def)
qed

lemma idx_current:
  assumes "idx_ok i es"
  shows "(if i < 0 then None else Some (es ! nat i))
    = (case fst (idx_abs i es) of [] \<Rightarrow> None | e # _ \<Rightarrow> Some e)"
  using assms
proof (cases rule: idx_cases)
  case (2 n)
  then show ?thesis by (simp add: idx_abs_def nat_add_distrib take_Suc_conv_app_nth)
qed (simp add: idx_abs_def)

end
