(* ===== verification/History_Manager.thy ===== *)
theory History_Manager
  imports Json_Doc Undo_Index
begin

text \<open>
  \<open>HistoryManager\<close> of frontend/src/stores/history-manager.ts: the undo history of the canvas, its
  debounced recording and its batches. A workflow is a JSON value. The time of a call and the
  random part of an identifier are arguments; the debounce timer is the handle the code keeps
  (\<open>hm_debounceTimer\<close>, set or \<open>null\<close>) and the timeout that is really armed (\<open>hm_armed\<close>, its due
  time); \<open>hm_calls\<close> records what the listeners have been called with.
\<close>

section \<open>State\<close>

datatype operation_type = HAdd | HUpdate | HDelete | HMove | HConnect | HBatch | HOther

record HistoryEntry =
  he_id :: ident
  he_workflow :: json
  he_timestamp :: millis
  he_description :: "string option"
  he_operationType :: "operation_type option"

record PendingRecord =
  pr_workflow :: json
  pr_description :: "string option"
  pr_operationType :: "operation_type option"

record HistoryManagerConfig =
  hc_maxSize :: nat
  hc_debounceDelay :: nat
  hc_enableCompression :: bool
  hc_enableTimeTravel :: bool

record HistoryState =
  hs_entries :: "HistoryEntry list"
  hs_currentIndex :: int
  hs_inBatch :: bool
  hs_batchDescription :: "string option"
  hs_pendingRecord :: "PendingRecord option"

record HistoryManager =
  hm_state :: HistoryState
  hm_config :: HistoryManagerConfig
  hm_debounceTimer :: bool
  hm_armed :: "millis option"
  hm_listeners :: "ident list"
  hm_calls :: "(ident \<times> HistoryState) list"

definition hs_initial :: HistoryState where
  "hs_initial = \<lparr>hs_entries = [], hs_currentIndex = - 1, hs_inBatch = False,
     hs_batchDescription = None, hs_pendingRecord = None\<rparr>"

text \<open>An absent field of the configuration is \<open>None\<close>.\<close>

definition opt_or :: "'a option \<Rightarrow> 'a \<Rightarrow> 'a" where
  "opt_or x d = (case x of None \<Rightarrow> d | Some v \<Rightarrow> v)"

definition createHistoryManager ::
    "nat option \<Rightarrow> nat option \<Rightarrow> bool option \<Rightarrow> bool option \<Rightarrow> HistoryManager" where
  "createHistoryManager maxSize debounceDelay enableCompression enableTimeTravel =
     \<lparr>hm_state = hs_initial,
      hm_config = \<lparr>hc_maxSize = opt_or maxSize 50, hc_debounceDelay = opt_or debounceDelay 300,
                   hc_enableCompression = opt_or enableCompression False,
                   hc_enableTimeTravel = opt_or enableTimeTravel False\<rparr>,
      hm_debounceTimer = False, hm_armed = None, hm_listeners = [], hm_calls = []\<rparr>"

definition createTimeTravelHistoryManager :: HistoryManager where
  "createTimeTravelHistoryManager = createHistoryManager (Some 100) (Some 0) None (Some True)"

section \<open>Operations\<close>

definition notifyListeners :: "HistoryManager \<Rightarrow> HistoryManager" where
  "notifyListeners h = h\<lparr>hm_calls := hm_calls h @ map (\<lambda>l. (l, hm_state h)) (hm_listeners h)\<rparr>"

definition clear_timeout :: "HistoryManager \<Rightarrow> HistoryManager" where
  "clear_timeout h = (if hm_debounceTimer h then h\<lparr>hm_armed := None\<rparr> else h)"

definition new_entry ::
    "json \<Rightarrow> string option \<Rightarrow> operation_type option \<Rightarrow> millis \<Rightarrow> string \<Rightarrow> HistoryEntry" where
  "new_entry workflow description operationType now rnd =
     \<lparr>he_id = ''history-'' @ int_string now @ ''-'' @ rnd, he_workflow = json_clone workflow,
      he_timestamp = now, he_description = description, he_operationType = operationType\<rparr>"

text \<open>\<open>xs.slice(0, end)\<close>: a negative end counts from the end of the list.\<close>

definition slice_to :: "int \<Rightarrow> 'a list \<Rightarrow> 'a list" where
  "slice_to end xs = take (nat (if end < 0 then int (length xs) + end else end)) xs"

definition push_entry :: "HistoryEntry \<Rightarrow> HistoryManager \<Rightarrow> HistoryManager" where
  "push_entry entry h =
     (let s = hm_state h;
          newEntries = slice_to (hs_currentIndex s + 1) (hs_entries s) @ [entry]
      in if length newEntries > hc_maxSize (hm_config h)
         then notifyListeners (h\<lparr>hm_state := s\<lparr>hs_entries := tl newEntries\<rparr>\<rparr>)
         else notifyListeners (h\<lparr>hm_state := s\<lparr>hs_entries := newEntries,
                                              hs_currentIndex := hs_currentIndex s + 1\<rparr>\<rparr>))"

definition addEntry ::
    "json \<Rightarrow> string option \<Rightarrow> operation_type option \<Rightarrow> millis \<Rightarrow> string \<Rightarrow> HistoryManager \<Rightarrow> HistoryManager"
where
  "addEntry workflow description operationType now rnd h =
     push_entry (new_entry workflow description operationType now rnd) h"

definition hm_record ::
    "json \<Rightarrow> string option \<Rightarrow> operation_type option \<Rightarrow> millis \<Rightarrow> HistoryManager \<Rightarrow> HistoryManager" where
  "hm_record workflow description operationType now h =
     (let pending = \<lparr>pr_workflow = workflow, pr_description = description,
                     pr_operationType = operationType\<rparr>
      in if hs_inBatch (hm_state h)
         then h\<lparr>hm_state := (hm_state h)\<lparr>hs_pendingRecord := Some pending\<rparr>\<rparr>
         else (clear_timeout h)
           \<lparr>hm_state := (hm_state h)\<lparr>hs_pendingRecord := Some pending\<rparr>,
            hm_debounceTimer := True,
            hm_armed := Some (now + int (hc_debounceDelay (hm_config h)))\<rparr>)"

definition flushPendingRecord :: "millis \<Rightarrow> string \<Rightarrow> HistoryManager \<Rightarrow> HistoryManager" where
  "flushPendingRecord now rnd h =
     (case hs_pendingRecord (hm_state h) of
        None \<Rightarrow> h
      | Some p \<Rightarrow>
          let h' = addEntry (pr_workflow p) (pr_description p) (pr_operationType p) now rnd h
          in h'\<lparr>hm_state := (hm_state h')\<lparr>hs_pendingRecord := None\<rparr>, hm_debounceTimer := False\<rparr>)"

text \<open>The armed timeout runs when it is due.\<close>

definition hm_tick :: "millis \<Rightarrow> string \<Rightarrow> HistoryManager \<Rightarrow> HistoryManager" where
  "hm_tick now rnd h =
     (case hm_armed h of
        None \<Rightarrow> h
      | Some due \<Rightarrow> if due \<le> now then flushPendingRecord now rnd (h\<lparr>hm_armed := None\<rparr>) else h)"

definition recordImmediate ::
    "json \<Rightarrow> string option \<Rightarrow> operation_type option \<Rightarrow> millis \<Rightarrow> string \<Rightarrow> HistoryManager \<Rightarrow> HistoryManager"
where
  "recordImmediate workflow description operationType now rnd h =
     addEntry workflow description operationType now rnd
       ((clear_timeout h)\<lparr>hm_debounceTimer := False\<rparr>)"

definition startBatch :: "string option \<Rightarrow> HistoryManager \<Rightarrow> HistoryManager" where
  "startBatch description h =
     h\<lparr>hm_state := (hm_state h)\<lparr>hs_inBatch := True, hs_batchDescription := description\<rparr>\<rparr>"

definition endBatch :: "millis \<Rightarrow> string \<Rightarrow> HistoryManager \<Rightarrow> HistoryManager" where
  "endBatch now rnd h =
     (if \<not> hs_inBatch (hm_state h) then h
      else let h1 = h\<lparr>hm_state := (hm_state h)\<lparr>hs_inBatch := False\<rparr>\<rparr>;
               h2 = (case hs_pendingRecord (hm_state h1) of
                       None \<Rightarrow> h1
                     | Some p \<Rightarrow> addEntry (pr_workflow p)
                         (or_else (hs_batchDescription (hm_state h1)) (pr_description p))
                         (Some HBatch) now rnd h1)
           in h2\<lparr>hm_state := (hm_state h2)\<lparr>hs_batchDescription := None, hs_pendingRecord := None\<rparr>\<rparr>)"

definition canUndo :: "HistoryManager \<Rightarrow> bool" where
  "canUndo h = (hs_currentIndex (hm_state h) > 0)"

definition canRedo :: "HistoryManager \<Rightarrow> bool" where
  "canRedo h = (hs_currentIndex (hm_state h) < int (length (hs_entries (hm_state h))) - 1)"

text \<open>\<open>entries[i] ?? null\<close>\<close>

definition entry_at :: "HistoryEntry list \<Rightarrow> int \<Rightarrow> HistoryEntry option" where
  "entry_at es i = (if 0 \<le> i \<and> i < int (length es) then Some (es ! nat i) else None)"

definition goto :: "int \<Rightarrow> HistoryManager \<Rightarrow> HistoryManager \<times> HistoryEntry option" where
  "goto i h = (notifyListeners (h\<lparr>hm_state := (hm_state h)\<lparr>hs_currentIndex := i\<rparr>\<rparr>),
               entry_at (hs_entries (hm_state h)) i)"

definition hm_undo :: "HistoryManager \<Rightarrow> HistoryManager \<times> HistoryEntry option" where
  "hm_undo h = (if \<not> canUndo h then (h, None) else goto (hs_currentIndex (hm_state h) - 1) h)"

definition hm_redo :: "HistoryManager \<Rightarrow> HistoryManager \<times> HistoryEntry option" where
  "hm_redo h = (if \<not> canRedo h then (h, None) else goto (hs_currentIndex (hm_state h) + 1) h)"

definition jumpTo :: "int \<Rightarrow> HistoryManager \<Rightarrow> HistoryManager \<times> HistoryEntry option" where
  "jumpTo index h =
     (if index < 0 \<or> index \<ge> int (length (hs_entries (hm_state h))) then (h, None)
      else goto index h)"

definition getCurrentState :: "HistoryManager \<Rightarrow> HistoryEntry option" where
  "getCurrentState h =
     (if hs_currentIndex (hm_state h) < 0 then None
      else entry_at (hs_entries (hm_state h)) (hs_currentIndex (hm_state h)))"

definition getHistory :: "HistoryManager \<Rightarrow> HistoryEntry list" where
  "getHistory h = hs_entries (hm_state h)"

definition getCurrentIndex :: "HistoryManager \<Rightarrow> int" where
  "getCurrentIndex h = hs_currentIndex (hm_state h)"

definition hm_clear :: "HistoryManager \<Rightarrow> HistoryManager" where
  "hm_clear h =
     notifyListeners ((clear_timeout h)\<lparr>hm_state := hs_initial, hm_debounceTimer := False\<rparr>)"

text \<open>
  The history as \<open>export\<close> writes it, and \<open>import\<close> of what a parsed text holds: \<open>None\<close> when it
  does not parse or has no array of entries; the index may be absent. Entries and index are taken
  as they are.
\<close>

definition hm_export :: "HistoryManager \<Rightarrow> HistoryEntry list \<times> int option" where
  "hm_export h = (hs_entries (hm_state h), Some (hs_currentIndex (hm_state h)))"

definition hm_import ::
    "(HistoryEntry list \<times> int option) option \<Rightarrow> HistoryManager \<Rightarrow> HistoryManager \<times> bool" where
  "hm_import parsed h =
     (case parsed of
        None \<Rightarrow> (h, False)
      | Some (es, index) \<Rightarrow>
          (notifyListeners (h\<lparr>hm_state := (hm_state h)\<lparr>hs_entries := es,
              hs_currentIndex := opt_or index (int (length es) - 1)\<rparr>\<rparr>), True))"

definition subscribe :: "ident \<Rightarrow> HistoryManager \<Rightarrow> HistoryManager" where
  "subscribe l h = (if l \<in> set (hm_listeners h) then h else h\<lparr>hm_listeners := hm_listeners h @ [l]\<rparr>)"

definition unsubscribe :: "ident \<Rightarrow> HistoryManager \<Rightarrow> HistoryManager" where
  "unsubscribe l h = h\<lparr>hm_listeners := filter (\<lambda>x. x \<noteq> l) (hm_listeners h)\<rparr>"

lemmas history_ops = hm_record_def recordImmediate_def addEntry_def push_entry_def startBatch_def
  endBatch_def hm_undo_def hm_redo_def jumpTo_def goto_def hm_clear_def flushPendingRecord_def
  hm_tick_def hm_import_def notifyListeners_def clear_timeout_def canUndo_def canRedo_def Let_def

section \<open>The invariant\<close>

text \<open>
  The history is empty with index -1, or the index is one of an entry; there are at most
  \<open>maxSize\<close> entries; an armed timeout has its handle.
\<close>

definition hm_inv :: "HistoryManager \<Rightarrow> bool" where
  "hm_inv h =
     ((hs_entries (hm_state h) = [] \<and> hs_currentIndex (hm_state h) = - 1
       \<or> 0 \<le> hs_currentIndex (hm_state h)
         \<and> hs_currentIndex (hm_state h) < int (length (hs_entries (hm_state h))))
      \<and> length (hs_entries (hm_state h)) \<le> hc_maxSize (hm_config h)
      \<and> (hm_armed h \<noteq> None \<longrightarrow> hm_debounceTimer h))"

datatype hm_op =
    Hm_record json "string option" "operation_type option" millis
  | Hm_recordImmediate json "string option" "operation_type option" millis string
  | Hm_tick millis string
  | Hm_startBatch "string option"
  | Hm_endBatch millis string
  | Hm_undo
  | Hm_redo
  | Hm_jumpTo int
  | Hm_clear
  | Hm_subscribe ident
  | Hm_unsubscribe ident

fun hm_step :: "HistoryManager \<Rightarrow> hm_op \<Rightarrow> HistoryManager" where
  "hm_step h (Hm_record w d t now) = hm_record w d t now h"
| "hm_step h (Hm_recordImmediate w d t now rnd) = recordImmediate w d t now rnd h"
| "hm_step h (Hm_tick now rnd) = hm_tick now rnd h"
| "hm_step h (Hm_startBatch d) = startBatch d h"
| "hm_step h (Hm_endBatch now rnd) = endBatch now rnd h"
| "hm_step h Hm_undo = fst (hm_undo h)"
| "hm_step h Hm_redo = fst (hm_redo h)"
| "hm_step h (Hm_jumpTo i) = fst (jumpTo i h)"
| "hm_step h Hm_clear = hm_clear h"
| "hm_step h (Hm_subscribe l) = subscribe l h"
| "hm_step h (Hm_unsubscribe l) = unsubscribe l h"

lemma push_entry_state:
  assumes "hm_inv h"
  shows "hs_entries (hm_state (push_entry e h)) =
      (let es = take (nat (hs_currentIndex (hm_state h) + 1)) (hs_entries (hm_state h)) @ [e]
       in if length es > hc_maxSize (hm_config h) then tl es else es)"
    and "hs_currentIndex (hm_state (push_entry e h)) =
      int (length (hs_entries (hm_state (push_entry e h)))) - 1"
  using assms by (auto simp: hm_inv_def push_entry_def slice_to_def notifyListeners_def Let_def)

lemma push_entry_other [simp]:
  "hm_config (push_entry e h) = hm_config h" "hm_debounceTimer (push_entry e h) = hm_debounceTimer h"
  "hm_armed (push_entry e h) = hm_armed h"
  by (simp_all add: push_entry_def notifyListeners_def Let_def)

lemma hm_inv_push_entry: "hm_inv h \<Longrightarrow> hm_inv (push_entry e h)"
  using push_entry_state [of h e] by (auto simp: hm_inv_def Let_def split: if_splits)

lemma hm_inv_change:
  assumes "hm_inv h" and "hs_entries (hm_state g) = hs_entries (hm_state h)"
    and "hs_currentIndex (hm_state g) = hs_currentIndex (hm_state h)"
    and "hm_config g = hm_config h" and "hm_armed g \<noteq> None \<Longrightarrow> hm_debounceTimer g"
  shows "hm_inv g"
  using assms by (simp add: hm_inv_def)

lemma hm_inv_goto:
  "hm_inv h \<Longrightarrow> 0 \<le> i \<Longrightarrow> i < int (length (hs_entries (hm_state h))) \<Longrightarrow> hm_inv (fst (goto i h))"
  by (auto simp: hm_inv_def goto_def notifyListeners_def)

lemma hm_inv_flush: "hm_inv h \<Longrightarrow> hm_armed h = None \<Longrightarrow> hm_inv (flushPendingRecord now rnd h)"
proof (cases "hs_pendingRecord (hm_state h)")
  case (Some p)
  assume h: "hm_inv h" "hm_armed h = None"
  show ?thesis
    by (rule hm_inv_change [OF hm_inv_push_entry [OF h(1)]])
      (use h Some in \<open>auto simp: flushPendingRecord_def addEntry_def Let_def\<close>)
qed (simp add: flushPendingRecord_def)

lemma hm_inv_endBatch: "hm_inv h \<Longrightarrow> hm_inv (endBatch now rnd h)"
proof (cases "hs_pendingRecord (hm_state h)")
  case None
  assume "hm_inv h"
  with None show ?thesis by (auto simp: endBatch_def hm_inv_def Let_def)
next
  case (Some p)
  assume h: "hm_inv h"
  let ?h = "h\<lparr>hm_state := (hm_state h)\<lparr>hs_inBatch := False\<rparr>\<rparr>"
  have h': "hm_inv ?h" by (rule hm_inv_change [OF h]) (use h in \<open>auto simp: hm_inv_def\<close>)
  show ?thesis
  proof (cases "hs_inBatch (hm_state h)")
    case True
    show ?thesis
      by (rule hm_inv_change [OF hm_inv_push_entry [OF h']])
        (use True h Some in \<open>auto simp: endBatch_def addEntry_def Let_def hm_inv_def\<close>)
  qed (use h in \<open>simp add: endBatch_def\<close>)
qed

lemma hm_inv_recordImmediate: "hm_inv h \<Longrightarrow> hm_inv (recordImmediate w d t now rnd h)"
  unfolding recordImmediate_def addEntry_def
  by (rule hm_inv_push_entry) (auto simp: hm_inv_def clear_timeout_def)

lemma hm_inv_step: "hm_inv h \<Longrightarrow> hm_inv (hm_step h e)"
proof (cases e)
  case (Hm_tick now rnd)
  assume h: "hm_inv h"
  have "hm_inv (h\<lparr>hm_armed := None\<rparr>)" using h by (simp add: hm_inv_def)
  then show ?thesis
    using Hm_tick h by (auto simp: hm_tick_def hm_inv_flush split: option.splits)
qed (auto simp: hm_inv_endBatch hm_inv_recordImmediate hm_undo_def hm_redo_def jumpTo_def canUndo_def
      canRedo_def intro!: hm_inv_goto,
     auto simp: hm_inv_def hm_record_def startBatch_def hm_clear_def notifyListeners_def
      clear_timeout_def hs_initial_def subscribe_def unsubscribe_def Let_def)

interpretation hmi: invariant_machine hm_step hm_inv
  by unfold_locales (rule hm_inv_step)

section \<open>The history as a past and a future\<close>

definition hm_abs :: "HistoryManager \<Rightarrow> HistoryEntry zipper" where
  "hm_abs h = idx_abs (hs_currentIndex (hm_state h)) (hs_entries (hm_state h))"

lemma hm_inv_idx: "hm_inv h \<Longrightarrow> idx_ok (hs_currentIndex (hm_state h)) (hs_entries (hm_state h))"
  by (auto simp: hm_inv_def idx_ok_def)

text \<open>The arguments of a recording: workflow, description, kind, time and random part.\<close>

type_synonym recording = "json \<times> string option \<times> operation_type option \<times> millis \<times> string"

fun rec_commit :: "recording \<Rightarrow> HistoryManager \<Rightarrow> HistoryManager" where
  "rec_commit (w, d, t, now, rnd) h = recordImmediate w d t now rnd h"

fun rec_entry :: "recording \<Rightarrow> HistoryEntry" where
  "rec_entry (w, d, t, now, rnd) = new_entry w d t now rnd"

lemma goto_abs:
  "hm_abs (fst (goto i h)) = idx_abs i (hs_entries (hm_state h))" "hm_config (fst (goto i h)) = hm_config h"
  by (simp_all add: hm_abs_def goto_def notifyListeners_def)

lemma undo_abs: "hm_inv h \<Longrightarrow> hm_abs (fst (hm_undo h)) = z_undo (hm_abs h)"
  using idx_undo [OF hm_inv_idx] by (simp add: hm_undo_def canUndo_def goto_abs) (simp add: hm_abs_def)

lemma redo_abs: "hm_inv h \<Longrightarrow> hm_abs (fst (hm_redo h)) = z_redo (hm_abs h)"
  using idx_redo [OF hm_inv_idx] by (simp add: hm_redo_def canRedo_def goto_abs) (simp add: hm_abs_def)

lemma push_abs:
  "hm_inv h \<Longrightarrow> hm_abs (push_entry e h) = z_commit (hc_maxSize (hm_config h)) e (hm_abs h)"
  using push_entry_state [of h e] idx_commit [of "hs_entries (hm_state h)" "hc_maxSize (hm_config h)" e]
  by (simp add: hm_abs_def idx_push_def hm_inv_def)

lemma commit_abs:
  assumes "hm_inv h"
  shows "hm_abs (rec_commit a h) = z_commit (hc_maxSize (hm_config h)) (rec_entry a) (hm_abs h)"
proof (cases a)
  case (fields w d t now rnd)
  let ?h = "(clear_timeout h)\<lparr>hm_debounceTimer := False\<rparr>"
  have "hm_inv ?h" "hm_abs ?h = hm_abs h" "hm_config ?h = hm_config h"
    using assms by (auto simp: hm_inv_def clear_timeout_def hm_abs_def)
  then show ?thesis
    using push_abs [of ?h "rec_entry a"] fields by (simp add: recordImmediate_def addEntry_def)
qed

interpretation hmu: undo_history hm_inv hm_abs "\<lambda>h. fst (hm_undo h)" "\<lambda>h. fst (hm_redo h)" rec_commit
  rec_entry "\<lambda>h. hc_maxSize (hm_config h)"
proof
  fix h a
  assume h: "hm_inv h"
  show "hm_inv (fst (hm_undo h)) \<and> hm_abs (fst (hm_undo h)) = z_undo (hm_abs h)
      \<and> hc_maxSize (hm_config (fst (hm_undo h))) = hc_maxSize (hm_config h)"
    using hm_inv_step [OF h, of Hm_undo] undo_abs [OF h] by (simp add: hm_undo_def goto_abs)
  show "hm_inv (fst (hm_redo h)) \<and> hm_abs (fst (hm_redo h)) = z_redo (hm_abs h)
      \<and> hc_maxSize (hm_config (fst (hm_redo h))) = hc_maxSize (hm_config h)"
    using hm_inv_step [OF h, of Hm_redo] redo_abs [OF h] by (simp add: hm_redo_def goto_abs)
  show "hm_inv (rec_commit a h)
      \<and> hm_abs (rec_commit a h) = z_commit (hc_maxSize (hm_config h)) (rec_entry a) (hm_abs h)
      \<and> hc_maxSize (hm_config (rec_commit a h)) = hc_maxSize (hm_config h)"
    using commit_abs [OF h, of a] hm_inv_recordImmediate [OF h]
    by (cases a) (simp add: recordImmediate_def addEntry_def clear_timeout_def)
qed

lemma hm_abs_inj:
  assumes "hm_inv g" and "hm_inv h" and "hm_abs g = hm_abs h"
  shows "hs_entries (hm_state g) = hs_entries (hm_state h)
    \<and> hs_currentIndex (hm_state g) = hs_currentIndex (hm_state h)"
  using idx_abs_inj [OF hm_inv_idx hm_inv_idx] assms by (simp add: hm_abs_def)

lemma current_abs:
  assumes "hm_inv h"
  shows "getCurrentState h = (case fst (hm_abs h) of [] \<Rightarrow> None | e # _ \<Rightarrow> Some e)"
  unfolding hm_abs_def idx_current [OF hm_inv_idx [OF assms], symmetric]
  using assms by (auto simp: getCurrentState_def entry_at_def hm_inv_def)

section \<open>Properties\<close>

text \<open>
  C31: in every history that the constructor and any sequence of recordings, timeouts, batches,
  undos, redos, jumps and clears produce, the index is one of an entry (or -1 in the empty
  history) and there are at most \<open>maxSize\<close> entries.
\<close>

theorem history_reachable_inv:
  "hm_inv (run hm_step (createHistoryManager maxSize debounceDelay compression timeTravel) ops)"
  by (rule hmi.inv_run) (simp add: hm_inv_def createHistoryManager_def hs_initial_def)

text \<open>
  \<open>n\<close> undos followed by \<open>n\<close> redos change neither the entries nor the index, as long as there
  are \<open>n\<close> entries before the current one.
\<close>

theorem history_undo_redo:
  assumes "hm_inv h" and "int n \<le> hs_currentIndex (hm_state h)"
  shows "hs_entries (hm_state (((\<lambda>h. fst (hm_redo h)) ^^ n) (((\<lambda>h. fst (hm_undo h)) ^^ n) h)))
      = hs_entries (hm_state h)
    \<and> hs_currentIndex (hm_state (((\<lambda>h. fst (hm_redo h)) ^^ n) (((\<lambda>h. fst (hm_undo h)) ^^ n) h)))
      = hs_currentIndex (hm_state h)"
proof (rule hm_abs_inj [OF _ assms(1)])
  have "n < length (fst (hm_abs h))"
    using idx_abs_length [OF hm_inv_idx [OF assms(1)]] assms(2) by (simp add: hm_abs_def)
  then show "hm_abs (((\<lambda>h. fst (hm_redo h)) ^^ n) (((\<lambda>h. fst (hm_undo h)) ^^ n) h)) = hm_abs h"
    by (rule hmu.redos_take_back_undos [OF assms(1)])
  show "hm_inv (((\<lambda>h. fst (hm_redo h)) ^^ n) (((\<lambda>h. fst (hm_undo h)) ^^ n) h))"
    using hmu.undo_pow hmu.redo_pow assms(1) by blast
qed

text \<open>
  C32: undo takes back recordings. Take a history that satisfies the invariant and is not empty (a current
  entry exists), and call \<open>recordImmediate\<close> any number of times, as long as no entry has to be dropped for the
  maximal size; after as many undos the current state is the one from before. Nothing is
  claimed for debounced recordings, or for an empty history, whose first entry cannot be undone.
\<close>

theorem history_undo_recordings:
  assumes "hm_inv h" and "0 \<le> hs_currentIndex (hm_state h)"
    and "length rs + nat (hs_currentIndex (hm_state h)) < hc_maxSize (hm_config h)"
  shows "getCurrentState (((\<lambda>h. fst (hm_undo h)) ^^ length rs) (fold rec_commit rs h))
    = getCurrentState h"
proof -
  have past: "length (fst (hm_abs h)) = Suc (nat (hs_currentIndex (hm_state h)))"
    using idx_abs_length [OF hm_inv_idx [OF assms(1)]] assms(2) by (simp add: hm_abs_def)
  then have room: "length rs + length (fst (hm_abs h)) \<le> hc_maxSize (hm_config h)"
    "fst (hm_abs h) \<noteq> []"
    using assms(3) by auto
  have "hm_inv (((\<lambda>h. fst (hm_undo h)) ^^ length rs) (fold rec_commit rs h))"
    using hmu.commits_abs [OF assms(1) room(1)] hmu.undo_pow by blast
  then show ?thesis
    using hmu.undos_take_back_commits [OF assms(1) room] by (simp add: current_abs assms(1))
qed

definition history_example :: HistoryManager where
  "history_example =
     recordImmediate (JNum 2) None None 20 ''b''
       (recordImmediate (JNum 1) None None 10 ''a'' (createHistoryManager None None None None))"

lemma history_example_facts [simp]:
  "hm_inv history_example" "hs_currentIndex (hm_state history_example) = 1"
  "hc_maxSize (hm_config history_example) = 50" "\<not> hs_inBatch (hm_state history_example)"
proof -
  have "hm_inv (createHistoryManager None None None None)"
    by (simp add: hm_inv_def createHistoryManager_def hs_initial_def)
  then show "hm_inv history_example"
    by (simp add: history_example_def hm_inv_recordImmediate)
  show "hs_currentIndex (hm_state history_example) = 1"
    "hc_maxSize (hm_config history_example) = 50" "\<not> hs_inBatch (hm_state history_example)"
    by (simp_all add: history_example_def history_ops createHistoryManager_def hs_initial_def
        opt_or_def slice_to_def)
qed

theorem history_undo_redo_witness:
  "hs_entries (hm_state (fst (hm_redo (fst (hm_undo history_example)))))
     = hs_entries (hm_state history_example)"
  using history_undo_redo [of history_example 1] by simp

theorem history_undo_recordings_witness:
  "getCurrentState (fst (hm_undo (recordImmediate (JNum 3) None None 30 ''c'' history_example)))
     = getCurrentState history_example"
  using history_undo_recordings [of history_example "[(JNum 3, None, None, 30, ''c'')]"] by simp

text \<open>
  a batch is one entry. When no timeout is armed, everything recorded between \<open>startBatch\<close>
  and \<open>endBatch\<close> adds a single entry with the last recorded workflow, the description of the
  batch (or of that recording) and the kind "batch".
\<close>

theorem history_batch_one_entry:
  assumes "hm_armed h = None"
  shows "hm_state (endBatch now rnd (hm_record w d t t1
          (run hm_step (startBatch b h) (map (\<lambda>(w, d, t, n). Hm_record w d t n) ws))))
       = (hm_state (addEntry w (or_else b d) (Some HBatch) now rnd h))
           \<lparr>hs_inBatch := False, hs_batchDescription := None, hs_pendingRecord := None\<rparr>"
proof -
  have batch: "\<exists>p. run hm_step g (map (\<lambda>(w, d, t, n). Hm_record w d t n) ws)
      = g\<lparr>hm_state := (hm_state g)\<lparr>hs_pendingRecord := p\<rparr>\<rparr>" if "hs_inBatch (hm_state g)" for g
    using that
  proof (induction ws arbitrary: g)
    case Nil
    show ?case by (rule exI [of _ "hs_pendingRecord (hm_state g)"]) simp
  next
    case (Cons r ws)
    obtain w d t n where r: "r = (w, d, t, n)" by (cases r)
    show ?case
      using Cons.IH [of "hm_record w d t n g"] Cons.prems r by (auto simp: hm_record_def)
  qed
  obtain p where "run hm_step (startBatch b h) (map (\<lambda>(w, d, t, n). Hm_record w d t n) ws)
      = (startBatch b h)\<lparr>hm_state := (hm_state (startBatch b h))\<lparr>hs_pendingRecord := p\<rparr>\<rparr>"
    using batch [of "startBatch b h"] by (auto simp: startBatch_def)
  then show ?thesis
    by (simp add: history_ops)
qed

theorem history_batch_one_entry_witness:
  "hm_state (endBatch 40 ''d'' (hm_record (JNum 4) None None 39
      (hm_record (JNum 3) None None 38 (startBatch (Some ''move'') history_example))))
   = (hm_state (addEntry (JNum 4) (Some ''move'') (Some HBatch) 40 ''d'' history_example))
       \<lparr>hs_inBatch := False, hs_batchDescription := None, hs_pendingRecord := None\<rparr>"
proof -
  have "hm_armed history_example = None"
    by (simp add: history_example_def history_ops createHistoryManager_def)
  from history_batch_one_entry [OF this, of 40 "''d''" "JNum 4" None None 39 "Some ''move''"
      "[(JNum 3, None, None, 38)]"]
  show ?thesis by simp
qed

text \<open>
  \<open>recordImmediate\<close> cancels the timeout of a debounced recording but keeps the recording
  itself, and an empty batch then adds it: the newest entry of the history is the older workflow.
\<close>

theorem history_stale_recording_returns:
  assumes "hm_inv h" and "hs_inBatch (hm_state h) = False" and "0 < hc_maxSize (hm_config h)"
  shows "map_option he_workflow (getCurrentState (endBatch t3 r3 (startBatch b
      (recordImmediate w2 d2 k2 t2 r2 (hm_record w1 d1 k1 t1 h))))) = Some (json_clone w1)"
proof -
  let ?p = "\<lparr>pr_workflow = w1, pr_description = d1, pr_operationType = k1\<rparr>"
  let ?g = "startBatch b (recordImmediate w2 d2 k2 t2 r2 (hm_record w1 d1 k1 t1 h))"
  have inv: "hm_inv (hm_record w1 d1 k1 t1 h)"
    using hm_inv_step [OF assms(1), of "Hm_record w1 d1 k1 t1"] by simp
  have "hm_inv (hm_step (recordImmediate w2 d2 k2 t2 r2 (hm_record w1 d1 k1 t1 h)) (Hm_startBatch b))"
    by (rule hm_inv_step [OF hm_inv_recordImmediate [OF inv]])
  then have g: "hm_inv ?g" by simp
  have pend: "hs_pendingRecord (hm_state ?g) = Some ?p" "hs_inBatch (hm_state ?g)"
    using assms(2) by (simp_all add: history_ops)
  define e where "e = new_entry w1 (or_else b d1) (Some HBatch) t3 r3"
  let ?k = "?g\<lparr>hm_state := (hm_state ?g)\<lparr>hs_inBatch := False\<rparr>\<rparr>"
  have k: "hm_inv ?k" by (rule hm_inv_change [OF g]) (use g in \<open>auto simp: hm_inv_def\<close>)
  have state: "hs_entries (hm_state (endBatch t3 r3 ?g)) = hs_entries (hm_state (push_entry e ?k))
      \<and> hs_currentIndex (hm_state (endBatch t3 r3 ?g)) = hs_currentIndex (hm_state (push_entry e ?k))"
    using pend by (simp add: endBatch_def addEntry_def e_def Let_def startBatch_def)
  have "hc_maxSize (hm_config ?k) = hc_maxSize (hm_config h)"
    by (simp add: history_ops)
  then have "fst (hm_abs (push_entry e ?k)) \<noteq> [] \<and> hd (fst (hm_abs (push_entry e ?k))) = e"
    using push_abs [OF k, of e] assms(3) by (cases "hc_maxSize (hm_config h)") (auto simp: z_commit_def)
  then have "getCurrentState (push_entry e ?k) = Some e"
    using current_abs [OF hm_inv_push_entry [OF k], of e] by (auto split: list.splits)
  moreover have "getCurrentState (endBatch t3 r3 ?g) = getCurrentState (push_entry e ?k)"
    using state by (simp add: getCurrentState_def)
  ultimately show ?thesis by (simp add: e_def new_entry_def)
qed

theorem history_stale_recording_returns_witness:
  "map_option he_workflow (getCurrentState (endBatch 33 ''e'' (startBatch None
      (recordImmediate (JNum 8) None None 32 ''d'' (hm_record (JNum 7) None None 31 history_example)))))
    = Some (JNum 7)"
  using history_stale_recording_returns [of history_example 33 "''e''" None "JNum 8" None None 32 "''d''"
      "JNum 7" None None 31]
  by simp

end
