(* ===== verification/Layout_History.thy ===== *)
theory Layout_History
  imports Workflow_Graph Undo_Index
begin

text \<open>
  The undo history of layouts: the store of frontend/src/stores/layout-history.ts, its persisted
  form, and the application of an entry's positions to a workflow. Options and statistics are JSON
  values; a workflow is JSON data, so its deep clone is equal to it. The identifiers and times that
  the code generates are arguments. It is a second implementation of the abstract undo history.
\<close>

section \<open>The store\<close>

datatype LayoutStyle = Hierarchical | Horizontal | Tree | Force_directed | Circular

record LayoutHistoryEntry =
  lh_id :: ident
  lh_workflow :: Workflow
  lh_style :: LayoutStyle
  lh_options :: json
  lh_timestamp :: millis
  lh_description :: "string option"
  lh_statistics :: json

record LayoutHistory =
  lh_history :: "LayoutHistoryEntry list"
  lh_currentIndex :: int
  lh_maxHistorySize :: int
  lh_enabled :: bool

definition lh_initial :: LayoutHistory where
  "lh_initial = \<lparr>lh_history = [], lh_currentIndex = - 1, lh_maxHistorySize = 20, lh_enabled = True\<rparr>"

text \<open>The new entry, of a workflow, style, options, description and statistics.\<close>

definition layout_entry ::
    "ident \<Rightarrow> millis \<Rightarrow> Workflow \<Rightarrow> LayoutStyle \<Rightarrow> json \<Rightarrow> string option \<Rightarrow> json \<Rightarrow> LayoutHistoryEntry" where
  "layout_entry generated now workflow style options description statistics =
     \<lparr>lh_id = generated, lh_workflow = workflow, lh_style = style, lh_options = options,
      lh_timestamp = now, lh_description = description, lh_statistics = statistics\<rparr>"

definition addLayout :: "LayoutHistoryEntry \<Rightarrow> LayoutHistory \<Rightarrow> LayoutHistory" where
  "addLayout entry s =
     (if \<not> lh_enabled s then s
      else let newHistory = take (nat (lh_currentIndex s + 1)) (lh_history s) @ [entry];
               limited = (if int (length newHistory) > lh_maxHistorySize s then tl newHistory
                          else newHistory)
           in s\<lparr>lh_history := limited, lh_currentIndex := int (length limited) - 1\<rparr>)"

definition lh_canUndo :: "LayoutHistory \<Rightarrow> bool" where
  "lh_canUndo s = (lh_currentIndex s > 0)"

definition lh_canRedo :: "LayoutHistory \<Rightarrow> bool" where
  "lh_canRedo s = (lh_currentIndex s < int (length (lh_history s)) - 1)"

text \<open>\<open>history[i]\<close>\<close>

definition lh_at :: "int \<Rightarrow> LayoutHistory \<Rightarrow> LayoutHistoryEntry option" where
  "lh_at i s = (if 0 \<le> i \<and> i < int (length (lh_history s)) then Some (lh_history s ! nat i) else None)"

definition lh_undo :: "LayoutHistory \<Rightarrow> LayoutHistory \<times> LayoutHistoryEntry option" where
  "lh_undo s =
     (if \<not> lh_canUndo s then (s, None)
      else (s\<lparr>lh_currentIndex := lh_currentIndex s - 1\<rparr>, lh_at (lh_currentIndex s - 1) s))"

definition lh_redo :: "LayoutHistory \<Rightarrow> LayoutHistory \<times> LayoutHistoryEntry option" where
  "lh_redo s =
     (if \<not> lh_canRedo s then (s, None)
      else (s\<lparr>lh_currentIndex := lh_currentIndex s + 1\<rparr>, lh_at (lh_currentIndex s + 1) s))"

text \<open>\<open>findIndex\<close> by identifier; -1 when there is none.\<close>

fun find_id :: "ident \<Rightarrow> LayoutHistoryEntry list \<Rightarrow> int" where
  "find_id i [] = - 1"
| "find_id i (e # es) =
     (if lh_id e = i then 0 else let k = find_id i es in if k = - 1 then - 1 else k + 1)"

definition goToEntry :: "ident \<Rightarrow> LayoutHistory \<Rightarrow> LayoutHistory \<times> LayoutHistoryEntry option" where
  "goToEntry i s =
     (let index = find_id i (lh_history s)
      in if index = - 1 then (s, None) else (s\<lparr>lh_currentIndex := index\<rparr>, lh_at index s))"

definition lh_clear :: "LayoutHistory \<Rightarrow> LayoutHistory" where
  "lh_clear s = s\<lparr>lh_history := [], lh_currentIndex := - 1\<rparr>"

definition getCurrentEntry :: "LayoutHistory \<Rightarrow> LayoutHistoryEntry option" where
  "getCurrentEntry s = lh_at (lh_currentIndex s) s"

definition setMaxHistorySize :: "int \<Rightarrow> LayoutHistory \<Rightarrow> LayoutHistory" where
  "setMaxHistorySize newSize s =
     (if int (length (lh_history s)) > newSize
      then let toRemove = int (length (lh_history s)) - newSize
           in s\<lparr>lh_maxHistorySize := newSize, lh_history := drop (nat toRemove) (lh_history s),
                lh_currentIndex := max 0 (lh_currentIndex s - toRemove)\<rparr>
      else s\<lparr>lh_maxHistorySize := newSize\<rparr>)"

definition lh_setEnabled :: "bool \<Rightarrow> LayoutHistory \<Rightarrow> LayoutHistory" where
  "lh_setEnabled b s = s\<lparr>lh_enabled := b\<rparr>"

definition removeEntry :: "ident \<Rightarrow> LayoutHistory \<Rightarrow> LayoutHistory" where
  "removeEntry i s =
     (let index = find_id i (lh_history s) in
      if index = - 1 then s
      else let newHistory = filter (\<lambda>e. lh_id e \<noteq> i) (lh_history s)
           in s\<lparr>lh_history := newHistory,
                lh_currentIndex :=
                  (if index < lh_currentIndex s then lh_currentIndex s - 1
                   else if index = lh_currentIndex s
                   then max 0 (min (lh_currentIndex s) (int (length newHistory) - 1))
                   else lh_currentIndex s)\<rparr>)"

text \<open>What \<open>partialize\<close> writes to the storage, and the store that it is read back into.\<close>

definition partialize :: "LayoutHistory \<Rightarrow> LayoutHistory" where
  "partialize s =
     s\<lparr>lh_history := drop (length (lh_history s) - 5) (lh_history s),
       lh_currentIndex := min (lh_currentIndex s) 4\<rparr>"

text \<open>The positions of an entry applied to the actions of a workflow; the last action of an id counts.\<close>

definition applyHistoryEntry :: "LayoutHistoryEntry \<Rightarrow> Workflow option \<Rightarrow> Workflow option" where
  "applyHistoryEntry entry workflow =
     (let historyPositions = map_of (rev (map (\<lambda>a. (ac_id a, ac_position a)) (wf_actions (lh_workflow entry))))
      in map_option (\<lambda>w. w\<lparr>wf_actions :=
           map (\<lambda>a. case historyPositions (ac_id a) of
                  Some (Some pos) \<Rightarrow> a\<lparr>ac_position := Some pos\<rparr> | _ \<Rightarrow> a) (wf_actions w)\<rparr>) workflow)"

definition undoLayout ::
    "LayoutHistory \<times> Workflow option \<Rightarrow> (LayoutHistory \<times> Workflow option) \<times> LayoutHistoryEntry option" where
  "undoLayout sw =
     (case lh_undo (fst sw) of
        (s, None) \<Rightarrow> ((s, snd sw), None)
      | (s, Some e) \<Rightarrow> ((s, applyHistoryEntry e (snd sw)), Some e))"

definition redoLayout ::
    "LayoutHistory \<times> Workflow option \<Rightarrow> (LayoutHistory \<times> Workflow option) \<times> LayoutHistoryEntry option" where
  "redoLayout sw =
     (case lh_redo (fst sw) of
        (s, None) \<Rightarrow> ((s, snd sw), None)
      | (s, Some e) \<Rightarrow> ((s, applyHistoryEntry e (snd sw)), Some e))"

definition formatHistoryTimestamp :: "millis \<Rightarrow> millis \<Rightarrow> string" where
  "formatHistoryTimestamp now date =
     (let diff = now - date;
          ago = (\<lambda>n unit. int_string n @ '' '' @ unit @ (if n > 1 then ''s'' else '''') @ '' ago'')
      in if diff < 60000 then ''Just now''
         else if diff < 3600000 then ago (diff div 60000) ''minute''
         else if diff < 86400000 then ago (diff div 3600000) ''hour''
         else ago (diff div 86400000) ''day'')"

fun getLayoutStyleName :: "LayoutStyle \<Rightarrow> string" where
  "getLayoutStyleName Hierarchical = ''Hierarchical''"
| "getLayoutStyleName Horizontal = ''Horizontal''"
| "getLayoutStyleName Tree = ''Tree''"
| "getLayoutStyleName Force_directed = ''Force-Directed''"
| "getLayoutStyleName Circular = ''Circular''"

section \<open>Steps\<close>

text \<open>What can happen to the store, a reload of the page included; generated identifiers are new.\<close>

datatype lh_op =
    Lh_add LayoutHistoryEntry | Lh_undo | Lh_redo | Lh_goTo ident | Lh_clear
  | Lh_setMax int | Lh_setEnabled bool | Lh_remove ident | Lh_reload

fun lh_step :: "LayoutHistory \<Rightarrow> lh_op \<Rightarrow> LayoutHistory" where
  "lh_step s (Lh_add e) = (if lh_id e \<in> lh_id ` set (lh_history s) then s else addLayout e s)"
| "lh_step s Lh_undo = fst (lh_undo s)"
| "lh_step s Lh_redo = fst (lh_redo s)"
| "lh_step s (Lh_goTo i) = fst (goToEntry i s)"
| "lh_step s Lh_clear = lh_clear s"
| "lh_step s (Lh_setMax n) = setMaxHistorySize n s"
| "lh_step s (Lh_setEnabled b) = lh_setEnabled b s"
| "lh_step s (Lh_remove i) = removeEntry i s"
| "lh_step s Lh_reload = partialize s"

text \<open>
  The index is one of an entry, or there is no entry and it is -1, or 0 after the last entry was
  removed; there are at most \<open>maxHistorySize\<close> entries (none when that is negative).
\<close>

definition lh_inv :: "LayoutHistory \<Rightarrow> bool" where
  "lh_inv s \<longleftrightarrow>
     (idx_ok (lh_currentIndex s) (lh_history s) \<or> lh_history s = [] \<and> lh_currentIndex s = 0)
     \<and> int (length (lh_history s)) \<le> max 0 (lh_maxHistorySize s)
     \<and> distinct (map lh_id (lh_history s))"

lemma find_id_bounds: "find_id i es = - 1 \<or> 0 \<le> find_id i es \<and> find_id i es < int (length es)"
  by (induction es) (auto simp: Let_def)

lemma find_id_none: "find_id i es = - 1 \<longleftrightarrow> i \<notin> lh_id ` set es"
proof (induction es)
  case (Cons e es)
  then show ?case using find_id_bounds [of i es] by (auto simp: Let_def)
qed simp

lemma find_id_nth: "n < length es \<Longrightarrow> distinct (map lh_id es) \<Longrightarrow> find_id (lh_id (es ! n)) es = int n"
  by (induction es arbitrary: n) (auto simp: nth_Cons Let_def split: nat.splits)

lemma filter_id_nth:
  "n < length es \<Longrightarrow> distinct (map lh_id es) \<Longrightarrow> filter (\<lambda>e. lh_id e \<noteq> lh_id (es ! n)) es = del_at n es"
proof (induction es arbitrary: n)
  case (Cons e es)
  show ?case
  proof (cases n)
    case 0
    have "filter (\<lambda>x. lh_id x \<noteq> lh_id e) es = es"
      using Cons.prems(2) by (auto simp: filter_id_conv) (metis image_eqI)
    with 0 show ?thesis by (simp add: del_at_def)
  next
    case (Suc m)
    then have "lh_id e \<noteq> lh_id (es ! m)" using Cons.prems by auto
    with Suc Cons show ?thesis by (simp add: del_at_def)
  qed
qed simp

lemma find_id_cases:
  assumes "distinct (map lh_id es)"
  obtains "find_id i es = - 1" "i \<notin> lh_id ` set es"
    | n where "n < length es" "find_id i es = int n" "i = lh_id (es ! n)"
        "filter (\<lambda>e. lh_id e \<noteq> i) es = del_at n es"
proof (cases "i \<in> lh_id ` set es")
  case True
  then obtain n where "n < length es" "i = lh_id (es ! n)" by (auto simp: in_set_conv_nth)
  with that(2) find_id_nth [OF _ assms] filter_id_nth [OF _ assms] show thesis by blast
qed (use that(1) find_id_none in blast)

lemma distinct_del_at:
  assumes "distinct (map f xs)"
  shows "distinct (map f (del_at n xs))"
proof -
  have "map f (del_at n xs) = del_at n (map f xs)" by (simp add: del_at_def take_map drop_map)
  then show ?thesis
    using assms set_take_disj_set_drop_if_distinct [OF assms, of n "Suc n"] by (simp add: del_at_def)
qed

lemma del_at_Nil: "n < length xs \<Longrightarrow> del_at n xs = [] \<longleftrightarrow> length xs = 1"
  by (cases xs) (auto simp: del_at_def le_Suc_eq)

lemma addLayout_push:
  "addLayout e s =
     (if \<not> lh_enabled s then s
      else let es = idx_push (nat (lh_maxHistorySize s)) e (lh_currentIndex s) (lh_history s)
           in s\<lparr>lh_history := es, lh_currentIndex := int (length es) - 1\<rparr>)"
  by (simp add: addLayout_def idx_push_def Let_def nat_less_iff zless_nat_eq_int_zless)

lemma lh_inv_add:
  assumes "lh_inv s" and "lh_id e \<notin> lh_id ` set (lh_history s)"
  shows "lh_inv (addLayout e s)"
proof (cases "lh_enabled s")
  case True
  let ?es = "idx_push (nat (lh_maxHistorySize s)) e (lh_currentIndex s) (lh_history s)"
  have "idx_ok (int (length ?es) - 1) ?es" by (cases ?es) (simp_all add: idx_ok_def)
  moreover have "length ?es \<le> nat (lh_maxHistorySize s)"
    using assms(1) by (auto simp: idx_push_def lh_inv_def idx_ok_def Let_def)
  moreover have "distinct (map lh_id ?es)"
    using assms by (simp add: lh_inv_def distinct_idx_push)
  ultimately show ?thesis
    using True by (simp add: addLayout_push lh_inv_def Let_def)
qed (use assms in \<open>simp add: addLayout_push\<close>)

lemma lh_inv_remove:
  assumes "lh_inv s"
  shows "lh_inv (removeEntry i s)"
proof -
  have "distinct (map lh_id (lh_history s))" using assms by (simp add: lh_inv_def)
  then show ?thesis
  proof (rule find_id_cases [where i = i])
    fix n
    assume "n < length (lh_history s)" "find_id i (lh_history s) = int n"
      "filter (\<lambda>e. lh_id e \<noteq> i) (lh_history s) = del_at n (lh_history s)"
    with assms show ?thesis
      by (auto simp: lh_inv_def removeEntry_def Let_def idx_ok_def distinct_del_at del_at_Nil)
  qed (simp add: removeEntry_def assms)
qed

lemma lh_inv_resize:
  "lh_inv s \<Longrightarrow> lh_inv (setMaxHistorySize n s)"
  by (auto simp: lh_inv_def setMaxHistorySize_def idx_ok_def Let_def drop_map [symmetric] distinct_drop)

lemma lh_inv_reload:
  "lh_inv s \<Longrightarrow> lh_inv (partialize s)"
  by (auto simp: lh_inv_def partialize_def idx_ok_def drop_map [symmetric] distinct_drop)

lemma lh_inv_step: "lh_inv s \<Longrightarrow> lh_inv (lh_step s e)"
proof (cases e)
  case (Lh_goTo i)
  assume "lh_inv s"
  then show ?thesis using Lh_goTo find_id_bounds [of i "lh_history s"]
    by (auto simp: lh_inv_def goToEntry_def idx_ok_def Let_def)
qed (auto simp: lh_inv_add lh_inv_remove lh_inv_resize lh_inv_reload,
     auto simp: lh_inv_def idx_ok_def lh_undo_def lh_redo_def lh_canUndo_def lh_canRedo_def
       lh_clear_def lh_setEnabled_def)

interpretation lhi: invariant_machine lh_step lh_inv
  by unfold_locales (rule lh_inv_step)

section \<open>The layout history as an undo history\<close>

definition lh_abs :: "LayoutHistory \<Rightarrow> LayoutHistoryEntry zipper" where
  "lh_abs s = idx_abs (lh_currentIndex s) (lh_history s)"

definition lh_ok :: "LayoutHistory \<Rightarrow> bool" where
  "lh_ok s \<longleftrightarrow> idx_ok (lh_currentIndex s) (lh_history s)
     \<and> int (length (lh_history s)) \<le> lh_maxHistorySize s \<and> lh_enabled s"

lemma lh_current_abs:
  "idx_ok (lh_currentIndex s) (lh_history s)
     \<Longrightarrow> getCurrentEntry s = (case fst (lh_abs s) of [] \<Rightarrow> None | e # _ \<Rightarrow> Some e)"
  unfolding lh_abs_def by (subst idx_current [symmetric]) (auto simp: getCurrentEntry_def lh_at_def idx_ok_def)

lemma lh_undo_state:
  "fst (lh_undo s) = s\<lparr>lh_currentIndex := (if 0 < lh_currentIndex s then lh_currentIndex s - 1 else lh_currentIndex s)\<rparr>"
  by (simp add: lh_undo_def lh_canUndo_def)

lemma lh_redo_state:
  "fst (lh_redo s) = s\<lparr>lh_currentIndex := (if lh_currentIndex s < int (length (lh_history s)) - 1
     then lh_currentIndex s + 1 else lh_currentIndex s)\<rparr>"
  by (simp add: lh_redo_def lh_canRedo_def)

interpretation lhu: undo_history lh_ok lh_abs "\<lambda>s. fst (lh_undo s)" "\<lambda>s. fst (lh_redo s)" addLayout
  "\<lambda>e. e" "\<lambda>s. nat (lh_maxHistorySize s)"
proof
  fix s :: LayoutHistory and e
  assume s: "lh_ok s"
  then have idx: "idx_ok (lh_currentIndex s) (lh_history s)" by (simp add: lh_ok_def)
  show "lh_ok (fst (lh_undo s)) \<and> lh_abs (fst (lh_undo s)) = z_undo (lh_abs s)
      \<and> nat (lh_maxHistorySize (fst (lh_undo s))) = nat (lh_maxHistorySize s)"
    unfolding lh_undo_state lh_abs_def idx_undo [OF idx]
    using s by (auto simp: lh_ok_def idx_ok_def)
  show "lh_ok (fst (lh_redo s)) \<and> lh_abs (fst (lh_redo s)) = z_redo (lh_abs s)
      \<and> nat (lh_maxHistorySize (fst (lh_redo s))) = nat (lh_maxHistorySize s)"
    unfolding lh_redo_state lh_abs_def idx_redo [OF idx]
    using s by (auto simp: lh_ok_def idx_ok_def)
  let ?es = "idx_push (nat (lh_maxHistorySize s)) e (lh_currentIndex s) (lh_history s)"
  have len: "length (lh_history s) \<le> nat (lh_maxHistorySize s)" and en: "lh_enabled s"
    using s by (auto simp: lh_ok_def)
  have "idx_ok (int (length ?es) - 1) ?es" by (cases ?es) (simp_all add: idx_ok_def)
  moreover have "int (length ?es) \<le> lh_maxHistorySize s"
    using idx_push_length [OF idx len, of e] s by (simp add: lh_ok_def le_nat_iff)
  ultimately show "lh_ok (addLayout e s)
      \<and> lh_abs (addLayout e s) = z_commit (nat (lh_maxHistorySize s)) e (lh_abs s)
      \<and> nat (lh_maxHistorySize (addLayout e s)) = nat (lh_maxHistorySize s)"
    using en idx_commit [OF len] by (simp add: addLayout_push lh_ok_def lh_abs_def Let_def)
qed

lemma filter_id_other:
  "n < length es \<Longrightarrow> distinct (map lh_id es) \<Longrightarrow> m < length es \<Longrightarrow> m \<noteq> n
     \<Longrightarrow> lh_id (es ! m) \<noteq> lh_id (es ! n)"
  using nth_eq_iff_index_eq [of "map lh_id es" m n] by simp

lemma filter_id_take:
  assumes "n < length es" and "distinct (map lh_id es)"
  shows "filter (\<lambda>e. lh_id e \<noteq> lh_id (es ! n)) (take k es)
    = (if n < k then del_at n (take k es) else take k es)"
proof (cases "n < k")
  case True
  then show ?thesis
    using filter_id_nth [of n "take k es"] assms by (simp add: take_map [symmetric])
next
  case False
  have "lh_id e \<noteq> lh_id (es ! n)" if mem: "e \<in> set (take k es)" for e
  proof -
    obtain m where "m < length (take k es)" "e = take k es ! m" using mem unfolding in_set_conv_nth by blast
    then show ?thesis using filter_id_other [OF assms, of m] False by simp
  qed
  with False show ?thesis by (simp add: filter_id_conv)
qed

section \<open>Properties\<close>

text \<open>
  undo takes back layouts. After any layouts that fit into the enabled history and as many undos,
  the current entry is the one from before them.
\<close>

theorem layout_undo_additions:
  assumes "idx_ok (lh_currentIndex s) (lh_history s)" and "lh_enabled s" and "0 \<le> lh_currentIndex s"
    and "int (length (lh_history s)) \<le> lh_maxHistorySize s"
    and "int (length es) + lh_currentIndex s < lh_maxHistorySize s"
  shows "getCurrentEntry (((\<lambda>s. fst (lh_undo s)) ^^ length es) (fold addLayout es s)) = getCurrentEntry s"
proof -
  have ok: "lh_ok s" using assms by (simp add: lh_ok_def)
  have past: "int (length (fst (lh_abs s))) = lh_currentIndex s + 1"
    using idx_abs_length [OF assms(1)] by (simp add: lh_abs_def)
  with assms have room: "length es + length (fst (lh_abs s)) \<le> nat (lh_maxHistorySize s)"
    "fst (lh_abs s) \<noteq> []" by auto
  have "lh_ok (((\<lambda>s. fst (lh_undo s)) ^^ length es) (fold addLayout es s))"
    using lhu.commits_abs [OF ok room(1)] lhu.undo_pow by blast
  then show ?thesis
    using lhu.undos_take_back_commits [OF ok room] assms(1) by (simp add: lh_current_abs lh_ok_def)
qed

text \<open>
  removing an entry other than the current one removes it from what undo and from what redo can
  reach, and keeps the order of the rest and the current entry.
\<close>

theorem layout_remove_other:
  assumes "lh_inv s" and "map_option lh_id (getCurrentEntry s) \<noteq> Some i"
  shows "lh_abs (removeEntry i s)
      = map_prod (filter (\<lambda>e. lh_id e \<noteq> i)) (filter (\<lambda>e. lh_id e \<noteq> i)) (lh_abs s)
    \<and> getCurrentEntry (removeEntry i s) = getCurrentEntry s"
proof -
  let ?es = "lh_history s" and ?c = "lh_currentIndex s" and ?P = "\<lambda>e. lh_id e \<noteq> i"
  let ?k = "nat (?c + 1)"
  have dist: "distinct (map lh_id ?es)" using assms(1) by (simp add: lh_inv_def)
  then show ?thesis
  proof (rule find_id_cases [where i = i])
    assume "find_id i ?es = - 1" "i \<notin> lh_id ` set ?es"
    then have "filter ?P ?es = ?es" "filter ?P (take ?k ?es) = take ?k ?es" "filter ?P (drop ?k ?es) = drop ?k ?es"
      by (auto simp: filter_id_conv dest: in_set_takeD in_set_dropD)
    then show ?thesis
      using \<open>find_id i ?es = - 1\<close> by (simp add: removeEntry_def lh_abs_def idx_abs_def rev_filter [symmetric])
  next
    fix n
    assume n: "n < length ?es" "find_id i ?es = int n" "i = lh_id (?es ! n)"
      and "filter ?P ?es = del_at n ?es"
    then have split: "del_at n ?es = filter ?P (take ?k ?es) @ filter ?P (drop ?k ?es)"
      by (metis append_take_drop_id filter_append)
    have take: "filter ?P (take ?k ?es) = (if n < ?k then del_at n (take ?k ?es) else take ?k ?es)"
      using filter_id_take [OF n(1) dist] n(3) by simp
    have cur: "?c \<noteq> int n" "0 \<le> ?c" "?c < int (length ?es)"
      using assms n by (auto simp: getCurrentEntry_def lh_at_def lh_inv_def idx_ok_def)
    let ?c' = "lh_currentIndex (removeEntry i s)"
    have rem: "lh_history (removeEntry i s) = del_at n ?es" "?c' = (if int n < ?c then ?c - 1 else ?c)"
      using n(2) cur \<open>filter ?P ?es = del_at n ?es\<close> by (simp_all add: removeEntry_def Let_def)
    have "length (filter ?P (take ?k ?es)) = nat (?c' + 1)"
      using take cur n(1) rem(2) by (auto simp: min_def)
    then have abs: "lh_abs (removeEntry i s) = (rev (filter ?P (take ?k ?es)), filter ?P (drop ?k ?es))"
      using rem(1) split by (simp add: lh_abs_def idx_abs_def)
    moreover have "getCurrentEntry (removeEntry i s) = getCurrentEntry s"
      using rem n(1) cur by (auto simp: getCurrentEntry_def lh_at_def nth_del_at Suc_nat_eq_nat_zadd1 nat_less_iff)
    ultimately show ?thesis by (simp add: lh_abs_def idx_abs_def rev_filter [symmetric])
  qed
qed

text \<open>
  A reload keeps the current entry exactly when at most five entries were there or the newest one
  was current: the index is limited to 4 as it is, not shifted with the entries that are dropped.
\<close>

theorem layout_reload_current:
  assumes "lh_inv s"
  shows "getCurrentEntry (partialize s) = getCurrentEntry s
    \<longleftrightarrow> length (lh_history s) \<le> 5 \<or> lh_currentIndex s = int (length (lh_history s)) - 1"
proof (cases "length (lh_history s) \<le> 5")
  case True
  then show ?thesis
    using assms by (auto simp: getCurrentEntry_def lh_at_def partialize_def lh_inv_def idx_ok_def)
next
  case False
  let ?n = "length (lh_history s)"
  obtain c where c: "lh_currentIndex s = int c" "c < ?n"
    using assms False by (auto simp: lh_inv_def idx_ok_def intro: that [of "nat (lh_currentIndex s)"])
  have "nat (min (int c) 4) = min c 4" by (simp add: min_def)
  then have "getCurrentEntry (partialize s) = Some (lh_history s ! (?n - 5 + min c 4))"
    using False c by (auto simp: getCurrentEntry_def lh_at_def partialize_def min_def)
  moreover have "getCurrentEntry s = Some (lh_history s ! c)"
    using c by (simp add: getCurrentEntry_def lh_at_def)
  moreover have "distinct (lh_history s)"
    using assms by (simp add: lh_inv_def distinct_map)
  then have "lh_history s ! (?n - 5 + min c 4) = lh_history s ! c \<longleftrightarrow> ?n - 5 + min c 4 = c"
    using False c by (intro nth_eq_iff_index_eq) auto
  ultimately show ?thesis using False c by (auto simp: min_def)
qed

section \<open>Examples\<close>

definition entry_example :: "ident \<Rightarrow> LayoutHistoryEntry" where
  "entry_example i = layout_entry i 0 diamond Hierarchical JNull None JUndef"

definition layouts_example :: "ident list \<Rightarrow> int \<Rightarrow> LayoutHistory" where
  "layouts_example is c = lh_initial\<lparr>lh_history := map entry_example is, lh_currentIndex := c\<rparr>"

lemmas layout_eval = layouts_example_def lh_initial_def entry_example_def layout_entry_def lh_inv_def
  idx_ok_def getCurrentEntry_def lh_at_def

theorem layout_undo_additions_witness:
  "getCurrentEntry (((\<lambda>s. fst (lh_undo s)) ^^ length [entry_example ''y'', entry_example ''z''])
      (fold addLayout [entry_example ''y'', entry_example ''z''] (layouts_example [''a'', ''b''] 0)))
    = getCurrentEntry (layouts_example [''a'', ''b''] 0)"
  by (rule layout_undo_additions) (simp_all add: layout_eval)

theorem layout_remove_other_witness:
  "lh_abs (removeEntry ''a'' (layouts_example [''a'', ''b'', ''c''] 1))
      = map_prod (filter (\<lambda>e. lh_id e \<noteq> ''a'')) (filter (\<lambda>e. lh_id e \<noteq> ''a''))
          (lh_abs (layouts_example [''a'', ''b'', ''c''] 1))
    \<and> getCurrentEntry (removeEntry ''a'' (layouts_example [''a'', ''b'', ''c''] 1))
      = getCurrentEntry (layouts_example [''a'', ''b'', ''c''] 1)"
  by (rule layout_remove_other) (simp_all add: layout_eval)

theorem layout_reload_current_witness:
  "getCurrentEntry (partialize (layouts_example [''a'', ''b'', ''c'', ''d'', ''e'', ''f''] 4))
     \<noteq> getCurrentEntry (layouts_example [''a'', ''b'', ''c'', ''d'', ''e'', ''f''] 4)"
proof -
  have "lh_inv (layouts_example [''a'', ''b'', ''c'', ''d'', ''e'', ''f''] 4)" by (simp add: layout_eval)
  from layout_reload_current [OF this] show ?thesis by (simp add: layouts_example_def lh_initial_def)
qed

end
