(* ===== verification/Selection_Manager.thy ===== *)
theory Selection_Manager
  imports Workflow_Graph Undo_Index
begin

text \<open>
  The selection of the canvas (frontend/src/stores/selection-manager.ts): nodes and edges, groups, and the history of selections
  with undo and redo. A \<open>Set\<close> is the list of its elements in the order of insertion.
\<close>

section \<open>State\<close>

record SelectionRect =
  rc_x :: rat
  rc_y :: rat
  rc_width :: rat
  rc_height :: rat

record SelectionGroup =
  sg_id :: ident
  sg_name :: string
  sg_nodeIds :: "ident list"
  sg_created :: millis

datatype selection_mode = SingleMode | MultiMode | RangeMode | RectMode

type_synonym selection = "ident list \<times> ident list"

record SelectionState =
  se_nodes :: "ident list"
  se_edges :: "ident list"
  se_lastSelected :: "ident option"
  se_mode :: selection_mode
  se_rect :: "SelectionRect option"
  se_groups :: "SelectionGroup list"
  se_history :: "selection list"
  se_historyIndex :: int

definition selection_initial :: SelectionState where
  "selection_initial =
     \<lparr>se_nodes = [], se_edges = [], se_lastSelected = None, se_mode = SingleMode, se_rect = None, se_groups = [],
      se_history = [], se_historyIndex = - 1\<rparr>"

definition add_member :: "ident \<Rightarrow> ident list \<Rightarrow> ident list" where
  "add_member i xs = (if i \<in> set xs then xs else xs @ [i])"

definition set_toggle :: "ident \<Rightarrow> ident list \<Rightarrow> ident list" where
  "set_toggle i xs = (if i \<in> set xs then removeAll i xs else xs @ [i])"

section \<open>History\<close>

definition recordHistory :: "SelectionState \<Rightarrow> SelectionState" where
  "recordHistory s =
     (let history = take (nat (se_historyIndex s + 1)) (se_history s) @ [(se_nodes s, se_edges s)] in
      if length history > 50 then s\<lparr>se_history := tl history\<rparr>
      else s\<lparr>se_history := history, se_historyIndex := se_historyIndex s + 1\<rparr>)"

definition undoSelection :: "SelectionState \<Rightarrow> SelectionState \<times> bool" where
  "undoSelection s =
     (if se_historyIndex s \<le> 0 then (s, False)
      else let i = se_historyIndex s - 1; s1 = s\<lparr>se_historyIndex := i\<rparr> in
        if nat i < length (se_history s) then
          (s1\<lparr>se_nodes := fst (se_history s ! nat i), se_edges := snd (se_history s ! nat i)\<rparr>, True)
        else (s1, False))"

definition redoSelection :: "SelectionState \<Rightarrow> SelectionState \<times> bool" where
  "redoSelection s =
     (if se_historyIndex s \<ge> int (length (se_history s)) - 1 then (s, False)
      else let i = se_historyIndex s + 1; s1 = s\<lparr>se_historyIndex := i\<rparr> in
        if 0 \<le> i then
          (s1\<lparr>se_nodes := fst (se_history s ! nat i), se_edges := snd (se_history s ! nat i)\<rparr>, True)
        else (s1, False))"

section \<open>Nodes\<close>

definition selectNode :: "ident \<Rightarrow> bool \<Rightarrow> SelectionState \<Rightarrow> SelectionState" where
  "selectNode nodeId multi s =
     recordHistory (s\<lparr>se_nodes := (if multi then set_toggle nodeId (se_nodes s) else [nodeId]), se_edges := [],
       se_lastSelected := Some nodeId, se_mode := (if multi then MultiMode else SingleMode)\<rparr>)"

text \<open>\<open>xs[xs.length - 1] || null\<close>\<close>

definition last_or_null :: "ident list \<Rightarrow> ident option" where
  "last_or_null xs = (if xs = [] \<or> last xs = [] then None else Some (last xs))"

definition selectNodes :: "ident list \<Rightarrow> bool \<Rightarrow> SelectionState \<Rightarrow> SelectionState" where
  "selectNodes nodeIds multi s =
     recordHistory (s\<lparr>se_nodes := fold add_member nodeIds (if multi then se_nodes s else []), se_edges := [],
       se_lastSelected := last_or_null nodeIds, se_mode := MultiMode\<rparr>)"

definition find_action :: "ident \<Rightarrow> Action list \<Rightarrow> nat option" where
  "find_action i actions = (case find (\<lambda>(k, a). ac_id a = i) (enumerate 0 actions) of None \<Rightarrow> None | Some (k, a) \<Rightarrow> Some k)"

definition range_ids :: "nat \<Rightarrow> nat \<Rightarrow> Action list \<Rightarrow> ident list" where
  "range_ids i j actions = map ac_id (drop (min i j) (take (max i j + 1) actions))"

definition selectRange :: "ident \<Rightarrow> Action list \<Rightarrow> SelectionState \<Rightarrow> SelectionState" where
  "selectRange nodeId actions s =
     (case se_lastSelected s of
        None \<Rightarrow> selectNode nodeId False s
      | Some start \<Rightarrow>
          if start = [] then selectNode nodeId False s
          else (case (find_action start actions, find_action nodeId actions) of
              (Some i, Some j) \<Rightarrow> (selectNodes (range_ids i j actions) False s)\<lparr>se_mode := RangeMode\<rparr>
            | _ \<Rightarrow> s))"

text \<open>The two coordinates of an action; every action on the canvas has them.\<close>

definition in_rect :: "SelectionRect \<Rightarrow> Action \<Rightarrow> bool" where
  "in_rect r a =
     (case ac_position a of
        Some (x # y # _) \<Rightarrow> x \<ge> rc_x r \<and> x \<le> rc_x r + rc_width r \<and> y \<ge> rc_y r \<and> y \<le> rc_y r + rc_height r
      | _ \<Rightarrow> False)"

definition selectInRect :: "SelectionRect \<Rightarrow> Action list \<Rightarrow> bool \<Rightarrow> SelectionState \<Rightarrow> js_error + SelectionState" where
  "selectInRect r actions adding s =
     (if \<not> list_all (\<lambda>a. ac_position a \<noteq> None) actions then Inl TypeError
      else Inr (recordHistory
        (s\<lparr>se_nodes := fold add_member (map ac_id (filter (in_rect r) actions)) (if adding then se_nodes s else []),
           se_edges := [], se_mode := RectMode, se_rect := Some r\<rparr>)))"

definition deselectNode :: "ident \<Rightarrow> SelectionState \<Rightarrow> SelectionState" where
  "deselectNode nodeId s =
     recordHistory (s\<lparr>se_nodes := removeAll nodeId (se_nodes s),
       se_lastSelected := (if se_lastSelected s = Some nodeId then None else se_lastSelected s)\<rparr>)"

definition deselectNodes :: "ident list \<Rightarrow> SelectionState \<Rightarrow> SelectionState" where
  "deselectNodes nodeIds s = recordHistory (s\<lparr>se_nodes := fold removeAll nodeIds (se_nodes s)\<rparr>)"

section \<open>Edges\<close>

definition selectEdge :: "ident \<Rightarrow> bool \<Rightarrow> SelectionState \<Rightarrow> SelectionState" where
  "selectEdge edgeId multi s =
     recordHistory (s\<lparr>se_edges := (if multi then set_toggle edgeId (se_edges s) else [edgeId]), se_nodes := [],
       se_lastSelected := None\<rparr>)"

definition selectEdges :: "ident list \<Rightarrow> bool \<Rightarrow> SelectionState \<Rightarrow> SelectionState" where
  "selectEdges edgeIds multi s =
     recordHistory (s\<lparr>se_edges := fold add_member edgeIds (if multi then se_edges s else []), se_nodes := [],
       se_lastSelected := None\<rparr>)"

definition deselectEdge :: "ident \<Rightarrow> SelectionState \<Rightarrow> SelectionState" where
  "deselectEdge edgeId s = recordHistory (s\<lparr>se_edges := removeAll edgeId (se_edges s)\<rparr>)"

section \<open>Everything\<close>

definition selectAll :: "Action list \<Rightarrow> SelectionState \<Rightarrow> SelectionState" where
  "selectAll actions s =
     recordHistory (s\<lparr>se_nodes := fold add_member (map ac_id actions) [], se_edges := [], se_mode := MultiMode\<rparr>)"

definition clearSelection :: "SelectionState \<Rightarrow> SelectionState" where
  "clearSelection s =
     recordHistory (s\<lparr>se_nodes := [], se_edges := [], se_lastSelected := None, se_rect := None\<rparr>)"

definition invertSelection :: "Action list \<Rightarrow> SelectionState \<Rightarrow> SelectionState" where
  "invertSelection actions s =
     recordHistory (s\<lparr>se_nodes := filter (\<lambda>i. i \<notin> set (se_nodes s)) (fold add_member (map ac_id actions) []), se_edges := []\<rparr>)"

definition saveGroup :: "string \<Rightarrow> ident \<Rightarrow> millis \<Rightarrow> SelectionState \<Rightarrow> SelectionState" where
  "saveGroup name gid now s =
     s\<lparr>se_groups := se_groups s @ [\<lparr>sg_id = gid, sg_name = name, sg_nodeIds = se_nodes s, sg_created = now\<rparr>]\<rparr>"

definition loadGroup :: "ident \<Rightarrow> SelectionState \<Rightarrow> SelectionState \<times> bool" where
  "loadGroup groupId s =
     (case find (\<lambda>g. sg_id g = groupId) (se_groups s) of
        None \<Rightarrow> (s, False)
      | Some g \<Rightarrow> (recordHistory (s\<lparr>se_nodes := fold add_member (sg_nodeIds g) [], se_edges := [], se_mode := MultiMode\<rparr>), True))"

fun remove_group :: "ident \<Rightarrow> SelectionGroup list \<Rightarrow> SelectionGroup list" where
  "remove_group i [] = []"
| "remove_group i (g # gs) = (if sg_id g = i then gs else g # remove_group i gs)"

definition deleteGroup :: "ident \<Rightarrow> SelectionState \<Rightarrow> SelectionState \<times> bool" where
  "deleteGroup groupId s =
     (s\<lparr>se_groups := remove_group groupId (se_groups s)\<rparr>, groupId \<in> sg_id ` set (se_groups s))"

definition hasSelection :: "SelectionState \<Rightarrow> bool" where
  "hasSelection s = (se_nodes s \<noteq> [] \<or> se_edges s \<noteq> [])"

definition getSelectionCount :: "SelectionState \<Rightarrow> nat \<times> nat" where
  "getSelectionCount s = (length (se_nodes s), length (se_edges s))"

section \<open>Calls\<close>

datatype SelectionCall =
    SelectNodeCall ident bool
  | SelectNodesCall "ident list" bool
  | SelectRangeCall ident "Action list"
  | SelectInRectCall SelectionRect "Action list" bool
  | DeselectNodeCall ident
  | DeselectNodesCall "ident list"
  | SelectEdgeCall ident bool
  | SelectEdgesCall "ident list" bool
  | DeselectEdgeCall ident
  | SelectAllCall "Action list"
  | ClearSelectionCall
  | InvertCall "Action list"
  | SaveGroupCall string ident millis
  | LoadGroupCall ident
  | DeleteGroupCall ident
  | UndoCall
  | RedoCall
  | SetRectCall "SelectionRect option"
  | ResetCall

definition selection_exec :: "SelectionState \<Rightarrow> SelectionCall \<Rightarrow> SelectionState" where
  "selection_exec s c =
     (case c of
        SelectNodeCall i m \<Rightarrow> selectNode i m s
      | SelectNodesCall is m \<Rightarrow> selectNodes is m s
      | SelectRangeCall i as \<Rightarrow> selectRange i as s
      | SelectInRectCall r as adding \<Rightarrow> (case selectInRect r as adding s of Inl _ \<Rightarrow> s | Inr t \<Rightarrow> t)
      | DeselectNodeCall i \<Rightarrow> deselectNode i s
      | DeselectNodesCall is \<Rightarrow> deselectNodes is s
      | SelectEdgeCall i m \<Rightarrow> selectEdge i m s
      | SelectEdgesCall is m \<Rightarrow> selectEdges is m s
      | DeselectEdgeCall i \<Rightarrow> deselectEdge i s
      | SelectAllCall as \<Rightarrow> selectAll as s
      | ClearSelectionCall \<Rightarrow> clearSelection s
      | InvertCall as \<Rightarrow> invertSelection as s
      | SaveGroupCall n i now \<Rightarrow> saveGroup n i now s
      | LoadGroupCall i \<Rightarrow> fst (loadGroup i s)
      | DeleteGroupCall i \<Rightarrow> fst (deleteGroup i s)
      | UndoCall \<Rightarrow> fst (undoSelection s)
      | RedoCall \<Rightarrow> fst (redoSelection s)
      | SetRectCall r \<Rightarrow> s\<lparr>se_rect := r\<rparr>
      | ResetCall \<Rightarrow> selection_initial)"

section \<open>The invariant\<close>

text \<open>Nodes or edges are selected, never both, and none twice.\<close>

definition selection_ok :: "selection \<Rightarrow> bool" where
  "selection_ok p \<longleftrightarrow> distinct (fst p) \<and> distinct (snd p) \<and> (fst p = [] \<or> snd p = [])"

definition current_selection :: "SelectionState \<Rightarrow> selection" where
  "current_selection s = (se_nodes s, se_edges s)"

text \<open>The history is sound, and its entry at the index is the present selection.\<close>

definition history_ok :: "SelectionState \<Rightarrow> bool" where
  "history_ok s \<longleftrightarrow> idx_ok (se_historyIndex s) (se_history s) \<and> length (se_history s) \<le> 50
     \<and> list_all selection_ok (se_history s)"

definition selection_inv :: "SelectionState \<Rightarrow> bool" where
  "selection_inv s \<longleftrightarrow> history_ok s \<and> selection_ok (current_selection s)
     \<and> current_selection s = (if se_history s = [] then ([], []) else se_history s ! nat (se_historyIndex s))"

lemma set_add_ok: "distinct xs \<Longrightarrow> distinct (add_member i xs)"
  by (simp add: add_member_def)

lemma fold_add_ok: "distinct xs \<Longrightarrow> distinct (fold add_member is xs)"
  by (induction "is" arbitrary: xs) (simp_all add: set_add_ok)

lemma set_fold_add: "set (fold add_member is xs) = set is \<union> set xs"
  by (induction "is" arbitrary: xs) (auto simp: add_member_def)

lemma toggle_ok: "distinct xs \<Longrightarrow> distinct (set_toggle i xs)"
  by (simp add: set_toggle_def distinct_removeAll)

lemma fold_remove_ok: "distinct xs \<Longrightarrow> distinct (fold removeAll is xs)"
  by (induction "is" arbitrary: xs) (simp_all add: distinct_removeAll)

lemma fold_remove_nil [simp]: "fold removeAll is [] = []"
  by (induction "is") simp_all

text \<open>Recording is the commit of the present selection.\<close>

lemma record_push:
  assumes "idx_ok (se_historyIndex s) (se_history s)" and "length (se_history s) \<le> 50"
  shows "recordHistory s = s\<lparr>se_history := idx_push 50 (current_selection s) (se_historyIndex s) (se_history s),
      se_historyIndex := int (length (idx_push 50 (current_selection s) (se_historyIndex s) (se_history s))) - 1\<rparr>"
  using assms(1)
proof (cases rule: idx_cases)
  case 1
  then show ?thesis by (simp add: recordHistory_def idx_push_def current_selection_def Let_def)
next
  case (2 n)
  then have "nat (se_historyIndex s + 1) = Suc n" by simp
  with 2 assms(2) show ?thesis
    by (simp add: recordHistory_def idx_push_def current_selection_def Let_def min_def)
qed

lemma push_cases: "idx_push n e i es = take (nat (i + 1)) es @ [e] \<or> (\<exists>x rest. take (nat (i + 1)) es = x # rest \<and> idx_push n e i es = rest @ [e])"
  if "0 < n"
proof (cases "take (nat (i + 1)) es")
  case Nil
  then show ?thesis using that unfolding idx_push_def Let_def by (simp only: Nil append_Nil) simp
next
  case (Cons x rest)
  then show ?thesis unfolding idx_push_def Let_def by (simp only: Cons) simp
qed

lemma push_entries: "0 < n \<Longrightarrow> set (idx_push n e i es) \<subseteq> insert e (set es)"
  using push_cases [of n e i es] set_take_subset [of "nat (i + 1)" es] by auto

lemma push_last: "0 < n \<Longrightarrow> idx_push n e i es \<noteq> [] \<and> last (idx_push n e i es) = e"
  using push_cases [of n e i es] by auto

lemma record_inv:
  assumes "history_ok s" and "selection_ok (current_selection s)"
  shows "selection_inv (recordHistory s)"
proof -
  let ?h = "idx_push 50 (current_selection s) (se_historyIndex s) (se_history s)"
  have idx: "idx_ok (se_historyIndex s) (se_history s)" "length (se_history s) \<le> 50" using assms(1) by (simp_all add: history_ok_def)
  have h: "?h \<noteq> []" "last ?h = current_selection s" using push_last [of 50 "current_selection s" "se_historyIndex s" "se_history s"] by simp_all
  have "list_all selection_ok ?h"
    using push_entries [of 50 "current_selection s" "se_historyIndex s" "se_history s"] assms by (fastforce simp: list_all_iff history_ok_def)
  moreover have "length ?h \<le> 50" by (rule idx_push_length [OF idx])
  moreover have "?h ! nat (int (length ?h) - 1) = current_selection s"
  proof -
    have "nat (int (length ?h) - 1) = length ?h - 1" by simp
    then show ?thesis using h by (metis last_conv_nth)
  qed
  ultimately show ?thesis
    using h assms(2) unfolding record_push [OF idx]
    by (simp add: selection_inv_def history_ok_def idx_ok_def current_selection_def)
qed

lemma moved_inv:
  assumes "history_ok s" and "0 \<le> i" and "nat i < length (se_history s)"
  shows "selection_inv (s\<lparr>se_historyIndex := i, se_nodes := fst (se_history s ! nat i), se_edges := snd (se_history s ! nat i)\<rparr>)"
  using assms by (auto simp: selection_inv_def history_ok_def idx_ok_def current_selection_def list_all_length)

lemma undo_state:
  "history_ok s \<Longrightarrow> fst (undoSelection s) = (if 0 < se_historyIndex s
     then let i = se_historyIndex s - 1 in s\<lparr>se_historyIndex := i, se_nodes := fst (se_history s ! nat i), se_edges := snd (se_history s ! nat i)\<rparr>
     else s)"
  by (auto simp: undoSelection_def history_ok_def idx_ok_def Let_def)

lemma redo_state:
  "history_ok s \<Longrightarrow> fst (redoSelection s) = (if se_historyIndex s < int (length (se_history s)) - 1
     then let i = se_historyIndex s + 1 in s\<lparr>se_historyIndex := i, se_nodes := fst (se_history s ! nat i), se_edges := snd (se_history s ! nat i)\<rparr>
     else s)"
  by (auto simp: redoSelection_def history_ok_def idx_ok_def Let_def)

lemma undo_inv: "selection_inv s \<Longrightarrow> selection_inv (fst (undoSelection s))"
proof -
  assume s: "selection_inv s"
  then have h: "history_ok s" by (simp add: selection_inv_def)
  then show ?thesis
    using s moved_inv [OF h, of "se_historyIndex s - 1"]
    by (auto simp: undo_state Let_def) (auto simp: history_ok_def idx_ok_def)
qed

lemma redo_inv: "selection_inv s \<Longrightarrow> selection_inv (fst (redoSelection s))"
proof -
  assume s: "selection_inv s"
  then have h: "history_ok s" by (simp add: selection_inv_def)
  then show ?thesis
    using s moved_inv [OF h, of "se_historyIndex s + 1"]
    by (auto simp: redo_state Let_def) (auto simp: history_ok_def idx_ok_def)
qed

lemma inv_parts:
  assumes "selection_inv s"
  shows "history_ok s" "distinct (se_nodes s)" "distinct (se_edges s)" "se_nodes s = [] \<or> se_edges s = []"
  using assms by (auto simp: selection_inv_def selection_ok_def current_selection_def)

lemma record_updated:
  assumes "selection_inv s" and "se_history t = se_history s" and "se_historyIndex t = se_historyIndex s"
    and "selection_ok (current_selection t)"
  shows "selection_inv (recordHistory t)"
  by (rule record_inv) (use assms in \<open>auto simp: selection_inv_def history_ok_def\<close>)

lemma quiet_inv: "selection_inv s \<Longrightarrow> se_history t = se_history s \<Longrightarrow> se_historyIndex t = se_historyIndex s \<Longrightarrow>
    current_selection t = current_selection s \<Longrightarrow> selection_inv t"
  unfolding selection_inv_def history_ok_def by metis

lemma selected_ok [simp]: "selection_ok (current_selection t) \<longleftrightarrow>
    distinct (se_nodes t) \<and> distinct (se_edges t) \<and> (se_nodes t = [] \<or> se_edges t = [])"
  by (auto simp: selection_ok_def current_selection_def)

lemmas recording_defs = selectNode_def selectNodes_def deselectNode_def deselectNodes_def selectEdge_def selectEdges_def
  deselectEdge_def selectAll_def clearSelection_def invertSelection_def

lemmas set_ok = fold_add_ok toggle_ok fold_remove_ok distinct_removeAll

lemma recording_inv:
  assumes "selection_inv s"
  shows "selection_inv (selectNode i m s)" "selection_inv (selectNodes is m s)" "selection_inv (deselectNode i s)"
    "selection_inv (deselectNodes is s)" "selection_inv (selectEdge i m s)" "selection_inv (selectEdges is m s)"
    "selection_inv (deselectEdge i s)" "selection_inv (selectAll as s)" "selection_inv (clearSelection s)"
    "selection_inv (invertSelection as s)"
  using inv_parts [OF assms] unfolding recording_defs
  by (auto intro!: record_updated [OF assms] simp: set_ok)

lemma range_inv: "selection_inv s \<Longrightarrow> selection_inv (selectRange i as s)"
  by (auto simp: selectRange_def recording_inv split: option.split
      intro: quiet_inv [OF recording_inv(2)] simp: current_selection_def)

lemma rect_inv: "selection_inv s \<Longrightarrow> selectInRect r as m s = Inr t \<Longrightarrow> selection_inv t"
  using inv_parts [of s]
  by (auto simp: selectInRect_def set_ok split: if_splits intro!: record_updated [of s])

lemma load_inv: "selection_inv s \<Longrightarrow> selection_inv (fst (loadGroup i s))"
  by (auto simp: loadGroup_def set_ok split: option.split intro!: record_updated [of s])

lemma selection_step_inv: "selection_inv s \<Longrightarrow> selection_inv (selection_exec s c)"
  by (cases c)
    (auto simp: selection_exec_def recording_inv range_inv load_inv undo_inv redo_inv saveGroup_def deleteGroup_def
      current_selection_def split: sum.split intro: rect_inv quiet_inv,
     simp add: selection_inv_def selection_initial_def history_ok_def idx_ok_def current_selection_def selection_ok_def)

lemma initial_selection: "selection_inv selection_initial"
  by (simp add: selection_inv_def selection_initial_def history_ok_def idx_ok_def current_selection_def selection_ok_def)

interpretation selection_machine: invariant_machine selection_exec selection_inv
  by unfold_locales (rule selection_step_inv)

section \<open>An undo history\<close>

definition selection_abs :: "SelectionState \<Rightarrow> selection zipper" where
  "selection_abs s = idx_abs (se_historyIndex s) (se_history s)"

text \<open>Recording a selection, the operation that all the others end with.\<close>

definition record_selection :: "selection \<Rightarrow> SelectionState \<Rightarrow> SelectionState" where
  "record_selection p s = recordHistory (s\<lparr>se_nodes := fst p, se_edges := snd p\<rparr>)"

definition undo_ready :: "SelectionState \<Rightarrow> bool" where
  "undo_ready s \<longleftrightarrow> idx_ok (se_historyIndex s) (se_history s) \<and> length (se_history s) \<le> 50"

lemma selection_undo_abs:
  "undo_ready s \<Longrightarrow> undo_ready (fst (undoSelection s)) \<and> selection_abs (fst (undoSelection s)) = z_undo (selection_abs s)"
  by (auto simp: undoSelection_def selection_abs_def idx_undo Let_def undo_ready_def idx_ok_def)

lemma selection_redo_abs:
  "undo_ready s \<Longrightarrow> undo_ready (fst (redoSelection s)) \<and> selection_abs (fst (redoSelection s)) = z_redo (selection_abs s)"
  by (auto simp: redoSelection_def selection_abs_def idx_redo Let_def undo_ready_def idx_ok_def)

lemma recorded_abs:
  assumes "undo_ready s"
  shows "undo_ready (recordHistory s) \<and> selection_abs (recordHistory s) = z_commit 50 (current_selection s) (selection_abs s)"
proof -
  have idx: "idx_ok (se_historyIndex s) (se_history s)" "length (se_history s) \<le> 50" using assms by (simp_all add: undo_ready_def)
  let ?h = "idx_push 50 (current_selection s) (se_historyIndex s) (se_history s)"
  have "?h \<noteq> []" using push_last [of 50 "current_selection s" "se_historyIndex s" "se_history s"] by simp
  then show ?thesis
    using idx_push_length [OF idx, of "current_selection s"] idx_commit [OF idx(2), of "current_selection s" "se_historyIndex s"]
    unfolding record_push [OF idx] by (simp add: undo_ready_def selection_abs_def idx_ok_def)
qed

lemma recorded_fields [simp]: "se_nodes (recordHistory s) = se_nodes s" "se_edges (recordHistory s) = se_edges s"
  by (simp_all add: recordHistory_def Let_def)

interpretation selection_undo: undo_history undo_ready selection_abs "\<lambda>s. fst (undoSelection s)" "\<lambda>s. fst (redoSelection s)"
  record_selection "\<lambda>p. p" "\<lambda>_. 50"
proof
  fix s :: SelectionState and p
  assume s: "undo_ready s"
  show "undo_ready (fst (undoSelection s)) \<and> selection_abs (fst (undoSelection s)) = z_undo (selection_abs s) \<and> (50::nat) = 50"
    using selection_undo_abs [OF s] by simp
  show "undo_ready (fst (redoSelection s)) \<and> selection_abs (fst (redoSelection s)) = z_redo (selection_abs s) \<and> (50::nat) = 50"
    using selection_redo_abs [OF s] by simp
  show "undo_ready (record_selection p s) \<and> selection_abs (record_selection p s) = z_commit 50 p (selection_abs s) \<and> (50::nat) = 50"
    using s recorded_abs [of "s\<lparr>se_nodes := fst p, se_edges := snd p\<rparr>"]
    by (simp add: record_selection_def undo_ready_def selection_abs_def current_selection_def)
qed

text \<open>The calls that record a selection.\<close>

definition records :: "SelectionState \<Rightarrow> SelectionCall \<Rightarrow> bool" where
  "records s c =
     (case c of
        SelectRangeCall i as \<Rightarrow> (case se_lastSelected s of None \<Rightarrow> True
          | Some start \<Rightarrow> start = [] \<or> find_action start as \<noteq> None \<and> find_action i as \<noteq> None)
      | SelectInRectCall r as adding \<Rightarrow> list_all (\<lambda>a. ac_position a \<noteq> None) as
      | LoadGroupCall i \<Rightarrow> i \<in> sg_id ` set (se_groups s)
      | SaveGroupCall _ _ _ \<Rightarrow> False
      | DeleteGroupCall _ \<Rightarrow> False
      | UndoCall \<Rightarrow> False
      | RedoCall \<Rightarrow> False
      | SetRectCall _ \<Rightarrow> False
      | ResetCall \<Rightarrow> False
      | _ \<Rightarrow> True)"

fun all_record :: "SelectionState \<Rightarrow> SelectionCall list \<Rightarrow> bool" where
  "all_record s [] = True"
| "all_record s (c # cs) = (records s c \<and> all_record (selection_exec s c) cs)"

lemma record_same:
  assumes "undo_ready s" and "se_history t = se_history s" and "se_historyIndex t = se_historyIndex s"
  shows "undo_ready (recordHistory t) \<and> selection_abs (recordHistory t) = z_commit 50 (current_selection (recordHistory t)) (selection_abs s)"
  using recorded_abs [of t] assms by (simp add: undo_ready_def selection_abs_def current_selection_def)

lemma mode_abs [simp]: "selection_abs (s\<lparr>se_mode := m\<rparr>) = selection_abs s" "current_selection (s\<lparr>se_mode := m\<rparr>) = current_selection s"
  "undo_ready (s\<lparr>se_mode := m\<rparr>) = undo_ready s"
  by (simp_all add: selection_abs_def current_selection_def undo_ready_def)

lemma recording_abs:
  assumes "undo_ready s" and "records s c"
  shows "undo_ready (selection_exec s c) \<and> selection_abs (selection_exec s c) = z_commit 50 (current_selection (selection_exec s c)) (selection_abs s)"
proof -
  have find: "find (\<lambda>g. sg_id g = i) gs \<noteq> None \<longleftrightarrow> i \<in> sg_id ` set gs" for i gs by (auto simp: find_None_iff)
  show ?thesis
    using assms(2) record_same [OF assms(1)]
    by (cases c) (auto simp: selection_exec_def records_def recording_defs selectRange_def selectInRect_def loadGroup_def
        split: option.splits dest!: find [THEN iffD2])
qed

lemma commits_agree:
  "undo_ready s \<Longrightarrow> undo_ready t \<Longrightarrow> selection_abs s = selection_abs t \<Longrightarrow>
   selection_abs (fold record_selection ps s) = selection_abs (fold record_selection ps t)"
proof (induction ps arbitrary: s t)
  case (Cons p ps)
  from selection_undo.commit [OF Cons.prems(1), of p] selection_undo.commit [OF Cons.prems(2), of p]
  show ?case unfolding fold_simps by (intro Cons.IH) (simp_all only: Cons.prems(3))
qed simp

lemma recording_run:
  "undo_ready s \<Longrightarrow> all_record s cs \<Longrightarrow> \<exists>ps. length ps = length cs \<and> undo_ready (run selection_exec s cs)
     \<and> selection_abs (run selection_exec s cs) = selection_abs (fold record_selection ps s)"
proof (induction cs arbitrary: s)
  case (Cons c cs)
  let ?s = "selection_exec s c" and ?p = "current_selection (selection_exec s c)"
  have s: "undo_ready ?s" "selection_abs ?s = selection_abs (record_selection ?p s)"
    using recording_abs [OF Cons.prems(1), of c] Cons.prems selection_undo.commit [OF Cons.prems(1)] by simp_all
  obtain ps where ps: "length ps = length cs" "undo_ready (run selection_exec ?s cs)"
    "selection_abs (run selection_exec ?s cs) = selection_abs (fold record_selection ps ?s)"
    using Cons.IH [OF s(1)] Cons.prems(2) by auto
  have "selection_abs (fold record_selection ps ?s) = selection_abs (fold record_selection ps (record_selection ?p s))"
    using commits_agree [OF s(1) _ s(2)] selection_undo.commit [OF Cons.prems(1)] by blast
  then show ?case using ps by (intro exI [of _ "?p # ps"]) simp
qed auto

lemma inv_ready: "selection_inv s \<Longrightarrow> undo_ready s"
  by (simp add: selection_inv_def history_ok_def undo_ready_def)

lemma selection_current_abs:
  assumes "selection_inv s" and "fst (selection_abs s) \<noteq> []"
  shows "hd (fst (selection_abs s)) = current_selection s"
proof -
  have idx: "idx_ok (se_historyIndex s) (se_history s)" using assms(1) by (simp add: selection_inv_def history_ok_def)
  have "se_history s \<noteq> []" using assms(2) by (auto simp: selection_abs_def idx_abs_def)
  then show ?thesis
    using idx_current [OF idx] assms(1,2) idx \<open>se_history s \<noteq> []\<close>
    by (cases "fst (selection_abs s)") (simp_all add: selection_abs_def selection_inv_def idx_ok_def split: if_splits)
qed

lemma undos_inv: "selection_inv s \<Longrightarrow> selection_inv (((\<lambda>s. fst (undoSelection s)) ^^ n) s)"
  by (induction n) (simp_all add: undo_inv)

lemma redos_inv: "selection_inv s \<Longrightarrow> selection_inv (((\<lambda>s. fst (redoSelection s)) ^^ n) s)"
  by (induction n) (simp_all add: redo_inv)

section \<open>Properties\<close>

text \<open>
  after any sequence of calls, nodes or edges are selected but never both, no selection holds an element twice, the history
  has at most 50 entries, all of them such selections, and its entry at the index is what is selected.
\<close>

theorem selection_reachable_inv: "selection_inv (run selection_exec selection_initial cs)"
  by (rule selection_machine.inv_run [OF initial_selection])

text \<open>
  after a recorded selection, as many undos as there were recording calls since, up to the bound of 50, bring back the nodes and the
  edges that were selected before them, and as many redos those that were selected after them.
\<close>

theorem selection_undo_redo:
  assumes "selection_inv s" and "se_history s \<noteq> []" and "all_record s cs" and "nat (se_historyIndex s) + length cs < 50"
  defines "t \<equiv> run selection_exec s cs"
  shows "current_selection (((\<lambda>s. fst (undoSelection s)) ^^ length cs) t) = current_selection s
    \<and> current_selection (((\<lambda>s. fst (redoSelection s)) ^^ length cs) (((\<lambda>s. fst (undoSelection s)) ^^ length cs) t)) = current_selection t"
proof -
  let ?u = "\<lambda>s. fst (undoSelection s)" and ?r = "\<lambda>s. fst (redoSelection s)" and ?n = "length cs"
  note ready = inv_ready [OF assms(1)]
  have t: "selection_inv t" unfolding t_def by (rule selection_machine.inv_run [OF assms(1)])
  obtain ps where ps: "length ps = ?n" "selection_abs t = selection_abs (fold record_selection ps s)"
    using recording_run [OF ready assms(3)] unfolding t_def by blast
  have idx: "idx_ok (se_historyIndex s) (se_history s)" using ready by (simp add: undo_ready_def)
  have len: "int (length (fst (selection_abs s))) = se_historyIndex s + 1" "0 \<le> se_historyIndex s"
    using idx_abs_length [OF idx] idx assms(2) by (auto simp: selection_abs_def idx_ok_def)
  then have room: "length ps + length (fst (selection_abs s)) \<le> 50" and past: "fst (selection_abs s) \<noteq> []"
    using assms(4) ps(1) by auto
  note commits = selection_undo.commits_abs [OF ready room]
  have "selection_abs ((?u ^^ ?n) t) = selection_abs ((?u ^^ ?n) (fold record_selection ps s))"
    using selection_undo.undo_pow [OF inv_ready [OF t], of ?n] selection_undo.undo_pow [of "fold record_selection ps s" ?n] commits ps by simp
  then have u: "fst (selection_abs ((?u ^^ ?n) t)) = fst (selection_abs s)"
    using selection_undo.undos_take_back_commits [OF ready room past] ps(1) by simp
  have r: "selection_abs ((?r ^^ ?n) ((?u ^^ ?n) t)) = selection_abs t"
    using selection_undo.redos_take_back_undos [OF inv_ready [OF t], of ?n] commits ps past by (cases "fst (selection_abs s)") simp_all
  show ?thesis
    using selection_current_abs [OF assms(1) past] selection_current_abs [OF undos_inv [OF t], of ?n] selection_current_abs [OF t]
      selection_current_abs [OF redos_inv [OF undos_inv [OF t]], of ?n ?n] u r past commits ps(2) by simp
qed

lemma selection_undo_redo_witness:
  "let s = selectNodes [''a'', ''b''] False selection_initial; t = run selection_exec s [SelectEdgeCall ''e'' False, SelectNodeCall ''c'' True] in
     current_selection (((\<lambda>s. fst (undoSelection s)) ^^ 2) t) = ([''a'', ''b''], []) \<and> current_selection t = ([''c''], [])"
proof -
  let ?s = "selectNodes [''a'', ''b''] False selection_initial" and ?cs = "[SelectEdgeCall ''e'' False, SelectNodeCall ''c'' True]"
  have "selection_inv ?s" by (rule recording_inv(2) [OF initial_selection])
  moreover have "se_history ?s \<noteq> []" "all_record ?s ?cs" "nat (se_historyIndex ?s) + length ?cs < 50"
    "current_selection ?s = ([''a'', ''b''], [])" "current_selection (run selection_exec ?s ?cs) = ([''c''], [])" by code_simp+
  ultimately show ?thesis using selection_undo_redo [of ?s ?cs] by (simp add: numeral_2_eq_2)
qed

end
