(* ===== verification/Clipboard_Manager.thy ===== *)
theory Clipboard_Manager
  imports Workflow_Utils
begin

text \<open>
  The clipboard of the canvas (frontend/src/stores/clipboard-manager.ts): copying actions with the connections among them, pasting them
  under new identifiers, the history and the clipboard of the system. Generated identifiers and times are arguments.
\<close>

section \<open>State\<close>

datatype clip_operation = CopyOp | CutOp

record ClipboardData =
  cb_actions :: "Action list"
  cb_connections :: Connections
  cb_timestamp :: millis
  cb_sourceWorkflowId :: "ident option"
  cb_operation :: clip_operation

text \<open>What the clipboard of the system holds: a text of this program, or any other.\<close>

datatype system_text = WorkflowText ClipboardData | OtherText

record ClipboardManager =
  cb_current :: "ClipboardData option"
  cb_history :: "(ident \<times> ClipboardData) list"
  cb_maxHistorySize :: nat
  cb_system :: system_text

definition clipboard_create :: "nat \<Rightarrow> system_text \<Rightarrow> ClipboardManager" where
  "clipboard_create maxHistorySize sys =
     \<lparr>cb_current = None, cb_history = [], cb_maxHistorySize = maxHistorySize, cb_system = sys\<rparr>"

record PasteOptions =
  po_offset :: "rat \<times> rat"
  po_position :: "(rat \<times> rat) option"
  po_generateNewIds :: bool
  po_preserveConnections :: bool

definition paste_defaults :: PasteOptions where
  "paste_defaults = \<lparr>po_offset = (50, 50), po_position = None, po_generateNewIds = True, po_preserveConnections = True\<rparr>"

record PasteResult =
  ps_actions :: "Action list"
  ps_connections :: Connections
  ps_idMap :: "(ident \<times> ident) list"

section \<open>Copying\<close>

text \<open>The outputs that stay, and whether any does.\<close>

definition kept_output :: "ident set \<Rightarrow> Connection list list option \<Rightarrow> Connection list list option" where
  "kept_output ids outputs =
     (case outputs of None \<Rightarrow> None
      | Some outs \<Rightarrow> let kept = map (filter (\<lambda>c. cn_action c \<in> ids)) outs in
          if list_ex (\<lambda>cs. cs \<noteq> []) kept then Some kept else None)"

definition kept_outputs :: "ident set \<Rightarrow> Outputs \<Rightarrow> Outputs" where
  "kept_outputs ids u =
     \<lparr>ou_main = kept_output ids (ou_main u), ou_error = kept_output ids (ou_error u),
      ou_success = kept_output ids (ou_success u), ou_parallel = kept_output ids (ou_parallel u)\<rparr>"

definition nothing_kept :: "Outputs \<Rightarrow> bool" where
  "nothing_kept u \<longleftrightarrow> ou_main u = None \<and> ou_error u = None \<and> ou_success u = None \<and> ou_parallel u = None"

definition filterConnections :: "Connections \<Rightarrow> ident list \<Rightarrow> Connections" where
  "filterConnections all actionIds =
     foldl (\<lambda>filtered i. case map_of all i of None \<Rightarrow> filtered
       | Some u \<Rightarrow> let kept = kept_outputs (set actionIds) u in
           if nothing_kept kept then filtered else obj_set i kept filtered) [] (uniq actionIds)"

definition addToHistory :: "ClipboardData \<Rightarrow> ident \<Rightarrow> ClipboardManager \<Rightarrow> ClipboardManager" where
  "addToHistory data entryId m =
     (let history = (entryId, data) # cb_history m in
      m\<lparr>cb_history := (if length history > cb_maxHistorySize m then take (cb_maxHistorySize m) history else history)\<rparr>)"

definition clip_data :: "clip_operation \<Rightarrow> Action list \<Rightarrow> Connections \<Rightarrow> millis \<Rightarrow> ClipboardData" where
  "clip_data how actions all now =
     \<lparr>cb_actions = actions, cb_connections = filterConnections all (map ac_id actions), cb_timestamp = now,
      cb_sourceWorkflowId = None, cb_operation = how\<rparr>"

definition clip_put :: "ClipboardData \<Rightarrow> ident \<Rightarrow> ClipboardManager \<Rightarrow> ClipboardManager" where
  "clip_put data entryId m = addToHistory data entryId (m\<lparr>cb_current := Some data, cb_system := WorkflowText data\<rparr>)"

definition clip_copy :: "Action list \<Rightarrow> Connections \<Rightarrow> millis \<Rightarrow> ident \<Rightarrow> ClipboardManager \<Rightarrow> ClipboardManager" where
  "clip_copy actions all now entryId m = clip_put (clip_data CopyOp actions all now) entryId m"

definition clip_cut :: "Action list \<Rightarrow> Connections \<Rightarrow> millis \<Rightarrow> ident \<Rightarrow> ClipboardManager \<Rightarrow> ClipboardManager" where
  "clip_cut actions all now entryId m = clip_put (clip_data CutOp actions all now) entryId m"

section \<open>Pasting\<close>

text \<open>
  A position moved; without one, reading it throws. Positions have two coordinates, as their type says: the case of fewer
  is left out with the same error.
\<close>

definition move_position :: "rat \<times> rat \<Rightarrow> rat list option \<Rightarrow> js_error + rat list" where
  "move_position d p =
     (case p of Some (x # y # _) \<Rightarrow> Inr [x + fst d, y + snd d] | _ \<Rightarrow> Inl TypeError)"

definition paste_offset :: "PasteOptions \<Rightarrow> Action list \<Rightarrow> js_error + (rat \<times> rat)" where
  "paste_offset po actions =
     (case (po_position po, actions) of
        (Some p, a # _) \<Rightarrow> (case ac_position a of Some (x # y # _) \<Rightarrow> Inr (fst p - x, snd p - y) | _ \<Rightarrow> Inl TypeError)
      | _ \<Rightarrow> Inr (po_offset po))"

fun paste_actions :: "rat \<times> rat \<Rightarrow> (Action \<times> ident) list \<Rightarrow> js_error + Action list" where
  "paste_actions d [] = Inr []"
| "paste_actions d ((a, i) # as) =
     ebind (move_position d (ac_position a)) (\<lambda>p.
     ebind (paste_actions d as) (\<lambda>rest. Inr (a\<lparr>ac_id := i, ac_position := Some p\<rparr> # rest)))"

definition updateConnectionIds :: "Connections \<Rightarrow> (ident \<Rightarrow> ident option) \<Rightarrow> Connections" where
  "updateConnectionIds cs idMap =
     foldl (\<lambda>updated (s, u). obj_set (clone_target idMap s) (clone_outputs idMap u) updated) [] cs"

definition clip_paste :: "PasteOptions \<Rightarrow> ident list \<Rightarrow> ClipboardManager \<Rightarrow> js_error + PasteResult option" where
  "clip_paste po generated m =
     (case cb_current m of
        None \<Rightarrow> Inr None
      | Some d \<Rightarrow>
          ebind (paste_offset po (cb_actions d)) (\<lambda>offset.
            let ids = (if po_generateNewIds po then generated else map ac_id (cb_actions d));
                idMap = foldl (\<lambda>m (a, i). map_set (ac_id a) i m) [] (zip (cb_actions d) ids) in
            ebind (paste_actions offset (zip (cb_actions d) ids)) (\<lambda>actions.
            Inr (Some \<lparr>ps_actions = actions,
              ps_connections = (if po_preserveConnections po then updateConnectionIds (cb_connections d) (map_of idMap) else []),
              ps_idMap = idMap\<rparr>))))"

text \<open>When pasting throws, the clipboard is not restored.\<close>

definition clip_duplicate ::
    "Action list \<Rightarrow> Connections \<Rightarrow> rat \<times> rat \<Rightarrow> millis \<Rightarrow> ident \<Rightarrow> ident list \<Rightarrow> ClipboardManager
      \<Rightarrow> (js_error + PasteResult option) \<times> ClipboardManager" where
  "clip_duplicate actions all offset now entryId generated m =
     (let copied = clip_copy actions all now entryId m;
          r = clip_paste (paste_defaults\<lparr>po_offset := offset\<rparr>) generated copied
      in (r, case r of Inl _ \<Rightarrow> copied | Inr _ \<Rightarrow> copied\<lparr>cb_current := cb_current m\<rparr>))"

section \<open>The rest\<close>

definition loadFromHistory :: "ident \<Rightarrow> ClipboardManager \<Rightarrow> ClipboardManager \<times> bool" where
  "loadFromHistory entryId m =
     (case map_of (cb_history m) entryId of None \<Rightarrow> (m, False) | Some d \<Rightarrow> (m\<lparr>cb_current := Some d\<rparr>, True))"

definition clip_clear :: "ClipboardManager \<Rightarrow> ClipboardManager" where
  "clip_clear m = m\<lparr>cb_current := None\<rparr>"

definition clearHistory :: "ClipboardManager \<Rightarrow> ClipboardManager" where
  "clearHistory m = m\<lparr>cb_history := []\<rparr>"

definition pasteFromSystemClipboard :: "ClipboardManager \<Rightarrow> ClipboardManager \<times> bool" where
  "pasteFromSystemClipboard m =
     (case cb_system m of OtherText \<Rightarrow> (m, False) | WorkflowText d \<Rightarrow> (m\<lparr>cb_current := Some d\<rparr>, True))"

definition hasData :: "ClipboardManager \<Rightarrow> bool" where
  "hasData m = (cb_current m \<noteq> None)"

definition getActionCount :: "ClipboardManager \<Rightarrow> nat" where
  "getActionCount m = (case cb_current m of None \<Rightarrow> 0 | Some d \<Rightarrow> length (cb_actions d))"

definition isCutOperation :: "ClipboardManager \<Rightarrow> bool" where
  "isCutOperation m = (case cb_current m of None \<Rightarrow> False | Some d \<Rightarrow> cb_operation d = CutOp)"

section \<open>The copied graph\<close>

text \<open>\<open>c\<close> is a connection from \<open>s\<close> in the output \<open>k\<close> of type \<open>t\<close>.\<close>

definition has_link :: "Connections \<Rightarrow> ident \<Rightarrow> ConnectionType \<Rightarrow> nat \<Rightarrow> Connection \<Rightarrow> bool" where
  "has_link cs s t k c \<longleftrightarrow>
     (case map_of cs s of None \<Rightarrow> False | Some u \<Rightarrow> k < length (output_of u t) \<and> c \<in> set (output_of u t ! k))"

lemma kept_list:
  "k < length (case kept_output ids outs of None \<Rightarrow> [] | Some o' \<Rightarrow> o')
      \<and> c \<in> set ((case kept_output ids outs of None \<Rightarrow> [] | Some o' \<Rightarrow> o') ! k)
     \<longleftrightarrow> k < length (case outs of None \<Rightarrow> [] | Some o' \<Rightarrow> o')
      \<and> c \<in> set ((case outs of None \<Rightarrow> [] | Some o' \<Rightarrow> o') ! k) \<and> cn_action c \<in> ids"
proof (cases outs)
  case (Some os)
  have "filter (\<lambda>c. cn_action c \<in> ids) (os ! k) \<noteq> []" if "c \<in> set (os ! k)" "cn_action c \<in> ids"
    using that by (auto simp: filter_empty_conv)
  then have "list_ex (\<lambda>cs. cs \<noteq> []) (map (filter (\<lambda>c. cn_action c \<in> ids)) os)"
    if "k < length os" "c \<in> set (os ! k)" "cn_action c \<in> ids"
    using that by (auto simp: list_ex_length)
  then show ?thesis using Some by (auto simp: kept_output_def Let_def)
qed (simp add: kept_output_def)

lemma kept_at:
  "k < length (output_of (kept_outputs ids u) t) \<and> c \<in> set (output_of (kept_outputs ids u) t ! k)
     \<longleftrightarrow> k < length (output_of u t) \<and> c \<in> set (output_of u t ! k) \<and> cn_action c \<in> ids"
  by (cases t) (simp_all add: kept_outputs_def kept_list)

definition kept_entry :: "Connections \<Rightarrow> ident set \<Rightarrow> ident \<Rightarrow> Outputs option" where
  "kept_entry all ids i =
     (case map_of all i of None \<Rightarrow> None
      | Some u \<Rightarrow> if nothing_kept (kept_outputs ids u) then None else Some (kept_outputs ids u))"

lemma filter_entries:
  "map_of (filterConnections all xs) i = (if i \<in> set xs then kept_entry all (set xs) i else None)"
  "distinct (map fst (filterConnections all xs))"
proof -
  let ?f = "\<lambda>filtered i. case map_of all i of None \<Rightarrow> filtered
       | Some u \<Rightarrow> let kept = kept_outputs (set xs) u in if nothing_kept kept then filtered else obj_set i kept filtered"
  have "map_of (foldl ?f [] ys) i = (if i \<in> set ys then kept_entry all (set xs) i else None) \<and> distinct (map fst (foldl ?f [] ys))" for ys
    by (induction ys rule: rev_induct) (auto simp: kept_entry_def Let_def distinct_obj_set split: option.split)
  from this [of "uniq xs"] show "map_of (filterConnections all xs) i = (if i \<in> set xs then kept_entry all (set xs) i else None)"
    "distinct (map fst (filterConnections all xs))" by (simp_all add: filterConnections_def)
qed

lemma linked_kept:
  "has_link (filterConnections all xs) s t k c \<longleftrightarrow> s \<in> set xs \<and> has_link all s t k c \<and> cn_action c \<in> set xs"
proof (cases "map_of all s")
  case (Some u)
  have "nothing_kept v \<Longrightarrow> output_of v t = []" for v by (cases t) (simp_all add: nothing_kept_def)
  then show ?thesis
    using kept_at [of k "set xs" u t c] Some by (auto simp: has_link_def filter_entries kept_entry_def)
qed (simp add: has_link_def filter_entries kept_entry_def)

lemma updated_entries:
  "inj_on (clone_target M) (fst ` set cs) \<Longrightarrow> distinct (map fst cs) \<Longrightarrow>
   map_of (updateConnectionIds cs M) s' = Some u' \<longleftrightarrow> (\<exists>s u. (s, u) \<in> set cs \<and> s' = clone_target M s \<and> u' = clone_outputs M u)"
proof (induction cs rule: rev_induct)
  case (snoc p cs)
  obtain s u where p: "p = (s, u)" by (cases p)
  have "s' \<noteq> clone_target M s" if "(r, v) \<in> set cs" "s' = clone_target M r" for r v
    using snoc.prems that p by (force simp: inj_on_def image_iff)
  moreover have "map_of (updateConnectionIds (cs @ [p]) M) s' =
      (if s' = clone_target M s then Some (clone_outputs M u) else map_of (updateConnectionIds cs M) s')"
    by (simp add: updateConnectionIds_def p)
  ultimately show ?case using snoc p by auto
qed (simp add: updateConnectionIds_def)

lemma linked_clone:
  "k < length (output_of (clone_outputs M u) t) \<and> c' \<in> set (output_of (clone_outputs M u) t ! k)
     \<longleftrightarrow> (\<exists>c. k < length (output_of u t) \<and> c \<in> set (output_of u t ! k) \<and> c' = clone_connection M c)"
  by (auto simp: clone_outputs_at)

lemma linked_get: "has_link cs s t k c \<longleftrightarrow> (\<exists>u. map_of cs s = Some u \<and> k < length (output_of u t) \<and> c \<in> set (output_of u t ! k))"
  by (simp add: has_link_def split: option.split)

lemma linked_updated:
  assumes "inj_on (clone_target M) (fst ` set cs)" and "distinct (map fst cs)"
  shows "has_link (updateConnectionIds cs M) s' t k c' \<longleftrightarrow>
    (\<exists>s c. s' = clone_target M s \<and> has_link cs s t k c \<and> c' = clone_connection M c)"
proof -
  have get: "map_of cs s = Some u \<longleftrightarrow> (s, u) \<in> set cs" for s u using assms(2) by simp
  have "has_link (updateConnectionIds cs M) s' t k c' \<longleftrightarrow> (\<exists>s u. (s, u) \<in> set cs \<and> s' = clone_target M s
      \<and> (k < length (output_of (clone_outputs M u) t) \<and> c' \<in> set (output_of (clone_outputs M u) t ! k)))"
    unfolding linked_get updated_entries [OF assms] by blast
  then show ?thesis unfolding linked_clone linked_get get by blast
qed

lemma idMap_zip:
  fixes as :: "Action list" and ids :: "ident list"
  assumes "distinct (map ac_id as)" and "length ids = length as"
  shows "map_of (foldl (\<lambda>m (a, i). map_set (ac_id a) i m) [] (zip as ids)) = map_of (zip (map ac_id as) ids)"
proof -
  have "map_of (foldl (\<lambda>m (a, i). map_set (ac_id a) i m) m xs) = foldl (\<lambda>m (a, i). m(ac_id a \<mapsto> i)) (map_of m) xs"
    for m and xs :: "(Action \<times> ident) list"
    by (induction xs arbitrary: m) (auto simp: map_of_map_set split: prod.split)
  from this [of "[]"] foldl_zip_map [OF assms, of Map.empty] show ?thesis by simp
qed

text \<open>Positions that are pairs, and new identifiers.\<close>

definition placed :: "Action list \<Rightarrow> bool" where
  "placed as \<longleftrightarrow> list_all (\<lambda>a. case ac_position a of Some [x, y] \<Rightarrow> True | _ \<Rightarrow> False) as"

definition moved :: "rat \<times> rat \<Rightarrow> Action \<Rightarrow> ident \<Rightarrow> Action" where
  "moved d a i = a\<lparr>ac_id := i, ac_position := map_option (\<lambda>p. [p ! 0 + fst d, p ! 1 + snd d]) (ac_position a)\<rparr>"

lemma paste_actions_placed:
  "placed as \<Longrightarrow> length ids = length as \<Longrightarrow> paste_actions d (zip as ids) = Inr (map2 (moved d) as ids)"
proof (induction as arbitrary: ids)
  case (Cons a as)
  then obtain i ids' where ids: "ids = i # ids'" by (cases ids) auto
  obtain x y where "ac_position a = Some [x, y]"
    using Cons.prems(1) by (auto simp: placed_def split: option.splits list.splits)
  then show ?case using Cons ids by (simp add: placed_def move_position_def moved_def)
qed simp

lemma target_nth:
  assumes "distinct (map ac_id as)" and "length ids = length as" and "[] \<notin> set ids" and "j < length as"
  shows "clone_target (map_of (zip (map ac_id as) ids)) (ac_id (as ! j)) = ids ! j"
proof -
  have "map_of (zip (map ac_id as) ids) (ac_id (as ! j)) = Some (ids ! j)"
    using map_of_zip_nth [of "map ac_id as" ids j] assms by simp
  moreover have "ids ! j \<noteq> []" using assms by (metis nth_mem)
  ultimately show ?thesis by (cases "ids ! j") (simp_all add: clone_target_def)
qed

text \<open>What pasting does to a clipboard that was filled by copying.\<close>

definition pasted_graph :: "Action list \<Rightarrow> Connections \<Rightarrow> ident list \<Rightarrow> Connections \<Rightarrow> bool" where
  "pasted_graph as all ids cs \<longleftrightarrow>
     (\<forall>s t k c. has_link cs s t k c \<longleftrightarrow> (\<exists>i j c0. i < length as \<and> j < length as \<and> s = ids ! i
        \<and> has_link all (ac_id (as ! i)) t k c0 \<and> cn_action c0 = ac_id (as ! j) \<and> c = c0\<lparr>cn_action := ids ! j\<rparr>))"

lemma pasted_link:
  "pasted_graph as all ids cs \<Longrightarrow> i < length as \<Longrightarrow> j < length as \<Longrightarrow> has_link all (ac_id (as ! i)) t k c \<Longrightarrow>
   cn_action c = ac_id (as ! j) \<Longrightarrow> has_link cs (ids ! i) t k (c\<lparr>cn_action := ids ! j\<rparr>)"
  unfolding pasted_graph_def by blast

lemma updated_graph:
  assumes d: "distinct (map ac_id as)" and ids: "distinct ids" "length ids = length as" "[] \<notin> set ids"
  shows "pasted_graph as all ids (updateConnectionIds (filterConnections all (map ac_id as)) (map_of (zip (map ac_id as) ids)))"
proof -
  let ?M = "map_of (zip (map ac_id as) ids)" and ?cs = "filterConnections all (map ac_id as)"
  note at = target_nth [OF d ids(2,3)]
  have keys: "fst ` set ?cs \<subseteq> ac_id ` set as"
  proof
    fix s assume "s \<in> fst ` set ?cs"
    then have "map_of ?cs s \<noteq> None" by (simp add: map_of_eq_None_iff)
    then show "s \<in> ac_id ` set as" by (simp add: filter_entries split: if_splits)
  qed
  have "inj_on (clone_target ?M) (ac_id ` set as)"
  proof (rule inj_onI)
    fix x y assume xy: "x \<in> ac_id ` set as" "y \<in> ac_id ` set as" and eq: "clone_target ?M x = clone_target ?M y"
    obtain i j where "i < length as" "x = ac_id (as ! i)" "j < length as" "y = ac_id (as ! j)"
      using xy by (auto simp: in_set_conv_nth)
    then show "x = y" using eq at distinct_nth_inj [OF ids(1), of i j] ids(2) by simp
  qed
  then have inj: "inj_on (clone_target ?M) (fst ` set ?cs)" using keys by (rule inj_on_subset)
  have "has_link (updateConnectionIds ?cs ?M) s t k c \<longleftrightarrow> (\<exists>i j c0. i < length as \<and> j < length as \<and> s = ids ! i
        \<and> has_link all (ac_id (as ! i)) t k c0 \<and> cn_action c0 = ac_id (as ! j) \<and> c = c0\<lparr>cn_action := ids ! j\<rparr>)" (is "?l \<longleftrightarrow> ?r") for s t k c
  proof -
    have "?l \<longleftrightarrow> (\<exists>s0 c0. s = clone_target ?M s0 \<and> s0 \<in> ac_id ` set as \<and> has_link all s0 t k c0
        \<and> cn_action c0 \<in> ac_id ` set as \<and> c = clone_connection ?M c0)"
      unfolding linked_updated [OF inj filter_entries(2)] linked_kept by auto
    also have "\<dots> \<longleftrightarrow> ?r"
    proof
      assume "\<exists>s0 c0. s = clone_target ?M s0 \<and> s0 \<in> ac_id ` set as \<and> has_link all s0 t k c0
        \<and> cn_action c0 \<in> ac_id ` set as \<and> c = clone_connection ?M c0"
      then obtain i j c0 where "i < length as" "s = clone_target ?M (ac_id (as ! i))" "has_link all (ac_id (as ! i)) t k c0"
        "j < length as" "cn_action c0 = ac_id (as ! j)" "c = clone_connection ?M c0" by (auto simp: in_set_conv_nth)
      then show ?r using at by (auto simp: clone_connection_def)
    next
      assume ?r
      then show "\<exists>s0 c0. s = clone_target ?M s0 \<and> s0 \<in> ac_id ` set as \<and> has_link all s0 t k c0
        \<and> cn_action c0 \<in> ac_id ` set as \<and> c = clone_connection ?M c0"
        using at by (metis clone_connection_def image_eqI nth_mem)
    qed
    finally show ?thesis .
  qed
  then show ?thesis by (simp add: pasted_graph_def)
qed

lemma paste_copied:
  assumes cur: "cb_current m = Some (clip_data how as all now)"
    and d: "distinct (map ac_id as)" and pos: "placed as" and ids: "distinct ids" "length ids = length as" "[] \<notin> set ids"
  shows "\<exists>r. clip_paste (paste_defaults\<lparr>po_offset := offset\<rparr>) ids m = Inr (Some r)
     \<and> ps_actions r = map2 (moved offset) as ids \<and> pasted_graph as all ids (ps_connections r)"
  using updated_graph [OF d ids, of all]
  by (simp add: clip_paste_def cur clip_data_def paste_defaults_def paste_offset_def Let_def paste_actions_placed pos ids(2)
      idMap_zip [OF d ids(2)])

section \<open>Properties\<close>

text \<open>
  C37: Take actions with distinct identifiers and positions of two coordinates, and generated identifiers that are distinct, not empty and one
  for each action. Pasting after copying the actions (or cutting them), with default options up to the offset, gives
  them in their order under the generated identifiers, moved by the offset, and among them the graph that was among the originals:
  a copy has a connection in an output, of a type and number, to another copy exactly if the originals have such a
  connection, with its other fields, and no connection leads to anything but a copy. Duplicating returns the same result, and what was the
  current clipboard is so again (the history and the clipboard of the system have changed).
\<close>

theorem paste_copies_graph:
  assumes "distinct (map ac_id as)" and "placed as" and "distinct ids" and "length ids = length as" and "[] \<notin> set ids"
  shows "\<exists>r. clip_paste (paste_defaults\<lparr>po_offset := offset\<rparr>) ids (clip_copy as all now entryId m) = Inr (Some r)
     \<and> clip_paste (paste_defaults\<lparr>po_offset := offset\<rparr>) ids (clip_cut as all now entryId m) = Inr (Some r)
     \<and> fst (clip_duplicate as all offset now entryId ids m) = Inr (Some r)
     \<and> cb_current (snd (clip_duplicate as all offset now entryId ids m)) = cb_current m
     \<and> ps_actions r = map2 (moved offset) as ids \<and> pasted_graph as all ids (ps_connections r)"
proof -
  have cur: "cb_current (clip_copy as all now entryId m) = Some (clip_data CopyOp as all now)"
    "cb_current (clip_cut as all now entryId m) = Some (clip_data CutOp as all now)"
    by (simp_all add: clip_copy_def clip_cut_def clip_put_def addToHistory_def Let_def)
  obtain r where r: "clip_paste (paste_defaults\<lparr>po_offset := offset\<rparr>) ids (clip_copy as all now entryId m) = Inr (Some r)"
    "ps_actions r = map2 (moved offset) as ids" "pasted_graph as all ids (ps_connections r)"
    using paste_copied [OF cur(1) assms] by blast
  moreover have "clip_paste po ids (clip_cut as all now entryId m) = clip_paste po ids (clip_copy as all now entryId m)" for po
    by (simp add: clip_paste_def cur clip_data_def Let_def)
  ultimately show ?thesis by (auto simp: clip_duplicate_def Let_def)
qed

lemma paste_copies_graph_witness:
  "\<exists>r. clip_paste (paste_defaults\<lparr>po_offset := (10, 20)\<rparr>) [''x'', ''y'']
       (clip_copy [(action_example ''a'')\<lparr>ac_position := Some [1, 2]\<rparr>, (action_example ''b'')\<lparr>ac_position := Some [3, 4]\<rparr>]
         [(''a'', main_to [''b'', ''c''])] 0 ''e'' (clipboard_create 10 OtherText)) = Inr (Some r)
     \<and> has_link (ps_connections r) ''x'' CMain 0 ((hd (hd (the (ou_main (main_to [''b'']))))) \<lparr>cn_action := ''y''\<rparr>)"
proof -
  let ?as = "[(action_example ''a'')\<lparr>ac_position := Some [1, 2]\<rparr>, (action_example ''b'')\<lparr>ac_position := Some [3, 4]\<rparr>]"
  let ?all = "[(''a'', main_to [''b'', ''c''])]" and ?c = "hd (hd (the (ou_main (main_to [''b'']))))"
  obtain r where r: "clip_paste (paste_defaults\<lparr>po_offset := (10, 20)\<rparr>) [''x'', ''y'']
       (clip_copy ?as ?all 0 ''e'' (clipboard_create 10 OtherText)) = Inr (Some r)" "pasted_graph ?as ?all [''x'', ''y''] (ps_connections r)"
    using paste_copies_graph [of ?as "[''x'', ''y'']" "(10, 20)" ?all 0 "''e''" "clipboard_create 10 OtherText"]
    by (auto simp: placed_def action_example_def)
  have "has_link ?all ''a'' CMain 0 ?c" "cn_action ?c = ''b''" by (simp_all add: has_link_def main_to_def)
  then have "has_link (ps_connections r) ''x'' CMain 0 (?c\<lparr>cn_action := ''y''\<rparr>)"
    using pasted_link [OF r(2), of 0 1 CMain 0 ?c] by (simp add: action_example_def)
  then show ?thesis using r(1) by blast
qed

end
