(* ===== verification/Pattern_Detector.thy ===== *)
theory Pattern_Detector
  imports Workflow_Utils
begin

text \<open>
  The IF and LOOP patterns of a graph workflow
  (frontend/src/lib/workflow-converter/pattern-detector.ts): the branches of an IF action, where they
  meet again, and the body of a LOOP action.
\<close>

section \<open>A branch\<close>

text \<open>
  \<open>extractBranchActions\<close>: the chain of actions from an identifier (\<open>None\<close> is \<open>null\<close>), with the visited
  identifiers. It ends at an unknown or visited identifier, at a control flow action and at a fork.
\<close>

definition control_flow :: "string list" where
  "control_flow = [''IF'', ''LOOP'', ''SWITCH'']"

lemma getActionById_mem: "getActionById w i = Some a \<Longrightarrow> a \<in> set (wf_actions w) \<and> ac_id a = i"
  by (auto simp: getActionById_def find_Some_iff)

lemma getActionById_None: "getActionById w i = None \<longleftrightarrow> i \<notin> ac_id ` set (wf_actions w)"
  by (auto simp: getActionById_def find_None_iff)

function branch_from :: "Workflow \<Rightarrow> ident list \<Rightarrow> ident option \<Rightarrow> Action list" where
  "branch_from w visited currentId =
     (case currentId of
        None \<Rightarrow> []
      | Some i \<Rightarrow>
          if i = [] \<or> i \<in> set visited then []
          else case getActionById w i of
                 None \<Rightarrow> []
               | Some action \<Rightarrow>
                   action #
                   (if ac_type action \<in> set control_flow then []
                    else case getNextActions w i None of
                           [] \<Rightarrow> []
                         | [next] \<Rightarrow> branch_from w (i # visited) (Some next)
                         | _ \<Rightarrow> []))"
  by auto
termination
proof (relation "measure (\<lambda>(w, visited, _). card (ac_id ` set (wf_actions w) - set visited))")
  fix w :: Workflow and visited :: "ident list" and i :: ident and action :: Action
  let ?A = "ac_id ` set (wf_actions w)"
  assume "\<not> (i = [] \<or> i \<in> set visited)" and "getActionById w i = Some action"
  then have "card (?A - set visited - {i}) < card (?A - set visited)"
    using getActionById_mem [of w i action] by (intro card_Diff1_less) auto
  moreover have "?A - set visited - {i} = ?A - set (i # visited)" by auto
  ultimately show "((w, i # visited, Some n), w, visited, c)
      \<in> measure (\<lambda>(w, visited, _). card (ac_id ` set (wf_actions w) - set visited))" for n c
    by simp
qed simp

declare branch_from.simps [simp del]

definition extractBranchActions :: "Workflow \<Rightarrow> ident option \<Rightarrow> Action list" where
  "extractBranchActions w startActionId = branch_from w [] startActionId"

section \<open>Traversals\<close>

text \<open>
  The two recursive traversals of the class: \<open>touch\<close> is what is done whenever an identifier is met,
  \<open>enter\<close> what is done when it was not visited before. The fuel bounds the depth.
\<close>

fun traverse ::
    "('v \<Rightarrow> 'v list) \<Rightarrow> ('v \<Rightarrow> 's \<Rightarrow> 's) \<Rightarrow> ('v \<Rightarrow> 's \<Rightarrow> 's) \<Rightarrow> nat \<Rightarrow> 'v list \<Rightarrow> 's \<Rightarrow> 'v list
      \<Rightarrow> ('v list \<times> 's) option" where
  "traverse succ touch enter fuel visited s [] = Some (visited, s)"
| "traverse succ touch enter fuel visited s (x # xs) =
     (if x \<in> set visited then traverse succ touch enter fuel visited (touch x s) xs
      else case fuel of
        0 \<Rightarrow> None
      | Suc n \<Rightarrow>
          (case traverse succ touch enter n (x # visited) (enter x (touch x s)) (succ x) of
             None \<Rightarrow> None
           | Some (visited', s') \<Rightarrow> traverse succ touch enter fuel visited' s' xs))"

text \<open>\<open>downstream.add(nextId)\<close>: a set in the order of insertion.\<close>

definition set_add :: "'a \<Rightarrow> 'a list \<Rightarrow> 'a list" where
  "set_add x xs = (if x \<in> set xs then xs else xs @ [x])"

text \<open>\<open>actions.forEach((action) => traverse(action.id))\<close>: the roots themselves are not added.\<close>

fun downstream_of :: "Workflow \<Rightarrow> ident list \<Rightarrow> ident list \<Rightarrow> ident list \<Rightarrow> ident list option" where
  "downstream_of w visited downstream [] = Some downstream"
| "downstream_of w visited downstream (i # is) =
     (if i \<in> set visited then downstream_of w visited downstream is
      else case traverse (succs w) set_add (\<lambda>_ s. s) (graph_fuel w) (i # visited) downstream (succs w i) of
             None \<Rightarrow> None
           | Some (visited', downstream') \<Rightarrow> downstream_of w visited' downstream' is)"

definition getAllDownstreamActions :: "Workflow \<Rightarrow> Action list \<Rightarrow> ident list" where
  "getAllDownstreamActions w actions =
     (case downstream_of w [] [] (map ac_id actions) of None \<Rightarrow> [] | Some d \<Rightarrow> d)"

definition findConvergencePoint :: "Workflow \<Rightarrow> Action list \<Rightarrow> Action list \<Rightarrow> Action option" where
  "findConvergencePoint w branch1 branch2 =
     (let downstream1 = getAllDownstreamActions w branch1;
          downstream2 = getAllDownstreamActions w branch2
      in case find (\<lambda>i. i \<in> set downstream2) downstream1 of
           None \<Rightarrow> None
         | Some i \<Rightarrow> getActionById w i)"

text \<open>
  \<open>extractLoopBodyActions\<close>: an unknown identifier is visited and not followed, the LOOP action itself
  is neither entered nor followed.
\<close>

definition body_succs :: "Workflow \<Rightarrow> ident \<Rightarrow> ident \<Rightarrow> ident list" where
  "body_succs w loopId i =
     (case getActionById w i of None \<Rightarrow> [] | Some _ \<Rightarrow> filter (\<lambda>n. n \<noteq> loopId) (getNextActions w i None))"

definition push_action :: "Workflow \<Rightarrow> ident \<Rightarrow> Action list \<Rightarrow> Action list" where
  "push_action w i body = (case getActionById w i of None \<Rightarrow> body | Some a \<Rightarrow> body @ [a])"

definition extractLoopBodyActions :: "Workflow \<Rightarrow> ident \<Rightarrow> ident \<Rightarrow> Action list" where
  "extractLoopBodyActions w loopId firstId =
     (if firstId = loopId then []
      else case traverse (body_succs w loopId) (\<lambda>_ s. s) (push_action w) (graph_fuel w) [] [] [firstId] of
             None \<Rightarrow> [] | Some (_, body) \<Rightarrow> body)"

section \<open>The patterns\<close>

record IfPattern =
  ip_ifAction :: Action
  ip_thenBranch :: "Action list"
  ip_elseBranch :: "Action list"
  ip_convergenceAction :: "Action option"

record LoopPattern =
  lp_loopAction :: Action
  lp_bodyActions :: "Action list"
  lp_nextAction :: "Action option"

text \<open>\<open>out && out.length > 0 && out[0] ? out[0].action : null\<close>\<close>

fun first_target :: "Connection list \<Rightarrow> ident option" where
  "first_target [] = None"
| "first_target (c # cs) = Some (cn_action c)"

definition detectIfPattern :: "Workflow \<Rightarrow> Action \<Rightarrow> IfPattern option" where
  "detectIfPattern w ifAction =
     (if ac_type ifAction \<noteq> ''IF'' then None
      else case Option.bind (getActionConnections w (ac_id ifAction)) ou_main of
             Some [trueBranch, falseBranch] \<Rightarrow>
               (let thenBranch = extractBranchActions w (first_target trueBranch);
                    elseBranch = extractBranchActions w (first_target falseBranch)
                in Some \<lparr>ip_ifAction = ifAction, ip_thenBranch = thenBranch, ip_elseBranch = elseBranch,
                        ip_convergenceAction = findConvergencePoint w thenBranch elseBranch\<rparr>)
           | _ \<Rightarrow> None)"

definition findLoopExitAction :: "Workflow \<Rightarrow> ident \<Rightarrow> Action option" where
  "findLoopExitAction w loopActionId =
     (case Option.bind (getActionConnections w loopActionId) ou_main of
        Some (_ # (exitConn # _) # _) \<Rightarrow> getActionById w (cn_action exitConn)
      | _ \<Rightarrow> None)"

definition detectLoopPattern :: "Workflow \<Rightarrow> Action \<Rightarrow> LoopPattern option" where
  "detectLoopPattern w loopAction =
     (if ac_type loopAction \<noteq> ''LOOP'' then None
      else case Option.bind (getActionConnections w (ac_id loopAction)) ou_main of
             Some ((firstConn # _) # _) \<Rightarrow>
               (if cn_action firstConn = [] then None
                else Some \<lparr>lp_loopAction = loopAction,
                       lp_bodyActions = extractLoopBodyActions w (ac_id loopAction) (cn_action firstConn),
                       lp_nextAction = findLoopExitAction w (ac_id loopAction)\<rparr>)
           | _ \<Rightarrow> None)"

definition detectAllIfPatterns :: "Workflow \<Rightarrow> ident \<Rightarrow> IfPattern option" where
  "detectAllIfPatterns w =
     foldl (\<lambda>patterns a. case detectIfPattern w a of None \<Rightarrow> patterns | Some p \<Rightarrow> patterns(ac_id a \<mapsto> p))
       Map.empty (filter (\<lambda>a. ac_type a = ''IF'') (wf_actions w))"

definition detectAllLoopPatterns :: "Workflow \<Rightarrow> ident \<Rightarrow> LoopPattern option" where
  "detectAllLoopPatterns w =
     foldl (\<lambda>patterns a. case detectLoopPattern w a of None \<Rightarrow> patterns | Some p \<Rightarrow> patterns(ac_id a \<mapsto> p))
       Map.empty (filter (\<lambda>a. ac_type a = ''LOOP'') (wf_actions w))"

section \<open>What a traversal visits\<close>

context finite_graph
begin

lemma traverse_ConsE:
  assumes "traverse succ touch enter fuel vs s (x # xs) = Some r"
  obtains (seen) "x \<in> set vs" "traverse succ touch enter fuel vs (touch x s) xs = Some r"
  | (new) n vs' s' where "fuel = Suc n" "x \<notin> set vs"
      "traverse succ touch enter n (x # vs) (enter x (touch x s)) (succ x) = Some (vs', s')"
      "traverse succ touch enter fuel vs' s' xs = Some r"
  using assms that by (auto split: if_splits nat.splits option.splits prod.splits)

text \<open>A rule for traversals that return: what holds of the parts holds of the whole.\<close>

lemma traverse_induct [consumes 1, case_names Nil seen new]:
  assumes "traverse succ touch enter fuel vs s xs = Some (vs', s')"
    and "\<And>vs s. P vs s [] vs s"
    and "\<And>vs s x xs vs' s'. x \<in> set vs \<Longrightarrow> P vs (touch x s) xs vs' s' \<Longrightarrow> P vs s (x # xs) vs' s'"
    and "\<And>vs s x xs ws t vs' s'. x \<notin> set vs \<Longrightarrow> P (x # vs) (enter x (touch x s)) (succ x) ws t
      \<Longrightarrow> P ws t xs vs' s' \<Longrightarrow> P vs s (x # xs) vs' s'"
  shows "P vs s xs vs' s'"
  using assms(1)
proof (induction fuel arbitrary: vs s xs vs' s')
  case 0
  then show ?case
    by (induction xs arbitrary: s) (auto elim!: traverse_ConsE intro: assms(2,3) simp del: traverse.simps(2))
next
  case (Suc n)
  note depth = Suc.IH
  from Suc.prems show ?case
  proof (induction xs arbitrary: vs s)
    case (Cons x xs)
    from Cons.prems show ?case
    proof (cases rule: traverse_ConsE)
      case seen
      then show ?thesis using Cons.IH assms(3) by blast
    next
      case (new m ws t)
      then show ?thesis using Cons.IH [OF new(4)] depth [of "x # vs"] assms(4) [OF new(2)] by blast
    qed
  qed (auto intro: assms(2))
qed

lemma traverse_visited: "traverse succ touch enter fuel vs s xs = Some (vs', s') \<Longrightarrow> set vs \<subseteq> set vs'"
  by (induction rule: traverse_induct) auto

lemma traverse_returns:
  "set xs \<subseteq> set nodes \<Longrightarrow> card (set nodes - set vs) < fuel
     \<Longrightarrow> traverse succ touch enter fuel vs s xs \<noteq> None"
proof (induction fuel arbitrary: vs s xs)
  case 0
  then show ?case by simp
next
  case (Suc n)
  note depth = Suc.IH
  from Suc.prems show ?case
  proof (induction xs arbitrary: vs s)
    case (Cons x xs)
    show ?case
    proof (cases "x \<in> set vs")
      case False
      then have "card (set nodes - set (x # vs)) < n"
        using Cons.prems unvisited_less [of x vs n] by simp
      then obtain ws t where r:
          "traverse succ touch enter n (x # vs) (enter x (touch x s)) (succ x) = Some (ws, t)"
        using depth [OF succ_nodes] by fastforce
      have "card (set nodes - set ws) < Suc n"
        using unvisited_mono [of vs ws] traverse_visited [OF r] Cons.prems(2) by simp
      then show ?thesis using False r Cons by auto
    qed (use Cons in auto)
  qed simp
qed

text \<open>The visited nodes are closed under successors, and nothing else is visited.\<close>

lemma traverse_closed:
  "traverse succ touch enter fuel vs s xs = Some (vs', s') \<Longrightarrow>
     set vs \<subseteq> set vs' \<and> set xs \<subseteq> set vs' \<and> (\<forall>x \<in> set vs' - set vs. set (succ x) \<subseteq> set vs')
     \<and> set vs' \<subseteq> set vs \<union> (edges succ)\<^sup>* `` set xs"
proof (induction rule: traverse_induct)
  case (new vs s x xs ws t vs' s')
  let ?R = "(edges succ)\<^sup>*"
  have "(x, y) \<in> ?R" if "z \<in> set (succ x)" "(z, y) \<in> ?R" for y z
    using that by (meson converse_rtrancl_into_rtrancl edges_iff)
  then have reach: "?R `` set (succ x) \<subseteq> ?R `` set (x # xs)" "?R `` set xs \<subseteq> ?R `` set (x # xs)"
    "x \<in> ?R `` set (x # xs)" by auto
  have nested: "set (x # vs) \<subseteq> set ws" "set (succ x) \<subseteq> set ws"
      "\<forall>y \<in> set ws - set (x # vs). set (succ y) \<subseteq> set ws" "set ws \<subseteq> set (x # vs) \<union> ?R `` set (succ x)"
    using new(2) by simp_all
  have rest: "set ws \<subseteq> set vs'" "set xs \<subseteq> set vs'" "\<forall>y \<in> set vs' - set ws. set (succ y) \<subseteq> set vs'"
      "set vs' \<subseteq> set ws \<union> ?R `` set xs"
    using new(3) by simp_all
  have "set (succ y) \<subseteq> set vs'" if "y \<in> set vs' - set vs" for y
    using that nested(2,3) rest(1,3) by (cases "y = x"; cases "y \<in> set ws") auto
  moreover have "set vs' \<subseteq> set vs \<union> ?R `` set (x # xs)"
  proof -
    have "V \<subseteq> C \<union> R" if "V \<subseteq> W \<union> B" "W \<subseteq> insert x C \<union> A" "A \<subseteq> R" "B \<subseteq> R" "x \<in> R"
      for V C R W B A :: "'v set"
      using that by blast
    from this [OF rest(4) _ reach] nested(4) show ?thesis by (simp only: list.set)
  qed
  moreover have "set vs \<subseteq> set vs'" "set (x # xs) \<subseteq> set vs'" using nested(1) rest(1,2) by auto
  ultimately show ?case by blast
qed auto

text \<open>What a traversal collects when it enters a node, and when it meets one.\<close>

lemma traverse_enter:
  assumes "\<And>x s. E (touch x s) = E s" and "\<And>x s. E (enter x s) = E s \<union> F x"
  shows "traverse succ touch enter fuel vs s xs = Some (vs', s')
    \<Longrightarrow> set vs \<subseteq> set vs' \<and> E s' = E s \<union> \<Union> (F ` (set vs' - set vs))"
proof (induction rule: traverse_induct)
  case (new vs s x xs ws t vs' s')
  then have "set vs' - set vs = insert x ((set ws - set (x # vs)) \<union> (set vs' - set ws))" by auto
  moreover have "set vs \<subseteq> set vs'" using new(2,3) by auto
  ultimately show ?case using new(2,3) by (simp add: assms Un_ac)
qed (use assms in auto)

lemma traverse_touch:
  assumes "\<And>x s. T (touch x s) = insert x (T s)" and "\<And>x s. T (enter x s) = T s"
  shows "traverse succ touch enter fuel vs s xs = Some (vs', s')
    \<Longrightarrow> set vs \<subseteq> set vs' \<and> T s' = T s \<union> set xs \<union> \<Union> ((\<lambda>x. set (succ x)) ` (set vs' - set vs))"
proof (induction rule: traverse_induct)
  case (new vs s x xs ws t vs' s')
  then have "set vs' - set vs = insert x ((set ws - set (x # vs)) \<union> (set vs' - set ws))" by auto
  moreover have "set vs \<subseteq> set vs'" using new(2,3) by auto
  ultimately show ?case using new(2,3) by (simp add: assms Un_ac)
qed (use assms in auto)

lemma closed_reach:
  assumes "\<forall>x \<in> V. set (succ x) \<subseteq> V \<inter> D" and "i \<in> V" and "(i, y) \<in> (edges succ)\<^sup>+"
  shows "y \<in> D"
proof -
  from assms(3) have "y \<in> V \<inter> D" by (induction rule: trancl_induct) (use assms(1,2) in auto)
  then show ?thesis by simp
qed

end

section \<open>The patterns in terms of the graph\<close>

abbreviation steps_to :: "Workflow \<Rightarrow> (ident \<times> ident) set" where
  "steps_to w \<equiv> edges (succs w)"

lemma main_target:
  assumes "map_of (wf_connections w) i = Some u" and "ou_main u = Some outs" and "out \<in> set outs"
    and "c \<in> set out"
  shows "cn_action c \<in> set (succs w i)"
proof -
  have "c \<in> set (concat (concat (map (output_of u) all_types)))"
    using assms by (auto simp: all_types_def)
  then show ?thesis using assms(1) by (auto simp: succs_iff targets_of_def simp del: set_concat)
qed

lemma fuel_enough: "card (set (graph_nodes w) - X) < graph_fuel w"
  using card_mono [of "set (graph_nodes w)" "set (graph_nodes w) - X"] card_length [of "graph_nodes w"]
  by (simp add: graph_fuel_def)

lemma set_set_add [simp]: "set (set_add x xs) = insert x (set xs)"
  by (auto simp: set_add_def)

lemma downstream_of_reach:
  "\<forall>x \<in> set vs. set (succs w x) \<subseteq> set vs \<inter> set d \<Longrightarrow>
     \<exists>d'. downstream_of w vs d is = Some d' \<and> set d' = set d \<union> (steps_to w)\<^sup>+ `` set is"
proof (induction "is" arbitrary: vs d)
  case (Cons i "is")
  have image: "(steps_to w)\<^sup>+ `` set (i # is) = (steps_to w)\<^sup>+ `` {i} \<union> (steps_to w)\<^sup>+ `` set is"
    by auto
  show ?case
  proof (cases "i \<in> set vs")
    case True
    then have "(steps_to w)\<^sup>+ `` {i} \<subseteq> set d" using wg.closed_reach [OF Cons.prems] by auto
    with True Cons.IH [OF Cons.prems] show ?thesis unfolding image by (simp add: Un_absorb2 sup_assoc [symmetric])
  next
    case False
    have "traverse (succs w) set_add (\<lambda>_ s. s) (graph_fuel w) (i # vs) d (succs w i) \<noteq> None"
      by (rule wg.traverse_returns [OF wg.succ_nodes fuel_enough])
    then obtain ws e where r:
        "traverse (succs w) set_add (\<lambda>_ s. s) (graph_fuel w) (i # vs) d (succs w i) = Some (ws, e)"
      by auto
    have e: "set e = set d \<union> set (succs w i) \<union> \<Union> ((\<lambda>x. set (succs w x)) ` (set ws - set (i # vs)))"
      using wg.traverse_touch [where T = set, OF set_set_add _ r] by simp
    note c = wg.traverse_closed [OF r]
    have closed: "\<forall>x \<in> set ws. set (succs w x) \<subseteq> set ws \<inter> set e"
    proof
      fix x assume "x \<in> set ws"
      then consider "x \<in> set vs" | "x = i" | "x \<in> set ws - set (i # vs)" by auto
      then show "set (succs w x) \<subseteq> set ws \<inter> set e"
      proof cases
        case 1
        with Cons.prems have "set (succs w x) \<subseteq> set vs" "set (succs w x) \<subseteq> set d" by auto
        with c e show ?thesis by auto
      qed (use c e in auto)
    qed
    have "(steps_to w)\<^sup>+ `` {i} \<subseteq> set e"
      using wg.closed_reach [OF closed, of i] c by auto
    moreover have "set e \<subseteq> set d \<union> (steps_to w)\<^sup>+ `` {i}"
    proof -
      have "(i, y) \<in> (steps_to w)\<^sup>+" if x: "x \<in> set ws - set (i # vs)" and y: "y \<in> set (succs w x)" for x y
      proof -
        obtain z where "z \<in> set (succs w i)" "(z, x) \<in> (steps_to w)\<^sup>*" using c x by blast
        with y show ?thesis by (meson edges_iff rtrancl_into_trancl1 rtrancl_into_trancl2 trancl_into_rtrancl)
      qed
      then show ?thesis by (auto simp: e)
    qed
    moreover have "set d \<subseteq> set e" by (auto simp: e)
    ultimately have "set e = set d \<union> (steps_to w)\<^sup>+ `` {i}" by blast
    then show ?thesis
      using Cons.IH [OF closed] False r unfolding image by (simp add: sup_assoc)
  qed
qed simp

lemma downstream_reach:
  "set (getAllDownstreamActions w as) = (steps_to w)\<^sup>+ `` ac_id ` set as"
  using downstream_of_reach [of "[]" w "[]" "map ac_id as"]
  by (clarsimp simp: getAllDownstreamActions_def)

interpretation wb: finite_graph "body_succs w l" "graph_nodes w" for w l
proof
  fix a
  show "set (body_succs w l a) \<subseteq> set (graph_nodes w)"
    using wg.succ_nodes [of w a] by (auto simp: body_succs_def succs_def split: option.splits)
qed

lemma body_distinct:
  assumes "traverse succ (\<lambda>_ s. s) (push_action w) fuel vs body xs = Some (vs', body')"
    and "set (map ac_id body) \<subseteq> set vs" and "distinct (map ac_id body)"
    and "finite_graph succ nodes"
  shows "set (map ac_id body') \<subseteq> set vs' \<and> distinct (map ac_id body')"
  using assms(1-3)
proof (induction rule: finite_graph.traverse_induct [OF assms(4), consumes 1, case_names Nil seen new])
  case (new vs s x xs ws t vs' s')
  have "set (map ac_id (push_action w x s)) \<subseteq> set (x # vs)" "distinct (map ac_id (push_action w x s))"
    using new(1,4,5) getActionById_mem [of w x] by (auto simp: push_action_def split: option.splits)
  then show ?case using new(2,3) by blast
qed auto

lemma loop_body:
  assumes "firstId \<in> set (graph_nodes w)" and "firstId \<noteq> l"
  shows "set (extractLoopBodyActions w l firstId)
      = {a. \<exists>i. (firstId, i) \<in> (edges (body_succs w l))\<^sup>* \<and> getActionById w i = Some a}
    \<and> distinct (map ac_id (extractLoopBodyActions w l firstId))"
proof -
  have "traverse (body_succs w l) (\<lambda>_ s. s) (push_action w) (graph_fuel w) [] [] [firstId] \<noteq> None"
    by (rule wb.traverse_returns [OF _ fuel_enough]) (use assms(1) in simp)
  then obtain vs body where r: "traverse (body_succs w l) (\<lambda>_ s. s) (push_action w) (graph_fuel w) [] []
      [firstId] = Some (vs, body)"
    by auto
  have "set body = \<Union> ((\<lambda>x. set_option (getActionById w x)) ` set vs)"
    using wb.traverse_enter [OF _ _ r, of set "\<lambda>x. set_option (getActionById w x)"]
    by (auto simp: push_action_def split: option.splits)
  moreover have "set vs = (edges (body_succs w l))\<^sup>* `` {firstId}"
  proof -
    have c: "firstId \<in> set vs" "\<forall>x \<in> set vs. set (body_succs w l x) \<subseteq> set vs"
      "set vs \<subseteq> (edges (body_succs w l))\<^sup>* `` {firstId}"
      using wb.traverse_closed [OF r] by auto
    have "y \<in> set vs" if "(firstId, y) \<in> (edges (body_succs w l))\<^sup>*" for y
      using that by (induction rule: rtrancl_induct) (use c in auto)
    with c(3) show ?thesis by auto
  qed
  moreover have "distinct (map ac_id body)"
    using body_distinct [OF r _ _ wb.finite_graph_axioms] by simp
  ultimately show ?thesis
    using r assms(2) by (auto simp: extractLoopBodyActions_def)
qed

lemma branch_memE:
  assumes "a \<in> set (branch_from w vs (Some i))"
  obtains "getActionById w i = Some a"
    | n b where "i \<noteq> []" "i \<notin> set vs" "getActionById w i = Some b" "ac_type b \<notin> set control_flow"
        "getNextActions w i None = [n]" "a \<in> set (branch_from w (i # vs) (Some n))"
proof (cases "getActionById w i")
  case None
  with assms show thesis by (simp add: branch_from.simps [of w vs "Some i"] split: if_splits)
next
  case (Some b)
  with assms that show thesis
    unfolding branch_from.simps [of w vs "Some i"]
    by (cases "getNextActions w i None" rule: remdups_adj.cases) (auto split: if_splits)
qed

lemma branch_reach:
  "a \<in> set (branch_from w vs (Some i)) \<Longrightarrow> (i, ac_id a) \<in> (steps_to w)\<^sup>*"
proof (induction w vs "Some i" arbitrary: i rule: branch_from.induct)
  case (1 w vs)
  from 1(2) show ?case
  proof (cases rule: branch_memE)
    case (2 n b)
    then have "(i, n) \<in> steps_to w" by (simp add: succs_def)
    moreover have "(n, ac_id a) \<in> (steps_to w)\<^sup>*" using 1(1) 2 by simp
    ultimately show ?thesis by (rule converse_rtrancl_into_rtrancl)
  qed (auto dest: getActionById_mem)
qed

lemma branch_hd:
  "branch_from w vs (Some i) \<noteq> [] \<longleftrightarrow> i \<noteq> [] \<and> i \<notin> set vs \<and> getActionById w i \<noteq> None"
  "branch_from w vs (Some i) \<noteq> [] \<Longrightarrow> getActionById w i = Some (hd (branch_from w vs (Some i)))"
  by (auto simp: branch_from.simps [of w vs "Some i"] split: option.splits)

lemma branch_fresh: "a \<in> set (branch_from w vs (Some i)) \<Longrightarrow> ac_id a \<notin> set vs"
proof (induction w vs "Some i" arbitrary: i rule: branch_from.induct)
  case (1 w vs)
  then have "i \<notin> set vs" by (auto simp: branch_from.simps [of w vs "Some i"] split: if_splits)
  from 1(2) show ?case
    by (cases rule: branch_memE) (use 1 \<open>i \<notin> set vs\<close> in \<open>auto dest: getActionById_mem\<close>)
qed

text \<open>An action and the one that a chain goes on with.\<close>

definition chain_step :: "Workflow \<Rightarrow> Action \<Rightarrow> Action \<Rightarrow> bool" where
  "chain_step w a b \<longleftrightarrow> ac_type a \<notin> set control_flow \<and> getNextActions w (ac_id a) None = [ac_id b]"

lemma branch_chain:
  "successively (chain_step w) (branch_from w vs (Some i)) \<and> distinct (map ac_id (branch_from w vs (Some i)))"
proof (induction w vs "Some i" arbitrary: i rule: branch_from.induct)
  case (1 w vs)
  show ?case
  proof (cases "\<exists>b n. i \<noteq> [] \<and> i \<notin> set vs \<and> getActionById w i = Some b \<and> ac_type b \<notin> set control_flow
      \<and> getNextActions w i None = [n]")
    case True
    then obtain b n where b: "i \<noteq> []" "i \<notin> set vs" "getActionById w i = Some b"
      "ac_type b \<notin> set control_flow" "getNextActions w i None = [n]" by blast
    let ?rest = "branch_from w (i # vs) (Some n)"
    have eq: "branch_from w vs (Some i) = b # ?rest"
      using b by (simp add: branch_from.simps [of w vs "Some i"])
    have id: "ac_id b = i" using getActionById_mem [OF b(3)] by simp
    have "chain_step w b (hd ?rest)" if "?rest \<noteq> []"
      using getActionById_mem [OF branch_hd(2) [OF that]] b id by (simp add: chain_step_def)
    moreover have "i \<notin> ac_id ` set ?rest" using branch_fresh [of _ w "i # vs" n] by auto
    moreover have "successively (chain_step w) ?rest \<and> distinct (map ac_id ?rest)"
      using 1 b by blast
    ultimately show ?thesis by (cases ?rest) (auto simp: eq id)
  next
    case False
    then have "length (branch_from w vs (Some i)) \<le> 1"
      by (cases "getNextActions w i None" rule: remdups_adj.cases)
        (auto simp: branch_from.simps [of w vs "Some i"] split: option.splits)
    then show ?thesis
      by (cases "branch_from w vs (Some i)") auto
  qed
qed

section \<open>Properties\<close>

text \<open>
  The extraction of a branch ends on every workflow, cyclic ones included, and gives a chain of
  distinct actions that begins at the given one: every action but the last is no control flow action
  and its only successor is the next one.
\<close>

theorem branch_is_chain:
  assumes "extractBranchActions w (Some i) = b"
  shows "successively (\<lambda>x y. ac_type x \<notin> {''IF'', ''LOOP'', ''SWITCH''}
        \<and> getNextActions w (ac_id x) None = [ac_id y]) b
    \<and> distinct (map ac_id b) \<and> set b \<subseteq> set (wf_actions w)
    \<and> (b = [] \<longleftrightarrow> i = [] \<or> getActionById w i = None) \<and> (b \<noteq> [] \<longrightarrow> getActionById w i = Some (hd b))"
proof -
  have "chain_step w = (\<lambda>x y. ac_type x \<notin> {''IF'', ''LOOP'', ''SWITCH''}
      \<and> getNextActions w (ac_id x) None = [ac_id y])"
    by (simp add: fun_eq_iff chain_step_def control_flow_def)
  moreover have "a \<in> set (wf_actions w)" if "a \<in> set (branch_from w vs (Some j))" for a vs j
    using that
  proof (induction w vs "Some j" arbitrary: j rule: branch_from.induct)
    case (1 w vs)
    from 1(2) show ?case by (cases rule: branch_memE) (use 1(1) in \<open>auto dest: getActionById_mem\<close>)
  qed
  ultimately show ?thesis
    using branch_chain [of w "[]" i] branch_hd [of w "[]" i] assms
    by (auto simp: extractBranchActions_def)
qed

text \<open>
  the two branches of an IF action converge, according to \<open>findConvergencePoint\<close>, exactly when some
  identifier can be reached from both by at least one step, in every workflow whose connections lead
  to actions; the action it answers is one of those.
\<close>

theorem convergence_exact:
  assumes "set (all_targets w) \<subseteq> ac_id ` set (wf_actions w)"
  shows "(findConvergencePoint w b1 b2 = None
      \<longleftrightarrow> {(x, y). y \<in> set (getNextActions w x None)}\<^sup>+ `` ac_id ` set b1
        \<inter> {(x, y). y \<in> set (getNextActions w x None)}\<^sup>+ `` ac_id ` set b2 = {})
    \<and> (\<forall>a. findConvergencePoint w b1 b2 = Some a \<longrightarrow>
        ac_id a \<in> {(x, y). y \<in> set (getNextActions w x None)}\<^sup>+ `` ac_id ` set b1
        \<inter> {(x, y). y \<in> set (getNextActions w x None)}\<^sup>+ `` ac_id ` set b2)"
proof -
  let ?E = "steps_to w"
  have E: "{(x, y). y \<in> set (getNextActions w x None)} = ?E" by (simp add: edges_def succs_def)
  have act: "getActionById w i \<noteq> None" if "i \<in> ?E\<^sup>+ `` X" for i X
  proof -
    from that obtain x where "i \<in> set (succs w x)" by (auto dest: tranclD2)
    then show ?thesis using succs_targets [of w x] assms unfolding getActionById_None by blast
  qed
  have "findConvergencePoint w b1 b2 = None \<longleftrightarrow> ?E\<^sup>+ `` ac_id ` set b1 \<inter> ?E\<^sup>+ `` ac_id ` set b2 = {}"
  proof (cases "find (\<lambda>i. i \<in> set (getAllDownstreamActions w b2)) (getAllDownstreamActions w b1)")
    case None
    then have "set (getAllDownstreamActions w b1) \<inter> set (getAllDownstreamActions w b2) = {}"
      by (auto simp: find_None_iff)
    with None show ?thesis unfolding downstream_reach [symmetric] by (simp add: findConvergencePoint_def)
  next
    case (Some i)
    then have "i \<in> ?E\<^sup>+ `` ac_id ` set b1 \<inter> ?E\<^sup>+ `` ac_id ` set b2"
      unfolding downstream_reach [symmetric] by (auto simp: find_Some_iff)
    moreover from this have "getActionById w i \<noteq> None" using act by blast
    ultimately show ?thesis using Some by (auto simp: findConvergencePoint_def)
  qed
  moreover have "ac_id a \<in> ?E\<^sup>+ `` ac_id ` set b1 \<inter> ?E\<^sup>+ `` ac_id ` set b2"
    if "findConvergencePoint w b1 b2 = Some a" for a
    using that getActionById_mem [of w _ a] unfolding downstream_reach [symmetric] findConvergencePoint_def
    by (auto simp: Let_def find_Some_iff split: option.splits)
  ultimately show ?thesis unfolding E by blast
qed

text \<open>
  the body of a LOOP action that \<open>detectLoopPattern\<close> finds has each action once and consists of
  exactly the actions that can be reached from the first target of its first output over actions,
  without passing through the LOOP action.
\<close>

theorem loop_body_exact:
  assumes "detectLoopPattern w a = Some p" and "first \<noteq> ac_id a"
    and "map_of (wf_connections w) (ac_id a) = Some u" and "ou_main u = Some ((c # cs) # outs)"
    and "cn_action c = first"
  shows "distinct (map ac_id (lp_bodyActions p))
    \<and> set (lp_bodyActions p) = {b. \<exists>i. getActionById w i = Some b
        \<and> (first, i) \<in> {(x, y). getActionById w x \<noteq> None \<and> y \<in> set (getNextActions w x None)
             \<and> y \<noteq> ac_id a}\<^sup>*}"
proof -
  have "y \<in> set (body_succs w l x) \<longleftrightarrow> getActionById w x \<noteq> None \<and> y \<in> set (getNextActions w x None) \<and> y \<noteq> l"
    for x y l
    by (cases "getActionById w x") (auto simp: body_succs_def)
  then have edges: "edges (body_succs w (ac_id a))
      = {(x, y). getActionById w x \<noteq> None \<and> y \<in> set (getNextActions w x None) \<and> y \<noteq> ac_id a}"
    by (simp add: edges_def)
  have "first \<in> set (succs w (ac_id a))"
    using main_target [of w "ac_id a" u "(c # cs) # outs" "c # cs" c] assms(3-5) by simp
  then have "first \<in> set (graph_nodes w)" using wg.succ_nodes [of w "ac_id a"] by blast
  moreover have "lp_bodyActions p = extractLoopBodyActions w (ac_id a) first"
    using assms by (auto simp: detectLoopPattern_def getActionConnections_def split: if_splits)
  ultimately show ?thesis
    using loop_body [of first w "ac_id a"] assms(2) unfolding edges by auto
qed

section \<open>Examples\<close>

text \<open>A LOOP action with a body of two actions that leads back to it.\<close>

definition loop_example :: Workflow where
  "loop_example = (workflow_example [''b'', ''c''] [(''l'', [''b'']), (''b'', [''c'']), (''c'', [''l''])])
     \<lparr>wf_actions := (action_example ''l'')\<lparr>ac_type := ''LOOP''\<rparr> # map action_example [''b'', ''c'']\<rparr>"

lemmas pattern_eval = loop_example_def diamond_def graph_eval getActionById_def control_flow_def

theorem branch_is_chain_witness:
  "successively (\<lambda>x y. ac_type x \<notin> {''IF'', ''LOOP'', ''SWITCH''}
        \<and> getNextActions diamond (ac_id x) None = [ac_id y]) (map action_example [''b'', ''d''])
    \<and> distinct (map ac_id (map action_example [''b'', ''d'']))
    \<and> set (map action_example [''b'', ''d'']) \<subseteq> set (wf_actions diamond)"
proof -
  have "extractBranchActions diamond (Some ''b'') = map action_example [''b'', ''d'']"
    by (simp add: extractBranchActions_def branch_from.simps pattern_eval)
  from branch_is_chain [OF this] show ?thesis by blast
qed

theorem convergence_exact_witness:
  "findConvergencePoint diamond (map action_example [''b'']) (map action_example [''c'']) \<noteq> None"
proof -
  have closed: "set (all_targets diamond) \<subseteq> ac_id ` set (wf_actions diamond)"
    by (simp add: pattern_eval)
  have "(i, ''d'') \<in> {(x, y). y \<in> set (getNextActions diamond x None)}\<^sup>+" if "i \<in> {''b'', ''c''}" for i
    by (rule r_into_trancl) (use that in \<open>auto simp: pattern_eval\<close>)
  then have "''d'' \<in> {(x, y). y \<in> set (getNextActions diamond x None)}\<^sup>+ `` ac_id ` set (map action_example [''b''])
      \<inter> {(x, y). y \<in> set (getNextActions diamond x None)}\<^sup>+ `` ac_id ` set (map action_example [''c''])"
    by (simp add: action_example_def)
  with convergence_exact [OF closed, of "map action_example [''b'']" "map action_example [''c'']"]
  show ?thesis by blast
qed

theorem loop_body_exact_witness:
  "\<exists>p. detectLoopPattern loop_example ((action_example ''l'')\<lparr>ac_type := ''LOOP''\<rparr>) = Some p
    \<and> distinct (map ac_id (lp_bodyActions p))"
proof -
  let ?l = "(action_example ''l'')\<lparr>ac_type := ''LOOP''\<rparr>"
  obtain p where p: "detectLoopPattern loop_example ?l = Some p"
    by (simp add: detectLoopPattern_def pattern_eval)
  have "distinct (map ac_id (lp_bodyActions p))"
    by (rule conjunct1 [OF loop_body_exact [OF p, of "''b''" "main_to [''b'']"
          "\<lparr>cn_action = ''b'', cn_type = CMain, cn_index = 0, cn_edge = JUndef\<rparr>" "[]" "[]"]])
      (simp_all add: pattern_eval)
  with p show ?thesis by blast
qed

end
