(* ===== verification/Linearizability.thy ===== *)
theory Linearizability
  imports Workflow_Utils
begin

text \<open>
  \<open>LinearizabilityChecker\<close> of frontend/src/lib/workflow-converter/linearizability-checker.ts: when a
  graph workflow can be converted to the sequential format. The theorem reduces the verdict to
  five of its six checks: the search for cycles never decides.
\<close>

record LinearizabilityDetails =
  ld_entryPointCount :: nat
  ld_branchingNodeCount :: nat
  ld_mergeNodeCount :: nat
  ld_parallelBranchCount :: nat
  ld_cycleCount :: nat

record LinearizabilityResult =
  lr_linearizable :: bool
  lr_issues :: "string list"
  lr_details :: LinearizabilityDetails

definition join :: "string \<Rightarrow> string list \<Rightarrow> string" where
  "join sep xs = (case xs of [] \<Rightarrow> [] | y # ys \<Rightarrow> y @ concat (map (\<lambda>z. sep @ z) ys))"

definition findBranchingNodes :: "Workflow \<Rightarrow> ident list" where
  "findBranchingNodes w =
     map fst (filter (\<lambda>(s, u). length (targets_of all_types u) > 1) (wf_connections w))"

definition findMergeNodes :: "Workflow \<Rightarrow> ident list" where
  "findMergeNodes w = map fst (filter (\<lambda>(k, n). n > 1) (incomingCounts w))"

definition findParallelBranches :: "Workflow \<Rightarrow> ident list" where
  "findParallelBranches w =
     map fst (filter (\<lambda>(s, u).
       (case ou_main u of None \<Rightarrow> False | Some main \<Rightarrow> length main > 1)
       \<and> (case getActionById w s of None \<Rightarrow> False
          | Some a \<Rightarrow> ac_type a \<notin> set [''IF'', ''SWITCH'', ''TRY_CATCH'']))
       (wf_connections w))"

text \<open>The depth-first search for cycles, with the visited actions and the cycles found so far.\<close>

fun cycles_dfs ::
    "(ident \<Rightarrow> ident list) \<Rightarrow> nat \<Rightarrow> ident list \<Rightarrow> ident list \<Rightarrow> ident list list \<Rightarrow> ident list
      \<Rightarrow> (ident list \<times> ident list list) option" where
  "cycles_dfs succ fuel stack visited cycles [] = Some (visited, cycles)"
| "cycles_dfs succ fuel stack visited cycles (x # xs) =
     (if x \<in> set stack
      then cycles_dfs succ fuel stack visited (cycles @ [dropWhile (\<lambda>y. y \<noteq> x) stack @ [x]]) xs
      else if x \<in> set visited then cycles_dfs succ fuel stack visited cycles xs
      else case fuel of
        0 \<Rightarrow> None
      | Suc n \<Rightarrow>
          (case cycles_dfs succ n (stack @ [x]) (x # visited) cycles (succ x) of
             None \<Rightarrow> None
           | Some (visited', cycles') \<Rightarrow> cycles_dfs succ fuel stack visited' cycles' xs))"

definition findAllCycles :: "Workflow \<Rightarrow> ident list list" where
  "findAllCycles w =
     (case cycles_dfs (succs w) (graph_fuel w) [] [] [] (getEntryPoints w) of
        None \<Rightarrow> [] | Some (_, cycles) \<Rightarrow> cycles)"

definition detectNonLoopCycles :: "Workflow \<Rightarrow> string list" where
  "detectNonLoopCycles w =
     (if \<not> hasCycles w then []
      else let loopActions = map ac_id (getActionsByType w ''LOOP'')
           in map (\<lambda>(index, cycle). ''cycle-'' @ nat_string (index + 1) @ ''('' @ join ''->'' cycle @ '')'')
                (filter (\<lambda>(index, cycle).
                   \<not> list_ex (\<lambda>l. cycle \<noteq> [] \<and> hd cycle = l \<and> last cycle = l) loopActions)
                   (zip [0..<length (findAllCycles w)] (findAllCycles w))))"

definition if_issues :: "Workflow \<Rightarrow> Action \<Rightarrow> string list" where
  "if_issues w ifAction =
     (case Option.bind (getActionConnections w (ac_id ifAction)) ou_main of
        Some [trueBranch, falseBranch] \<Rightarrow>
          (if trueBranch = [] \<and> falseBranch = []
           then [''IF action '' @ ac_id ifAction @ '' has no outgoing connections''] else [])
      | _ \<Rightarrow> [''IF action '' @ ac_id ifAction @ '' must have exactly 2 outputs (true/false branches)''])"

definition checkIfBranchStructure :: "Workflow \<Rightarrow> string list" where
  "checkIfBranchStructure w = concat (map (if_issues w) (getActionsByType w ''IF''))"

definition no_details :: LinearizabilityDetails where
  "no_details = \<lparr>ld_entryPointCount = 0, ld_branchingNodeCount = 0, ld_mergeNodeCount = 0,
     ld_parallelBranchCount = 0, ld_cycleCount = 0\<rparr>"

text \<open>The issues of one check: a message when its list is not empty.\<close>

definition issue :: "string \<Rightarrow> string list \<Rightarrow> string \<Rightarrow> string list" where
  "issue before found after = (if found = [] then [] else [before @ join '', '' found @ after])"

definition check_linearizable :: "Workflow \<Rightarrow> LinearizabilityResult" where
  "check_linearizable w =
     (if wf_format w \<noteq> ''graph''
      then \<lparr>lr_linearizable = False, lr_issues = [''Workflow is not in graph format''],
            lr_details = no_details\<rparr>
      else if wf_connections w = []
      then \<lparr>lr_linearizable = False, lr_issues = [''Graph workflow has no connections''],
            lr_details = no_details\<rparr>
      else let entryPoints = getEntryPoints w;
               mergeNodes = findMergeNodes w;
               parallelBranches = findParallelBranches w;
               cycles = detectNonLoopCycles w;
               issues =
                 (if entryPoints = [] then [''No entry points detected'']
                  else if length entryPoints > 1
                  then issue ''Multiple entry points detected: '' entryPoints '' (only one allowed)''
                  else [])
                 @ issue ''Merge nodes detected: '' mergeNodes '' (multiple paths converge to same action)''
                 @ issue ''Parallel execution detected at actions: '' parallelBranches
                     '' (only sequential allowed)''
                 @ issue ''Non-LOOP cycles detected: '' cycles '' (circular dependencies)''
                 @ checkIfBranchStructure w
           in \<lparr>lr_linearizable = (issues = []), lr_issues = issues,
               lr_details = \<lparr>ld_entryPointCount = length entryPoints,
                 ld_branchingNodeCount = length (findBranchingNodes w),
                 ld_mergeNodeCount = length mergeNodes,
                 ld_parallelBranchCount = length parallelBranches, ld_cycleCount = length cycles\<rparr>\<rparr>)"

section \<open>Without merge nodes there are no cycles\<close>

lemma findMergeNodes_iff: "findMergeNodes w = [] \<longleftrightarrow> distinct (all_targets w)"
proof -
  have "findMergeNodes w = [] \<longleftrightarrow> \<not> hasMergeNodes w"
    by (auto simp: findMergeNodes_def hasMergeNodes_def list_ex_iff filter_empty_conv)
  then show ?thesis by (simp add: hasMergeNodes_iff)
qed

lemma distinct_concat_inj:
  "distinct (concat (map f xs)) \<Longrightarrow> p \<in> set xs \<Longrightarrow> q \<in> set xs \<Longrightarrow> b \<in> set (f p) \<Longrightarrow> b \<in> set (f q) \<Longrightarrow> p = q"
  by (induction xs) auto

lemma unique_predecessor:
  assumes "distinct (all_targets w)" and "b \<in> set (succs w a)" and "b \<in> set (succs w c)"
  shows "a = c"
proof -
  obtain u v where "map_of (wf_connections w) a = Some u" "b \<in> set (targets_of all_types u)"
      "map_of (wf_connections w) c = Some v" "b \<in> set (targets_of all_types v)"
    using assms(2,3) by (auto simp: succs_iff)
  then have "(a, u) = (c, v)"
    using distinct_concat_inj [OF assms(1) [unfolded all_targets_def], of "(a, u)" "(c, v)" b]
    by (auto dest: map_of_SomeD)
  then show ?thesis by simp
qed

lemma entry_no_predecessor: "e \<in> set (getEntryPoints w) \<Longrightarrow> e \<notin> set (succs w a)"
  using succs_targets [of w a] by (auto simp: getEntryPoints_def)

lemma no_merge_no_cycle:
  assumes "distinct (all_targets w)" and "e \<in> set (getEntryPoints w)"
  shows "(e, y) \<in> (edges (succs w))\<^sup>* \<Longrightarrow> (y, y) \<notin> (edges (succs w))\<^sup>+"
proof (induction rule: rtrancl_induct)
  case base
  show ?case
    using entry_no_predecessor [OF assms(2)] by (meson edges_iff tranclD2)
next
  case (step y z)
  show ?case
  proof
    assume "(z, z) \<in> (edges (succs w))\<^sup>+"
    then obtain p where p: "(z, p) \<in> (edges (succs w))\<^sup>*" "z \<in> set (succs w p)"
      by (meson edges_iff tranclD2)
    have "p = y" using unique_predecessor [OF assms(1) p(2)] step(2) by simp
    with p(1) step(2) have "(y, y) \<in> (edges (succs w))\<^sup>+"
      by (meson rtrancl_into_trancl2)
    with step(3) show False by blast
  qed
qed

lemma check_linearizable_iff:
  "lr_linearizable (check_linearizable w) =
     (wf_format w = ''graph'' \<and> wf_connections w \<noteq> [] \<and> length (getEntryPoints w) = 1
      \<and> distinct (all_targets w) \<and> findParallelBranches w = [] \<and> checkIfBranchStructure w = [])"
proof -
  have cycles: "detectNonLoopCycles w = []" if "distinct (all_targets w)"
    using no_merge_no_cycle [OF that] unfolding detectNonLoopCycles_def hasCycles_iff by auto
  have none: "issue p found s = [] \<longleftrightarrow> found = []" for p found s
    by (simp add: issue_def)
  have one: "((if es = [] then [a] else if length es > 1 then issue b es c else []) = []) = (length es = 1)"
    for a b c and es :: "string list"
    by (cases es) (auto simp: none)
  show ?thesis
    using cycles by (auto simp: check_linearizable_def Let_def none one findMergeNodes_iff)
qed

text \<open>
  the verdict of the linearizability check, in terms of the workflow. It is positive exactly
  for a graph workflow with connections, one entry point, no merge node, no parallel branch and no
  badly formed IF action. The check for cycles adds nothing: without merge nodes no cycle can be
  reached from an entry point.
\<close>

theorem linearizable_iff:
  "lr_linearizable (check_linearizable w) =
     (wf_format w = ''graph'' \<and> wf_connections w \<noteq> [] \<and> length (getEntryPoints w) = 1
      \<and> distinct (all_targets w) \<and> findParallelBranches w = [] \<and> checkIfBranchStructure w = [])"
  by (rule check_linearizable_iff)

end
