(* ===== verification/Graph_To_Sequential.thy ===== *)
theory Graph_To_Sequential
  imports Pattern_Detector Linearizability
begin

text \<open>
  The conversion of a graph workflow to a list of actions
  (frontend/src/lib/workflow-converter/graph-to-sequential-converter.ts, errors.ts): checks,
  topological sort, control flow actions with their branches as lists of identifiers, cleaning and
  validation. The two error classes are the constructors of a datatype; the messages of validation
  errors are constructors that carry what the text mentions. The recursion into branches carries fuel
  for its depth; \<open>None\<close> is running out of it, which is proved not to happen.
\<close>

section \<open>Errors and options\<close>

datatype validation_failure =
    Not_graph string | No_connections | Missing_id nat | Missing_type ident | Missing_config ident
  | Duplicate_id ident | Dangling ident json

datatype conversion_error =
    WorkflowValidationError validation_failure
  | NonLinearWorkflowError string "string list"

text \<open>The options; an absent one counts as true.\<close>

record ConversionOptions =
  cv_preserveIds :: "bool option"
  cv_preserveNames :: "bool option"
  cv_validateOutput :: "bool option"

definition opt_true :: "bool option \<Rightarrow> bool" where
  "opt_true b = (b \<noteq> Some False)"

section \<open>Sorting\<close>

definition topologicalSort :: "Workflow \<Rightarrow> conversion_error + Action list" where
  "topologicalSort w =
     (case getTopologicalOrder w of
        None \<Rightarrow> Inl (NonLinearWorkflowError ''Cannot sort workflow: contains cycles''
                       [''Cyclic dependencies detected''])
      | Some order \<Rightarrow> Inr (List.map_filter (getActionById w) order))"

section \<open>Control flow\<close>

text \<open>\<open>{ ...config }\<close>: the own properties of a value.\<close>

fun config_fields :: "json \<Rightarrow> (string, json) fmap" where
  "config_fields (JObj m) = m"
| "config_fields (JArr xs) = fmap_of_list (zip (map nat_string [0..<length xs]) xs)"
| "config_fields (JStr s) = fmap_of_list (zip (map nat_string [0..<length s]) (map (\<lambda>c. JStr [c]) s))"
| "config_fields _ = fmempty"

definition id_array :: "Action list \<Rightarrow> json" where
  "id_array as = JArr (map (\<lambda>a. JStr (ac_id a)) as)"

text \<open>
  The action with its branches, and the processed identifiers; \<open>nested\<close> is \<open>rebuildControlFlow\<close> on a
  branch.
\<close>

definition reconstructIf ::
    "(Action list \<Rightarrow> Action list option) \<Rightarrow> Workflow \<Rightarrow> Action \<Rightarrow> ident list \<Rightarrow> (Action \<times> ident list) option" where
  "reconstructIf nested w ifAction processed =
     (case detectIfPattern w ifAction of
        None \<Rightarrow> Some (ifAction, ac_id ifAction # processed)
      | Some p \<Rightarrow>
          (case (nested (ip_thenBranch p), nested (ip_elseBranch p)) of
             (Some thenActions, Some elseActions) \<Rightarrow>
               Some (ifAction\<lparr>ac_config := JObj (fmupd ''elseActions'' (id_array elseActions)
                       (fmupd ''thenActions'' (id_array thenActions) (config_fields (ac_config ifAction))))\<rparr>,
                     map ac_id (ip_elseBranch p) @ map ac_id (ip_thenBranch p) @ ac_id ifAction # processed)
           | _ \<Rightarrow> None))"

definition reconstructLoop ::
    "(Action list \<Rightarrow> Action list option) \<Rightarrow> Workflow \<Rightarrow> Action \<Rightarrow> ident list \<Rightarrow> (Action \<times> ident list) option" where
  "reconstructLoop nested w loopAction processed =
     (case detectLoopPattern w loopAction of
        None \<Rightarrow> Some (loopAction, ac_id loopAction # processed)
      | Some p \<Rightarrow>
          (case nested (lp_bodyActions p) of
             Some bodyActions \<Rightarrow>
               Some (loopAction\<lparr>ac_config := JObj (fmupd ''actions'' (id_array bodyActions)
                       (config_fields (ac_config loopAction)))\<rparr>,
                     map ac_id (lp_bodyActions p) @ ac_id loopAction # processed)
           | None \<Rightarrow> None))"

definition reconstruct ::
    "(Action list \<Rightarrow> Action list option) \<Rightarrow> Workflow \<Rightarrow> Action \<Rightarrow> ident list \<Rightarrow> (Action \<times> ident list) option" where
  "reconstruct nested w action processed =
     (if ac_type action = ''IF'' then reconstructIf nested w action processed
      else if ac_type action = ''LOOP'' then reconstructLoop nested w action processed
      else Some (action, ac_id action # processed))"

fun rebuildControlFlow :: "nat \<Rightarrow> Workflow \<Rightarrow> ident list \<Rightarrow> Action list \<Rightarrow> Action list option" where
  "rebuildControlFlow fuel w processed [] = Some []"
| "rebuildControlFlow fuel w processed (action # actions) =
     (if ac_id action \<in> set processed then rebuildControlFlow fuel w processed actions
      else case reconstruct (case fuel of 0 \<Rightarrow> (\<lambda>_. None) | Suc n \<Rightarrow> rebuildControlFlow n w []) w action processed of
             None \<Rightarrow> None
           | Some (action', processed') \<Rightarrow>
               map_option (Cons action') (rebuildControlFlow fuel w processed' actions))"

section \<open>Cleaning and validation\<close>

definition cleanupAction :: "ConversionOptions \<Rightarrow> Action \<Rightarrow> Action" where
  "cleanupAction options action =
     \<lparr>ac_id = ac_id action, ac_type = ac_type action,
      ac_name = (if opt_true (cv_preserveNames options) \<and> truthy (ac_name action) then ac_name action else None),
      ac_config = ac_config action,
      ac_base = (if falsy (ac_base action) then JUndef else ac_base action),
      ac_execution = (if falsy (ac_execution action) then JUndef else ac_execution action),
      ac_position = None, ac_expectations = JUndef\<rparr>"

definition cleanupActions :: "Action list \<Rightarrow> ConversionOptions \<Rightarrow> Action list" where
  "cleanupActions actions options = map (cleanupAction options) actions"

fun field_failure :: "nat \<Rightarrow> Action list \<Rightarrow> validation_failure option" where
  "field_failure index [] = None"
| "field_failure index (a # as) =
     (if ac_id a = [] then Some (Missing_id index)
      else if ac_type a = [] then Some (Missing_type (ac_id a))
      else if falsy (ac_config a) then Some (Missing_config (ac_id a))
      else field_failure (Suc index) as)"

fun duplicate_failure :: "ident set \<Rightarrow> Action list \<Rightarrow> validation_failure option" where
  "duplicate_failure ids [] = None"
| "duplicate_failure ids (a # as) =
     (if ac_id a \<in> ids then Some (Duplicate_id (ac_id a)) else duplicate_failure (insert (ac_id a) ids) as)"

text \<open>The elements of \<open>config[key]\<close> when that is an array.\<close>

definition config_array :: "json \<Rightarrow> string \<Rightarrow> json list" where
  "config_array config key =
     (case config of
        JObj m \<Rightarrow> (case fmlookup m key of Some (JArr xs) \<Rightarrow> xs | _ \<Rightarrow> [])
      | _ \<Rightarrow> [])"

definition references :: "Action \<Rightarrow> json list" where
  "references a =
     (if ac_type a = ''IF'' then config_array (ac_config a) ''thenActions'' @ config_array (ac_config a) ''elseActions''
      else if ac_type a = ''LOOP'' then config_array (ac_config a) ''actions''
      else [])"

definition validateActionReferences :: "json list \<Rightarrow> ident set \<Rightarrow> ident \<Rightarrow> validation_failure option" where
  "validateActionReferences refs validIds parentActionId =
     map_option (Dangling parentActionId) (find (\<lambda>ref. ref \<notin> JStr ` validIds) refs)"

fun reference_failure :: "ident set \<Rightarrow> Action list \<Rightarrow> validation_failure option" where
  "reference_failure ids [] = None"
| "reference_failure ids (a # as) =
     (case validateActionReferences (references a) ids (ac_id a) of
        Some e \<Rightarrow> Some e
      | None \<Rightarrow> reference_failure ids as)"

definition validateSequentialWorkflow :: "Action list \<Rightarrow> validation_failure option" where
  "validateSequentialWorkflow actions =
     (case field_failure 0 actions of
        Some e \<Rightarrow> Some e
      | None \<Rightarrow>
          (case duplicate_failure {} actions of
             Some e \<Rightarrow> Some e
           | None \<Rightarrow> reference_failure (ac_id ` set actions) actions))"

section \<open>The conversion\<close>

definition convert :: "Workflow \<Rightarrow> ConversionOptions \<Rightarrow> (conversion_error + Action list) option" where
  "convert w options =
     (if wf_format w \<noteq> ''graph'' then Some (Inl (WorkflowValidationError (Not_graph (wf_format w))))
      else if wf_connections w = [] then Some (Inl (WorkflowValidationError No_connections))
      else if \<not> lr_linearizable (check_linearizable w)
      then Some (Inl (NonLinearWorkflowError ''Workflow cannot be converted to sequential format''
                        (lr_issues (check_linearizable w))))
      else case topologicalSort w of
             Inl e \<Rightarrow> Some (Inl e)
           | Inr sortedActions \<Rightarrow>
               map_option (\<lambda>sequentialActions.
                   let cleanedActions = cleanupActions sequentialActions options
                   in if opt_true (cv_validateOutput options)
                      then case validateSequentialWorkflow cleanedActions of
                             Some e \<Rightarrow> Inl (WorkflowValidationError e)
                           | None \<Rightarrow> Inr cleanedActions
                      else Inr cleanedActions)
                 (rebuildControlFlow (graph_fuel w) w [] sortedActions))"

text \<open>The answer, the issues, and the details when there are any.\<close>

definition canLinearize :: "Workflow \<Rightarrow> bool \<times> string list \<times> LinearizabilityDetails option" where
  "canLinearize w =
     (if wf_format w \<noteq> ''graph'' then (False, [''Workflow is not in graph format''], None)
      else let r = check_linearizable w in (lr_linearizable r, lr_issues r, Some (lr_details r)))"

section \<open>Nested actions\<close>

text \<open>The actions that the pattern of an action, if it has one, takes out of the sequence.\<close>

definition nested_actions :: "Workflow \<Rightarrow> Action \<Rightarrow> Action list" where
  "nested_actions w a =
     (case detectIfPattern w a of
        Some p \<Rightarrow> ip_thenBranch p @ ip_elseBranch p
      | None \<Rightarrow> (case detectLoopPattern w a of Some p \<Rightarrow> lp_bodyActions p | None \<Rightarrow> []))"

definition patterned :: "Workflow \<Rightarrow> Action \<Rightarrow> bool" where
  "patterned w a \<longleftrightarrow> detectIfPattern w a \<noteq> None \<or> detectLoopPattern w a \<noteq> None"

lemma detectIfPattern_SomeE:
  assumes "detectIfPattern w a = Some p"
  obtains u t e where "ac_type a = ''IF''" "map_of (wf_connections w) (ac_id a) = Some u" "ou_main u = Some [t, e]"
    "ip_thenBranch p = extractBranchActions w (first_target t)"
    "ip_elseBranch p = extractBranchActions w (first_target e)"
  using assms
  by (auto simp: detectIfPattern_def getActionConnections_def Let_def bind_eq_Some_conv
      split: if_splits option.splits list.splits)

lemma detectLoopPattern_SomeE:
  assumes "detectLoopPattern w a = Some p"
  obtains u c cs outs where "ac_type a = ''LOOP''" "map_of (wf_connections w) (ac_id a) = Some u"
    "ou_main u = Some ((c # cs) # outs)" "cn_action c \<noteq> []"
    "lp_bodyActions p = extractLoopBodyActions w (ac_id a) (cn_action c)"
  using assms
  by (auto simp: detectLoopPattern_def getActionConnections_def bind_eq_Some_conv
      split: if_splits option.splits list.splits)

lemma branch_below:
  assumes "map_of (wf_connections w) i = Some u" and "ou_main u = Some outs" and "t \<in> set outs"
    and "b \<in> set (extractBranchActions w (first_target t))"
  shows "(i, ac_id b) \<in> (steps_to w)\<^sup>+"
proof (cases t)
  case Nil
  with assms(4) show ?thesis by (simp add: extractBranchActions_def branch_from.simps)
next
  case (Cons c cs)
  then have "(i, cn_action c) \<in> steps_to w"
    using main_target [OF assms(1-3)] by simp
  moreover have "(cn_action c, ac_id b) \<in> (steps_to w)\<^sup>*"
    using branch_reach assms(4) Cons by (simp add: extractBranchActions_def)
  ultimately show ?thesis by (rule rtrancl_into_trancl2)
qed

lemma loop_below:
  assumes "map_of (wf_connections w) i = Some u" and "ou_main u = Some outs" and "t \<in> set outs" and "c \<in> set t"
    and "b \<in> set (extractLoopBodyActions w i (cn_action c))"
  shows "(i, ac_id b) \<in> (steps_to w)\<^sup>+"
proof -
  have ne: "cn_action c \<noteq> i" using assms(5) by (auto simp: extractLoopBodyActions_def)
  have step: "(i, cn_action c) \<in> steps_to w" using main_target [OF assms(1-4)] by simp
  then have "cn_action c \<in> set (graph_nodes w)" using wg.succ_nodes [of w i] by auto
  then have "(cn_action c, ac_id b) \<in> (edges (body_succs w i))\<^sup>*"
    using loop_body [OF _ ne] assms(5) getActionById_mem by fastforce
  moreover have "edges (body_succs w i) \<subseteq> steps_to w"
    by (auto simp: edges_def body_succs_def succs_def split: option.splits)
  ultimately have "(cn_action c, ac_id b) \<in> (steps_to w)\<^sup>*" using rtrancl_mono by blast
  with step show ?thesis by (rule rtrancl_into_trancl2)
qed

lemma pattern_types:
  "detectIfPattern w a = Some p \<Longrightarrow> ac_type a = ''IF''"
  "detectLoopPattern w a = Some q \<Longrightarrow> ac_type a = ''LOOP''"
  by (auto simp: detectIfPattern_def detectLoopPattern_def split: if_splits)

lemma pattern_cases [case_names branches body plain]:
  obtains p where "detectIfPattern w a = Some p" "detectLoopPattern w a = None" "ac_type a = ''IF''"
      "nested_actions w a = ip_thenBranch p @ ip_elseBranch p" "patterned w a"
    | q where "detectIfPattern w a = None" "detectLoopPattern w a = Some q" "ac_type a = ''LOOP''"
      "nested_actions w a = lp_bodyActions q" "patterned w a"
    | "detectIfPattern w a = None" "detectLoopPattern w a = None" "nested_actions w a = []" "\<not> patterned w a"
proof (cases "detectIfPattern w a")
  case (Some p)
  have "detectLoopPattern w a = None"
  proof (cases "detectLoopPattern w a")
    case (Some q)
    with \<open>detectIfPattern w a = Some p\<close> show ?thesis using pattern_types [of w a] by fastforce
  qed simp
  with Some show thesis using pattern_types(1) [OF Some] that(1) by (simp add: nested_actions_def patterned_def)
next
  case None
  show thesis
  proof (cases "detectLoopPattern w a")
    case (Some q)
    with None show thesis using pattern_types(2) [OF Some] that(2) by (simp add: nested_actions_def patterned_def)
  qed (use None that(3) in \<open>simp add: nested_actions_def patterned_def\<close>)
qed

lemma nested_below:
  assumes "b \<in> set (nested_actions w a)"
  shows "(ac_id a, ac_id b) \<in> (steps_to w)\<^sup>+"
proof (cases rule: pattern_cases [of w a])
  case (branches p)
  show ?thesis
    by (rule detectIfPattern_SomeE [OF branches(1)]) (use assms branches(4) in \<open>auto intro: branch_below\<close>)
next
  case (body q)
  show ?thesis
    by (rule detectLoopPattern_SomeE [OF body(2)]) (use assms body(4) in \<open>auto intro: loop_below\<close>)
qed (use assms in simp)

lemmas reconstruct_defs = reconstruct_def reconstructIf_def reconstructLoop_def

lemma reconstruct_plain:
  "\<not> patterned w a \<Longrightarrow> reconstruct nested w a P = Some (a, ac_id a # P)"
  by (simp add: patterned_def reconstruct_defs)

lemma reconstruct_ids:
  assumes "reconstruct nested w a P = Some (a', P')"
  shows "ac_id a' = ac_id a \<and> set P' = insert (ac_id a) (set P \<union> ac_id ` set (nested_actions w a))"
  by (cases rule: pattern_cases [of w a])
    (use assms in \<open>auto simp: reconstruct_defs split: if_splits option.splits\<close>)

lemma reconstruct_total:
  assumes "\<And>bs. set bs \<subseteq> set (nested_actions w a) \<Longrightarrow> patterned w a \<Longrightarrow> nested bs \<noteq> None"
  shows "reconstruct nested w a P \<noteq> None"
proof (cases rule: pattern_cases [of w a])
  case (branches p)
  then have "nested (ip_thenBranch p) \<noteq> None" "nested (ip_elseBranch p) \<noteq> None" using assms by simp_all
  with branches show ?thesis by (auto simp: reconstruct_defs)
next
  case (body q)
  then have "nested (lp_bodyActions q) \<noteq> None" using assms by simp
  with body show ?thesis by (auto simp: reconstruct_defs)
qed (simp add: reconstruct_plain)

text \<open>An action with a pattern refers to nested actions, as long as the rebuilt branches keep their heads.\<close>

lemma reconstruct_refers:
  assumes "reconstruct nested w a P = Some (a', P')" and "nested_actions w a \<noteq> []"
    and "\<And>bs r. nested bs = Some r \<Longrightarrow> bs \<noteq> [] \<Longrightarrow> r \<noteq> [] \<and> ac_id (hd r) = ac_id (hd bs)"
  shows "\<exists>b \<in> set (nested_actions w a). JStr (ac_id b) \<in> set (references a')"
proof (cases rule: pattern_cases [of w a])
  case (branches p)
  then obtain t e where te: "nested (ip_thenBranch p) = Some t" "nested (ip_elseBranch p) = Some e"
    and a': "references a' = map (\<lambda>a. JStr (ac_id a)) (t @ e)"
    using assms(1) by (auto simp: reconstruct_defs references_def config_array_def id_array_def split: option.splits)
  have hd: "JStr (ac_id (hd bs)) \<in> (\<lambda>a. JStr (ac_id a)) ` set r" if "nested bs = Some r" "bs \<noteq> []" for bs r
    using assms(3) [OF that] by (metis hd_in_set imageI)
  show ?thesis
  proof (cases "ip_thenBranch p = []")
    case True
    with branches(4) assms(2) have "ip_elseBranch p \<noteq> []" by simp
    with hd [OF te(2)] branches(4) a' show ?thesis by (intro bexI [of _ "hd (ip_elseBranch p)"]) auto
  next
    case False
    with hd [OF te(1)] branches(4) a' show ?thesis by (intro bexI [of _ "hd (ip_thenBranch p)"]) auto
  qed
next
  case (body q)
  then obtain t where t: "nested (lp_bodyActions q) = Some t"
    and a': "references a' = map (\<lambda>a. JStr (ac_id a)) t"
    using assms(1) by (auto simp: reconstruct_defs references_def config_array_def id_array_def split: option.splits)
  have "t \<noteq> [] \<and> ac_id (hd t) = ac_id (hd (lp_bodyActions q))"
    using assms(3) [OF t] assms(2) body(4) by simp
  then have "JStr (ac_id (hd (lp_bodyActions q))) \<in> set (references a')"
    using a' by (metis hd_in_set imageI set_map)
  then show ?thesis
    using assms(2) body(4) by (intro bexI [of _ "hd (lp_bodyActions q)"]) auto
qed (use assms(2) in simp)

section \<open>Rebuilding\<close>

lemma rebuild_ConsE:
  assumes "rebuildControlFlow fuel w P (a # as) = Some r"
  obtains (skip) "ac_id a \<in> set P" "rebuildControlFlow fuel w P as = Some r"
  | (push) a' P' r' where "ac_id a \<notin> set P"
      "reconstruct (case fuel of 0 \<Rightarrow> (\<lambda>_. None) | Suc n \<Rightarrow> rebuildControlFlow n w []) w a P = Some (a', P')"
      "rebuildControlFlow fuel w P' as = Some r'" "r = a' # r'"
  using assms that by (auto split: if_splits option.splits)

lemma rebuild_ids:
  "rebuildControlFlow fuel w P as = Some r \<Longrightarrow> ac_id ` set r \<subseteq> ac_id ` set as \<and> ac_id ` set r \<inter> set P = {}"
proof (induction as arbitrary: P r)
  case (Cons a as)
  from Cons.prems show ?case
  proof (cases rule: rebuild_ConsE)
    case skip
    then show ?thesis using Cons.IH [OF skip(2)] by auto
  next
    case (push a' P' r')
    then show ?thesis using Cons.IH [OF push(3)] reconstruct_ids [OF push(2)] by auto
  qed
qed simp

lemma rebuild_head:
  "rebuildControlFlow fuel w [] as = Some r \<Longrightarrow> as \<noteq> [] \<Longrightarrow> r \<noteq> [] \<and> ac_id (hd r) = ac_id (hd as)"
  by (cases as) (auto elim!: rebuild_ConsE dest: reconstruct_ids simp del: rebuildControlFlow.simps)

lemma rebuild_plain:
  "list_all (\<lambda>a. \<not> patterned w a) pre \<Longrightarrow> distinct (map ac_id pre) \<Longrightarrow> ac_id ` set pre \<inter> set P = {}
     \<Longrightarrow> rebuildControlFlow fuel w P (pre @ as)
       = (case rebuildControlFlow fuel w (rev (map ac_id pre) @ P) as of
            None \<Rightarrow> None | Some r \<Rightarrow> Some (pre @ r))"
  by (induction pre arbitrary: P) (auto simp: reconstruct_plain split: option.split)

text \<open>The depth of the recursion: the identifiers below an action.\<close>

definition below :: "Workflow \<Rightarrow> ident \<Rightarrow> nat" where
  "below w i = card ((steps_to w)\<^sup>+ `` {i})"

definition tame :: "Workflow \<Rightarrow> ident \<Rightarrow> bool" where
  "tame w i \<longleftrightarrow> (\<forall>y. (i, y) \<in> (steps_to w)\<^sup>* \<longrightarrow> (y, y) \<notin> (steps_to w)\<^sup>+)"

lemma below_nodes: "(steps_to w)\<^sup>+ `` {i} \<subseteq> set (graph_nodes w)"
proof
  fix y assume "y \<in> (steps_to w)\<^sup>+ `` {i}"
  then obtain z where "y \<in> set (succs w z)" by (auto dest: tranclD2)
  then show "y \<in> set (graph_nodes w)" using wg.succ_nodes [of w z] by blast
qed

lemma below_fuel: "below w i < graph_fuel w"
  using card_mono [OF _ below_nodes, of w i] card_length [of "graph_nodes w"]
  by (simp add: below_def graph_fuel_def)

lemma below_less:
  assumes "(i, j) \<in> (steps_to w)\<^sup>+" and "tame w i"
  shows "below w j < below w i \<and> tame w j"
proof -
  have "(steps_to w)\<^sup>+ `` {j} \<subseteq> (steps_to w)\<^sup>+ `` {i}" using assms(1) by auto
  moreover have "j \<in> (steps_to w)\<^sup>+ `` {i}" "j \<notin> (steps_to w)\<^sup>+ `` {j}"
    using assms by (auto simp: tame_def trancl_into_rtrancl)
  ultimately have "(steps_to w)\<^sup>+ `` {j} \<subset> (steps_to w)\<^sup>+ `` {i}" by blast
  then have "below w j < below w i"
    unfolding below_def by (rule psubset_card_mono [OF finite_subset [OF below_nodes finite_set]])
  moreover have "tame w j"
    using assms by (auto simp: tame_def intro: rtrancl_trans trancl_into_rtrancl)
  ultimately show ?thesis by simp
qed

lemma rebuild_returns:
  "\<forall>a \<in> set as. tame w (ac_id a) \<and> below w (ac_id a) < fuel
     \<Longrightarrow> rebuildControlFlow fuel w P as \<noteq> None"
proof (induction fuel arbitrary: P as)
  case 0
  then show ?case by (cases as) auto
next
  case (Suc n)
  note depth = Suc.IH
  from Suc.prems show ?case
  proof (induction as arbitrary: P)
    case (Cons a as)
    show ?case
    proof (cases "ac_id a \<in> set P")
      case True
      then show ?thesis using Cons by simp
    next
      case False
      have "rebuildControlFlow n w [] bs \<noteq> None" if "set bs \<subseteq> set (nested_actions w a)" for bs
      proof (rule depth, rule ballI)
        fix b assume "b \<in> set bs"
        with that have "(ac_id a, ac_id b) \<in> (steps_to w)\<^sup>+" using nested_below by blast
        then show "tame w (ac_id b) \<and> below w (ac_id b) < n"
          using below_less [of "ac_id a" "ac_id b" w] Cons.prems by auto
      qed
      then obtain a' P' where "reconstruct (rebuildControlFlow n w []) w a P = Some (a', P')"
        using reconstruct_total [of w a "rebuildControlFlow n w []" P] by auto
      then show ?thesis using False Cons by auto
    qed
  qed simp
qed

text \<open>
  When some action of a topologically ordered list has nested actions, rebuilding leaves an action that
  refers to one that is not in the result: the nested actions come later and are skipped.
\<close>

lemma rebuild_dangling:
  assumes "rebuildControlFlow fuel w [] as = Some r" and "distinct (map ac_id as)"
    and "succs_later (succs w) (map ac_id as)"
    and "\<And>a. a \<in> set as \<Longrightarrow> patterned w a \<Longrightarrow> nested_actions w a \<noteq> []"
    and "\<exists>a \<in> set as. patterned w a"
  shows "\<exists>a \<in> set r. \<exists>b. JStr (ac_id b) \<in> set (references a) \<and> ac_id b \<notin> ac_id ` set r
    \<and> (\<exists>c \<in> set as. patterned w c \<and> b \<in> set (nested_actions w c) \<and> ac_id a = ac_id c)"
proof -
  obtain pre a post where as: "as = pre @ a # post" and a: "patterned w a"
    and pre: "list_all (\<lambda>a. \<not> patterned w a) pre"
    using split_list_first_prop [OF assms(5)] unfolding list_all_iff by blast
  let ?P = "rev (map ac_id pre)"
  have dist: "distinct (map ac_id pre)" "ac_id a \<notin> set ?P" using assms(2) as by auto
  obtain r0 where r0: "rebuildControlFlow fuel w ?P (a # post) = Some r0" "r = pre @ r0"
    using assms(1) rebuild_plain [OF pre dist(1), of "[]" fuel "a # post"] as by (auto split: option.splits)
  from r0(1) obtain a' P' r' where r': "reconstruct (case fuel of 0 \<Rightarrow> (\<lambda>_. None) | Suc n \<Rightarrow> rebuildControlFlow n w [])
        w a ?P = Some (a', P')" "rebuildControlFlow fuel w P' post = Some r'" "r0 = a' # r'"
    using dist(2) by (cases rule: rebuild_ConsE) auto
  have ids: "ac_id a' = ac_id a" "set P' = insert (ac_id a) (set ?P \<union> ac_id ` set (nested_actions w a))"
    using reconstruct_ids [OF r'(1)] by simp_all
  have "\<exists>b \<in> set (nested_actions w a). JStr (ac_id b) \<in> set (references a')"
    by (rule reconstruct_refers [OF r'(1)])
      (use assms(4) [OF _ a] as in \<open>auto split: nat.splits dest: rebuild_head\<close>)
  then obtain b where b: "b \<in> set (nested_actions w a)" "JStr (ac_id b) \<in> set (references a')" ..
  have later: "ac_id b \<in> set (map ac_id post)"
  proof -
    obtain z where z: "z \<in> set (succs w (ac_id a))" "(z, ac_id b) \<in> (steps_to w)\<^sup>*"
      using nested_below [OF b(1)] by (auto dest: tranclD)
    have "succs_later (succs w) (map ac_id (a # post))"
      using assms(3) as by (induction pre arbitrary: as) auto
    then show ?thesis
      using wg.succs_later_closed [OF z(2), of "map ac_id post"] z(1) by auto
  qed
  have "ac_id b \<notin> ac_id ` set r"
  proof -
    have "ac_id b \<notin> ac_id ` set r'" using rebuild_ids [OF r'(2)] ids(2) b(1) by auto
    moreover have "ac_id b \<notin> ac_id ` set pre" "ac_id b \<noteq> ac_id a" using later assms(2) as by auto
    ultimately show ?thesis using r0(2) r'(3) ids(1) by auto
  qed
  with b ids(1) a as r0(2) r'(3) show ?thesis by auto
qed

section \<open>Validation\<close>

lemma field_failure_None:
  "field_failure n as = None \<longleftrightarrow> (\<forall>a \<in> set as. ac_id a \<noteq> [] \<and> ac_type a \<noteq> [] \<and> \<not> falsy (ac_config a))"
  by (induction as arbitrary: n) auto

lemma duplicate_failure_None:
  "duplicate_failure S as = None \<longleftrightarrow> distinct (map ac_id as) \<and> ac_id ` set as \<inter> S = {}"
  by (induction as arbitrary: S) auto

lemma reference_failure_None:
  "reference_failure ids as = None \<longleftrightarrow> (\<forall>a \<in> set as. set (references a) \<subseteq> JStr ` ids)"
proof (induction as)
  case (Cons a as)
  have "validateActionReferences (references a) ids (ac_id a) = None \<longleftrightarrow> set (references a) \<subseteq> JStr ` ids"
    by (auto simp: validateActionReferences_def find_None_iff)
  with Cons show ?case by (cases "validateActionReferences (references a) ids (ac_id a)") auto
qed simp

lemma cleanup_fields [simp]:
  "ac_id (cleanupAction o' a) = ac_id a" "ac_type (cleanupAction o' a) = ac_type a"
  "ac_config (cleanupAction o' a) = ac_config a" "references (cleanupAction o' a) = references a"
  by (simp_all add: references_def cleanupAction_def)

lemma validate_None:
  "validateSequentialWorkflow as = None \<longleftrightarrow>
     (\<forall>a \<in> set as. ac_id a \<noteq> [] \<and> ac_type a \<noteq> [] \<and> \<not> falsy (ac_config a)
        \<and> set (references a) \<subseteq> JStr ` ac_id ` set as)
     \<and> distinct (map ac_id as)"
  using field_failure_None [of 0 as] duplicate_failure_None [of "{}" as]
    reference_failure_None [of "ac_id ` set as" as]
  by (cases "field_failure 0 as"; cases "duplicate_failure {} as";
      cases "reference_failure (ac_id ` set as) as")
    (simp_all add: validateSequentialWorkflow_def ball_conj_distrib)

lemma validate_cleaned:
  "validateSequentialWorkflow (cleanupActions as o') = None \<longleftrightarrow>
     (\<forall>a \<in> set as. ac_id a \<noteq> [] \<and> ac_type a \<noteq> [] \<and> \<not> falsy (ac_config a)
        \<and> set (references a) \<subseteq> JStr ` ac_id ` set as)
     \<and> distinct (map ac_id as)"
proof -
  have "ac_id \<circ> cleanupAction o' = ac_id" by (simp add: fun_eq_iff)
  then show ?thesis
    unfolding validate_None cleanupActions_def by (simp add: image_image)
qed

section \<open>The sorted actions\<close>

text \<open>Every connection leads to an action, and no identifier is empty.\<close>

definition closed_workflow :: "Workflow \<Rightarrow> bool" where
  "closed_workflow w \<longleftrightarrow> set (all_targets w) \<subseteq> ac_id ` set (wf_actions w) \<and> [] \<notin> ac_id ` set (wf_actions w)"

lemma order_tame:
  assumes "getTopologicalOrder w = Some os" and "i \<in> set os"
  shows "tame w i"
proof -
  have "\<not> hasCycles w" using assms(1) by (auto simp: getTopologicalOrder_def split: if_splits)
  moreover obtain e where "e \<in> set (getEntryPoints w)" "(e, i) \<in> (steps_to w)\<^sup>*"
    using topological_order(3) [OF assms(1)] assms(2) by auto
  ultimately show ?thesis by (auto simp: tame_def hasCycles_iff intro: rtrancl_trans)
qed

lemma sorted_mem:
  "a \<in> set (List.map_filter (getActionById w) os) \<Longrightarrow> a \<in> set (wf_actions w) \<and> ac_id a \<in> set os
     \<and> getActionById w (ac_id a) = Some a"
  using getActionById_mem [of w] by (force simp: List.map_filter_def)

lemma order_known:
  assumes "getTopologicalOrder w = Some os" and "closed_workflow w" and "i \<in> set os"
  shows "getActionById w i \<noteq> None"
proof -
  obtain e where e: "e \<in> set (getEntryPoints w)" "(e, i) \<in> (steps_to w)\<^sup>*"
    using topological_order(3) [OF assms(1)] assms(3) by auto
  from e(2) show ?thesis
  proof (cases rule: rtranclE)
    case base
    then show ?thesis using e(1) unfolding getActionById_None by (auto simp: getEntryPoints_def)
  next
    case (step y)
    then have "i \<in> set (all_targets w)" using succs_targets [of w y] by auto
    then show ?thesis using assms(2) unfolding getActionById_None closed_workflow_def by blast
  qed
qed

lemma sorted_map:
  assumes "\<And>i. i \<in> set os \<Longrightarrow> getActionById w i \<noteq> None"
  shows "List.map_filter (getActionById w) os = map (\<lambda>i. the (getActionById w i)) os
    \<and> map ac_id (List.map_filter (getActionById w) os) = os"
proof -
  have "List.map_filter (getActionById w) os = map (\<lambda>i. the (getActionById w i)) os"
    using assms by (simp add: List.map_filter_def filter_True comp_def)
  moreover have "ac_id (the (getActionById w i)) = i" if "i \<in> set os" for i
    using assms [OF that] getActionById_mem by fastforce
  ultimately show ?thesis by (simp add: map_idI)
qed

lemma rebuild_sorted_returns:
  assumes "getTopologicalOrder w = Some os"
  shows "rebuildControlFlow (graph_fuel w) w [] (List.map_filter (getActionById w) os) \<noteq> None"
  by (rule rebuild_returns) (use order_tame [OF assms] sorted_mem below_fuel in blast)

lemma patterned_nested:
  assumes "closed_workflow w" and "checkIfBranchStructure w = []" and "a \<in> set (wf_actions w)"
    and "tame w (ac_id a)" and "patterned w a"
  shows "nested_actions w a \<noteq> []"
proof (cases rule: pattern_cases [of w a])
  case (branches p)
  from branches(1) obtain u t e where p: "map_of (wf_connections w) (ac_id a) = Some u" "ou_main u = Some [t, e]"
    "ip_thenBranch p = extractBranchActions w (first_target t)"
    "ip_elseBranch p = extractBranchActions w (first_target e)"
    by (rule detectIfPattern_SomeE)
  have "if_issues w a = []"
    using assms(2,3) branches(3) by (simp add: checkIfBranchStructure_def getActionsByType_def)
  then have "t \<noteq> [] \<or> e \<noteq> []"
    using p(1,2) by (auto simp: if_issues_def getActionConnections_def)
  moreover have "extractBranchActions w (first_target out) \<noteq> []" if out: "out \<in> {t, e}" "out \<noteq> []" for out
  proof (cases out)
    case (Cons c cs)
    have "cn_action c \<in> set (all_targets w)"
      using main_target [OF p(1,2), of out c] out Cons succs_targets [of w "ac_id a"] by auto
    then have "cn_action c \<in> ac_id ` set (wf_actions w)" using assms(1) by (auto simp: closed_workflow_def)
    then show ?thesis
      using Cons assms(1) branch_hd(1) [of w "[]" "cn_action c"]
      by (auto simp: extractBranchActions_def getActionById_None closed_workflow_def)
  qed (use that in simp)
  ultimately show ?thesis using branches(4) p(3,4) by auto
next
  case (body q)
  from body(2) obtain u c cs outs where q: "map_of (wf_connections w) (ac_id a) = Some u"
    "ou_main u = Some ((c # cs) # outs)" "lp_bodyActions q = extractLoopBodyActions w (ac_id a) (cn_action c)"
    by (rule detectLoopPattern_SomeE)
  have step: "cn_action c \<in> set (succs w (ac_id a))" using main_target [OF q(1,2), of "c # cs" c] by simp
  moreover have "(ac_id a, ac_id a) \<notin> (steps_to w)\<^sup>+" using assms(4) by (simp add: tame_def)
  ultimately have "cn_action c \<noteq> ac_id a" by (metis edges_iff r_into_trancl')
  moreover have "cn_action c \<in> set (graph_nodes w)" using step wg.succ_nodes [of w "ac_id a"] by blast
  moreover have "getActionById w (cn_action c) \<noteq> None"
    using step succs_targets [of w "ac_id a"] assms(1) unfolding getActionById_None closed_workflow_def by blast
  ultimately have "extractLoopBodyActions w (ac_id a) (cn_action c) \<noteq> []"
    using loop_body [of "cn_action c" w "ac_id a"] by fastforce
  then show ?thesis using body(4) q(3) by simp
qed (use assms(5) in simp)

lemma convert_Inr_cases:
  assumes "convert w options = Some (Inr as)"
  obtains os r where "lr_linearizable (check_linearizable w)" "getTopologicalOrder w = Some os"
    "rebuildControlFlow (graph_fuel w) w [] (List.map_filter (getActionById w) os) = Some r"
    "as = cleanupActions r options"
    "opt_true (cv_validateOutput options) \<Longrightarrow> validateSequentialWorkflow (cleanupActions r options) = None"
proof (cases "getTopologicalOrder w")
  case (Some os)
  with assms that show thesis
    by (auto simp: convert_def topologicalSort_def Let_def split: if_splits option.splits)
qed (use assms in \<open>auto simp: convert_def topologicalSort_def split: if_splits\<close>)

text \<open>In a linearizable closed workflow, a reachable action with a pattern leaves a dangling reference.\<close>

lemma rebuild_dangles:
  assumes "closed_workflow w" and "lr_linearizable (check_linearizable w)" and "getTopologicalOrder w = Some os"
    and "rebuildControlFlow (graph_fuel w) w [] (List.map_filter (getActionById w) os) = Some r"
    and "i \<in> set os" and "getActionById w i = Some c" and "patterned w c"
  shows "\<exists>a \<in> set r. \<exists>j \<in> set os. JStr j \<in> set (references a) \<and> j \<notin> ac_id ` set r"
proof -
  let ?as = "List.map_filter (getActionById w) os"
  note order = topological_order [OF assms(3)]
  have as: "?as = map (\<lambda>i. the (getActionById w i)) os" "map ac_id ?as = os"
    using sorted_map order_known [OF assms(3,1)] by blast+
  have "c \<in> set ?as" using as(1) assms(5,6) by force
  moreover have "nested_actions w a \<noteq> []" if "a \<in> set ?as" "patterned w a" for a
    using patterned_nested [OF assms(1)] assms(2) sorted_mem [OF that(1)] order_tame [OF assms(3)] that(2)
    by (simp add: check_linearizable_iff)
  ultimately obtain a b d where ab: "a \<in> set r" "JStr (ac_id b) \<in> set (references a)" "ac_id b \<notin> ac_id ` set r"
    and d: "d \<in> set ?as" "b \<in> set (nested_actions w d)"
    using rebuild_dangling [OF assms(4)] order(1,2) as(2) assms(7) by metis
  have "ac_id b \<in> set os"
    using wg.succs_later_closed [OF trancl_into_rtrancl [OF nested_below [OF d(2)]] order(2)] sorted_mem [OF d(1)]
    by simp
  with ab show ?thesis by blast
qed

lemma rebuild_unpatterned:
  "\<forall>a \<in> set as. \<not> patterned w a \<Longrightarrow> distinct (map ac_id as) \<Longrightarrow> rebuildControlFlow fuel w [] as = Some as"
  using rebuild_plain [of w as "[]" fuel "[]"] by (simp add: list_all_iff)

lemma if_patterned:
  assumes "lr_linearizable (check_linearizable w)" and "a \<in> set (wf_actions w)" and "ac_type a = ''IF''"
  shows "patterned w a"
proof -
  have "if_issues w a = []"
    using assms by (simp add: check_linearizable_iff checkIfBranchStructure_def getActionsByType_def)
  then show ?thesis
    using assms(3) by (auto simp: if_issues_def patterned_def detectIfPattern_def Let_def split: option.splits list.splits)
qed

text \<open>What can follow in a converted workflow, and that nothing else passes the validation.\<close>

definition convertible :: "Workflow \<Rightarrow> ident list \<Rightarrow> ident \<Rightarrow> bool" where
  "convertible w os i \<longleftrightarrow> (\<exists>a. getActionById w i = Some a \<and> ac_type a \<notin> {[], ''IF''} \<and> \<not> falsy (ac_config a)
     \<and> (ac_type a = ''LOOP'' \<longrightarrow> detectLoopPattern w a = None
          \<and> set (config_array (ac_config a) ''actions'') \<subseteq> JStr ` set os))"

lemma sorted_of:
  assumes "getTopologicalOrder w = Some os" and "closed_workflow w"
  shows "List.map_filter (getActionById w) os = map (\<lambda>i. the (getActionById w i)) os"
    "map ac_id (List.map_filter (getActionById w) os) = os"
    "ac_id ` set (List.map_filter (getActionById w) os) = set os"
proof -
  show *: "List.map_filter (getActionById w) os = map (\<lambda>i. the (getActionById w i)) os"
    "map ac_id (List.map_filter (getActionById w) os) = os"
    using sorted_map order_known [OF assms] by blast+
  then show "ac_id ` set (List.map_filter (getActionById w) os) = set os" by (metis set_map)
qed

lemma rebuild_accepted:
  assumes "closed_workflow w" and "lr_linearizable (check_linearizable w)" and "getTopologicalOrder w = Some os"
    and "rebuildControlFlow (graph_fuel w) w [] (List.map_filter (getActionById w) os) = Some r"
    and "validateSequentialWorkflow (cleanupActions r options) = None"
  shows "r = List.map_filter (getActionById w) os \<and> (\<forall>i \<in> set os. convertible w os i)"
proof -
  let ?as = "List.map_filter (getActionById w) os"
  note sorted = sorted_of [OF assms(3,1)]
  have plain: "\<not> patterned w c" if "c \<in> set ?as" for c
    using rebuild_dangles [OF assms(1-4), of "ac_id c" c] sorted_mem [OF that] assms(5)
    unfolding validate_cleaned by blast
  have "distinct (map ac_id ?as)" by (simp only: sorted(2) topological_order(1) [OF assms(3)])
  then have r: "r = ?as"
    using rebuild_unpatterned [of ?as w "graph_fuel w"] plain assms(4) by (metis option.inject)
  have "convertible w os i" if i: "i \<in> set os" for i
  proof -
    obtain a where a: "getActionById w i = Some a" using order_known [OF assms(3,1) i] by auto
    then have mem: "a \<in> set ?as" using sorted(1) i by force
    then have "\<not> patterned w a" by (rule plain)
    then have "ac_type a \<noteq> ''IF''" "detectLoopPattern w a = None"
      using if_patterned [OF assms(2)] sorted_mem [OF mem] by (blast, simp add: patterned_def)
    moreover have "ac_type a \<noteq> []" "\<not> falsy (ac_config a)" "set (references a) \<subseteq> JStr ` set os"
      using assms(5) mem unfolding r validate_cleaned sorted(3) by blast+
    ultimately show ?thesis using a by (auto simp: convertible_def references_def)
  qed
  with r show ?thesis by blast
qed

lemma convertible_accepted:
  assumes "closed_workflow w" and "getTopologicalOrder w = Some os" and "\<forall>i \<in> set os. convertible w os i"
  shows "rebuildControlFlow (graph_fuel w) w [] (List.map_filter (getActionById w) os)
      = Some (List.map_filter (getActionById w) os)
    \<and> validateSequentialWorkflow (cleanupActions (List.map_filter (getActionById w) os) options) = None"
proof -
  let ?as = "List.map_filter (getActionById w) os"
  note sorted = sorted_of [OF assms(2,1)]
  have mem: "ac_type a \<notin> {[], ''IF''} \<and> \<not> falsy (ac_config a) \<and> (ac_type a = ''LOOP'' \<longrightarrow>
      detectLoopPattern w a = None \<and> set (config_array (ac_config a) ''actions'') \<subseteq> JStr ` set os)
      \<and> ac_id a \<noteq> []" if "a \<in> set ?as" for a
  proof -
    have a: "a \<in> set (wf_actions w)" "ac_id a \<in> set os" "getActionById w (ac_id a) = Some a"
      using sorted_mem [OF that] by simp_all
    have "convertible w os (ac_id a)" using assms(3) a(2) by blast
    moreover have "ac_id a \<noteq> []" using assms(1) a(1) by (metis closed_workflow_def imageI)
    ultimately show ?thesis using a(3) by (simp add: convertible_def)
  qed
  have dist: "distinct (map ac_id ?as)" by (simp only: sorted(2) topological_order(1) [OF assms(2)])
  have "\<forall>a \<in> set ?as. \<not> patterned w a"
    using mem by (auto simp: patterned_def detectIfPattern_def detectLoopPattern_def split: if_splits)
  moreover have "\<forall>a \<in> set ?as. set (references a) \<subseteq> JStr ` set os"
    using mem by (auto simp: references_def)
  ultimately show ?thesis
    unfolding validate_cleaned sorted(3) using rebuild_unpatterned [OF _ dist] dist mem by blast
qed

text \<open>A workflow with a reachable IF action up to its rebuilding.\<close>

lemma reachable_if:
  assumes "closed_workflow w" and "lr_linearizable (check_linearizable w)"
    and "(e, i) \<in> {(x, y). y \<in> set (getNextActions w x None)}\<^sup>*" and "e \<in> set (getEntryPoints w)"
    and "getActionById w i = Some a" and "ac_type a = ''IF''"
  obtains os r b j where "getTopologicalOrder w = Some os"
    "rebuildControlFlow (graph_fuel w) w [] (List.map_filter (getActionById w) os) = Some r"
    "b \<in> set r" "j \<in> set os" "JStr j \<in> set (references b)" "j \<notin> ac_id ` set r"
proof -
  have "\<not> hasCycles w"
    using assms(2) no_merge_no_cycle unfolding check_linearizable_iff hasCycles_iff by blast
  then obtain os where os: "getTopologicalOrder w = Some os" using topological_order_exists by blast
  have "steps_to w = {(x, y). y \<in> set (getNextActions w x None)}" by (simp add: edges_def succs_def)
  then have i: "i \<in> set os" using topological_order(3) [OF os] assms(3,4) by auto
  obtain r where r: "rebuildControlFlow (graph_fuel w) w [] (List.map_filter (getActionById w) os) = Some r"
    using rebuild_sorted_returns [OF os] by auto
  have "patterned w a" using if_patterned [OF assms(2) _ assms(6)] getActionById_mem [OF assms(5)] by blast
  then show thesis
    using rebuild_dangles [OF assms(1,2) os r i assms(5)] that [OF os r] by blast
qed

lemma convert_eq:
  assumes "lr_linearizable (check_linearizable w)" and "getTopologicalOrder w = Some os"
    and "rebuildControlFlow (graph_fuel w) w [] (List.map_filter (getActionById w) os) = Some r"
  shows "convert w options = Some
    (if opt_true (cv_validateOutput options)
     then case validateSequentialWorkflow (cleanupActions r options) of
            Some f \<Rightarrow> Inl (WorkflowValidationError f) | None \<Rightarrow> Inr (cleanupActions r options)
     else Inr (cleanupActions r options))"
  using assms by (simp add: convert_def topologicalSort_def check_linearizable_iff Let_def)

section \<open>Properties\<close>

text \<open>
  the conversion returns on every workflow, with a list of actions or an error: the recursion into
  nested branches ends.
\<close>

theorem convert_returns: "\<exists>r. convert w options = Some r"
proof (cases "getTopologicalOrder w")
  case None
  then show ?thesis by (simp add: convert_def topologicalSort_def)
next
  case (Some os)
  with rebuild_sorted_returns [OF Some] show ?thesis
    by (auto simp: convert_def topologicalSort_def)
qed

text \<open>
  C26: when the conversion succeeds. A workflow whose connections all lead to actions, and none of whose actions has the
  empty string as identifier, is converted, with validation, exactly if it is linearizable (which includes graph format
  and at least one entry of connections), no action of its topological order is an IF or a LOOP with a body, all of
  these actions have a type and a configuration, and the lists of LOOP actions refer to actions of the order;
  the result is then the topological order, cleaned. So IF workflows, LOOP workflows with a body and single actions
  with the connections \<open>{}\<close> are refused, although tests/workflow-converter/graph-to-sequential.test.ts expects them to be
  converted; the test configuration (vitest.config.ts) does not collect that file.
\<close>

theorem convert_accepts_iff:
  assumes "set (all_targets w) \<subseteq> ac_id ` set (wf_actions w)" and "[] \<notin> ac_id ` set (wf_actions w)"
    and "cv_validateOutput options \<noteq> Some False"
  shows "convert w options = Some (Inr as) \<longleftrightarrow>
    lr_linearizable (check_linearizable w) \<and>
    (\<exists>os. getTopologicalOrder w = Some os
       \<and> as = map (\<lambda>i. cleanupAction options (the (getActionById w i))) os
       \<and> (\<forall>i \<in> set os. \<exists>a. getActionById w i = Some a \<and> ac_type a \<notin> {[], ''IF''} \<and> \<not> falsy (ac_config a)
            \<and> (ac_type a = ''LOOP'' \<longrightarrow> detectLoopPattern w a = None
                 \<and> set (config_array (ac_config a) ''actions'') \<subseteq> JStr ` set os)))"
proof -
  have closed: "closed_workflow w" and val: "opt_true (cv_validateOutput options)"
    using assms by (simp_all add: closed_workflow_def opt_true_def)
  have "convert w options = Some (Inr as) \<longleftrightarrow> lr_linearizable (check_linearizable w)
      \<and> (\<exists>os. getTopologicalOrder w = Some os
        \<and> as = map (\<lambda>i. cleanupAction options (the (getActionById w i))) os \<and> (\<forall>i \<in> set os. convertible w os i))"
  proof
    assume "convert w options = Some (Inr as)"
    then show "lr_linearizable (check_linearizable w) \<and> (\<exists>os. getTopologicalOrder w = Some os
        \<and> as = map (\<lambda>i. cleanupAction options (the (getActionById w i))) os \<and> (\<forall>i \<in> set os. convertible w os i))"
      by (rule convert_Inr_cases)
        (use rebuild_accepted [OF closed] sorted_of(1) [OF _ closed] val in \<open>fastforce simp: cleanupActions_def\<close>)
  next
    assume "lr_linearizable (check_linearizable w) \<and> (\<exists>os. getTopologicalOrder w = Some os
        \<and> as = map (\<lambda>i. cleanupAction options (the (getActionById w i))) os \<and> (\<forall>i \<in> set os. convertible w os i))"
    then show "convert w options = Some (Inr as)"
      using convertible_accepted [OF closed, of _ options] sorted_of(1) [OF _ closed] val
      by (auto simp: convert_eq cleanupActions_def)
  qed
  then show ?thesis unfolding convertible_def by simp
qed

text \<open>
  control flow makes the conversion fail. A linearizable workflow whose connections all lead to
  actions and in which an IF action can be reached is rejected with a validation error, although the
  rebuilding of IF and LOOP actions is what the converter is for: the branches are taken out of the
  list to which their identifiers are then required to belong.
\<close>

theorem convert_rejects_if:
  assumes "set (all_targets w) \<subseteq> ac_id ` set (wf_actions w)" and "[] \<notin> ac_id ` set (wf_actions w)"
    and "cv_validateOutput options \<noteq> Some False" and "lr_linearizable (check_linearizable w)"
    and "(e, i) \<in> {(x, y). y \<in> set (getNextActions w x None)}\<^sup>*" and "e \<in> set (getEntryPoints w)"
    and "getActionById w i = Some a" and "ac_type a = ''IF''"
  shows "\<exists>f. convert w options = Some (Inl (WorkflowValidationError f))"
proof -
  have "closed_workflow w" using assms by (simp add: closed_workflow_def)
  then obtain os r b j where o: "getTopologicalOrder w = Some os"
      "rebuildControlFlow (graph_fuel w) w [] (List.map_filter (getActionById w) os) = Some r"
    and "b \<in> set r" "JStr j \<in> set (references b)" "j \<notin> ac_id ` set r"
    using reachable_if [OF _ assms(4-8)] by metis
  then have "validateSequentialWorkflow (cleanupActions r options) \<noteq> None"
    unfolding validate_cleaned by blast
  then show ?thesis using convert_eq [OF assms(4) o] assms(3) by (auto simp: opt_true_def)
qed

text \<open>
  without validation the conversion of such a workflow succeeds and loses actions: the result
  refers to an action that can be reached in the workflow and is not in the result.
\<close>

theorem convert_loses_nested:
  assumes "set (all_targets w) \<subseteq> ac_id ` set (wf_actions w)" and "[] \<notin> ac_id ` set (wf_actions w)"
    and "cv_validateOutput options = Some False" and "lr_linearizable (check_linearizable w)"
    and "(e, i) \<in> {(x, y). y \<in> set (getNextActions w x None)}\<^sup>*" and "e \<in> set (getEntryPoints w)"
    and "getActionById w i = Some a" and "ac_type a = ''IF''"
  shows "\<exists>as b j. convert w options = Some (Inr as) \<and> b \<in> set as \<and> JStr j \<in> set (references b)
    \<and> j \<notin> ac_id ` set as \<and> getActionById w j \<noteq> None"
proof -
  have closed: "closed_workflow w" using assms by (simp add: closed_workflow_def)
  then obtain os r b j where o: "getTopologicalOrder w = Some os"
      "rebuildControlFlow (graph_fuel w) w [] (List.map_filter (getActionById w) os) = Some r"
    and b: "b \<in> set r" "j \<in> set os" "JStr j \<in> set (references b)" "j \<notin> ac_id ` set r"
    using reachable_if [OF _ assms(4-8)] by metis
  have "convert w options = Some (Inr (cleanupActions r options))"
    using convert_eq [OF assms(4) o] assms(3) by (simp add: opt_true_def)
  moreover have "cleanupAction options b \<in> set (cleanupActions r options)"
    "j \<notin> ac_id ` set (cleanupActions r options)"
    using b by (auto simp: cleanupActions_def)
  moreover have "JStr j \<in> set (references (cleanupAction options b))" using b(3) by simp
  moreover have "getActionById w j \<noteq> None" using order_known [OF o(1) closed b(2)] .
  ultimately show ?thesis by blast
qed

section \<open>Examples\<close>

definition conv_options :: "bool option \<Rightarrow> ConversionOptions" where
  "conv_options validate = \<lparr>cv_preserveIds = None, cv_preserveNames = None, cv_validateOutput = validate\<rparr>"

definition conv_action :: "ident \<Rightarrow> string \<Rightarrow> Action" where
  "conv_action i t = (action_example i)\<lparr>ac_type := t, ac_config := JObj fmempty\<rparr>"

definition conv_chain :: Workflow where
  "conv_chain = (workflow_example [] [(''a'', [''b''])])
     \<lparr>wf_actions := [conv_action ''a'' ''CLICK'', conv_action ''b'' ''TYPE'']\<rparr>"

definition conv_if :: Workflow where
  "conv_if = (workflow_example [] [])
     \<lparr>wf_actions := [conv_action ''a'' ''IF'', conv_action ''b'' ''CLICK'', conv_action ''c'' ''CLICK''],
      wf_connections := [(''a'', (main_to [])\<lparr>ou_main :=
        Some (map (\<lambda>i. [\<lparr>cn_action = i, cn_type = CMain, cn_index = 0, cn_edge = JUndef\<rparr>]) [''b'', ''c''])\<rparr>)]\<rparr>"

lemmas conv_eval = conv_chain_def conv_if_def conv_options_def conv_action_def graph_eval
  findParallelBranches_def checkIfBranchStructure_def getActionsByType_def if_issues_def getActionById_def

lemma conv_if_linearizable: "lr_linearizable (check_linearizable conv_if)"
  unfolding check_linearizable_iff by (simp add: conv_eval)

theorem convert_accepts_iff_witness:
  "convert conv_chain (conv_options None)
    = Some (Inr [cleanupAction (conv_options None) (conv_action ''a'' ''CLICK''),
                 cleanupAction (conv_options None) (conv_action ''b'' ''TYPE'')])"
proof -
  have top: "getTopologicalOrder conv_chain = Some [''a'', ''b'']"
    by (simp add: getTopologicalOrder_def hasCycles_def conv_eval)
  have lin: "lr_linearizable (check_linearizable conv_chain)"
    unfolding check_linearizable_iff by (simp add: conv_eval)
  show ?thesis
    by (subst convert_accepts_iff) (auto simp: top lin, auto simp: conv_eval)
qed

theorem convert_rejects_if_witness:
  "\<exists>f. convert conv_if (conv_options None) = Some (Inl (WorkflowValidationError f))"
  by (rule convert_rejects_if [where e = "''a''" and i = "''a''" and a = "conv_action ''a'' ''IF''"])
    (simp_all add: conv_if_linearizable, simp_all add: conv_eval)

theorem convert_loses_nested_witness:
  "\<exists>as b j. convert conv_if (conv_options (Some False)) = Some (Inr as) \<and> b \<in> set as
    \<and> JStr j \<in> set (references b) \<and> j \<notin> ac_id ` set as \<and> getActionById conv_if j \<noteq> None"
  by (rule convert_loses_nested [where e = "''a''" and i = "''a''" and a = "conv_action ''a'' ''IF''"])
    (simp_all add: conv_if_linearizable, simp_all add: conv_eval)

end
