(* ===== verification/Sequential_To_Graph.thy ===== *)
theory Sequential_To_Graph
  imports Graph_To_Sequential Auto_Layout
begin

text \<open>
  The conversion of a list of actions to a graph workflow
  (frontend/src/lib/workflow-converter/sequential-to-graph-converter.ts): the nodes, the connections of
  control flow actions, the chain of the other actions, and the layout. Configurations have their
  declared types: an absent list of identifiers is \<open>undefined\<close>, a present one holds strings. Reading a
  property of a configuration that is \<open>undefined\<close> or \<open>null\<close>, or the cases of a SWITCH that has none,
  throws. Generated identifiers are arguments, one for each action, and so is the date.
\<close>

section \<open>Options and results\<close>

record ConverterOptions =
  op_workflowName :: "string option"
  op_workflowId :: "string option"
  op_version :: "string option"
  op_preserveActionIds :: "bool option"
  op_horizontalSpacing :: "rat option"
  op_verticalSpacing :: "rat option"
  op_startX :: "rat option"
  op_startY :: "rat option"

record ConversionStats =
  cs_actionsConverted :: nat
  cs_connectionsCreated :: nat
  cs_controlFlowExpanded :: nat
  cs_maxDepth :: nat

record ConversionResult =
  cr_workflow :: Workflow
  cr_stats :: ConversionStats
  cr_warnings :: "string list"

record ActionNode =
  an_action :: Action
  an_depth :: nat
  an_verticalOffset :: nat
  an_isControlFlow :: bool
  an_parentId :: "ident option"

text \<open>The fields of the converter; the options with their defaults.\<close>

record SequentialToGraphConverter =
  sg_workflowName :: string
  sg_workflowId :: ident
  sg_version :: string
  sg_preserveActionIds :: bool
  sg_layout :: LayoutOptions
  sg_actionNodes :: "(ident \<times> ActionNode) list"
  sg_connections :: Connections
  sg_warnings :: "string list"
  sg_stats :: ConversionStats

datatype read_error = Config_of_nothing ident | Cases_of_nothing ident

definition no_stats :: ConversionStats where
  "no_stats = \<lparr>cs_actionsConverted = 0, cs_connectionsCreated = 0, cs_controlFlowExpanded = 0, cs_maxDepth = 0\<rparr>"

definition string_or :: "string option \<Rightarrow> string \<Rightarrow> string" where
  "string_or s d = (case s of None \<Rightarrow> d | Some t \<Rightarrow> if t = [] then d else t)"

definition createConverter :: "ident \<Rightarrow> ConverterOptions \<Rightarrow> SequentialToGraphConverter" where
  "createConverter generated options =
     \<lparr>sg_workflowName = string_or (op_workflowName options) ''Converted Workflow'',
      sg_workflowId = string_or (op_workflowId options) generated,
      sg_version = string_or (op_version options) ''1.0.0'',
      sg_preserveActionIds = (op_preserveActionIds options = Some True),
      sg_layout = createAutoLayout (op_horizontalSpacing options) (op_verticalSpacing options)
        (op_startX options) (op_startY options) None,
      sg_actionNodes = [], sg_connections = [], sg_warnings = [], sg_stats = no_stats\<rparr>"

section \<open>Connections\<close>

definition no_outputs :: Outputs where
  "no_outputs = \<lparr>ou_main = None, ou_error = None, ou_success = None, ou_parallel = None\<rparr>"

fun set_output :: "ConnectionType \<Rightarrow> Connection list list \<Rightarrow> Outputs \<Rightarrow> Outputs" where
  "set_output CMain c u = u\<lparr>ou_main := Some c\<rparr>"
| "set_output CError c u = u\<lparr>ou_error := Some c\<rparr>"
| "set_output CSuccess c u = u\<lparr>ou_success := Some c\<rparr>"
| "set_output CParallel c u = u\<lparr>ou_parallel := Some c\<rparr>"

definition push_output :: "nat \<Rightarrow> Connection \<Rightarrow> Connection list list \<Rightarrow> Connection list list" where
  "push_output outputIndex c outputs =
     (let padded = outputs @ replicate (Suc outputIndex - length outputs) []
      in padded[outputIndex := padded ! outputIndex @ [c]])"

definition addConnection ::
    "ident \<Rightarrow> ident \<Rightarrow> ConnectionType \<Rightarrow> nat \<Rightarrow> SequentialToGraphConverter \<Rightarrow> SequentialToGraphConverter" where
  "addConnection sourceId targetId type outputIndex c =
     (let u = (case map_of (sg_connections c) sourceId of None \<Rightarrow> no_outputs | Some u \<Rightarrow> u);
          outputs = push_output outputIndex
            \<lparr>cn_action = targetId, cn_type = type, cn_index = 0, cn_edge = JUndef\<rparr> (output_of u type)
      in c\<lparr>sg_connections := obj_set sourceId (set_output type outputs u) (sg_connections c),
           sg_stats := (sg_stats c)\<lparr>cs_connectionsCreated := cs_connectionsCreated (sg_stats c) + 1\<rparr>\<rparr>)"

section \<open>Control flow\<close>

definition isControlFlowAction :: "string \<Rightarrow> bool" where
  "isControlFlowAction type \<longleftrightarrow>
     type \<in> set [''IF'', ''LOOP'', ''SWITCH'', ''TRY_CATCH'', ''BREAK'', ''CONTINUE'']"

text \<open>The identifiers under a key, and the connection to the first of them.\<close>

definition config_ids :: "json \<Rightarrow> string \<Rightarrow> ident list" where
  "config_ids config key =
     List.map_filter (\<lambda>j. case j of JStr s \<Rightarrow> Some s | _ \<Rightarrow> None) (config_array config key)"

definition link_first ::
    "ident list \<Rightarrow> ident \<Rightarrow> ConnectionType \<Rightarrow> nat \<Rightarrow> SequentialToGraphConverter \<Rightarrow> SequentialToGraphConverter" where
  "link_first ids actionId type index c =
     (if ids = [] then c else addConnection actionId (hd ids) type index c)"

definition handleIfAction :: "Action \<Rightarrow> ident \<Rightarrow> SequentialToGraphConverter \<Rightarrow> SequentialToGraphConverter" where
  "handleIfAction action actionId c =
     link_first (config_ids (ac_config action) ''elseActions'') actionId CMain 1
       (link_first (config_ids (ac_config action) ''thenActions'') actionId CMain 0 c)"

definition handleLoopAction :: "Action \<Rightarrow> ident \<Rightarrow> SequentialToGraphConverter \<Rightarrow> SequentialToGraphConverter" where
  "handleLoopAction action actionId c =
     link_first (config_ids (ac_config action) ''actions'') actionId CMain 0 c"

definition switch_cases :: "json \<Rightarrow> json list option" where
  "switch_cases config =
     (case config of
        JObj m \<Rightarrow> (case fmlookup m ''cases'' of Some (JArr cases) \<Rightarrow> Some cases | _ \<Rightarrow> None)
      | _ \<Rightarrow> None)"

definition handleSwitchAction ::
    "Action \<Rightarrow> ident \<Rightarrow> SequentialToGraphConverter \<Rightarrow> read_error + SequentialToGraphConverter" where
  "handleSwitchAction action actionId c =
     (case switch_cases (ac_config action) of
        None \<Rightarrow> Inl (Cases_of_nothing actionId)
      | Some cases \<Rightarrow>
          Inr (link_first (config_ids (ac_config action) ''defaultActions'') actionId CMain (length cases)
            (fold (\<lambda>(index, caseItem). link_first (config_ids caseItem ''actions'') actionId CMain index)
               (enumerate 0 cases) c)))"

definition handleTryCatchAction :: "Action \<Rightarrow> ident \<Rightarrow> SequentialToGraphConverter \<Rightarrow> SequentialToGraphConverter" where
  "handleTryCatchAction action actionId c =
     (let c1 = link_first (config_ids (ac_config action) ''tryActions'') actionId CSuccess 0 c;
          c2 = link_first (config_ids (ac_config action) ''catchActions'') actionId CError 0 c1
      in if config_ids (ac_config action) ''finallyActions'' = [] then c2
         else c2\<lparr>sg_warnings := sg_warnings c2 @
                [''Action '' @ actionId @ '': Finally actions require special execution handling'']\<rparr>)"

definition handleControlFlow ::
    "Action \<Rightarrow> ident \<Rightarrow> SequentialToGraphConverter \<Rightarrow> read_error + SequentialToGraphConverter" where
  "handleControlFlow action actionId c =
     (let c1 = c\<lparr>sg_stats := (sg_stats c)\<lparr>cs_controlFlowExpanded := cs_controlFlowExpanded (sg_stats c) + 1\<rparr>\<rparr>
      in if ac_type action \<notin> set [''IF'', ''LOOP'', ''SWITCH'', ''TRY_CATCH''] then Inr c1
         else if ac_config action = JUndef \<or> ac_config action = JNull then Inl (Config_of_nothing actionId)
         else if ac_type action = ''IF'' then Inr (handleIfAction action actionId c1)
         else if ac_type action = ''LOOP'' then Inr (handleLoopAction action actionId c1)
         else if ac_type action = ''SWITCH'' then handleSwitchAction action actionId c1
         else Inr (handleTryCatchAction action actionId c1))"

section \<open>The conversion\<close>

definition action_node :: "Action \<Rightarrow> ident \<Rightarrow> nat \<Rightarrow> nat \<Rightarrow> ident option \<Rightarrow> ActionNode" where
  "action_node action actionId depth verticalOffset parentId =
     \<lparr>an_action = action\<lparr>ac_id := actionId, ac_position := Some [0, 0]\<rparr>, an_depth = depth,
      an_verticalOffset = verticalOffset, an_isControlFlow = isControlFlowAction (ac_type action),
      an_parentId = parentId\<rparr>"

text \<open>\<open>gen\<close> is the identifier generated for the action at an index.\<close>

definition action_key :: "SequentialToGraphConverter \<Rightarrow> (nat \<Rightarrow> ident) \<Rightarrow> nat \<Rightarrow> Action \<Rightarrow> ident" where
  "action_key c gen i action = (if sg_preserveActionIds c then ac_id action else gen i)"

definition add_node :: "ident \<Rightarrow> ActionNode \<Rightarrow> SequentialToGraphConverter \<Rightarrow> SequentialToGraphConverter" where
  "add_node actionId node c =
     c\<lparr>sg_actionNodes := map_set actionId node (sg_actionNodes c),
       sg_stats := (sg_stats c)\<lparr>cs_actionsConverted := cs_actionsConverted (sg_stats c) + 1,
                                cs_maxDepth := max (cs_maxDepth (sg_stats c)) (an_depth node)\<rparr>\<rparr>"

fun processActions ::
    "(nat \<Rightarrow> ident) \<Rightarrow> nat \<Rightarrow> nat \<Rightarrow> ident option \<Rightarrow> nat \<Rightarrow> Action list \<Rightarrow> SequentialToGraphConverter
      \<Rightarrow> read_error + SequentialToGraphConverter" where
  "processActions gen depth verticalOffset parentId i [] c = Inr c"
| "processActions gen depth verticalOffset parentId i (action # actions) c =
     (let actionId = action_key c gen i action;
          c1 = add_node actionId (action_node action actionId depth verticalOffset parentId) c
      in case (if isControlFlowAction (ac_type action) then handleControlFlow action actionId c1 else Inr c1) of
           Inl e \<Rightarrow> Inl e
         | Inr c2 \<Rightarrow> processActions gen depth verticalOffset parentId (Suc i) actions c2)"

text \<open>
  The loop over the positions of the list of actions reads the keys of the map of nodes: pairs of
  neighbours, for as many positions as the list has.
\<close>

definition link_pair :: "ident \<times> ident \<Rightarrow> SequentialToGraphConverter \<Rightarrow> SequentialToGraphConverter" where
  "link_pair p c =
     (if fst p = [] \<or> snd p = [] then c
      else case map_of (sg_actionNodes c) (fst p) of
        None \<Rightarrow> c
      | Some node \<Rightarrow> if an_isControlFlow node then c else addConnection (fst p) (snd p) CMain 0 c)"

definition linkActions :: "Action list \<Rightarrow> SequentialToGraphConverter \<Rightarrow> SequentialToGraphConverter" where
  "linkActions actions c =
     (let actionIds = map fst (sg_actionNodes c)
      in fold link_pair (take (length actions - 1) (zip actionIds (tl actionIds))) c)"

definition assignPositions :: "SequentialToGraphConverter \<Rightarrow> SequentialToGraphConverter" where
  "assignPositions c =
     (let laid = layoutActions (sg_layout c) (map (\<lambda>(_, n). an_action n) (sg_actionNodes c)) (sg_connections c)
      in c\<lparr>sg_actionNodes := map2 (\<lambda>(k, n) a. (k, n\<lparr>an_action := (an_action n)\<lparr>ac_position := ac_position a\<rparr>\<rparr>))
             (sg_actionNodes c) laid\<rparr>)"

definition resetConverter :: "Action list \<Rightarrow> SequentialToGraphConverter \<Rightarrow> SequentialToGraphConverter" where
  "resetConverter actions c =
     c\<lparr>sg_actionNodes := [], sg_connections := [], sg_stats := no_stats,
       sg_warnings := (if actions = [] then [''Empty action list provided''] else [])\<rparr>"

definition build_workflow :: "string \<Rightarrow> SequentialToGraphConverter \<Rightarrow> Workflow" where
  "build_workflow now c =
     \<lparr>wf_id = sg_workflowId c, wf_name = sg_workflowName c, wf_version = sg_version c, wf_format = ''graph'',
      wf_actions = map (\<lambda>(_, n). an_action n) (sg_actionNodes c), wf_connections = sg_connections c,
      wf_category = None, wf_description = None, wf_initialScreenshotId = None, wf_initialStateIds = None,
      wf_variables = JUndef, wf_settings = JUndef,
      wf_metadata = Some \<lparr>md_viewMode = None, md_created = Some now,
        md_other = JObj (fmap_of_list [(''description'', JStr ''Converted from sequential format'')])\<rparr>,
      wf_tags = JUndef, wf_expectations = JUndef\<rparr>"

definition sg_convert ::
    "(nat \<Rightarrow> ident) \<Rightarrow> string \<Rightarrow> Action list \<Rightarrow> SequentialToGraphConverter \<Rightarrow> read_error + ConversionResult" where
  "sg_convert gen now actions c =
     (case processActions gen 0 0 None 0 actions (resetConverter actions c) of
        Inl e \<Rightarrow> Inl e
      | Inr c1 \<Rightarrow>
          (let c2 = assignPositions (linkActions actions c1)
           in Inr \<lparr>cr_workflow = build_workflow now c2, cr_stats = sg_stats c2, cr_warnings = sg_warnings c2\<rparr>))"

definition convertSequentialToGraph ::
    "(nat \<Rightarrow> ident) \<Rightarrow> ident \<Rightarrow> string \<Rightarrow> Action list \<Rightarrow> ConverterOptions \<Rightarrow> read_error + Workflow" where
  "convertSequentialToGraph gen generated now actions options =
     map_sum id cr_workflow (sg_convert gen now actions (createConverter generated options))"

definition extractNestedActions :: "Action \<Rightarrow> read_error + ident list" where
  "extractNestedActions action =
     (let ids = config_ids (ac_config action)
      in if ac_type action \<notin> set [''IF'', ''LOOP'', ''SWITCH'', ''TRY_CATCH''] then Inr []
         else if ac_config action = JUndef \<or> ac_config action = JNull then Inl (Config_of_nothing (ac_id action))
         else if ac_type action = ''IF'' then Inr (ids ''thenActions'' @ ids ''elseActions'')
         else if ac_type action = ''LOOP'' then Inr (ids ''actions'')
         else if ac_type action = ''SWITCH''
         then (case switch_cases (ac_config action) of
                 None \<Rightarrow> Inl (Cases_of_nothing (ac_id action))
               | Some cases \<Rightarrow>
                   Inr (concat (map (\<lambda>caseItem. config_ids caseItem ''actions'') cases) @ ids ''defaultActions''))
         else Inr (ids ''tryActions'' @ ids ''catchActions'' @ ids ''finallyActions''))"

section \<open>What holds of the converter all along\<close>

text \<open>Every connection stands under its own type, with the input 0.\<close>

definition typed_outputs :: "Outputs \<Rightarrow> bool" where
  "typed_outputs u \<longleftrightarrow> (\<forall>ty. \<forall>outs \<in> set (output_of u ty). \<forall>cn \<in> set outs. cn_type cn = ty \<and> cn_index cn = 0)"

definition connection_count :: "Connections \<Rightarrow> nat" where
  "connection_count cs = sum_list (map (\<lambda>(s, u). length (targets_of all_types u)) cs)"

definition sg_inv :: "SequentialToGraphConverter \<Rightarrow> bool" where
  "sg_inv c \<longleftrightarrow> distinct (map fst (sg_actionNodes c)) \<and> distinct (map fst (sg_connections c))
     \<and> (\<forall>(k, n) \<in> set (sg_actionNodes c). ac_id (an_action n) = k)
     \<and> (\<forall>(s, u) \<in> set (sg_connections c). s \<in> fst ` set (sg_actionNodes c) \<and> typed_outputs u)
     \<and> cs_connectionsCreated (sg_stats c) = connection_count (sg_connections c)"

lemma set_push_output:
  "outs \<in> set (push_output n cn outputs) \<Longrightarrow> outs \<in> set outputs \<or> outs = [] \<or> outs = [cn]
     \<or> (\<exists>o' \<in> set outputs. outs = o' @ [cn])"
  unfolding push_output_def Let_def
  by (drule set_update_subset_insert [THEN subsetD]) (auto simp: nth_append in_set_conv_nth split: if_splits)

lemma output_set_output: "output_of (set_output ty c u) ty' = (if ty' = ty then c else output_of u ty')"
  by (cases ty; cases ty') simp_all

lemma no_outputs_simps [simp]: "output_of no_outputs ty = []"
  by (cases ty) (simp_all add: no_outputs_def)

lemma no_targets: "targets_of all_types no_outputs = []"
  by (simp add: targets_of_def all_types_def del: output_of.simps)

lemma typed_push:
  assumes "typed_outputs u" and "cn_type cn = ty" and "cn_index cn = 0"
  shows "typed_outputs (set_output ty (push_output n cn (output_of u ty)) u)"
  using assms by (fastforce simp: typed_outputs_def output_set_output dest!: set_push_output)

lemma length_concat_update:
  "n < length xs \<Longrightarrow> length (concat (xs[n := xs ! n @ [x]])) = Suc (length (concat xs))"
  by (induction xs arbitrary: n) (auto split: nat.split)

lemma length_push_output: "length (concat (push_output n cn outputs)) = Suc (length (concat outputs))"
proof -
  let ?p = "outputs @ replicate (Suc n - length outputs) ([] :: Connection list)"
  have "length (concat (push_output n cn outputs)) = Suc (length (concat ?p))"
    unfolding push_output_def Let_def by (rule length_concat_update) simp
  moreover have "length (concat (replicate m ([] :: Connection list))) = 0" for m by (induction m) simp_all
  ultimately show ?thesis by simp
qed

lemma targets_push:
  "length (targets_of all_types (set_output ty (push_output n cn (output_of u ty)) u))
     = Suc (length (targets_of all_types u))"
  by (cases ty) (simp_all add: targets_of_def all_types_def length_push_output)

lemma sum_obj_set:
  "distinct (map fst m) \<Longrightarrow> sum_list (map (\<lambda>(k, v). f v) (obj_set k v m))
      + (case map_of m k of None \<Rightarrow> 0 | Some u \<Rightarrow> f u)
     = sum_list (map (\<lambda>(k, v). f v) m) + (f v :: nat)"
proof (induction m)
  case (Cons p m)
  obtain k' v' where p: "p = (k', v')" by (cases p)
  have "k \<in> fst ` set m \<longleftrightarrow> map_of m k \<noteq> None" by (simp add: map_of_eq_None_iff)
  with Cons show ?case unfolding p by (cases "map_of m k") auto
qed simp

lemma addConnection_nodes [simp]: "sg_actionNodes (addConnection s t ty n c) = sg_actionNodes c"
  by (simp add: addConnection_def Let_def)

lemma addConnection_inv:
  assumes "sg_inv c" and "s \<in> fst ` set (sg_actionNodes c)"
  shows "sg_inv (addConnection s t ty n c)"
proof -
  let ?cs = "sg_connections c"
  let ?cn = "\<lparr>cn_action = t, cn_type = ty, cn_index = 0, cn_edge = JUndef\<rparr>"
  let ?old = "case map_of ?cs s of None \<Rightarrow> no_outputs | Some u \<Rightarrow> u"
  let ?u = "set_output ty (push_output n ?cn (output_of ?old ty)) ?old"
  have dist: "distinct (map fst ?cs)" using assms(1) by (simp add: sg_inv_def)
  have "typed_outputs ?old"
    using assms(1) by (auto simp: sg_inv_def typed_outputs_def split: option.split dest: map_of_SomeD)
  then have typed: "typed_outputs ?u" by (rule typed_push) simp_all
  have count: "connection_count (obj_set s ?u ?cs) = Suc (connection_count ?cs)"
    using sum_obj_set [OF dist, of "\<lambda>u. length (targets_of all_types u)" s ?u] targets_push [of ty n ?cn ?old]
    by (cases "map_of ?cs s") (simp_all add: connection_count_def no_targets)
  have "s' \<in> fst ` set (sg_actionNodes c) \<and> typed_outputs u'" if "(s', u') \<in> set (obj_set s ?u ?cs)" for s' u'
  proof -
    have "(s', u') = (s, ?u) \<or> (s', u') \<in> set ?cs" using that set_obj_set [of s ?u ?cs] by blast
    then show ?thesis
    proof
      assume "(s', u') \<in> set ?cs"
      then show ?thesis using assms(1) unfolding sg_inv_def by blast
    qed (use assms(2) typed in simp)
  qed
  then have "\<forall>(s', u') \<in> set (obj_set s ?u ?cs). s' \<in> fst ` set (sg_actionNodes c) \<and> typed_outputs u'" by blast
  then show ?thesis
    using assms(1) distinct_obj_set [OF dist] count unfolding sg_inv_def addConnection_def Let_def by simp
qed

text \<open>What the handlers of control flow keep.\<close>

definition keeps_inv :: "ident \<Rightarrow> (SequentialToGraphConverter \<Rightarrow> SequentialToGraphConverter) \<Rightarrow> bool" where
  "keeps_inv i f \<longleftrightarrow> (\<forall>c. sg_actionNodes (f c) = sg_actionNodes c
     \<and> (sg_inv c \<longrightarrow> i \<in> fst ` set (sg_actionNodes c) \<longrightarrow> sg_inv (f c)))"

lemma keeps_invD:
  "keeps_inv i f \<Longrightarrow> sg_inv c \<Longrightarrow> i \<in> fst ` set (sg_actionNodes c)
     \<Longrightarrow> sg_actionNodes (f c) = sg_actionNodes c \<and> sg_inv (f c)"
  by (simp add: keeps_inv_def)

lemma keeps_link_first: "keeps_inv i (link_first ids i ty n)"
  using addConnection_inv by (simp add: keeps_inv_def link_first_def)

lemma keeps_comp: "keeps_inv i f \<Longrightarrow> keeps_inv i g \<Longrightarrow> keeps_inv i (\<lambda>c. g (f c))"
  by (simp add: keeps_inv_def)

lemma keeps_fold: "(\<And>x. keeps_inv i (f x)) \<Longrightarrow> keeps_inv i (fold f xs)"
  by (induction xs) (simp_all add: keeps_inv_def)

lemma keeps_handlers:
  "keeps_inv i (handleIfAction a i)" "keeps_inv i (handleLoopAction a i)" "keeps_inv i (handleTryCatchAction a i)"
proof -
  show "keeps_inv i (handleIfAction a i)"
    unfolding handleIfAction_def by (rule keeps_comp [OF keeps_link_first keeps_link_first])
  show "keeps_inv i (handleLoopAction a i)"
    unfolding handleLoopAction_def by (rule keeps_link_first)
  have "keeps_inv i (\<lambda>c. if ids = [] then c else c\<lparr>sg_warnings := sg_warnings c @ ws\<rparr>)" for ids :: "ident list" and ws
    by (simp add: keeps_inv_def sg_inv_def)
  then show "keeps_inv i (handleTryCatchAction a i)"
    unfolding handleTryCatchAction_def Let_def
    by (rule keeps_comp [OF keeps_comp [OF keeps_link_first keeps_link_first]])
qed

lemma handleSwitch_keeps:
  assumes "handleSwitchAction a i c = Inr c'" and "sg_inv c" and "i \<in> fst ` set (sg_actionNodes c)"
  shows "sg_actionNodes c' = sg_actionNodes c \<and> sg_inv c'"
proof -
  obtain cases where "c' = link_first (config_ids (ac_config a) ''defaultActions'') i CMain (length cases)
      (fold (\<lambda>(index, caseItem). link_first (config_ids caseItem ''actions'') i CMain index) (enumerate 0 cases) c)"
    using assms(1) by (auto simp: handleSwitchAction_def split: option.splits)
  moreover have "keeps_inv i (fold (\<lambda>(index, caseItem). link_first (config_ids caseItem ''actions'') i CMain index) xs)" for xs
    by (rule keeps_fold) (simp add: case_prod_beta' keeps_link_first)
  ultimately show ?thesis using keeps_link_first assms(2,3) by (simp add: keeps_inv_def)
qed

lemma handleControlFlow_keeps:
  assumes "handleControlFlow a i c = Inr c'" and "sg_inv c" and "i \<in> fst ` set (sg_actionNodes c)"
  shows "sg_actionNodes c' = sg_actionNodes c \<and> sg_inv c'"
proof -
  define c1 where "c1 = c\<lparr>sg_stats := (sg_stats c)\<lparr>cs_controlFlowExpanded := cs_controlFlowExpanded (sg_stats c) + 1\<rparr>\<rparr>"
  have c1: "sg_inv c1" "sg_actionNodes c1 = sg_actionNodes c" using assms(2) by (simp_all add: c1_def sg_inv_def)
  have "c' = c1 \<or> c' = handleIfAction a i c1 \<or> c' = handleLoopAction a i c1 \<or> c' = handleTryCatchAction a i c1
      \<or> handleSwitchAction a i c1 = Inr c'"
    using assms(1) unfolding handleControlFlow_def Let_def c1_def [symmetric] by (auto split: if_splits)
  then show ?thesis
    using keeps_handlers [THEN keeps_invD, OF c1(1)] handleSwitch_keeps [of a i c1 c'] c1 assms(3) by metis
qed

lemma map_set_members: "set (map_set k v m) \<subseteq> insert (k, v) (set m)"
  by (induction k v m rule: map_set.induct) auto

lemma add_node_inv:
  assumes "sg_inv c" and "ac_id (an_action n) = i"
  shows "sg_inv (add_node i n c) \<and> fst ` set (sg_actionNodes (add_node i n c)) = insert i (fst ` set (sg_actionNodes c))"
proof -
  have "fst ` set (map_set i n (sg_actionNodes c)) = insert i (fst ` set (sg_actionNodes c))"
    using map_set_keys [of i n "sg_actionNodes c"] by simp
  moreover have "distinct (map fst (map_set i n (sg_actionNodes c)))"
    using assms(1) by (simp add: sg_inv_def map_set_distinct)
  moreover have "\<forall>(k, n') \<in> set (map_set i n (sg_actionNodes c)). ac_id (an_action n') = k"
    using assms map_set_members [of i n "sg_actionNodes c"] by (fastforce simp: sg_inv_def)
  ultimately show ?thesis using assms(1) by (auto simp: sg_inv_def add_node_def)
qed

lemma processActions_inv:
  "processActions gen d v p i as c = Inr c' \<Longrightarrow> sg_inv c \<Longrightarrow> sg_inv c'"
proof (induction as arbitrary: i c)
  case (Cons a as)
  let ?k = "action_key c gen i a"
  let ?c1 = "add_node ?k (action_node a ?k d v p) c"
  have c1: "sg_inv ?c1" "?k \<in> fst ` set (sg_actionNodes ?c1)"
    using add_node_inv [OF Cons.prems(2), of "action_node a ?k d v p" ?k] by (simp_all add: action_node_def)
  obtain c2 where c2: "(if isControlFlowAction (ac_type a) then handleControlFlow a ?k ?c1 else Inr ?c1) = Inr c2"
    "processActions gen d v p (Suc i) as c2 = Inr c'"
    using Cons.prems(1) by (auto simp: Let_def split: sum.splits)
  have "sg_inv c2" using c2(1) c1 handleControlFlow_keeps by (auto split: if_splits)
  with c2(2) show ?case by (rule Cons.IH)
qed simp

lemma link_pair_keeps:
  "sg_actionNodes (link_pair p c) = sg_actionNodes c \<and> (sg_inv c \<longrightarrow> sg_inv (link_pair p c))"
proof -
  have "map_of (sg_actionNodes c) (fst p) = Some n \<Longrightarrow> fst p \<in> fst ` set (sg_actionNodes c)" for n
    by (metis map_of_SomeD fst_conv image_eqI)
  then show ?thesis
    using addConnection_inv [of c "fst p"] by (auto simp: link_pair_def split: option.split)
qed

lemma linkActions_inv: "sg_inv c \<Longrightarrow> sg_inv (linkActions as c)"
proof -
  have "sg_inv c \<Longrightarrow> sg_inv (fold link_pair ps c)" for ps
    by (induction ps arbitrary: c) (simp_all add: link_pair_keeps)
  then show "sg_inv c \<Longrightarrow> sg_inv (linkActions as c)" by (simp add: linkActions_def Let_def)
qed

section \<open>The actions of the result\<close>

definition node_actions :: "SequentialToGraphConverter \<Rightarrow> Action list" where
  "node_actions c = map (\<lambda>(_, n). an_action n) (sg_actionNodes c)"

lemma layout_length [simp]: "length (layoutActions o' as cs) = length as"
  by (simp add: layoutActions_def applyPositions_def)

lemma layout_nth:
  assumes "i < length as"
  shows "\<exists>n. map_of (layout_nodes o' as cs) (ac_id (as ! i)) = Some n
    \<and> layoutActions o' as cs ! i = (as ! i)\<lparr>ac_position := Some [fst (ln_position n), snd (ln_position n)]\<rparr>"
proof -
  obtain n where "map_of (layout_nodes o' as cs) (ac_id (as ! i)) = Some n"
    using layout_columns_depth [of "ac_id (as ! i)" as o' cs] assms by auto
  moreover have "as \<noteq> []" using assms by auto
  ultimately show ?thesis using assms by (simp add: layoutActions_def applyPositions_def)
qed

lemma assigned_actions:
  "node_actions (assignPositions c) = layoutActions (sg_layout c) (node_actions c) (sg_connections c)"
proof -
  let ?as = "map (\<lambda>(_, n). an_action n) (sg_actionNodes c)"
  let ?laid = "layoutActions (sg_layout c) ?as (sg_connections c)"
  have "node_actions (assignPositions c) = map2 (\<lambda>a b. a\<lparr>ac_position := ac_position b\<rparr>) ?as ?laid"
    unfolding node_actions_def assignPositions_def Let_def
    by (rule nth_equalityI) (simp_all add: case_prod_beta')
  also have "\<dots> = ?laid"
  proof (rule nth_equalityI)
    fix i assume i: "i < length (map2 (\<lambda>a b. a\<lparr>ac_position := ac_position b\<rparr>) ?as ?laid)"
    then have "i < length ?as" by simp
    from layout_nth [OF this, of "sg_layout c" "sg_connections c"]
    obtain p where "?laid ! i = (?as ! i)\<lparr>ac_position := p\<rparr>" by blast
    then have "(?as ! i)\<lparr>ac_position := ac_position (?laid ! i)\<rparr> = ?laid ! i" by simp
    moreover have "map2 (\<lambda>a b. a\<lparr>ac_position := ac_position b\<rparr>) ?as ?laid ! i
        = (?as ! i)\<lparr>ac_position := ac_position (?laid ! i)\<rparr>"
      using i by (simp only: nth_map length_map length_zip nth_zip min_less_iff_conj prod.case)
    ultimately show "map2 (\<lambda>a b. a\<lparr>ac_position := ac_position b\<rparr>) ?as ?laid ! i = ?laid ! i" by simp
  qed simp
  finally show ?thesis by (simp add: node_actions_def)
qed

lemma layout_ids: "map ac_id (layoutActions o' as cs) = map ac_id as"
proof (rule nth_equalityI)
  fix i assume "i < length (map ac_id (layoutActions o' as cs))"
  then have i: "i < length as" by simp
  from layout_nth [OF i] obtain p where "layoutActions o' as cs ! i = (as ! i)\<lparr>ac_position := p\<rparr>" by blast
  with i show "map ac_id (layoutActions o' as cs) ! i = map ac_id as ! i" by simp
qed simp

lemma node_ids: "sg_inv c \<Longrightarrow> map ac_id (node_actions c) = map fst (sg_actionNodes c)"
  by (auto simp: node_actions_def sg_inv_def)

lemma sg_convert_Inr:
  assumes "sg_convert gen now actions c = Inr r"
  obtains c1 where "processActions gen 0 0 None 0 actions (resetConverter actions c) = Inr c1"
    "cr_workflow r = (build_workflow now (linkActions actions c1))\<lparr>wf_actions :=
       layoutActions (sg_layout (linkActions actions c1)) (node_actions (linkActions actions c1))
         (sg_connections (linkActions actions c1))\<rparr>"
    "cr_stats r = sg_stats (linkActions actions c1)" "cr_warnings r = sg_warnings (linkActions actions c1)"
    "sg_inv (linkActions actions c1)"
proof -
  obtain c1 where c1: "processActions gen 0 0 None 0 actions (resetConverter actions c) = Inr c1"
    "r = \<lparr>cr_workflow = build_workflow now (assignPositions (linkActions actions c1)),
          cr_stats = sg_stats (assignPositions (linkActions actions c1)),
          cr_warnings = sg_warnings (assignPositions (linkActions actions c1))\<rparr>"
    using assms by (auto simp: sg_convert_def Let_def split: sum.splits)
  have "sg_inv (resetConverter actions c)"
    by (simp add: sg_inv_def resetConverter_def no_stats_def connection_count_def)
  then have "sg_inv (linkActions actions c1)" by (intro linkActions_inv processActions_inv [OF c1(1)])
  moreover have "build_workflow now (assignPositions (linkActions actions c1))
      = (build_workflow now (linkActions actions c1))\<lparr>wf_actions := node_actions (assignPositions (linkActions actions c1))\<rparr>"
    by (simp add: build_workflow_def node_actions_def assignPositions_def Let_def)
  ultimately show thesis
    using c1 by (intro that [OF c1(1)]) (simp_all add: assigned_actions, simp_all add: assignPositions_def Let_def)
qed

section \<open>Chains of plain actions\<close>

fun action_keys :: "SequentialToGraphConverter \<Rightarrow> (nat \<Rightarrow> ident) \<Rightarrow> nat \<Rightarrow> Action list \<Rightarrow> ident list" where
  "action_keys c gen i [] = []"
| "action_keys c gen i (a # as) = action_key c gen i a # action_keys c gen (Suc i) as"

lemma action_keys_length [simp]: "length (action_keys c gen i as) = length as"
  by (induction as arbitrary: i) simp_all

lemma action_keys_cong: "sg_preserveActionIds c' = sg_preserveActionIds c \<Longrightarrow> action_keys c' gen i as = action_keys c gen i as"
  by (induction as arbitrary: i) (simp_all add: action_key_def)

lemma action_keys_preserve: "sg_preserveActionIds c \<Longrightarrow> action_keys c gen i as = map ac_id as"
  by (induction as arbitrary: i) (simp_all add: action_key_def)

definition plain_nodes :: "ident list \<Rightarrow> Action list \<Rightarrow> (ident \<times> ActionNode) list" where
  "plain_nodes ks as = map2 (\<lambda>k a. (k, action_node a k 0 0 None)) ks as"

lemma process_plain:
  "\<forall>a \<in> set as. \<not> isControlFlowAction (ac_type a)
     \<Longrightarrow> distinct (map fst (sg_actionNodes c) @ action_keys c gen i as)
     \<Longrightarrow> \<exists>st. processActions gen 0 0 None i as c
       = Inr (c\<lparr>sg_actionNodes := sg_actionNodes c @ plain_nodes (action_keys c gen i as) as, sg_stats := st\<rparr>)"
proof (induction as arbitrary: i c)
  case Nil
  show ?case by (intro exI [of _ "sg_stats c"]) (simp add: plain_nodes_def)
next
  case (Cons a as)
  let ?k = "action_key c gen i a"
  let ?c1 = "add_node ?k (action_node a ?k 0 0 None) c"
  have new: "?k \<notin> fst ` set (sg_actionNodes c)" using Cons.prems(2) by auto
  then have nodes: "sg_actionNodes ?c1 = sg_actionNodes c @ [(?k, action_node a ?k 0 0 None)]"
    by (simp add: add_node_def map_set_new)
  have keys: "action_keys ?c1 gen (Suc i) as = action_keys c gen (Suc i) as"
    by (rule action_keys_cong) (simp add: add_node_def)
  have "distinct (map fst (sg_actionNodes ?c1) @ action_keys ?c1 gen (Suc i) as)"
    unfolding nodes keys using Cons.prems(2) by auto
  with Cons.IH [of ?c1 "Suc i"] Cons.prems(1) obtain st where "processActions gen 0 0 None (Suc i) as ?c1
      = Inr (?c1\<lparr>sg_actionNodes := sg_actionNodes ?c1 @ plain_nodes (action_keys ?c1 gen (Suc i) as) as, sg_stats := st\<rparr>)"
    by auto
  then have "processActions gen 0 0 None i (a # as) c
      = Inr (c\<lparr>sg_actionNodes := sg_actionNodes c @ plain_nodes (action_keys c gen i (a # as)) (a # as), sg_stats := st\<rparr>)"
    using Cons.prems(1) unfolding nodes keys by (simp add: Let_def plain_nodes_def add_node_def)
  then show ?case by blast
qed

lemma add_link:
  assumes "a \<notin> fst ` set (sg_connections c)"
  shows "\<exists>st. addConnection a b CMain 0 c = c\<lparr>sg_connections := obj_set a (link_to b) (sg_connections c), sg_stats := st\<rparr>"
proof -
  have "map_of (sg_connections c) a = None" using assms by (simp add: map_of_eq_None_iff)
  then show ?thesis
    by (simp add: addConnection_def push_output_def no_outputs_def link_to_def) blast
qed

lemma link_plain:
  "distinct is \<Longrightarrow> [] \<notin> set is
    \<Longrightarrow> \<forall>i \<in> set is. \<exists>n. map_of (sg_actionNodes c) i = Some n \<and> \<not> an_isControlFlow n
    \<Longrightarrow> set is \<inter> fst ` set (sg_connections c) = {}
    \<Longrightarrow> \<exists>st. fold link_pair (zip is (tl is)) c = c\<lparr>sg_connections := link_chain is (sg_connections c), sg_stats := st\<rparr>"
proof (induction "is" arbitrary: c)
  case (Cons a "is")
  show ?case
  proof (cases "is")
    case Nil
    then show ?thesis by (intro exI [of _ "sg_stats c"]) simp
  next
    case (Cons b rest)
    obtain st where st: "addConnection a b CMain 0 c
        = c\<lparr>sg_connections := obj_set a (link_to b) (sg_connections c), sg_stats := st\<rparr>"
      using add_link [of a c b] Cons.prems(4) by auto
    let ?c1 = "c\<lparr>sg_connections := obj_set a (link_to b) (sg_connections c), sg_stats := st\<rparr>"
    have "link_pair (a, b) c = ?c1" using Cons.prems(2,3) st Cons by (auto simp: link_pair_def)
    moreover have "\<exists>st. fold link_pair (zip is (tl is)) ?c1 = ?c1\<lparr>sg_connections := link_chain is (sg_connections ?c1), sg_stats := st\<rparr>"
      by (rule Cons.IH) (use Cons.prems in auto)
    ultimately show ?thesis using Cons by simp
  qed
next
  case Nil
  show ?case by (intro exI [of _ "sg_stats c"]) simp
qed

text \<open>The workflow of a chain.\<close>

lemma link_chain_mem:
  assumes "distinct is"
  shows "(a, u) \<in> set (link_chain is []) \<longleftrightarrow> (\<exists>k. Suc k < length is \<and> a = is ! k \<and> u = link_to (is ! Suc k))"
proof -
  have keys: "distinct (map fst m) \<Longrightarrow> distinct (map fst (link_chain is m))" for m
    by (induction "is" m rule: link_chain.induct) (simp_all add: distinct_obj_set)
  have "(a, u) \<in> set (link_chain is []) \<longleftrightarrow> map_of (link_chain is []) a = Some u"
    using map_of_eq_Some_iff [OF keys [of "[]"]] by simp
  also have "\<dots> \<longleftrightarrow> (\<exists>k. Suc k < length is \<and> a = is ! k \<and> u = link_to (is ! Suc k))"
  proof (cases "a \<in> set (butlast is)")
    case True
    then obtain k where "k < length is - 1" "a = is ! k" by (auto simp: in_set_conv_nth nth_butlast)
    then have k: "Suc k < length is" "a = is ! k" by simp_all
    moreover from this have "\<And>j. Suc j < length is \<Longrightarrow> a = is ! j \<Longrightarrow> j = k"
      using assms by (simp add: nth_eq_iff_index_eq)
    ultimately show ?thesis using link_chain_nth [OF assms k(1), of "[]"] by auto
  next
    case False
    moreover have "is ! k \<in> set (butlast is)" if "Suc k < length is" for k
      using that by (metis Suc_lessE diff_Suc_1 length_butlast lessI nth_butlast nth_mem Suc_less_eq)
    ultimately show ?thesis by (auto simp: link_chain_other)
  qed
  finally show ?thesis .
qed

lemma targets_link [simp]: "targets_of all_types (link_to b) = [b]"
  by (simp add: targets_of_def all_types_def link_to_def)

lemma link_chain_mset:
  "distinct is \<Longrightarrow> set is \<inter> fst ` set m = {} \<Longrightarrow>
     mset (link_chain is m) = mset m + mset (map2 (\<lambda>a b. (a, link_to b)) is (tl is))"
proof (induction "is" m rule: link_chain.induct)
  case (1 a b rest m)
  have "mset (obj_set k v m') = add_mset (k, v) (mset m')" if "k \<notin> fst ` set m'" for k and v :: Outputs and m'
    using that by (induction m') auto
  with 1 show ?case by auto
qed simp_all

lemma chain_targets:
  assumes "wf_connections w = link_chain is []" and "distinct is"
  shows "mset (all_targets w) = mset (tl is)"
proof -
  have "mset (all_targets w) = sum_mset (image_mset (\<lambda>p. mset (targets_of all_types (snd p))) (mset (wf_connections w)))"
    by (simp add: all_targets_def mset_concat comp_def case_prod_beta' flip: sum_mset_sum_list)
  also have "\<dots> = mset (concat (map (\<lambda>p. targets_of all_types (snd p)) (map2 (\<lambda>a b. (a, link_to b)) is (tl is))))"
    unfolding assms(1) using link_chain_mset [OF assms(2), of "[]"]
    by (simp add: mset_concat multiset.map_comp comp_def case_prod_beta' flip: sum_mset_sum_list)
  also have "concat (map (\<lambda>p. targets_of all_types (snd p)) (map2 (\<lambda>a b. (a, link_to b)) is (tl is)))
      = map snd (zip is (tl is))"
    by (simp add: comp_def case_prod_beta' concat_map_singleton [unfolded comp_def])
  also have "\<dots> = tl is" by (simp add: map_snd_zip_take)
  finally show ?thesis .
qed

lemma chain_succs:
  assumes "wf_connections w = link_chain is []" and "distinct is" and "Suc k < length is"
  shows "succs w (is ! k) = [is ! Suc k]"
  using link_chain_nth [OF assms(2,3), of "[]"]
  by (simp add: succs_def getNextActions_def getActionConnections_def assms(1) uniq_def)

lemma chain_order:
  "distinct os \<Longrightarrow> set os = set is \<Longrightarrow> distinct is \<Longrightarrow> succs_later succ os
     \<Longrightarrow> \<forall>k. Suc k < length is \<longrightarrow> is ! Suc k \<in> set (succ (is ! k)) \<Longrightarrow> os = is"
proof (induction "is" arbitrary: os)
  case (Cons x xs)
  obtain o' os' where os: "os = o' # os'" using Cons.prems(2) by (cases os) auto
  have closed: "y \<in> set ys \<Longrightarrow> succs_later succ ys \<Longrightarrow> set (succ y) \<subseteq> set ys" for y ys
    by (induction ys) auto
  have "o' = x"
  proof (rule ccontr)
    assume "o' \<noteq> x"
    then have "o' \<in> set xs" using Cons.prems(2) os by auto
    then obtain k where k: "k < length xs" "o' = xs ! k" by (auto simp: in_set_conv_nth)
    have later: "o' \<in> set (succ ((x # xs) ! k))" using Cons.prems(5) k by auto
    have "(x # xs) ! k \<noteq> o'" using Cons.prems(3) k nth_eq_iff_index_eq [of "x # xs" k "Suc k"] by auto
    moreover have "(x # xs) ! k \<in> set os" using Cons.prems(2) k by (metis length_Cons less_Suc_eq nth_mem)
    ultimately have "(x # xs) ! k \<in> set os'" using os by auto
    with closed later Cons.prems(4) os have "o' \<in> set os'" by auto
    then show False using Cons.prems(1) os by auto
  qed
  moreover have "os' = xs"
  proof (rule Cons.IH)
    show "set os' = set xs" using Cons.prems(1-3) os \<open>o' = x\<close> by auto
    show "\<forall>k. Suc k < length xs \<longrightarrow> xs ! Suc k \<in> set (succ (xs ! k))"
      using Cons.prems(5) by (metis Suc_less_eq length_Cons nth_Cons_Suc)
  qed (use Cons.prems os in auto)
  ultimately show ?case using os by simp
qed simp

lemma chain_topological:
  assumes "wf_connections w = link_chain (map ac_id (wf_actions w)) []" and "distinct (map ac_id (wf_actions w))"
  shows "getTopologicalOrder w = Some (map ac_id (wf_actions w))"
proof -
  let ?is = "map ac_id (wf_actions w)"
  have targets: "mset (all_targets w) = mset (tl ?is)" using chain_targets [OF assms] .
  then have dist: "distinct (all_targets w)" using assms(2) mset_eq_imp_distinct_iff distinct_tl by blast
  have entry: "getEntryPoints w = take 1 ?is"
  proof (cases ?is)
    case (Cons x xs)
    have "set (all_targets w) = set xs" using targets Cons by (metis list.sel(3) mset_eq_setD)
    moreover have "x \<notin> set xs" using assms(2) Cons by auto
    ultimately show ?thesis unfolding getEntryPoints_def Cons by (simp add: filter_empty_conv)
  qed (simp add: getEntryPoints_def)
  have "\<not> hasCycles w" using no_merge_no_cycle [OF dist] unfolding hasCycles_iff by blast
  then obtain os where os: "getTopologicalOrder w = Some os" using topological_order_exists by blast
  note o = topological_order [OF os]
  have reach: "(?is ! 0, ?is ! k) \<in> (steps_to w)\<^sup>*" if "k < length ?is" for k
    using that
  proof (induction k)
    case (Suc k)
    have "?is ! Suc k \<in> set (succs w (?is ! k))" using chain_succs [OF assms, of k] Suc.prems by simp
    with Suc show ?case by (auto simp: edges_def intro: rtrancl_into_rtrancl)
  qed simp
  have "set os \<subseteq> set ?is"
  proof
    fix i assume "i \<in> set os"
    then obtain e where "e \<in> set (getEntryPoints w)" "(e, i) \<in> (steps_to w)\<^sup>*" using o(3) by auto
    from this(2,1) show "i \<in> set ?is"
    proof (cases rule: rtranclE)
      case (step y)
      then have "i \<in> set (all_targets w)" using succs_targets [of w y] by auto
      moreover have "set (tl ?is) \<subseteq> set ?is" by (cases ?is) auto
      ultimately show ?thesis using mset_eq_setD [OF targets] by blast
    qed (simp add: getEntryPoints_def)
  qed
  moreover have "set ?is \<subseteq> set os"
  proof
    fix i assume i: "i \<in> set ?is"
    then obtain k where "k < length ?is" "i = ?is ! k" by (auto simp: in_set_conv_nth)
    with reach have "(?is ! 0, i) \<in> (steps_to w)\<^sup>*" by blast
    moreover have "?is ! 0 \<in> set (getEntryPoints w)" using i unfolding entry by (cases ?is) auto
    ultimately show "i \<in> set os" using o(3) by auto
  qed
  ultimately have "os = ?is"
    using chain_order [OF o(1) _ assms(2) o(2)] chain_succs [OF assms] by fastforce
  with os show ?thesis by simp
qed

section \<open>The layout of a chain\<close>

text \<open>The place of an element.\<close>

definition rank :: "ident list \<Rightarrow> ident \<Rightarrow> nat" where
  "rank is x = length (takeWhile (\<lambda>y. y \<noteq> x) is)"

lemma rank_nth: "distinct is \<Longrightarrow> k < length is \<Longrightarrow> rank is (is ! k) = k"
proof (induction "is" arbitrary: k)
  case (Cons i "is")
  then show ?case by (cases k) (auto simp: rank_def)
qed simp

lemma chain_edges:
  assumes "distinct (map ac_id as)"
  shows "(a, b) \<in> action_edges as (link_chain (map ac_id as) [])
    \<longleftrightarrow> (\<exists>k. Suc k < length as \<and> a = ac_id (as ! k) \<and> b = ac_id (as ! Suc k))"
proof -
  have mem: "(a, u) \<in> set (link_chain (map ac_id as) [])
      \<longleftrightarrow> (\<exists>k. Suc k < length as \<and> a = ac_id (as ! k) \<and> u = link_to (ac_id (as ! Suc k)))" for u
    unfolding link_chain_mem [OF assms] by (auto intro: exI)
  have known: "ac_id (as ! k) \<in> ac_id ` set as" if "k < length as" for k using that by simp
  show ?thesis
  proof
    assume "(a, b) \<in> action_edges as (link_chain (map ac_id as) [])"
    then show "\<exists>k. Suc k < length as \<and> a = ac_id (as ! k) \<and> b = ac_id (as ! Suc k)"
      by (auto simp: action_edges_def mem)
  next
    assume "\<exists>k. Suc k < length as \<and> a = ac_id (as ! k) \<and> b = ac_id (as ! Suc k)"
    then obtain k where k: "Suc k < length as" "a = ac_id (as ! k)" "b = ac_id (as ! Suc k)" by blast
    then have "(a, link_to b) \<in> set (link_chain (map ac_id as) [])" unfolding mem by blast
    moreover have "a \<in> ac_id ` set as" "b \<in> ac_id ` set as" using k known by simp_all
    ultimately show "(a, b) \<in> action_edges as (link_chain (map ac_id as) [])"
      unfolding action_edges_def by fastforce
  qed
qed

lemma chain_rank:
  assumes "distinct (map ac_id as)" and "(a, b) \<in> action_edges as (link_chain (map ac_id as) []) ^^ n"
  shows "rank (map ac_id as) b = rank (map ac_id as) a + n"
  using assms(2)
proof (induction n arbitrary: b)
  case (Suc n)
  then obtain c where c: "(a, c) \<in> action_edges as (link_chain (map ac_id as) []) ^^ n"
      "(c, b) \<in> action_edges as (link_chain (map ac_id as) [])" by auto
  then obtain k where "Suc k < length as" "c = map ac_id as ! k" "b = map ac_id as ! Suc k"
    unfolding chain_edges [OF assms(1)] by auto
  then have "rank (map ac_id as) b = Suc (rank (map ac_id as) c)"
    using rank_nth [OF assms(1)] by simp
  with Suc.IH [OF c(1)] show ?case by simp
qed simp

lemma chain_acyclic:
  assumes "distinct (map ac_id as)"
  shows "acyclic (action_edges as (link_chain (map ac_id as) []))"
proof (rule acyclicI, rule allI, rule notI)
  fix x assume "(x, x) \<in> (action_edges as (link_chain (map ac_id as) []))\<^sup>+"
  then obtain n where "0 < n" "(x, x) \<in> action_edges as (link_chain (map ac_id as) []) ^^ n"
    using trancl_power by metis
  with chain_rank [OF assms this(2)] show False by simp
qed

lemma chain_depths:
  assumes "distinct (map ac_id as)" and "k < length as"
  shows "layout_depths as (buildNodeGraph as (link_chain (map ac_id as) [])) (ac_id (as ! k)) = k"
proof -
  let ?E = "action_edges as (link_chain (map ac_id as) [])"
  let ?d = "layout_depths as (buildNodeGraph as (link_chain (map ac_id as) [])) (ac_id (as ! k))"
  have "ac_id (as ! k) \<in> ac_id ` set as" using assms(2) by simp
  from layout_depths_longest [OF chain_acyclic [OF assms(1)] this]
  obtain e where e: "(e, ac_id (as ! k)) \<in> ?E ^^ ?d"
    and longest: "\<And>e k'. (e, ac_id (as ! k)) \<in> ?E ^^ k' \<Longrightarrow> k' \<le> ?d" by blast
  have "j < length as \<Longrightarrow> (ac_id (as ! 0), ac_id (as ! j)) \<in> ?E ^^ j" for j
  proof (induction j)
    case (Suc j)
    then have "(ac_id (as ! j), ac_id (as ! Suc j)) \<in> ?E" unfolding chain_edges [OF assms(1)] by blast
    with Suc show ?case by auto
  qed simp
  then have "k \<le> ?d" using longest assms(2) by blast
  moreover have "rank (map ac_id as) (ac_id (as ! k)) = k" using rank_nth [OF assms(1), of k] assms(2) by simp
  then have "?d \<le> k" using chain_rank [OF assms(1) e] by simp
  ultimately show ?thesis by simp
qed

lemma chain_layout:
  assumes "distinct (map ac_id as)"
  shows "layoutActions o' as (link_chain (map ac_id as) [])
    = map (\<lambda>k. (as ! k)\<lparr>ac_position := Some [lo_startX o' + of_nat k * lo_horizontalSpacing o', lo_startY o']\<rparr>) [0..<length as]"
proof (rule nth_equalityI)
  let ?cs = "link_chain (map ac_id as) []"
  fix k assume "k < length (layoutActions o' as ?cs)"
  then have k: "k < length as" by simp
  have "\<forall>(s, u) \<in> set ?cs. \<forall>main. ou_main u = Some main \<longrightarrow> length main \<le> 1"
    using link_chain_mem [OF assms] by (auto simp: link_to_def)
  moreover have "j = ac_id (as ! k)" if "j \<in> ac_id ` set as"
    "layout_depths as (buildNodeGraph as ?cs) j = layout_depths as (buildNodeGraph as ?cs) (ac_id (as ! k))" for j
    using that chain_depths [OF assms] k by (auto simp: in_set_conv_nth)
  ultimately obtain n where n: "map_of (layout_nodes o' as ?cs) (ac_id (as ! k)) = Some n"
      "ln_position n = (in_column o' (layout_depths as (buildNodeGraph as ?cs) (ac_id (as ! k))), lo_startY o')"
    using layout_single [of ?cs "ac_id (as ! k)" as o'] k by auto
  then show "layoutActions o' as ?cs ! k = map (\<lambda>k. (as ! k)\<lparr>ac_position :=
      Some [lo_startX o' + of_nat k * lo_horizontalSpacing o', lo_startY o']\<rparr>) [0..<length as] ! k"
    using layout_nth [OF k, of o' ?cs] k chain_depths [OF assms k] by (simp add: in_column_def)
qed simp

section \<open>Converting plain actions\<close>

lemma plain_nodes_simps:
  "length ks = length as \<Longrightarrow> map fst (plain_nodes ks as) = ks"
  "length ks = length as \<Longrightarrow> map (\<lambda>(_, n). an_action n) (plain_nodes ks as)
     = map2 (\<lambda>k a. a\<lparr>ac_id := k, ac_position := Some [0, 0]\<rparr>) ks as"
  by (simp_all add: plain_nodes_def comp_def case_prod_beta' action_node_def map_fst_zip [unfolded comp_def])

lemma convert_plain:
  assumes "\<forall>a \<in> set as. \<not> isControlFlowAction (ac_type a)"
    and "distinct (action_keys c gen 0 as)" and "[] \<notin> set (action_keys c gen 0 as)"
  shows "\<exists>r. sg_convert gen now as c = Inr r \<and> wf_format (cr_workflow r) = ''graph''
    \<and> wf_connections (cr_workflow r) = link_chain (action_keys c gen 0 as) []
    \<and> wf_actions (cr_workflow r) = map (\<lambda>k. (as ! k)\<lparr>ac_id := action_keys c gen 0 as ! k, ac_position :=
        Some [lo_startX (sg_layout c) + of_nat k * lo_horizontalSpacing (sg_layout c), lo_startY (sg_layout c)]\<rparr>) [0..<length as]"
proof -
  let ?ks = "action_keys c gen 0 as" and ?c0 = "resetConverter as c"
  let ?as = "map2 (\<lambda>k a. a\<lparr>ac_id := k, ac_position := Some [0, 0]\<rparr>) ?ks as"
  have ks: "action_keys ?c0 gen 0 as = ?ks" by (rule action_keys_cong) (simp add: resetConverter_def)
  have c0: "sg_actionNodes ?c0 = []" "sg_connections ?c0 = []" "sg_layout ?c0 = sg_layout c"
    by (simp_all add: resetConverter_def)
  obtain st where c1: "processActions gen 0 0 None 0 as ?c0 = Inr (?c0\<lparr>sg_actionNodes := plain_nodes ?ks as, sg_stats := st\<rparr>)"
    using process_plain [OF assms(1), of ?c0 gen 0] assms(2) unfolding ks c0 by auto
  let ?c1 = "?c0\<lparr>sg_actionNodes := plain_nodes ?ks as, sg_stats := st\<rparr>"
  have fst_nodes: "map fst (plain_nodes ?ks as) = ?ks" by (simp add: plain_nodes_simps)
  have "\<exists>n. map_of (plain_nodes ?ks as) i = Some n \<and> \<not> an_isControlFlow n" if i: "i \<in> set ?ks" for i
  proof -
    obtain n where n: "map_of (plain_nodes ?ks as) i = Some n"
      using i fst_nodes by (metis map_of_eq_None_iff not_None_eq set_map)
    then have "(i, n) \<in> set (plain_nodes ?ks as)" by (rule map_of_SomeD)
    then have "\<not> an_isControlFlow n"
      using assms(1) by (auto simp: plain_nodes_def action_node_def dest: set_zip_rightD)
    with n show ?thesis by blast
  qed
  then obtain st' where "fold link_pair (zip ?ks (tl ?ks)) ?c1 = ?c1\<lparr>sg_connections := link_chain ?ks [], sg_stats := st'\<rparr>"
    using link_plain [OF assms(2,3), of ?c1] by (auto simp: c0)
  then have c2: "linkActions as ?c1 = ?c1\<lparr>sg_connections := link_chain ?ks [], sg_stats := st'\<rparr>"
    by (simp add: linkActions_def Let_def fst_nodes)
  have ids: "map ac_id ?as = ?ks" by (rule nth_equalityI) simp_all
  have "layoutActions (sg_layout c) ?as (link_chain ?ks []) = map (\<lambda>k. (?as ! k)\<lparr>ac_position :=
      Some [lo_startX (sg_layout c) + of_nat k * lo_horizontalSpacing (sg_layout c), lo_startY (sg_layout c)]\<rparr>) [0..<length ?as]"
    using chain_layout [of ?as "sg_layout c"] assms(2) unfolding ids by blast
  also have "\<dots> = map (\<lambda>k. (as ! k)\<lparr>ac_id := ?ks ! k, ac_position :=
      Some [lo_startX (sg_layout c) + of_nat k * lo_horizontalSpacing (sg_layout c), lo_startY (sg_layout c)]\<rparr>) [0..<length as]"
    by (rule nth_equalityI) simp_all
  finally have laid: "layoutActions (sg_layout c) ?as (link_chain ?ks []) = \<dots>" .
  have convert: "sg_convert gen now as c = Inr \<lparr>cr_workflow = build_workflow now (assignPositions (linkActions as ?c1)),
      cr_stats = sg_stats (assignPositions (linkActions as ?c1)), cr_warnings = sg_warnings (assignPositions (linkActions as ?c1))\<rparr>"
    by (simp add: sg_convert_def c1 Let_def)
  have "node_actions (linkActions as ?c1) = ?as" unfolding c2 node_actions_def by (simp add: plain_nodes_simps)
  then have "wf_actions (build_workflow now (assignPositions (linkActions as ?c1))) = layoutActions (sg_layout c) ?as (link_chain ?ks [])"
    using assigned_actions [of "linkActions as ?c1"] by (simp add: build_workflow_def node_actions_def c2 c0(3))
  moreover have "wf_connections (build_workflow now (assignPositions (linkActions as ?c1))) = link_chain ?ks []"
    by (simp add: build_workflow_def assignPositions_def Let_def c2)
  ultimately show ?thesis unfolding convert laid by (simp add: build_workflow_def)
qed

text \<open>A chain of plain actions converts back to the list of its actions.\<close>

lemma chain_converts:
  assumes "wf_format w = ''graph''" and "wf_connections w = link_chain (map ac_id (wf_actions w)) []"
    and "distinct (map ac_id (wf_actions w))" and "[] \<notin> ac_id ` set (wf_actions w)" and "2 \<le> length (wf_actions w)"
    and "\<forall>a \<in> set (wf_actions w). ac_type a \<notin> {[], ''IF'', ''LOOP''} \<and> \<not> falsy (ac_config a)"
  shows "convert w options = Some (Inr (cleanupActions (wf_actions w) options))"
proof -
  let ?is = "map ac_id (wf_actions w)"
  have os: "getTopologicalOrder w = Some ?is" by (rule chain_topological [OF assms(2,3)])
  have targets: "mset (all_targets w) = mset (tl ?is)" by (rule chain_targets [OF assms(2,3)])
  have subset: "set (all_targets w) \<subseteq> ac_id ` set (wf_actions w)"
  proof -
    have "set (tl ?is) \<subseteq> set ?is" by (cases ?is) auto
    then show ?thesis using mset_eq_setD [OF targets] by simp
  qed
  obtain x y zs where w: "?is = x # y # zs" using assms(5) by (cases ?is rule: remdups_adj.cases) auto
  have "getEntryPoints w = [x]"
  proof -
    have "set (all_targets w) = set (y # zs)" using mset_eq_setD [OF targets] w by simp
    moreover have "x \<notin> set (y # zs)" using assms(3) w by simp
    ultimately show ?thesis unfolding getEntryPoints_def w by (simp add: filter_empty_conv)
  qed
  moreover have "distinct (all_targets w)" using targets assms(3) mset_eq_imp_distinct_iff distinct_tl by blast
  moreover have "findParallelBranches w = []"
    unfolding findParallelBranches_def assms(2) using link_chain_mem [OF assms(3)]
    by (auto simp: filter_empty_conv link_to_def)
  moreover have "checkIfBranchStructure w = []"
    using assms(6) by (auto simp: checkIfBranchStructure_def getActionsByType_def filter_empty_conv)
  moreover have "(x, link_to y) \<in> set (wf_connections w)"
    unfolding assms(2) link_chain_mem [OF assms(3)] unfolding w by (intro exI [of _ 0]) simp
  then have "wf_connections w \<noteq> []" by auto
  ultimately have lin: "lr_linearizable (check_linearizable w)" using assms(1) by (simp add: check_linearizable_iff)
  have closed: "closed_workflow w" using subset assms(4) by (simp add: closed_workflow_def)
  have byId: "getActionById w (ac_id a) = Some a" if "a \<in> set (wf_actions w)" for a
    using that find_nth_id [OF assms(3)] by (auto simp: in_set_conv_nth getActionById_def)
  have sorted: "List.map_filter (getActionById w) ?is = wf_actions w"
    unfolding sorted_of(1) [OF os closed] map_map by (rule map_idI) (simp add: byId)
  have "convertible w ?is i" if i: "i \<in> set ?is" for i
  proof -
    obtain a where a: "a \<in> set (wf_actions w)" "i = ac_id a" using i by auto
    with assms(6) have "ac_type a \<notin> {[], ''IF''} \<and> \<not> falsy (ac_config a) \<and> ac_type a \<noteq> ''LOOP''" by simp
    then show ?thesis using byId [OF a(1)] a(2) by (simp add: convertible_def)
  qed
  then have "rebuildControlFlow (graph_fuel w) w [] (wf_actions w) = Some (wf_actions w)
      \<and> validateSequentialWorkflow (cleanupActions (wf_actions w) options) = None"
    using convertible_accepted [OF closed os, of options] unfolding sorted by blast
  then show ?thesis using convert_eq [OF lin os, of _ options] unfolding sorted by simp
qed

section \<open>Properties\<close>

text \<open>
  C29: the result of a conversion, whenever there is one, has the form of a graph workflow. Its format is graph; its actions
  have distinct identifiers and positions with two coordinates; its connections start from actions of it, with one
  entry for each, every connection stands under its own type, with the input 0, and the statistics count the connections.
  Nothing is said about where the connections lead: identifiers that the configurations of IF, LOOP, SWITCH and TRY_CATCH
  name become targets unchecked, and \<open>validateWorkflow\<close> rejects a result where such a target is no action.
\<close>

theorem converted_well_formed:
  assumes "sg_convert gen now actions c = Inr r"
  shows "wf_format (cr_workflow r) = ''graph''
    \<and> distinct (map ac_id (wf_actions (cr_workflow r)))
    \<and> (\<forall>a \<in> set (wf_actions (cr_workflow r)). \<exists>x y. ac_position a = Some [x, y])
    \<and> distinct (map fst (wf_connections (cr_workflow r)))
    \<and> (\<forall>(s, u) \<in> set (wf_connections (cr_workflow r)). s \<in> ac_id ` set (wf_actions (cr_workflow r))
         \<and> (\<forall>ty. \<forall>outs \<in> set (output_of u ty). \<forall>cn \<in> set outs. cn_type cn = ty \<and> cn_index cn = 0))
    \<and> cs_connectionsCreated (cr_stats r) = length (all_targets (cr_workflow r))"
proof -
  obtain c1 where c1: "cr_workflow r = (build_workflow now (linkActions actions c1))\<lparr>wf_actions :=
       layoutActions (sg_layout (linkActions actions c1)) (node_actions (linkActions actions c1))
         (sg_connections (linkActions actions c1))\<rparr>"
    "cr_stats r = sg_stats (linkActions actions c1)" and inv: "sg_inv (linkActions actions c1)"
    using sg_convert_Inr [OF assms] by metis
  let ?c = "linkActions actions c1"
  have ids: "map ac_id (wf_actions (cr_workflow r)) = map fst (sg_actionNodes ?c)"
    unfolding c1(1) using node_ids [OF inv] by (simp add: layout_ids)
  have conns: "wf_connections (cr_workflow r) = sg_connections ?c" "wf_format (cr_workflow r) = ''graph''"
    unfolding c1(1) by (simp_all add: build_workflow_def)
  have "\<exists>x y. ac_position a = Some [x, y]" if a: "a \<in> set (wf_actions (cr_workflow r))" for a
  proof -
    obtain k where k: "k < length (node_actions ?c)"
      "a = layoutActions (sg_layout ?c) (node_actions ?c) (sg_connections ?c) ! k"
      using a unfolding c1(1) by (auto simp: in_set_conv_nth)
    from layout_nth [OF k(1), of "sg_layout ?c" "sg_connections ?c"] show ?thesis unfolding k(2) by auto
  qed
  moreover have "ac_id ` set (wf_actions (cr_workflow r)) = fst ` set (sg_actionNodes ?c)"
    using ids by (metis set_map)
  moreover have "cs_connectionsCreated (cr_stats r) = length (all_targets (cr_workflow r))"
    using inv by (simp add: c1(2) sg_inv_def connection_count_def all_targets_def conns(1) length_concat comp_def case_prod_beta')
  ultimately show ?thesis
    using inv unfolding ids conns sg_inv_def typed_outputs_def by simp
qed

text \<open>
  actions without control flow become a chain in a row. Under distinct identifiers that are not
  empty, each action is connected to its successor and to nothing else, and the action at index k is
  put k horizontal spacings from the start, all at one height; the other fields are kept.
\<close>

theorem plain_actions_in_row:
  assumes "\<forall>a \<in> set as. \<not> isControlFlowAction (ac_type a)"
    and "distinct (action_keys c gen 0 as)" and "[] \<notin> set (action_keys c gen 0 as)"
  shows "\<exists>r. sg_convert gen now as c = Inr r
    \<and> (\<forall>i j. j \<in> set (getNextActions (cr_workflow r) i None)
         \<longleftrightarrow> (\<exists>k. Suc k < length as \<and> i = action_keys c gen 0 as ! k \<and> j = action_keys c gen 0 as ! Suc k))
    \<and> wf_actions (cr_workflow r) = map (\<lambda>k. (as ! k)\<lparr>ac_id := action_keys c gen 0 as ! k, ac_position :=
        Some [lo_startX (sg_layout c) + of_nat k * lo_horizontalSpacing (sg_layout c), lo_startY (sg_layout c)]\<rparr>) [0..<length as]"
proof -
  let ?ks = "action_keys c gen 0 as"
  obtain r where r: "sg_convert gen now as c = Inr r" "wf_connections (cr_workflow r) = link_chain ?ks []"
    "wf_actions (cr_workflow r) = map (\<lambda>k. (as ! k)\<lparr>ac_id := ?ks ! k, ac_position :=
      Some [lo_startX (sg_layout c) + of_nat k * lo_horizontalSpacing (sg_layout c), lo_startY (sg_layout c)]\<rparr>) [0..<length as]"
    using convert_plain [OF assms] by blast
  have "j \<in> set (getNextActions (cr_workflow r) i None)
      \<longleftrightarrow> (\<exists>k. Suc k < length as \<and> i = ?ks ! k \<and> j = ?ks ! Suc k)" for i j
  proof (cases "map_of (link_chain ?ks []) i")
    case None
    then have "(i, link_to j) \<notin> set (link_chain ?ks [])" by (metis map_of_eq_None_iff image_eqI fst_conv)
    then have "\<nexists>k. Suc k < length as \<and> i = ?ks ! k \<and> j = ?ks ! Suc k"
      unfolding link_chain_mem [OF assms(2)] by auto
    with None show ?thesis by (simp add: getNextActions_def getActionConnections_def r(2))
  next
    case (Some u)
    then have "(i, u) \<in> set (link_chain ?ks [])" by (rule map_of_SomeD)
    then obtain k where k: "Suc k < length as" "i = ?ks ! k" "u = link_to (?ks ! Suc k)"
      unfolding link_chain_mem [OF assms(2)] by auto
    have "m = k" if "Suc m < length as" "i = ?ks ! m" for m
      using that k assms(2) by (simp add: nth_eq_iff_index_eq)
    then have "(\<exists>m. Suc m < length as \<and> i = ?ks ! m \<and> j = ?ks ! Suc m) \<longleftrightarrow> j = ?ks ! Suc k"
      using k by (metis action_keys_length)
    moreover have "getNextActions (cr_workflow r) i None = [?ks ! Suc k]"
      using Some by (simp add: getNextActions_def getActionConnections_def r(2) k(3) uniq_def)
    ultimately show ?thesis by simp
  qed
  with r(1,3) show ?thesis by blast
qed

text \<open>
  C27: the round trip. Two or more actions without control flow, with distinct identifiers that are not empty and
  are kept (preserveActionIds), with types and configurations, are converted to a workflow that the converter in the other direction
  accepts, and it gives the same actions back in the same order, cleaned.
\<close>

theorem sequential_round_trip:
  assumes "sg_preserveActionIds c" and "2 \<le> length as" and "distinct (map ac_id as)" and "[] \<notin> ac_id ` set as"
    and "\<forall>a \<in> set as. \<not> isControlFlowAction (ac_type a) \<and> ac_type a \<noteq> [] \<and> \<not> falsy (ac_config a)"
  shows "\<exists>r. sg_convert gen now as c = Inr r \<and> convert (cr_workflow r) options = Some (Inr (cleanupActions as options))"
proof -
  have ks: "action_keys c gen 0 as = map ac_id as" by (rule action_keys_preserve [OF assms(1)])
  have "distinct (action_keys c gen 0 as)" "[] \<notin> set (action_keys c gen 0 as)" using assms(3,4) by (simp_all add: ks)
  moreover have "\<forall>a \<in> set as. \<not> isControlFlowAction (ac_type a)" using assms(5) by blast
  ultimately obtain r where r: "sg_convert gen now as c = Inr r" "wf_format (cr_workflow r) = ''graph''"
    "wf_connections (cr_workflow r) = link_chain (map ac_id as) []"
    "wf_actions (cr_workflow r) = map (\<lambda>k. (as ! k)\<lparr>ac_id := map ac_id as ! k, ac_position :=
      Some [lo_startX (sg_layout c) + of_nat k * lo_horizontalSpacing (sg_layout c), lo_startY (sg_layout c)]\<rparr>) [0..<length as]"
    using convert_plain [of as c gen now] unfolding ks by blast
  have ids: "map ac_id (wf_actions (cr_workflow r)) = map ac_id as" by (rule nth_equalityI) (simp_all add: r(4))
  have "convert (cr_workflow r) options = Some (Inr (cleanupActions (wf_actions (cr_workflow r)) options))"
  proof (rule chain_converts [OF r(2)])
    show "wf_connections (cr_workflow r) = link_chain (map ac_id (wf_actions (cr_workflow r))) []"
      "distinct (map ac_id (wf_actions (cr_workflow r)))" using assms(3) by (simp_all only: ids r(3))
    show "[] \<notin> ac_id ` set (wf_actions (cr_workflow r))" using assms(4) ids by (metis set_map)
    show "2 \<le> length (wf_actions (cr_workflow r))" using assms(2) by (simp add: r(4))
    show "\<forall>a \<in> set (wf_actions (cr_workflow r)). ac_type a \<notin> {[], ''IF'', ''LOOP''} \<and> \<not> falsy (ac_config a)"
      using assms(5) by (auto simp: r(4) isControlFlowAction_def)
  qed
  moreover have "cleanupActions (wf_actions (cr_workflow r)) options = cleanupActions as options"
    by (rule nth_equalityI) (simp_all add: cleanupActions_def cleanupAction_def r(4))
  ultimately show ?thesis using r(1) by auto
qed

text \<open>The connections of an IF action with two branches.\<close>

definition branch_outputs :: "ident \<Rightarrow> ident \<Rightarrow> Outputs" where
  "branch_outputs t e = no_outputs\<lparr>ou_main := Some (map (\<lambda>i.
     [\<lparr>cn_action = i, cn_type = CMain, cn_index = 0, cn_edge = JUndef\<rparr>]) [t, e])\<rparr>"

lemma targets_branch [simp]: "targets_of all_types (branch_outputs t e) = [t, e]"
  by (simp add: branch_outputs_def no_outputs_def targets_of_def all_types_def)

lemma handle_if_links:
  assumes "sg_connections c = []" and "ac_config a = JObj m" and "fmlookup m ''thenActions'' = Some (JArr [JStr t])"
    and "fmlookup m ''elseActions'' = Some (JArr [JStr e])"
  shows "sg_connections (handleIfAction a i c) = [(i, branch_outputs t e)]"
    "sg_actionNodes (handleIfAction a i c) = sg_actionNodes c"
    "sg_preserveActionIds (handleIfAction a i c) = sg_preserveActionIds c"
proof -
  have "config_ids (ac_config a) ''thenActions'' = [t]" "config_ids (ac_config a) ''elseActions'' = [e]"
    using assms by (simp_all add: config_ids_def config_array_def List.map_filter_def)
  then show "sg_connections (handleIfAction a i c) = [(i, branch_outputs t e)]"
    "sg_actionNodes (handleIfAction a i c) = sg_actionNodes c"
    "sg_preserveActionIds (handleIfAction a i c) = sg_preserveActionIds c"
    using assms(1) by (simp_all add: handleIfAction_def link_first_def addConnection_def Let_def
        push_output_def no_outputs_def branch_outputs_def)
qed

text \<open>The nodes of an IF action with one action in each branch, and the connections to them.\<close>

lemma process_if:
  assumes "sg_preserveActionIds c" and "distinct [ac_id a, ac_id t, ac_id e]"
    and "ac_type a = ''IF''" and "\<not> isControlFlowAction (ac_type t)" and "\<not> isControlFlowAction (ac_type e)"
    and "ac_config a = JObj m" and "fmlookup m ''thenActions'' = Some (JArr [JStr (ac_id t)])"
    and "fmlookup m ''elseActions'' = Some (JArr [JStr (ac_id e)])"
  obtains d where "processActions gen 0 0 None 0 [a, t, e] (resetConverter [a, t, e] c) = Inr d"
    "sg_actionNodes d = map (\<lambda>b. (ac_id b, action_node b (ac_id b) 0 0 None)) [a, t, e]"
    "sg_connections d = [(ac_id a, branch_outputs (ac_id t) (ac_id e))]"
proof -
  let ?c0 = "resetConverter [a, t, e] c"
  let ?n = "\<lambda>b. (ac_id b, action_node b (ac_id b) 0 0 None)"
  let ?cs = "[(ac_id a, branch_outputs (ac_id t) (ac_id e))]"
  let ?d = "add_node (ac_id a) (action_node a (ac_id a) 0 0 None) ?c0"
  have "handleControlFlow a (ac_id a) ?d = Inr (handleIfAction a (ac_id a) (?d\<lparr>sg_stats :=
      (sg_stats ?d)\<lparr>cs_controlFlowExpanded := cs_controlFlowExpanded (sg_stats ?d) + 1\<rparr>\<rparr>))"
    using assms(3,6) by (simp add: handleControlFlow_def Let_def)
  moreover obtain d' where d': "handleIfAction a (ac_id a) (?d\<lparr>sg_stats :=
      (sg_stats ?d)\<lparr>cs_controlFlowExpanded := cs_controlFlowExpanded (sg_stats ?d) + 1\<rparr>\<rparr>) = d'" by blast
  moreover have "sg_actionNodes d' = [?n a]" "sg_connections d' = ?cs" "sg_preserveActionIds d'"
    unfolding d' [symmetric]
    by (simp_all add: handle_if_links [OF _ assms(6-8)] add_node_def resetConverter_def assms(1))
  moreover have "isControlFlowAction ''IF''" by (simp add: isControlFlowAction_def)
  moreover have "action_key ?c0 gen 0 a = ac_id a" "action_key d' gen 1 t = ac_id t"
    "action_key (add_node (ac_id t) (action_node t (ac_id t) 0 0 None) d') gen 2 e = ac_id e"
    using assms(1) calculation by (simp_all add: action_key_def resetConverter_def add_node_def)
  ultimately have "processActions gen 0 0 None 0 [a, t, e] ?c0
      = Inr (add_node (ac_id e) (action_node e (ac_id e) 0 0 None) (add_node (ac_id t) (action_node t (ac_id t) 0 0 None) d'))"
    using assms(3-5) by (simp add: Let_def numeral_2_eq_2)
  then show thesis
    by (rule that)
      (use \<open>sg_actionNodes d' = [?n a]\<close> \<open>sg_connections d' = ?cs\<close> assms(2) in \<open>auto simp: add_node_def\<close>)
qed

text \<open>What the pass over the neighbours adds: a connection from the first branch to the second.\<close>

lemma link_if:
  assumes "distinct [ac_id a, ac_id t, ac_id e]" and "[] \<notin> ac_id ` set [a, t, e]" and "ac_type a = ''IF''"
    and "\<not> isControlFlowAction (ac_type t)"
    and "sg_actionNodes d = map (\<lambda>b. (ac_id b, action_node b (ac_id b) 0 0 None)) [a, t, e]"
    and "sg_connections d = [(ac_id a, outputs)]"
  shows "sg_connections (linkActions [a, t, e] d) = obj_set (ac_id t) (link_to (ac_id e)) [(ac_id a, outputs)]"
proof -
  have ne: "ac_id a \<noteq> []" "ac_id t \<noteq> []" "ac_id e \<noteq> []" using assms(2) by auto
  have skip: "link_pair (ac_id a, ac_id t) d = d"
    using ne assms(3,5) by (simp add: link_pair_def action_node_def isControlFlowAction_def)
  have link: "link_pair (ac_id t, ac_id e) d = addConnection (ac_id t) (ac_id e) CMain 0 d"
    using ne assms(1,4,5) by (auto simp: link_pair_def action_node_def)
  obtain st where "addConnection (ac_id t) (ac_id e) CMain 0 d
      = d\<lparr>sg_connections := obj_set (ac_id t) (link_to (ac_id e)) [(ac_id a, outputs)], sg_stats := st\<rparr>"
    using add_link [of "ac_id t" d "ac_id e"] assms(1,6) by auto
  then show ?thesis by (simp add: linkActions_def assms(5) skip link)
qed

text \<open>
  a conditional does not survive. An IF action with one action in each branch, both in the list
  behind it, becomes a workflow in which the first branch runs on into the second: the list is linked
  without regard to the branches. The second branch then has two predecessors, and the converter in the
  other direction refuses the workflow.
\<close>

theorem sequential_if_falls_through:
  assumes "sg_preserveActionIds c" and "distinct [ac_id a, ac_id t, ac_id e]" and "[] \<notin> ac_id ` set [a, t, e]"
    and "ac_type a = ''IF''" and "\<not> isControlFlowAction (ac_type t)"
    and "ac_config a = JObj m" and "fmlookup m ''thenActions'' = Some (JArr [JStr (ac_id t)])"
    and "fmlookup m ''elseActions'' = Some (JArr [JStr (ac_id e)])"
    and "\<not> isControlFlowAction (ac_type e)"
  shows "\<exists>r. sg_convert gen now [a, t, e] c = Inr r
    \<and> getNextActions (cr_workflow r) (ac_id a) None = [ac_id t, ac_id e]
    \<and> getNextActions (cr_workflow r) (ac_id t) None = [ac_id e]
    \<and> (\<exists>issues. convert (cr_workflow r) options = Some (Inl (NonLinearWorkflowError
         ''Workflow cannot be converted to sequential format'' issues)))"
proof -
  obtain c1 where c1: "processActions gen 0 0 None 0 [a, t, e] (resetConverter [a, t, e] c) = Inr c1"
    "sg_actionNodes c1 = map (\<lambda>b. (ac_id b, action_node b (ac_id b) 0 0 None)) [a, t, e]"
    "sg_connections c1 = [(ac_id a, branch_outputs (ac_id t) (ac_id e))]"
    by (rule process_if [OF assms(1,2,4,5,9,6-8)])
  let ?c2 = "linkActions [a, t, e] c1"
  note links = link_if [OF assms(2-5) c1(2,3)]
  let ?w = "build_workflow now (assignPositions ?c2)"
  obtain r where r: "sg_convert gen now [a, t, e] c = Inr r" "cr_workflow r = ?w"
    by (simp add: sg_convert_def c1(1) Let_def del: processActions.simps)
  have conns: "wf_connections ?w = sg_connections ?c2" "wf_format ?w = ''graph''"
    by (simp_all add: build_workflow_def assignPositions_def Let_def)
  have d: "ac_id t \<noteq> ac_id a" "ac_id e \<noteq> ac_id a" "ac_id e \<noteq> ac_id t" using assms(2) by auto
  note d = d d [THEN not_sym]
  have next_branch: "uniq (targets_of all_types (branch_outputs (ac_id t) (ac_id e))) = [ac_id t, ac_id e]"
    by (simp add: d uniq_def)
  have "getNextActions ?w (ac_id a) None = [ac_id t, ac_id e]" "getNextActions ?w (ac_id t) None = [ac_id e]"
    using d next_branch
    by (simp_all add: getNextActions_def getActionConnections_def conns links uniq_def [of "[ac_id e]"])
  moreover have "\<not> distinct (all_targets ?w)"
    by (simp add: all_targets_def conns links d)
  then have "\<not> lr_linearizable (check_linearizable ?w)" by (simp add: check_linearizable_iff)
  moreover have "wf_connections ?w \<noteq> []" by (simp add: conns links)
  ultimately show ?thesis using r conns(2) by (simp add: convert_def)
qed

section \<open>Examples\<close>

definition converter_example :: "bool \<Rightarrow> SequentialToGraphConverter" where
  "converter_example preserve = createConverter ''w'' \<lparr>op_workflowName = None, op_workflowId = None, op_version = None,
     op_preserveActionIds = Some preserve, op_horizontalSpacing = Some 250, op_verticalSpacing = None,
     op_startX = None, op_startY = None\<rparr>"

definition if_example :: Action where
  "if_example = (action_example ''i'')\<lparr>ac_type := ''IF'', ac_config :=
     JObj (fmap_of_list [(''thenActions'', JArr [JStr ''t'']), (''elseActions'', JArr [JStr ''e''])])\<rparr>"

lemma converter_example_fields:
  "sg_preserveActionIds (converter_example p) = p" "lo_startX (sg_layout (converter_example p)) = 100"
  "lo_horizontalSpacing (sg_layout (converter_example p)) = 250" "lo_startY (sg_layout (converter_example p)) = 100"
  by (simp_all add: converter_example_def createConverter_def createAutoLayout_def)

text \<open>A conditional with two branches: three actions and three connections.\<close>

theorem converted_well_formed_witness:
  "\<exists>r. sg_convert (\<lambda>_. []) ''now'' [if_example, action_example ''t'', action_example ''e''] (converter_example True) = Inr r
    \<and> map ac_id (wf_actions (cr_workflow r)) = [''i'', ''t'', ''e''] \<and> cs_connectionsCreated (cr_stats r) = 3
    \<and> (\<forall>a \<in> set (wf_actions (cr_workflow r)). \<exists>x y. ac_position a = Some [x, y])"
proof -
  let ?result = "sg_convert (\<lambda>_. []) ''now'' [if_example, action_example ''t'', action_example ''e''] (converter_example True)"
  have "case ?result of Inl _ \<Rightarrow> False
    | Inr r \<Rightarrow> length (all_targets (cr_workflow r)) = 3 \<and> map ac_id (wf_actions (cr_workflow r)) = [''i'', ''t'', ''e'']"
    by code_simp
  then obtain r where r: "?result = Inr r" "length (all_targets (cr_workflow r)) = 3"
    "map ac_id (wf_actions (cr_workflow r)) = [''i'', ''t'', ''e'']" by (cases ?result) auto
  with converted_well_formed [OF r(1)] show ?thesis by simp
qed

theorem plain_actions_in_row_witness:
  "\<exists>r. sg_convert (\<lambda>i. if i = 0 then ''a'' else ''b'') ''now'' [conv_action ''1'' ''CLICK'', conv_action ''2'' ''TYPE''] (converter_example False) = Inr r
    \<and> map ac_position (wf_actions (cr_workflow r)) = [Some [100, 100], Some [350, 100]]"
proof -
  let ?gen = "\<lambda>i. if i = 0 then ''a'' else ''b''"
  let ?as = "[conv_action ''1'' ''CLICK'', conv_action ''2'' ''TYPE'']"
  have ks: "action_keys (converter_example False) ?gen 0 ?as = [''a'', ''b'']"
    by (simp add: action_key_def converter_example_fields)
  have "\<exists>r. sg_convert ?gen ''now'' ?as (converter_example False) = Inr r
    \<and> (\<forall>i j. j \<in> set (getNextActions (cr_workflow r) i None) \<longleftrightarrow> (\<exists>k. Suc k < length ?as
         \<and> i = action_keys (converter_example False) ?gen 0 ?as ! k \<and> j = action_keys (converter_example False) ?gen 0 ?as ! Suc k))
    \<and> wf_actions (cr_workflow r) = map (\<lambda>k. (?as ! k)\<lparr>ac_id := action_keys (converter_example False) ?gen 0 ?as ! k, ac_position :=
        Some [lo_startX (sg_layout (converter_example False)) + of_nat k * lo_horizontalSpacing (sg_layout (converter_example False)),
              lo_startY (sg_layout (converter_example False))]\<rparr>) [0..<length ?as]"
    by (rule plain_actions_in_row) (simp_all add: action_key_def converter_example_fields conv_action_def isControlFlowAction_def)
  then show ?thesis by (auto simp: converter_example_fields)
qed

theorem sequential_round_trip_witness:
  "\<exists>r. sg_convert (\<lambda>_. []) ''now'' [conv_action ''1'' ''CLICK'', conv_action ''2'' ''TYPE''] (converter_example True) = Inr r
    \<and> convert (cr_workflow r) (conv_options None)
      = Some (Inr (cleanupActions [conv_action ''1'' ''CLICK'', conv_action ''2'' ''TYPE''] (conv_options None)))"
  by (rule sequential_round_trip)
    (simp_all add: converter_example_fields conv_action_def action_example_def isControlFlowAction_def)

theorem sequential_if_falls_through_witness:
  "\<exists>r. sg_convert (\<lambda>_. []) ''now'' [if_example, action_example ''t'', action_example ''e''] (converter_example True) = Inr r
    \<and> getNextActions (cr_workflow r) ''t'' None = [''e'']"
  using sequential_if_falls_through [of "converter_example True" if_example "action_example ''t''" "action_example ''e''"
      "fmap_of_list [(''thenActions'', JArr [JStr ''t'']), (''elseActions'', JArr [JStr ''e''])]" "\<lambda>_. []" "''now''"]
  by (auto simp: converter_example_fields if_example_def action_example_def isControlFlowAction_def)

end
