(* ===== verification/Workflow_Validation.thy ===== *)
theory Workflow_Validation
  imports Linearizability
begin

text \<open>
  Validation of a workflow in graph format (frontend/src/lib/action-schema/workflow-validation.ts). The
  records have all the fields that the code requires, connections with one of the four types, and positions
  that are lists of finite numbers; the branches for a missing list of actions, for missing connections, for
  other types of connections and for other positions are the ones that such workflows do not take.
\<close>

section \<open>Errors\<close>

datatype ValidationErrorType =
  Missing_action | Invalid_connection | Cycle_detected | Missing_entry_point | Invalid_output_index
  | Invalid_input_index | Duplicate_action_id | Invalid_connection_type | Missing_connections
  | Invalid_position | Orphaned_action

datatype ErrorDetails =
  No_details
  | Output_details nat nat
  | Target_details ident nat nat
  | Input_details ident nat int
  | Position_details "rat list"
  | Orphan_details "ident list"

record ValidationError =
  er_type :: ValidationErrorType
  er_message :: string
  er_actionId :: "ident option"
  er_details :: ErrorDetails

record ValidationResult =
  vr_valid :: bool
  vr_errors :: "ValidationError list"

definition val_error :: "ValidationErrorType \<Rightarrow> string \<Rightarrow> ident option \<Rightarrow> ErrorDetails \<Rightarrow> ValidationError" where
  "val_error t message actionId details =
     \<lparr>er_type = t, er_message = message, er_actionId = actionId, er_details = details\<rparr>"

section \<open>Connections\<close>

definition getActionOutputCount :: "string \<Rightarrow> json \<Rightarrow> nat" where
  "getActionOutputCount t config =
     (if t = ''IF'' \<or> t = ''TRY_CATCH'' then 2
      else if t = ''SWITCH''
      then (case config of
              JObj m \<Rightarrow> (case fmlookup m ''cases'' of Some (JArr cs) \<Rightarrow> length cs + 1 | _ \<Rightarrow> 1)
            | _ \<Rightarrow> 1)
      else 1)"

definition getActionInputCount :: nat where
  "getActionInputCount = 1"

text \<open>An output that is absent is not looked at; the others as they are.\<close>

definition output_opt :: "Outputs \<Rightarrow> ConnectionType \<Rightarrow> Connection list list option" where
  "output_opt u t = (case t of CMain \<Rightarrow> ou_main u | CError \<Rightarrow> ou_error u | CSuccess \<Rightarrow> ou_success u | CParallel \<Rightarrow> ou_parallel u)"

definition connection_errors :: "Workflow \<Rightarrow> ident \<Rightarrow> nat \<Rightarrow> nat \<times> Connection \<Rightarrow> ValidationError list" where
  "connection_errors w source outputIndex p =
     (case p of (connIndex, conn) \<Rightarrow>
       (case getActionById w (cn_action conn) of
          None \<Rightarrow> [val_error Missing_action (''Connection target action not found: '' @ cn_action conn) (Some source)
                     (Target_details (cn_action conn) outputIndex connIndex)]
        | Some target \<Rightarrow>
            if cn_index conn \<ge> int getActionInputCount
            then [val_error Invalid_input_index
                   (''Target action '' @ cn_action conn @ '' ('' @ ac_type target @ '') has '' @ nat_string getActionInputCount
                    @ '' inputs but connection uses index '' @ int_string (cn_index conn)) (Some source)
                   (Input_details (cn_action conn) getActionInputCount (cn_index conn))]
            else []))"

definition type_errors :: "Workflow \<Rightarrow> ident \<Rightarrow> Action \<Rightarrow> Connection list list \<Rightarrow> ValidationError list" where
  "type_errors w source sourceAction connections =
     (let outputCount = getActionOutputCount (ac_type sourceAction) (ac_config sourceAction)
      in (if length connections > outputCount
          then [val_error Invalid_output_index
                 (''Action '' @ source @ '' ('' @ ac_type sourceAction @ '') has '' @ nat_string outputCount
                  @ '' outputs but connections use '' @ nat_string (length connections) @ '' outputs'') (Some source)
                 (Output_details outputCount (length connections))]
          else [])
         @ concat (map (\<lambda>(outputIndex, cs). concat (map (connection_errors w source outputIndex) (enumerate 0 cs)))
             (enumerate 0 connections)))"

definition source_errors :: "Workflow \<Rightarrow> ident \<times> Outputs \<Rightarrow> ValidationError list" where
  "source_errors w p =
     (case p of (source, outputs) \<Rightarrow>
       (case getActionById w source of
          None \<Rightarrow> [val_error Missing_action (''Connection source action not found: '' @ source) (Some source) No_details]
        | Some a \<Rightarrow>
            concat (map (\<lambda>t. case output_opt outputs t of None \<Rightarrow> [] | Some cs \<Rightarrow> type_errors w source a cs) all_types)))"

definition validateConnections :: "Workflow \<Rightarrow> ValidationError list" where
  "validateConnections w = concat (map (source_errors w) (wf_connections w))"

section \<open>Positions\<close>

definition position_errors :: "Action \<Rightarrow> ValidationError list" where
  "position_errors a =
     (case ac_position a of
        None \<Rightarrow> [val_error Invalid_position (''Action '' @ ac_id a @ '' is missing position (required for graph format)'')
                  (Some (ac_id a)) No_details]
      | Some p \<Rightarrow>
          if length p \<noteq> 2
          then [val_error Invalid_position (''Action '' @ ac_id a @ '' has invalid position format (expected [x, y])'')
                 (Some (ac_id a)) (Position_details p)]
          else [])"

definition validatePositions :: "Workflow \<Rightarrow> ValidationError list" where
  "validatePositions w = concat (map position_errors (wf_actions w))"

section \<open>The workflow\<close>

text \<open>The identifiers that occur before in the list.\<close>

fun duplicate_errors :: "ident set \<Rightarrow> ident list \<Rightarrow> ValidationError list" where
  "duplicate_errors seen [] = []"
| "duplicate_errors seen (i # is) =
     (if i \<in> seen then [val_error Duplicate_action_id (''Duplicate action ID: '' @ i) (Some i) No_details] else [])
     @ duplicate_errors (insert i seen) is"

definition required_errors :: "Workflow \<Rightarrow> ValidationError list" where
  "required_errors w =
     concat (map (\<lambda>(value, message). if value = [] then [val_error Missing_action message None No_details] else [])
       [(wf_id w, ''Workflow must have an id''), (wf_name w, ''Workflow must have a name''),
        (wf_version w, ''Workflow must have a version'')])"

definition graph_errors :: "Workflow \<Rightarrow> ValidationError list" where
  "graph_errors w =
     (if wf_format w \<noteq> ''graph''
      then [val_error Invalid_connection (''Workflow format must be '' @ [CHR 39] @ ''graph'' @ [CHR 39] @ '', got ''
              @ [CHR 39] @ wf_format w @ [CHR 39]) None No_details] else [])
     @ duplicate_errors {} (map ac_id (wf_actions w))
     @ validateConnections w
     @ validatePositions w
     @ (if hasCycles w then [val_error Cycle_detected ''Workflow contains circular dependencies (cycles)'' None No_details] else [])
     @ (if getEntryPoints w = [] then [val_error Missing_entry_point ''Workflow has no entry points'' None No_details] else [])
     @ (if findOrphanedActions w \<noteq> []
        then [val_error Orphaned_action (''Found '' @ nat_string (length (findOrphanedActions w)) @ '' orphaned action(s): ''
                @ join '', '' (findOrphanedActions w)) None (Orphan_details (findOrphanedActions w))] else [])"

definition validateWorkflow :: "Workflow \<Rightarrow> ValidationResult" where
  "validateWorkflow w =
     (let errors = required_errors w
                   @ (if wf_actions w = []
                      then [val_error Missing_action ''Workflow must have at least one action'' None No_details]
                      else graph_errors w)
      in \<lparr>vr_valid = (errors = []), vr_errors = errors\<rparr>)"

definition isWorkflowValid :: "Workflow \<Rightarrow> bool" where
  "isWorkflowValid w = vr_valid (validateWorkflow w)"

section \<open>What is valid\<close>

lemma duplicate_errors_Nil: "duplicate_errors seen is = [] \<longleftrightarrow> distinct is \<and> set is \<inter> seen = {}"
  by (induction "is" arbitrary: seen) auto

lemma getActionById_iff: "getActionById w i = None \<longleftrightarrow> i \<notin> ac_id ` set (wf_actions w)"
  by (auto simp: getActionById_def find_None_iff)

text \<open>A connection leads to an action of the workflow, by its only input.\<close>

definition connection_ok :: "Workflow \<Rightarrow> Connection \<Rightarrow> bool" where
  "connection_ok w c \<longleftrightarrow> cn_action c \<in> ac_id ` set (wf_actions w) \<and> cn_index c < 1"

text \<open>The outputs of an action: not more of a type than it has.\<close>

definition outputs_ok :: "Workflow \<Rightarrow> ident \<Rightarrow> Outputs \<Rightarrow> bool" where
  "outputs_ok w i u \<longleftrightarrow>
     (\<exists>a. getActionById w i = Some a
        \<and> list_all (\<lambda>t. length (output_of u t) \<le> getActionOutputCount (ac_type a) (ac_config a)
            \<and> list_all (list_all (connection_ok w)) (output_of u t)) all_types)"

lemma connection_errors_Nil: "connection_errors w s k (j, c) = [] \<longleftrightarrow> connection_ok w c"
  using getActionById_iff [of w "cn_action c"]
  by (auto simp: connection_errors_def connection_ok_def getActionInputCount_def split: option.split)

lemma type_errors_Nil:
  "type_errors w s a cs = [] \<longleftrightarrow> length cs \<le> getActionOutputCount (ac_type a) (ac_config a)
     \<and> list_all (list_all (connection_ok w)) cs"
proof -
  have "concat (map (connection_errors w s k) (enumerate n ds)) = [] \<longleftrightarrow> list_all (connection_ok w) ds" for k n ds
    by (induction ds arbitrary: n) (simp_all add: connection_errors_Nil)
  then have "concat (map (\<lambda>(k, ds). concat (map (connection_errors w s k) (enumerate 0 ds))) (enumerate n cs)) = []
      \<longleftrightarrow> list_all (list_all (connection_ok w)) cs" for n
    by (induction cs arbitrary: n) (simp_all del: concat_eq_Nil_conv)
  then show ?thesis by (auto simp: type_errors_def Let_def simp del: concat_eq_Nil_conv)
qed

lemma source_errors_Nil: "source_errors w (i, u) = [] \<longleftrightarrow> outputs_ok w i u"
  by (cases "getActionById w i")
    (auto simp: source_errors_def outputs_ok_def all_types_def output_opt_def type_errors_Nil split: option.splits)

lemma validateConnections_Nil: "validateConnections w = [] \<longleftrightarrow> list_all (\<lambda>(i, u). outputs_ok w i u) (wf_connections w)"
  using source_errors_Nil [of w] by (auto simp: validateConnections_def list_all_iff)

lemma validatePositions_Nil: "validatePositions w = [] \<longleftrightarrow> list_all (\<lambda>a. \<exists>x y. ac_position a = Some [x, y]) (wf_actions w)"
proof -
  have "position_errors a = [] \<longleftrightarrow> (\<exists>x y. ac_position a = Some [x, y])" for a
    by (auto simp: position_errors_def length_Suc_conv numeral_2_eq_2 split: option.split)
  then show ?thesis by (simp add: validatePositions_def list_all_iff)
qed

lemma valid_iff:
  "isWorkflowValid w \<longleftrightarrow>
     [] \<notin> {wf_id w, wf_name w, wf_version w} \<and> wf_format w = ''graph'' \<and> distinct (map ac_id (wf_actions w))
     \<and> list_all (\<lambda>(i, u). outputs_ok w i u) (wf_connections w)
     \<and> list_all (\<lambda>a. \<exists>x y. ac_position a = Some [x, y]) (wf_actions w)
     \<and> getEntryPoints w \<noteq> [] \<and> findOrphanedActions w = [] \<and> \<not> hasCycles w"
proof -
  have "required_errors w = [] \<longleftrightarrow> [] \<notin> {wf_id w, wf_name w, wf_version w}" by (auto simp: required_errors_def)
  moreover have "wf_actions w = [] \<Longrightarrow> getEntryPoints w = []" by (simp add: getEntryPoints_def)
  ultimately show ?thesis
    by (auto simp: isWorkflowValid_def validateWorkflow_def graph_errors_def Let_def duplicate_errors_Nil
        validateConnections_Nil validatePositions_Nil)
qed

section \<open>A cycle beside a valid workflow\<close>

text \<open>Two more actions, each of which leads to the other.\<close>

definition add_ring :: "Action \<Rightarrow> Action \<Rightarrow> Workflow \<Rightarrow> Workflow" where
  "add_ring a b w = w\<lparr>wf_actions := wf_actions w @ [a, b],
     wf_connections := wf_connections w @ [(ac_id a, main_to [ac_id b]), (ac_id b, main_to [ac_id a])]\<rparr>"

lemma ring_targets: "set (all_targets (add_ring a b w)) = set (all_targets w) \<union> {ac_id a, ac_id b}"
  by (auto simp: add_ring_def all_targets_def targets_of_def all_types_def main_to_def)

lemma known_outputs:
  assumes "outputs_ok w i u"
  shows "i \<in> ac_id ` set (wf_actions w)" and "set (targets_of all_types u) \<subseteq> ac_id ` set (wf_actions w)"
proof -
  show "i \<in> ac_id ` set (wf_actions w)" using assms getActionById_iff [of w i] by (auto simp: outputs_ok_def)
  have "\<forall>t \<in> set all_types. \<forall>cs \<in> set (output_of u t). \<forall>c \<in> set cs. cn_action c \<in> ac_id ` set (wf_actions w)"
    using assms by (auto simp: outputs_ok_def list_all_iff connection_ok_def)
  then show "set (targets_of all_types u) \<subseteq> ac_id ` set (wf_actions w)" by (auto simp: targets_of_def)
qed

lemma ring_known:
  assumes "list_all (\<lambda>(i, u). outputs_ok w i u) (wf_connections w)"
  shows "fst ` set (wf_connections w) \<subseteq> ac_id ` set (wf_actions w)" and "set (all_targets w) \<subseteq> ac_id ` set (wf_actions w)"
proof -
  have ok: "outputs_ok w (fst p) (snd p)" if "p \<in> set (wf_connections w)" for p
    using assms that by (auto simp: list_all_iff)
  then show "fst ` set (wf_connections w) \<subseteq> ac_id ` set (wf_actions w)" using known_outputs(1) by blast
  have "set (all_targets w) = (\<Union>p \<in> set (wf_connections w). set (targets_of all_types (snd p)))"
    by (simp add: all_targets_def case_prod_beta')
  then show "set (all_targets w) \<subseteq> ac_id ` set (wf_actions w)" using ok known_outputs(2) by blast
qed

lemma ring_action:
  "distinct [ac_id a, ac_id b] \<Longrightarrow> {ac_id a, ac_id b} \<inter> ac_id ` set (wf_actions w) = {} \<Longrightarrow>
     getActionById (add_ring a b w) i = (if i = ac_id a then Some a else if i = ac_id b then Some b else getActionById w i)"
proof -
  have "find P (xs @ ys) = (case find P xs of None \<Rightarrow> find P ys | Some x \<Rightarrow> Some x)" for P and xs ys :: "Action list"
    by (induction xs) auto
  moreover assume "distinct [ac_id a, ac_id b]" "{ac_id a, ac_id b} \<inter> ac_id ` set (wf_actions w) = {}"
  moreover from this have "getActionById w (ac_id a) = None" "getActionById w (ac_id b) = None"
    unfolding getActionById_iff by auto
  ultimately show ?thesis by (auto simp: getActionById_def add_ring_def split: option.split)
qed

lemma ring_outputs:
  assumes "outputs_ok w i u" and "distinct [ac_id a, ac_id b]" and "{ac_id a, ac_id b} \<inter> ac_id ` set (wf_actions w) = {}"
  shows "outputs_ok (add_ring a b w) i u"
proof -
  have "connection_ok (add_ring a b w) c" if "connection_ok w c" for c
    using that by (auto simp: connection_ok_def add_ring_def)
  moreover have "i \<noteq> ac_id a" "i \<noteq> ac_id b" using known_outputs(1) [OF assms(1)] assms(3) by blast+
  then have "getActionById (add_ring a b w) i = getActionById w i" by (simp add: ring_action [OF assms(2,3)])
  ultimately show ?thesis using assms(1) unfolding outputs_ok_def list_all_iff by metis
qed

lemma ring_link_ok:
  assumes "getActionById w i = Some a" and "getActionOutputCount (ac_type a) (ac_config a) > 0" and "j \<in> ac_id ` set (wf_actions w)"
  shows "outputs_ok w i (main_to [j])"
  using assms by (auto simp: outputs_ok_def main_to_def connection_ok_def all_types_def)

lemma ring_succs:
  assumes "{ac_id a, ac_id b} \<inter> fst ` set (wf_connections w) = {}" and "distinct [ac_id a, ac_id b]"
  shows "succs (add_ring a b w) i = (if i = ac_id a then [ac_id b] else if i = ac_id b then [ac_id a] else succs w i)"
proof -
  have "map_of (wf_connections w) (ac_id a) = None" "map_of (wf_connections w) (ac_id b) = None"
    using assms(1) by (auto simp: map_of_eq_None_iff)
  then show ?thesis
    using assms(2) by (auto simp: succs_def getNextActions_def getActionConnections_def add_ring_def map_add_def
        uniq_def targets_of_def all_types_def main_to_def split: option.split)
qed

lemma hasCycles_beside:
  assumes "\<And>i. i \<in> A \<Longrightarrow> succs v i = succs w i" and "\<And>i. i \<in> A \<Longrightarrow> set (succs w i) \<subseteq> A"
    and "getEntryPoints v = getEntryPoints w" and "set (getEntryPoints w) \<subseteq> A"
  shows "hasCycles v = hasCycles w"
proof -
  have star: "(e, y) \<in> (edges (succs v))\<^sup>* \<longleftrightarrow> (e, y) \<in> (edges (succs w))\<^sup>*"
    "(e, y) \<in> (edges (succs w))\<^sup>* \<Longrightarrow> y \<in> A" if "e \<in> A" for e y
  proof -
    have f: "(e, y) \<in> (edges (succs w))\<^sup>* \<and> y \<in> A" if "(e, y) \<in> (edges (succs v))\<^sup>*" for y
      using that by (induction rule: rtrancl_induct)
        (use \<open>e \<in> A\<close> assms(1,2) in \<open>auto intro: rtrancl_into_rtrancl\<close>)
    have g: "(e, y) \<in> (edges (succs v))\<^sup>* \<and> y \<in> A" if "(e, y) \<in> (edges (succs w))\<^sup>*" for y
      using that by (induction rule: rtrancl_induct)
        (use \<open>e \<in> A\<close> assms(1,2) in \<open>auto intro: rtrancl_into_rtrancl\<close>)
    show "(e, y) \<in> (edges (succs v))\<^sup>* \<longleftrightarrow> (e, y) \<in> (edges (succs w))\<^sup>*" using f g by blast
    show "(e, y) \<in> (edges (succs w))\<^sup>* \<Longrightarrow> y \<in> A" using g by blast
  qed
  have cycle: "(y, y) \<in> (edges f)\<^sup>+ \<longleftrightarrow> (\<exists>z \<in> set (f y). (z, y) \<in> (edges f)\<^sup>*)" for f y
    by (auto simp: trancl_unfold_left)
  have loop: "(y, y) \<in> (edges (succs v))\<^sup>+ \<longleftrightarrow> (y, y) \<in> (edges (succs w))\<^sup>+" if "y \<in> A" for y
    unfolding cycle assms(1) [OF that] by (rule bex_cong [OF refl]) (use star(1) assms(2) [OF that] in blast)
  have "(\<exists>y. (e, y) \<in> (edges (succs v))\<^sup>* \<and> (y, y) \<in> (edges (succs v))\<^sup>+)
      \<longleftrightarrow> (\<exists>y. (e, y) \<in> (edges (succs w))\<^sup>* \<and> (y, y) \<in> (edges (succs w))\<^sup>+)" if "e \<in> A" for e
    using star [OF that] loop by metis
  then have "(\<exists>e \<in> set (getEntryPoints w). \<exists>y. (e, y) \<in> (edges (succs v))\<^sup>* \<and> (y, y) \<in> (edges (succs v))\<^sup>+)
      \<longleftrightarrow> (\<exists>e \<in> set (getEntryPoints w). \<exists>y. (e, y) \<in> (edges (succs w))\<^sup>* \<and> (y, y) \<in> (edges (succs w))\<^sup>+)"
    using assms(4) by (intro bex_cong refl) blast
  then show ?thesis unfolding hasCycles_iff assms(3) .
qed

lemma ring_valid:
  assumes "isWorkflowValid w" and "length (wf_actions w) > 1"
    and "distinct [ac_id a, ac_id b]" and "{ac_id a, ac_id b} \<inter> ac_id ` set (wf_actions w) = {}"
    and "list_all (\<lambda>c. \<exists>x y. ac_position c = Some [x, y]) [a, b]"
    and "list_all (\<lambda>c. getActionOutputCount (ac_type c) (ac_config c) > 0) [a, b]"
  shows "isWorkflowValid (add_ring a b w)"
proof -
  let ?w = "add_ring a b w" and ?ids = "ac_id ` set (wf_actions w)"
  note valid = assms(1) [unfolded valid_iff]
  have known: "fst ` set (wf_connections w) \<subseteq> ?ids" "set (all_targets w) \<subseteq> ?ids" using ring_known valid by blast+
  have ids: "map ac_id (wf_actions ?w) = map ac_id (wf_actions w) @ [ac_id a, ac_id b]" by (simp add: add_ring_def)
  have entry: "getEntryPoints ?w = getEntryPoints w"
    using assms(4) unfolding getEntryPoints_def ids ring_targets by (auto intro!: filter_cong)
  have "{ac_id a, ac_id b} \<inter> fst ` set (wf_connections w) = {}" using known(1) assms(4) by blast
  note step = ring_succs [OF this assms(3)]
  have "hasCycles ?w = hasCycles w"
  proof (rule hasCycles_beside [of ?ids])
    show "succs ?w i = succs w i" if i: "i \<in> ?ids" for i
    proof -
      have "i \<noteq> ac_id a" "i \<noteq> ac_id b" using assms(4) i by blast+
      then show ?thesis by (simp add: step)
    qed
    show "set (succs w i) \<subseteq> ?ids" for i using succs_targets known(2) by blast
    show "set (getEntryPoints w) \<subseteq> ?ids" by (auto simp: getEntryPoints_def)
  qed (rule entry)
  moreover have "findOrphanedActions ?w = []"
  proof -
    have "wf_connections w \<noteq> []" using valid assms(2) by (auto simp: findOrphanedActions_def split: if_splits)
    then have "\<forall>i \<in> ?ids. i \<in> fst ` set (wf_connections w) \<union> set (all_targets w)"
      using valid assms(2) by (auto simp: findOrphanedActions_def filter_empty_conv split: if_splits)
    then show ?thesis
      unfolding findOrphanedActions_def ids ring_targets by (auto simp: add_ring_def filter_empty_conv)
  qed
  moreover have "list_all (\<lambda>(i, u). outputs_ok ?w i u) (wf_connections ?w)"
  proof -
    have "list_all (\<lambda>(i, u). outputs_ok ?w i u) (wf_connections w)"
      using valid ring_outputs [OF _ assms(3,4)] by (auto simp: list_all_iff)
    moreover have "outputs_ok ?w (ac_id a) (main_to [ac_id b])" "outputs_ok ?w (ac_id b) (main_to [ac_id a])"
      using ring_link_ok [of ?w "ac_id a" a "ac_id b"] ring_link_ok [of ?w "ac_id b" b "ac_id a"] assms(3,6)
        arg_cong [OF ids, of set]
      by (simp_all add: ring_action [OF assms(3,4)])
    ultimately show ?thesis by (simp add: add_ring_def)
  qed
  ultimately show ?thesis
    using valid entry assms(3-5) unfolding valid_iff ids by (auto simp: add_ring_def)
qed

section \<open>Properties\<close>

text \<open>
  C23: A workflow passes validation exactly if: its identifier, name and version are not empty; its format is graph; its
  actions have distinct identifiers and two coordinates each; for every entry of the connections, the outputs
  pass the tests of \<open>outputs_ok\<close> (the source is an action; of each type there are no more lists than it has outputs; each connection
  leads to an action, with an index below 1, so that a negative index passes too); some action is the target of no
  connection; if there are several actions, each is a target or merely has an entry of its own in the connections
  (which may be empty, so that \<open>{a: {}, b: {}}\<close> passes); and no cycle can be reached from an action that is no target.
\<close>

theorem valid_workflow_exact:
  "isWorkflowValid w =
     ([] \<notin> {wf_id w, wf_name w, wf_version w} \<and> wf_format w = ''graph'' \<and> distinct (map ac_id (wf_actions w))
      \<and> list_all (\<lambda>(i, u). outputs_ok w i u) (wf_connections w)
      \<and> list_all (\<lambda>a. \<exists>x y. ac_position a = Some [x, y]) (wf_actions w)
      \<and> set (map ac_id (wf_actions w)) - set (all_targets w) \<noteq> {}
      \<and> (length (wf_actions w) \<le> 1 \<or>
           set (map ac_id (wf_actions w)) \<subseteq> set (map fst (wf_connections w)) \<union> set (all_targets w))
      \<and> {(e, y). e \<in> set (map ac_id (wf_actions w)) - set (all_targets w)
           \<and> (e, y) \<in> {(a, b). b \<in> set (getNextActions w a None)}\<^sup>*
           \<and> (y, y) \<in> {(a, b). b \<in> set (getNextActions w a None)}\<^sup>+} = {})"
proof -
  have e: "edges (succs w) = {(a, b). b \<in> set (getNextActions w a None)}" by (simp add: edges_def succs_def)
  have entry: "set (getEntryPoints w) = set (map ac_id (wf_actions w)) - set (all_targets w)"
    by (auto simp: getEntryPoints_def)
  have "findOrphanedActions w = [] \<longleftrightarrow> (length (wf_actions w) \<le> 1 \<or>
      set (map ac_id (wf_actions w)) \<subseteq> set (map fst (wf_connections w)) \<union> set (all_targets w))"
  proof (cases "wf_connections w")
    case Nil
    then have "all_targets w = []" by (simp add: all_targets_def)
    with Nil show ?thesis by (auto simp: findOrphanedActions_def)
  next
    case (Cons p ps)
    then have "wf_connections w \<noteq> []" by simp
    then show ?thesis by (auto simp: findOrphanedActions_def filter_empty_conv)
  qed
  moreover have "getEntryPoints w \<noteq> [] \<longleftrightarrow> set (map ac_id (wf_actions w)) - set (all_targets w) \<noteq> {}"
    unfolding entry [symmetric] by simp
  ultimately show ?thesis
    unfolding valid_iff hasCycles_iff e entry by blast
qed

text \<open>
  C24: Validation does not keep cycles out. To any valid workflow with several actions, any two new ones (with ids of
  their own, positions and at least one output) can be added that only lead to each other: the result is valid and has
  a cycle.
\<close>

theorem valid_workflow_hides_cycle:
  assumes "isWorkflowValid w" and "length (wf_actions w) > 1"
    and "distinct [ac_id a, ac_id b]" and "{ac_id a, ac_id b} \<inter> ac_id ` set (wf_actions w) = {}"
    and "list_all (\<lambda>c. \<exists>x y. ac_position c = Some [x, y]) [a, b]"
    and "list_all (\<lambda>c. getActionOutputCount (ac_type c) (ac_config c) > 0) [a, b]"
  shows "isWorkflowValid (add_ring a b w)
    \<and> getNextActions (add_ring a b w) (ac_id a) None = [ac_id b] \<and> getNextActions (add_ring a b w) (ac_id b) None = [ac_id a]"
proof -
  have "{ac_id a, ac_id b} \<inter> fst ` set (wf_connections w) = {}"
    using ring_known(1) assms(1,4) unfolding valid_iff by blast
  then have "succs (add_ring a b w) (ac_id a) = [ac_id b]" "succs (add_ring a b w) (ac_id b) = [ac_id a]"
    using ring_succs [OF _ assms(3)] assms(3) by simp_all
  then show ?thesis using ring_valid [OF assms] by (simp add: succs_def)
qed

lemma valid_workflow_hides_cycle_witness:
  "isWorkflowValid (workflow_example [''a'', ''b''] [(''a'', [''b''])])
   \<and> isWorkflowValid (add_ring (action_example ''c'') (action_example ''d'') (workflow_example [''a'', ''b''] [(''a'', [''b''])]))"
proof -
  have v: "isWorkflowValid (workflow_example [''a'', ''b''] [(''a'', [''b''])])"
    by (simp add: valid_iff outputs_ok_def getActionById_def connection_ok_def hasCycles_def findOrphanedActions_def
        getActionOutputCount_def graph_eval)
  then show ?thesis
    using valid_workflow_hides_cycle [OF v, of "action_example ''c''" "action_example ''d''"]
    by (simp add: workflow_example_def action_example_def getActionOutputCount_def)
qed

end
