(* ===== verification/Workflow_Dependencies.thy ===== *)
theory Workflow_Dependencies
  imports Linearizability Pattern_Detector Auto_Layout
begin

text \<open>
  The dependencies between workflows (frontend/src/services/workflow-dependency-analyzer.ts): which
  workflow runs which, directly and transitively, circular dependencies, the graph with its cache, trees,
  critical paths, validation, statistics, and the data for drawing and export. A RUN_WORKFLOW action has a
  configuration object whose \<open>workflowId\<close>, if present, is a string. Recursions carry fuel for their depth;
  \<open>None\<close> is running out of it, which is proved not to happen.
\<close>

section \<open>Direct dependencies\<close>

definition run_target :: "Action \<Rightarrow> ident" where
  "run_target a =
     (case ac_config a of
        JObj m \<Rightarrow> (case fmlookup m ''workflowId'' of Some (JStr s) \<Rightarrow> s | _ \<Rightarrow> [])
      | _ \<Rightarrow> [])"

definition findRunWorkflowActions :: "Workflow \<Rightarrow> Action list" where
  "findRunWorkflowActions w = filter (\<lambda>a. ac_type a = ''RUN_WORKFLOW'') (wf_actions w)"

definition analyzeDependencies :: "Workflow \<Rightarrow> ident list" where
  "analyzeDependencies w = uniq (filter (\<lambda>t. t \<noteq> []) (map run_target (findRunWorkflowActions w)))"

definition getDependencies :: "Workflow list \<Rightarrow> ident \<Rightarrow> ident list" where
  "getDependencies ws i = (case find (\<lambda>w. wf_id w = i) ws of None \<Rightarrow> [] | Some w \<Rightarrow> analyzeDependencies w)"

definition getDependents :: "Workflow list \<Rightarrow> ident \<Rightarrow> ident list" where
  "getDependents ws i = map wf_id (filter (\<lambda>w. i \<in> set (analyzeDependencies w)) ws)"

definition findUnusedWorkflows :: "Workflow list \<Rightarrow> ident list" where
  "findUnusedWorkflows ws =
     (let used = concat (map analyzeDependencies ws) in map wf_id (filter (\<lambda>w. wf_id w \<notin> set used) ws))"

section \<open>Transitive dependencies\<close>

text \<open>
  The loop over the direct dependencies: each is added, then what its own search returns, with the
  visited identifiers shared.
\<close>

fun collect_all :: "(ident \<Rightarrow> ident list) \<Rightarrow> nat \<Rightarrow> ident list \<Rightarrow> ident list \<Rightarrow> ident list
    \<Rightarrow> (ident list \<times> ident list) option" where
  "collect_all succ fuel visited allDeps [] = Some (visited, allDeps)"
| "collect_all succ fuel visited allDeps (dep # deps) =
     (if dep \<in> set visited then collect_all succ fuel visited (set_add dep allDeps) deps
      else case fuel of
        0 \<Rightarrow> None
      | Suc n \<Rightarrow>
          (case collect_all succ n (dep # visited) [] (succ dep) of
             None \<Rightarrow> None
           | Some (visited', subDeps) \<Rightarrow>
               collect_all succ fuel visited' (fold set_add subDeps (set_add dep allDeps)) deps))"

definition dep_nodes :: "Workflow list \<Rightarrow> ident list" where
  "dep_nodes ws = map wf_id ws @ concat (map analyzeDependencies ws)"

definition dep_fuel :: "Workflow list \<Rightarrow> nat" where
  "dep_fuel ws = Suc (length (dep_nodes ws))"

definition getAllDependencies :: "Workflow list \<Rightarrow> ident \<Rightarrow> ident list" where
  "getAllDependencies ws i =
     (case collect_all (getDependencies ws) (dep_fuel ws) [i] [] (getDependencies ws i) of
        None \<Rightarrow> [] | Some (_, deps) \<Rightarrow> deps)"

definition getAllDependents :: "Workflow list \<Rightarrow> ident \<Rightarrow> ident list" where
  "getAllDependents ws i =
     (case collect_all (getDependents ws) (dep_fuel ws) [i] [] (getDependents ws i) of
        None \<Rightarrow> [] | Some (_, deps) \<Rightarrow> deps)"

section \<open>Circular dependencies\<close>

text \<open>
  \<open>String(Math.min(...cycle.map(Number)))\<close> for identifiers that are canonical numerals of array indices,
  or no numerals at all (one of those makes the minimum \<open>NaN\<close>).
\<close>

definition min_number_string :: "ident list \<Rightarrow> string" where
  "min_number_string c =
     (if list_ex (\<lambda>i. array_index i = None) c then ''NaN''
      else nat_string (Min (set (map (\<lambda>i. the (array_index i)) c))))"

text \<open>With an index of \<open>-1\<close> the two slices are the last element and all others.\<close>

definition normalizeCycle :: "ident list \<Rightarrow> string" where
  "normalizeCycle cycle =
     (if cycle = [] then []
      else let m = min_number_string cycle;
               k = length (takeWhile (\<lambda>i. i \<noteq> m) cycle)
           in join ''->'' (if k = length cycle then last cycle # butlast cycle else drop k cycle @ take k cycle))"

definition record_cycle :: "ident list \<Rightarrow> ident list list \<Rightarrow> ident list list" where
  "record_cycle cycle cycles =
     (if list_ex (\<lambda>c. normalizeCycle c = normalizeCycle cycle) cycles then cycles else cycles @ [cycle])"

text \<open>The recursion stack holds the elements of the path; \<open>keep\<close> adds a cycle that is not known yet.\<close>

fun circular_dfs ::
    "('v list \<Rightarrow> 'v list list \<Rightarrow> 'v list list) \<Rightarrow> ('v \<Rightarrow> 'v list) \<Rightarrow> nat \<Rightarrow> 'v list \<Rightarrow> 'v list \<Rightarrow> 'v list list \<Rightarrow> 'v list
      \<Rightarrow> ('v list \<times> 'v list list) option" where
  "circular_dfs keep succ fuel path visited cycles [] = Some (visited, cycles)"
| "circular_dfs keep succ fuel path visited cycles (x # xs) =
     (if x \<in> set path
      then circular_dfs keep succ fuel path visited (keep (dropWhile (\<lambda>y. y \<noteq> x) path @ [x]) cycles) xs
      else if x \<in> set visited then circular_dfs keep succ fuel path visited cycles xs
      else case fuel of
        0 \<Rightarrow> None
      | Suc n \<Rightarrow>
          (case circular_dfs keep succ n (path @ [x]) (x # visited) cycles (succ x) of
             None \<Rightarrow> None
           | Some (visited', cycles') \<Rightarrow> circular_dfs keep succ fuel path visited' cycles' xs))"

text \<open>\<open>new Map(workflows.map((w) => [w.id, w]))\<close>: the last workflow with an identifier.\<close>

definition mapped_deps :: "Workflow list \<Rightarrow> ident \<Rightarrow> ident list" where
  "mapped_deps ws i =
     (case map_of (rev (map (\<lambda>w. (wf_id w, w)) ws)) i of None \<Rightarrow> [] | Some w \<Rightarrow> analyzeDependencies w)"

definition findCircularDependencies :: "Workflow list \<Rightarrow> ident list list" where
  "findCircularDependencies ws =
     (case circular_dfs record_cycle (mapped_deps ws) (dep_fuel ws) [] [] [] (map wf_id ws) of
        None \<Rightarrow> [] | Some (_, cycles) \<Rightarrow> cycles)"

section \<open>The graph\<close>

record DependencyNode =
  dn_id :: ident
  dn_name :: string
  dn_category :: "string option"
  dn_dependencies :: "ident list"
  dn_dependents :: "ident list"
  dn_inDegree :: nat
  dn_outDegree :: nat
  dn_depth :: nat
  dn_isCircular :: bool
  dn_tags :: json

record DependencyEdge =
  de_from :: ident
  de_to :: ident
  de_actionIds :: "ident list"
  de_isCyclic :: bool

record DependencyGraph =
  dg_nodes :: "(ident \<times> DependencyNode) list"
  dg_edges :: "DependencyEdge list"
  dg_cycles :: "ident list list"
  dg_roots :: "ident list"
  dg_leaves :: "ident list"
  dg_timestamp :: millis

definition dependency_node :: "Workflow \<Rightarrow> DependencyNode" where
  "dependency_node w =
     \<lparr>dn_id = wf_id w, dn_name = wf_name w, dn_category = wf_category w, dn_dependencies = [], dn_dependents = [],
      dn_inDegree = 0, dn_outDegree = 0, dn_depth = 0, dn_isCircular = False, dn_tags = wf_tags w\<rparr>"

definition dn_update ::
    "ident \<Rightarrow> (DependencyNode \<Rightarrow> DependencyNode) \<Rightarrow> (ident \<times> DependencyNode) list \<Rightarrow> (ident \<times> DependencyNode) list" where
  "dn_update i f nodes = map (\<lambda>(k, n). (k, if k = i then f n else n)) nodes"

definition add_dependency :: "ident \<Rightarrow> DependencyNode \<Rightarrow> DependencyNode" where
  "add_dependency t n =
     (if t \<in> set (dn_dependencies n) then n
      else n\<lparr>dn_dependencies := dn_dependencies n @ [t], dn_outDegree := dn_outDegree n + 1\<rparr>)"

definition add_dependent :: "ident \<Rightarrow> DependencyNode \<Rightarrow> DependencyNode" where
  "add_dependent s n =
     (if s \<in> set (dn_dependents n) then n
      else n\<lparr>dn_dependents := dn_dependents n @ [s], dn_inDegree := dn_inDegree n + 1\<rparr>)"

fun add_edge :: "ident \<Rightarrow> ident \<Rightarrow> ident \<Rightarrow> DependencyEdge list \<Rightarrow> DependencyEdge list" where
  "add_edge s t a [] = [\<lparr>de_from = s, de_to = t, de_actionIds = [a], de_isCyclic = False\<rparr>]"
| "add_edge s t a (e # es) =
     (if de_from e = s \<and> de_to e = t then e\<lparr>de_actionIds := de_actionIds e @ [a]\<rparr> # es
      else e # add_edge s t a es)"

type_synonym dependency_links = "(ident \<times> DependencyNode) list \<times> DependencyEdge list"

definition link_run :: "ident \<Rightarrow> Action \<Rightarrow> dependency_links \<Rightarrow> dependency_links" where
  "link_run s action ne =
     (let t = run_target action
      in if t = [] then ne
         else (dn_update t (add_dependent s) (dn_update s (add_dependency t) (fst ne)),
               add_edge s t (ac_id action) (snd ne)))"

definition link_workflows :: "Workflow list \<Rightarrow> dependency_links" where
  "link_workflows ws =
     fold (\<lambda>w. fold (link_run (wf_id w)) (findRunWorkflowActions w)) ws
       (foldl (\<lambda>m w. map_set (wf_id w) (dependency_node w) m) [] ws, [])"

fun mark_edge :: "ident \<Rightarrow> ident \<Rightarrow> DependencyEdge list \<Rightarrow> DependencyEdge list" where
  "mark_edge s t [] = []"
| "mark_edge s t (e # es) =
     (if de_from e = s \<and> de_to e = t then e\<lparr>de_isCyclic := True\<rparr> # es else e # mark_edge s t es)"

definition mark_cycle :: "ident list \<Rightarrow> dependency_links \<Rightarrow> dependency_links" where
  "mark_cycle cycle ne =
     fold (\<lambda>(a, b) (nodes, es). (dn_update a (\<lambda>n. n\<lparr>dn_isCircular := True\<rparr>) nodes, mark_edge a b es))
       (zip cycle (rotate1 cycle)) ne"

subsection \<open>Depths\<close>

text \<open>
  The loop over the outgoing edges: \<open>d\<close> is the depth with which the targets are visited, \<open>m\<close> the maximum
  so far.
\<close>

fun depth_dfs :: "(ident \<Rightarrow> ident list) \<Rightarrow> nat \<Rightarrow> nat \<Rightarrow> nat \<Rightarrow> ident list \<times> (ident \<times> nat) list \<Rightarrow> ident list
    \<Rightarrow> ((ident list \<times> (ident \<times> nat) list) \<times> nat) option" where
  "depth_dfs succ fuel d m s [] = Some (s, m)"
| "depth_dfs succ fuel d m (visited, depths) (x # xs) =
     (if x \<in> set visited
      then depth_dfs succ fuel d (max m (case map_of depths x of None \<Rightarrow> 0 | Some k \<Rightarrow> k)) (visited, depths) xs
      else case fuel of
        0 \<Rightarrow> None
      | Suc n \<Rightarrow>
          (case depth_dfs succ n (d + 1) d (x # visited, depths) (succ x) of
             None \<Rightarrow> None
           | Some ((visited', depths'), r) \<Rightarrow> depth_dfs succ fuel d (max m r) (visited', map_set x r depths') xs))"

definition acyclic_targets :: "DependencyEdge list \<Rightarrow> ident list list \<Rightarrow> ident \<Rightarrow> ident list" where
  "acyclic_targets es cycles i =
     (let inCycle = set (concat cycles)
      in map de_to (filter (\<lambda>e. de_from e = i \<and> (de_to e \<notin> inCycle \<or> i \<notin> inCycle)) es))"

text \<open>The nodes without dependencies come first, then all others.\<close>

definition dep_calculateDepths ::
    "(ident \<times> DependencyNode) list \<Rightarrow> DependencyEdge list \<Rightarrow> ident list list \<Rightarrow> (ident \<times> DependencyNode) list" where
  "dep_calculateDepths nodes es cycles =
     (case depth_dfs (acyclic_targets es cycles) (Suc (length nodes + length es)) 0 0 ([], [])
             (map fst (filter (\<lambda>(i, n). dn_outDegree n = 0) nodes) @ map fst nodes) of
        None \<Rightarrow> nodes
      | Some ((_, depths), _) \<Rightarrow>
          map (\<lambda>(i, n). (i, case map_of depths i of None \<Rightarrow> n | Some d \<Rightarrow> n\<lparr>dn_depth := d\<rparr>)) nodes)"

definition dependency_graph :: "millis \<Rightarrow> Workflow list \<Rightarrow> DependencyGraph" where
  "dependency_graph now ws =
     (let cycles = findCircularDependencies ws;
          (nodes1, es) = fold mark_cycle cycles (link_workflows ws);
          nodes = dep_calculateDepths nodes1 es cycles
      in \<lparr>dg_nodes = nodes, dg_edges = es, dg_cycles = cycles,
          dg_roots = map fst (filter (\<lambda>(i, n). dn_inDegree n = 0) nodes),
          dg_leaves = map fst (filter (\<lambda>(i, n). dn_outDegree n = 0) nodes),
          dg_timestamp = now\<rparr>)"

section \<open>The cache\<close>

record WorkflowDependencyAnalyzer =
  wd_cache :: "DependencyGraph option"
  wd_cacheTimestamp :: millis

definition wd_initial :: WorkflowDependencyAnalyzer where
  "wd_initial = \<lparr>wd_cache = None, wd_cacheTimestamp = 0\<rparr>"

definition CACHE_TTL :: millis where
  "CACHE_TTL = 5 * 60 * 1000"

definition isCacheValid :: "millis \<Rightarrow> WorkflowDependencyAnalyzer \<Rightarrow> bool" where
  "isCacheValid now s \<longleftrightarrow> wd_cache s \<noteq> None \<and> now - wd_cacheTimestamp s < CACHE_TTL"

definition invalidateCache :: "WorkflowDependencyAnalyzer \<Rightarrow> WorkflowDependencyAnalyzer" where
  "invalidateCache s = \<lparr>wd_cache = None, wd_cacheTimestamp = 0\<rparr>"

definition getCachedGraph :: "millis \<Rightarrow> WorkflowDependencyAnalyzer \<Rightarrow> DependencyGraph option" where
  "getCachedGraph now s = (if isCacheValid now s then wd_cache s else None)"

definition buildDependencyGraph ::
    "millis \<Rightarrow> Workflow list \<Rightarrow> bool \<Rightarrow> WorkflowDependencyAnalyzer \<Rightarrow> DependencyGraph \<times> WorkflowDependencyAnalyzer" where
  "buildDependencyGraph now ws useCache s =
     (case wd_cache s of
        Some g \<Rightarrow>
          if useCache \<and> now - wd_cacheTimestamp s < CACHE_TTL then (g, s)
          else (dependency_graph now ws, \<lparr>wd_cache = Some (dependency_graph now ws), wd_cacheTimestamp = now\<rparr>)
      | None \<Rightarrow> (dependency_graph now ws, \<lparr>wd_cache = Some (dependency_graph now ws), wd_cacheTimestamp = now\<rparr>))"

section \<open>Trees and paths\<close>

datatype DependencyTree =
  Tree (dt_workflowId: ident) (dt_dependencies: "DependencyTree list") (dt_depth: nat) (dt_isCircular: bool)

fun build_tree :: "(ident \<Rightarrow> ident list) \<Rightarrow> nat \<Rightarrow> ident list \<Rightarrow> nat \<Rightarrow> ident \<Rightarrow> DependencyTree option" where
  "build_tree succ fuel visited currentDepth i =
     (if i \<in> set visited then Some (Tree i [] currentDepth True)
      else case fuel of
        0 \<Rightarrow> None
      | Suc n \<Rightarrow>
          (case those (map (build_tree succ n (i # visited) (currentDepth + 1)) (succ i)) of
             None \<Rightarrow> None
           | Some childTrees \<Rightarrow> Some (Tree i childTrees (fold max (map dt_depth childTrees) currentDepth) False)))"

definition buildDependencyTree :: "Workflow list \<Rightarrow> ident \<Rightarrow> DependencyTree option" where
  "buildDependencyTree ws i = build_tree (getDependencies ws) (Suc (dep_fuel ws)) [] 0 i"

definition getDependencyDepth :: "Workflow list \<Rightarrow> ident \<Rightarrow> nat option" where
  "getDependencyDepth ws i = map_option dt_depth (buildDependencyTree ws i)"

text \<open>All paths from a node, for each the nodes before it.\<close>

fun find_paths :: "(ident \<times> DependencyNode) list \<Rightarrow> nat \<Rightarrow> ident list \<Rightarrow> ident list \<Rightarrow> ident \<Rightarrow> ident list list option" where
  "find_paths nodes fuel visited currentPath i =
     (if i \<in> set visited then Some []
      else case map_of nodes i of
        None \<Rightarrow> Some [currentPath @ [i]]
      | Some node \<Rightarrow>
          if dn_dependencies node = [] then Some [currentPath @ [i]]
          else (case fuel of
                  0 \<Rightarrow> None
                | Suc n \<Rightarrow> map_option concat
                    (those (map (find_paths nodes n (i # visited) (currentPath @ [i])) (dn_dependencies node)))))"

definition graph_depth :: "DependencyGraph \<Rightarrow> nat" where
  "graph_depth g = Suc (length (dg_nodes g) + length (dg_edges g))"

definition findAllPaths :: "DependencyGraph \<Rightarrow> ident \<Rightarrow> ident list list" where
  "findAllPaths g i = (case find_paths (dg_nodes g) (graph_depth g) [] [] i of None \<Rightarrow> [] | Some ps \<Rightarrow> ps)"

definition getCriticalPath :: "DependencyGraph \<Rightarrow> ident list list" where
  "getCriticalPath g = take 10 (sort_key (\<lambda>p. - int (length p)) (concat (map (findAllPaths g) (dg_roots g))))"

text \<open>
  The paths through a workflow: from a root along the dependencies until the workflow is met, from there
  along the dependents until a node has none.
\<close>

fun paths_through ::
    "ident \<Rightarrow> (ident \<times> DependencyNode) list \<Rightarrow> nat \<Rightarrow> ident list \<Rightarrow> ident list \<Rightarrow> ident \<Rightarrow> ident list list option" where
  "paths_through target nodes fuel visited path i =
     (if i \<in> set visited then Some []
      else case map_of nodes i of
        None \<Rightarrow> Some []
      | Some node \<Rightarrow>
          let through = (i = target \<or> target \<in> set (path @ [i]))
          in if through \<and> dn_inDegree node = 0 then Some [path @ [i]]
             else (case fuel of
                     0 \<Rightarrow> None
                   | Suc n \<Rightarrow> map_option concat
                       (those (map (paths_through target nodes n (i # visited) (path @ [i]))
                          (if through then dn_dependents node else dn_dependencies node)))))"

definition findCriticalPaths :: "DependencyGraph \<Rightarrow> ident \<Rightarrow> ident list list" where
  "findCriticalPaths g target =
     take 10 (concat (map (\<lambda>r. case paths_through target (dg_nodes g) (graph_depth g) [] [] r of
        None \<Rightarrow> [] | Some ps \<Rightarrow> ps) (dg_roots g)))"

section \<open>Impact and statistics\<close>

datatype ImpactLevel = Impact_low | Impact_medium | Impact_high | Impact_critical

record ImpactAnalysis =
  ia_workflowId :: ident
  ia_directDependents :: "ident list"
  ia_allDependents :: "ident list"
  ia_criticalPaths :: "ident list list"
  ia_impactLevel :: ImpactLevel
  ia_affectedCount :: nat

definition impact_level :: "nat \<Rightarrow> ImpactLevel" where
  "impact_level affectedCount =
     (if affectedCount = 0 then Impact_low else if affectedCount \<le> 2 then Impact_medium
      else if affectedCount \<le> 5 then Impact_high else Impact_critical)"

definition getImpactAnalysis ::
    "millis \<Rightarrow> ident \<Rightarrow> Workflow list \<Rightarrow> WorkflowDependencyAnalyzer \<Rightarrow> ImpactAnalysis \<times> WorkflowDependencyAnalyzer" where
  "getImpactAnalysis now i ws s =
     (let allDependents = getAllDependents ws i;
          (g, s') = buildDependencyGraph now ws True s
      in (\<lparr>ia_workflowId = i, ia_directDependents = getDependents ws i, ia_allDependents = allDependents,
           ia_criticalPaths = findCriticalPaths g i, ia_impactLevel = impact_level (length allDependents),
           ia_affectedCount = length allDependents\<rparr>, s'))"

record DependencyStats =
  ds_totalWorkflows :: nat
  ds_totalDependencies :: nat
  ds_circularDependencies :: nat
  ds_unusedWorkflows :: nat
  ds_rootWorkflows :: nat
  ds_leafWorkflows :: nat
  ds_avgDependenciesPerWorkflow :: rat
  ds_avgDependentsPerWorkflow :: rat
  ds_maxDepth :: nat
  ds_mostDepended :: "(ident \<times> string \<times> nat) list"
  ds_mostDependencies :: "(ident \<times> string \<times> nat) list"

definition top_ten :: "(DependencyNode \<Rightarrow> nat) \<Rightarrow> DependencyNode list \<Rightarrow> (ident \<times> string \<times> nat) list" where
  "top_ten degree nodes =
     map (\<lambda>n. (dn_id n, dn_name n, degree n))
       (take 10 (sort_key (\<lambda>n. - int (degree n)) (filter (\<lambda>n. degree n > 0) nodes)))"

definition dependency_stats :: "Workflow list \<Rightarrow> DependencyGraph \<Rightarrow> DependencyStats" where
  "dependency_stats ws g =
     (let ns = map snd (dg_nodes g);
          average = (\<lambda>k. if ws = [] then 0 else of_nat k / of_nat (length ws))
      in \<lparr>ds_totalWorkflows = length ws, ds_totalDependencies = length (dg_edges g),
          ds_circularDependencies = length (dg_cycles g), ds_unusedWorkflows = length (findUnusedWorkflows ws),
          ds_rootWorkflows = length (dg_roots g), ds_leafWorkflows = length (dg_leaves g),
          ds_avgDependenciesPerWorkflow = average (sum_list (map dn_outDegree ns)),
          ds_avgDependentsPerWorkflow = average (sum_list (map dn_inDegree ns)),
          ds_maxDepth = fold max (map dn_depth ns) 0,
          ds_mostDepended = top_ten dn_inDegree ns, ds_mostDependencies = top_ten dn_outDegree ns\<rparr>)"

definition getDependencyStats ::
    "millis \<Rightarrow> Workflow list \<Rightarrow> WorkflowDependencyAnalyzer \<Rightarrow> DependencyStats \<times> WorkflowDependencyAnalyzer" where
  "getDependencyStats now ws s = (let (g, s') = buildDependencyGraph now ws True s in (dependency_stats ws g, s'))"

section \<open>Validation\<close>

datatype DependencyErrorType = Missing_workflow | Circular_dependency | Invalid_reference | Orphaned_workflow

record DependencyError =
  dr_type :: DependencyErrorType
  dr_workflowId :: ident
  dr_actionId :: "ident option"
  dr_referencedId :: "ident option"
  dr_message :: string
  dr_severity :: string

definition dependency_errors :: "Workflow \<Rightarrow> Workflow list \<Rightarrow> Action \<Rightarrow> DependencyError list" where
  "dependency_errors w ws a =
     (let t = run_target a;
          err = (\<lambda>ty msg. \<lparr>dr_type = ty, dr_workflowId = wf_id w, dr_actionId = Some (ac_id a),
                   dr_referencedId = (if t = [] then None else Some t), dr_message = msg, dr_severity = ''error''\<rparr>)
      in if t = [] then [err Invalid_reference ''RUN_WORKFLOW action has no workflowId specified'']
         else (if t \<notin> wf_id ` set ws
               then [err Missing_workflow (''Referenced workflow \"'' @ t @ ''\" does not exist'')] else [])
            @ (if t = wf_id w then [err Circular_dependency ''Workflow references itself''] else []))"

record DependencyValidation =
  dv_valid :: bool
  dv_errors :: "DependencyError list"
  dv_warnings :: "string list"

definition validateDependencies :: "Workflow \<Rightarrow> Workflow list \<Rightarrow> DependencyValidation" where
  "validateDependencies w ws =
     (let errors = concat (map (dependency_errors w ws) (findRunWorkflowActions w))
      in \<lparr>dv_valid = (errors = []), dv_errors = errors,
          dv_warnings = map (\<lambda>c. ''Workflow is part of circular dependency: '' @ join '' -> '' c)
            (filter (\<lambda>c. wf_id w \<in> set c) (findCircularDependencies ws))\<rparr>)"

definition findMissingWorkflows :: "Workflow \<Rightarrow> Workflow list \<Rightarrow> ident list" where
  "findMissingWorkflows w ws =
     uniq (filter (\<lambda>t. t \<noteq> [] \<and> t \<notin> wf_id ` set ws) (map run_target (findRunWorkflowActions w)))"

definition validateCircularRefs :: "Workflow list \<Rightarrow> DependencyError list" where
  "validateCircularRefs ws =
     concat (map (\<lambda>c. map (\<lambda>i. \<lparr>dr_type = Circular_dependency, dr_workflowId = i, dr_actionId = None,
         dr_referencedId = None, dr_message = ''Workflow is part of circular dependency: '' @ join '' -> '' c,
         dr_severity = ''error''\<rparr>) c)
       (findCircularDependencies ws))"

section \<open>Drawing and export\<close>

text \<open>The layers, empty ones left out, and the place of a node.\<close>

definition dep_groupByDepth :: "DependencyGraph \<Rightarrow> ident list list" where
  "dep_groupByDepth g =
     filter (\<lambda>layer. layer \<noteq> [])
       (map (\<lambda>d. map fst (filter (\<lambda>(i, n). dn_depth n = d) (dg_nodes g)))
         (if dg_nodes g = [] then [] else [0..<Suc (fold max (map (\<lambda>(i, n). dn_depth n) (dg_nodes g)) 0)]))"

definition calculateLayout :: "DependencyGraph \<Rightarrow> (ident \<times> rat \<times> rat) list" where
  "calculateLayout g =
     concat (map (\<lambda>(row, layer). map (\<lambda>(k, i). (i, - (of_nat (length layer - 1) * 150) / 2 + of_nat k * 150, 50 + of_nat row * 300))
         (enumerate 0 layer)) (enumerate 0 (dep_groupByDepth g)))"

record VisualizationNode =
  vn_id :: ident
  vn_type :: string
  vn_label :: string
  vn_category :: "string option"
  vn_inDegree :: nat
  vn_outDegree :: nat
  vn_isCircular :: bool
  vn_depth :: nat
  vn_position :: "rat \<times> rat"

record VisualizationEdge =
  ve_id :: ident
  ve_source :: ident
  ve_target :: ident
  ve_type :: string
  ve_animated :: bool
  ve_label :: "string option"
  ve_actionCount :: nat
  ve_isCyclic :: bool

definition visualization_node :: "(ident \<times> rat \<times> rat) list \<Rightarrow> ident \<times> DependencyNode \<Rightarrow> VisualizationNode" where
  "visualization_node layout p =
     (case p of (i, n) \<Rightarrow>
       \<lparr>vn_id = i, vn_type = (if dn_isCircular n then ''circular'' else if dn_inDegree n = 0 then ''leaf'' else ''default''),
        vn_label = (if dn_name n = [] then i else dn_name n), vn_category = dn_category n, vn_inDegree = dn_inDegree n,
        vn_outDegree = dn_outDegree n, vn_isCircular = dn_isCircular n, vn_depth = dn_depth n,
        vn_position = (case map_of layout i of None \<Rightarrow> (0, 0) | Some xy \<Rightarrow> xy)\<rparr>)"

definition visualization_edge :: "DependencyEdge \<Rightarrow> VisualizationEdge" where
  "visualization_edge e =
     \<lparr>ve_id = de_from e @ ''-'' @ de_to e, ve_source = de_from e, ve_target = de_to e,
      ve_type = (if de_isCyclic e then ''cyclic'' else ''default''), ve_animated = de_isCyclic e,
      ve_label = (if length (de_actionIds e) > 1 then Some (nat_string (length (de_actionIds e)) @ ''x'') else None),
      ve_actionCount = length (de_actionIds e), ve_isCyclic = de_isCyclic e\<rparr>"

definition getNodesAndEdges ::
    "millis \<Rightarrow> Workflow list \<Rightarrow> WorkflowDependencyAnalyzer
      \<Rightarrow> (VisualizationNode list \<times> VisualizationEdge list) \<times> WorkflowDependencyAnalyzer" where
  "getNodesAndEdges now ws s =
     (let (g, s') = buildDependencyGraph now ws True s
      in ((map (visualization_node (calculateLayout g)) (dg_nodes g), map visualization_edge (dg_edges g)), s'))"

record DependencyReport =
  rp_generated :: string
  rp_totalWorkflows :: nat
  rp_version :: string
  rp_statistics :: DependencyStats
  rp_workflows :: "(ident \<times> string \<times> ident list \<times> ident list \<times> nat \<times> bool) list"
  rp_circularDependencies :: "ident list list"
  rp_missingWorkflows :: "ident list"
  rp_unusedWorkflows :: "ident list"

definition report_row :: "DependencyGraph \<Rightarrow> Workflow \<Rightarrow> ident \<times> string \<times> ident list \<times> ident list \<times> nat \<times> bool" where
  "report_row g w =
     (wf_id w, wf_name w,
      case map_of (dg_nodes g) (wf_id w) of
        None \<Rightarrow> ([], [], 0, False)
      | Some n \<Rightarrow> (dn_dependencies n, dn_dependents n, dn_depth n, dn_isCircular n))"

text \<open>The statistics and the graph are asked for one after the other, each with the time of the call.\<close>

definition exportDependencyReport ::
    "millis \<Rightarrow> millis \<Rightarrow> string \<Rightarrow> Workflow list \<Rightarrow> WorkflowDependencyAnalyzer \<Rightarrow> DependencyReport \<times> WorkflowDependencyAnalyzer" where
  "exportDependencyReport now1 now2 date ws s =
     (let (stats, s1) = getDependencyStats now1 ws s;
          (g, s2) = buildDependencyGraph now2 ws True s1
      in (\<lparr>rp_generated = date, rp_totalWorkflows = length ws, rp_version = ''1.0.0'', rp_statistics = stats,
           rp_workflows = map (report_row g) ws, rp_circularDependencies = dg_cycles g,
           rp_missingWorkflows = uniq (concat (map (\<lambda>w. findMissingWorkflows w ws) ws)),
           rp_unusedWorkflows = findUnusedWorkflows ws\<rparr>, s2))"

definition replace_char :: "char \<Rightarrow> string \<Rightarrow> string \<Rightarrow> string" where
  "replace_char c r s = concat (map (\<lambda>x. if x = c then r else [x]) s)"

definition escapeXml :: "string \<Rightarrow> string" where
  "escapeXml text =
     replace_char (CHR 39) ''&apos;''
       (replace_char (CHR 34) ''&quot;''
         (replace_char (CHR ''>'') ''&gt;''
           (replace_char (CHR ''<'') ''&lt;''
             (replace_char (CHR ''&'') ''&amp;'' text))))"

definition newline :: string where
  "newline = [CHR 10]"

definition bool_string :: "bool \<Rightarrow> string" where
  "bool_string b = (if b then ''true'' else ''false'')"

definition graphml_node :: "ident \<times> DependencyNode \<Rightarrow> string" where
  "graphml_node p =
     (case p of (i, n) \<Rightarrow>
       ''    <node id=\"'' @ escapeXml i @ ''\">'' @ newline
       @ ''      <data key=\"name\">'' @ escapeXml (dn_name n) @ ''</data>'' @ newline
       @ (case dn_category n of
            None \<Rightarrow> []
          | Some c \<Rightarrow> if c = [] then [] else ''      <data key=\"category\">'' @ escapeXml c @ ''</data>'' @ newline)
       @ ''      <data key=\"depth\">'' @ nat_string (dn_depth n) @ ''</data>'' @ newline
       @ ''      <data key=\"circular\">'' @ bool_string (dn_isCircular n) @ ''</data>'' @ newline
       @ ''    </node>'' @ newline)"

definition graphml_edge :: "nat \<times> DependencyEdge \<Rightarrow> string" where
  "graphml_edge p =
     (case p of (k, e) \<Rightarrow>
       ''    <edge id=\"e'' @ nat_string k @ ''\" source=\"'' @ escapeXml (de_from e) @ ''\" target=\"'' @ escapeXml (de_to e) @ ''\">'' @ newline
       @ ''      <data key=\"actions\">'' @ nat_string (length (de_actionIds e)) @ ''</data>'' @ newline
       @ ''    </edge>'' @ newline)"

definition exportGraphML ::
    "millis \<Rightarrow> Workflow list \<Rightarrow> WorkflowDependencyAnalyzer \<Rightarrow> string \<times> WorkflowDependencyAnalyzer" where
  "exportGraphML now ws s =
     (let (g, s') = buildDependencyGraph now ws True s
      in (''<?xml version=\"1.0\" encoding=\"UTF-8\"?>'' @ newline
          @ ''<graphml xmlns=\"http://graphml.graphdrawing.org/xmlns\">'' @ newline
          @ ''  <key id=\"name\" for=\"node\" attr.name=\"name\" attr.type=\"string\"/>'' @ newline
          @ ''  <key id=\"category\" for=\"node\" attr.name=\"category\" attr.type=\"string\"/>'' @ newline
          @ ''  <key id=\"depth\" for=\"node\" attr.name=\"depth\" attr.type=\"int\"/>'' @ newline
          @ ''  <key id=\"circular\" for=\"node\" attr.name=\"circular\" attr.type=\"boolean\"/>'' @ newline
          @ ''  <key id=\"actions\" for=\"edge\" attr.name=\"actions\" attr.type=\"int\"/>'' @ newline
          @ ''  <graph id=\"WorkflowDependencies\" edgedefault=\"directed\">'' @ newline
          @ concat (map graphml_node (dg_nodes g))
          @ concat (map graphml_edge (enumerate 0 (dg_edges g)))
          @ ''  </graph>'' @ newline @ ''</graphml>'', s'))"

end
