(* ===== verification/Dependency_Search.thy ===== *)
theory Dependency_Search
  imports Workflow_Dependencies
begin

text \<open>
  What the searches of the dependency analyzer compute: the transitive queries are the nodes reached in at
  least one step, the search for circular dependencies records closed paths and misses no cycle, and the
  recursions end within their fuel. The collecting search is an instance of the traversal of Workflow_Graph.
\<close>

section \<open>What the searches compute\<close>

text \<open>Adding the elements of a set one by one.\<close>

lemma set_fold_set_add [simp]: "set (fold set_add xs ys) = set ys \<union> set xs"
  by (induction xs arbitrary: ys) auto

lemma fold_set_add_add: "fold set_add (set_add x s) acc = set_add x (fold set_add s acc)"
  by (simp add: set_add_def)

lemma distinct_fold_set_add: "distinct ys \<Longrightarrow> distinct (fold set_add xs ys)"
  by (induction xs arbitrary: ys) (simp_all add: set_add_def)

lemma fold_set_add_uniq: "fold set_add xs [] = uniq xs"
  by (induction xs rule: rev_induct) (simp_all add: set_add_def uniq_def)

text \<open>A change of state that commutes with what a traversal does to it.\<close>

lemma traverse_map:
  assumes "\<And>x s. h (touch x s) = touch x (h s)" and "\<And>x s. h (enter x s) = enter x (h s)"
  shows "traverse succ touch enter fuel vs (h s) xs = map_option (\<lambda>(vs', s'). (vs', h s')) (traverse succ touch enter fuel vs s xs)"
proof (induction fuel arbitrary: vs s xs)
  case 0
  show ?case by (induction xs arbitrary: s) (simp_all flip: assms)
next
  case (Suc n)
  note depth = Suc.IH
  show ?case
  proof (induction xs arbitrary: vs s)
    case (Cons x xs)
    show ?case
    proof (cases "x \<in> set vs")
      case False
      then show ?thesis
        using depth [of "x # vs" "enter x (touch x s)" "succ x"] Cons.IH
        by (cases "traverse succ touch enter n (x # vs) (enter x (touch x s)) (succ x)") (auto simp: assms)
    qed (simp add: Cons.IH flip: assms)
  qed simp
qed

lemma collect_traverse:
  "collect_all f fuel vs acc xs = traverse f set_add (\<lambda>_ s. s) fuel vs acc xs"
proof (induction fuel arbitrary: vs acc xs)
  case 0
  show ?case by (induction xs arbitrary: acc) simp_all
next
  case (Suc n)
  note depth = Suc.IH
  show ?case
  proof (induction xs arbitrary: vs acc)
    case (Cons x xs)
    have "traverse f set_add (\<lambda>_ s. s) n (x # vs) (fold set_add [] (set_add x acc)) (f x)
        = map_option (\<lambda>(vs', s). (vs', fold set_add s (set_add x acc))) (traverse f set_add (\<lambda>_ s. s) n (x # vs) [] (f x))"
      by (rule traverse_map) (simp_all only: fold_set_add_add)
    then show ?case
      using Cons.IH depth by (cases "traverse f set_add (\<lambda>_ s. s) n (x # vs) [] (f x)") auto
  qed simp
qed

context finite_graph
begin

text \<open>A traversal from the successors of a node meets everything that can be reached in at least one step.\<close>

lemma traverse_reach:
  assumes "length nodes < fuel"
    and T: "\<And>x s. T (touch x s) = insert x (T s)" "\<And>x s. T (enter x s) = T s" "T s = {}"
    and I: "\<And>x s. I s \<Longrightarrow> I (touch x s)" "\<And>x s. I s \<Longrightarrow> I (enter x s)" "I s"
  shows "\<exists>vs' s'. traverse succ touch enter fuel [i] s (succ i) = Some (vs', s') \<and> I s' \<and> T s' = (edges succ)\<^sup>+ `` {i}"
proof -
  have "card (set nodes - set [i]) \<le> card (set nodes)" by (rule card_mono) auto
  then have "card (set nodes - set [i]) < fuel" using assms(1) card_length [of nodes] by linarith
  then obtain vs' s' where r: "traverse succ touch enter fuel [i] s (succ i) = Some (vs', s')"
    using traverse_returns [OF succ_nodes] by (metis not_None_eq surj_pair)
  have "I s \<longrightarrow> I s'"
    using r by (induction rule: traverse_induct) (use I(1,2) in auto)
  then have "I s'" using I(3) by simp
  note closed = traverse_closed [OF r]
  have vs': "set vs' = (edges succ)\<^sup>* `` {i}"
  proof
    have "(edges succ)\<^sup>* `` set (succ i) \<subseteq> (edges succ)\<^sup>* `` {i}"
      by (auto intro: converse_rtrancl_into_rtrancl)
    moreover have "set vs' \<subseteq> insert i ((edges succ)\<^sup>* `` set (succ i))" using closed by simp
    moreover have "i \<in> (edges succ)\<^sup>* `` {i}" by simp
    ultimately show "set vs' \<subseteq> (edges succ)\<^sup>* `` {i}" by blast
    have step: "set (succ x) \<subseteq> set vs'" if "x \<in> set vs'" for x
      using closed that by (cases "x = i") auto
    have "i \<in> set vs'" using closed by simp
    have "y \<in> set vs'" if "(i, y) \<in> (edges succ)\<^sup>*" for y
      using that by (induction rule: rtrancl_induct) (use step \<open>i \<in> set vs'\<close> in auto)
    then show "(edges succ)\<^sup>* `` {i} \<subseteq> set vs'" by blast
  qed
  have "T s' = {} \<union> set (succ i) \<union> (\<Union>x \<in> set vs' - set [i]. set (succ x))"
    using traverse_touch [OF T(1,2) r] T(3) by simp
  also have "\<dots> = (\<Union>x \<in> set vs'. set (succ x))" using closed by auto
  also have "\<dots> = (edges succ)\<^sup>+ `` {i}"
    unfolding vs' by (auto simp: trancl_unfold_right)
  finally show ?thesis using r \<open>I s'\<close> by blast
qed

end

lemma collect_reach:
  assumes "finite_graph f nodes" and "length nodes < fuel"
  shows "\<exists>vs' ds. collect_all f fuel [i] [] (f i) = Some (vs', ds) \<and> distinct ds \<and> set ds = (edges f)\<^sup>+ `` {i}"
  unfolding collect_traverse
  by (rule finite_graph.traverse_reach [OF assms, of set set_add "\<lambda>_ s. s" "[]" distinct i])
    (simp_all add: set_add_def insert_absorb)

section \<open>The graph of workflows\<close>

lemma dependencies_known: "set (getDependencies ws i) \<subseteq> set (dep_nodes ws)"
  using find_Some_iff [of "\<lambda>w. wf_id w = i" ws]
  by (auto simp: getDependencies_def dep_nodes_def split: option.split) (metis nth_mem)

interpretation dw: finite_graph "getDependencies ws" "dep_nodes ws" for ws
  by unfold_locales (rule dependencies_known)

interpretation du: finite_graph "getDependents ws" "dep_nodes ws" for ws
  by unfold_locales (auto simp: getDependents_def dep_nodes_def)

lemma mapped_cases: "mapped_deps ws i = [] \<or> (\<exists>w \<in> set ws. wf_id w = i \<and> mapped_deps ws i = analyzeDependencies w)"
  unfolding mapped_deps_def by (auto split: option.split dest!: map_of_SomeD)

lemma mapped_known: "set (mapped_deps ws i) \<subseteq> set (dep_nodes ws)"
proof -
  have "w \<in> set ws \<Longrightarrow> set (analyzeDependencies w) \<subseteq> set (dep_nodes ws)" for w by (auto simp: dep_nodes_def)
  then show ?thesis using mapped_cases [of ws i] by (metis empty_set empty_subsetI)
qed

interpretation dm: finite_graph "mapped_deps ws" "dep_nodes ws" for ws
  by unfold_locales (rule mapped_known)

lemma find_by_id: "distinct (map wf_id ws) \<Longrightarrow> w \<in> set ws \<Longrightarrow> find (\<lambda>v. wf_id v = wf_id w) ws = Some w"
  by (induction ws) auto

lemma mapped_distinct:
  assumes "distinct (map wf_id ws)"
  shows "mapped_deps ws i = getDependencies ws i"
proof -
  have "map_of (rev m) = map_of m" if "distinct (map fst m)" for m :: "(ident \<times> Workflow) list"
  proof
    fix k
    have "map_of (rev m) k = Some v \<longleftrightarrow> map_of m k = Some v" for v
      using that by (simp add: rev_map [symmetric])
    then show "map_of (rev m) k = map_of m k" by (metis not_Some_eq)
  qed
  then have "map_of (rev (map (\<lambda>w. (wf_id w, w)) ws)) i = map_of (map (\<lambda>w. (wf_id w, w)) ws) i"
    using assms by (simp add: comp_def)
  also have "\<dots> = find (\<lambda>w. wf_id w = i) ws" by (induction ws) auto
  finally show ?thesis by (simp add: mapped_deps_def getDependencies_def)
qed

lemma dependency_iff:
  assumes "distinct (map wf_id ws)"
  shows "j \<in> set (getDependencies ws i) \<longleftrightarrow> (\<exists>w \<in> set ws. wf_id w = i \<and> j \<in> set (analyzeDependencies w))"
proof (cases "\<exists>w \<in> set ws. wf_id w = i")
  case True
  then obtain w where w: "w \<in> set ws" "wf_id w = i" by blast
  have "v = w" if "v \<in> set ws" "wf_id v = i" for v
    using that w assms by (metis distinct_map inj_onD)
  then have "(\<exists>v \<in> set ws. wf_id v = i \<and> j \<in> set (analyzeDependencies v)) \<longleftrightarrow> j \<in> set (analyzeDependencies w)"
    using w by metis
  moreover have "getDependencies ws i = analyzeDependencies w"
    using find_by_id [OF assms w(1)] w(2) by (simp add: getDependencies_def)
  ultimately show ?thesis by simp
next
  case False
  then have "find (\<lambda>w. wf_id w = i) ws = None" by (auto simp: find_None_iff)
  with False show ?thesis by (auto simp: getDependencies_def)
qed

lemma dependents_converse:
  "distinct (map wf_id ws) \<Longrightarrow> edges (getDependents ws) = (edges (getDependencies ws))\<inverse>"
  by (auto simp: dependency_iff getDependents_def)

lemma all_dependencies:
  "distinct (getAllDependencies ws i) \<and> set (getAllDependencies ws i) = (edges (getDependencies ws))\<^sup>+ `` {i}"
  "distinct (getAllDependents ws i) \<and> set (getAllDependents ws i) = (edges (getDependents ws))\<^sup>+ `` {i}"
  using collect_reach [OF dw.finite_graph_axioms, of ws "dep_fuel ws" i]
    collect_reach [OF du.finite_graph_axioms, of ws "dep_fuel ws" i]
  by (auto simp: getAllDependencies_def getAllDependents_def dep_fuel_def)



section \<open>Circular dependencies\<close>

text \<open>A closed path: its nodes are distinct apart from the last, which is the first.\<close>

definition closed_path :: "('v \<Rightarrow> 'v list) \<Rightarrow> 'v list \<Rightarrow> bool" where
  "closed_path succ c \<longleftrightarrow>
     (\<exists>x p. c = x # p @ [x] \<and> distinct (x # p)) \<and> successively (\<lambda>a b. b \<in> set (succ a)) c"

lemma closed_path_cycle:
  assumes "closed_path succ c"
  shows "(hd c, hd c) \<in> (edges succ)\<^sup>+"
proof -
  obtain y p where c: "c = y # p @ [y]" "successively (\<lambda>a b. b \<in> set (succ a)) c"
    using assms by (auto simp: closed_path_def)
  have "successively (\<lambda>a b. b \<in> set (succ a)) xs \<Longrightarrow> xs \<noteq> [] \<Longrightarrow> (hd xs, last xs) \<in> (edges succ)\<^sup>*" for xs
  proof (induction xs rule: induct_list012)
    case (3 a b zs)
    then show ?case by (auto intro: converse_rtrancl_into_rtrancl)
  qed auto
  from this [of "p @ [y]"] have "(hd (p @ [y]), y) \<in> (edges succ)\<^sup>*"
    using c by (auto simp: successively_Cons)
  moreover have "hd (p @ [y]) \<in> set (succ y)" using c by (cases p) auto
  ultimately show ?thesis using c(1) by (metis edges_iff list.sel(1) rtrancl_into_trancl2)
qed

text \<open>What the search relies on: a graph with finitely many nodes, and records that keep a cycle.\<close>

locale cycle_search = finite_graph succ nodes
  for succ :: "'v \<Rightarrow> 'v list" and nodes :: "'v list" +
  fixes keep :: "'v list \<Rightarrow> 'v list list \<Rightarrow> 'v list list"
  assumes record_nonempty: "keep c cs \<noteq> []"
    and record_members: "set (keep c cs) \<subseteq> insert c (set cs)"
begin

lemma circular_ConsE:
  assumes "circular_dfs keep succ fuel path vs cs (x # xs) = Some r"
  obtains (found) "x \<in> set path"
      "circular_dfs keep succ fuel path vs (keep (dropWhile (\<lambda>y. y \<noteq> x) path @ [x]) cs) xs = Some r"
  | (seen) "x \<notin> set path" "x \<in> set vs" "circular_dfs keep succ fuel path vs cs xs = Some r"
  | (new) n vs' cs' where "fuel = Suc n" "x \<notin> set path" "x \<notin> set vs"
      "circular_dfs keep succ n (path @ [x]) (x # vs) cs (succ x) = Some (vs', cs')"
      "circular_dfs keep succ fuel path vs' cs' xs = Some r"
  using assms that by (auto split: if_splits nat.splits option.splits prod.splits)

lemma circular_induct [consumes 1, case_names Nil found seen new]:
  assumes "circular_dfs keep succ fuel path vs cs xs = Some (vs', cs')"
    and "\<And>path vs cs. P path vs cs [] vs cs"
    and "\<And>path vs cs x xs vs' cs'. x \<in> set path
      \<Longrightarrow> P path vs (keep (dropWhile (\<lambda>y. y \<noteq> x) path @ [x]) cs) xs vs' cs' \<Longrightarrow> P path vs cs (x # xs) vs' cs'"
    and "\<And>path vs cs x xs vs' cs'. x \<notin> set path \<Longrightarrow> x \<in> set vs \<Longrightarrow> P path vs cs xs vs' cs'
      \<Longrightarrow> P path vs cs (x # xs) vs' cs'"
    and "\<And>path vs cs x xs ws ds vs' cs'. x \<notin> set path \<Longrightarrow> x \<notin> set vs
      \<Longrightarrow> P (path @ [x]) (x # vs) cs (succ x) ws ds \<Longrightarrow> P path ws ds xs vs' cs' \<Longrightarrow> P path vs cs (x # xs) vs' cs'"
  shows "P path vs cs xs vs' cs'"
  using assms(1)
proof (induction fuel arbitrary: path vs cs xs vs' cs')
  case 0
  then show ?case
    by (induction xs arbitrary: cs) (auto elim!: circular_ConsE intro: assms(2-4) simp del: circular_dfs.simps(2))
next
  case (Suc n)
  note depth = Suc.IH
  from Suc.prems show ?case
  proof (induction xs arbitrary: vs cs)
    case (Cons x xs)
    from Cons.prems show ?case
    proof (cases rule: circular_ConsE)
      case found
      then show ?thesis using Cons.IH assms(3) by blast
    next
      case seen
      then show ?thesis using Cons.IH assms(4) by blast
    next
      case (new m ws ds)
      then show ?thesis using Cons.IH [OF new(5)] depth [of "path @ [x]" "x # vs"] assms(5) [OF new(2,3)] by blast
    qed
  qed (auto intro: assms(2))
qed

text \<open>What is recorded is a closed path.\<close>

lemma circular_sound:
  assumes "circular_dfs keep succ fuel path vs cs xs = Some (vs', cs')"
    and "distinct path" and "successively (\<lambda>a b. b \<in> set (succ a)) path"
    and "path \<noteq> [] \<longrightarrow> set xs \<subseteq> set (succ (last path))" and "\<forall>c \<in> set cs. closed_path succ c"
  shows "\<forall>c \<in> set cs'. closed_path succ c"
  using assms
proof (induction rule: circular_induct)
  case (found path vs cs x xs vs' cs')
  obtain a b where path: "path = a @ x # b" "x \<notin> set a" using found(1) by (metis split_list_first)
  then have drop: "dropWhile (\<lambda>y. y \<noteq> x) path = x # b" by (auto simp: dropWhile_append)
  have "successively (\<lambda>a b. b \<in> set (succ a)) ((x # b) @ [x])"
    unfolding successively_append_iff [of _ "x # b"] using found(4,5) path(1)
    by (auto simp: successively_append_iff)
  then have "closed_path succ (x # b @ [x])" using found(3) path(1) by (auto simp: closed_path_def)
  then have "\<forall>c \<in> set (keep (dropWhile (\<lambda>y. y \<noteq> x) path @ [x]) cs). closed_path succ c"
    using found(6) record_members [of "dropWhile (\<lambda>y. y \<noteq> x) path @ [x]" cs] drop by auto
  then show ?case using found by auto
next
  case (new path vs cs x xs ws ds vs' cs')
  have "successively (\<lambda>a b. b \<in> set (succ a)) (path @ [x])"
    using new(6,7) by (auto simp: successively_append_iff)
  then have "\<forall>c \<in> set ds. closed_path succ c" using new by simp
  then show ?case using new by auto
qed auto

lemma circular_visited: "circular_dfs keep succ fuel path vs cs xs = Some (vs', cs') \<Longrightarrow> set vs \<subseteq> set vs'"
  by (induction rule: circular_induct) auto

lemma circular_returns:
  "set xs \<subseteq> set nodes \<Longrightarrow> card (set nodes - set vs) < fuel \<Longrightarrow> circular_dfs keep succ fuel path vs cs xs \<noteq> None"
proof (induction fuel arbitrary: path vs cs xs)
  case (Suc n)
  note depth = Suc.IH
  from Suc.prems show ?case
  proof (induction xs arbitrary: vs cs)
    case (Cons x xs)
    show ?case
    proof (cases "x \<in> set path \<or> x \<in> set vs")
      case False
      then have "card (set nodes - set (x # vs)) < n"
        using Cons.prems unvisited_less [of x vs n] by simp
      then obtain ws ds where r: "circular_dfs keep succ n (path @ [x]) (x # vs) cs (succ x) = Some (ws, ds)"
        using depth [OF succ_nodes] by fastforce
      have "card (set nodes - set ws) < Suc n"
        using unvisited_mono [of vs ws] circular_visited [OF r] Cons.prems(2) by simp
      then show ?thesis using False r Cons by auto
    qed (use Cons in auto)
  qed simp
qed simp

text \<open>When nothing is recorded, what was visited is closed and has no cycles.\<close>

lemma circular_complete:
  "circular_dfs keep succ fuel path vs cs xs = Some (vs', cs') \<Longrightarrow>
     (cs \<noteq> [] \<longrightarrow> cs' \<noteq> []) \<and> set vs \<subseteq> set vs'
     \<and> (cs' = [] \<longrightarrow> set path \<subseteq> set vs \<longrightarrow> explored_set (set vs - set path)
          \<longrightarrow> explored_set (set vs' - set path) \<and> set xs \<subseteq> set vs' - set path)"
proof (induction rule: circular_induct)
  case (new path vs cs x xs ws ds vs' cs')
  have "explored_set (set vs' - set path) \<and> set (x # xs) \<subseteq> set vs' - set path"
    if p: "cs' = []" "set path \<subseteq> set vs" "explored_set (set vs - set path)"
  proof -
    have "set (x # vs) - set (path @ [x]) = set vs - set path" using new(2) by auto
    moreover have "ds = []" using new(4) p(1) by blast
    ultimately have nested: "explored_set (set ws - set (path @ [x]))" "set (succ x) \<subseteq> set ws - set (path @ [x])"
      using new(3) p(2,3) by auto
    have "set ws - set path = insert x (set ws - set (path @ [x]))" using new(1,3) by auto
    then have "explored_set (set ws - set path)" using explored_insert [OF nested] by simp
    moreover have "set path \<subseteq> set ws" using new(3) p(2) by auto
    ultimately have "explored_set (set vs' - set path) \<and> set xs \<subseteq> set vs' - set path" using new(4) p(1) by blast
    moreover have "x \<in> set vs' - set path" using new(1,3,4) by auto
    ultimately show ?thesis by simp
  qed
  then show ?case using new(3,4) by auto
qed (auto simp: record_nonempty)

lemma circular_correct:
  assumes "set xs \<subseteq> set nodes"
    and "\<And>y. set (succ y) \<noteq> {} \<Longrightarrow> y \<in> set xs"
  shows "\<exists>vs' cs. circular_dfs keep succ (Suc (length nodes)) [] [] [] xs = Some (vs', cs)
    \<and> (\<forall>c \<in> set cs. closed_path succ c) \<and> (cs = [] \<longleftrightarrow> (\<forall>y. (y, y) \<notin> (edges succ)\<^sup>+))"
proof -
  have "card (set nodes - set []) < Suc (length nodes)" by (simp add: card_length less_Suc_eq_le)
  then obtain vs' cs where r: "circular_dfs keep succ (Suc (length nodes)) [] [] [] xs = Some (vs', cs)"
    using circular_returns [OF assms(1)] by fastforce
  have sound: "\<forall>c \<in> set cs. closed_path succ c" using circular_sound [OF r] by simp
  have "cs = []" if "\<forall>y. (y, y) \<notin> (edges succ)\<^sup>+"
    using sound closed_path_cycle that by (metis list.set_intros(1) neq_Nil_conv)
  moreover have "(y, y) \<notin> (edges succ)\<^sup>+" if "cs = []" for y
  proof
    assume y: "(y, y) \<in> (edges succ)\<^sup>+"
    then obtain z where "z \<in> set (succ y)" by (meson edges_iff tranclD)
    then have "y \<in> set xs" using assms(2) [of y] by force
    then show False using circular_complete [OF r] that y by (auto simp: explored_set_def)
  qed
  ultimately show ?thesis using r sound by blast
qed

end

lemma record_cycle_keeps:
  "record_cycle c cs \<noteq> []" "set (record_cycle c cs) \<subseteq> insert c (set cs)"
  by (auto simp: record_cycle_def)

interpretation dc: cycle_search "mapped_deps ws" "dep_nodes ws" record_cycle for ws
  by unfold_locales (fact record_cycle_keeps)+

lemma circular_dependencies:
  "(\<forall>c \<in> set (findCircularDependencies ws). closed_path (mapped_deps ws) c)
   \<and> (findCircularDependencies ws = [] \<longleftrightarrow> (\<forall>y. (y, y) \<notin> (edges (mapped_deps ws))\<^sup>+))"
proof -
  have "set (mapped_deps ws y) \<noteq> {} \<Longrightarrow> y \<in> set (map wf_id ws)" for y
    using mapped_cases [of ws y] by auto
  moreover have "set (map wf_id ws) \<subseteq> set (dep_nodes ws)" by (simp add: dep_nodes_def)
  ultimately show ?thesis
    using dc.circular_correct [of "map wf_id ws" ws] by (auto simp: findCircularDependencies_def dep_fuel_def)
qed


section \<open>Trees\<close>

text \<open>
  A walk along the dependencies that stops when it meets a node for the second time, or before: all its
  nodes but the last are new and distinct.
\<close>

definition tree_walk :: "(ident \<Rightarrow> ident list) \<Rightarrow> ident list \<Rightarrow> ident \<Rightarrow> ident list \<Rightarrow> bool" where
  "tree_walk succ visited i p \<longleftrightarrow>
     p \<noteq> [] \<and> hd p = i \<and> successively (\<lambda>a b. b \<in> set (succ a)) p
     \<and> distinct (butlast p) \<and> set (butlast p) \<inter> set visited = {}"

lemma tree_walk_visited: "i \<in> set visited \<Longrightarrow> tree_walk succ visited i p \<longleftrightarrow> p = [i]"
  by (cases p) (auto simp: tree_walk_def)

lemma tree_walk_step:
  "i \<notin> set visited \<Longrightarrow> tree_walk succ visited i p
     \<longleftrightarrow> p = [i] \<or> (\<exists>c q. p = i # q \<and> c \<in> set (succ i) \<and> tree_walk succ (i # visited) c q)"
proof (cases p)
  case (Cons x q)
  assume "i \<notin> set visited"
  with Cons show ?thesis by (cases q) (auto simp: tree_walk_def)
qed (simp add: tree_walk_def)

lemma those_map: "\<forall>x \<in> set xs. f x = Some (g x) \<Longrightarrow> those (map f xs) = Some (map g xs)"
  by (induction xs) auto

lemma build_tree_depth:
  assumes "finite U" and "\<And>x. set (succ x) \<subseteq> U"
  shows "i \<in> U \<Longrightarrow> card (U - set vs) \<le> fuel \<Longrightarrow>
    \<exists>t k. build_tree succ fuel vs d i = Some t \<and> dt_depth t = d + k \<and> Suc k \<in> length ` Collect (tree_walk succ vs i)
      \<and> (\<forall>p. tree_walk succ vs i p \<longrightarrow> length p \<le> Suc k)"
proof (induction fuel arbitrary: vs d i)
  case 0
  then have "i \<in> set vs" using assms(1) by auto
  then show ?case by (auto simp: tree_walk_visited)
next
  case (Suc n)
  show ?case
  proof (cases "i \<in> set vs")
    case True
    then show ?thesis by (auto simp: tree_walk_visited)
  next
    case False
    have "U - set (i # vs) = (U - set vs) - {i}" by auto
    then have "card (U - set (i # vs)) \<le> n" using Suc.prems False assms(1) by simp
    then have "\<forall>c \<in> set (succ i). \<exists>t k. build_tree succ n (i # vs) (d + 1) c = Some t \<and> dt_depth t = (d + 1) + k
        \<and> Suc k \<in> length ` Collect (tree_walk succ (i # vs) c) \<and> (\<forall>p. tree_walk succ (i # vs) c p \<longrightarrow> length p \<le> Suc k)"
      using Suc.IH assms(2) by blast
    then obtain t k where c: "\<And>c. c \<in> set (succ i) \<Longrightarrow> build_tree succ n (i # vs) (d + 1) c = Some (t c)"
        "\<And>c. c \<in> set (succ i) \<Longrightarrow> dt_depth (t c) = (d + 1) + k c"
        "\<And>c. c \<in> set (succ i) \<Longrightarrow> Suc (k c) \<in> length ` Collect (tree_walk succ (i # vs) c)"
        "\<And>c p. c \<in> set (succ i) \<Longrightarrow> tree_walk succ (i # vs) c p \<Longrightarrow> length p \<le> Suc (k c)"
      by metis
    have those: "those (map (build_tree succ n (i # vs) (d + 1)) (succ i)) = Some (map t (succ i))"
      by (rule those_map) (use c(1) in blast)
    let ?K = "insert 0 ((\<lambda>c. Suc (k c)) ` set (succ i))"
    have "fold max (map dt_depth (map t (succ i))) d = Max (insert d ((\<lambda>c. dt_depth (t c)) ` set (succ i)))"
      by (simp add: Max.set_eq_fold [symmetric] image_image)
    also have "insert d ((\<lambda>c. dt_depth (t c)) ` set (succ i)) = (+) d ` ?K" using c(2) by (auto simp: image_image)
    also have "Max ((+) d ` ?K) = d + Max ?K" by (rule mono_Max_commute [symmetric]) (auto simp: mono_def)
    finally have "build_tree succ (Suc n) vs d i = Some (Tree i (map t (succ i)) (d + Max ?K) False)"
      using False those by simp
    moreover have "Suc (Max ?K) \<in> length ` Collect (tree_walk succ vs i)"
    proof -
      have "Max ?K \<in> ?K" by (rule Max_in) auto
      moreover have "Suc 0 \<in> length ` Collect (tree_walk succ vs i)"
        using tree_walk_step [OF False, of succ "[i]"] by force
      moreover have "Suc (Suc (k c)) \<in> length ` Collect (tree_walk succ vs i)" if c': "c \<in> set (succ i)" for c
      proof -
        obtain q where "tree_walk succ (i # vs) c q" "length q = Suc (k c)" using c(3) [OF c'] by auto
        then have "tree_walk succ vs i (i # q)" "length (i # q) = Suc (Suc (k c))"
          using tree_walk_step [OF False] c' by auto
        then show ?thesis by (metis image_eqI mem_Collect_eq)
      qed
      ultimately show ?thesis by auto
    qed
    moreover have "length p \<le> Suc (Max ?K)" if p: "tree_walk succ vs i p" for p
      using p unfolding tree_walk_step [OF False]
    proof
      assume "\<exists>c q. p = i # q \<and> c \<in> set (succ i) \<and> tree_walk succ (i # vs) c q"
      then obtain c q where q: "p = i # q" "c \<in> set (succ i)" "length q \<le> Suc (k c)" using c(4) by blast
      have "Suc (k c) \<le> Max ?K" by (rule Max_ge) (use q(2) in auto)
      with q(3) have "length q \<le> Max ?K" by (rule le_trans)
      then show ?thesis using q(1) by simp
    qed simp
    ultimately show ?thesis by auto
  qed
qed

lemma dependency_depth:
  "\<exists>k. getDependencyDepth ws i = Some k \<and> Suc k \<in> length ` Collect (tree_walk (getDependencies ws) [] i)
    \<and> (\<forall>p. tree_walk (getDependencies ws) [] i p \<longrightarrow> length p \<le> Suc k)"
proof -
  have "card (insert i (set (dep_nodes ws)) - set []) \<le> Suc (dep_fuel ws)"
    using card_insert_le_m1 card_length [of "dep_nodes ws"]
    by (simp add: dep_fuel_def card_insert_if)
  then show ?thesis
    using build_tree_depth [of "insert i (set (dep_nodes ws))" "getDependencies ws" i "[]" "Suc (dep_fuel ws)" 0]
      dependencies_known [of ws]
    by (fastforce simp: getDependencyDepth_def buildDependencyTree_def)
qed

section \<open>Properties\<close>

text \<open>Which workflow runs which.\<close>

definition calls :: "Workflow list \<Rightarrow> (ident \<times> ident) set" where
  "calls ws = (\<Union>w \<in> set ws. {wf_id w} \<times> set (analyzeDependencies w))"

text \<open>
  For workflows with distinct identifiers, the transitive dependencies of a workflow are, each once, the
  workflows that a chain of at least one RUN_WORKFLOW action leads to, and the transitive dependents are,
  each once, those from which such a chain leads to it: the two queries are converse to each other.
\<close>

theorem all_dependencies_exact:
  assumes "distinct (map wf_id ws)"
  shows "distinct (getAllDependencies ws i) \<and> distinct (getAllDependents ws i)
    \<and> set (getAllDependencies ws i) = {j. (i, j) \<in> (calls ws)\<^sup>+}
    \<and> set (getAllDependents ws i) = {j. (j, i) \<in> (calls ws)\<^sup>+}"
proof -
  have "edges (getDependencies ws) = calls ws"
    by (auto simp: dependency_iff [OF assms] calls_def)
  then show ?thesis
    using all_dependencies [of ws i] dependents_converse [OF assms] by (auto simp: trancl_converse)
qed

definition run_example :: "ident \<Rightarrow> Action" where
  "run_example t = (action_example (''run-'' @ t))\<lparr>ac_type := ''RUN_WORKFLOW'',
     ac_config := JObj (fmap_of_list [(''workflowId'', JStr t)])\<rparr>"

definition calls_example :: "ident \<Rightarrow> ident list \<Rightarrow> Workflow" where
  "calls_example i ts = (workflow_example [] [])\<lparr>wf_id := i, wf_actions := map run_example ts\<rparr>"

lemma calls_example [simp]:
  "wf_id (calls_example i ts) = i" "wf_name (calls_example i ts) = ''w''" "run_target (run_example t) = t" "findRunWorkflowActions (calls_example i ts) = map run_example ts"
  "analyzeDependencies (calls_example i ts) = uniq (filter (\<lambda>t. t \<noteq> []) ts)"
  by (simp_all add: calls_example_def run_example_def run_target_def findRunWorkflowActions_def
      analyzeDependencies_def workflow_example_def action_example_def comp_def filter_map)

lemma all_dependencies_exact_witness:
  "distinct (map wf_id [calls_example ''a'' [''b''], calls_example ''b'' [''b'', ''c'']])
   \<and> set (getAllDependencies [calls_example ''a'' [''b''], calls_example ''b'' [''b'', ''c'']] ''a'')
     = {j. (''a'', j) \<in> {(''b'', ''b''), (''b'', ''c''), (''a'', ''b'')}\<^sup>+}"
  using all_dependencies_exact [of "[calls_example ''a'' [''b''], calls_example ''b'' [''b'', ''c'']]" "''a''"]
  by (simp add: calls_def uniq_def)

text \<open>
  C30: In a list of workflows with distinct identifiers, every reported circular dependency is a closed path of direct dependencies, with no workflow twice on
  it but the first, and one is reported exactly if some workflow depends on itself, directly or
  transitively.
\<close>

theorem circular_dependencies_exact:
  assumes "distinct (map wf_id ws)"
  shows "findCircularDependencies ws \<in> lists (Collect (closed_path (getDependencies ws)))
    \<and> (findCircularDependencies ws = [] \<longleftrightarrow> filter (\<lambda>w. wf_id w \<in> set (getAllDependencies ws (wf_id w))) ws = [])"
proof -
  have m: "mapped_deps ws = getDependencies ws" using mapped_distinct [OF assms] by blast
  have "(y, y) \<notin> (edges (getDependencies ws))\<^sup>+" if "y \<notin> wf_id ` set ws" for y
  proof
    assume "(y, y) \<in> (edges (getDependencies ws))\<^sup>+"
    then obtain z where "z \<in> set (getDependencies ws y)" by (meson edges_iff tranclD)
    then show False using dependency_iff [OF assms, of z y] that by auto
  qed
  then have "(\<forall>y. (y, y) \<notin> (edges (getDependencies ws))\<^sup>+)
      \<longleftrightarrow> (\<forall>w \<in> set ws. wf_id w \<notin> set (getAllDependencies ws (wf_id w)))"
    using all_dependencies(1) [of ws] by (simp add: Image_singleton) (metis imageE)
  then show ?thesis
    using circular_dependencies [of ws] unfolding m by (auto simp: filter_empty_conv)
qed

lemma circular_dependencies_exact_witness:
  "distinct (map wf_id [calls_example ''a'' [''b''], calls_example ''b'' [''a'']])
   \<and> findCircularDependencies [calls_example ''a'' [''b''], calls_example ''b'' [''a'']] = [[''a'', ''b'', ''a'']]
   \<and> findCircularDependencies [calls_example ''a'' [''b''], calls_example ''b'' [''a'']]
       \<in> lists (Collect (closed_path (getDependencies [calls_example ''a'' [''b''], calls_example ''b'' [''a'']])))"
  using circular_dependencies_exact [of "[calls_example ''a'' [''b''], calls_example ''b'' [''a'']]"]
  by (simp add: findCircularDependencies_def dep_fuel_def dep_nodes_def mapped_deps_def uniq_def record_cycle_def)

text \<open>
  The depth of a workflow is always found, and it is the length of the longest chain of direct
  dependencies that starts with it and ends where it meets a workflow for the second time, or before.
\<close>

theorem dependency_depth_longest:
  "\<exists>k. getDependencyDepth ws i = Some k \<and> Suc k = Max (length ` Collect (tree_walk (getDependencies ws) [] i))"
proof -
  obtain k where k: "getDependencyDepth ws i = Some k" "Suc k \<in> length ` Collect (tree_walk (getDependencies ws) [] i)"
      "\<forall>p. tree_walk (getDependencies ws) [] i p \<longrightarrow> length p \<le> Suc k"
    using dependency_depth by blast
  have "finite (length ` Collect (tree_walk (getDependencies ws) [] i))"
    using k(3) by (auto intro: finite_subset [of _ "{..Suc k}"])
  then have "Max (length ` Collect (tree_walk (getDependencies ws) [] i)) = Suc k"
    by (rule Max_eqI) (use k in auto)
  then show ?thesis using k(1) by metis
qed

end
