(* ===== verification/Dependency_Views.thy ===== *)
theory Dependency_Views
  imports Dependency_Search
begin

text \<open>
  The dependency graph that the analyzer builds, caches and draws agrees with the queries that read the
  workflows: its nodes, edges, degrees and roots, and the paths through it. The cache is the exception.
\<close>

section \<open>The graph agrees with the queries\<close>

text \<open>The runs, as source, target and action.\<close>

definition run_links :: "Workflow list \<Rightarrow> (ident \<times> ident \<times> ident) list" where
  "run_links ws = concat (map (\<lambda>w. map (\<lambda>a. (wf_id w, run_target a, ac_id a))
     (filter (\<lambda>a. run_target a \<noteq> []) (findRunWorkflowActions w))) ws)"

definition link_triple :: "ident \<times> ident \<times> ident \<Rightarrow> dependency_links \<Rightarrow> dependency_links" where
  "link_triple p ne = (case p of (s, t, a) \<Rightarrow>
     (dn_update t (add_dependent s) (dn_update s (add_dependency t) (fst ne)), add_edge s t a (snd ne)))"

lemma link_workflows_triples:
  "link_workflows ws = fold link_triple (run_links ws) (foldl (\<lambda>m w. map_set (wf_id w) (dependency_node w) m) [] ws, [])"
proof -
  have one: "fold (link_run s) as ne = fold link_triple (map (\<lambda>a. (s, run_target a, ac_id a)) (filter (\<lambda>a. run_target a \<noteq> []) as)) ne"
    for s as ne
    by (induction as arbitrary: ne) (simp_all add: link_run_def link_triple_def Let_def)
  have "fold (\<lambda>w. fold (link_run (wf_id w)) (findRunWorkflowActions w)) vs ne = fold link_triple (run_links vs) ne" for vs ne
    by (induction vs arbitrary: ne) (simp_all add: run_links_def one)
  then show ?thesis by (simp add: link_workflows_def)
qed

lemma map_of_dn_update: "map_of (dn_update i f m) k = map_option (\<lambda>n. if k = i then f n else n) (map_of m k)"
  by (induction m) (auto simp: dn_update_def)

lemma dn_update_keys [simp]: "map fst (dn_update i f m) = map fst m"
  by (simp add: dn_update_def case_prod_beta' comp_def)

text \<open>What the links do to one node.\<close>

definition node_links :: "ident \<Rightarrow> (ident \<times> ident \<times> ident) list \<Rightarrow> DependencyNode \<Rightarrow> DependencyNode" where
  "node_links i T n = fold (\<lambda>(s, t, a) n.
     let n1 = (if s = i then add_dependency t n else n) in if t = i then add_dependent s n1 else n1) T n"

lemma fold_link_nodes:
  "map_of (fst (fold link_triple T (m, es))) i = map_option (node_links i T) (map_of m i)
   \<and> map fst (fst (fold link_triple T (m, es))) = map fst m"
proof (induction T arbitrary: m es)
  case Nil
  show ?case by (simp add: node_links_def option.map_ident)
next
  case (Cons p T)
  obtain s t a where p: "p = (s, t, a)" by (cases p) auto
  let ?m = "dn_update t (add_dependent s) (dn_update s (add_dependency t) m)"
  have "fold link_triple (p # T) (m, es) = fold link_triple T (?m, add_edge s t a es)"
    by (simp add: p link_triple_def)
  moreover have "map_option (node_links i T) (map_of ?m i) = map_option (node_links i (p # T)) (map_of m i)"
    by (cases "map_of m i") (simp_all add: map_of_dn_update node_links_def Let_def p)
  ultimately show ?case using Cons.IH [of ?m "add_edge s t a es"] by simp
qed

definition linked :: "DependencyNode \<Rightarrow> bool" where
  "linked n \<longleftrightarrow> dn_outDegree n = length (dn_dependencies n) \<and> dn_inDegree n = length (dn_dependents n)"

lemma node_links_parts:
  "dn_dependencies (node_links i T n) = fold set_add (map (\<lambda>p. fst (snd p)) (filter (\<lambda>p. fst p = i) T)) (dn_dependencies n)
   \<and> dn_dependents (node_links i T n) = fold set_add (map fst (filter (\<lambda>p. fst (snd p) = i) T)) (dn_dependents n)
   \<and> (linked n \<longrightarrow> linked (node_links i T n))"
proof (induction T arbitrary: n)
  case (Cons p T)
  obtain s t a where p: "p = (s, t, a)" by (cases p) auto
  let ?n1 = "if s = i then add_dependency t n else n"
  let ?n2 = "if t = i then add_dependent s ?n1 else ?n1"
  have "node_links i (p # T) n = node_links i T ?n2" by (simp add: node_links_def p Let_def)
  moreover have "dn_dependencies ?n2 = (if s = i then set_add t (dn_dependencies n) else dn_dependencies n)"
    "dn_dependents ?n2 = (if t = i then set_add s (dn_dependents n) else dn_dependents n)"
    "linked n \<longrightarrow> linked ?n2"
    by (auto simp: add_dependency_def add_dependent_def set_add_def linked_def)
  ultimately show ?case using Cons [of ?n2] by (simp add: p)
qed (simp add: node_links_def)

lemma map_set_distinct_ids:
  assumes "distinct (map fst m @ map wf_id ws)"
  shows "foldl (\<lambda>m w. map_set (wf_id w) (dependency_node w) m) m ws = m @ map (\<lambda>w. (wf_id w, dependency_node w)) ws"
  using assms
proof (induction ws arbitrary: m)
  case (Cons w ws)
  have "map_set k v m = m @ [(k, v)]" if "k \<notin> fst ` set m" for k :: ident and v :: DependencyNode and m
    using that by (induction k v m rule: map_set.induct) auto
  then have "map_set (wf_id w) (dependency_node w) m = m @ [(wf_id w, dependency_node w)]" using Cons.prems by simp
  then show ?case using Cons by simp
qed simp

lemma links_from:
  assumes "distinct (map wf_id ws)" and "w \<in> set ws"
  shows "fold set_add (map (\<lambda>p. fst (snd p)) (filter (\<lambda>p. fst p = wf_id w) (run_links ws))) [] = analyzeDependencies w"
proof -
  let ?l = "\<lambda>v. map (\<lambda>a. (wf_id v, run_target a, ac_id a)) (filter (\<lambda>a. run_target a \<noteq> []) (findRunWorkflowActions v))"
  have other: "filter (\<lambda>p. fst p = i) (?l v) = (if wf_id v = i then ?l v else [])" for i v
    by (auto simp: filter_map comp_def)
  have none: "i \<notin> wf_id ` set vs \<Longrightarrow> filter (\<lambda>p. fst p = i) (run_links vs) = []" for i vs
    by (induction vs) (auto simp: run_links_def filter_concat other)
  have "filter (\<lambda>p. fst p = wf_id w) (run_links ws) = ?l w"
    using assms
  proof (induction ws)
    case (Cons v ws)
    have c: "run_links (v # ws) = ?l v @ run_links ws" by (simp add: run_links_def)
    show ?case
      using Cons none [of "wf_id w" ws] unfolding c filter_append other by (cases "v = w") auto
  qed simp
  then have "map (\<lambda>p. fst (snd p)) (filter (\<lambda>p. fst p = wf_id w) (run_links ws))
      = filter (\<lambda>t. t \<noteq> []) (map run_target (findRunWorkflowActions w))"
    by (simp add: filter_map comp_def)
  then show ?thesis by (simp add: fold_set_add_uniq analyzeDependencies_def)
qed

lemma links_to:
  assumes "distinct (map wf_id ws)" and "i \<noteq> []"
  shows "fold set_add (map fst (filter (\<lambda>p. fst (snd p) = i) (run_links ws))) [] = getDependents ws i"
  using assms(1)
proof (induction ws rule: rev_induct)
  case (snoc w ws)
  let ?l = "map (\<lambda>a. (wf_id w, run_target a, ac_id a)) (filter (\<lambda>a. run_target a \<noteq> []) (findRunWorkflowActions w))"
  have c: "run_links (ws @ [w]) = run_links ws @ ?l" by (simp add: run_links_def)
  have same: "\<forall>x \<in> set xs. x = y \<Longrightarrow> y \<notin> set acc \<Longrightarrow> fold set_add xs acc = (if xs = [] then acc else acc @ [y])"
    for xs acc and y :: ident
  proof (induction xs rule: rev_induct)
    case (snoc x xs)
    then show ?case by (auto simp: set_add_def)
  qed simp
  have "wf_id w \<notin> set (getDependents ws i)" using snoc.prems by (auto simp: getDependents_def)
  moreover have "\<forall>x \<in> set (map fst (filter (\<lambda>p. fst (snd p) = i) ?l)). x = wf_id w" by auto
  moreover have "map fst (filter (\<lambda>p. fst (snd p) = i) ?l) = [] \<longleftrightarrow> i \<notin> set (analyzeDependencies w)"
    using assms(2) by (auto simp: filter_empty_conv analyzeDependencies_def)
  moreover have "fold set_add (map fst (filter (\<lambda>p. fst (snd p) = i) (run_links ws))) [] = getDependents ws i"
    using snoc by simp
  ultimately show ?case
    unfolding c using same [of "map fst (filter (\<lambda>p. fst (snd p) = i) ?l)" "wf_id w" "getDependents ws i"]
    by (simp add: getDependents_def)
qed (simp add: run_links_def getDependents_def)



text \<open>What the later passes keep of a node and of the edges.\<close>

definition node_view :: "DependencyNode \<Rightarrow> ident list \<times> ident list \<times> nat \<times> nat" where
  "node_view n = (dn_dependencies n, dn_dependents n, dn_outDegree n, dn_inDegree n)"

definition edge_ends :: "DependencyEdge \<Rightarrow> ident \<times> ident" where
  "edge_ends e = (de_from e, de_to e)"

definition links_view :: "dependency_links \<Rightarrow> (ident \<times> ident list \<times> ident list \<times> nat \<times> nat) list \<times> (ident \<times> ident) list" where
  "links_view ne = (map (\<lambda>(i, n). (i, node_view n)) (fst ne), map edge_ends (snd ne))"

lemma dn_update_view: "(\<And>n. node_view (f n) = node_view n)
    \<Longrightarrow> map (\<lambda>(i, n). (i, node_view n)) (dn_update i f m) = map (\<lambda>(i, n). (i, node_view n)) m"
  by (auto simp: dn_update_def)

lemma mark_edge_ends [simp]: "map edge_ends (mark_edge s t es) = map edge_ends es"
  by (induction es) (auto simp: edge_ends_def)

lemma marks_view: "links_view (fold mark_cycle cycles ne) = links_view ne"
proof (rule fold_keeps)
  fix c ne
  show "links_view (mark_cycle c ne) = links_view ne"
    unfolding mark_cycle_def
    by (rule fold_keeps)
      (auto simp: links_view_def dn_update_view [of "\<lambda>n. n\<lparr>dn_isCircular := True\<rparr>", unfolded node_view_def, simplified] node_view_def)
qed

lemma depths_view:
  "map (\<lambda>(i, n). (i, node_view n)) (dep_calculateDepths nodes es cycles) = map (\<lambda>(i, n). (i, node_view n)) nodes"
  by (auto simp: dep_calculateDepths_def node_view_def split: option.split prod.split)

lemma graph_view:
  "links_view (dg_nodes (dependency_graph now ws), dg_edges (dependency_graph now ws)) = links_view (link_workflows ws)"
proof -
  obtain nodes es where m: "fold mark_cycle (findCircularDependencies ws) (link_workflows ws) = (nodes, es)"
    by (cases "fold mark_cycle (findCircularDependencies ws) (link_workflows ws)") auto
  then have "links_view (nodes, es) = links_view (link_workflows ws)" by (metis marks_view)
  then show ?thesis by (simp add: dependency_graph_def m links_view_def depths_view Let_def)
qed

lemma edge_ends_links:
  "map edge_ends (snd (fold link_triple T (m, es))) = fold set_add (map (\<lambda>p. (fst p, fst (snd p))) T) (map edge_ends es)"
proof (induction T arbitrary: m es)
  case (Cons p T)
  obtain s t a where p: "p = (s, t, a)" by (cases p) auto
  have "map edge_ends (add_edge s t a es) = set_add (s, t) (map edge_ends es)"
    by (induction es) (auto simp: edge_ends_def set_add_def)
  then show ?case using Cons by (simp add: p link_triple_def)
qed simp

lemma run_links_iff:
  "(\<exists>a. (s, t, a) \<in> set (run_links ws)) \<longleftrightarrow> (\<exists>w \<in> set ws. wf_id w = s \<and> t \<in> set (analyzeDependencies w))"
  by (fastforce simp: run_links_def analyzeDependencies_def)

lemma graph_edges:
  "distinct (map edge_ends (dg_edges (dependency_graph now ws)))"
  "(s, t) \<in> set (map edge_ends (dg_edges (dependency_graph now ws)))
     \<longleftrightarrow> (\<exists>w \<in> set ws. wf_id w = s \<and> t \<in> set (analyzeDependencies w))"
proof -
  have e: "map edge_ends (dg_edges (dependency_graph now ws)) = fold set_add (map (\<lambda>p. (fst p, fst (snd p))) (run_links ws)) []"
    using graph_view [of now ws] by (simp add: links_view_def link_workflows_triples edge_ends_links)
  show "distinct (map edge_ends (dg_edges (dependency_graph now ws)))"
    unfolding e by (rule distinct_fold_set_add) simp
  show "(s, t) \<in> set (map edge_ends (dg_edges (dependency_graph now ws)))
     \<longleftrightarrow> (\<exists>w \<in> set ws. wf_id w = s \<and> t \<in> set (analyzeDependencies w))"
    unfolding e run_links_iff [symmetric] by (force simp: image_iff)
qed

lemma assoc_nth:
  assumes "distinct (map fst m)" and "k < length m"
  shows "map_of m (fst (m ! k)) = Some (snd (m ! k))"
  using assms by (simp add: map_of_eq_Some_iff)

lemma graph_nodes_view:
  assumes "distinct (map wf_id ws)" and "[] \<notin> wf_id ` set ws"
  shows "map (\<lambda>(i, n). (i, node_view n)) (dg_nodes (dependency_graph now ws))
    = map (\<lambda>w. (wf_id w, analyzeDependencies w, getDependents ws (wf_id w),
        length (analyzeDependencies w), length (getDependents ws (wf_id w)))) ws"
proof -
  let ?base = "map (\<lambda>w. (wf_id w, dependency_node w)) ws"
  let ?nodes = "fst (fold link_triple (run_links ws) (?base, []))"
  have base: "foldl (\<lambda>m w. map_set (wf_id w) (dependency_node w) m) [] ws = ?base"
    using map_set_distinct_ids [of "[]" ws] assms(1) by simp
  have keys: "map fst ?nodes = map wf_id ws" using fold_link_nodes [of "run_links ws" ?base "[]"] by (simp add: comp_def)
  have "map (\<lambda>(i, n). (i, node_view n)) ?nodes = map (\<lambda>w. (wf_id w, analyzeDependencies w, getDependents ws (wf_id w),
        length (analyzeDependencies w), length (getDependents ws (wf_id w)))) ws"
  proof (rule nth_equalityI)
    show "length (map (\<lambda>(i, n). (i, node_view n)) ?nodes) = length (map (\<lambda>w. (wf_id w, analyzeDependencies w, getDependents ws (wf_id w),
        length (analyzeDependencies w), length (getDependents ws (wf_id w)))) ws)"
      using keys by (metis length_map)
    fix k assume "k < length (map (\<lambda>(i, n). (i, node_view n)) ?nodes)"
    then have "k < length ?nodes" by simp
    moreover from this have "k < length ws" using arg_cong [OF keys, of length] by simp
    ultimately have k: "k < length ?nodes" "k < length ws" .
    let ?w = "ws ! k"
    have "fst (?nodes ! k) = wf_id ?w" using arg_cong [OF keys, of "\<lambda>l. l ! k"] k by simp
    then obtain n where n: "?nodes ! k = (wf_id ?w, n)" by (cases "?nodes ! k") simp
    have d: "distinct (map fst ?nodes)" using keys assms(1) by simp
    have "map_of ?nodes (wf_id ?w) = Some n" using assoc_nth [OF d k(1)] n by simp
    moreover have "map_of ?base (wf_id ?w) = Some (dependency_node ?w)"
      using assms(1) k(2) by (simp add: comp_def)
    ultimately have links: "n = node_links (wf_id ?w) (run_links ws) (dependency_node ?w)"
      using fold_link_nodes [of "run_links ws" ?base "[]" "wf_id ?w"] by simp
    have "wf_id ?w \<noteq> []" using assms(2) k(2) by (metis image_eqI nth_mem)
    then have "dn_dependencies n = analyzeDependencies ?w" "dn_dependents n = getDependents ws (wf_id ?w)" "linked n"
      using node_links_parts [of "wf_id ?w" "run_links ws" "dependency_node ?w"]
        links_from [OF assms(1), of ?w] links_to [OF assms(1), of "wf_id ?w"] k(2)
      unfolding links [symmetric] by (simp_all add: dependency_node_def linked_def)
    then have "node_view n = (analyzeDependencies ?w, getDependents ws (wf_id ?w), length (analyzeDependencies ?w),
        length (getDependents ws (wf_id ?w)))" by (simp add: node_view_def linked_def)
    then show "map (\<lambda>(i, n). (i, node_view n)) ?nodes ! k = map (\<lambda>w. (wf_id w, analyzeDependencies w, getDependents ws (wf_id w),
        length (analyzeDependencies w), length (getDependents ws (wf_id w)))) ws ! k"
      using k n by simp
  qed
  then show ?thesis
    using graph_view [of now ws] by (simp add: links_view_def link_workflows_triples base)
qed


lemma graph_node:
  assumes "distinct (map wf_id ws)" and "[] \<notin> wf_id ` set ws"
    and "map_of (dg_nodes (dependency_graph now ws)) i = Some n"
  shows "i \<in> wf_id ` set ws" "dn_dependencies n = getDependencies ws i" "dn_dependents n = getDependents ws i"
    "dn_inDegree n = length (getDependents ws i)" "dn_outDegree n = length (getDependencies ws i)"
proof -
  have "(i, node_view n) \<in> set (map (\<lambda>(i, n). (i, node_view n)) (dg_nodes (dependency_graph now ws)))"
    using map_of_SomeD [OF assms(3)] by force
  then obtain w where w: "w \<in> set ws" "i = wf_id w" "node_view n = (analyzeDependencies w, getDependents ws (wf_id w),
      length (analyzeDependencies w), length (getDependents ws (wf_id w)))"
    unfolding graph_nodes_view [OF assms(1,2)] by auto
  moreover from this have "getDependencies ws i = analyzeDependencies w"
    using find_by_id [OF assms(1)] by (simp add: getDependencies_def)
  ultimately show "i \<in> wf_id ` set ws" "dn_dependencies n = getDependencies ws i" "dn_dependents n = getDependents ws i"
    "dn_inDegree n = length (getDependents ws i)" "dn_outDegree n = length (getDependencies ws i)"
    by (auto simp: node_view_def)
qed

section \<open>Paths through a workflow\<close>

lemma those_returns: "those (map f xs) \<noteq> None \<longleftrightarrow> (\<forall>x \<in> set xs. f x \<noteq> None)"
  by (induction xs) (auto split: option.split)

lemma those_member: "those (map f xs) = Some yss \<Longrightarrow> ys \<in> set yss \<Longrightarrow> \<exists>x \<in> set xs. f x = Some ys"
  by (induction xs arbitrary: yss) (auto split: option.splits)

text \<open>Neither search of paths runs out of fuel.\<close>

lemma card_visit:
  assumes "x \<in> A" and "x \<notin> set vs" and "finite A" and "card (A - set vs) < Suc n"
  shows "card (A - set (x # vs)) < n"
proof -
  have "card (A - set (x # vs)) < card (A - set vs)"
    by (rule psubset_card_mono) (use assms(1-3) in auto)
  then show ?thesis using assms(4) by simp
qed

lemma find_paths_returns:
  "card (fst ` set nodes - set vs) < fuel \<Longrightarrow> find_paths nodes fuel vs path i \<noteq> None"
proof (induction fuel arbitrary: vs path i)
  case (Suc n)
  show ?case
  proof (cases "i \<in> set vs \<or> map_of nodes i = None")
    case False
    then have "i \<in> fst ` set nodes" using map_of_eq_None_iff by metis
    then have "card (fst ` set nodes - set (i # vs)) < n"
      by (rule card_visit) (use False Suc.prems in simp_all)
    then have "those (map (find_paths nodes n (i # vs) (path @ [i])) xs) \<noteq> None" for xs
      unfolding those_returns using Suc.IH by blast
    then show ?thesis using False by (subst find_paths.simps) (auto split: option.split simp del: find_paths.simps)
  qed auto
qed simp

lemma paths_through_returns:
  "card (fst ` set nodes - set vs) < fuel \<Longrightarrow> paths_through t nodes fuel vs path i \<noteq> None"
proof (induction fuel arbitrary: vs path i)
  case (Suc n)
  show ?case
  proof (cases "i \<in> set vs \<or> map_of nodes i = None")
    case False
    then have "i \<in> fst ` set nodes" using map_of_eq_None_iff by metis
    then have "card (fst ` set nodes - set (i # vs)) < n"
      by (rule card_visit) (use False Suc.prems in simp_all)
    then have "those (map (paths_through t nodes n (i # vs) (path @ [i])) xs) \<noteq> None" for xs
      unfolding those_returns using Suc.IH by blast
    then show ?thesis using False by (subst paths_through.simps) (auto simp: Let_def simp del: paths_through.simps)
  qed auto
qed simp

lemma paths_returned:
  "find_paths (dg_nodes g) (graph_depth g) [] [] i \<noteq> None" "paths_through t (dg_nodes g) (graph_depth g) [] [] i \<noteq> None"
proof -
  have "card (fst ` set (dg_nodes g) - set []) < graph_depth g"
    using card_length [of "map fst (dg_nodes g)"] by (simp add: graph_depth_def)
  then show "find_paths (dg_nodes g) (graph_depth g) [] [] i \<noteq> None" "paths_through t (dg_nodes g) (graph_depth g) [] [] i \<noteq> None"
    using find_paths_returns paths_through_returns by blast+
qed

lemma paths_through_step:
  assumes "i \<notin> set vs" and "map_of nodes i = Some node" and "\<not> (t \<in> set (path @ [i]) \<and> dn_inDegree node = 0)"
  shows "paths_through t nodes (Suc n) vs path i = map_option concat
    (those (map (paths_through t nodes n (i # vs) (path @ [i]))
      (if t \<in> set (path @ [i]) then dn_dependents node else dn_dependencies node)))"
proof -
  have "(i = t \<or> t \<in> set (path @ [i])) = (t \<in> set (path @ [i]))" by auto
  then show ?thesis
    using assms by (subst paths_through.simps) (simp only: Let_def if_False option.case nat.case if_P if_not_P split: if_split)
qed

text \<open>
  A path that is found extends the given one without repeating a node, passes through the target and ends
  with a node that nothing depends on; from its end the dependencies lead down to the target.
\<close>

lemma paths_through_sound:
  assumes E: "\<forall>i n. map_of nodes i = Some n
      \<longrightarrow> (\<forall>j \<in> set (dn_dependencies n). (i, j) \<in> E) \<and> (\<forall>j \<in> set (dn_dependents n). (j, i) \<in> E)"
  shows "paths_through t nodes fuel vs path i = Some ps \<Longrightarrow> p \<in> set ps \<Longrightarrow> distinct path \<Longrightarrow> set path \<subseteq> set vs \<Longrightarrow>
    (\<exists>q. p = path @ i # q) \<and> distinct p \<and> t \<in> set p
    \<and> (\<exists>n. map_of nodes (last p) = Some n \<and> dn_inDegree n = 0)
    \<and> (t \<in> set (path @ [i]) \<longrightarrow> (last p, i) \<in> E\<^sup>*)
    \<and> (t \<notin> set path \<longrightarrow> (i, t) \<in> E\<^sup>* \<and> (last p, t) \<in> E\<^sup>*)"
proof (induction fuel arbitrary: vs path i ps p)
  case 0
  then show ?case by (auto simp: Let_def split: if_splits option.splits)
next
  case (Suc n)
  obtain node where node: "i \<notin> set vs" "map_of nodes i = Some node"
    using Suc.prems(1,2) by (subst (asm) paths_through.simps) (auto split: if_splits option.splits simp del: paths_through.simps)
  show ?case
  proof (cases "t \<in> set (path @ [i]) \<and> dn_inDegree node = 0")
    case True
    then have "p = path @ [i]"
      using Suc.prems(1,2) node by (subst (asm) paths_through.simps) (auto simp: Let_def simp del: paths_through.simps)
    then show ?thesis using True Suc.prems(3,4) node by auto
  next
    case False
    let ?next = "if t \<in> set (path @ [i]) then dn_dependents node else dn_dependencies node"
    obtain yss where yss: "those (map (paths_through t nodes n (i # vs) (path @ [i])) ?next) = Some yss" "p \<in> set (concat yss)"
      using Suc.prems(1,2) unfolding paths_through_step [OF node False] map_option_eq_Some by metis
    obtain ys where ys: "ys \<in> set yss" "p \<in> set ys" using yss(2) by auto
    obtain c where c: "c \<in> set ?next" "paths_through t nodes n (i # vs) (path @ [i]) c = Some ys"
      using those_member [OF yss(1) ys(1)] by blast
    have "distinct (path @ [i])" "set (path @ [i]) \<subseteq> set (i # vs)" using Suc.prems(3,4) node(1) by auto
    note IH = Suc.IH [OF c(2) ys(2) this]
    have up: "t \<in> set (path @ [i]) \<Longrightarrow> (c, i) \<in> E" and down: "t \<notin> set (path @ [i]) \<Longrightarrow> (i, c) \<in> E"
      using c(1) E node(2) by auto
    have "t \<in> set (path @ [i]) \<longrightarrow> (last p, i) \<in> E\<^sup>*" using IH up by (auto intro: rtrancl_into_rtrancl)
    moreover have "t \<notin> set path \<longrightarrow> (i, t) \<in> E\<^sup>* \<and> (last p, t) \<in> E\<^sup>*"
      using IH up down by (cases "i = t") (auto intro: rtrancl_into_rtrancl converse_rtrancl_into_rtrancl)
    moreover obtain q where "p = (path @ [i]) @ c # q" using IH by blast
    then have "\<exists>q. p = path @ i # q" by simp
    ultimately show ?thesis using IH by blast
  qed
qed

lemma graph_roots: "r \<in> set (dg_roots (dependency_graph now ws))
    \<longleftrightarrow> (\<exists>n. (r, n) \<in> set (dg_nodes (dependency_graph now ws)) \<and> dn_inDegree n = 0)"
  by (force simp: dependency_graph_def Let_def split: prod.split)

lemma graph_keys: "map fst (dg_nodes (dependency_graph now ws)) = map fst (fst (link_workflows ws))"
proof -
  have "map fst m = map fst (map (\<lambda>(i, n). (i, node_view n)) m)" for m :: "(ident \<times> DependencyNode) list" by auto
  then show ?thesis using graph_view [of now ws] by (metis fst_conv links_view_def)
qed

lemma critical_path:
  assumes "distinct (map wf_id ws)" and "[] \<notin> wf_id ` set ws"
    and "p \<in> set (findCriticalPaths (dependency_graph now ws) t)" (is "p \<in> set (findCriticalPaths ?g t)")
  shows "p \<noteq> [] \<and> distinct p \<and> t \<in> set p \<and> {hd p, last p} \<subseteq> set (dg_roots (dependency_graph now ws))
    \<and> (hd p, t) \<in> (edges (getDependencies ws))\<^sup>* \<and> (last p, t) \<in> (edges (getDependencies ws))\<^sup>*"
proof -
  obtain r ps where r: "r \<in> set (dg_roots ?g)" "paths_through t (dg_nodes ?g) (graph_depth ?g) [] [] r = Some ps" "p \<in> set ps"
  proof -
    let ?f = "\<lambda>r. paths_through t (dg_nodes ?g) (graph_depth ?g) [] [] r"
    have "p \<in> (\<Union>r \<in> set (dg_roots ?g). set (case ?f r of None \<Rightarrow> [] | Some ps \<Rightarrow> ps))"
      using in_set_takeD [OF assms(3) [unfolded findCriticalPaths_def]] by simp
    then obtain r where "r \<in> set (dg_roots ?g)" "p \<in> set (case ?f r of None \<Rightarrow> [] | Some ps \<Rightarrow> ps)" by blast
    then show thesis using that by (cases "?f r") simp_all
  qed
  have "\<forall>i n. map_of (dg_nodes ?g) i = Some n
      \<longrightarrow> (\<forall>j \<in> set (dn_dependencies n). (i, j) \<in> edges (getDependencies ws))
        \<and> (\<forall>j \<in> set (dn_dependents n). (j, i) \<in> edges (getDependencies ws))"
  proof (intro allI impI)
    fix i n assume "map_of (dg_nodes ?g) i = Some n"
    note node = graph_node [OF assms(1,2) this]
    have "(i, j) \<in> edges (getDependents ws) \<longleftrightarrow> (j, i) \<in> edges (getDependencies ws)" for j
      using dependents_converse [OF assms(1)] by simp
    then show "(\<forall>j \<in> set (dn_dependencies n). (i, j) \<in> edges (getDependencies ws))
        \<and> (\<forall>j \<in> set (dn_dependents n). (j, i) \<in> edges (getDependencies ws))"
      using node(2,3) by simp
  qed
  note path = paths_through_sound [OF this r(2,3)]
  obtain n where "map_of (dg_nodes ?g) (last p) = Some n" "dn_inDegree n = 0" using path by auto
  then have "last p \<in> set (dg_roots ?g)" unfolding graph_roots using map_of_SomeD by metis
  moreover have "hd p = r" using path by auto
  ultimately show ?thesis using path r(1) by auto
qed

section \<open>Depths\<close>

lemma depth_seen:
  "set ys \<subseteq> set vs \<Longrightarrow> ran (map_of ds) \<subseteq> {0} \<Longrightarrow> depth_dfs succ fuel d m (vs, ds) ys = Some ((vs, ds), m)"
  by (induction ys) (auto simp: ran_def subset_iff split: option.split)

lemma depth_flat:
  "(\<forall>k < length xs. set (succ (xs ! k)) \<subseteq> set vs \<union> set (take k xs)) \<Longrightarrow> ran (map_of ds) \<subseteq> {0} \<Longrightarrow>
    set vs \<subseteq> dom (map_of ds) \<Longrightarrow>
    \<exists>vs' ds'. depth_dfs succ (Suc n) 0 0 (vs, ds) xs = Some ((vs', ds'), 0) \<and> ran (map_of ds') \<subseteq> {0}
      \<and> set vs \<union> set xs \<subseteq> dom (map_of ds')"
proof (induction xs arbitrary: vs ds)
  case (Cons x xs)
  have step: "\<forall>k < length xs. set (succ (xs ! k)) \<subseteq> set (x # vs) \<union> set (take k xs)"
  proof (intro allI impI)
    fix k assume "k < length xs"
    then show "set (succ (xs ! k)) \<subseteq> set (x # vs) \<union> set (take k xs)"
      using Cons.prems(1) [rule_format, of "Suc k"] by auto
  qed
  show ?case
  proof (cases "x \<in> set vs")
    case True
    then obtain k where "map_of ds x = Some k" using Cons.prems(3) by blast
    moreover from this have "k = 0" using Cons.prems(2) ranI [of "map_of ds" x k] by auto
    moreover have v: "set (x # vs) = set vs" using True by auto
    ultimately show ?thesis using Cons.IH [OF step [unfolded v] Cons.prems(2,3)] True by auto
  next
    case False
    have "set (succ x) \<subseteq> set (x # vs)" using Cons.prems(1) [rule_format, of 0] by auto
    then have call: "depth_dfs succ n (0 + 1) 0 (x # vs, ds) (succ x) = Some ((x # vs, ds), 0)"
      by (rule depth_seen [OF _ Cons.prems(2)])
    have "ran (map_of (map_set x 0 ds)) \<subseteq> {0}" "set (x # vs) \<subseteq> dom (map_of (map_set x 0 ds))"
      using Cons.prems(2,3) by (auto simp: map_of_map_set ran_def)
    from Cons.IH [OF step this] show ?thesis using call False by auto
  qed
qed simp

definition dependencies_first :: "Workflow list \<Rightarrow> bool" where
  "dependencies_first ws =
     list_all (\<lambda>k. set (analyzeDependencies (ws ! k)) \<subseteq> wf_id ` set (take k ws)) [0..<length ws]"

lemma graph_depths:
  obtains nodes where "dg_nodes (dependency_graph now ws)
      = dep_calculateDepths nodes (dg_edges (dependency_graph now ws)) (dg_cycles (dependency_graph now ws))"
    "map (\<lambda>(i, n). (i, node_view n)) nodes = map (\<lambda>(i, n). (i, node_view n)) (dg_nodes (dependency_graph now ws))"
proof -
  obtain nodes es where m: "fold mark_cycle (findCircularDependencies ws) (link_workflows ws) = (nodes, es)"
    by (cases "fold mark_cycle (findCircularDependencies ws) (link_workflows ws)") auto
  show thesis by (rule that [of nodes]) (simp_all add: dependency_graph_def m Let_def depths_view)
qed

lemma targets_known:
  assumes "distinct (map wf_id ws)" and "w \<in> set ws"
  shows "set (acyclic_targets (dg_edges (dependency_graph now ws)) cs (wf_id w)) \<subseteq> set (analyzeDependencies w)"
proof
  fix t assume "t \<in> set (acyclic_targets (dg_edges (dependency_graph now ws)) cs (wf_id w))"
  then have "(wf_id w, t) \<in> set (map edge_ends (dg_edges (dependency_graph now ws)))"
    by (force simp: acyclic_targets_def Let_def edge_ends_def)
  then obtain v where "v \<in> set ws" "wf_id v = wf_id w" "t \<in> set (analyzeDependencies v)"
    unfolding graph_edges(2) by blast
  then show "t \<in> set (analyzeDependencies w)" using assms by (metis distinct_map inj_onD)
qed

lemma leaves_first:
  assumes "\<And>i. i \<in> set ls \<Longrightarrow> f i = []" and "\<And>k. k < length xs \<Longrightarrow> set (f (xs ! k)) \<subseteq> set (take k xs)"
  shows "\<forall>k < length (ls @ xs). set (f ((ls @ xs) ! k)) \<subseteq> set [] \<union> set (take k (ls @ xs))"
proof (intro allI impI)
  fix k assume k: "k < length (ls @ xs)"
  show "set (f ((ls @ xs) ! k)) \<subseteq> set [] \<union> set (take k (ls @ xs))"
  proof (cases "k < length ls")
    case True
    then show ?thesis using assms(1) [OF nth_mem [OF True]] by (simp add: nth_append)
  next
    case False
    then have "k - length ls < length xs" using k by simp
    from assms(2) [OF this] show ?thesis using False by (auto simp: nth_append)
  qed
qed

lemma flat_depths:
  assumes "distinct (map wf_id ws)" and "[] \<notin> wf_id ` set ws" and "dependencies_first ws"
  shows "map (\<lambda>(i, n). dn_depth n) (dg_nodes (dependency_graph now ws)) = replicate (length ws) 0"
proof -
  let ?g = "dependency_graph now ws"
  obtain nodes where nodes: "dg_nodes ?g = dep_calculateDepths nodes (dg_edges ?g) (dg_cycles ?g)"
    and view: "map (\<lambda>(i, n). (i, node_view n)) nodes = map (\<lambda>(i, n). (i, node_view n)) (dg_nodes ?g)"
    by (rule graph_depths)
  let ?succ = "acyclic_targets (dg_edges ?g) (dg_cycles ?g)"
  let ?leaves = "map fst (filter (\<lambda>(i, n). dn_outDegree n = 0) nodes)"
  note view = view [unfolded graph_nodes_view [OF assms(1,2)]]
  have keys: "map fst nodes = map wf_id ws"
    using arg_cong [OF view, of "map fst"] by (simp add: comp_def case_prod_beta')
  have leaf: "?succ i = []" if i: "i \<in> set ?leaves" for i
  proof -
    obtain n where n: "(i, n) \<in> set nodes" "dn_outDegree n = 0" using i by auto
    then have "(i, node_view n) \<in> set (map (\<lambda>(i, n). (i, node_view n)) nodes)" by force
    then obtain w where w: "w \<in> set ws" "wf_id w = i" "analyzeDependencies w = []"
      unfolding view using n(2) by (auto simp: node_view_def)
    then show ?thesis using targets_known [OF assms(1) w(1), of now "dg_cycles ?g"] by simp
  qed
  have before: "set (?succ (wf_id (ws ! k))) \<subseteq> wf_id ` set (take k ws)" if k: "k < length ws" for k
  proof -
    have "set (analyzeDependencies (ws ! k)) \<subseteq> wf_id ` set (take k ws)"
      using assms(3) k by (simp add: dependencies_first_def list_all_iff)
    then show ?thesis using targets_known [OF assms(1) nth_mem [OF k], of now "dg_cycles ?g"] by blast
  qed
  note order = leaves_first [of ?leaves ?succ "map wf_id ws", OF leaf]
  have "\<forall>k < length (?leaves @ map wf_id ws).
      set (?succ ((?leaves @ map wf_id ws) ! k)) \<subseteq> set [] \<union> set (take k (?leaves @ map wf_id ws))"
    by (rule order) (use before in \<open>simp_all add: take_map\<close>)
  from depth_flat [OF this, of "[]" "length nodes + length (dg_edges ?g)"]
  obtain vs' ds' where "depth_dfs ?succ (Suc (length nodes + length (dg_edges ?g))) 0 0 ([], []) (?leaves @ map fst nodes)
      = Some ((vs', ds'), 0)" "ran (map_of ds') \<subseteq> {0}" "set (?leaves @ map wf_id ws) \<subseteq> dom (map_of ds')"
    by (auto simp: keys)
  then have dfs: "dep_calculateDepths nodes (dg_edges ?g) (dg_cycles ?g)
      = map (\<lambda>(i, n). (i, case map_of ds' i of None \<Rightarrow> n | Some d \<Rightarrow> n\<lparr>dn_depth := d\<rparr>)) nodes"
    and ds': "ran (map_of ds') \<subseteq> {0}" "set (map fst nodes) \<subseteq> dom (map_of ds')"
    unfolding dep_calculateDepths_def keys by simp_all
  have "dn_depth (case map_of ds' i of None \<Rightarrow> n | Some d \<Rightarrow> n\<lparr>dn_depth := d\<rparr>) = 0" if p: "(i, n) \<in> set nodes" for i n
  proof -
    obtain d where "map_of ds' i = Some d" using ds'(2) p by force
    then show ?thesis using ds'(1) ranI [of "map_of ds'" i d] by auto
  qed
  then have "map (\<lambda>(i, n). dn_depth n) (dg_nodes ?g) = map (\<lambda>p. 0) nodes"
    unfolding nodes dfs map_map by (intro map_cong) auto
  then show ?thesis using arg_cong [OF keys, of length] by (simp add: map_replicate_const)
qed

section \<open>Properties\<close>

text \<open>
  For workflows with distinct, nonempty identifiers, the graph has their nodes in order, each with the
  dependencies and dependents that the queries return and their numbers as degrees; it has one edge for each
  workflow and direct dependency; its roots are the workflows that are never used.
\<close>

theorem graph_agrees:
  assumes "distinct (map wf_id ws)" and "[] \<notin> wf_id ` set ws"
  shows "map (\<lambda>(i, n). (i, dn_dependencies n, dn_dependents n, dn_outDegree n, dn_inDegree n)) (dg_nodes (dependency_graph now ws))
      = map (\<lambda>w. (wf_id w, analyzeDependencies w, getDependents ws (wf_id w),
          length (analyzeDependencies w), length (getDependents ws (wf_id w)))) ws
    \<and> distinct (map (\<lambda>e. (de_from e, de_to e)) (dg_edges (dependency_graph now ws)))
    \<and> set (map (\<lambda>e. (de_from e, de_to e)) (dg_edges (dependency_graph now ws))) = calls ws
    \<and> dg_roots (dependency_graph now ws) = findUnusedWorkflows ws"
proof -
  let ?g = "dependency_graph now ws"
  let ?view = "map (\<lambda>w. (wf_id w, analyzeDependencies w, getDependents ws (wf_id w),
      length (analyzeDependencies w), length (getDependents ws (wf_id w)))) ws"
  have nodes: "map (\<lambda>(i, n). (i, node_view n)) (dg_nodes ?g) = ?view"
    by (rule graph_nodes_view [OF assms])
  have edge: "edge_ends = (\<lambda>e. (de_from e, de_to e))" by (simp add: edge_ends_def fun_eq_iff)
  have "set (map edge_ends (dg_edges ?g)) = calls ws"
    using graph_edges(2) [of _ _ now ws] by (auto simp del: set_map simp: calls_def)
  moreover have "dg_roots ?g = findUnusedWorkflows ws"
  proof -
    have "dg_roots ?g = map fst (filter (\<lambda>(i, n). dn_inDegree n = 0) (dg_nodes ?g))"
      by (simp add: dependency_graph_def Let_def split: prod.split)
    also have "\<dots> = map fst (filter (\<lambda>p. snd (snd (snd (snd p))) = 0) (map (\<lambda>(i, n). (i, node_view n)) (dg_nodes ?g)))"
      by (simp add: filter_map comp_def case_prod_beta' node_view_def)
    also have "\<dots> = map wf_id (filter (\<lambda>w. getDependents ws (wf_id w) = []) ws)"
      unfolding nodes by (simp add: filter_map comp_def)
    also have "\<dots> = findUnusedWorkflows ws"
      by (auto simp: findUnusedWorkflows_def getDependents_def filter_empty_conv intro!: arg_cong [of _ _ "map wf_id"] filter_cong)
    finally show ?thesis .
  qed
  ultimately show ?thesis using nodes graph_edges(1) [of now ws] by (simp add: node_view_def edge)
qed

lemma graph_agrees_witness:
  "dg_roots (dependency_graph 0 [calls_example ''a'' [''b''], calls_example ''b'' [''c'']]) = [''a'']
   \<and> map (\<lambda>(i, n). (i, dn_dependencies n, dn_dependents n, dn_outDegree n, dn_inDegree n))
        (dg_nodes (dependency_graph 0 [calls_example ''a'' [''b''], calls_example ''b'' [''c'']]))
     = [(''a'', [''b''], [], 1, 0), (''b'', [''c''], [''a''], 1, 1)]"
  using graph_agrees [of "[calls_example ''a'' [''b''], calls_example ''b'' [''c'']]" 0]
  by (simp add: getDependents_def findUnusedWorkflows_def uniq_def)

text \<open>
  A critical path through a workflow that some other workflow runs starts and ends with two different
  roots, and both depend on it: where only one root depends on a workflow, the impact analysis reports no
  critical path at all, and a path that it reports is never a chain of dependencies from its first to its
  last workflow.
\<close>

theorem critical_paths_need_two_roots:
  assumes "distinct (map wf_id ws)" and "[] \<notin> wf_id ` set ws"
    and "p \<in> set (findCriticalPaths (dependency_graph now ws) t)" and "t \<notin> set (dg_roots (dependency_graph now ws))"
  shows "hd p \<noteq> last p \<and> {hd p, last p} \<subseteq> set (dg_roots (dependency_graph now ws)) \<inter> set (getAllDependents ws t)"
proof -
  note path = critical_path [OF assms(1-3)]
  have "hd p \<noteq> t" "last p \<noteq> t" using path assms(4) by auto
  then have "(hd p, t) \<in> (edges (getDependencies ws))\<^sup>+" "(last p, t) \<in> (edges (getDependencies ws))\<^sup>+"
    using path by (auto simp: rtrancl_eq_or_trancl)
  then have "{hd p, last p} \<subseteq> set (getAllDependents ws t)"
    using all_dependencies(2) [of ws t] dependents_converse [OF assms(1)] by (simp add: trancl_converse)
  moreover have "hd p \<noteq> last p"
  proof (cases p)
    case (Cons x q)
    then show ?thesis using path \<open>hd p \<noteq> t\<close> by (cases q rule: rev_cases) auto
  qed (use path in simp)
  ultimately show ?thesis using path by blast
qed

lemma critical_example:
  "findCriticalPaths (dependency_graph 0 [calls_example ''a'' [''c''], calls_example ''b'' [''c''], calls_example ''c'' []]) ''c''
     = [[''a'', ''c'', ''b''], [''b'', ''c'', ''a'']]"
  "''c'' \<notin> set (dg_roots (dependency_graph 0 [calls_example ''a'' [''c''], calls_example ''b'' [''c''], calls_example ''c'' []]))"
  by (simp_all add: findCriticalPaths_def dependency_graph_def findCircularDependencies_def dep_fuel_def dep_nodes_def
      mapped_deps_def uniq_def link_workflows_def link_run_def Let_def dn_update_def add_dependency_def add_dependent_def
      dependency_node_def dep_calculateDepths_def acyclic_targets_def graph_depth_def)

lemma critical_paths_need_two_roots_witness:
  "findCriticalPaths (dependency_graph 0 [calls_example ''a'' [''c''], calls_example ''b'' [''c''], calls_example ''c'' []]) ''c''
     = [[''a'', ''c'', ''b''], [''b'', ''c'', ''a'']]
   \<and> hd [''a'', ''c'', ''b''] \<noteq> last [''a'', ''c'', ''b'']
   \<and> {''a'', ''b''} \<subseteq> set (getAllDependents [calls_example ''a'' [''c''], calls_example ''b'' [''c''], calls_example ''c'' []] ''c'')"
  using critical_paths_need_two_roots [of "[calls_example ''a'' [''c''], calls_example ''b'' [''c''], calls_example ''c'' []]"
      "[''a'', ''c'', ''b'']" 0 "''c''"] critical_example
  by simp

text \<open>
  Where every workflow comes after those that it depends on, the graph gives every workflow the depth 0,
  however long its chain of dependencies is.
\<close>

theorem dependency_depths_flat:
  assumes "distinct (map wf_id ws)" and "[] \<notin> wf_id ` set ws" and "dependencies_first ws"
  shows "map (\<lambda>(i, n). dn_depth n) (dg_nodes (dependency_graph now ws)) = replicate (length ws) 0"
  by (rule flat_depths [OF assms])

lemma dependency_depths_flat_witness:
  "map (\<lambda>(i, n). dn_depth n) (dg_nodes (dependency_graph 0 [calls_example ''c'' [], calls_example ''b'' [''c''], calls_example ''a'' [''b'']]))
     = [0, 0, 0]
   \<and> map (getDependencyDepth [calls_example ''c'' [], calls_example ''b'' [''c''], calls_example ''a'' [''b'']]) [''c'', ''b'', ''a'']
     = [Some 0, Some 1, Some 2]"
  using dependency_depths_flat [of "[calls_example ''c'' [], calls_example ''b'' [''c''], calls_example ''a'' [''b'']]" 0]
  by (simp add: dependencies_first_def uniq_def getDependencyDepth_def buildDependencyTree_def dep_fuel_def
      dep_nodes_def getDependencies_def numeral_3_eq_3)

text \<open>
  The cache answers for the workflows that it was built from. For five minutes after a graph was built,
  the report on other workflows shows a workflow that was not there with no dependencies, no dependents and
  depth 0, whatever it runs.
\<close>

theorem cached_report_stale:
  assumes "w \<in> set ws'" and "wf_id w \<notin> wf_id ` set ws" and "now1 < now + CACHE_TTL" and "now2 < now + CACHE_TTL"
  shows "(wf_id w, wf_name w, [], [], 0, False)
    \<in> set (rp_workflows (fst (exportDependencyReport now1 now2 date ws' (snd (buildDependencyGraph now ws c (invalidateCache s))))))"
proof -
  let ?g = "dependency_graph now ws"
  let ?s = "snd (buildDependencyGraph now ws c (invalidateCache s))"
  have s: "?s = \<lparr>wd_cache = Some ?g, wd_cacheTimestamp = now\<rparr>"
    by (simp add: buildDependencyGraph_def invalidateCache_def)
  have cached: "buildDependencyGraph now' ws' True ?s = (?g, ?s)" if "now' < now + CACHE_TTL" for now'
    using that unfolding s by (auto simp: buildDependencyGraph_def CACHE_TTL_def)
  have "set (map fst (fst (link_workflows ws))) \<subseteq> wf_id ` set ws"
  proof -
    have "set (map fst (foldl (\<lambda>m w. map_set (wf_id w) (dependency_node w) m) [] ws)) = wf_id ` set ws"
      by (induction ws rule: rev_induct) (simp_all add: map_set_keys del: set_map)
    then show ?thesis
      using fold_link_nodes [of "run_links ws" "foldl (\<lambda>m w. map_set (wf_id w) (dependency_node w) m) [] ws" "[]"]
      by (simp add: link_workflows_triples del: set_map)
  qed
  then have "map_of (dg_nodes ?g) (wf_id w) = None"
    using assms(2) graph_keys [of now ws] by (metis in_mono map_of_eq_None_iff set_map)
  then have "report_row ?g w = (wf_id w, wf_name w, [], [], 0, False)" by (simp add: report_row_def)
  moreover have "rp_workflows (fst (exportDependencyReport now1 now2 date ws' ?s)) = map (report_row ?g) ws'"
    using cached [OF assms(3)] cached [OF assms(4)] by (simp add: exportDependencyReport_def getDependencyStats_def)
  ultimately show ?thesis using assms(1) by (metis image_eqI set_map)
qed

lemma cached_report_stale_witness:
  "(''b'', ''w'', [], [], 0, False) \<in> set (rp_workflows (fst (exportDependencyReport 100 101 ''d'' [calls_example ''b'' [''a'']]
     (snd (buildDependencyGraph 0 [calls_example ''a'' []] True wd_initial)))))
   \<and> analyzeDependencies (calls_example ''b'' [''a'']) = [''a'']"
  using cached_report_stale [of "calls_example ''b'' [''a'']" "[calls_example ''b'' [''a'']]" "[calls_example ''a'' []]" 100 0 101 "''d''" True wd_initial]
  by (simp add: CACHE_TTL_def wd_initial_def invalidateCache_def uniq_def)

end
