(* ===== verification/Workflow_Folders.thy ===== *)
theory Workflow_Folders
  imports Json_Doc Auto_Layout "HOL-Library.Monad_Syntax"
begin

text \<open>
  Workflows in folders (frontend/src/services/workflow-folder-manager.ts): the data, the validation of
  names, the hierarchy by parent links with the loops that climb it and the recursions that
  descend it, the tree and the searches. The \<open>Map\<close> of folders is the list of its entries in the order of
  insertion, a parent is an optional string, and \<open>order\<close> an integer. Climbing and descending are
  partial functions: \<open>None\<close> is a loop that never ends or a recursion that exhausts the stack, which
  happens on a cycle of parents. Strings are of characters below 256.
\<close>

section \<open>Data\<close>

record FolderMetadata =
  fmd_created :: millis
  fmd_updated :: millis
  fmd_workflowCount :: "nat option"
  fmd_descendantCount :: "nat option"

record WorkflowFolder =
  fo_id :: string
  fo_name :: string
  fo_parentId :: "string option"
  fo_color :: "string option"
  fo_icon :: "string option"
  fo_description :: "string option"
  fo_metadata :: FolderMetadata
  fo_order :: "int option"

record FolderAssociation =
  as_workflowId :: string
  as_folderId :: string
  as_addedAt :: millis

type_synonym folder_map = "(string \<times> WorkflowFolder) list"

text \<open>DEFAULT_VALIDATION_RULES.\<close>

definition folder_maxNameLength :: nat where
  "folder_maxNameLength = 100"

definition folder_maxDepth :: nat where
  "folder_maxDepth = 10"

definition folder_reservedNames :: "string list" where
  "folder_reservedNames = [''root'', ''system'', ''temp'', ''trash'']"

definition folder_allowedColors :: "string list" where
  "folder_allowedColors =
     [''#ef4444'', ''#f59e0b'', ''#10b981'', ''#3b82f6'', ''#8b5cf6'', ''#ec4899'', ''#6b7280'']"

definition folder_allowedIcons :: "string list" where
  "folder_allowedIcons =
     [''folder'', ''folder-open'', ''briefcase'', ''archive'', ''bookmark'', ''star'', ''tag'', ''collection'']"

section \<open>Strings\<close>

text \<open>\<open>trim\<close>, \<open>toLowerCase\<close> and \<open>split\<close> by one character.\<close>

definition js_trim :: "string \<Rightarrow> string" where
  "js_trim s = rev (dropWhile is_space (rev (dropWhile is_space s)))"

definition js_lower :: "string \<Rightarrow> string" where
  "js_lower s =
     map (\<lambda>c. let n = of_char c :: nat in
       if 65 \<le> n \<and> n \<le> 90 \<or> 192 \<le> n \<and> n \<le> 222 \<and> n \<noteq> 215 then char_of (n + 32) else c) s"

fun js_split :: "char \<Rightarrow> string \<Rightarrow> string list" where
  "js_split d [] = [[]]"
| "js_split d (c # s) =
     (if c = d then [] # js_split d s
      else case js_split d s of [] \<Rightarrow> [[c]] | w # ws \<Rightarrow> (c # w) # ws)"

section \<open>Children\<close>

definition folder_order :: "WorkflowFolder \<Rightarrow> int" where
  "folder_order f = (case fo_order f of None \<Rightarrow> 0 | Some n \<Rightarrow> n)"

definition getChildren :: "folder_map \<Rightarrow> string option \<Rightarrow> WorkflowFolder list" where
  "getChildren m parentId = sort_key folder_order (filter (\<lambda>f. fo_parentId f = parentId) (map snd m))"

text \<open>\<open>parentId || null\<close>.\<close>

definition or_null :: "string option \<Rightarrow> string option" where
  "or_null p = (if truthy p then p else None)"

definition getNextOrder :: "folder_map \<Rightarrow> string option \<Rightarrow> int" where
  "getNextOrder m parentId =
     (let children = getChildren m (or_null parentId) in
      if children = [] then 0 else Max (set (map folder_order children)) + 1)"

section \<open>Climbing\<close>

partial_function (option) calculateDepth :: "folder_map \<Rightarrow> string option \<Rightarrow> nat \<Rightarrow> nat option" where
  "calculateDepth m currentId depth =
     (case currentId of None \<Rightarrow> Some depth | Some i \<Rightarrow>
        if i = [] then Some depth
        else (case map_of m i of
          None \<Rightarrow> Some depth
        | Some f \<Rightarrow> calculateDepth m (fo_parentId f) (depth + 1)))"

partial_function (option) getFolderPath ::
  "folder_map \<Rightarrow> string option \<Rightarrow> (string \<times> string) list \<Rightarrow> (string \<times> string) list option" where
  "getFolderPath m currentId path =
     (case currentId of None \<Rightarrow> Some path | Some i \<Rightarrow>
        if i = [] then Some path
        else (case map_of m i of
          None \<Rightarrow> Some path
        | Some f \<Rightarrow> getFolderPath m (fo_parentId f) ((fo_id f, fo_name f) # path)))"

definition parent_folder :: "folder_map \<Rightarrow> WorkflowFolder \<Rightarrow> WorkflowFolder option" where
  "parent_folder m f =
     (case fo_parentId f of None \<Rightarrow> None | Some p \<Rightarrow> if p = [] then None else map_of m p)"

partial_function (option) getFolderAncestors ::
  "folder_map \<Rightarrow> string option \<Rightarrow> WorkflowFolder list \<Rightarrow> WorkflowFolder list option" where
  "getFolderAncestors m currentId ancestors =
     (case currentId of None \<Rightarrow> Some ancestors | Some i \<Rightarrow>
        if i = [] then Some ancestors
        else (case map_of m i of
          None \<Rightarrow> Some ancestors
        | Some f \<Rightarrow> getFolderAncestors m (fo_parentId f)
            (case parent_folder m f of None \<Rightarrow> ancestors | Some p \<Rightarrow> p # ancestors)))"

section \<open>Descending\<close>

text \<open>The loop of \<open>getFolderDescendants\<close> over a list of children.\<close>

partial_function (option) descendants_of ::
  "folder_map \<Rightarrow> WorkflowFolder list \<Rightarrow> WorkflowFolder list option" where
  "descendants_of m children =
     (case children of [] \<Rightarrow> Some [] | c # cs \<Rightarrow>
        do { below \<leftarrow> descendants_of m (getChildren m (Some (fo_id c)));
             rest \<leftarrow> descendants_of m cs;
             Some (c # below @ rest) })"

definition getFolderDescendants :: "folder_map \<Rightarrow> string \<Rightarrow> WorkflowFolder list option" where
  "getFolderDescendants m folderId = descendants_of m (getChildren m (Some folderId))"

text \<open>\<open>children.map\<close> in \<open>getMaxDescendantDepth\<close>, and the function itself.\<close>

definition max_depths :: "nat \<Rightarrow> nat list \<Rightarrow> nat" where
  "max_depths currentDepth childDepths = (if childDepths = [] then currentDepth else Max (set childDepths))"

partial_function (option) child_depths ::
  "folder_map \<Rightarrow> WorkflowFolder list \<Rightarrow> nat \<Rightarrow> nat list option" where
  "child_depths m children currentDepth =
     (case children of [] \<Rightarrow> Some [] | c # cs \<Rightarrow>
        do { below \<leftarrow> child_depths m (getChildren m (Some (fo_id c))) (currentDepth + 1);
             rest \<leftarrow> child_depths m cs currentDepth;
             Some (max_depths (currentDepth + 1) below # rest) })"

definition getMaxDescendantDepth :: "folder_map \<Rightarrow> string \<Rightarrow> nat \<Rightarrow> nat option" where
  "getMaxDescendantDepth m folderId currentDepth =
     map_option (max_depths currentDepth) (child_depths m (getChildren m (Some folderId)) currentDepth)"

datatype FolderTreeNode = FolderTreeNode (tn_folder: WorkflowFolder) (tn_children: "FolderTreeNode list")
  (tn_depth: nat) (tn_path: "string list") (tn_hasChildren: bool)

partial_function (option) build_nodes ::
  "folder_map \<Rightarrow> WorkflowFolder list \<Rightarrow> nat \<Rightarrow> FolderTreeNode list option" where
  "build_nodes m children depth =
     (case children of [] \<Rightarrow> Some [] | c # cs \<Rightarrow>
        do { below \<leftarrow> build_nodes m (getChildren m (Some (fo_id c))) (depth + 1);
             path \<leftarrow> getFolderPath m (Some (fo_id c)) [];
             rest \<leftarrow> build_nodes m cs depth;
             Some (FolderTreeNode c below depth (map snd path) (getChildren m (Some (fo_id c)) \<noteq> []) # rest) })"

definition buildTree :: "folder_map \<Rightarrow> string option \<Rightarrow> nat \<Rightarrow> FolderTreeNode list option" where
  "buildTree m rootId depth = build_nodes m (getChildren m rootId) depth"

definition getFolderTree :: "folder_map \<Rightarrow> string option \<Rightarrow> FolderTreeNode list option" where
  "getFolderTree m rootId = buildTree m rootId 0"

section \<open>Validation\<close>

text \<open>The only error of a result, \<open>None\<close> if it is valid; there are never any warnings.\<close>

definition validateFolderName :: "folder_map \<Rightarrow> string \<Rightarrow> string option \<Rightarrow> string option \<Rightarrow> string option" where
  "validateFolderName m name parentId excludeId =
     (if name = [] \<or> js_trim name = [] then Some ''Folder name cannot be empty''
      else if length name > folder_maxNameLength then
        Some (''Folder name cannot exceed '' @ nat_string folder_maxNameLength @ '' characters'')
      else if js_lower name \<in> set folder_reservedNames then
        Some (''\"'' @ name @ ''\" is a reserved folder name'')
      else if list_ex (\<lambda>s. fo_name s = name \<and> Some (fo_id s) \<noteq> excludeId) (getChildren m (or_null parentId)) then
        Some (''A folder named \"'' @ name @ ''\" already exists in this location'')
      else None)"

definition is_hex :: "char \<Rightarrow> bool" where
  "is_hex c = (let n = of_char c :: nat in 48 \<le> n \<and> n \<le> 57 \<or> 65 \<le> n \<and> n \<le> 70 \<or> 97 \<le> n \<and> n \<le> 102)"

definition isValidColor :: "string \<Rightarrow> bool" where
  "isValidColor color =
     ((case color of [] \<Rightarrow> False | c # s \<Rightarrow> c = CHR ''#'' \<and> length s = 6 \<and> list_all is_hex s)
      \<or> color \<in> set folder_allowedColors)"

definition isValidIcon :: "string \<Rightarrow> bool" where
  "isValidIcon icon \<longleftrightarrow> icon \<in> set folder_allowedIcons"

text \<open>The checks of colour and icon, in \<open>createFolder\<close> and in \<open>updateFolder\<close>.\<close>

definition look_error :: "string option \<Rightarrow> string option \<Rightarrow> string option" where
  "look_error color icon =
     (case color of Some c \<Rightarrow> if c \<noteq> [] \<and> \<not> isValidColor c then Some (''Invalid color: '' @ c)
          else (case icon of Some i \<Rightarrow> if i \<noteq> [] \<and> \<not> isValidIcon i then Some (''Invalid icon: '' @ i) else None
                  | None \<Rightarrow> None)
      | None \<Rightarrow> (case icon of Some i \<Rightarrow> if i \<noteq> [] \<and> \<not> isValidIcon i then Some (''Invalid icon: '' @ i) else None
                  | None \<Rightarrow> None))"

text \<open>Outer \<open>None\<close>: the call does not come to an end; inner \<open>None\<close>: the move is valid.\<close>

definition canMoveFolder :: "folder_map \<Rightarrow> string \<Rightarrow> string option \<Rightarrow> string option option" where
  "canMoveFolder m folderId newParentId =
     (if Some folderId = newParentId then Some (Some ''Cannot move folder to itself'')
      else if truthy newParentId \<and> the newParentId \<notin> set (map fst m) then
        Some (Some (''Parent folder not found: '' @ the newParentId))
      else do {
        descendants \<leftarrow> (if truthy newParentId then getFolderDescendants m folderId else Some []);
        if list_ex (\<lambda>d. Some (fo_id d) = newParentId) descendants then
          Some (Some ''Cannot move folder to one of its descendants (circular dependency)'')
        else do {
          depth \<leftarrow> calculateDepth m newParentId 0;
          maxDescendantDepth \<leftarrow> getMaxDescendantDepth m folderId 0;
          if depth + 1 + maxDescendantDepth > folder_maxDepth then
            Some (Some (''Move would exceed maximum depth of '' @ nat_string folder_maxDepth))
          else Some None } })"

section \<open>Searching\<close>

datatype match_field = NameField | DescriptionField

record FolderSearchOptions =
  fs_query :: string
  fs_includeDescription :: bool
  fs_caseSensitive :: bool
  fs_exactMatch :: bool

record FolderSearchResult =
  fr_folder :: WorkflowFolder
  fr_matches :: "(match_field \<times> string \<times> string) list"
  fr_score :: nat

definition fs_matches :: "FolderSearchOptions \<Rightarrow> string \<Rightarrow> bool" where
  "fs_matches opts text =
     (let searchTerm = (if fs_caseSensitive opts then fs_query opts else js_lower (fs_query opts));
          value = (if fs_caseSensitive opts then text else js_lower text) in
      if fs_exactMatch opts then value = searchTerm else js_includes value searchTerm)"

definition search_folder :: "FolderSearchOptions \<Rightarrow> WorkflowFolder \<Rightarrow> FolderSearchResult" where
  "search_folder opts f =
     (let byName = fs_matches opts (fo_name f);
          byDescription = fs_includeDescription opts \<and> truthy (fo_description f)
            \<and> fs_matches opts (the (fo_description f)) in
      \<lparr>fr_folder = f,
       fr_matches = (if byName then [(NameField, fo_name f, fs_query opts)] else []) @
         (if byDescription then [(DescriptionField, the (fo_description f), fs_query opts)] else []),
       fr_score = (if byName then if fs_exactMatch opts then 100 else 50 else 0)
         + (if byDescription then if fs_exactMatch opts then 50 else 25 else 0)\<rparr>)"

definition searchFolders :: "folder_map \<Rightarrow> FolderSearchOptions \<Rightarrow> FolderSearchResult list" where
  "searchFolders m opts =
     sort_key (\<lambda>r. - int (fr_score r))
       (filter (\<lambda>r. fr_matches r \<noteq> []) (map (search_folder opts) (map snd m)))"

text \<open>The loop of \<open>findFolderByPath\<close> over the parts of a path.\<close>

fun find_parts :: "folder_map \<Rightarrow> string option \<Rightarrow> string list \<Rightarrow> string option option" where
  "find_parts m currentParentId [] = Some currentParentId"
| "find_parts m currentParentId (part # parts) =
     (case find (\<lambda>c. fo_name c = part) (getChildren m currentParentId) of
        None \<Rightarrow> None
      | Some found \<Rightarrow> find_parts m (Some (fo_id found)) parts)"

definition getFolder :: "folder_map \<Rightarrow> string \<Rightarrow> string + WorkflowFolder" where
  "getFolder m i =
     (case map_of m i of None \<Rightarrow> Inl (''Folder not found: '' @ i) | Some f \<Rightarrow> Inr f)"

definition getAllFolders :: "folder_map \<Rightarrow> WorkflowFolder list" where
  "getAllFolders m = map snd m"

definition path_parts :: "string \<Rightarrow> string list" where
  "path_parts path = filter (\<lambda>p. js_trim p \<noteq> []) (js_split (CHR ''/'') path)"

definition findFolderByPath :: "folder_map \<Rightarrow> string \<Rightarrow> string + WorkflowFolder" where
  "findFolderByPath m path =
     (if path_parts path = [] then Inl ''Invalid path''
      else case find_parts m None (path_parts path) of
        None \<Rightarrow> Inl (''Folder not found at path: '' @ path)
      | Some currentParentId \<Rightarrow>
          if \<not> truthy currentParentId then Inl ''Folder not found'' else getFolder m (the currentParentId))"

declare calculateDepth.simps [code] getFolderPath.simps [code] getFolderAncestors.simps [code]
  descendants_of.simps [code] child_depths.simps [code] build_nodes.simps [code]

end
