(* ===== verification/Folder_Operations.thy ===== *)
theory Folder_Operations
  imports Workflow_Folders
begin

text \<open>
  The operations of the folder manager (frontend/src/services/workflow-folder-manager.ts): the counts
  kept in the folders, storing and loading, folders, the workflows in them, export and import. A call
  yields its result and the next state, or \<open>None\<close> if it does not come to an end; a result is \<open>Inl\<close> the
  error, or \<open>Inr\<close> the folder or the warnings. The stack that a recursion exhausts is an error that importing,
  loading and listing workflows catch, as modelled; for creating, updating, moving and deleting, which catch it halfway, it is \<open>None\<close> too. Times and the random part of an identifier are
  arguments; a call has one time, although the code reads the clock at every change.
\<close>

section \<open>State\<close>

record FolderStorageData =
  fd_folders :: folder_map
  fd_associations :: "FolderAssociation list"
  fd_version :: string
  fd_lastModified :: millis

text \<open>\<open>fm_storage\<close> is the item in the local storage, \<open>fm_writable\<close> whether setting it succeeds.\<close>

record FolderManager =
  fm_folders :: folder_map
  fm_associations :: "FolderAssociation list"
  fm_autoSave :: bool
  fm_storage :: "FolderStorageData option"
  fm_writable :: bool

definition folder_STORAGE_VERSION :: string where
  "folder_STORAGE_VERSION = ''1.0.0''"

definition save_folders :: "millis \<Rightarrow> FolderManager \<Rightarrow> FolderManager" where
  "save_folders now s =
     (if \<not> fm_autoSave s \<or> \<not> fm_writable s then s
      else s\<lparr>fm_storage := Some \<lparr>fd_folders = fm_folders s, fd_associations = fm_associations s,
               fd_version = folder_STORAGE_VERSION, fd_lastModified = now\<rparr>\<rparr>)"

section \<open>Counts\<close>

definition workflows_at :: "FolderAssociation list \<Rightarrow> string \<Rightarrow> nat" where
  "workflows_at as folderId = length (filter (\<lambda>a. as_folderId a = folderId) as)"

definition set_workflowCount :: "nat \<Rightarrow> WorkflowFolder \<Rightarrow> WorkflowFolder" where
  "set_workflowCount n f = f\<lparr>fo_metadata := (fo_metadata f)\<lparr>fmd_workflowCount := Some n\<rparr>\<rparr>"

definition set_descendantCount :: "nat \<Rightarrow> WorkflowFolder \<Rightarrow> WorkflowFolder" where
  "set_descendantCount n f = f\<lparr>fo_metadata := (fo_metadata f)\<lparr>fmd_descendantCount := Some n\<rparr>\<rparr>"

definition set_updated :: "millis \<Rightarrow> WorkflowFolder \<Rightarrow> WorkflowFolder" where
  "set_updated now f = f\<lparr>fo_metadata := (fo_metadata f)\<lparr>fmd_updated := now\<rparr>\<rparr>"

definition store_workflowCount :: "FolderAssociation list \<Rightarrow> millis \<Rightarrow> string \<Rightarrow> WorkflowFolder \<Rightarrow> folder_map \<Rightarrow> folder_map" where
  "store_workflowCount as now i f m = map_set i (set_updated now (set_workflowCount (workflows_at as i) f)) m"

definition store_descendantCount :: "millis \<Rightarrow> string \<Rightarrow> WorkflowFolder \<Rightarrow> nat \<Rightarrow> folder_map \<Rightarrow> folder_map" where
  "store_descendantCount now i f n m = map_set i (set_updated now (set_descendantCount n f)) m"

partial_function (option) updateWorkflowCounts ::
  "FolderAssociation list \<Rightarrow> millis \<Rightarrow> string option \<Rightarrow> folder_map \<Rightarrow> folder_map option" where
  "updateWorkflowCounts as now folderId m =
     (case folderId of None \<Rightarrow> Some m | Some i \<Rightarrow>
        if i = [] then Some m
        else (case map_of m i of
          None \<Rightarrow> Some m
        | Some f \<Rightarrow>
            if truthy (fo_parentId f)
            then updateWorkflowCounts as now (fo_parentId f) (store_workflowCount as now i f m)
            else Some (store_workflowCount as now i f m)))"

partial_function (option) updateDescendantCounts ::
  "millis \<Rightarrow> string option \<Rightarrow> folder_map \<Rightarrow> folder_map option" where
  "updateDescendantCounts now folderId m =
     (case folderId of None \<Rightarrow> Some m | Some i \<Rightarrow>
        if i = [] then Some m
        else (case map_of m i of
          None \<Rightarrow> Some m
        | Some f \<Rightarrow>
            do { descendants \<leftarrow> getFolderDescendants m i;
                 if truthy (fo_parentId f)
                 then updateDescendantCounts now (fo_parentId f) (store_descendantCount now i f (length descendants) m)
                 else Some (store_descendantCount now i f (length descendants) m) }))"

text \<open>
  The last loop of \<open>recalculateAllCounts\<close>, over the entries in the order of their depths. A recursion of
  \<open>getFolderDescendants\<close> that does not end exhausts the stack and throws a \<open>RangeError\<close>: the loop stops with
  the counts written so far, and the first component says whether it came to its end.
\<close>

fun recount_descendants :: "folder_map \<Rightarrow> (string \<times> WorkflowFolder) list \<Rightarrow> bool \<times> folder_map" where
  "recount_descendants m [] = (True, m)"
| "recount_descendants m ((i, f) # byDepth) =
     (case getFolderDescendants m (fo_id f) of
        None \<Rightarrow> (False, m)
      | Some descendants \<Rightarrow> recount_descendants (map_set i (set_descendantCount (length descendants) f) m) byDepth)"

fun depths_of :: "folder_map \<Rightarrow> (string \<times> WorkflowFolder) list \<Rightarrow> (nat \<times> string \<times> WorkflowFolder) list option" where
  "depths_of m [] = Some []"
| "depths_of m ((i, f) # es) =
     do { d \<leftarrow> calculateDepth m (Some (fo_id f)) 0; rest \<leftarrow> depths_of m es; Some ((d, i, f) # rest) }"

text \<open>
  The depths are computed by the comparator of \<open>sort\<close>, which is called for every entry if there are
  two or more and not at all otherwise. \<open>None\<close>: a climb to the root never ends.
\<close>

definition recalculateAllCounts :: "FolderAssociation list \<Rightarrow> folder_map \<Rightarrow> (bool \<times> folder_map) option" where
  "recalculateAllCounts as m =
     (let m1 = map (\<lambda>(i, f). (i, set_workflowCount (workflows_at as (fo_id f)) f)) m in
      do { byDepth \<leftarrow> (if length m1 < 2 then Some m1
             else do { depths \<leftarrow> depths_of m1 m1; Some (map snd (sort_key (\<lambda>(d, e). - int d) depths)) });
           Some (recount_descendants m1 byDepth) })"

text \<open>What \<open>recalculateAllCounts\<close> throws is only logged: the folders and associations are set by then.\<close>

definition loadFromStorage :: "FolderManager \<Rightarrow> FolderManager option" where
  "loadFromStorage s =
     (case fm_storage s of None \<Rightarrow> Some s | Some data \<Rightarrow>
        do { (ok, m) \<leftarrow> recalculateAllCounts (fd_associations data) (fd_folders data);
             Some (s\<lparr>fm_folders := m, fm_associations := fd_associations data\<rparr>) })"

text \<open>A new manager over what is stored.\<close>

definition new_manager :: "FolderStorageData option \<Rightarrow> bool \<Rightarrow> FolderManager option" where
  "new_manager stored writable =
     loadFromStorage \<lparr>fm_folders = [], fm_associations = [], fm_autoSave = True,
       fm_storage = stored, fm_writable = writable\<rparr>"

section \<open>Workflows in folders\<close>

definition removeWorkflowFromFolder :: "millis \<Rightarrow> string \<Rightarrow> FolderManager \<Rightarrow> (string list \<times> FolderManager) option" where
  "removeWorkflowFromFolder now workflowId s =
     (case find (\<lambda>a. as_workflowId a = workflowId) (fm_associations s) of
        None \<Rightarrow> Some ([''Workflow not in any folder''], s)
      | Some association \<Rightarrow>
          (let as = remove1 association (fm_associations s) in
           do { m \<leftarrow> updateWorkflowCounts as now (Some (as_folderId association)) (fm_folders s);
                Some ([], save_folders now (s\<lparr>fm_folders := m, fm_associations := as\<rparr>)) }))"

definition addWorkflowToFolder ::
  "millis \<Rightarrow> string \<Rightarrow> string \<Rightarrow> FolderManager \<Rightarrow> ((string + string list) \<times> FolderManager) option" where
  "addWorkflowToFolder now workflowId folderId s =
     (if folderId \<notin> set (map fst (fm_folders s)) then Some (Inl (''Folder not found: '' @ folderId), s)
      else
        let existing = find (\<lambda>a. as_workflowId a = workflowId) (fm_associations s) in
        if (case existing of None \<Rightarrow> False | Some a \<Rightarrow> as_folderId a = folderId) then
          Some (Inr [''Workflow already in this folder''], s)
        else do {
          (ws, s1) \<leftarrow> (if existing \<noteq> None then removeWorkflowFromFolder now workflowId s else Some ([], s));
          let as = fm_associations s1 @ [\<lparr>as_workflowId = workflowId, as_folderId = folderId, as_addedAt = now\<rparr>];
          m \<leftarrow> updateWorkflowCounts as now (Some folderId) (fm_folders s1);
          Some (Inr [], save_folders now (s1\<lparr>fm_folders := m, fm_associations := as\<rparr>)) })"

definition moveWorkflow ::
  "millis \<Rightarrow> string \<Rightarrow> string \<Rightarrow> FolderManager \<Rightarrow> ((string + string list) \<times> FolderManager) option" where
  "moveWorkflow now workflowId newFolderId s = addWorkflowToFolder now workflowId newFolderId s"

definition getWorkflowFolder :: "FolderManager \<Rightarrow> string \<Rightarrow> string + WorkflowFolder" where
  "getWorkflowFolder s workflowId =
     (case find (\<lambda>a. as_workflowId a = workflowId) (fm_associations s) of
        None \<Rightarrow> Inl (''Workflow not in any folder: '' @ workflowId)
      | Some association \<Rightarrow> getFolder (fm_folders s) (as_folderId association))"

definition getWorkflowsInFolder :: "FolderManager \<Rightarrow> string \<Rightarrow> bool \<Rightarrow> string + string list" where
  "getWorkflowsInFolder s folderId recursive =
     (if folderId \<notin> set (map fst (fm_folders s)) then Inl (''Folder not found: '' @ folderId)
      else case (if recursive then getFolderDescendants (fm_folders s) folderId else Some []) of
          None \<Rightarrow> Inl ''Failed to get workflows: Maximum call stack size exceeded''
        | Some descendants \<Rightarrow>
            Inr (uniq (concat (map (\<lambda>i. map as_workflowId (filter (\<lambda>a. as_folderId a = i) (fm_associations s)))
              (folderId # map fo_id descendants)))))"

definition cleanupOrphanedWorkflows :: "millis \<Rightarrow> FolderManager \<Rightarrow> nat \<times> FolderManager" where
  "cleanupOrphanedWorkflows now s =
     (let valid = (\<lambda>a. as_folderId a \<in> set (map fst (fm_folders s)));
          orphaned = filter (\<lambda>a. \<not> valid a) (fm_associations s);
          s1 = s\<lparr>fm_associations := filter valid (fm_associations s)\<rparr> in
      (length orphaned, if orphaned \<noteq> [] then save_folders now s1 else s1))"

section \<open>Folders\<close>

record CreateFolderOptions =
  cr_name :: string
  cr_parentId :: "string option"
  cr_color :: "string option"
  cr_icon :: "string option"
  cr_description :: "string option"
  cr_order :: "int option"

record UpdateFolderOptions =
  up_name :: "string option"
  up_parentId :: "string option option"
  up_color :: "string option"
  up_icon :: "string option"
  up_description :: "string option"
  up_order :: "int option"

definition folder_generateId :: "millis \<Rightarrow> string \<Rightarrow> string" where
  "folder_generateId now random = ''folder-'' @ int_string now @ ''-'' @ random"

definition new_folder :: "folder_map \<Rightarrow> CreateFolderOptions \<Rightarrow> millis \<Rightarrow> string \<Rightarrow> WorkflowFolder" where
  "new_folder m options now random =
     \<lparr>fo_id = folder_generateId now random,
      fo_name = js_trim (cr_name options),
      fo_parentId = or_null (cr_parentId options),
      fo_color = cr_color options,
      fo_icon = cr_icon options,
      fo_description = map_option js_trim (cr_description options),
      fo_metadata = \<lparr>fmd_created = now, fmd_updated = now, fmd_workflowCount = Some 0, fmd_descendantCount = Some 0\<rparr>,
      fo_order = Some (case cr_order options of Some n \<Rightarrow> n | None \<Rightarrow> getNextOrder m (cr_parentId options))\<rparr>"

definition createFolder ::
  "millis \<Rightarrow> string \<Rightarrow> CreateFolderOptions \<Rightarrow> FolderManager \<Rightarrow> ((string + WorkflowFolder) \<times> FolderManager) option" where
  "createFolder now random options s =
     (let m = fm_folders s in
      case validateFolderName m (cr_name options) (cr_parentId options) None of
        Some e \<Rightarrow> Some (Inl e, s)
      | None \<Rightarrow>
          if truthy (cr_parentId options) \<and> the (cr_parentId options) \<notin> set (map fst m) then
            Some (Inl (''Parent folder not found: '' @ the (cr_parentId options)), s)
          else do {
            depth \<leftarrow> calculateDepth m (cr_parentId options) 0;
            if depth \<ge> folder_maxDepth then
              Some (Inl (''Maximum folder depth ('' @ nat_string folder_maxDepth @ '') exceeded''), s)
            else
              let folder = new_folder m options now random in
              case look_error (fo_color folder) (fo_icon folder) of
                Some e \<Rightarrow> Some (Inl e, s)
              | None \<Rightarrow> do {
                  m' \<leftarrow> updateDescendantCounts now (fo_parentId folder) (map_set (fo_id folder) folder m);
                  Some (Inr folder, save_folders now (s\<lparr>fm_folders := m'\<rparr>)) } })"

definition updated_folder :: "UpdateFolderOptions \<Rightarrow> millis \<Rightarrow> WorkflowFolder \<Rightarrow> WorkflowFolder" where
  "updated_folder updates now f =
     f\<lparr>fo_name := (case up_name updates of Some n \<Rightarrow> js_trim n | None \<Rightarrow> fo_name f),
       fo_parentId := (case up_parentId updates of Some p \<Rightarrow> p | None \<Rightarrow> fo_parentId f),
       fo_color := (case up_color updates of Some c \<Rightarrow> Some c | None \<Rightarrow> fo_color f),
       fo_icon := (case up_icon updates of Some i \<Rightarrow> Some i | None \<Rightarrow> fo_icon f),
       fo_description := (case up_description updates of Some d \<Rightarrow> Some (js_trim d) | None \<Rightarrow> fo_description f),
       fo_order := (case up_order updates of Some n \<Rightarrow> Some n | None \<Rightarrow> fo_order f),
       fo_metadata := (fo_metadata f)\<lparr>fmd_updated := now\<rparr>\<rparr>"

definition updateFolder ::
  "millis \<Rightarrow> string \<Rightarrow> UpdateFolderOptions \<Rightarrow> FolderManager \<Rightarrow> ((string + WorkflowFolder) \<times> FolderManager) option" where
  "updateFolder now i updates s =
     (let m = fm_folders s in
      case map_of m i of
        None \<Rightarrow> Some (Inl (''Folder not found: '' @ i), s)
      | Some folder \<Rightarrow>
          case (case up_name updates of None \<Rightarrow> None | Some n \<Rightarrow> validateFolderName m n (fo_parentId folder) (Some i)) of
            Some e \<Rightarrow> Some (Inl e, s)
          | None \<Rightarrow> do {
              moveError \<leftarrow> (case up_parentId updates of None \<Rightarrow> Some None | Some p \<Rightarrow>
                 if p = fo_parentId folder then Some None else canMoveFolder m i p);
              case moveError of Some e \<Rightarrow> Some (Inl e, s)
              | None \<Rightarrow>
                  case look_error (up_color updates) (up_icon updates) of
                    Some e \<Rightarrow> Some (Inl e, s)
                  | None \<Rightarrow>
                      let folder' = updated_folder updates now folder;
                          m1 = map_set i folder' m in
                      do { m' \<leftarrow> (if fo_parentId folder = fo_parentId folder' then Some m1
                              else do { m2 \<leftarrow> updateDescendantCounts now (fo_parentId folder) m1;
                                        updateDescendantCounts now (fo_parentId folder') m2 });
                           Some (Inr folder', save_folders now (s\<lparr>fm_folders := m'\<rparr>)) } })"

definition moveFolder ::
  "millis \<Rightarrow> string \<Rightarrow> string option \<Rightarrow> FolderManager \<Rightarrow> ((string + WorkflowFolder) \<times> FolderManager) option" where
  "moveFolder now folderId newParentId s =
     (case map_of (fm_folders s) folderId of
        None \<Rightarrow> Some (Inl (''Folder not found: '' @ folderId), s)
      | Some folder \<Rightarrow> do {
          moveError \<leftarrow> canMoveFolder (fm_folders s) folderId newParentId;
          case moveError of
            Some e \<Rightarrow> Some (Inl e, s)
          | None \<Rightarrow> updateFolder now folderId
              \<lparr>up_name = None, up_parentId = Some newParentId, up_color = None, up_icon = None,
               up_description = None, up_order = None\<rparr> s })"

text \<open>The workflows of a folder that is deleted: moved to a folder, or removed.\<close>

fun release_each :: "millis \<Rightarrow> string option \<Rightarrow> string list \<Rightarrow> FolderManager \<Rightarrow> FolderManager option" where
  "release_each now moveTo [] s = Some s"
| "release_each now moveTo (w # ws) s =
     do { s1 \<leftarrow> (case moveTo of
            None \<Rightarrow> map_option snd (removeWorkflowFromFolder now w s)
          | Some t \<Rightarrow> map_option snd (moveWorkflow now w t s));
          release_each now moveTo ws s1 }"

definition release_workflows :: "millis \<Rightarrow> string option \<Rightarrow> string \<Rightarrow> FolderManager \<Rightarrow> FolderManager option" where
  "release_workflows now moveTo i s =
     release_each now moveTo (case getWorkflowsInFolder s i False of Inl e \<Rightarrow> [] | Inr ws \<Rightarrow> ws) s"

definition remove_folder :: "millis \<Rightarrow> string \<Rightarrow> string option \<Rightarrow> FolderManager \<Rightarrow> FolderManager option" where
  "remove_folder now i parentId s =
     do { m \<leftarrow> updateDescendantCounts now parentId (filter (\<lambda>(j, f). j \<noteq> i) (fm_folders s));
          Some (save_folders now (s\<lparr>fm_folders := m\<rparr>)) }"

text \<open>The loop over the children, with the recursive calls of \<open>deleteFolder\<close>.\<close>

partial_function (option) delete_children ::
  "millis \<Rightarrow> string option \<Rightarrow> WorkflowFolder list \<Rightarrow> FolderManager \<Rightarrow> FolderManager option" where
  "delete_children now moveTo children s =
     (case children of [] \<Rightarrow> Some s | c # cs \<Rightarrow>
        (case map_of (fm_folders s) (fo_id c) of
           None \<Rightarrow> delete_children now moveTo cs s
         | Some folder \<Rightarrow>
             do { s1 \<leftarrow> release_workflows now moveTo (fo_id c) s;
                  s2 \<leftarrow> delete_children now moveTo (getChildren (fm_folders s) (Some (fo_id c))) s1;
                  s3 \<leftarrow> remove_folder now (fo_id c) (fo_parentId folder) s2;
                  delete_children now moveTo cs s3 }))"

definition deleteFolder ::
  "millis \<Rightarrow> string \<Rightarrow> bool \<Rightarrow> string option \<Rightarrow> FolderManager \<Rightarrow> ((string + WorkflowFolder) \<times> FolderManager) option" where
  "deleteFolder now i recursive moveTo s =
     (case map_of (fm_folders s) i of
        None \<Rightarrow> Some (Inl (''Folder not found: '' @ i), s)
      | Some folder \<Rightarrow>
          let children = getChildren (fm_folders s) (Some i) in
          if children \<noteq> [] \<and> \<not> recursive then
            Some (Inl (''Folder has '' @ nat_string (length children)
              @ '' subfolder(s). Use recursive option to delete.''), s)
          else do {
            s1 \<leftarrow> release_workflows now moveTo i s;
            s2 \<leftarrow> (if recursive then delete_children now moveTo children s1 else Some s1);
            s3 \<leftarrow> remove_folder now i (fo_parentId folder) s2;
            Some (case map_of (fm_folders s2) i of None \<Rightarrow> Inr folder | Some f \<Rightarrow> Inr f, s3) })"

section \<open>Everything at once\<close>

definition clearFolders :: "millis \<Rightarrow> FolderManager \<Rightarrow> FolderManager" where
  "clearFolders now s = save_folders now (s\<lparr>fm_folders := [], fm_associations := []\<rparr>)"

definition setAutoSave :: "bool \<Rightarrow> FolderManager \<Rightarrow> FolderManager" where
  "setAutoSave enabled s = s\<lparr>fm_autoSave := enabled\<rparr>"

record ImportExportData =
  ie_folders :: "WorkflowFolder list"
  ie_associations :: "FolderAssociation list"
  ie_exportedAt :: millis
  ie_exportedBy :: string
  ie_version :: string

record MigrationResult =
  mr_success :: bool
  mr_migratedFolders :: nat
  mr_migratedAssociations :: nat
  mr_errors :: "string list"
  mr_warnings :: "string list"

definition exportFolders :: "millis \<Rightarrow> FolderManager \<Rightarrow> ImportExportData" where
  "exportFolders now s =
     \<lparr>ie_folders = map snd (fm_folders s), ie_associations = fm_associations s,
      ie_exportedAt = now, ie_exportedBy = ''Qontinui'', ie_version = folder_STORAGE_VERSION\<rparr>"

definition import_folder :: "bool \<Rightarrow> WorkflowFolder \<Rightarrow> folder_map \<times> MigrationResult \<Rightarrow> folder_map \<times> MigrationResult" where
  "import_folder merge f st =
     (case st of (m, r) \<Rightarrow>
        if fo_id f \<in> set (map fst m) \<and> merge then
          (m, r\<lparr>mr_warnings := mr_warnings r @ [''Skipped duplicate folder: '' @ fo_name f @ '' ('' @ fo_id f @ '')'']\<rparr>)
        else (map_set (fo_id f) f m, r\<lparr>mr_migratedFolders := mr_migratedFolders r + 1\<rparr>))"

definition import_association ::
  "bool \<Rightarrow> FolderAssociation \<Rightarrow> FolderAssociation list \<times> MigrationResult \<Rightarrow> FolderAssociation list \<times> MigrationResult" where
  "import_association merge a st =
     (case st of (as, r) \<Rightarrow>
        if list_ex (\<lambda>b. as_workflowId b = as_workflowId a \<and> as_folderId b = as_folderId a) as then
          (as, if merge then r\<lparr>mr_warnings := mr_warnings r
                 @ [''Skipped duplicate association for workflow: '' @ as_workflowId a]\<rparr> else r)
        else (as @ [a], r\<lparr>mr_migratedAssociations := mr_migratedAssociations r + 1\<rparr>))"

definition importFolders :: "millis \<Rightarrow> ImportExportData \<Rightarrow> bool \<Rightarrow> FolderManager \<Rightarrow> (MigrationResult \<times> FolderManager) option" where
  "importFolders now data merge s =
     (let start = \<lparr>mr_success = True, mr_migratedFolders = 0, mr_migratedAssociations = 0, mr_errors = [], mr_warnings = []\<rparr>;
          (m, r1) = fold (import_folder merge) (ie_folders data) (if merge then fm_folders s else [], start);
          (as, r2) = fold (import_association merge) (ie_associations data) (if merge then fm_associations s else [], r1) in
      do { (ok, m') \<leftarrow> recalculateAllCounts as m;
           let s' = s\<lparr>fm_folders := m', fm_associations := as\<rparr>;
           Some (if ok then (r2, save_folders now s')
             else (r2\<lparr>mr_success := False, mr_errors := [''Import failed: Maximum call stack size exceeded'']\<rparr>, s')) })"

declare updateWorkflowCounts.simps [code] updateDescendantCounts.simps [code] delete_children.simps [code]

end
