(* ===== verification/Folder_Hierarchy.thy ===== *)
theory Folder_Hierarchy
  imports Workflow_Folders
begin

text \<open>
  The hierarchy of folders: maps of folders in which every parent exists and every climb ends
  within ten folders, the parent relation with its depths, and what the climbing loops and the
  descending recursions of Workflow_Folders compute on them.
\<close>

section \<open>Forests\<close>

definition folder_ok :: "folder_map \<Rightarrow> string \<Rightarrow> WorkflowFolder \<Rightarrow> bool" where
  "folder_ok m i f =
     (fo_id f = i \<and> i \<noteq> []
      \<and> (case fo_parentId f of None \<Rightarrow> True | Some p \<Rightarrow> p \<in> set (map fst m))
      \<and> (case calculateDepth m (Some i) 0 of None \<Rightarrow> False | Some n \<Rightarrow> n \<le> folder_maxDepth))"

definition folder_forest :: "folder_map \<Rightarrow> bool" where
  "folder_forest m = (distinct (map fst m) \<and> list_all (\<lambda>(i, f). folder_ok m i f) m)"

text \<open>The depth of a folder as a relation, and the parent relation.\<close>

inductive at_depth :: "folder_map \<Rightarrow> string option \<Rightarrow> nat \<Rightarrow> bool" for m where
  at_top: "\<not> truthy cur \<Longrightarrow> at_depth m cur 0"
| at_missing: "map_of m i = None \<Longrightarrow> at_depth m (Some i) 0"
| at_up: "i \<noteq> [] \<Longrightarrow> map_of m i = Some f \<Longrightarrow> at_depth m (fo_parentId f) n \<Longrightarrow> at_depth m (Some i) (Suc n)"

inductive_cases at_depth_SomeE: "at_depth m (Some i) n"

definition parent_of :: "folder_map \<Rightarrow> (string \<times> string) set" where
  "parent_of m = {(i, p). \<exists>f. map_of m i = Some f \<and> fo_parentId f = Some p}"

definition folder_depth :: "folder_map \<Rightarrow> string \<Rightarrow> nat" where
  "folder_depth m i = the (calculateDepth m (Some i) 0)"

lemma calculateDepth_step:
  "calculateDepth m None d = Some d"
  "calculateDepth m (Some []) d = Some d"
  "map_of m i = None \<Longrightarrow> calculateDepth m (Some i) d = Some d"
  "i \<noteq> [] \<Longrightarrow> map_of m i = Some f \<Longrightarrow> calculateDepth m (Some i) d = calculateDepth m (fo_parentId f) (Suc d)"
  by (subst calculateDepth.simps, simp)+

lemma at_depth_computes: "at_depth m cur n \<Longrightarrow> calculateDepth m cur d = Some (d + n)"
proof (induction arbitrary: d rule: at_depth.induct)
  case (at_top cur)
  then show ?case by (cases cur) (auto simp: calculateDepth_step)
qed (simp_all add: calculateDepth_step)

lemma computes_at_depth:
  assumes "calculateDepth m cur d = Some e"
  shows "d \<le> e \<and> at_depth m cur (e - d)"
proof (rule calculateDepth.raw_induct [of "\<lambda>m cur d e. d \<le> e \<and> at_depth m cur (e - d)", OF _ assms])
  fix rec :: "folder_map \<Rightarrow> string option \<Rightarrow> nat \<Rightarrow> nat option" and m cur d e
  assume IH: "\<And>m cur d e. rec m cur d = Some e \<Longrightarrow> d \<le> e \<and> at_depth m cur (e - d)"
    and body: "(case cur of None \<Rightarrow> Some d | Some i \<Rightarrow> if i = [] then Some d else
      case map_of m i of None \<Rightarrow> Some d | Some f \<Rightarrow> rec m (fo_parentId f) (d + 1)) = Some e"
  consider "\<not> truthy cur" | i where "cur = Some i" "i \<noteq> []" "map_of m i = None"
    | i f where "cur = Some i" "i \<noteq> []" "map_of m i = Some f"
    by (cases cur) auto
  then show "d \<le> e \<and> at_depth m cur (e - d)"
  proof cases
    case 1
    then have "e = d" using body by (cases cur) (auto simp: truthy_def)
    then show ?thesis using 1 by (simp add: at_top)
  next
    case 2
    then show ?thesis using body by (simp add: at_missing)
  next
    case 3
    then have "rec m (fo_parentId f) (d + 1) = Some e" using body by simp
    then have up: "d + 1 \<le> e" "at_depth m (fo_parentId f) (e - (d + 1))" using IH by blast+
    then have "at_depth m (Some i) (Suc (e - (d + 1)))" using 3 by (blast intro: at_up)
    then show ?thesis using up(1) 3(1) by (simp add: Suc_diff_Suc)
  qed
qed

lemma calculateDepth_shift: "calculateDepth m cur 0 = Some n \<longleftrightarrow> at_depth m cur n"
  using at_depth_computes [of m cur n 0] computes_at_depth [of m cur 0 n] by auto

section \<open>The parent relation of a forest\<close>

lemma forest_distinct: "folder_forest m \<Longrightarrow> distinct (map fst m)"
  by (simp add: folder_forest_def)

lemma forest_ok: "folder_forest m \<Longrightarrow> map_of m i = Some f \<Longrightarrow> folder_ok m i f"
  by (auto simp: folder_forest_def list_all_iff dest: map_of_SomeD)

lemma forest_idD: "folder_forest m \<Longrightarrow> map_of m i = Some f \<Longrightarrow> fo_id f = i \<and> i \<noteq> []"
  using forest_ok by (auto simp: folder_ok_def)

lemma forest_parentD:
  assumes "folder_forest m" and "map_of m i = Some f" and "fo_parentId f = Some p"
  shows "\<exists>g. map_of m p = Some g"
proof -
  have "p \<in> set (map fst m)" using forest_ok [OF assms(1,2)] assms(3) by (simp add: folder_ok_def)
  then have "map_of m p \<noteq> None" by (simp add: map_of_eq_None_iff)
  then show ?thesis by simp
qed

lemma forest_depth:
  assumes "folder_forest m" and "map_of m i = Some f"
  shows "calculateDepth m (Some i) 0 = Some (folder_depth m i)" and "folder_depth m i \<le> folder_maxDepth"
    and "at_depth m (Some i) (folder_depth m i)"
proof -
  obtain n where n: "calculateDepth m (Some i) 0 = Some n" "n \<le> folder_maxDepth"
    using forest_ok [OF assms] by (auto simp: folder_ok_def split: option.splits)
  then show "calculateDepth m (Some i) 0 = Some (folder_depth m i)" and "folder_depth m i \<le> folder_maxDepth"
    by (simp_all add: folder_depth_def)
  then show "at_depth m (Some i) (folder_depth m i)" by (simp add: calculateDepth_shift)
qed

lemma parent_ofD:
  assumes "folder_forest m" and "(i, p) \<in> parent_of m"
  obtains f g where "map_of m i = Some f" "fo_parentId f = Some p" "map_of m p = Some g" "p \<noteq> []"
proof -
  obtain f where f: "map_of m i = Some f" "fo_parentId f = Some p" using assms(2) by (auto simp: parent_of_def)
  obtain g where g: "map_of m p = Some g" using forest_parentD [OF assms(1) f] by blast
  then have "p \<noteq> []" using forest_idD [OF assms(1)] by blast
  then show thesis by (rule that [OF f g])
qed

lemma parent_of_depth:
  assumes "folder_forest m" and "(i, p) \<in> parent_of m"
  shows "folder_depth m i = Suc (folder_depth m p)"
proof -
  obtain f g where o: "map_of m i = Some f" "fo_parentId f = Some p" "map_of m p = Some g"
    using parent_ofD [OF assms] by blast
  have "at_depth m (Some i) (Suc (folder_depth m p))"
    using forest_depth(3) [OF assms(1) o(3)] o forest_idD [OF assms(1) o(1)] by (auto intro: at_up)
  then show ?thesis by (simp add: calculateDepth_shift [symmetric] folder_depth_def)
qed

lemma root_depth:
  assumes "folder_forest m" and "map_of m i = Some f" and "fo_parentId f = None"
  shows "folder_depth m i = 1"
proof -
  have "i \<noteq> []" using forest_idD [OF assms(1,2)] by simp
  then have "at_depth m (Some i) (Suc 0)"
    by (rule at_up [OF _ assms(2)]) (simp add: assms(3) at_top)
  then show ?thesis by (simp add: calculateDepth_shift [symmetric] folder_depth_def)
qed

lemma ancestors_trancl_depth:
  "(i, j) \<in> (parent_of m)\<^sup>+ \<Longrightarrow> folder_forest m \<Longrightarrow> folder_depth m j < folder_depth m i"
  by (induction rule: trancl_induct) (auto dest: parent_of_depth)

lemma ancestors_rtrancl_depth:
  "(i, j) \<in> (parent_of m)\<^sup>* \<Longrightarrow> folder_forest m \<Longrightarrow> i = j \<or> folder_depth m j < folder_depth m i"
  by (metis ancestors_trancl_depth rtranclD)

lemma parent_of_functional: "(i, p) \<in> parent_of m \<Longrightarrow> (i, q) \<in> parent_of m \<Longrightarrow> p = q"
  by (auto simp: parent_of_def)

lemma ancestors_comparable:
  assumes "(i, a) \<in> (parent_of m)\<^sup>*" and "(i, b) \<in> (parent_of m)\<^sup>*"
  shows "(a, b) \<in> (parent_of m)\<^sup>* \<or> (b, a) \<in> (parent_of m)\<^sup>*"
  using assms
proof (induction rule: rtrancl_induct)
  case (step a c)
  then consider "(a, b) \<in> (parent_of m)\<^sup>*" | "(b, a) \<in> (parent_of m)\<^sup>*" by blast
  then show ?case
  proof cases
    case 1
    then show ?thesis
    proof (cases rule: converse_rtranclE)
      case (step d)
      then show ?thesis using \<open>(a, c) \<in> parent_of m\<close> parent_of_functional by blast
    qed (use step in auto)
  next
    case 2
    then show ?thesis using step(2) by (auto intro: rtrancl_into_rtrancl)
  qed
qed auto

lemma ancestors_known: "(i, j) \<in> (parent_of m)\<^sup>* \<Longrightarrow> folder_forest m \<Longrightarrow> map_of m j = Some g \<Longrightarrow> \<exists>f. map_of m i = Some f"
  by (induction rule: converse_rtrancl_induct) (auto simp: parent_of_def)

section \<open>Children and descendants\<close>

lemma set_getChildren: "set (getChildren m p) = {f \<in> snd ` set m. fo_parentId f = p}"
  by (auto simp: getChildren_def)

lemma mem_getChildren:
  assumes "folder_forest m"
  shows "f \<in> set (getChildren m p) \<longleftrightarrow> map_of m (fo_id f) = Some f \<and> fo_parentId f = p"
proof -
  have "f \<in> snd ` set m \<longleftrightarrow> map_of m (fo_id f) = Some f"
  proof
    assume "f \<in> snd ` set m"
    then obtain i where i: "(i, f) \<in> set m" by auto
    then have "map_of m i = Some f" using forest_distinct [OF assms] by simp
    then show "map_of m (fo_id f) = Some f" using forest_idD [OF assms] by metis
  qed (auto dest: map_of_SomeD intro: rev_image_eqI)
  then show ?thesis by (auto simp: set_getChildren)
qed

lemma forest_ids: "folder_forest m \<Longrightarrow> map fo_id (map snd m) = map fst m"
  by (auto simp: folder_forest_def list_all_iff folder_ok_def)

lemma distinct_getChildren:
  assumes "folder_forest m"
  shows "distinct (map fo_id (getChildren m p))"
proof -
  have "distinct (map fo_id (filter (\<lambda>f. fo_parentId f = p) (map snd m)))"
    using forest_ids [OF assms] forest_distinct [OF assms] by (metis distinct_map_filter)
  moreover have "mset (map fo_id (getChildren m p)) = mset (map fo_id (filter (\<lambda>f. fo_parentId f = p) (map snd m)))"
    by (simp add: getChildren_def)
  ultimately show ?thesis by (metis mset_eq_imp_distinct_iff)
qed

definition below :: "folder_map \<Rightarrow> string \<Rightarrow> string set" where
  "below m i = {j. (j, i) \<in> (parent_of m)\<^sup>+}"

definition at_or_below :: "folder_map \<Rightarrow> string \<Rightarrow> string set" where
  "at_or_below m i = {j. (j, i) \<in> (parent_of m)\<^sup>*}"

lemma at_or_below_insert: "at_or_below m i = insert i (below m i)"
  by (auto simp: at_or_below_def below_def dest: rtranclD)

lemma below_children:
  assumes "folder_forest m"
  shows "below m i = (\<Union>c\<in>set (getChildren m (Some i)). at_or_below m (fo_id c))"
proof -
  have child: "(c, i) \<in> parent_of m \<longleftrightarrow> (\<exists>f\<in>set (getChildren m (Some i)). fo_id f = c)" for c
  proof
    assume "(c, i) \<in> parent_of m"
    then obtain f where f: "map_of m c = Some f" "fo_parentId f = Some i" by (auto simp: parent_of_def)
    then have "fo_id f = c" using forest_idD [OF assms] by blast
    then show "\<exists>f\<in>set (getChildren m (Some i)). fo_id f = c" using mem_getChildren [OF assms] f by auto
  qed (auto simp: parent_of_def mem_getChildren [OF assms])
  have "(j, i) \<in> (parent_of m)\<^sup>+ \<longleftrightarrow> (\<exists>c. (j, c) \<in> (parent_of m)\<^sup>* \<and> (c, i) \<in> parent_of m)" for j
    by (auto dest: tranclD2 intro: rtrancl_into_trancl1)
  then show ?thesis by (auto simp: below_def at_or_below_def child)
qed

lemma at_or_below_disjoint:
  assumes "folder_forest m" and "folder_depth m a = folder_depth m b" and "a \<noteq> b"
  shows "at_or_below m a \<inter> at_or_below m b = {}"
  using assms ancestors_comparable ancestors_rtrancl_depth unfolding at_or_below_def by fastforce

lemma child_depth:
  assumes "folder_forest m" and "c \<in> set (getChildren m (Some i))"
  shows "folder_depth m (fo_id c) = Suc (folder_depth m i)"
  using assms mem_getChildren parent_of_depth by (auto simp: parent_of_def)

lemma descendants_of_step:
  "descendants_of m [] = Some []"
  "descendants_of m (c # cs) =
     do { ds \<leftarrow> descendants_of m (getChildren m (Some (fo_id c)));
          rest \<leftarrow> descendants_of m cs; Some (c # ds @ rest) }"
  by (subst descendants_of.simps, simp)+

lemma descendants_of_exact:
  assumes "folder_forest m"
  shows "(\<forall>c\<in>set cs. map_of m (fo_id c) = Some c \<and> folder_depth m (fo_id c) = e) \<Longrightarrow> distinct (map fo_id cs)
    \<Longrightarrow> folder_maxDepth < e + k
    \<Longrightarrow> \<exists>ds. descendants_of m cs = Some ds \<and> (\<forall>d\<in>set ds. map_of m (fo_id d) = Some d)
        \<and> distinct (map fo_id ds) \<and> fo_id ` set ds = (\<Union>c\<in>set cs. at_or_below m (fo_id c))"
proof (induction k arbitrary: cs e)
  case 0
  have "False" if "c \<in> set cs" for c
    using 0(1,3) that forest_depth(2) [OF assms, of "fo_id c" c] by auto
  then have "cs = []" by (cases cs) auto
  then show ?case by (simp add: descendants_of_step)
next
  case (Suc k)
  show ?case using Suc.prems
  proof (induction cs)
    case (Cons c cs)
    let ?kids = "getChildren m (Some (fo_id c))"
    have kids: "\<forall>c'\<in>set ?kids. map_of m (fo_id c') = Some c' \<and> folder_depth m (fo_id c') = Suc e"
      using mem_getChildren [OF assms] child_depth [OF assms] Cons.prems(1) by auto
    obtain ds where ds: "descendants_of m ?kids = Some ds" "\<forall>d\<in>set ds. map_of m (fo_id d) = Some d"
      "distinct (map fo_id ds)" "fo_id ` set ds = below m (fo_id c)"
      using Suc.IH [OF kids distinct_getChildren [OF assms]] Cons.prems(3) below_children [OF assms] by auto
    obtain rest where rest: "descendants_of m cs = Some rest" "\<forall>d\<in>set rest. map_of m (fo_id d) = Some d"
      "distinct (map fo_id rest)" "fo_id ` set rest = (\<Union>c\<in>set cs. at_or_below m (fo_id c))"
      using Cons.IH Cons.prems by auto
    have self: "fo_id c \<notin> below m (fo_id c)"
      using ancestors_trancl_depth [OF _ assms] by (auto simp: below_def)
    have apart: "at_or_below m (fo_id c) \<inter> (\<Union>c\<in>set cs. at_or_below m (fo_id c)) = {}"
    proof -
      have "at_or_below m (fo_id c) \<inter> at_or_below m (fo_id c') = {}" if "c' \<in> set cs" for c'
        using that Cons.prems(1,2) by (intro at_or_below_disjoint [OF assms]) auto
      then show ?thesis by blast
    qed
    have "distinct (map fo_id (c # ds @ rest))"
      using ds(3,4) rest(3,4) self apart at_or_below_insert [of m "fo_id c"] by auto
    moreover have "fo_id ` set (c # ds @ rest) = (\<Union>c\<in>set (c # cs). at_or_below m (fo_id c))"
      using ds(4) rest(4) at_or_below_insert [of m "fo_id c"] by (simp add: image_Un)
    ultimately show ?case using ds(1,2) rest(1,2) Cons.prems(1)
      by (intro exI [of _ "c # ds @ rest"]) (auto simp: descendants_of_step)
  qed (simp add: descendants_of_step)
qed

lemma getFolderDescendants_exact:
  assumes "folder_forest m" and "map_of m i = Some f"
  shows "\<exists>ds. getFolderDescendants m i = Some ds \<and> (\<forall>d\<in>set ds. map_of m (fo_id d) = Some d)
    \<and> distinct (map fo_id ds) \<and> fo_id ` set ds = below m i"
proof -
  have "\<forall>c\<in>set (getChildren m (Some i)). map_of m (fo_id c) = Some c \<and> folder_depth m (fo_id c) = Suc (folder_depth m i)"
    using mem_getChildren [OF assms(1)] child_depth [OF assms(1)] by auto
  from descendants_of_exact [OF assms(1) this distinct_getChildren [OF assms(1)], of folder_maxDepth]
  show ?thesis by (simp add: getFolderDescendants_def below_children [OF assms(1)])
qed

section \<open>Building forests\<close>

text \<open>Depths of the folders that fit the parent links make a forest.\<close>

definition depths_fit :: "folder_map \<Rightarrow> (string \<Rightarrow> nat) \<Rightarrow> bool" where
  "depths_fit m d \<longleftrightarrow> (\<forall>i f. map_of m i = Some f \<longrightarrow> fo_id f = i \<and> i \<noteq> [] \<and> d i \<le> folder_maxDepth
     \<and> (case fo_parentId f of None \<Rightarrow> d i = 1 | Some p \<Rightarrow> map_of m p \<noteq> None \<and> d i = Suc (d p)))"

lemma depths_fitD:
  assumes "depths_fit m d" and "map_of m i = Some f"
  shows "fo_id f = i \<and> i \<noteq> [] \<and> d i \<le> folder_maxDepth"
    and "fo_parentId f = None \<Longrightarrow> d i = 1"
    and "fo_parentId f = Some p \<Longrightarrow> map_of m p \<noteq> None \<and> d i = Suc (d p)"
  using assms(1) [unfolded depths_fit_def, rule_format, OF assms(2)] by (simp_all split: option.splits)

lemma depths_fit_at_depth:
  assumes "depths_fit m d"
  shows "map_of m i = Some f \<Longrightarrow> at_depth m (Some i) (d i)"
proof (induction "d i" arbitrary: i f rule: less_induct)
  case less
  show ?case
  proof (cases "fo_parentId f")
    case None
    then have "d i = Suc 0" "i \<noteq> []" using depths_fitD [OF assms less(2)] by auto
    then show ?thesis using at_up [OF _ less(2), of 0] None by (simp add: at_top)
  next
    case (Some p)
    then have p: "map_of m p \<noteq> None" "d i = Suc (d p)" "i \<noteq> []" using depths_fitD [OF assms less(2)] by auto
    then obtain g where "map_of m p = Some g" by blast
    then have "at_depth m (Some p) (d p)" using less(1) p(2) by simp
    then show ?thesis using at_up [OF _ less(2)] p Some by simp
  qed
qed

lemma forestI:
  assumes "distinct (map fst m)" and "depths_fit m d"
  shows "folder_forest m" and "map_of m i = Some f \<Longrightarrow> folder_depth m i = d i"
proof -
  have depth: "calculateDepth m (Some i) 0 = Some (d i)" if "map_of m i = Some f" for i f
    using depths_fit_at_depth [OF assms(2) that] by (simp add: calculateDepth_shift)
  have "folder_ok m i f" if "(i, f) \<in> set m" for i f
  proof -
    have i: "map_of m i = Some f" using that assms(1) by simp
    have parent: "p \<in> set (map fst m)" if "fo_parentId f = Some p" for p
    proof -
      have "map_of m p \<noteq> None" using depths_fitD(3) [OF assms(2) i that] by simp
      then show ?thesis by (simp only: map_of_eq_None_iff) simp
    qed
    have "fo_id f = i" "i \<noteq> []" "d i \<le> folder_maxDepth" using depths_fitD(1) [OF assms(2) i] by auto
    then show ?thesis using depth [OF i] parent by (simp add: folder_ok_def split: option.split)
  qed
  then show "folder_forest m" using assms(1) by (auto simp: folder_forest_def list_all_iff)
  show "folder_depth m i = d i" if "map_of m i = Some f" using depth [OF that] by (simp add: folder_depth_def)
qed

lemma forest_fit: "folder_forest m \<Longrightarrow> depths_fit m (folder_depth m)"
  unfolding depths_fit_def
proof (intro allI impI)
  fix i f assume m: "folder_forest m" and i: "map_of m i = Some f"
  have "case fo_parentId f of None \<Rightarrow> folder_depth m i = 1
    | Some p \<Rightarrow> map_of m p \<noteq> None \<and> folder_depth m i = Suc (folder_depth m p)"
  proof (cases "fo_parentId f")
    case None
    then show ?thesis using root_depth [OF m i] by simp
  next
    case (Some p)
    have "(i, p) \<in> parent_of m" using i Some by (simp add: parent_of_def)
    then show ?thesis using parent_of_depth [OF m] forest_parentD [OF m i Some] Some by auto
  qed
  then show "fo_id f = i \<and> i \<noteq> [] \<and> folder_depth m i \<le> folder_maxDepth \<and>
     (case fo_parentId f of None \<Rightarrow> folder_depth m i = 1
      | Some p \<Rightarrow> map_of m p \<noteq> None \<and> folder_depth m i = Suc (folder_depth m p))"
    using forest_idD [OF m i] forest_depth(2) [OF m i] by simp
qed

text \<open>Only identifiers and parents matter.\<close>

definition links :: "folder_map \<Rightarrow> (string \<times> string \<times> string option) list" where
  "links m = map (\<lambda>(i, f). (i, fo_id f, fo_parentId f)) m"

definition same_links :: "folder_map \<Rightarrow> folder_map \<Rightarrow> bool" where
  "same_links m m' \<longleftrightarrow> links m = links m'"

lemma map_of_links: "map_of (links m) i = map_option (\<lambda>f. (fo_id f, fo_parentId f)) (map_of m i)"
  by (induction m) (auto simp: links_def)

lemma fst_links: "map fst (links m) = map fst m"
  by (induction m) (auto simp: links_def)

lemma same_links_lookup:
  "same_links m m' \<Longrightarrow> map_option (\<lambda>f. (fo_id f, fo_parentId f)) (map_of m i) = map_option (\<lambda>f. (fo_id f, fo_parentId f)) (map_of m' i)"
  by (simp add: same_links_def flip: map_of_links)

lemma same_links_keys: "same_links m m' \<Longrightarrow> map fst m = map fst m'"
  using fst_links [of m] fst_links [of m'] by (simp add: same_links_def)

lemma same_links_parent_of: "same_links m m' \<Longrightarrow> parent_of m = parent_of m'"
proof -
  assume a: "same_links m m'"
  have iff: "(i, p) \<in> parent_of m \<longleftrightarrow> (\<exists>j. map_option (\<lambda>f. (fo_id f, fo_parentId f)) (map_of m i) = Some (j, Some p))" for i p m
    by (auto simp: parent_of_def)
  have "(i, p) \<in> parent_of m \<longleftrightarrow> (i, p) \<in> parent_of m'" for i p
    unfolding iff same_links_lookup [OF a] ..
  then show ?thesis by auto
qed

lemma same_links_below: "same_links m m' \<Longrightarrow> below m = below m'" "same_links m m' \<Longrightarrow> at_or_below m = at_or_below m'"
  by (simp_all add: below_def at_or_below_def fun_eq_iff same_links_parent_of)

lemma same_links_forest:
  assumes a: "same_links m m'" and m: "folder_forest m"
  shows "folder_forest m'"
proof -
  have "depths_fit m' (folder_depth m)"
    unfolding depths_fit_def
  proof (intro allI impI)
    fix i f' assume f': "map_of m' i = Some f'"
    then obtain f where f: "map_of m i = Some f" "fo_id f = fo_id f'" "fo_parentId f = fo_parentId f'"
      using same_links_lookup [OF a, of i] by auto
    have known: "map_of m p \<noteq> None \<Longrightarrow> map_of m' p \<noteq> None" for p
      using same_links_lookup [OF a, of p] by (metis option.map_disc_iff)
    show "fo_id f' = i \<and> i \<noteq> [] \<and> folder_depth m i \<le> folder_maxDepth \<and>
        (case fo_parentId f' of None \<Rightarrow> folder_depth m i = 1
         | Some p \<Rightarrow> map_of m' p \<noteq> None \<and> folder_depth m i = Suc (folder_depth m p))"
      using forest_fit [OF m, unfolded depths_fit_def, rule_format, OF f(1)] f(2,3) known
      by (simp split: option.splits)
  qed
  moreover have "distinct (map fst m')" using forest_distinct [OF m] same_links_keys [OF a] by simp
  ultimately show ?thesis by (rule forestI(1) [rotated])
qed

lemma same_links_refl [simp]: "same_links m m"
  by (simp add: same_links_def)

lemma same_links_trans [trans]: "same_links a b \<Longrightarrow> same_links b c \<Longrightarrow> same_links a c"
  by (simp add: same_links_def)

lemma same_links_sym: "same_links a b \<Longrightarrow> same_links b a"
  by (simp add: same_links_def)

lemma trancl_transfer:
  "(j, i) \<in> r\<^sup>+ \<Longrightarrow> (\<And>a b. (a, b) \<in> r \<Longrightarrow> (a, b) \<notin> r' \<Longrightarrow> (b, i) \<notin> r\<^sup>*) \<Longrightarrow> (j, i) \<in> r'\<^sup>+"
proof (induction rule: converse_trancl_induct)
  case (base y)
  then show ?case by blast
next
  case (step y z)
  then have "(y, z) \<in> r'" by (meson trancl_into_rtrancl)
  then show ?case using step by (meson trancl_into_trancl2)
qed

end
