(* ===== verification/Folder_Trees.thy ===== *)
theory Folder_Trees
  imports Folder_Hierarchy
begin

text \<open>
  What moving one folder does to a hierarchy, how deep a folder reaches down, the exact condition of
  \<open>canMoveFolder\<close>, the tree and the paths.
\<close>

section \<open>Changing one link\<close>

lemma map_of_map_set_simp [simp]: "map_of (map_set k v m) i = (if i = k then Some v else map_of m i)"
  by (simp add: map_of_map_set)

lemma map_of_mem_keys: "map_of m i = Some f \<Longrightarrow> i \<in> set (map fst m)"
  by (force dest: map_of_SomeD)

definition base_depth :: "folder_map \<Rightarrow> string option \<Rightarrow> nat" where
  "base_depth m p = (case p of None \<Rightarrow> 0 | Some i \<Rightarrow> folder_depth m i)"

lemma at_or_below_step:
  assumes "(j, p) \<in> parent_of m" and "j \<noteq> x"
  shows "j \<in> at_or_below m x \<longleftrightarrow> p \<in> at_or_below m x"
  unfolding at_or_below_def
proof safe
  assume "(j, x) \<in> (parent_of m)\<^sup>*"
  then obtain q where "(j, q) \<in> parent_of m" "(q, x) \<in> (parent_of m)\<^sup>*"
    using assms(2) by (meson converse_rtranclE)
  then show "(p, x) \<in> (parent_of m)\<^sup>*" using parent_of_functional [OF assms(1)] by simp
qed (use assms in \<open>auto intro: converse_rtrancl_into_rtrancl\<close>)

text \<open>Moving a folder keeps a forest, if the new parent is not below it and everything stays in reach.\<close>

lemma reparent_fit:
  assumes m: "folder_forest m" and x: "map_of m x = Some f" and f': "fo_id f' = x"
    and parent: "\<And>p. fo_parentId f' = Some p \<Longrightarrow> map_of m p \<noteq> None \<and> p \<notin> at_or_below m x"
    and deep: "\<And>j. j \<in> at_or_below m x \<Longrightarrow> folder_depth m j + base_depth m (fo_parentId f') + 1 \<le> folder_maxDepth + folder_depth m x"
  shows "depths_fit (map_set x f' m) (\<lambda>j. if j \<in> at_or_below m x
    then folder_depth m j + base_depth m (fo_parentId f') + 1 - folder_depth m x else folder_depth m j)"
    (is "depths_fit _ ?d")
  unfolding depths_fit_def
proof (intro allI impI)
  fix i g assume i: "map_of (map_set x f' m) i = Some g"
  have down: "folder_depth m x \<le> folder_depth m j" if "j \<in> at_or_below m x" for j
    using that ancestors_rtrancl_depth [OF _ m, of j x] by (auto simp: at_or_below_def)
  show "fo_id g = i \<and> i \<noteq> [] \<and> ?d i \<le> folder_maxDepth \<and> (case fo_parentId g of None \<Rightarrow> ?d i = 1
      | Some p \<Rightarrow> map_of (map_set x f' m) p \<noteq> None \<and> ?d i = Suc (?d p))"
  proof (cases "i = x")
    case True
    have self: "x \<in> at_or_below m x" by (simp add: at_or_below_def)
    have "case fo_parentId f' of None \<Rightarrow> ?d x = 1
      | Some p \<Rightarrow> map_of (map_set x f' m) p \<noteq> None \<and> ?d x = Suc (?d p)"
      using parent self by (auto simp: base_depth_def split: option.split)
    moreover have g: "g = f'" using True i by simp
    ultimately show ?thesis unfolding True g using f' self deep [OF self] forest_idD [OF m x] by simp
  next
    case False
    then have g: "map_of m i = Some g" using i by simp
    note fit = depths_fitD [OF forest_fit [OF m] g]
    have "?d i \<le> folder_maxDepth" using fit(1) deep [of i] by auto
    moreover have "?d i = 1" if none: "fo_parentId g = None"
    proof -
      have "i \<notin> at_or_below m x"
      proof
        assume "i \<in> at_or_below m x"
        then obtain q where "(i, q) \<in> parent_of m"
          using False by (auto simp: at_or_below_def elim: converse_rtranclE)
        then show False using g none by (auto simp: parent_of_def)
      qed
      then show ?thesis using fit(2) none by simp
    qed
    moreover have "map_of (map_set x f' m) p \<noteq> None \<and> ?d i = Suc (?d p)" if some: "fo_parentId g = Some p" for p
    proof -
      have link: "(i, p) \<in> parent_of m" using g some by (simp add: parent_of_def)
      show ?thesis using at_or_below_step [OF link False] fit(3) [OF some] down [of p] by auto
    qed
    ultimately show ?thesis using fit(1) by (auto split: option.split)
  qed
qed

lemma reparent_forest:
  assumes "folder_forest m" and "map_of m x = Some f" and "fo_id f' = x"
    and "\<And>p. fo_parentId f' = Some p \<Longrightarrow> map_of m p \<noteq> None \<and> p \<notin> at_or_below m x"
    and "\<And>j. j \<in> at_or_below m x \<Longrightarrow> folder_depth m j + base_depth m (fo_parentId f') + 1 \<le> folder_maxDepth + folder_depth m x"
  shows "folder_forest (map_set x f' m)"
  by (rule forestI(1) [OF map_set_distinct [OF forest_distinct [OF assms(1)]] reparent_fit [OF assms]])

text \<open>And only then.\<close>

lemma parent_of_map_set:
  "parent_of (map_set x f' m) = {(i, p) \<in> parent_of m. i \<noteq> x} \<union> {(x, p) |p. fo_parentId f' = Some p}"
  by (auto simp: parent_of_def split: if_splits)

lemma reparent_only:
  assumes m: "folder_forest m" and m': "folder_forest (map_set x f' m)" and x: "map_of m x = Some f"
    and p: "fo_parentId f' = Some p"
  shows "p \<notin> at_or_below m x"
proof
  let ?m' = "map_set x f' m"
  assume "p \<in> at_or_below m x"
  then have "(p, x) \<in> (parent_of m)\<^sup>*" by (simp add: at_or_below_def)
  then have "p = x \<or> (p, x) \<in> (parent_of ?m')\<^sup>+"
  proof (cases "p = x")
    case False
    then have "(p, x) \<in> (parent_of m)\<^sup>+" using \<open>(p, x) \<in> (parent_of m)\<^sup>*\<close> by (meson rtranclD)
    then have "(p, x) \<in> (parent_of ?m')\<^sup>+"
    proof (rule trancl_transfer)
      fix a b assume "(a, b) \<in> parent_of m" "(a, b) \<notin> parent_of ?m'"
      then have a: "a = x" "(x, b) \<in> parent_of m" by (auto simp: parent_of_map_set)
      show "(b, x) \<notin> (parent_of m)\<^sup>*"
      proof
        assume "(b, x) \<in> (parent_of m)\<^sup>*"
        then have "(x, x) \<in> (parent_of m)\<^sup>+" using a(2) by (meson rtrancl_into_trancl2)
        then show False using ancestors_trancl_depth [OF _ m] by blast
      qed
    qed
    then show ?thesis ..
  qed simp
  moreover have "(x, p) \<in> parent_of ?m'" using p by (simp add: parent_of_map_set)
  ultimately have "(x, x) \<in> (parent_of ?m')\<^sup>+" by (auto intro: trancl_into_trancl2)
  then show False using ancestors_trancl_depth [OF _ m'] by blast
qed

lemma reparent_depth_grows:
  assumes m': "folder_forest (map_set x f' m)" and "folder_forest m" and j: "(j, x) \<in> (parent_of m)\<^sup>*"
  shows "folder_depth (map_set x f' m) j + folder_depth m x = folder_depth m j + folder_depth (map_set x f' m) x"
  using j
proof (induction rule: converse_rtrancl_induct)
  case (step j k)
  have "j \<noteq> x"
  proof
    assume "j = x"
    then have "(x, x) \<in> (parent_of m)\<^sup>+" using step(1,2) by (meson rtrancl_into_trancl2)
    then show False using ancestors_trancl_depth [OF _ assms(2)] by blast
  qed
  then have "(j, k) \<in> parent_of (map_set x f' m)" using step(1) by (simp add: parent_of_map_set)
  then show ?case using parent_of_depth [OF m'] parent_of_depth [OF assms(2) step(1)] step(3) by simp
qed simp

lemma reparent_depth_keeps:
  assumes m': "folder_forest (map_set x f' m)" and m: "folder_forest m" and x: "map_of m x = Some f"
    and j: "map_of m j = Some g" "j \<notin> at_or_below m x"
  shows "folder_depth (map_set x f' m) j = folder_depth m j"
proof -
  have "at_depth m cur n \<Longrightarrow> (\<And>i. cur = Some i \<Longrightarrow> i \<notin> at_or_below m x) \<Longrightarrow> at_depth (map_set x f' m) cur n" for cur n
  proof (induction rule: at_depth.induct)
    case (at_missing i)
    then have "i \<noteq> x" by (auto simp: at_or_below_def)
    then show ?case using at_missing by (simp add: at_depth.at_missing)
  next
    case (at_up i f n)
    have ix: "i \<noteq> x" using at_up(5) [OF refl] by (auto simp: at_or_below_def)
    have "p \<notin> at_or_below m x" if "fo_parentId f = Some p" for p
      using at_or_below_step [of i p m x] at_up(2) at_up(5) [OF refl] ix that by (auto simp: parent_of_def)
    then have "at_depth (map_set x f' m) (fo_parentId f) n" using at_up(4) by blast
    then show ?case using at_up(1,2) ix by (auto intro: at_depth.at_up)
  qed (auto intro: at_depth.at_top)
  then have "at_depth (map_set x f' m) (Some j) (folder_depth m j)"
    using forest_depth(3) [OF m j(1)] j(2) by blast
  then show ?thesis by (simp add: calculateDepth_shift [symmetric] folder_depth_def)
qed

section \<open>How deep a folder reaches\<close>

definition reaches :: "folder_map \<Rightarrow> string \<Rightarrow> nat \<Rightarrow> bool" where
  "reaches m i h \<longleftrightarrow> (\<forall>j\<in>at_or_below m i. folder_depth m j \<le> folder_depth m i + h)
     \<and> (\<exists>j\<in>at_or_below m i. folder_depth m j = folder_depth m i + h)"

lemma child_depths_step:
  "child_depths m [] d = Some []"
  "child_depths m (c # cs) d =
     do { below \<leftarrow> child_depths m (getChildren m (Some (fo_id c))) (d + 1);
          rest \<leftarrow> child_depths m cs d; Some (max_depths (d + 1) below # rest) }"
  by (subst child_depths.simps, simp)+

lemma reaches_children:
  assumes m: "folder_forest m"
    and kids: "list_all2 (\<lambda>c n. \<exists>h. n = d + 1 + h \<and> reaches m (fo_id c) h) (getChildren m (Some i)) ns"
  shows "\<exists>h. max_depths d ns = d + h \<and> reaches m i h"
proof (cases "getChildren m (Some i) = []")
  case True
  then have "below m i = {}" "ns = []" using below_children [OF m] kids by simp_all
  then show ?thesis by (auto simp: max_depths_def reaches_def at_or_below_insert)
next
  case False
  then have ns: "ns \<noteq> []" using kids by auto
  have len: "length ns = length (getChildren m (Some i))" using kids by (simp add: list_all2_lengthD)
  have at: "\<exists>h. ns ! k = d + 1 + h \<and> reaches m (fo_id (getChildren m (Some i) ! k)) h" if "k < length ns" for k
    using kids that by (simp add: list_all2_conv_all_nth)
  have depth: "folder_depth m (fo_id (getChildren m (Some i) ! k)) = Suc (folder_depth m i)" if "k < length ns" for k
    using child_depth [OF m] that len by simp
  obtain k where k: "k < length ns" "ns ! k = Max (set ns)" using Max_in [of "set ns"] ns by (auto simp: in_set_conv_nth)
  obtain h where h: "ns ! k = d + 1 + h" "reaches m (fo_id (getChildren m (Some i) ! k)) h" using at [OF k(1)] by blast
  have "folder_depth m j \<le> folder_depth m i + Suc h" if j: "j \<in> at_or_below m i" for j
  proof (cases "j = i")
    case False
    then obtain c where "c \<in> set (getChildren m (Some i))" "j \<in> at_or_below m (fo_id c)"
      using j below_children [OF m, of i] by (auto simp: at_or_below_insert [of m i])
    then obtain l where l: "l < length ns" "j \<in> at_or_below m (fo_id (getChildren m (Some i) ! l))"
      using len by (auto simp: in_set_conv_nth)
    obtain h' where h': "ns ! l = d + 1 + h'" "reaches m (fo_id (getChildren m (Some i) ! l)) h'" using at [OF l(1)] by blast
    have "ns ! l \<le> ns ! k" using k(2) l(1) by simp
    moreover have "folder_depth m j \<le> Suc (folder_depth m i) + h'" using h'(2) l(2) depth [OF l(1)] by (auto simp: reaches_def)
    ultimately show ?thesis using h(1) h'(1) by simp
  qed simp
  moreover obtain j where j: "j \<in> at_or_below m (fo_id (getChildren m (Some i) ! k))"
    "folder_depth m j = Suc (folder_depth m i) + h"
    using h(2) depth [OF k(1)] by (auto simp: reaches_def)
  moreover have "j \<in> at_or_below m i"
    using j(1) k(1) len below_children [OF m, of i] by (auto simp: at_or_below_insert [of m i])
  ultimately have "reaches m i (Suc h)" by (auto simp: reaches_def intro!: bexI [of _ j])
  then show ?thesis using ns k(2) h(1) by (auto simp: max_depths_def intro!: exI [of _ "Suc h"])
qed

lemma child_depths_exact:
  assumes "folder_forest m"
  shows "(\<forall>c\<in>set cs. map_of m (fo_id c) = Some c \<and> folder_depth m (fo_id c) = e) \<Longrightarrow> folder_maxDepth < e + k
    \<Longrightarrow> \<exists>ns. child_depths m cs d = Some ns \<and> list_all2 (\<lambda>c n. \<exists>h. n = d + 1 + h \<and> reaches m (fo_id c) h) cs ns"
proof (induction k arbitrary: cs e d)
  case 0
  have "False" if "c \<in> set cs" for c
    using 0(1,2) that forest_depth(2) [OF assms, of "fo_id c" c] by auto
  then have "cs = []" by (cases cs) auto
  then show ?case by (simp add: child_depths_step)
next
  case (Suc k)
  show ?case using Suc.prems
  proof (induction cs)
    case (Cons c cs)
    let ?kids = "getChildren m (Some (fo_id c))"
    have kids: "\<forall>c'\<in>set ?kids. map_of m (fo_id c') = Some c' \<and> folder_depth m (fo_id c') = Suc e"
      using mem_getChildren [OF assms] child_depth [OF assms] Cons.prems(1) by auto
    obtain ns where ns: "child_depths m ?kids (d + 1) = Some ns"
      "list_all2 (\<lambda>c n. \<exists>h. n = d + 1 + 1 + h \<and> reaches m (fo_id c) h) ?kids ns"
      using Suc.IH [OF kids, of "d + 1"] Cons.prems(2) by auto
    obtain h where h: "max_depths (d + 1) ns = d + 1 + h" "reaches m (fo_id c) h"
      using reaches_children [OF assms ns(2)] by blast
    obtain rest where "child_depths m cs d = Some rest"
      "list_all2 (\<lambda>c n. \<exists>h. n = d + 1 + h \<and> reaches m (fo_id c) h) cs rest"
      using Cons.IH Cons.prems by auto
    then show ?case using ns(1) h by (auto simp: child_depths_step)
  qed (simp add: child_depths_step)
qed

lemma getMaxDescendantDepth_exact:
  assumes m: "folder_forest m" and i: "map_of m i = Some f"
  shows "\<exists>h. getMaxDescendantDepth m i 0 = Some h \<and> reaches m i h"
proof -
  have kids: "\<forall>c\<in>set (getChildren m (Some i)). map_of m (fo_id c) = Some c \<and> folder_depth m (fo_id c) = Suc (folder_depth m i)"
    using mem_getChildren [OF m] child_depth [OF m] by auto
  obtain ns where ns: "child_depths m (getChildren m (Some i)) 0 = Some ns"
    "list_all2 (\<lambda>c n. \<exists>h. n = 0 + 1 + h \<and> reaches m (fo_id c) h) (getChildren m (Some i)) ns"
    using child_depths_exact [OF m kids, of folder_maxDepth 0] by auto
  obtain h where "max_depths 0 ns = 0 + h" "reaches m i h" using reaches_children [OF m ns(2)] by blast
  then show ?thesis using ns(1) by (simp add: getMaxDescendantDepth_def)
qed

section \<open>Moving\<close>

lemma calculateDepth_known:
  assumes "folder_forest m" and "\<And>i. p = Some i \<Longrightarrow> map_of m i \<noteq> None"
  shows "calculateDepth m p 0 = Some (base_depth m p)"
proof (cases p)
  case (Some i)
  then obtain f where "map_of m i = Some f" using assms(2) [OF Some] by blast
  then show ?thesis using forest_depth(1) [OF assms(1)] Some by (simp add: base_depth_def)
qed (simp add: calculateDepth_step base_depth_def)

lemma can_move_exact:
  assumes m: "folder_forest m" and x: "map_of m x = Some f" and f': "fo_id f' = x"
    and "fo_parentId f' \<noteq> Some []"
  shows "\<exists>r. canMoveFolder m x (fo_parentId f') = Some r \<and> (r = None \<longleftrightarrow> folder_forest (map_set x f' m))"
proof -
  let ?p = "fo_parentId f'" and ?m' = "map_set x f' m"
  obtain ds where ds: "getFolderDescendants m x = Some ds" "fo_id ` set ds = below m x"
    using getFolderDescendants_exact [OF m x] by blast
  obtain h where h: "getMaxDescendantDepth m x 0 = Some h" "reaches m x h"
    using getMaxDescendantDepth_exact [OF m x] by blast
  have forest_parent: "map_of m p \<noteq> None" if "folder_forest ?m'" "?p = Some p" for p
    using forest_parentD [OF that(1), of x f' p] that(2) x by (auto split: if_splits)
  show ?thesis
  proof (cases "\<exists>p. ?p = Some p \<and> (map_of m p = None \<or> p \<in> at_or_below m x)")
    case True
    then obtain p where p: "?p = Some p" "map_of m p = None \<or> p \<in> at_or_below m x" by blast
    then have "\<not> folder_forest ?m'" using reparent_only [OF m _ x p(1)] forest_parent by blast
    moreover have "\<exists>e. canMoveFolder m x ?p = Some (Some e)"
    proof (cases "p = x \<or> map_of m p = None")
      case True
      then show ?thesis using p(1) assms(4) by (auto simp: canMoveFolder_def map_of_eq_None_iff)
    next
      case False
      then have "p \<in> below m x" using p(2) by (auto simp: at_or_below_insert)
      then have "p \<in> fo_id ` set ds" using ds(2) by simp
      then have "list_ex (\<lambda>d. Some (fo_id d) = ?p) ds" using p(1) by (auto simp: list_ex_iff)
      then show ?thesis using p(1) False assms(4) ds(1) by (auto simp: canMoveFolder_def map_of_eq_None_iff)
    qed
    ultimately show ?thesis by auto
  next
    case False
    then have ok: "map_of m p \<noteq> None \<and> p \<notin> at_or_below m x" if "?p = Some p" for p
      using that by auto
    have depth: "calculateDepth m ?p 0 = Some (base_depth m ?p)" using calculateDepth_known [OF m] ok by blast
    have notbelow: "\<not> list_ex (\<lambda>d. Some (fo_id d) = ?p) ds"
    proof
      assume "list_ex (\<lambda>d. Some (fo_id d) = ?p) ds"
      then obtain d where d: "d \<in> set ds" "?p = Some (fo_id d)" by (auto simp: list_ex_iff)
      then have "fo_id d \<in> below m x" using ds(2) by blast
      then show False using ok [OF d(2)] by (simp add: at_or_below_insert)
    qed
    have "?p \<noteq> Some x" using ok [of x] by (auto simp: at_or_below_def)
    moreover have "the ?p \<in> set (map fst m)" if "truthy ?p"
      using ok that by (cases ?p) (auto dest!: map_of_mem_keys)
    ultimately have verdict: "canMoveFolder m x ?p = Some (if base_depth m ?p + 1 + h > folder_maxDepth
        then Some (''Move would exceed maximum depth of '' @ nat_string folder_maxDepth) else None)"
      using depth notbelow h(1) ds(1) by (simp add: canMoveFolder_def eq_commute [of "Some x"])
    have "base_depth m ?p + 1 + h \<le> folder_maxDepth \<longleftrightarrow> folder_forest ?m'"
    proof
      assume "base_depth m ?p + 1 + h \<le> folder_maxDepth"
      then have "folder_depth m j + base_depth m ?p + 1 \<le> folder_maxDepth + folder_depth m x" if "j \<in> at_or_below m x" for j
        using h(2) that by (force simp: reaches_def)
      then show "folder_forest ?m'" using reparent_forest [OF m x f' ok] by blast
    next
      assume m': "folder_forest ?m'"
      obtain j where j: "j \<in> at_or_below m x" "folder_depth m j = folder_depth m x + h"
        using h(2) by (auto simp: reaches_def)
      have "folder_depth ?m' x = base_depth m ?p + 1"
      proof (cases ?p)
        case None
        then show ?thesis using root_depth [OF m', of x f'] by (simp add: base_depth_def)
      next
        case (Some p)
        then obtain g where g: "map_of m p = Some g" "p \<notin> at_or_below m x" using ok by blast
        have "(x, p) \<in> parent_of ?m'" using Some by (simp add: parent_of_map_set)
        then show ?thesis using parent_of_depth [OF m'] reparent_depth_keeps [OF m' m x g] Some by (simp add: base_depth_def)
      qed
      moreover have "folder_depth ?m' j = folder_depth ?m' x + h"
        using reparent_depth_grows [OF m' m, of j] j by (simp add: at_or_below_def)
      moreover have "folder_depth ?m' j \<le> folder_maxDepth"
      proof -
        obtain g where "map_of m j = Some g" using ancestors_known [OF _ m x, of j] j(1) by (auto simp: at_or_below_def)
        then have "\<exists>g'. map_of ?m' j = Some g'" by auto
        then show ?thesis using forest_depth(2) [OF m'] by blast
      qed
      ultimately show "base_depth m ?p + 1 + h \<le> folder_maxDepth" by simp
    qed
    then show ?thesis using verdict by auto
  qed
qed

section \<open>The way up\<close>

text \<open>The folders from the root down to one.\<close>

inductive chain_of :: "folder_map \<Rightarrow> string option \<Rightarrow> WorkflowFolder list \<Rightarrow> bool" for m where
  chain_top: "chain_of m None []"
| chain_up: "i \<noteq> [] \<Longrightarrow> map_of m i = Some f \<Longrightarrow> chain_of m (fo_parentId f) fs \<Longrightarrow> chain_of m (Some i) (fs @ [f])"

lemma chain_exists:
  assumes m: "folder_forest m"
  shows "map_of m i = Some f \<Longrightarrow> \<exists>fs. chain_of m (Some i) (fs @ [f])"
proof (induction "folder_depth m i" arbitrary: i f rule: less_induct)
  case less
  show ?case
  proof (cases "fo_parentId f")
    case None
    then show ?thesis using chain_up [OF _ less(2), of "[]"] chain_top forest_idD [OF m less(2)] by fastforce
  next
    case (Some p)
    then have link: "(i, p) \<in> parent_of m" using less(2) by (simp add: parent_of_def)
    obtain g where g: "map_of m p = Some g" using forest_parentD [OF m less(2) Some] by blast
    obtain fs where "chain_of m (Some p) (fs @ [g])" using less(1) [OF _ g] parent_of_depth [OF m link] by auto
    then have "chain_of m (Some i) ((fs @ [g]) @ [f])"
      using chain_up [OF _ less(2), of "fs @ [g]"] Some forest_idD [OF m less(2)] by simp
    then show ?thesis by blast
  qed
qed

lemma getFolderPath_step:
  "getFolderPath m None path = Some path"
  "i \<noteq> [] \<Longrightarrow> map_of m i = Some f \<Longrightarrow>
     getFolderPath m (Some i) path = getFolderPath m (fo_parentId f) ((fo_id f, fo_name f) # path)"
  by (subst getFolderPath.simps, simp)+

lemma chain_path: "chain_of m cur fs \<Longrightarrow> getFolderPath m cur path = Some (map (\<lambda>f. (fo_id f, fo_name f)) fs @ path)"
  by (induction arbitrary: path rule: chain_of.induct) (simp_all add: getFolderPath_step)

lemma getFolderAncestors_step:
  "getFolderAncestors m None as = Some as"
  "i \<noteq> [] \<Longrightarrow> map_of m i = Some f \<Longrightarrow> getFolderAncestors m (Some i) as =
     getFolderAncestors m (fo_parentId f) (case parent_folder m f of None \<Rightarrow> as | Some p \<Rightarrow> p # as)"
  by (subst getFolderAncestors.simps, simp)+

lemma chain_parent: "chain_of m (fo_parentId f) fs \<Longrightarrow> parent_folder m f = (if fs = [] then None else Some (last fs))"
  by (cases rule: chain_of.cases) (auto simp: parent_folder_def)

lemma chain_ancestors: "chain_of m cur fs \<Longrightarrow> getFolderAncestors m cur as = Some (butlast fs @ as)"
proof (induction arbitrary: as rule: chain_of.induct)
  case (chain_up i f fs)
  show ?case
  proof (cases "fs = []")
    case False
    then have "butlast fs @ last fs # as = fs @ as" by (metis append_butlast_last_id append_Cons append_Nil append_assoc)
    then show ?thesis using chain_up False chain_parent [OF chain_up(3)] by (simp add: getFolderAncestors_step)
  qed (use chain_up chain_parent [OF chain_up(3)] in \<open>simp add: getFolderAncestors_step\<close>)
qed (simp add: getFolderAncestors_step)

section \<open>The tree\<close>

primrec all_nodes :: "FolderTreeNode \<Rightarrow> FolderTreeNode list" where
  "all_nodes (FolderTreeNode f children depth path has) =
     FolderTreeNode f children depth path has # concat (map all_nodes children)"

definition node_exact :: "folder_map \<Rightarrow> FolderTreeNode \<Rightarrow> bool" where
  "node_exact m n = (let i = fo_id (tn_folder n) in
     map tn_folder (tn_children n) = getChildren m (Some i)
     \<and> calculateDepth m (Some i) 0 = Some (Suc (tn_depth n))
     \<and> map_option (map snd) (getFolderPath m (Some i) []) = Some (tn_path n)
     \<and> tn_hasChildren n = (tn_children n \<noteq> []))"

lemma build_nodes_step:
  "build_nodes m [] d = Some []"
  "build_nodes m (c # cs) d =
     do { below \<leftarrow> build_nodes m (getChildren m (Some (fo_id c))) (d + 1);
          path \<leftarrow> getFolderPath m (Some (fo_id c)) [];
          rest \<leftarrow> build_nodes m cs d;
          Some (FolderTreeNode c below d (map snd path) (getChildren m (Some (fo_id c)) \<noteq> []) # rest) }"
  by (subst build_nodes.simps, simp)+

lemma build_nodes_exact:
  assumes m: "folder_forest m"
  shows "(\<forall>c\<in>set cs. map_of m (fo_id c) = Some c \<and> folder_depth m (fo_id c) = Suc d) \<Longrightarrow> folder_maxDepth < Suc d + k
    \<Longrightarrow> \<exists>ts. build_nodes m cs d = Some ts \<and> map tn_folder ts = cs
      \<and> descendants_of m cs = Some (map tn_folder (concat (map all_nodes ts)))
      \<and> (\<forall>n\<in>set (concat (map all_nodes ts)). node_exact m n)"
proof (induction k arbitrary: cs d)
  case 0
  have "False" if "c \<in> set cs" for c
    using 0(1,2) that forest_depth(2) [OF assms, of "fo_id c" c] by auto
  then have "cs = []" by (cases cs) auto
  then show ?case by (simp add: build_nodes_step descendants_of_step)
next
  case (Suc k)
  show ?case using Suc.prems
  proof (induction cs)
    case (Cons c cs)
    let ?kids = "getChildren m (Some (fo_id c))"
    have kids: "\<forall>c'\<in>set ?kids. map_of m (fo_id c') = Some c' \<and> folder_depth m (fo_id c') = Suc (d + 1)"
      using mem_getChildren [OF assms] child_depth [OF assms] Cons.prems(1) by auto
    obtain ts where ts: "build_nodes m ?kids (d + 1) = Some ts" "map tn_folder ts = ?kids"
      "descendants_of m ?kids = Some (map tn_folder (concat (map all_nodes ts)))"
      "\<forall>n\<in>set (concat (map all_nodes ts)). node_exact m n"
      using Suc.IH [OF kids] Cons.prems(2) by auto
    have c: "map_of m (fo_id c) = Some c" "folder_depth m (fo_id c) = Suc d" using Cons.prems(1) by auto
    obtain path where path: "getFolderPath m (Some (fo_id c)) [] = Some path"
      using chain_exists [OF m c(1)] chain_path by blast
    obtain rest where rest: "build_nodes m cs d = Some rest" "map tn_folder rest = cs"
      "descendants_of m cs = Some (map tn_folder (concat (map all_nodes rest)))"
      "\<forall>n\<in>set (concat (map all_nodes rest)). node_exact m n"
      using Cons.IH Cons.prems by auto
    let ?n = "FolderTreeNode c ts d (map snd path) (?kids \<noteq> [])"
    have "ts \<noteq> [] \<longleftrightarrow> ?kids \<noteq> []" using ts(2) by auto
    then have "node_exact m ?n"
      using ts(2) path forest_depth(1) [OF m c(1)] c(2) by (simp add: node_exact_def)
    moreover have "build_nodes m (c # cs) d = Some (?n # rest)"
      using ts(1) path rest(1) by (simp add: build_nodes_step)
    moreover have "descendants_of m (c # cs) = Some (map tn_folder (concat (map all_nodes (?n # rest))))"
      using ts(3) rest(3) by (simp add: descendants_of_step)
    ultimately show ?case using rest(2,4) ts(4) by (intro exI [of _ "?n # rest"]) auto
  qed (simp add: build_nodes_step descendants_of_step)
qed

lemma climb_to_root:
  assumes m: "folder_forest m"
  shows "map_of m i = Some f \<Longrightarrow> \<exists>r\<in>set (getChildren m None). i \<in> at_or_below m (fo_id r)"
proof (induction "folder_depth m i" arbitrary: i f rule: less_induct)
  case less
  show ?case
  proof (cases "fo_parentId f")
    case None
    then have "f \<in> set (getChildren m None)" using mem_getChildren [OF m] less(2) forest_idD [OF m less(2)] by auto
    then show ?thesis using forest_idD [OF m less(2)] by (auto simp: at_or_below_def)
  next
    case (Some p)
    then have link: "(i, p) \<in> parent_of m" using less(2) by (simp add: parent_of_def)
    obtain g where g: "map_of m p = Some g" using forest_parentD [OF m less(2) Some] by blast
    then obtain r where "r \<in> set (getChildren m None)" "p \<in> at_or_below m (fo_id r)"
      using less(1) [OF _ g] parent_of_depth [OF m link] by auto
    then show ?thesis using link by (auto simp: at_or_below_def intro: converse_rtrancl_into_rtrancl)
  qed
qed

lemma tree_of_forest:
  assumes m: "folder_forest m"
  shows "\<exists>ts. getFolderTree m None = Some ts \<and> mset (map tn_folder (concat (map all_nodes ts))) = mset (map snd m)
    \<and> (\<forall>n\<in>set (concat (map all_nodes ts)). node_exact m n) \<and> map tn_folder ts = getChildren m None"
proof -
  have roots: "\<forall>c\<in>set (getChildren m None). map_of m (fo_id c) = Some c \<and> folder_depth m (fo_id c) = Suc 0"
    using mem_getChildren [OF m] root_depth [OF m] by auto
  obtain ts where ts: "build_nodes m (getChildren m None) 0 = Some ts" "map tn_folder ts = getChildren m None"
    "descendants_of m (getChildren m None) = Some (map tn_folder (concat (map all_nodes ts)))"
    "\<forall>n\<in>set (concat (map all_nodes ts)). node_exact m n"
    using build_nodes_exact [OF m roots, of folder_maxDepth] by auto
  obtain ds where ds: "descendants_of m (getChildren m None) = Some ds" "\<forall>d\<in>set ds. map_of m (fo_id d) = Some d"
    "distinct (map fo_id ds)" "fo_id ` set ds = (\<Union>c\<in>set (getChildren m None). at_or_below m (fo_id c))"
    using descendants_of_exact [OF m roots distinct_getChildren [OF m], of folder_maxDepth] by auto
  have "set ds = snd ` set m"
  proof (intro equalityI subsetI)
    fix f assume "f \<in> snd ` set m"
    then obtain i where "(i, f) \<in> set m" by auto
    then have i: "map_of m i = Some f" using forest_distinct [OF m] by simp
    then have "i \<in> fo_id ` set ds" using climb_to_root [OF m i] ds(4) by auto
    then show "f \<in> set ds" using ds(2) i by auto
  next
    fix f assume "f \<in> set ds"
    then have "map_of m (fo_id f) = Some f" using ds(2) by blast
    then show "f \<in> snd ` set m" by (auto dest!: map_of_SomeD intro: rev_image_eqI)
  qed
  moreover have "distinct ds" using ds(3) by (simp add: distinct_map)
  moreover have "distinct (map snd m)"
    using forest_ids [OF m] forest_distinct [OF m] by (metis distinct_map)
  ultimately have "mset ds = mset (map snd m)" by (intro set_eq_iff_mset_eq_distinct [THEN iffD1]) simp_all
  then show ?thesis using ts ds(1) by (auto simp: getFolderTree_def buildTree_def)
qed

section \<open>Paths\<close>

definition unique_siblings :: "folder_map \<Rightarrow> bool" where
  "unique_siblings m = distinct (map (\<lambda>(i, f). (fo_parentId f, fo_name f)) m)"

definition path_string :: "string list \<Rightarrow> string" where
  "path_string names = concat (map (\<lambda>n. CHR ''/'' # n) names)"

definition path_name :: "string \<Rightarrow> bool" where
  "path_name n = (js_trim n \<noteq> [] \<and> CHR ''/'' \<notin> set n)"

lemma js_split_nonempty: "js_split d s \<noteq> []"
  by (cases s) (auto split: list.split)

lemma js_split_word: "d \<notin> set w \<Longrightarrow> js_split d (w @ s) = (case js_split d s of [] \<Rightarrow> [] | v # vs \<Rightarrow> (w @ v) # vs)"
proof (induction w)
  case Nil
  then show ?case using js_split_nonempty [of d s] by (simp split: list.split)
next
  case (Cons c w)
  then show ?case using js_split_nonempty [of d s] by (auto split: list.splits)
qed

lemma js_split_path: "\<forall>n\<in>set names. CHR ''/'' \<notin> set n \<Longrightarrow> js_split (CHR ''/'') (path_string names) = [] # names"
  by (induction names) (simp_all add: path_string_def js_split_word)

lemma path_parts_path: "list_all path_name names \<Longrightarrow> path_parts (path_string names) = names"
  by (simp add: path_parts_def js_split_path list_all_iff path_name_def js_trim_def filter_id_conv)

lemma find_parts_append:
  "find_parts m p (xs @ ys) = (case find_parts m p xs of None \<Rightarrow> None | Some q \<Rightarrow> find_parts m q ys)"
  by (induction xs arbitrary: p) (simp_all split: option.split)

lemma find_child:
  assumes m: "folder_forest m" and u: "unique_siblings m" and i: "map_of m i = Some f"
  shows "find (\<lambda>c. fo_name c = fo_name f) (getChildren m (fo_parentId f)) = Some f"
proof -
  have mem: "f \<in> set (getChildren m (fo_parentId f))" using mem_getChildren [OF m] i forest_idD [OF m i] by auto
  then obtain g where g: "find (\<lambda>c. fo_name c = fo_name f) (getChildren m (fo_parentId f)) = Some g"
    by (cases "find (\<lambda>c. fo_name c = fo_name f) (getChildren m (fo_parentId f))") (auto simp: find_None_iff)
  then have g': "g \<in> set (getChildren m (fo_parentId f))" "fo_name g = fo_name f" by (auto simp: find_Some_iff)
  then have pos: "(fo_id g, g) \<in> set m" "(i, f) \<in> set m" "fo_parentId g = fo_parentId f"
    using mem_getChildren [OF m] i by (auto dest: map_of_SomeD)
  have "inj_on (\<lambda>(i, f). (fo_parentId f, fo_name f)) (set m)" using u by (simp add: unique_siblings_def distinct_map)
  then have "(fo_id g, g) = (i, f)" by (rule inj_onD) (use pos g'(2) in simp_all)
  then show ?thesis using g by simp
qed

lemma find_chain:
  assumes m: "folder_forest m" and u: "unique_siblings m"
  shows "chain_of m cur fs \<Longrightarrow> find_parts m None (map fo_name fs) = Some cur"
proof (induction rule: chain_of.induct)
  case (chain_up i f fs)
  then show ?case using find_child [OF m u chain_up(2)] forest_idD [OF m chain_up(2)]
    by (simp add: find_parts_append)
qed simp

end
