(* ===== verification/Folder_Counts.thy ===== *)
theory Folder_Counts
  imports Folder_Operations Folder_Trees
begin

text \<open>
  The counts in the folders: the loops that climb and recompute them return on a forest, touch only
  the folders above the one they start from, and leave everything else as it was; so the counts are exact
  again after a change that they climb from. Recomputing all counts makes them exact everywhere.
\<close>

section \<open>What the counts should be\<close>

text \<open>A folder without what the counts and their times say.\<close>

definition folder_data :: "WorkflowFolder \<Rightarrow> WorkflowFolder" where
  "folder_data f = f\<lparr>fo_metadata := (fo_metadata f)\<lparr>fmd_updated := 0, fmd_workflowCount := None, fmd_descendantCount := None\<rparr>\<rparr>"

definition same_data :: "folder_map \<Rightarrow> folder_map \<Rightarrow> bool" where
  "same_data m m' \<longleftrightarrow> (\<forall>i. map_option folder_data (map_of m i) = map_option folder_data (map_of m' i))"

definition ups :: "folder_map \<Rightarrow> string option \<Rightarrow> string set" where
  "ups m p = {j. \<exists>i. p = Some i \<and> (i, j) \<in> (parent_of m)\<^sup>*}"

text \<open>Exact, but for the numbers of descendants in a set of folders.\<close>

definition counts_but :: "string set \<Rightarrow> FolderAssociation list \<Rightarrow> folder_map \<Rightarrow> bool" where
  "counts_but T as m \<longleftrightarrow> (\<forall>i f. map_of m i = Some f \<longrightarrow>
     fmd_workflowCount (fo_metadata f) = Some (workflows_at as i)
     \<and> (i \<notin> T \<longrightarrow> fmd_descendantCount (fo_metadata f) = Some (card (below m i))))"

lemma same_data_refl [simp]: "same_data m m"
  by (simp add: same_data_def)

lemma same_data_trans [trans]: "same_data a b \<Longrightarrow> same_data b c \<Longrightarrow> same_data a c"
  by (simp add: same_data_def)

lemma folder_data_simps [simp]:
  "folder_data (set_workflowCount n f) = folder_data f" "folder_data (set_descendantCount n f) = folder_data f"
  "folder_data (set_updated now f) = folder_data f"
  "fo_id (folder_data f) = fo_id f" "fo_parentId (folder_data f) = fo_parentId f"
  by (simp_all add: folder_data_def set_workflowCount_def set_descendantCount_def set_updated_def)

lemma count_selectors [simp]:
  "fo_id (set_workflowCount n f) = fo_id f" "fo_parentId (set_workflowCount n f) = fo_parentId f"
  "fo_id (set_descendantCount n f) = fo_id f" "fo_parentId (set_descendantCount n f) = fo_parentId f"
  "fo_id (set_updated now f) = fo_id f" "fo_parentId (set_updated now f) = fo_parentId f"
  "fmd_workflowCount (fo_metadata (set_workflowCount n f)) = Some n"
  "fmd_descendantCount (fo_metadata (set_workflowCount n f)) = fmd_descendantCount (fo_metadata f)"
  "fmd_workflowCount (fo_metadata (set_descendantCount n f)) = fmd_workflowCount (fo_metadata f)"
  "fmd_descendantCount (fo_metadata (set_descendantCount n f)) = Some n"
  "fmd_workflowCount (fo_metadata (set_updated now f)) = fmd_workflowCount (fo_metadata f)"
  "fmd_descendantCount (fo_metadata (set_updated now f)) = fmd_descendantCount (fo_metadata f)"
  by (simp_all add: set_workflowCount_def set_descendantCount_def set_updated_def)

lemma folder_data_eqD:
  assumes "folder_data f = folder_data g"
  shows "fo_id f = fo_id g" and "fo_parentId f = fo_parentId g"
  using assms by (metis folder_data_simps(4,5))+

section \<open>Replacing one folder\<close>

lemma links_map_set:
  "map_of m i = Some f \<Longrightarrow> distinct (map fst m) \<Longrightarrow> fo_id g = fo_id f \<Longrightarrow> fo_parentId g = fo_parentId f \<Longrightarrow> links (map_set i g m) = links m"
  by (induction i g m rule: map_set.induct) (auto simp: links_def split: if_splits)

lemma same_links_map_set:
  assumes "folder_forest m" and "map_of m i = Some f" and "folder_data g = folder_data f"
  shows "same_links m (map_set i g m)" and "same_data m (map_set i g m)"
  using links_map_set [OF assms(2) forest_distinct [OF assms(1)]] folder_data_eqD [OF assms(3)] assms(2,3)
  by (simp_all add: same_links_def same_data_def)

lemma same_links_ups: "same_links m m' \<Longrightarrow> ups m = ups m'"
  by (simp add: ups_def fun_eq_iff same_links_parent_of)

lemma ups_step:
  assumes "map_of m i = Some f"
  shows "ups m (Some i) = insert i (ups m (fo_parentId f))"
proof -
  have "(i, j) \<in> (parent_of m)\<^sup>* \<longleftrightarrow> j = i \<or> (\<exists>p. fo_parentId f = Some p \<and> (p, j) \<in> (parent_of m)\<^sup>*)" for j
    using assms by (auto simp: parent_of_def elim: converse_rtranclE intro: converse_rtrancl_into_rtrancl)
  then show ?thesis by (auto simp: ups_def)
qed

lemma ups_irrefl:
  assumes "folder_forest m" and "map_of m i = Some f"
  shows "i \<notin> ups m (fo_parentId f)"
proof
  assume "i \<in> ups m (fo_parentId f)"
  then obtain p where "fo_parentId f = Some p" "(p, i) \<in> (parent_of m)\<^sup>*" by (auto simp: ups_def)
  then have "(i, i) \<in> (parent_of m)\<^sup>+" using assms(2) by (auto simp: parent_of_def intro: rtrancl_into_trancl2)
  then show False using ancestors_trancl_depth [OF _ assms(1)] by blast
qed

lemma ups_None [simp]: "ups m None = {}"
  by (simp add: ups_def)

lemma descendant_count:
  assumes "folder_forest m" and "map_of m i = Some f"
  shows "\<exists>ds. getFolderDescendants m i = Some ds \<and> length ds = card (below m i)"
proof -
  obtain ds where ds: "getFolderDescendants m i = Some ds" "distinct (map fo_id ds)" "fo_id ` set ds = below m i"
    using getFolderDescendants_exact [OF assms] by blast
  then have "card (below m i) = length (map fo_id ds)" by (metis distinct_card set_map)
  then show ?thesis using ds(1) by simp
qed

section \<open>The loops\<close>

definition recounted :: "folder_map \<Rightarrow> string set \<Rightarrow> (string \<Rightarrow> WorkflowFolder \<Rightarrow> WorkflowFolder) \<Rightarrow> folder_map \<Rightarrow> bool" where
  "recounted m S g m' \<longleftrightarrow> same_links m m' \<and> same_data m m'
     \<and> (\<forall>i. map_of m' i = map_option (\<lambda>f. if i \<in> S then g i f else f) (map_of m i))"

lemma recounted_climb:
  assumes "folder_forest m" and "map_of m i = Some f" and "folder_data (g i f) = folder_data f"
    and "recounted (map_set i (g i f) m) (ups m (fo_parentId f)) g m'"
  shows "recounted m (ups m (Some i)) g m'"
proof -
  note keep = same_links_map_set [OF assms(1-3)]
  have "map_of m' j = map_option (\<lambda>f. if j \<in> ups m (Some i) then g j f else f) (map_of m j)" for j
    using assms(4) ups_irrefl [OF assms(1,2)] assms(2) ups_step [OF assms(2)] by (auto simp: recounted_def)
  then show ?thesis using assms(4) keep unfolding recounted_def by (blast intro: same_links_trans same_data_trans)
qed

lemma recounted_none: "recounted m {} g m"
  by (simp add: recounted_def option.map_ident)

lemma forest_parent_truthy:
  assumes "folder_forest m" and "map_of m i = Some f"
  shows "truthy (fo_parentId f) \<longleftrightarrow> fo_parentId f \<noteq> None"
proof (cases "fo_parentId f")
  case (Some p)
  then show ?thesis using forest_parentD [OF assms Some] forest_idD [OF assms(1)] by auto
qed simp

lemma same_links_depth:
  assumes links: "same_links m m'" and m: "folder_forest m" and i: "map_of m i = Some f"
  shows "folder_depth m' i = folder_depth m i"
proof -
  have "at_depth m cur n \<Longrightarrow> at_depth m' cur n" for cur n
  proof (induction rule: at_depth.induct)
    case (at_missing k)
    then have "map_of m' k = None" using same_links_lookup [OF links, of k] by simp
    then show ?case by (rule at_depth.at_missing)
  next
    case (at_up k fk n)
    then obtain f' where "map_of m' k = Some f'" "fo_parentId f' = fo_parentId fk"
      using same_links_lookup [OF links, of k] by (cases "map_of m' k") auto
    then show ?case using at_up(1,4) by (auto intro: at_depth.at_up)
  qed (rule at_depth.at_top)
  then show ?thesis using forest_depth(3) [OF m i]
    by (simp add: calculateDepth_shift [symmetric] folder_depth_def)
qed

text \<open>
  A loop that climbs from a folder, replacing each folder by one that differs in its counts only, by
  a rule that looks at the links only.
\<close>

locale climbing_loop =
  fixes loop :: "string option \<Rightarrow> folder_map \<Rightarrow> folder_map option"
    and fresh :: "folder_map \<Rightarrow> string \<Rightarrow> WorkflowFolder \<Rightarrow> WorkflowFolder"
  assumes stop: "loop None m = Some m"
    and climb: "folder_forest m \<Longrightarrow> map_of m i = Some f \<Longrightarrow> loop (Some i) m =
      (if truthy (fo_parentId f) then loop (fo_parentId f) (map_set i (fresh m i f) m)
       else Some (map_set i (fresh m i f) m))"
    and data: "folder_data (fresh m i f) = folder_data f"
    and by_links: "same_links m m' \<Longrightarrow> fresh m = fresh m'"
begin

lemma returns:
  "folder_forest m \<Longrightarrow> map_of m i = Some f \<Longrightarrow>
     \<exists>m'. loop (Some i) m = Some m' \<and> recounted m (ups m (Some i)) (fresh m) m'"
proof (induction "folder_depth m i" arbitrary: m i f rule: less_induct)
  case less
  note m = less(2) and i = less(3)
  let ?m1 = "map_set i (fresh m i f) m"
  note step = climb [OF m i] forest_parent_truthy [OF m i]
  have links: "same_links m ?m1" by (rule same_links_map_set(1) [OF m i data])
  have climbed: "recounted m (ups m (Some i)) (fresh m) m'" if "recounted ?m1 (ups m (fo_parentId f)) (fresh m) m'" for m'
    by (rule recounted_climb [OF m i data that])
  show ?case
  proof (cases "fo_parentId f")
    case None
    then show ?thesis using step climbed [of ?m1] recounted_none by simp
  next
    case (Some p)
    obtain h where h: "map_of m p = Some h" using forest_parentD [OF m i Some] by blast
    then obtain h1 where h1: "map_of ?m1 p = Some h1" by (cases "p = i") auto
    have "(i, p) \<in> parent_of m" using i Some by (simp add: parent_of_def)
    then have "folder_depth ?m1 p < folder_depth m i"
      using parent_of_depth [OF m] same_links_depth [OF links m h] by simp
    then obtain m' where m': "loop (Some p) ?m1 = Some m'"
      "recounted ?m1 (ups ?m1 (Some p)) (fresh ?m1) m'"
      using less(1) [OF _ same_links_forest [OF links m] h1] by blast
    then have "recounted ?m1 (ups m (fo_parentId f)) (fresh m) m'"
      using Some same_links_ups [OF links] by_links [OF links] by simp
    then show ?thesis using step Some m'(1) climbed by auto
  qed
qed

lemma returns_from:
  assumes "folder_forest m" and "\<And>i. p = Some i \<Longrightarrow> map_of m i \<noteq> None"
  shows "\<exists>m'. loop p m = Some m' \<and> recounted m (ups m p) (fresh m) m'"
proof (cases p)
  case (Some i)
  then obtain f where "map_of m i = Some f" using assms(2) [OF Some] by blast
  then show ?thesis using returns [OF assms(1)] Some by blast
qed (simp add: stop recounted_none)

end

interpretation descendant_loop: climbing_loop "updateDescendantCounts now"
  "\<lambda>m i f. set_updated now (set_descendantCount (card (below m i)) f)"
proof unfold_locales
  show "updateDescendantCounts now None m = Some m" for m by (subst updateDescendantCounts.simps) simp
next
  fix m i f assume m: "folder_forest m" and i: "map_of m i = Some f"
  obtain ds where ds: "getFolderDescendants m i = Some ds" "length ds = card (below m i)"
    using descendant_count [OF m i] by blast
  then show "updateDescendantCounts now (Some i) m =
      (if truthy (fo_parentId f)
       then updateDescendantCounts now (fo_parentId f) (map_set i (set_updated now (set_descendantCount (card (below m i)) f)) m)
       else Some (map_set i (set_updated now (set_descendantCount (card (below m i)) f)) m))"
    using i forest_idD [OF m i] by (subst updateDescendantCounts.simps) (simp add: store_descendantCount_def)
qed (simp_all add: same_links_below)

interpretation workflow_loop: climbing_loop "updateWorkflowCounts as now"
  "\<lambda>m i f. set_updated now (set_workflowCount (workflows_at as i) f)"
proof unfold_locales
  show "updateWorkflowCounts as now None m = Some m" for m by (subst updateWorkflowCounts.simps) simp
next
  fix m i f assume m: "folder_forest m" and i: "map_of m i = Some f"
  then show "updateWorkflowCounts as now (Some i) m =
      (if truthy (fo_parentId f)
       then updateWorkflowCounts as now (fo_parentId f) (map_set i (set_updated now (set_workflowCount (workflows_at as i) f)) m)
       else Some (map_set i (set_updated now (set_workflowCount (workflows_at as i) f)) m))"
    using forest_idD [OF m i] by (subst updateWorkflowCounts.simps) (simp add: store_workflowCount_def)
qed simp_all

lemma recount_descendants_above:
  assumes m: "folder_forest m" and p: "\<And>i. p = Some i \<Longrightarrow> map_of m i \<noteq> None" and counts: "counts_but T as m"
  shows "\<exists>m'. updateDescendantCounts now p m = Some m' \<and> same_links m m' \<and> same_data m m' \<and> counts_but (T - ups m p) as m'"
proof -
  obtain m' where m': "updateDescendantCounts now p m = Some m'"
    "recounted m (ups m p) (\<lambda>i f. set_updated now (set_descendantCount (card (below m i)) f)) m'"
    using descendant_loop.returns_from [of m p, OF m p] by blast
  have "counts_but (T - ups m p) as m'"
    unfolding counts_but_def
  proof (intro allI impI)
    fix i f' assume "map_of m' i = Some f'"
    then obtain f where f: "map_of m i = Some f"
      "f' = (if i \<in> ups m p then set_updated now (set_descendantCount (card (below m i)) f) else f)"
      using m'(2) by (auto simp: recounted_def)
    then show "fmd_workflowCount (fo_metadata f') = Some (workflows_at as i) \<and>
        (i \<notin> T - ups m p \<longrightarrow> fmd_descendantCount (fo_metadata f') = Some (card (below m' i)))"
      using counts m'(2) same_links_below(1) [of m m'] by (simp add: counts_but_def recounted_def)
  qed
  then show ?thesis using m' by (auto simp: recounted_def)
qed

lemma recount_workflows_above:
  assumes m: "folder_forest m" and p: "map_of m p = Some f" and counts: "counts_but T as m"
    and others: "\<And>i. i \<noteq> p \<Longrightarrow> workflows_at as' i = workflows_at as i"
  shows "\<exists>m'. updateWorkflowCounts as' now (Some p) m = Some m' \<and> same_links m m' \<and> same_data m m' \<and> counts_but T as' m'"
proof -
  obtain m' where m': "updateWorkflowCounts as' now (Some p) m = Some m'"
    "recounted m (ups m (Some p)) (\<lambda>i f. set_updated now (set_workflowCount (workflows_at as' i) f)) m'"
    using workflow_loop.returns [of m p f, OF m p] by blast
  have "p \<in> ups m (Some p)" by (simp add: ups_def)
  have "counts_but T as' m'"
    unfolding counts_but_def
  proof (intro allI impI)
    fix i f' assume "map_of m' i = Some f'"
    then obtain f where f: "map_of m i = Some f"
      "f' = (if i \<in> ups m (Some p) then set_updated now (set_workflowCount (workflows_at as' i) f) else f)"
      using m'(2) by (auto simp: recounted_def)
    then have "workflows_at as' i = workflows_at as i" if "i \<notin> ups m (Some p)"
      using others [of i] that \<open>p \<in> ups m (Some p)\<close> by blast
    then show "fmd_workflowCount (fo_metadata f') = Some (workflows_at as' i) \<and>
        (i \<notin> T \<longrightarrow> fmd_descendantCount (fo_metadata f') = Some (card (below m' i)))"
      using f counts m'(2) same_links_below(1) [of m m']
      by (auto simp: counts_but_def recounted_def)
  qed
  then show ?thesis using m' by (auto simp: recounted_def)
qed

section \<open>All counts\<close>

lemma depths_of_known:
  assumes m: "folder_forest m"
  shows "set es \<subseteq> set m \<Longrightarrow> \<exists>ds. depths_of m es = Some ds \<and> map snd ds = es"
proof (induction es)
  case (Cons e es)
  obtain i f where e: "e = (i, f)" by (cases e)
  then have "map_of m i = Some f" using Cons.prems forest_distinct [OF m] by simp
  then have "calculateDepth m (Some (fo_id f)) 0 = Some (folder_depth m i)"
    using forest_depth(1) [OF m] forest_idD [OF m] by auto
  then show ?case using Cons e by auto
qed simp

lemma recount_descendants_exact:
  assumes "distinct (map fst es)"
  shows "folder_forest m \<Longrightarrow> (\<forall>(i, f)\<in>set es. fo_id f = i \<and> map_of m i = Some f) \<Longrightarrow>
    \<exists>m'. recount_descendants m es = (True, m') \<and> recounted m (fst ` set es) (\<lambda>i. set_descendantCount (card (below m i))) m'"
  using assms
proof (induction es arbitrary: m)
  case (Cons e es)
  obtain i f where e: "e = (i, f)" by (cases e)
  note m = Cons.prems(1)
  have i: "map_of m i = Some f" "fo_id f = i" using Cons.prems(2) e by auto
  let ?m1 = "map_set i (set_descendantCount (card (below m i)) f) m"
  have keep: "same_links m ?m1" "same_data m ?m1" by (rule same_links_map_set [OF m i(1)], simp)+
  obtain ds where ds: "getFolderDescendants m i = Some ds" "length ds = card (below m i)"
    using descendant_count [OF m i(1)] by blast
  have "\<forall>(j, g)\<in>set es. fo_id g = j \<and> map_of ?m1 j = Some g"
  proof (intro ballI case_prodI2)
    fix x j g assume x: "x \<in> set es" "x = (j, g)"
    then have "fo_id g = j" "map_of m j = Some g" using Cons.prems(2) by auto
    moreover have "j \<noteq> i" using Cons.prems(3) e x by force
    ultimately show "fo_id g = j \<and> map_of ?m1 j = Some g" by simp
  qed
  then obtain m' where m': "recount_descendants ?m1 es = (True, m')"
    "recounted ?m1 (fst ` set es) (\<lambda>i. set_descendantCount (card (below ?m1 i))) m'"
    using Cons.IH [OF same_links_forest [OF keep(1) m]] Cons.prems(3) by auto
  have "i \<notin> fst ` set es" using Cons.prems(3) e by auto
  then have "recounted m (fst ` set (e # es)) (\<lambda>i. set_descendantCount (card (below m i))) m'"
    using m'(2) keep i e same_links_below(1) [OF keep(1)]
    by (auto simp: recounted_def intro: same_links_trans same_data_trans)
  then show ?case using m'(1) ds i e by auto
qed (simp add: recounted_none)

definition counted :: "FolderAssociation list \<Rightarrow> folder_map \<Rightarrow> bool" where
  "counted as m \<longleftrightarrow> counts_but {} as m"

lemma folder_map_eqI:
  fixes m m' :: folder_map
  assumes "map fst m = map fst m'" and "distinct (map fst m)" and "\<And>i. map_of m i = map_of m' i"
  shows "m = m'"
proof -
  have by_keys: "xs = map (\<lambda>k. (k, the (map_of xs k))) (map fst xs)" if "distinct (map fst xs)" for xs :: folder_map
  proof (rule nth_equalityI)
    fix k assume "k < length xs"
    then have "map_of xs (fst (xs ! k)) = Some (snd (xs ! k))" using that by (intro map_of_is_SomeI) simp_all
    then show "xs ! k = map (\<lambda>k. (k, the (map_of xs k))) (map fst xs) ! k" using \<open>k < length xs\<close> by simp
  qed simp
  have "map_of m = map_of m'" using assms(3) by (rule ext)
  then have "map (\<lambda>k. (k, the (map_of m k))) (map fst m) = map (\<lambda>k. (k, the (map_of m' k))) (map fst m')"
    using assms(1) by simp
  moreover have "distinct (map fst m')" using assms(1,2) by simp
  ultimately show ?thesis using by_keys [OF assms(2)] by_keys [of m'] by simp
qed

lemma recalculate_exact:
  assumes m: "folder_forest m"
  shows "\<exists>m'. recalculateAllCounts as m = Some (True, m') \<and> same_links m m' \<and> same_data m m' \<and> counted as m'
    \<and> (counted as m \<longrightarrow> m' = m)"
proof -
  let ?m1 = "map (\<lambda>(i, f). (i, set_workflowCount (workflows_at as (fo_id f)) f)) m"
  have lookup: "map_of ?m1 i = map_option (\<lambda>f. set_workflowCount (workflows_at as (fo_id f)) f) (map_of m i)" for i
    using map_of_map [of "\<lambda>f. set_workflowCount (workflows_at as (fo_id f)) f" m] by simp
  have links: "same_links m ?m1" by (simp add: same_links_def links_def case_prod_beta o_def)
  have data: "same_data m ?m1" by (simp add: same_data_def lookup option.map_comp o_def)
  note m1 = same_links_forest [OF links m]
  obtain ds where ds: "depths_of ?m1 ?m1 = Some ds" "map snd ds = ?m1"
    using depths_of_known [OF m1, of ?m1] by auto
  let ?es = "if length ?m1 < 2 then ?m1 else map snd (sort_key (\<lambda>(d, e). - int d) ds)"
  have perm: "mset ?es = mset ?m1"
  proof -
    have "mset (map snd (sort_key (\<lambda>(d, e). - int d) ds)) = mset ?m1" unfolding ds(2) [symmetric] by simp
    then show ?thesis by (simp only: if_distrib [of mset] if_cancel)
  qed
  then have "mset (map fst ?es) = mset (map fst ?m1)" by (simp only: mset_map)
  then have "distinct (map fst ?es) = distinct (map fst ?m1)" by (rule mset_eq_imp_distinct_iff)
  then have es: "set ?es = set ?m1" "distinct (map fst ?es)"
    using forest_distinct [OF m1] by (simp only: mset_eq_setD [OF perm], simp only:)
  have "\<forall>(i, f)\<in>set ?es. fo_id f = i \<and> map_of ?m1 i = Some f"
  proof (intro ballI case_prodI2)
    fix e i f assume "e \<in> set ?es" "e = (i, f)"
    then have "(i, f) \<in> set ?m1" using es(1) by (simp only:)
    then have at: "map_of ?m1 i = Some f" by (rule map_of_is_SomeI [OF forest_distinct [OF m1]])
    have "fo_id f = i" by (rule conjunct1 [OF forest_idD [OF m1 at]])
    then show "fo_id f = i \<and> map_of ?m1 i = Some f" using at by (rule conjI)
  qed
  then obtain m' where m': "recount_descendants ?m1 ?es = (True, m')"
    "recounted ?m1 (fst ` set ?es) (\<lambda>i. set_descendantCount (card (below ?m1 i))) m'"
    using recount_descendants_exact [OF es(2) m1] by blast
  have result: "map_of m' i = map_option (\<lambda>f. set_descendantCount (card (below m i)) (set_workflowCount (workflows_at as i) f)) (map_of m i)" for i
  proof (cases "map_of m i")
    case None
    then show ?thesis using m'(2) lookup by (simp add: recounted_def)
  next
    case (Some f)
    then have "map_of ?m1 i = Some (set_workflowCount (workflows_at as i) f)" using lookup forest_idD [OF m Some] by simp
    moreover from this have "i \<in> fst ` set ?es" unfolding es(1) by (force dest: map_of_SomeD)
    ultimately show ?thesis using m'(2) Some same_links_below(1) [OF links] by (simp add: recounted_def)
  qed
  have links': "same_links m m'" and data': "same_data m m'"
    using links data m'(2) unfolding recounted_def by (blast intro: same_links_trans same_data_trans)+
  have "counted as m'"
    using same_links_below(1) [OF links'] by (auto simp: counted_def counts_but_def result)
  moreover have "m' = m" if "counted as m"
  proof (rule folder_map_eqI [symmetric])
    show "map fst m = map fst m'" by (rule same_links_keys [OF links'])
    fix i
    show "map_of m i = map_of m' i"
    proof (cases "map_of m i")
      case (Some f)
      then have "fmd_workflowCount (fo_metadata f) = Some (workflows_at as i)"
        "fmd_descendantCount (fo_metadata f) = Some (card (below m i))"
        using that by (auto simp: counted_def counts_but_def)
      then have "set_descendantCount (card (below m i)) (set_workflowCount (workflows_at as i) f) = f"
        by (simp add: set_descendantCount_def set_workflowCount_def)
      then show ?thesis using Some result by simp
    qed (simp add: result)
  qed (rule forest_distinct [OF m])
  moreover have "recalculateAllCounts as m = Some (True, m')"
    using ds(1) m'(1) by (simp add: recalculateAllCounts_def Let_def split: if_splits)
  ultimately show ?thesis using links' data' by blast
qed

end
