(* ===== verification/Folder_Invariant.thy ===== *)
theory Folder_Invariant
  imports Folder_Counts
begin

text \<open>
  The invariant of the folder manager: the folders are a forest of depth at most ten, every workflow
  is in at most one folder, which exists, and the counts are exact. Every operation returns and keeps it,
  with the exceptions that the theorems on imports, empty parents and deletion name.
\<close>

section \<open>The invariant\<close>

definition folder_inv :: "FolderManager \<Rightarrow> bool" where
  "folder_inv s =
     (let m = fm_folders s; as = fm_associations s in
      folder_forest m \<and> distinct (map as_workflowId as)
      \<and> list_all (\<lambda>a. as_folderId a \<in> set (map fst m)) as
      \<and> list_all (\<lambda>(i, f). fmd_workflowCount (fo_metadata f) = Some (workflows_at as i)
           \<and> fmd_descendantCount (fo_metadata f) = map_option length (getFolderDescendants m i)) m)"

text \<open>The folder of a workflow.\<close>

definition folder_of :: "FolderManager \<Rightarrow> string \<Rightarrow> string option" where
  "folder_of s = map_of (map (\<lambda>a. (as_workflowId a, as_folderId a)) (fm_associations s))"

lemma known_iff: "i \<in> set (map fst m) \<longleftrightarrow> map_of m i \<noteq> None"
  by (simp add: map_of_eq_None_iff)

lemma folder_inv_iff:
  "folder_inv s \<longleftrightarrow> folder_forest (fm_folders s) \<and> distinct (map as_workflowId (fm_associations s))
     \<and> (\<forall>a\<in>set (fm_associations s). map_of (fm_folders s) (as_folderId a) \<noteq> None)
     \<and> counted (fm_associations s) (fm_folders s)"
proof -
  let ?m = "fm_folders s" and ?as = "fm_associations s"
  have "list_all (\<lambda>(i, f). fmd_workflowCount (fo_metadata f) = Some (workflows_at ?as i)
      \<and> fmd_descendantCount (fo_metadata f) = map_option length (getFolderDescendants ?m i)) ?m \<longleftrightarrow> counted ?as ?m"
    if m: "folder_forest ?m"
  proof -
    have entry: "(i, f) \<in> set ?m \<longleftrightarrow> map_of ?m i = Some f" for i f
      using forest_distinct [OF m] by auto
    have len: "map_option length (getFolderDescendants ?m i) = Some (card (below ?m i))" if "map_of ?m i = Some f" for i f
      using descendant_count [OF m that] by auto
    have all: "list_all (\<lambda>(i, f). P i f) ?m \<longleftrightarrow> (\<forall>i f. map_of ?m i = Some f \<longrightarrow> P i f)" for P
      using entry by (force simp: list_all_iff)
    show ?thesis unfolding all counted_def counts_but_def
      by (rule iff_allI, rule iff_allI, rule imp_cong [OF refl]) (simp add: len)
  qed
  then show ?thesis unfolding folder_inv_def Let_def list_all_iff known_iff by blast
qed

lemma folder_invD:
  assumes "folder_inv s"
  shows "folder_forest (fm_folders s)" and "distinct (map as_workflowId (fm_associations s))"
    and "a \<in> set (fm_associations s) \<Longrightarrow> map_of (fm_folders s) (as_folderId a) \<noteq> None"
    and "counted (fm_associations s) (fm_folders s)"
  using assms by (simp_all add: folder_inv_iff)

lemma save_folders_simps [simp]:
  "fm_folders (save_folders now s) = fm_folders s" "fm_associations (save_folders now s) = fm_associations s"
  by (simp_all add: save_folders_def)

lemma folder_inv_cong:
  "fm_folders s = fm_folders s' \<Longrightarrow> fm_associations s = fm_associations s' \<Longrightarrow> folder_inv s = folder_inv s'"
  by (simp add: folder_inv_def)

lemma folder_inv_save [simp]: "folder_inv (save_folders now s) = folder_inv s"
  by (rule folder_inv_cong) simp_all

lemma folder_of_save [simp]: "folder_of (save_folders now s) = folder_of s"
  by (simp add: folder_of_def)

lemma folder_of_find:
  "folder_of s w = map_option as_folderId (find (\<lambda>a. as_workflowId a = w) (fm_associations s))"
proof -
  have "map_of (map (\<lambda>a. (as_workflowId a, as_folderId a)) as) w = map_option as_folderId (find (\<lambda>a. as_workflowId a = w) as)"
    for as :: "FolderAssociation list"
    by (induction as) auto
  then show ?thesis by (simp add: folder_of_def)
qed

lemma folder_of_mem:
  "distinct (map as_workflowId (fm_associations s)) \<Longrightarrow>
     folder_of s w = Some i \<longleftrightarrow> (\<exists>a\<in>set (fm_associations s). as_workflowId a = w \<and> as_folderId a = i)"
proof -
  assume "distinct (map as_workflowId (fm_associations s))"
  then have "distinct (map fst (map (\<lambda>a. (as_workflowId a, as_folderId a)) (fm_associations s)))" by (simp add: o_def)
  then show ?thesis by (auto simp: folder_of_def map_of_eq_Some_iff simp del: map_map)
qed

lemma same_links_known: "same_links m m' \<Longrightarrow> map_of m' i = None \<longleftrightarrow> map_of m i = None"
  using same_links_lookup [of m m' i] by (cases "map_of m i"; cases "map_of m' i") auto

section \<open>Workflows\<close>

lemma workflows_at_filter:
  fixes as :: "FolderAssociation list"
  shows
  "distinct (map as_workflowId as) \<Longrightarrow> a \<in> set as \<Longrightarrow> i \<noteq> as_folderId a \<Longrightarrow>
     workflows_at (filter (\<lambda>b. as_workflowId b \<noteq> as_workflowId a) as) i = workflows_at as i"
proof -
  assume d: "distinct (map as_workflowId as)" and a: "a \<in> set as" and i: "i \<noteq> as_folderId a"
  have "as_workflowId b \<noteq> as_workflowId a" if "b \<in> set as" "as_folderId b = i" for b
    using d a i that by (metis distinct_map inj_onD)
  then have "filter (\<lambda>b. as_folderId b = i) (filter (\<lambda>b. as_workflowId b \<noteq> as_workflowId a) as) = filter (\<lambda>b. as_folderId b = i) as"
    by (simp add: filter_filter) (rule filter_cong, auto)
  then show ?thesis by (simp add: workflows_at_def)
qed

lemma remove1_by_key:
  fixes as :: "FolderAssociation list"
  shows
  "distinct (map as_workflowId as) \<Longrightarrow> a \<in> set as \<Longrightarrow> remove1 a as = filter (\<lambda>b. as_workflowId b \<noteq> as_workflowId a) as"
proof (induction as)
  case (Cons b as)
  show ?case
  proof (cases "b = a")
    case True
    then have "as_workflowId c \<noteq> as_workflowId a" if "c \<in> set as" for c
      using Cons.prems(1) imageI [OF that, of as_workflowId] by auto
    then show ?thesis using True by (simp add: filter_id_conv)
  next
    case False
    then have "as_workflowId b \<noteq> as_workflowId a" using Cons.prems by auto
    then show ?thesis using False Cons by simp
  qed
qed simp

text \<open>What a change of associations leaves alone.\<close>

definition folders_kept :: "FolderManager \<Rightarrow> FolderManager \<Rightarrow> bool" where
  "folders_kept s s' \<longleftrightarrow> same_links (fm_folders s) (fm_folders s') \<and> same_data (fm_folders s) (fm_folders s')"

lemma folders_kept_refl [simp]: "folders_kept s s"
  by (simp add: folders_kept_def)

lemma folders_kept_trans [trans]: "folders_kept a b \<Longrightarrow> folders_kept b c \<Longrightarrow> folders_kept a c"
  by (auto simp: folders_kept_def intro: same_links_trans same_data_trans)

lemma folders_kept_known: "folders_kept s s' \<Longrightarrow> map_of (fm_folders s') i = None \<longleftrightarrow> map_of (fm_folders s) i = None"
  by (simp add: folders_kept_def same_links_known)

lemma remove_exact:
  assumes inv: "folder_inv s"
  shows "\<exists>ws s'. removeWorkflowFromFolder now w s = Some (ws, s') \<and> folder_inv s' \<and> folders_kept s s'
    \<and> fm_associations s' = filter (\<lambda>a. as_workflowId a \<noteq> w) (fm_associations s)"
proof (cases "find (\<lambda>a. as_workflowId a = w) (fm_associations s)")
  case None
  then have "filter (\<lambda>a. as_workflowId a \<noteq> w) (fm_associations s) = fm_associations s"
    by (auto simp: find_None_iff filter_id_conv)
  then show ?thesis using None inv by (simp add: removeWorkflowFromFolder_def)
next
  case (Some a)
  then have a: "a \<in> set (fm_associations s)" "as_workflowId a = w" by (auto simp: find_Some_iff)
  let ?as = "filter (\<lambda>b. as_workflowId b \<noteq> w) (fm_associations s)"
  note D = folder_invD [OF inv]
  have removed: "remove1 a (fm_associations s) = ?as" using remove1_by_key [OF D(2) a(1)] a(2) by simp
  obtain f where f: "map_of (fm_folders s) (as_folderId a) = Some f" using D(3) [OF a(1)] by blast
  obtain m' where m': "updateWorkflowCounts ?as now (Some (as_folderId a)) (fm_folders s) = Some m'"
    "same_links (fm_folders s) m'" "same_data (fm_folders s) m'" "counted ?as m'"
    using recount_workflows_above [OF D(1) f D(4) [unfolded counted_def], of ?as now] workflows_at_filter [OF D(2) a(1)] a(2)
    unfolding counted_def by blast
  let ?s' = "save_folders now (s\<lparr>fm_folders := m', fm_associations := ?as\<rparr>)"
  have "folder_inv ?s'"
    using D same_links_forest [OF m'(2)] same_links_known [OF m'(2)] m'(4)
    by (auto simp: folder_inv_iff distinct_map_filter)
  moreover have "removeWorkflowFromFolder now w s = Some ([], ?s')"
    using Some m'(1) removed by (simp add: removeWorkflowFromFolder_def)
  ultimately show ?thesis using m'(2,3) by (simp add: folders_kept_def)
qed

lemma folder_of_remove:
  "fm_associations s' = filter (\<lambda>a. as_workflowId a \<noteq> w) (fm_associations s) \<Longrightarrow> folder_of s' = (folder_of s)(w := None)"
proof -
  have "map_of (map (\<lambda>a. (as_workflowId a, as_folderId a)) (filter (\<lambda>a. as_workflowId a \<noteq> w) as)) v =
      ((map_of (map (\<lambda>a. (as_workflowId a, as_folderId a)) as))(w := None)) v" for as :: "FolderAssociation list" and v
    by (induction as) auto
  then show "fm_associations s' = filter (\<lambda>a. as_workflowId a \<noteq> w) (fm_associations s) \<Longrightarrow> ?thesis"
    by (simp add: folder_of_def fun_eq_iff)
qed

lemma add_exact:
  assumes inv: "folder_inv s" and t: "map_of (fm_folders s) t \<noteq> None"
  shows "\<exists>ws s'. addWorkflowToFolder now w t s = Some (Inr ws, s') \<and> folder_inv s' \<and> folders_kept s s'
    \<and> folder_of s' = (folder_of s)(w \<mapsto> t)"
proof -
  have known: "t \<in> set (map fst (fm_folders s))" using t by (simp only: known_iff) simp
  let ?existing = "find (\<lambda>a. as_workflowId a = w) (fm_associations s)"
  show ?thesis
  proof (cases "folder_of s w = Some t")
    case True
    then obtain a where "?existing = Some a" "as_folderId a = t" by (auto simp: folder_of_find)
    then have "addWorkflowToFolder now w t s = Some (Inr [''Workflow already in this folder''], s)"
      using known by (simp add: addWorkflowToFolder_def)
    then show ?thesis using inv True by (simp add: fun_upd_idem)
  next
    case False
    obtain ws s1 where s1: "(if ?existing \<noteq> None then removeWorkflowFromFolder now w s else Some ([], s)) = Some (ws, s1)"
      "folder_inv s1" "folders_kept s s1" "fm_associations s1 = filter (\<lambda>a. as_workflowId a \<noteq> w) (fm_associations s)"
    proof (cases ?existing)
      case None
      then have "filter (\<lambda>a. as_workflowId a \<noteq> w) (fm_associations s) = fm_associations s"
        by (auto simp: find_None_iff filter_id_conv)
      then show ?thesis using that [of "[]" s] None inv by simp
    next
      case (Some a)
      then show ?thesis using remove_exact [OF inv, of now w] that by auto
    qed
    note D = folder_invD [OF s1(2)]
    let ?new = "\<lparr>as_workflowId = w, as_folderId = t, as_addedAt = now\<rparr>"
    let ?as = "fm_associations s1 @ [?new]"
    obtain f where f: "map_of (fm_folders s1) t = Some f" using t folders_kept_known [OF s1(3), of t] by auto
    have "workflows_at ?as i = workflows_at (fm_associations s1) i" if "i \<noteq> t" for i
      using that by (simp add: workflows_at_def)
    then obtain m' where m': "updateWorkflowCounts ?as now (Some t) (fm_folders s1) = Some m'"
      "same_links (fm_folders s1) m'" "same_data (fm_folders s1) m'" "counted ?as m'"
      using recount_workflows_above [OF D(1) f D(4) [unfolded counted_def], of ?as now] unfolding counted_def by blast
    let ?s' = "save_folders now (s1\<lparr>fm_folders := m', fm_associations := ?as\<rparr>)"
    have "w \<notin> as_workflowId ` set (fm_associations s1)" using s1(4) by auto
    then have "folder_inv ?s'"
      using D same_links_forest [OF m'(2)] same_links_known [OF m'(2)] m'(4) f
      by (auto simp: folder_inv_iff)
    moreover have "addWorkflowToFolder now w t s = Some (Inr [], ?s')"
    proof -
      have "\<not> (case ?existing of None \<Rightarrow> False | Some a \<Rightarrow> as_folderId a = t)"
        using False by (auto simp: folder_of_find split: option.splits)
      then show ?thesis using known s1(1) m'(1) by (simp add: addWorkflowToFolder_def)
    qed
    moreover have "folder_of ?s' = (folder_of s)(w \<mapsto> t)"
    proof -
      have "folder_of ?s' v = (case folder_of s1 v of None \<Rightarrow> if v = w then Some t else None | Some x \<Rightarrow> Some x)" for v
        by (auto simp: folder_of_def map_add_def split: option.split)
      then show ?thesis using folder_of_remove [OF s1(4)] by (auto simp: fun_eq_iff split: option.split)
    qed
    moreover have "folders_kept s ?s'" using s1(3) m'(2,3)
      by (auto simp: folders_kept_def intro: same_links_trans same_data_trans)
    ultimately show ?thesis by blast
  qed
qed

lemma add_unknown: "map_of (fm_folders s) t = None \<Longrightarrow> addWorkflowToFolder now w t s = Some (Inl (''Folder not found: '' @ t), s)"
  by (simp add: addWorkflowToFolder_def map_of_eq_None_iff)

section \<open>Changing folders\<close>

lemma below_unchanged:
  assumes "\<And>a b. (a, b) \<in> parent_of m \<Longrightarrow> (a, b) \<notin> parent_of m' \<Longrightarrow> (b, k) \<notin> (parent_of m)\<^sup>*"
    and "\<And>a b. (a, b) \<in> parent_of m' \<Longrightarrow> (a, b) \<notin> parent_of m \<Longrightarrow> (b, k) \<notin> (parent_of m')\<^sup>*"
  shows "below m k = below m' k"
  using trancl_transfer [of _ k "parent_of m" "parent_of m'"] trancl_transfer [of _ k "parent_of m'" "parent_of m"] assms
  unfolding below_def by blast

lemma rtrancl_avoid:
  "(p, k) \<in> r\<^sup>* \<Longrightarrow> (p, x) \<notin> r\<^sup>* \<Longrightarrow> (\<And>a b. (a, b) \<in> r \<Longrightarrow> a \<noteq> x \<Longrightarrow> (a, b) \<in> r') \<Longrightarrow> (p, k) \<in> r'\<^sup>*"
  by (induction rule: rtrancl_induct) (auto intro: rtrancl_into_rtrancl)

lemma ups_keep:
  assumes m: "folder_forest m" and x: "map_of m x = Some f"
    and links: "\<And>a b. a \<noteq> x \<Longrightarrow> (a, b) \<in> parent_of m \<Longrightarrow> (a, b) \<in> parent_of m'"
  shows "ups m (fo_parentId f) \<subseteq> ups m' (fo_parentId f)"
proof
  fix k assume "k \<in> ups m (fo_parentId f)"
  then obtain p where p: "fo_parentId f = Some p" "(p, k) \<in> (parent_of m)\<^sup>*" by (auto simp: ups_def)
  have "(p, x) \<notin> (parent_of m)\<^sup>*" using ups_irrefl [OF m x] p(1) by (auto simp: ups_def)
  then have "(p, k) \<in> (parent_of m')\<^sup>*" using rtrancl_avoid [OF p(2)] links by blast
  then show "k \<in> ups m' (fo_parentId f)" using p(1) by (auto simp: ups_def)
qed

text \<open>After a change that the counts are recomputed above of.\<close>

lemma put_exact:
  assumes inv: "folder_inv s" and x: "map_of (fm_folders s) x = Some f" and f': "fo_id f' = x"
    and m1: "folder_forest (map_set x f' (fm_folders s))"
    and counts: "fmd_workflowCount (fo_metadata f') = fmd_workflowCount (fo_metadata f)"
      "fmd_descendantCount (fo_metadata f') = fmd_descendantCount (fo_metadata f)"
  shows "\<exists>m'. (if fo_parentId f = fo_parentId f' then Some (map_set x f' (fm_folders s))
      else do { m2 \<leftarrow> updateDescendantCounts now (fo_parentId f) (map_set x f' (fm_folders s));
                updateDescendantCounts now (fo_parentId f') m2 }) = Some m'
    \<and> folder_inv (save_folders now (s\<lparr>fm_folders := m'\<rparr>))
    \<and> same_links (map_set x f' (fm_folders s)) m' \<and> same_data (map_set x f' (fm_folders s)) m'"
proof -
  let ?m = "fm_folders s" and ?as = "fm_associations s"
  let ?m1 = "map_set x f' ?m"
  let ?T = "ups ?m (fo_parentId f) \<union> ups ?m1 (fo_parentId f')"
  note D = folder_invD [OF inv]
  have known: "map_of ?m1 i = None \<longleftrightarrow> map_of ?m i = None" for i using x by simp
  have inv': "folder_inv (save_folders now (s\<lparr>fm_folders := m'\<rparr>))" if "same_links ?m1 m'" "counted ?as m'" for m'
    using D that same_links_forest [OF that(1) m1] same_links_known [OF that(1)] known by (simp add: folder_inv_iff)
  have link: "(x, b) \<in> parent_of ?m \<longleftrightarrow> fo_parentId f = Some b" for b using x by (simp add: parent_of_def)
  have link1: "(a, b) \<in> parent_of ?m1 \<longleftrightarrow> (if a = x then fo_parentId f' = Some b else (a, b) \<in> parent_of ?m)" for a b
    unfolding parent_of_map_set by auto
  have below: "below ?m k = below ?m1 k" if "fo_parentId f = fo_parentId f' \<or> k \<notin> ?T" for k
  proof (rule below_unchanged)
    fix a b assume e: "(a, b) \<in> parent_of ?m" "(a, b) \<notin> parent_of ?m1"
    then have "a = x" by (auto simp: link1 split: if_splits)
    then have "fo_parentId f = Some b" "fo_parentId f' \<noteq> Some b" using e link link1 by auto
    then show "(b, k) \<notin> (parent_of ?m)\<^sup>*" using that by (auto simp: ups_def)
  next
    fix a b assume e: "(a, b) \<in> parent_of ?m1" "(a, b) \<notin> parent_of ?m"
    then have "a = x" by (auto simp: link1 split: if_splits)
    then have "fo_parentId f' = Some b" "fo_parentId f \<noteq> Some b" using e link link1 by auto
    then show "(b, k) \<notin> (parent_of ?m1)\<^sup>*" using that by (auto simp: ups_def)
  qed
  have but: "counts_but (if fo_parentId f = fo_parentId f' then {} else ?T) ?as ?m1"
    unfolding counts_but_def
  proof (intro allI impI)
    fix i g assume "map_of ?m1 i = Some g"
    then obtain h where h: "map_of ?m i = Some h" "fmd_workflowCount (fo_metadata g) = fmd_workflowCount (fo_metadata h)"
      "fmd_descendantCount (fo_metadata g) = fmd_descendantCount (fo_metadata h)"
      using x counts by (cases "i = x") auto
    then have "fmd_workflowCount (fo_metadata h) = Some (workflows_at ?as i)"
      "fmd_descendantCount (fo_metadata h) = Some (card (below ?m i))"
      using D(4) by (auto simp: counted_def counts_but_def)
    then show "fmd_workflowCount (fo_metadata g) = Some (workflows_at ?as i) \<and>
        (i \<notin> (if fo_parentId f = fo_parentId f' then {} else ?T) \<longrightarrow>
         fmd_descendantCount (fo_metadata g) = Some (card (below ?m1 i)))"
      using h(2,3) below [of i] by auto
  qed
  show ?thesis
  proof (cases "fo_parentId f = fo_parentId f'")
    case True
    then show ?thesis using but inv' [of ?m1] by (simp add: counted_def)
  next
    case False
    have old: "map_of ?m1 i \<noteq> None" if "fo_parentId f = Some i" for i
      using forest_parentD [OF D(1) x that] by simp
    obtain m2 where m2: "updateDescendantCounts now (fo_parentId f) ?m1 = Some m2" "same_links ?m1 m2" "same_data ?m1 m2"
      "counts_but (?T - ups ?m1 (fo_parentId f)) ?as m2"
      using recount_descendants_above [OF m1, of "fo_parentId f" ?T ?as now] old but False by auto
    have x1: "map_of ?m1 x = Some f'" by simp
    have new: "map_of m2 i \<noteq> None" if "fo_parentId f' = Some i" for i
      using forest_parentD [OF m1 x1 that] same_links_known [OF m2(2)] by auto
    obtain m' where m': "updateDescendantCounts now (fo_parentId f') m2 = Some m'" "same_links m2 m'" "same_data m2 m'"
      "counts_but ((?T - ups ?m1 (fo_parentId f)) - ups m2 (fo_parentId f')) ?as m'"
      using recount_descendants_above [OF same_links_forest [OF m2(2) m1], of "fo_parentId f'", OF _ m2(4), of now] new by blast
    have "ups ?m (fo_parentId f) \<subseteq> ups ?m1 (fo_parentId f)"
      by (rule ups_keep [OF D(1) x]) (simp add: parent_of_map_set)
    then have "(?T - ups ?m1 (fo_parentId f)) - ups m2 (fo_parentId f') = {}"
      using same_links_ups [OF m2(2)] by auto
    then have "counted ?as m'" using m'(4) by (simp only: counted_def)
    then show ?thesis using False m2 m' inv' by (auto intro: same_links_trans same_data_trans)
  qed
qed

end
