(* ===== verification/Folder_Changes.thy ===== *)
theory Folder_Changes
  imports Folder_Invariant
begin

text \<open>
  Creating, updating, moving and deleting folders: every call returns and keeps the invariant, and what
  it does to the hierarchy. Deleting works on a state from which a set of subtrees of the
  original has been removed already.
\<close>

section \<open>Creating\<close>

lemma generateId_nonempty [simp]: "folder_generateId now random \<noteq> []"
  by (simp add: folder_generateId_def)

lemma calculateDepth_or_null: "calculateDepth m (or_null p) d = calculateDepth m p d"
  by (cases p) (auto simp: or_null_def calculateDepth_step)

lemma insert_leaf:
  assumes inv: "folder_inv s" and new: "map_of (fm_folders s) (fo_id f) = None" and id: "fo_id f \<noteq> []"
    and parent: "\<And>p. fo_parentId f = Some p \<Longrightarrow> map_of (fm_folders s) p \<noteq> None"
    and deep: "base_depth (fm_folders s) (fo_parentId f) < folder_maxDepth"
    and counts: "fmd_workflowCount (fo_metadata f) = Some 0" "fmd_descendantCount (fo_metadata f) = Some 0"
  shows "\<exists>m'. updateDescendantCounts now (fo_parentId f) (map_set (fo_id f) f (fm_folders s)) = Some m'
    \<and> folder_inv (save_folders now (s\<lparr>fm_folders := m'\<rparr>)) \<and> same_data (map_set (fo_id f) f (fm_folders s)) m'
    \<and> same_links (map_set (fo_id f) f (fm_folders s)) m'"
proof -
  let ?m = "fm_folders s" and ?as = "fm_associations s" and ?x = "fo_id f"
  let ?m1 = "map_set ?x f ?m"
  note D = folder_invD [OF inv]
  have fit: "depths_fit ?m1 ((folder_depth ?m)(?x := Suc (base_depth ?m (fo_parentId f))))"
    unfolding depths_fit_def
  proof (intro allI impI)
    fix i g assume i: "map_of ?m1 i = Some g"
    let ?d = "(folder_depth ?m)(?x := Suc (base_depth ?m (fo_parentId f)))"
    show "fo_id g = i \<and> i \<noteq> [] \<and> ?d i \<le> folder_maxDepth \<and>
       (case fo_parentId g of None \<Rightarrow> ?d i = 1 | Some p \<Rightarrow> map_of ?m1 p \<noteq> None \<and> ?d i = Suc (?d p))"
    proof (cases "i = ?x")
      case True
      then have g: "g = f" using i by simp
      have "p \<noteq> ?x" if "fo_parentId f = Some p" for p using parent [OF that] new by auto
      then show ?thesis unfolding True g using id deep parent by (auto simp: base_depth_def split: option.split)
    next
      case False
      then have g: "map_of ?m i = Some g" using i by simp
      have "p \<noteq> ?x" if "fo_parentId g = Some p" for p using forest_parentD [OF D(1) g that] new by auto
      then show ?thesis using False depths_fitD [OF forest_fit [OF D(1)] g] by (auto split: option.split)
    qed
  qed
  have m1: "folder_forest ?m1"
    by (rule forestI(1) [OF map_set_distinct [OF forest_distinct [OF D(1)]] fit])
  have link1: "(a, b) \<in> parent_of ?m1 \<longleftrightarrow> (if a = ?x then fo_parentId f = Some b else (a, b) \<in> parent_of ?m)" for a b
    unfolding parent_of_map_set by auto
  have nolink: "(?x, b) \<notin> parent_of ?m" "(b, ?x) \<notin> parent_of ?m" for b
    using new forest_parentD [OF D(1)] by (force simp: parent_of_def)+
  have below: "below ?m1 k = below ?m k" if "k \<notin> ups ?m1 (fo_parentId f)" for k
  proof (rule below_unchanged [symmetric])
    fix a b assume "(a, b) \<in> parent_of ?m" "(a, b) \<notin> parent_of ?m1"
    then show "(b, k) \<notin> (parent_of ?m)\<^sup>*" using nolink by (cases "a = ?x") (auto simp: link1)
  next
    fix a b assume e: "(a, b) \<in> parent_of ?m1" "(a, b) \<notin> parent_of ?m"
    then have "fo_parentId f = Some b" by (cases "a = ?x") (simp_all add: link1)
    then show "(b, k) \<notin> (parent_of ?m1)\<^sup>*" using that by (auto simp: ups_def)
  qed
  have x_top: "below ?m ?x = {}"
  proof -
    have "(j, ?x) \<notin> (parent_of ?m)\<^sup>+" for j
      using nolink by (auto dest: tranclD2)
    then show ?thesis by (simp add: below_def)
  qed
  have but: "counts_but (ups ?m1 (fo_parentId f)) ?as ?m1"
    unfolding counts_but_def
  proof (intro allI impI)
    fix i g assume i: "map_of ?m1 i = Some g"
    show "fmd_workflowCount (fo_metadata g) = Some (workflows_at ?as i)
       \<and> (i \<notin> ups ?m1 (fo_parentId f) \<longrightarrow> fmd_descendantCount (fo_metadata g) = Some (card (below ?m1 i)))"
    proof (cases "i = ?x")
      case True
      have "as_folderId a \<noteq> ?x" if "a \<in> set ?as" for a using D(3) [OF that] new by auto
      then have "workflows_at ?as ?x = 0" by (simp add: workflows_at_def filter_empty_conv)
      then show ?thesis using True i counts below [of i] x_top by auto
    next
      case False
      then have "map_of ?m i = Some g" using i by simp
      then show ?thesis using D(4) below [of i] by (simp add: counted_def counts_but_def)
    qed
  qed
  have parent1: "map_of ?m1 i \<noteq> None" if "fo_parentId f = Some i" for i using parent [OF that] by simp
  obtain m' where m': "updateDescendantCounts now (fo_parentId f) ?m1 = Some m'" "same_links ?m1 m'" "same_data ?m1 m'"
    "counts_but (ups ?m1 (fo_parentId f) - ups ?m1 (fo_parentId f)) ?as m'"
    using recount_descendants_above [OF m1, of "fo_parentId f" _ ?as now] parent1 but by blast
  have "counted ?as m'" using m'(4) by (simp add: counted_def)
  moreover have "map_of m' (as_folderId a) \<noteq> None" if "a \<in> set ?as" for a
    using same_links_known [OF m'(2), of "as_folderId a"] D(3) [OF that] by simp
  ultimately have "folder_inv (save_folders now (s\<lparr>fm_folders := m'\<rparr>))"
    using D(2) same_links_forest [OF m'(2) m1] by (simp add: folder_inv_iff)
  then show ?thesis using m' by blast
qed

lemma create_keeps:
  assumes inv: "folder_inv s" and fresh: "folder_generateId now random \<notin> set (map fst (fm_folders s))"
  shows "\<exists>r s'. createFolder now random options s = Some (r, s') \<and> folder_inv s'"
proof -
  let ?m = "fm_folders s" and ?p = "cr_parentId options" and ?f = "new_folder (fm_folders s) options now random"
  note D = folder_invD [OF inv]
  have f: "fo_id ?f = folder_generateId now random" "fo_parentId ?f = or_null ?p"
    "fmd_workflowCount (fo_metadata ?f) = Some 0" "fmd_descendantCount (fo_metadata ?f) = Some 0"
    by (simp_all add: new_folder_def)
  show ?thesis
  proof (cases "validateFolderName ?m (cr_name options) ?p None")
    case (Some e)
    then show ?thesis using inv by (simp add: createFolder_def Let_def)
  next
    case valid: None
    show ?thesis
    proof (cases "truthy ?p \<and> the ?p \<notin> set (map fst ?m)")
      case True
      then show ?thesis using valid inv by (simp add: createFolder_def Let_def)
    next
      case False
      have parent: "map_of ?m i \<noteq> None" if "or_null ?p = Some i" for i
      proof -
        have "i \<in> set (map fst ?m)" using False that by (auto simp: or_null_def split: if_splits)
        then show ?thesis by (simp only: known_iff) simp
      qed
      then have depth: "calculateDepth ?m ?p 0 = Some (base_depth ?m (or_null ?p))"
        using calculateDepth_known [OF D(1), of "or_null ?p"] by (simp add: calculateDepth_or_null)
      show ?thesis
      proof (cases "base_depth ?m (or_null ?p) \<ge> folder_maxDepth")
        case True
        then show ?thesis using valid False depth inv by (simp add: createFolder_def Let_def)
      next
        case shallow: False
        show ?thesis
        proof (cases "look_error (fo_color ?f) (fo_icon ?f)")
          case (Some e)
          then show ?thesis using valid False depth shallow inv by (simp add: createFolder_def Let_def)
        next
          case None
          have "map_of ?m (fo_id ?f) = None" using fresh f(1) by (simp add: map_of_eq_None_iff)
          then obtain m' where "updateDescendantCounts now (fo_parentId ?f) (map_set (fo_id ?f) ?f ?m) = Some m'"
            "folder_inv (save_folders now (s\<lparr>fm_folders := m'\<rparr>))"
            using insert_leaf [OF inv, of ?f now] f parent shallow by auto
          then show ?thesis using valid False depth shallow None inv by (simp add: createFolder_def Let_def)
        qed
      qed
    qed
  qed
qed

section \<open>Updating and moving\<close>

lemma updated_folder_simps [simp]:
  "fo_id (updated_folder u now f) = fo_id f"
  "fo_parentId (updated_folder u now f) = (case up_parentId u of Some p \<Rightarrow> p | None \<Rightarrow> fo_parentId f)"
  "fmd_workflowCount (fo_metadata (updated_folder u now f)) = fmd_workflowCount (fo_metadata f)"
  "fmd_descendantCount (fo_metadata (updated_folder u now f)) = fmd_descendantCount (fo_metadata f)"
  by (simp_all add: updated_folder_def)

text \<open>
  An update returns; it fails without an effect, or puts the changed folder into a hierarchy that
  is a forest again.
\<close>

lemma update_exact:
  fixes now :: millis
  assumes inv: "folder_inv s" and x: "map_of (fm_folders s) x = Some f" and u: "up_parentId u \<noteq> Some (Some [])"
  defines "g \<equiv> updated_folder u now f"
  shows "(\<exists>e. updateFolder now x u s = Some (Inl e, s))
    \<or> (\<exists>s'. updateFolder now x u s = Some (Inr g, s') \<and> folder_inv s' \<and> fm_associations s' = fm_associations s
         \<and> folder_forest (map_set x g (fm_folders s)) \<and> same_data (map_set x g (fm_folders s)) (fm_folders s'))"
proof -
  let ?m = "fm_folders s"
  let ?rename = "case up_name u of None \<Rightarrow> None | Some n \<Rightarrow> validateFolderName ?m n (fo_parentId f) (Some x)"
  let ?move = "case up_parentId u of None \<Rightarrow> Some None | Some p \<Rightarrow> if p = fo_parentId f then Some None else canMoveFolder ?m x p"
  note D = folder_invD [OF inv]
  have g: "fo_id g = x" using forest_idD [OF D(1) x] by (simp add: g_def)
  have stay: "folder_forest (map_set x g ?m)" if "fo_parentId g = fo_parentId f"
  proof (rule same_links_forest [OF _ D(1)])
    show "same_links ?m (map_set x g ?m)"
      using links_map_set [OF x forest_distinct [OF D(1)], of g] that g forest_idD [OF D(1) x] by (simp add: same_links_def)
  qed
  have move: "\<exists>r. ?move = Some r \<and> (r = None \<longrightarrow> folder_forest (map_set x g ?m))"
  proof (cases "up_parentId u")
    case None
    then show ?thesis using stay by (simp add: g_def)
  next
    case (Some p)
    have "fo_parentId g = p" "p \<noteq> Some []" using Some u by (auto simp: g_def)
    then show ?thesis using Some stay can_move_exact [OF D(1) x g] by auto
  qed
  show ?thesis
  proof (cases ?rename)
    case (Some e)
    then show ?thesis using x by (simp add: updateFolder_def Let_def)
  next
    case named: None
    obtain r where r: "?move = Some r" "r = None \<longrightarrow> folder_forest (map_set x g ?m)" using move by blast
    show ?thesis
    proof (cases r)
      case (Some e)
      then show ?thesis using x named r(1) by (simp add: updateFolder_def Let_def)
    next
      case moved: None
      show ?thesis
      proof (cases "look_error (up_color u) (up_icon u)")
        case (Some e)
        then show ?thesis using x named r(1) moved by (simp add: updateFolder_def Let_def)
      next
        case None
        have forest: "folder_forest (map_set x g ?m)" using r(2) moved by simp
        obtain m' where m': "(if fo_parentId f = fo_parentId g then Some (map_set x g ?m)
            else do { m2 \<leftarrow> updateDescendantCounts now (fo_parentId f) (map_set x g ?m);
                      updateDescendantCounts now (fo_parentId g) m2 }) = Some m'"
          "folder_inv (save_folders now (s\<lparr>fm_folders := m'\<rparr>))" "same_data (map_set x g ?m) m'"
          using put_exact [OF inv x g forest, of now] by (auto simp: g_def)
        have "updateFolder now x u s = Some (Inr g, save_folders now (s\<lparr>fm_folders := m'\<rparr>))"
          using x named r(1) moved None m'(1) unfolding updateFolder_def Let_def g_def by (simp only: option.case bind.bind_lunit)
        then show ?thesis using m'(2,3) forest by auto
      qed
    qed
  qed
qed

end
