(* ===== verification/Folder_Deletion.thy ===== *)
theory Folder_Deletion
  imports Folder_Changes
begin

text \<open>
  Deleting folders: the recursion removes exactly a folder and what is below it, moves or
  removes the workflows that were there, and keeps the invariant, unless the workflows are to go to a folder
  that is deleted itself or that does not exist.
\<close>

section \<open>Removing a leaf\<close>

lemma map_of_filter_key: "map_of (filter (\<lambda>(j, f). j \<noteq> i) m) j = (if j = i then None else map_of m j)"
  by (induction m) auto

lemma leaf_counts:
  assumes m: "folder_forest m" and counted: "counted as m" and x: "map_of m x = Some f"
    and leaf: "\<And>j. (j, x) \<notin> parent_of m"
  shows "\<exists>m'. updateDescendantCounts now (fo_parentId f) (filter (\<lambda>(j, f). j \<noteq> x) m) = Some m' \<and> folder_forest m'
    \<and> counted as m' \<and> (\<forall>j. map_option folder_data (map_of m' j) = (if j = x then None else map_option folder_data (map_of m j)))"
proof -
  let ?m1 = "filter (\<lambda>(j, f). j \<noteq> x) m"
  note lookup = map_of_filter_key [of x m]
  have fit: "depths_fit ?m1 (folder_depth m)"
    unfolding depths_fit_def
  proof (intro allI impI)
    fix i g assume "map_of ?m1 i = Some g"
    then have g: "map_of m i = Some g" by (simp add: lookup split: if_splits)
    have "p \<noteq> x" if "fo_parentId g = Some p" for p using leaf [of i] g that by (auto simp: parent_of_def)
    then show "fo_id g = i \<and> i \<noteq> [] \<and> folder_depth m i \<le> folder_maxDepth \<and>
       (case fo_parentId g of None \<Rightarrow> folder_depth m i = 1
        | Some p \<Rightarrow> map_of ?m1 p \<noteq> None \<and> folder_depth m i = Suc (folder_depth m p))"
      using depths_fitD [OF forest_fit [OF m] g] by (auto simp: lookup split: option.split)
  qed
  have "distinct (map fst ?m1)" using forest_distinct [OF m] by (simp add: distinct_map_filter)
  then have m1: "folder_forest ?m1" using fit by (rule forestI(1))
  have link1: "(a, b) \<in> parent_of ?m1 \<longleftrightarrow> a \<noteq> x \<and> (a, b) \<in> parent_of m" for a b
    by (auto simp: parent_of_def lookup)
  have below: "below ?m1 k = below m k" if "k \<notin> ups ?m1 (fo_parentId f)" for k
  proof (rule below_unchanged [symmetric])
    fix a b assume "(a, b) \<in> parent_of m" "(a, b) \<notin> parent_of ?m1"
    then have b: "fo_parentId f = Some b" using x by (auto simp: link1) (auto simp: parent_of_def)
    have "ups m (fo_parentId f) \<subseteq> ups ?m1 (fo_parentId f)"
      by (rule ups_keep [OF m x]) (simp add: link1)
    then show "(b, k) \<notin> (parent_of m)\<^sup>*" using that b by (auto simp: ups_def)
  qed (simp add: link1)
  have but: "counts_but (ups ?m1 (fo_parentId f)) as ?m1"
    unfolding counts_but_def
  proof (intro allI impI)
    fix i g assume "map_of ?m1 i = Some g"
    then have "map_of m i = Some g" by (simp add: lookup split: if_splits)
    then show "fmd_workflowCount (fo_metadata g) = Some (workflows_at as i)
       \<and> (i \<notin> ups ?m1 (fo_parentId f) \<longrightarrow> fmd_descendantCount (fo_metadata g) = Some (card (below ?m1 i)))"
      using counted below [of i] by (simp add: counted_def counts_but_def)
  qed
  have parent1: "map_of ?m1 i \<noteq> None" if p: "fo_parentId f = Some i" for i
  proof -
    have "i \<noteq> x" using leaf [of x] x p by (auto simp: parent_of_def)
    then show ?thesis using forest_parentD [OF m x p] by (simp add: lookup)
  qed
  obtain m' where m': "updateDescendantCounts now (fo_parentId f) ?m1 = Some m'" "same_links ?m1 m'" "same_data ?m1 m'"
    "counts_but (ups ?m1 (fo_parentId f) - ups ?m1 (fo_parentId f)) as m'"
    using recount_descendants_above [OF m1, of "fo_parentId f" _ as now] parent1 but by blast
  have "map_option folder_data (map_of m' j) = (if j = x then None else map_option folder_data (map_of m j))" for j
    using m'(3) [unfolded same_data_def, rule_format, of j] lookup [of j] by (cases "j = x") auto
  moreover have "counted as m'" using m'(4) by (simp add: counted_def)
  ultimately show ?thesis using m'(1) same_links_forest [OF m'(2) m1] by blast
qed

lemma remove_leaf:
  assumes inv: "folder_inv s" and x: "map_of (fm_folders s) x = Some f"
    and leaf: "\<And>j. (j, x) \<notin> parent_of (fm_folders s)" and empty: "\<And>w. folder_of s w \<noteq> Some x"
  shows "\<exists>s'. remove_folder now x (fo_parentId f) s = Some s' \<and> folder_inv s' \<and> folder_of s' = folder_of s
    \<and> (\<forall>j. map_option folder_data (map_of (fm_folders s') j) =
         (if j = x then None else map_option folder_data (map_of (fm_folders s) j)))"
proof -
  note D = folder_invD [OF inv]
  obtain m' where m': "updateDescendantCounts now (fo_parentId f) (filter (\<lambda>(j, f). j \<noteq> x) (fm_folders s)) = Some m'"
    "folder_forest m'" "counted (fm_associations s) m'"
    "\<forall>j. map_option folder_data (map_of m' j) = (if j = x then None else map_option folder_data (map_of (fm_folders s) j))"
    using leaf_counts [OF D(1) D(4) x leaf, of now] by blast
  have "map_of m' (as_folderId a) \<noteq> None" if a: "a \<in> set (fm_associations s)" for a
  proof -
    have "as_folderId a \<noteq> x" using empty [of "as_workflowId a"] folder_of_mem [OF D(2)] a by auto
    then have "map_option folder_data (map_of m' (as_folderId a)) \<noteq> None" using m'(4) D(3) [OF a] by simp
    then show ?thesis by auto
  qed
  then have "folder_inv (save_folders now (s\<lparr>fm_folders := m'\<rparr>))"
    using D(2) m'(2,3) by (simp add: folder_inv_iff)
  moreover have "remove_folder now x (fo_parentId f) s = Some (save_folders now (s\<lparr>fm_folders := m'\<rparr>))"
    using m'(1) by (simp add: remove_folder_def)
  ultimately show ?thesis using m'(4) by (intro exI [of _ "save_folders now (s\<lparr>fm_folders := m'\<rparr>)"]) (simp add: folder_of_def)
qed

section \<open>The workflows of a deleted folder\<close>

lemma release_each_exact:
  "folder_inv s \<Longrightarrow> (\<And>t. moveTo = Some t \<Longrightarrow> map_of (fm_folders s) t \<noteq> None) \<Longrightarrow>
     \<exists>s'. release_each now moveTo ws s = Some s' \<and> folder_inv s' \<and> folders_kept s s'
       \<and> folder_of s' = (\<lambda>w. if w \<in> set ws then moveTo else folder_of s w)"
proof (induction ws arbitrary: s)
  case (Cons w ws)
  have "\<exists>s1. (case moveTo of None \<Rightarrow> map_option snd (removeWorkflowFromFolder now w s)
      | Some t \<Rightarrow> map_option snd (moveWorkflow now w t s)) = Some s1
      \<and> folder_inv s1 \<and> folders_kept s s1 \<and> folder_of s1 = (folder_of s)(w := moveTo)"
  proof (cases moveTo)
    case None
    obtain us s1 where "removeWorkflowFromFolder now w s = Some (us, s1)" "folder_inv s1" "folders_kept s s1"
      "fm_associations s1 = filter (\<lambda>a. as_workflowId a \<noteq> w) (fm_associations s)"
      using remove_exact [OF Cons.prems(1), of now w] by blast
    then show ?thesis using None folder_of_remove [of s1 w s] by simp
  next
    case (Some t)
    then show ?thesis using add_exact [OF Cons.prems(1) Cons.prems(2) [OF Some], of now w] by (auto simp: moveWorkflow_def)
  qed
  then obtain s1 where s1: "(case moveTo of None \<Rightarrow> map_option snd (removeWorkflowFromFolder now w s)
      | Some t \<Rightarrow> map_option snd (moveWorkflow now w t s)) = Some s1"
    "folder_inv s1" "folders_kept s s1" "folder_of s1 = (folder_of s)(w := moveTo)" by blast
  have "map_of (fm_folders s1) t \<noteq> None" if "moveTo = Some t" for t
    using Cons.prems(2) [OF that] folders_kept_known [OF s1(3)] by simp
  then obtain s' where s': "release_each now moveTo ws s1 = Some s'" "folder_inv s'" "folders_kept s1 s'"
    "folder_of s' = (\<lambda>v. if v \<in> set ws then moveTo else folder_of s1 v)"
    using Cons.IH [OF s1(2)] by blast
  have "folder_of s' = (\<lambda>v. if v \<in> set (w # ws) then moveTo else folder_of s v)"
    using s'(4) s1(4) by (auto simp: fun_eq_iff)
  then show ?case using s1(1) s' folders_kept_trans [OF s1(3) s'(3)] by simp
qed simp

lemma workflows_direct:
  assumes inv: "folder_inv s" and i: "map_of (fm_folders s) i \<noteq> None"
  shows "\<exists>ws. getWorkflowsInFolder s i False = Inr ws \<and> set ws = {w. folder_of s w = Some i}"
proof -
  have "i \<in> set (map fst (fm_folders s))" using i by (simp only: known_iff) simp
  then show ?thesis using folder_of_mem [OF folder_invD(2) [OF inv]]
    by (auto simp: getWorkflowsInFolder_def uniq_def)
qed

lemma release_exact:
  assumes inv: "folder_inv s" and i: "map_of (fm_folders s) i \<noteq> None"
    and to: "\<And>t. moveTo = Some t \<Longrightarrow> map_of (fm_folders s) t \<noteq> None"
  shows "\<exists>s'. release_workflows now moveTo i s = Some s' \<and> folder_inv s' \<and> folders_kept s s'
    \<and> folder_of s' = (\<lambda>w. if folder_of s w = Some i then moveTo else folder_of s w)"
proof -
  obtain ws where ws: "getWorkflowsInFolder s i False = Inr ws" "set ws = {w. folder_of s w = Some i}"
    using workflows_direct [OF inv i] by blast
  then show ?thesis using release_each_exact [OF inv to, where now = now and ws = ws] by (simp add: release_workflows_def)
qed

section \<open>Removing subtrees\<close>

lemma below_by_links: "below m i = (\<Union>j\<in>{j. (j, i) \<in> parent_of m}. at_or_below m j)"
  by (auto simp: below_def at_or_below_def dest: tranclD2 intro: rtrancl_into_trancl1)

text \<open>A state from which a set of folders of the original has been removed.\<close>

definition pruned :: "folder_map \<Rightarrow> string set \<Rightarrow> FolderManager \<Rightarrow> bool" where
  "pruned m R s \<longleftrightarrow> folder_inv s \<and> (\<forall>j. map_option folder_data (map_of (fm_folders s) j) =
     (if j \<in> R then None else map_option folder_data (map_of m j)))"

lemma pruned_known: "pruned m R s \<Longrightarrow> map_of (fm_folders s) j = None \<longleftrightarrow> j \<in> R \<or> map_of m j = None"
  unfolding pruned_def by (metis option.map_disc_iff)

lemma pruned_links: "pruned m R s \<Longrightarrow> (i, p) \<in> parent_of (fm_folders s) \<longleftrightarrow> i \<notin> R \<and> (i, p) \<in> parent_of m"
proof -
  assume a: "pruned m R s"
  have iff: "(i, p) \<in> parent_of n \<longleftrightarrow> (\<exists>g. map_option folder_data (map_of n i) = Some g \<and> fo_parentId g = Some p)" for n
    by (auto simp: parent_of_def)
  show ?thesis unfolding iff using a by (auto simp: pruned_def split: if_splits)
qed

lemma pruned_kept: "pruned m R s \<Longrightarrow> folders_kept s s' \<Longrightarrow> folder_inv s' \<Longrightarrow> pruned m R s'"
  by (simp add: pruned_def folders_kept_def same_data_def)

definition moved_from :: "string set \<Rightarrow> string option \<Rightarrow> (string \<Rightarrow> string option) \<Rightarrow> string \<Rightarrow> string option" where
  "moved_from R moveTo fo w = (case fo w of None \<Rightarrow> None | Some i \<Rightarrow> if i \<in> R then moveTo else Some i)"

lemma moved_from_twice:
  "(\<And>t. moveTo = Some t \<Longrightarrow> t \<notin> S) \<Longrightarrow> moved_from S moveTo (moved_from R moveTo fo) = moved_from (R \<union> S) moveTo fo"
  by (auto simp: moved_from_def fun_eq_iff split: option.split)

lemma delete_children_step:
  "delete_children now moveTo [] s = Some s"
  "map_of (fm_folders s) (fo_id c) = Some f \<Longrightarrow> delete_children now moveTo (c # cs) s =
     do { s1 \<leftarrow> release_workflows now moveTo (fo_id c) s;
          s2 \<leftarrow> delete_children now moveTo (getChildren (fm_folders s) (Some (fo_id c))) s1;
          s3 \<leftarrow> remove_folder now (fo_id c) (fo_parentId f) s2;
          delete_children now moveTo cs s3 }"
  by (subst delete_children.simps, simp)+

text \<open>The body of \<open>deleteFolder\<close>, given what deleting the children does.\<close>

lemma delete_body:
  assumes pr: "pruned m R s" and f: "map_of (fm_folders s) i = Some f"
    and apart: "at_or_below m i \<inter> R = {}" and to: "\<And>t. moveTo = Some t \<Longrightarrow> map_of m t \<noteq> None \<and> t \<notin> R \<union> at_or_below m i"
    and m: "folder_forest m"
    and kids: "\<And>s1. pruned m R s1 \<Longrightarrow> \<exists>s2. kill s1 = Some s2 \<and> pruned m (R \<union> below m i) s2
      \<and> folder_of s2 = moved_from (below m i) moveTo (folder_of s1)"
  shows "\<exists>s1 s2 s3. release_workflows now moveTo i s = Some s1 \<and> kill s1 = Some s2
    \<and> remove_folder now i (fo_parentId f) s2 = Some s3
    \<and> (\<exists>f2. map_of (fm_folders s2) i = Some f2 \<and> folder_data f2 = folder_data f)
    \<and> pruned m (R \<union> at_or_below m i) s3 \<and> folder_of s3 = moved_from (at_or_below m i) moveTo (folder_of s)"
proof -
  have inv: "folder_inv s" using pr by (simp add: pruned_def)
  have to_known: "map_of (fm_folders s) t \<noteq> None" if "moveTo = Some t" for t
    using to [OF that] pruned_known [OF pr] by simp
  obtain s1 where s1: "release_workflows now moveTo i s = Some s1" "folder_inv s1" "folders_kept s s1"
    "folder_of s1 = (\<lambda>w. if folder_of s w = Some i then moveTo else folder_of s w)"
    using release_exact [OF inv, of i moveTo now] f to_known by auto
  obtain s2 where s2: "kill s1 = Some s2" "pruned m (R \<union> below m i) s2"
    "folder_of s2 = moved_from (below m i) moveTo (folder_of s1)"
    using kids [OF pruned_kept [OF pr s1(3,2)]] by blast
  have self: "i \<notin> R" "i \<notin> below m i" "moveTo \<noteq> Some i"
    using apart to at_or_below_insert [of m i] ancestors_trancl_depth [OF _ m] by (auto simp: below_def)
  have "map_option folder_data (map_of (fm_folders s2) i) = map_option folder_data (map_of (fm_folders s) i)"
    using s2(2) pr self by (simp add: pruned_def)
  then obtain f2 where f2: "map_of (fm_folders s2) i = Some f2" "folder_data f2 = folder_data f" using f by auto
  have parent: "fo_parentId f2 = fo_parentId f" using folder_data_eqD(2) [OF f2(2)] .
  have leaf: "(j, i) \<notin> parent_of (fm_folders s2)" for j
    using pruned_links [OF s2(2)] by (auto simp: below_def)
  have fo2: "folder_of s2 = moved_from (at_or_below m i) moveTo (folder_of s)"
    using s2(3) s1(4) self to at_or_below_insert [of m i] by (auto simp: moved_from_def fun_eq_iff split: option.splits if_splits)
  have empty: "folder_of s2 w \<noteq> Some i" for w
    using fo2 self(3) at_or_below_insert [of m i] by (auto simp: moved_from_def split: option.split)
  have inv2: "folder_inv s2" using s2(2) by (simp add: pruned_def)
  obtain s3 where s3: "remove_folder now i (fo_parentId f) s2 = Some s3" "folder_inv s3" "folder_of s3 = folder_of s2"
    "\<forall>j. map_option folder_data (map_of (fm_folders s3) j) = (if j = i then None else map_option folder_data (map_of (fm_folders s2) j))"
    using remove_leaf [OF inv2 f2(1) leaf empty, of now] parent by auto
  have "pruned m (R \<union> at_or_below m i) s3"
    using s3(2,4) s2(2) at_or_below_insert [of m i] by (simp add: pruned_def)
  then show ?thesis using s1(1) s2(1) s3(1,3) f2 fo2 by auto
qed

lemma delete_children_exact:
  assumes m: "folder_forest m"
  shows "pruned m R s \<Longrightarrow> (\<forall>c\<in>set cs. map_of m (fo_id c) \<noteq> None \<and> folder_depth m (fo_id c) = e) \<Longrightarrow> distinct (map fo_id cs)
    \<Longrightarrow> (\<Union>c\<in>set cs. at_or_below m (fo_id c)) \<inter> R = {}
    \<Longrightarrow> (\<And>t. moveTo = Some t \<Longrightarrow> map_of m t \<noteq> None \<and> t \<notin> R \<union> (\<Union>c\<in>set cs. at_or_below m (fo_id c)))
    \<Longrightarrow> folder_maxDepth < e + k
    \<Longrightarrow> \<exists>s'. delete_children now moveTo cs s = Some s' \<and> pruned m (R \<union> (\<Union>c\<in>set cs. at_or_below m (fo_id c))) s'
        \<and> folder_of s' = moved_from (\<Union>c\<in>set cs. at_or_below m (fo_id c)) moveTo (folder_of s)"
proof (induction k arbitrary: R s cs e)
  case 0
  have "False" if "c \<in> set cs" for c
    using 0(2,6) that forest_depth(2) [OF assms, of "fo_id c"] by fastforce
  then have "cs = []" by (cases cs) auto
  then show ?case using 0(1) by (auto simp: delete_children_step moved_from_def fun_eq_iff split: option.split)
next
  case (Suc k)
  note IH = Suc.IH
  show ?case using Suc.prems
  proof (induction cs arbitrary: R s)
    case Nil
    then show ?case by (auto simp: delete_children_step moved_from_def fun_eq_iff split: option.split)
  next
    case (Cons c cs)
    let ?i = "fo_id c" and ?U = "\<Union>c\<in>set cs. at_or_below m (fo_id c)"
    let ?kids = "getChildren (fm_folders s) (Some ?i)"
    note pr = Cons.prems(1)
    have i: "map_of m ?i \<noteq> None" "folder_depth m ?i = e" using Cons.prems(2) by auto
    have apart: "at_or_below m ?i \<inter> R = {}" using Cons.prems(4) by auto
    have "?i \<notin> R" using apart by (auto simp: at_or_below_insert)
    then obtain f where f: "map_of (fm_folders s) ?i = Some f" using pruned_known [OF pr, of ?i] i(1) by blast
    have forest: "folder_forest (fm_folders s)" using pr by (simp add: pruned_def folder_invD(1))
    have kid_ids: "fo_id ` set ?kids = {j. (j, ?i) \<in> parent_of m}"
    proof -
      have "fo_id ` set ?kids = {j. (j, ?i) \<in> parent_of (fm_folders s)}"
        using mem_getChildren [OF forest] forest_idD [OF forest] by (force simp: parent_of_def)
      moreover have "j \<notin> R" if "(j, ?i) \<in> parent_of m" for j
        using apart that by (auto simp: at_or_below_def)
      ultimately show ?thesis using pruned_links [OF pr] by auto
    qed
    then have union: "(\<Union>c\<in>set ?kids. at_or_below m (fo_id c)) = below m ?i"
      unfolding below_by_links [of m ?i] kid_ids [symmetric] by simp
    have kids: "\<forall>c'\<in>set ?kids. map_of m (fo_id c') \<noteq> None \<and> folder_depth m (fo_id c') = Suc e"
    proof
      fix c' assume "c' \<in> set ?kids"
      then have l: "(fo_id c', ?i) \<in> parent_of m" using kid_ids by blast
      then show "map_of m (fo_id c') \<noteq> None \<and> folder_depth m (fo_id c') = Suc e"
        using parent_of_depth [OF m l] i(2) by (auto simp: parent_of_def)
    qed
    have to: "map_of m t \<noteq> None \<and> t \<notin> R \<union> at_or_below m ?i" "t \<notin> ?U" if "moveTo = Some t" for t
      using Cons.prems(5) [OF that] by auto
    have below: "\<exists>s2. delete_children now moveTo ?kids s1 = Some s2 \<and> pruned m (R \<union> below m ?i) s2
        \<and> folder_of s2 = moved_from (below m ?i) moveTo (folder_of s1)" if "pruned m R s1" for s1
    proof -
      have "(\<Union>c\<in>set ?kids. at_or_below m (fo_id c)) \<inter> R = {}" unfolding union using apart at_or_below_insert [of m ?i] by blast
      moreover have "map_of m t \<noteq> None \<and> t \<notin> R \<union> (\<Union>c\<in>set ?kids. at_or_below m (fo_id c))" if "moveTo = Some t" for t
        unfolding union using to(1) [OF that] at_or_below_insert [of m ?i] by blast
      moreover have "folder_maxDepth < Suc e + k" using Cons.prems(6) by simp
      ultimately show ?thesis
        using IH [OF that kids distinct_getChildren [OF forest]] unfolding union by blast
    qed
    obtain s1 s2 s3 where b: "release_workflows now moveTo ?i s = Some s1" "delete_children now moveTo ?kids s1 = Some s2"
      "remove_folder now ?i (fo_parentId f) s2 = Some s3" "pruned m (R \<union> at_or_below m ?i) s3"
      "folder_of s3 = moved_from (at_or_below m ?i) moveTo (folder_of s)"
      using delete_body [OF pr f apart to(1) m below] by blast
    have apart': "?U \<inter> (R \<union> at_or_below m ?i) = {}"
    proof -
      have "at_or_below m ?i \<inter> at_or_below m (fo_id c') = {}" if "c' \<in> set cs" for c'
        using that Cons.prems(2,3) by (intro at_or_below_disjoint [OF m]) auto
      then show ?thesis using Cons.prems(4) by auto
    qed
    have to': "map_of m t \<noteq> None \<and> t \<notin> (R \<union> at_or_below m ?i) \<union> ?U" if "moveTo = Some t" for t
      using to [OF that] by blast
    have "\<forall>c\<in>set cs. map_of m (fo_id c) \<noteq> None \<and> folder_depth m (fo_id c) = e" "distinct (map fo_id cs)"
      using Cons.prems(2,3) by auto
    then obtain s' where s': "delete_children now moveTo cs s3 = Some s'" "pruned m (R \<union> at_or_below m ?i \<union> ?U) s'"
      "folder_of s' = moved_from ?U moveTo (folder_of s3)"
      using Cons.IH [OF b(4) _ _ apart' to' Cons.prems(6)] by blast
    have "folder_of s' = moved_from (at_or_below m ?i \<union> ?U) moveTo (folder_of s)"
      unfolding s'(3) b(5) by (rule moved_from_twice) (use to in blast)
    moreover have "R \<union> at_or_below m ?i \<union> ?U = R \<union> (\<Union>c\<in>set (c # cs). at_or_below m (fo_id c))"
      "at_or_below m ?i \<union> ?U = (\<Union>c\<in>set (c # cs). at_or_below m (fo_id c))" by auto
    moreover have "delete_children now moveTo (c # cs) s = Some s'"
      using delete_children_step(2) [of s c f, OF f] b(1-3) s'(1) by simp
    ultimately show ?case using s'(2) by metis
  qed
qed

section \<open>deleteFolder\<close>

lemma delete_exact:
  assumes inv: "folder_inv s" and i: "map_of (fm_folders s) i = Some f"
    and kids: "recursive \<or> getChildren (fm_folders s) (Some i) = []"
    and to: "\<And>t. moveTo = Some t \<Longrightarrow> map_of (fm_folders s) t \<noteq> None \<and> t \<notin> at_or_below (fm_folders s) i"
  shows "\<exists>f' s'. deleteFolder now i recursive moveTo s = Some (Inr f', s') \<and> folder_data f' = folder_data f
    \<and> pruned (fm_folders s) (at_or_below (fm_folders s) i) s'
    \<and> folder_of s' = moved_from (at_or_below (fm_folders s) i) moveTo (folder_of s)"
proof -
  let ?m = "fm_folders s"
  let ?kids = "getChildren ?m (Some i)"
  let ?kill = "\<lambda>s1. if recursive then delete_children now moveTo ?kids s1 else Some s1"
  note m = folder_invD(1) [OF inv]
  have union: "(\<Union>c\<in>set ?kids. at_or_below ?m (fo_id c)) = below ?m i" by (simp add: below_children [OF m])
  have pr: "pruned ?m {} s" using inv by (simp add: pruned_def)
  have known: "\<forall>c\<in>set ?kids. map_of ?m (fo_id c) \<noteq> None \<and> folder_depth ?m (fo_id c) = Suc (folder_depth ?m i)"
    using mem_getChildren [OF m] child_depth [OF m] by auto
  have below: "\<exists>s2. ?kill s1 = Some s2 \<and> pruned ?m ({} \<union> below ?m i) s2
      \<and> folder_of s2 = moved_from (below ?m i) moveTo (folder_of s1)" if "pruned ?m {} s1" for s1
  proof (cases recursive)
    case True
    have "map_of ?m t \<noteq> None \<and> t \<notin> {} \<union> (\<Union>c\<in>set ?kids. at_or_below ?m (fo_id c))" if "moveTo = Some t" for t
      unfolding union using to [OF that] at_or_below_insert [of ?m i] by blast
    then show ?thesis
      using delete_children_exact [OF m that known distinct_getChildren [OF m], where moveTo = moveTo and k = folder_maxDepth and now = now] True
      unfolding union by simp
  next
    case False
    then have "below ?m i = {}" using kids union by simp
    then show ?thesis using False that by (simp add: moved_from_def fun_eq_iff split: option.split)
  qed
  have to': "map_of ?m t \<noteq> None \<and> t \<notin> {} \<union> at_or_below ?m i" if "moveTo = Some t" for t using to [OF that] by simp
  obtain s1 s2 s3 f2 where b: "release_workflows now moveTo i s = Some s1" "?kill s1 = Some s2"
    "remove_folder now i (fo_parentId f) s2 = Some s3" "pruned ?m ({} \<union> at_or_below ?m i) s3"
    "folder_of s3 = moved_from (at_or_below ?m i) moveTo (folder_of s)"
    "map_of (fm_folders s2) i = Some f2" "folder_data f2 = folder_data f"
    using delete_body [OF pr i _ to' m below] by blast
  have "deleteFolder now i recursive moveTo s = Some (Inr f2, s3)"
    using i kids b(1,2,3,6) by (auto simp: deleteFolder_def Let_def)
  then show ?thesis using b(4,5,7) by simp
qed

end
