(* ===== verification/Folder_Manager.thy ===== *)
theory Folder_Manager
  imports Folder_Deletion
begin

text \<open>
  The folder manager as a whole: its calls as a step relation whose reachable states satisfy the
  invariant and in which every call returns, and the theorems on moving, deleting, the tree,
  paths, export and import.
\<close>

section \<open>Calls\<close>

datatype FolderCall =
    CreateCall millis string CreateFolderOptions
  | UpdateCall millis string UpdateFolderOptions
  | MoveCall millis string "string option"
  | DeleteCall millis string bool "string option"
  | AddCall millis string string
  | RemoveCall millis string
  | CleanupCall millis
  | ClearCall millis
  | AutoSaveCall bool
  | ImportCall millis ImportExportData bool

definition folder_exec :: "FolderCall \<Rightarrow> FolderManager \<Rightarrow> FolderManager option" where
  "folder_exec c s =
     (case c of
        CreateCall now random options \<Rightarrow> map_option snd (createFolder now random options s)
      | UpdateCall now i updates \<Rightarrow> map_option snd (updateFolder now i updates s)
      | MoveCall now i p \<Rightarrow> map_option snd (moveFolder now i p s)
      | DeleteCall now i recursive moveTo \<Rightarrow> map_option snd (deleteFolder now i recursive moveTo s)
      | AddCall now w i \<Rightarrow> map_option snd (addWorkflowToFolder now w i s)
      | RemoveCall now w \<Rightarrow> map_option snd (removeWorkflowFromFolder now w s)
      | CleanupCall now \<Rightarrow> Some (snd (cleanupOrphanedWorkflows now s))
      | ClearCall now \<Rightarrow> Some (clearFolders now s)
      | AutoSaveCall enabled \<Rightarrow> Some (setAutoSave enabled s)
      | ImportCall now data merge \<Rightarrow> map_option snd (importFolders now data merge s))"

text \<open>What an import puts together before the counts are computed.\<close>

definition imported_folders :: "ImportExportData \<Rightarrow> bool \<Rightarrow> FolderManager \<Rightarrow> folder_map" where
  "imported_folders data merge s =
     fold (\<lambda>f m. if fo_id f \<in> set (map fst m) \<and> merge then m else map_set (fo_id f) f m)
       (ie_folders data) (if merge then fm_folders s else [])"

definition imported_associations :: "ImportExportData \<Rightarrow> bool \<Rightarrow> FolderManager \<Rightarrow> FolderAssociation list" where
  "imported_associations data merge s =
     fold (\<lambda>a as. if list_ex (\<lambda>b. as_workflowId b = as_workflowId a \<and> as_folderId b = as_folderId a) as then as else as @ [a])
       (ie_associations data) (if merge then fm_associations s else [])"

text \<open>Calls that respect what the code does not check.\<close>

definition call_ok :: "FolderCall \<Rightarrow> FolderManager \<Rightarrow> bool" where
  "call_ok c s =
     (case c of
        CreateCall now random options \<Rightarrow> folder_generateId now random \<notin> set (map fst (fm_folders s))
      | UpdateCall now i updates \<Rightarrow> up_parentId updates \<noteq> Some (Some [])
      | MoveCall now i p \<Rightarrow> p \<noteq> Some []
      | DeleteCall now i recursive moveTo \<Rightarrow>
          (case moveTo of None \<Rightarrow> True | Some t \<Rightarrow> t \<in> set (map fst (fm_folders s))
             \<and> (case getFolderPath (fm_folders s) (Some t) [] of None \<Rightarrow> False | Some path \<Rightarrow> i \<notin> set (map fst path)))
      | ImportCall now data merge \<Rightarrow>
          (let m = imported_folders data merge s; as = imported_associations data merge s in
           folder_forest m \<and> distinct (map as_workflowId as) \<and> list_all (\<lambda>a. as_folderId a \<in> set (map fst m)) as)
      | _ \<Rightarrow> True)"

text \<open>What a manager may start from: nothing stored, or a forest with associations that make sense.\<close>

definition stored_ok :: "FolderStorageData option \<Rightarrow> bool" where
  "stored_ok stored =
     (case stored of None \<Rightarrow> True
      | Some data \<Rightarrow> folder_forest (fd_folders data) \<and> distinct (map as_workflowId (fd_associations data))
          \<and> list_all (\<lambda>a. as_folderId a \<in> set (map fst (fd_folders data))) (fd_associations data))"

inductive folder_reachable :: "FolderManager \<Rightarrow> bool" where
  folder_start: "stored_ok stored \<Longrightarrow> new_manager stored writable = Some s \<Longrightarrow> folder_reachable s"
| folder_step: "folder_reachable s \<Longrightarrow> call_ok c s \<Longrightarrow> folder_exec c s = Some s' \<Longrightarrow> folder_reachable s'"

section \<open>Import\<close>

lemma fold_fst: "(\<And>x a b. fst (g x (a, b)) = h x a) \<Longrightarrow> fst (fold g xs (a, b)) = fold h xs a"
proof (induction xs arbitrary: a b)
  case (Cons x xs)
  obtain a' b' where g: "g x (a, b) = (a', b')" by fastforce
  then have "h x a = a'" using Cons.prems [of x a b] by simp
  then show ?case using Cons g by simp
qed simp

lemma fold_import_folders:
  "fst (fold (import_folder merge) fs (m, r)) = fold (\<lambda>f m. if fo_id f \<in> set (map fst m) \<and> merge then m else map_set (fo_id f) f m) fs m"
  by (rule fold_fst) (simp add: import_folder_def)

lemma fold_import_associations:
  "fst (fold (import_association merge) xs (as, r)) =
     fold (\<lambda>a as. if list_ex (\<lambda>b. as_workflowId b = as_workflowId a \<and> as_folderId b = as_folderId a) as then as else as @ [a]) xs as"
  by (rule fold_fst) (simp add: import_association_def)

lemma importFolders_eq:
  "\<exists>r. importFolders now data merge s =
     do { (ok, m') \<leftarrow> recalculateAllCounts (imported_associations data merge s) (imported_folders data merge s);
          let s' = s\<lparr>fm_folders := m', fm_associations := imported_associations data merge s\<rparr>;
          Some (if ok then (r, save_folders now s')
            else (r\<lparr>mr_success := False, mr_errors := [''Import failed: Maximum call stack size exceeded'']\<rparr>, s')) }"
proof -
  let ?start = "\<lparr>mr_success = True, mr_migratedFolders = 0, mr_migratedAssociations = 0, mr_errors = [], mr_warnings = []\<rparr>"
  obtain m r1 where m: "fold (import_folder merge) (ie_folders data) (if merge then fm_folders s else [], ?start) = (m, r1)"
    by fastforce
  obtain as r2 where as: "fold (import_association merge) (ie_associations data) (if merge then fm_associations s else [], r1) = (as, r2)"
    by fastforce
  have "m = imported_folders data merge s" "as = imported_associations data merge s"
    using m as fold_import_folders [of merge "ie_folders data" _ ?start] fold_import_associations [of merge "ie_associations data" _ r1]
    unfolding imported_folders_def imported_associations_def by (metis fst_conv)+
  then show ?thesis using m as by (auto simp: importFolders_def Let_def)
qed

lemma recalculated_inv:
  assumes m: "folder_forest m" and d: "distinct (map as_workflowId as)"
    and known: "list_all (\<lambda>a. as_folderId a \<in> set (map fst m)) as"
    and m': "same_links m m'" "counted as m'"
  shows "fm_folders s = m' \<Longrightarrow> fm_associations s = as \<Longrightarrow> folder_inv s"
proof -
  have "map_of m' (as_folderId a) \<noteq> None" if "a \<in> set as" for a
  proof -
    have "map_of m (as_folderId a) \<noteq> None" using known that unfolding list_all_iff known_iff by blast
    then show ?thesis using same_links_known [OF m'(1)] by simp
  qed
  then show "fm_folders s = m' \<Longrightarrow> fm_associations s = as \<Longrightarrow> folder_inv s"
    using same_links_forest [OF m'(1) m] d m'(2) by (auto simp: folder_inv_iff)
qed

lemma import_exact:
  assumes m: "folder_forest (imported_folders data merge s)"
    and d: "distinct (map as_workflowId (imported_associations data merge s))"
    and known: "list_all (\<lambda>a. as_folderId a \<in> set (map fst (imported_folders data merge s))) (imported_associations data merge s)"
  shows "\<exists>r s'. importFolders now data merge s = Some (r, s') \<and> folder_inv s'
    \<and> fm_associations s' = imported_associations data merge s
    \<and> (counted (imported_associations data merge s) (imported_folders data merge s) \<longrightarrow> fm_folders s' = imported_folders data merge s)"
proof -
  let ?m = "imported_folders data merge s" and ?as = "imported_associations data merge s"
  obtain m' where m': "recalculateAllCounts ?as ?m = Some (True, m')" "same_links ?m m'" "counted ?as m'" "counted ?as ?m \<longrightarrow> m' = ?m"
    using recalculate_exact [OF m, of ?as] by blast
  obtain r where "importFolders now data merge s = Some (r, save_folders now (s\<lparr>fm_folders := m', fm_associations := ?as\<rparr>))"
    using importFolders_eq [of now data merge s] m'(1) by (auto simp: Let_def)
  then show ?thesis
    using recalculated_inv [OF m d known m'(2,3), of "save_folders now (s\<lparr>fm_folders := m', fm_associations := ?as\<rparr>)"] m'(4)
    by simp
qed

section \<open>The invariant of the reachable states\<close>

lemma chain_ups: "chain_of m cur fs \<Longrightarrow> folder_forest m \<Longrightarrow> fo_id ` set fs = ups m cur"
proof (induction rule: chain_of.induct)
  case (chain_up i f fs)
  then show ?case using ups_step [OF chain_up(2)] forest_idD [OF chain_up(5) chain_up(2)] by simp
qed simp

lemma path_of_known:
  assumes m: "folder_forest m" and t: "map_of m t \<noteq> None"
  shows "\<exists>path. getFolderPath m (Some t) [] = Some path \<and> fst ` set path = {i. t \<in> at_or_below m i}"
proof -
  obtain f where "map_of m t = Some f" using t by blast
  then obtain fs where fs: "chain_of m (Some t) (fs @ [f])" using chain_exists [OF m] by blast
  have "fst ` set (map (\<lambda>f. (fo_id f, fo_name f)) (fs @ [f])) = ups m (Some t)"
    using chain_ups [OF fs m] by (simp add: image_image)
  then show ?thesis using chain_path [OF fs, of "[]"] by (auto simp: ups_def at_or_below_def)
qed

lemma folder_inv_empty: "folder_inv \<lparr>fm_folders = [], fm_associations = [], fm_autoSave = b, fm_storage = st, fm_writable = w\<rparr>"
  by (simp add: folder_inv_def folder_forest_def)

lemma cleanup_keeps: "folder_inv s \<Longrightarrow> snd (cleanupOrphanedWorkflows now s) = s"
proof -
  assume inv: "folder_inv s"
  have "as_folderId a \<in> set (map fst (fm_folders s))" if "a \<in> set (fm_associations s)" for a
    using folder_invD(3) [OF inv that] by (simp only: known_iff) simp
  then have "filter (\<lambda>a. as_folderId a \<in> set (map fst (fm_folders s))) (fm_associations s) = fm_associations s"
    "filter (\<lambda>a. as_folderId a \<notin> set (map fst (fm_folders s))) (fm_associations s) = []"
    by (simp_all add: filter_id_conv filter_empty_conv)
  then show ?thesis by (simp add: cleanupOrphanedWorkflows_def Let_def)
qed

lemma call_keeps:
  assumes inv: "folder_inv s" and ok: "call_ok c s"
  shows "\<exists>s'. folder_exec c s = Some s' \<and> folder_inv s'"
proof (cases c)
  case (CreateCall now random options)
  then show ?thesis using create_keeps [OF inv, of now random options] ok by (auto simp: call_ok_def folder_exec_def)
next
  case (UpdateCall now i u)
  show ?thesis
  proof (cases "map_of (fm_folders s) i")
    case None
    then show ?thesis using UpdateCall inv by (simp add: folder_exec_def updateFolder_def Let_def)
  next
    case (Some f)
    then show ?thesis using update_exact [OF inv Some, of u now] UpdateCall ok inv by (auto simp: call_ok_def folder_exec_def)
  qed
next
  case (MoveCall now i p)
  show ?thesis
  proof (cases "map_of (fm_folders s) i")
    case None
    then show ?thesis using MoveCall inv by (simp add: folder_exec_def moveFolder_def)
  next
    case (Some f)
    let ?u = "\<lparr>up_name = None, up_parentId = Some p, up_color = None, up_icon = None, up_description = None, up_order = None\<rparr>"
    have p: "fo_parentId (updated_folder ?u now f) = p" "fo_id (updated_folder ?u now f) = i"
      using forest_idD [OF folder_invD(1) [OF inv] Some] by simp_all
    obtain r where r: "canMoveFolder (fm_folders s) i p = Some r"
      using can_move_exact [OF folder_invD(1) [OF inv] Some p(2)] p(1) MoveCall ok by (auto simp: call_ok_def)
    show ?thesis
    proof (cases r)
      case None
      then show ?thesis using update_exact [OF inv Some, of ?u now] MoveCall ok r Some inv
        by (auto simp: call_ok_def folder_exec_def moveFolder_def)
    next
      case e: (Some e)
      then show ?thesis using MoveCall r Some inv by (simp add: folder_exec_def moveFolder_def)
    qed
  qed
next
  case (DeleteCall now i recursive moveTo)
  show ?thesis
  proof (cases "map_of (fm_folders s) i")
    case None
    then show ?thesis using DeleteCall inv by (simp add: folder_exec_def deleteFolder_def)
  next
    case (Some f)
    show ?thesis
    proof (cases "recursive \<or> getChildren (fm_folders s) (Some i) = []")
      case False
      then show ?thesis using DeleteCall inv Some by (simp add: folder_exec_def deleteFolder_def Let_def)
    next
      case True
      have "map_of (fm_folders s) t \<noteq> None \<and> t \<notin> at_or_below (fm_folders s) i" if t: "moveTo = Some t" for t
      proof -
        have "t \<in> set (map fst (fm_folders s))" using ok DeleteCall t by (simp add: call_ok_def)
        then have known: "map_of (fm_folders s) t \<noteq> None" by (simp only: known_iff) simp
        obtain path where path: "getFolderPath (fm_folders s) (Some t) [] = Some path"
          "fst ` set path = {i. t \<in> at_or_below (fm_folders s) i}"
          using path_of_known [OF folder_invD(1) [OF inv] known] by blast
        have "i \<notin> fst ` set path" using ok DeleteCall t path(1) by (simp add: call_ok_def)
        then show ?thesis using path(2) known by blast
      qed
      then obtain f' s' where "deleteFolder now i recursive moveTo s = Some (Inr f', s')"
        "pruned (fm_folders s) (at_or_below (fm_folders s) i) s'"
        using delete_exact [OF inv Some True, of moveTo now] by blast
      then show ?thesis using DeleteCall by (simp add: folder_exec_def pruned_def)
    qed
  qed
next
  case (AddCall now w i)
  show ?thesis
  proof (cases "map_of (fm_folders s) i = None")
    case True
    then show ?thesis using AddCall inv add_unknown [OF True, of now w] by (simp add: folder_exec_def)
  next
    case False
    then show ?thesis using add_exact [OF inv False, of now w] AddCall by (auto simp: folder_exec_def)
  qed
next
  case (RemoveCall now w)
  then show ?thesis using remove_exact [OF inv, of now w] by (auto simp: folder_exec_def)
next
  case (CleanupCall now)
  then show ?thesis using cleanup_keeps [OF inv, of now] inv by (simp add: folder_exec_def)
next
  case (ClearCall now)
  have "folder_inv (s\<lparr>fm_folders := [], fm_associations := []\<rparr>)" by (simp add: folder_inv_def folder_forest_def)
  then show ?thesis using ClearCall by (simp add: folder_exec_def clearFolders_def)
next
  case (AutoSaveCall b)
  have "folder_inv (setAutoSave b s)" using inv by (simp add: folder_inv_def setAutoSave_def)
  then show ?thesis using AutoSaveCall by (simp add: folder_exec_def)
next
  case (ImportCall now data merge)
  then show ?thesis using import_exact [of data merge s now] ok by (auto simp: call_ok_def folder_exec_def Let_def)
qed

lemma loaded_inv:
  assumes "stored_ok stored" and "new_manager stored writable = Some s"
  shows "folder_inv s"
proof (cases stored)
  case None
  then show ?thesis using assms(2) by (auto simp: new_manager_def loadFromStorage_def folder_inv_empty)
next
  case (Some data)
  let ?m = "fd_folders data" and ?as = "fd_associations data"
  have ok: "folder_forest ?m" "distinct (map as_workflowId ?as)" "list_all (\<lambda>a. as_folderId a \<in> set (map fst ?m)) ?as"
    using assms(1) Some by (simp_all add: stored_ok_def)
  obtain m' where m': "recalculateAllCounts ?as ?m = Some (True, m')" "same_links ?m m'" "counted ?as m'"
    using recalculate_exact [OF ok(1), of ?as] by blast
  then have "fm_folders s = m'" "fm_associations s = ?as"
    using assms(2) Some by (auto simp: new_manager_def loadFromStorage_def)
  then show ?thesis using recalculated_inv [OF ok m'(2,3), of s] by simp
qed

lemma reachable_inv: "folder_reachable s \<Longrightarrow> folder_inv s"
proof (induction rule: folder_reachable.induct)
  case (folder_start stored writable s)
  then show ?case by (rule loaded_inv)
next
  case (folder_step s c s')
  then show ?case using call_keeps [OF folder_step(4,2)] by simp
qed

text \<open>Runs of allowed calls.\<close>

fun folder_run :: "FolderCall list \<Rightarrow> FolderManager \<Rightarrow> FolderManager option" where
  "folder_run [] s = Some s"
| "folder_run (c # cs) s =
     (if call_ok c s then (case folder_exec c s of None \<Rightarrow> None | Some s' \<Rightarrow> folder_run cs s') else None)"

lemma folder_run_reachable: "folder_reachable s \<Longrightarrow> folder_run cs s = Some s' \<Longrightarrow> folder_reachable s'"
  by (induction cs arbitrary: s) (auto split: if_splits option.splits intro: folder_step)

lemma empty_reachable: "folder_reachable \<lparr>fm_folders = [], fm_associations = [], fm_autoSave = True, fm_storage = None, fm_writable = w\<rparr>"
  by (rule folder_start [of None w]) (simp_all add: stored_ok_def new_manager_def loadFromStorage_def)

text \<open>An example: a folder with a subfolder, and a workflow in the subfolder.\<close>

definition plain_folder :: "string \<Rightarrow> string option \<Rightarrow> CreateFolderOptions" where
  "plain_folder name p = \<lparr>cr_name = name, cr_parentId = p, cr_color = None, cr_icon = None, cr_description = None, cr_order = None\<rparr>"

definition sample_manager :: FolderManager where
  "sample_manager = the (folder_run
     [CreateCall 1 ''a'' (plain_folder ''Web'' None),
      CreateCall 2 ''b'' (plain_folder ''Forms'' (Some ''folder-1-a'')),
      AddCall 3 ''w'' ''folder-2-b'']
     \<lparr>fm_folders = [], fm_associations = [], fm_autoSave = True, fm_storage = None, fm_writable = True\<rparr>)"

lemma sample_reachable: "folder_reachable sample_manager"
proof -
  have "folder_run
     [CreateCall 1 ''a'' (plain_folder ''Web'' None),
      CreateCall 2 ''b'' (plain_folder ''Forms'' (Some ''folder-1-a'')),
      AddCall 3 ''w'' ''folder-2-b'']
     \<lparr>fm_folders = [], fm_associations = [], fm_autoSave = True, fm_storage = None, fm_writable = True\<rparr> = Some sample_manager"
    unfolding sample_manager_def by code_simp
  then show ?thesis by (rule folder_run_reachable [OF empty_reachable])
qed

section \<open>Cycles\<close>

lemma at_depth_unique: "at_depth m cur n \<Longrightarrow> at_depth m cur n' \<Longrightarrow> n = n'"
  by (simp flip: calculateDepth_shift)

lemma at_depth_link:
  assumes "(i, k) \<in> parent_of m" and "[] \<notin> set (map fst m)" and "at_depth m (Some i) n"
  shows "\<exists>n'<n. at_depth m (Some k) n'"
proof -
  obtain f where f: "map_of m i = Some f" "fo_parentId f = Some k" using assms(1) by (auto simp: parent_of_def)
  then have "i \<noteq> []" using assms(2) map_of_mem_keys by metis
  with assms(3) f show ?thesis by (cases rule: at_depth_SomeE) auto
qed

lemma cycle_depth:
  assumes "(i, j) \<in> (parent_of m)\<^sup>+" and keys: "[] \<notin> set (map fst m)"
  shows "at_depth m (Some i) n \<Longrightarrow> \<exists>n'<n. at_depth m (Some j) n'"
  using assms(1)
proof (induction arbitrary: n rule: converse_trancl_induct)
  case (base i)
  then show ?case using at_depth_link [OF _ keys] by blast
next
  case (step i k)
  then obtain n' where "n' < n" "at_depth m (Some k) n'" using at_depth_link [OF _ keys] by blast
  then show ?case using step(3) less_trans by blast
qed

lemma cycle_diverges:
  assumes "(i, i) \<in> (parent_of m)\<^sup>+" and "[] \<notin> set (map fst m)"
  shows "calculateDepth m (Some i) d = None"
proof (rule ccontr)
  assume "calculateDepth m (Some i) d \<noteq> None"
  then obtain e where "calculateDepth m (Some i) d = Some e" by blast
  then have "at_depth m (Some i) (e - d)" using computes_at_depth by blast
  then show False using cycle_depth [OF assms] at_depth_unique by blast
qed

lemma depths_of_None: "(i, f) \<in> set es \<Longrightarrow> calculateDepth m (Some (fo_id f)) 0 = None \<Longrightarrow> depths_of m es = None"
proof (induction es)
  case (Cons e es)
  obtain j g where e: "e = (j, g)" by (cases e)
  show ?case
  proof (cases "(i, f) = e")
    case True
    then show ?thesis using Cons.prems(2) e by auto
  next
    case False
    then have "depths_of m es = None" using Cons by auto
    then show ?thesis using e by (cases "calculateDepth m (Some (fo_id g)) 0") simp_all
  qed
qed simp

lemma fold_map_set_ids: "(\<forall>(i, f)\<in>set m. fo_id f = i) \<Longrightarrow> (\<forall>(i, f)\<in>set (fold (\<lambda>f m. map_set (fo_id f) f m) fs m). fo_id f = i)"
proof (induction fs arbitrary: m)
  case (Cons f fs)
  have "\<forall>(i, g)\<in>set (map_set (fo_id f) f m). fo_id g = i"
    using Cons.prems by (induction "fo_id f" f m rule: map_set.induct) auto
  then show ?case using Cons.IH by simp
qed simp

lemma fold_map_set_keys: "set (map fst (fold (\<lambda>f m. map_set (fo_id f) f m) fs m)) = set (map fst m) \<union> fo_id ` set fs"
  by (induction fs arbitrary: m) (simp_all add: map_set_keys del: set_map)

lemma import_replaces: "imported_folders data False s = fold (\<lambda>f m. map_set (fo_id f) f m) (ie_folders data) []"
  by (simp add: imported_folders_def)

section \<open>Properties\<close>

text \<open>
  C6: In every reachable state of the folder manager the folders form a forest of depth at most ten whose
  parents exist, every workflow is in at most one folder, which exists, and the counts of workflows and
  descendants are exact; and every admitted call from such a state comes to an end (no climb and no recursion
  runs on) in a state of this kind. Reachable means: by admitted calls from a manager that found nothing
  stored, or that loaded stored folders that form a forest, with at most one association per workflow and
  only to stored folders. Admitted are all calls except what the code does not guard: a parent that is
  the empty string (in a move or an update), a deletion that moves the workflows to a folder that is unknown
  or deleted with it, a generated id that is taken, and an import whose result is not a forest, has a
  workflow in two folders or an association to an unknown folder.
\<close>

theorem folder_reachable_inv:
  assumes "folder_reachable s" and "call_ok c s"
  shows "folder_inv s \<and> (\<exists>s'. folder_exec c s = Some s' \<and> folder_inv s')"
  using call_keeps [OF reachable_inv [OF assms(1)] assms(2)] reachable_inv [OF assms(1)] by blast

lemma sample_call: "call_ok (DeleteCall 4 ''folder-1-a'' True None) sample_manager"
  by (simp add: call_ok_def)

lemma folder_reachable_inv_witness:
  "folder_inv sample_manager
   \<and> (\<exists>s'. folder_exec (DeleteCall 4 ''folder-1-a'' True None) sample_manager = Some s' \<and> folder_inv s')"
  by (rule folder_reachable_inv [OF sample_reachable sample_call])

text \<open>
  C7: canMoveFolder is exact in every reachable state (in the sense given above), for every folder that exists and every
  new parent other than the empty string: it answers, and it accepts the move if and only if the hierarchy with
  the new parent is a forest again, that is, the new parent exists, no cycle arises, and no folder of the
  moved subtree gets deeper than ten. Nothing is claimed for the empty string.
\<close>

theorem folder_move_exact:
  assumes "folder_reachable s" and "map_of (fm_folders s) i = Some f" and "p \<noteq> Some []"
  shows "\<exists>r. canMoveFolder (fm_folders s) i p = Some r
    \<and> (r = None \<longleftrightarrow> folder_forest (map_set i (f\<lparr>fo_parentId := p\<rparr>) (fm_folders s)))"
proof -
  note m = folder_invD(1) [OF reachable_inv [OF assms(1)]]
  show ?thesis using can_move_exact [OF m assms(2), of "f\<lparr>fo_parentId := p\<rparr>"] forest_idD [OF m assms(2)] assms(3) by simp
qed

lemma sample_folder: "\<exists>f. map_of (fm_folders sample_manager) ''folder-1-a'' = Some f"
proof -
  have "map_of (fm_folders sample_manager) ''folder-1-a'' \<noteq> None" by code_simp
  then show ?thesis by blast
qed

lemma folder_move_exact_witness:
  "\<exists>f r. canMoveFolder (fm_folders sample_manager) ''folder-1-a'' (Some ''folder-2-b'') = Some r
    \<and> (r = None \<longleftrightarrow> folder_forest (map_set ''folder-1-a'' (f\<lparr>fo_parentId := Some ''folder-2-b''\<rparr>) (fm_folders sample_manager)))"
proof -
  obtain f where f: "map_of (fm_folders sample_manager) ''folder-1-a'' = Some f" using sample_folder by blast
  have "Some ''folder-2-b'' \<noteq> Some []" by simp
  from folder_move_exact [OF sample_reachable f this] show ?thesis by blast
qed

text \<open>
  C8: In a reachable state (in the sense given above), deleting an existing folder with its subfolders, where the workflows
  are to go nowhere or to a folder that exists and lies outside what is deleted, removes exactly the folder and
  everything below it: all other folders stay with their data, and each workflow that was in a removed folder
  is then where it was to be moved, or in no folder, while all others stay where they were. The result satisfies
  the invariant, so the counts above are exact again.
\<close>

theorem folder_delete_exact:
  assumes "folder_reachable s" and "map_of (fm_folders s) i = Some f"
    and "\<And>t. moveTo = Some t \<Longrightarrow> map_of (fm_folders s) t \<noteq> None \<and> t \<notin> at_or_below (fm_folders s) i"
  shows "\<exists>f' s'. deleteFolder now i True moveTo s = Some (Inr f', s') \<and> folder_data f' = folder_data f \<and> folder_inv s'
    \<and> (\<forall>j. map_option folder_data (map_of (fm_folders s') j) =
         (if j \<in> at_or_below (fm_folders s) i then None else map_option folder_data (map_of (fm_folders s) j)))
    \<and> (\<forall>w. folder_of s' w = (case folder_of s w of None \<Rightarrow> None
         | Some j \<Rightarrow> if j \<in> at_or_below (fm_folders s) i then moveTo else Some j))"
  using delete_exact [OF reachable_inv [OF assms(1)] assms(2) disjI1 [OF TrueI] assms(3), where now = now]
  by (auto simp: pruned_def moved_from_def fun_eq_iff)

lemma folder_delete_exact_witness:
  "\<exists>f' s'. deleteFolder 4 ''folder-1-a'' True None sample_manager = Some (Inr f', s')
    \<and> map_of (fm_folders s') ''folder-1-a'' = None"
proof -
  obtain f where f: "map_of (fm_folders sample_manager) ''folder-1-a'' = Some f" using sample_folder by blast
  obtain f' s' where "deleteFolder 4 ''folder-1-a'' True None sample_manager = Some (Inr f', s')"
    "\<forall>j. map_option folder_data (map_of (fm_folders s') j) =
         (if j \<in> at_or_below (fm_folders sample_manager) ''folder-1-a'' then None
          else map_option folder_data (map_of (fm_folders sample_manager) j))"
    using folder_delete_exact [OF sample_reachable f, of None 4] by auto
  moreover have "''folder-1-a'' \<in> at_or_below (fm_folders sample_manager) ''folder-1-a''" by (simp add: at_or_below_def)
  ultimately show ?thesis by (metis option.map_disc_iff)
qed

text \<open>
  C10: The folder tree of a reachable state is complete: it is built, contains every folder exactly once, the
  children of each node are the children of its folder in their order, and the depth, the path
  and the mark for children that a node carries are right.
\<close>

theorem folder_tree_complete:
  assumes "folder_reachable s"
  shows "\<exists>ts. getFolderTree (fm_folders s) None = Some ts
    \<and> mset (map tn_folder (concat (map all_nodes ts))) = mset (map snd (fm_folders s))
    \<and> (\<forall>n\<in>set (concat (map all_nodes ts)).
         map tn_folder (tn_children n) = getChildren (fm_folders s) (Some (fo_id (tn_folder n)))
         \<and> calculateDepth (fm_folders s) (Some (fo_id (tn_folder n))) 0 = Some (Suc (tn_depth n))
         \<and> map_option (map snd) (getFolderPath (fm_folders s) (Some (fo_id (tn_folder n))) []) = Some (tn_path n)
         \<and> tn_hasChildren n = (tn_children n \<noteq> []))"
  using tree_of_forest [OF folder_invD(1) [OF reachable_inv [OF assms]]] by (auto simp: node_exact_def Let_def)

lemma folder_tree_complete_witness:
  "\<exists>ts. getFolderTree (fm_folders sample_manager) None = Some ts
    \<and> mset (map tn_folder (concat (map all_nodes ts))) = mset (map snd (fm_folders sample_manager))"
  using folder_tree_complete [OF sample_reachable] by blast

text \<open>
  C11: Paths lead back: in a reachable state (in the sense given above, so that no parent is the empty string) where no two
  folders with one parent have the same name, for a folder along whose path the names are not blank and
  contain no slash, looking up the path that getFolderPath returns finds exactly this folder.
\<close>

theorem folder_path_round_trip:
  assumes "folder_reachable s" and "unique_siblings (fm_folders s)" and "map_of (fm_folders s) i = Some f"
    and "getFolderPath (fm_folders s) (Some i) [] = Some path" and "list_all path_name (map snd path)"
  shows "findFolderByPath (fm_folders s) (path_string (map snd path)) = Inr f"
proof -
  note m = folder_invD(1) [OF reachable_inv [OF assms(1)]]
  obtain fs where fs: "chain_of (fm_folders s) (Some i) (fs @ [f])" using chain_exists [OF m assms(3)] by blast
  have names: "map snd path = map fo_name (fs @ [f])"
    using chain_path [OF fs, of "[]"] assms(4) by auto
  have "find_parts (fm_folders s) None (map snd path) = Some (Some i)"
    unfolding names using find_chain [OF m assms(2) fs] by simp
  then show ?thesis using path_parts_path [OF assms(5)] names forest_idD [OF m assms(3)] assms(3)
    by (simp add: findFolderByPath_def getFolder_def del: map_append)
qed

lemma folder_path_round_trip_witness:
  "\<exists>f. findFolderByPath (fm_folders sample_manager) ''/Web/Forms'' = Inr f"
proof -
  have "map_of (fm_folders sample_manager) ''folder-2-b'' \<noteq> None" by code_simp
  then obtain f where f: "map_of (fm_folders sample_manager) ''folder-2-b'' = Some f" by blast
  have u: "unique_siblings (fm_folders sample_manager)" by code_simp
  have p: "getFolderPath (fm_folders sample_manager) (Some ''folder-2-b'') [] =
      Some [(''folder-1-a'', ''Web''), (''folder-2-b'', ''Forms'')]" by code_simp
  have n: "list_all path_name (map snd [(''folder-1-a'', ''Web''), (''folder-2-b'', ''Forms'')])" by code_simp
  show ?thesis using folder_path_round_trip [OF sample_reachable u f p n] by (simp add: path_string_def)
qed

text \<open>
  C17: Exporting the folders of a reachable state and importing them into any manager, without merging, restores the
  folders with their counts and the associations.
\<close>

theorem folder_export_import:
  assumes "folder_reachable s"
  shows "\<exists>r s'. importFolders now (exportFolders before s) False s0 = Some (r, s')
    \<and> fm_folders s' = fm_folders s \<and> fm_associations s' = fm_associations s \<and> folder_inv s'"
proof -
  note D = folder_invD [OF reachable_inv [OF assms]]
  have "fold (\<lambda>f m. map_set (fo_id f) f m) (map snd es) acc = acc @ es"
    if "distinct (map fst (acc @ es))" "\<forall>(i, f)\<in>set es. fo_id f = i" for es acc :: folder_map
    using that
  proof (induction es arbitrary: acc)
    case (Cons e es)
    obtain i f where e: "e = (i, f)" by (cases e)
    have "map_set (fo_id f) f acc = acc @ [(i, f)]" using Cons.prems e by (simp add: map_set_new image_iff)
    then show ?case using Cons.IH [of "acc @ [(i, f)]"] Cons.prems e by simp
  qed simp
  moreover have "\<forall>(i, f)\<in>set (fm_folders s). fo_id f = i"
    using D(1) by (auto simp: folder_forest_def list_all_iff folder_ok_def)
  ultimately have m: "imported_folders (exportFolders before s) False s0 = fm_folders s"
    using forest_distinct [OF D(1)] by (simp add: import_replaces exportFolders_def)
  have "fold (\<lambda>a as. if list_ex (\<lambda>b. as_workflowId b = as_workflowId a \<and> as_folderId b = as_folderId a) as then as else as @ [a]) es acc = acc @ es"
    if "distinct (map as_workflowId (acc @ es))" for es acc :: "FolderAssociation list"
    using that
  proof (induction es arbitrary: acc)
    case (Cons e es)
    have "\<not> list_ex (\<lambda>b. as_workflowId b = as_workflowId e \<and> as_folderId b = as_folderId e) acc"
    proof
      assume "list_ex (\<lambda>b. as_workflowId b = as_workflowId e \<and> as_folderId b = as_folderId e) acc"
      then obtain b where b: "b \<in> set acc" "as_workflowId b = as_workflowId e" by (auto simp: list_ex_iff)
      have "as_workflowId b \<in> set (map as_workflowId acc)" using b(1) by simp
      then have "as_workflowId e \<in> set (map as_workflowId acc)" unfolding b(2) .
      then show False using Cons.prems by simp
    qed
    then show ?case using Cons.IH [of "acc @ [e]"] Cons.prems by simp
  qed simp
  then have as: "imported_associations (exportFolders before s) False s0 = fm_associations s"
    using D(2) by (simp add: imported_associations_def exportFolders_def)
  have "list_all (\<lambda>a. as_folderId a \<in> set (map fst (fm_folders s))) (fm_associations s)"
    using D(3) by (simp only: list_all_iff known_iff) simp
  then show ?thesis
    using import_exact [of "exportFolders before s" False s0 now] D(1,2,4) unfolding m as by blast
qed

lemma folder_export_import_witness:
  "\<exists>r s'. importFolders 9 (exportFolders 8 sample_manager) False sample_manager = Some (r, s')
    \<and> fm_folders s' = fm_folders sample_manager"
  using folder_export_import [OF sample_reachable] by blast

lemma descendants_longer:
  "descendants_of m cs = Some ds \<Longrightarrow> c \<in> set cs \<Longrightarrow>
    \<exists>below. descendants_of m (getChildren m (Some (fo_id c))) = Some below \<and> length below < length ds"
proof (induction cs arbitrary: ds)
  case (Cons b cs)
  then obtain below rest where d: "descendants_of m (getChildren m (Some (fo_id b))) = Some below"
    "descendants_of m cs = Some rest" "ds = b # below @ rest"
    by (auto simp: descendants_of_step split: Option.bind_splits)
  show ?case
  proof (cases "c = b")
    case True
    then show ?thesis using d by simp
  next
    case False
    then obtain below' where "descendants_of m (getChildren m (Some (fo_id c))) = Some below'" "length below' < length rest"
      using Cons.IH [OF d(2)] Cons.prems(2) by auto
    then show ?thesis using d(3) by fastforce
  qed
qed simp

lemma own_child_overflows:
  assumes "f \<in> set (getChildren m (Some (fo_id f)))"
  shows "getFolderDescendants m (fo_id f) = None"
proof (rule ccontr)
  assume "getFolderDescendants m (fo_id f) \<noteq> None"
  then obtain ds where ds: "descendants_of m (getChildren m (Some (fo_id f))) = Some ds" by (auto simp: getFolderDescendants_def)
  from descendants_longer [OF ds assms] ds show False by auto
qed

lemma import_outcome:
  assumes "recalculateAllCounts (imported_associations data merge s) (imported_folders data merge s) = Some (False, m')"
  shows "\<exists>r s'. importFolders now data merge s = Some (r, s') \<and> \<not> mr_success r \<and> fm_folders s' = m'
    \<and> fm_storage s' = fm_storage s"
  using importFolders_eq [of now data merge s] assms by (auto simp: Let_def)

text \<open>
  C18: importFolders checks nothing. Let the import replace the folders (no merging), no imported folder have the empty
  string as id, and let the imported folders hold a cycle of parents. If they are two or more (with different ids), the
  import never comes to an end: sorting by depth climbs around the cycle for ever. If there is one, its own parent, the sort
  compares nothing, and the recursion that counts its descendants overflows the stack: the import reports a
  failure, but this folder has already replaced the folders of the manager, and nothing is stored.
\<close>

theorem folder_import_cycle:
  assumes "(i, i) \<in> (parent_of (imported_folders data False s))\<^sup>+" and "[] \<notin> fo_id ` set (ie_folders data)"
  shows "if 2 \<le> length (imported_folders data False s) then importFolders now data False s = None
    else \<exists>r s'. importFolders now data False s = Some (r, s') \<and> \<not> mr_success r \<and> map fst (fm_folders s') = [i]
      \<and> fm_storage s' = fm_storage s"
proof -
  let ?m = "imported_folders data False s" and ?as = "imported_associations data False s"
  let ?m1 = "map (\<lambda>(i, f). (i, set_workflowCount (workflows_at ?as (fo_id f)) f)) ?m"
  have ids: "\<forall>(i, f)\<in>set ?m. fo_id f = i" unfolding import_replaces by (rule fold_map_set_ids) simp
  have links: "same_links ?m ?m1" by (simp add: same_links_def links_def case_prod_beta o_def)
  have keys: "[] \<notin> set (map fst ?m1)"
    using assms(2) fold_map_set_keys [of "ie_folders data" "[]"] same_links_keys [OF links] by (simp add: import_replaces)
  obtain f where f: "map_of ?m i = Some f" using assms(1) by (auto dest!: tranclD simp: parent_of_def)
  then have at: "(i, set_workflowCount (workflows_at ?as (fo_id f)) f) \<in> set ?m1" "fo_id f = i"
    using ids by (auto dest!: map_of_SomeD intro: rev_image_eqI)
  show ?thesis
  proof (cases "2 \<le> length ?m")
    case True
    have "calculateDepth ?m1 (Some i) 0 = None"
      using cycle_diverges [OF _ keys, of i] assms(1) same_links_parent_of [OF links] by simp
    then have "depths_of ?m1 ?m1 = None" using depths_of_None [of i _ ?m1 ?m1] at by force
    then have "recalculateAllCounts ?as ?m = None" using True by (simp add: recalculateAllCounts_def Let_def)
    then show ?thesis using importFolders_eq [of now data False s] True by auto
  next
    case False
    then have one: "?m = [(i, f)]" using map_of_SomeD [OF f] by (cases ?m rule: remdups_adj.cases) auto
    let ?f = "set_workflowCount (workflows_at ?as (fo_id f)) f"
    obtain j where "(i, j) \<in> parent_of ?m" "(j, i) \<in> (parent_of ?m)\<^sup>*" using assms(1) by (auto dest: tranclD)
    then have "fo_parentId f = Some i"
      using one by (auto simp: parent_of_def split: if_splits elim: converse_rtranclE)
    then have "?f \<in> set (getChildren [(i, ?f)] (Some (fo_id ?f)))" using at(2) by (simp add: getChildren_def set_workflowCount_def)
    from own_child_overflows [OF this] have "recalculateAllCounts ?as ?m = Some (False, [(i, ?f)])"
      using one at(2) by (simp add: recalculateAllCounts_def Let_def set_workflowCount_def)
    from import_outcome [OF this] show ?thesis using False by force
  qed
qed

definition twin_folder :: "string \<Rightarrow> string \<Rightarrow> WorkflowFolder" where
  "twin_folder i p = \<lparr>fo_id = i, fo_name = i, fo_parentId = Some p, fo_color = None, fo_icon = None, fo_description = None,
     fo_metadata = \<lparr>fmd_created = 0, fmd_updated = 0, fmd_workflowCount = None, fmd_descendantCount = None\<rparr>, fo_order = None\<rparr>"

definition import_of :: "WorkflowFolder list \<Rightarrow> ImportExportData" where
  "import_of fs = \<lparr>ie_folders = fs, ie_associations = [], ie_exportedAt = 0, ie_exportedBy = [], ie_version = []\<rparr>"

lemma folder_import_cycle_witness:
  "importFolders 1 (import_of [twin_folder ''a'' ''b'', twin_folder ''b'' ''a'']) False sample_manager = None
   \<and> (\<exists>r s'. importFolders 1 (import_of [twin_folder ''a'' ''a'']) False sample_manager = Some (r, s')
        \<and> \<not> mr_success r \<and> map fst (fm_folders s') = [''a''])"
proof -
  let ?two = "import_of [twin_folder ''a'' ''b'', twin_folder ''b'' ''a'']" and ?one = "import_of [twin_folder ''a'' ''a'']"
  have "(''a'', ''b'') \<in> parent_of (imported_folders ?two False sample_manager)"
    "(''b'', ''a'') \<in> parent_of (imported_folders ?two False sample_manager)"
    by (simp_all add: parent_of_def import_replaces twin_folder_def import_of_def)
  then have two: "(''a'', ''a'') \<in> (parent_of (imported_folders ?two False sample_manager))\<^sup>+"
    by (auto intro: trancl_into_trancl2)
  have one: "(''a'', ''a'') \<in> (parent_of (imported_folders ?one False sample_manager))\<^sup>+"
    by (rule r_into_trancl) (simp add: parent_of_def import_replaces twin_folder_def import_of_def)
  have ids: "[] \<notin> fo_id ` set (ie_folders ?two)" "[] \<notin> fo_id ` set (ie_folders ?one)"
    by (simp_all add: twin_folder_def import_of_def)
  have len: "length (imported_folders ?two False sample_manager) = 2" "length (imported_folders ?one False sample_manager) = 1"
    by (simp_all add: import_replaces twin_folder_def import_of_def)
  show ?thesis
    using folder_import_cycle [OF two ids(1), of 1] folder_import_cycle [OF one ids(2), of 1] unfolding len by force
qed

text \<open>
  C9: A workflow survives its folder in vain: in a reachable state, deleting a folder without subfolders, with its workflows to be moved
  to the folder itself or to one that does not exist, reports success and leaves the associations as they were, so
  that each of its workflows belongs to a folder that is gone and getWorkflowFolder fails for it. The errors
  of moveWorkflow are not looked at.
\<close>

theorem folder_delete_orphans:
  assumes "folder_reachable s" and "map_of (fm_folders s) i = Some f" and "getChildren (fm_folders s) (Some i) = []"
    and "t = i \<or> map_of (fm_folders s) t = None" and "folder_of s w = Some i"
  shows "\<exists>f' s'. deleteFolder now i recursive (Some t) s = Some (Inr f', s')
    \<and> getWorkflowFolder s' w = Inl (''Folder not found: '' @ i) \<and> \<not> folder_inv s'"
proof -
  note inv = reachable_inv [OF assms(1)]
  note D = folder_invD [OF inv]
  have stay: "map_option snd (moveWorkflow now v t s) = Some s" if at: "folder_of s v = Some i" for v
  proof (cases "map_of (fm_folders s) t")
    case None
    then show ?thesis by (simp add: moveWorkflow_def add_unknown)
  next
    case (Some g)
    then have "t = i" "t \<in> set (map fst (fm_folders s))" using assms(4) map_of_mem_keys by auto
    moreover obtain a where "find (\<lambda>a. as_workflowId a = v) (fm_associations s) = Some a" "as_folderId a = i"
      using at by (auto simp: folder_of_find)
    ultimately show ?thesis by (simp add: moveWorkflow_def addWorkflowToFolder_def)
  qed
  obtain ws where ws: "getWorkflowsInFolder s i False = Inr ws" "set ws = {v. folder_of s v = Some i}"
    using workflows_direct [OF inv] assms(2) by auto
  have "release_each now (Some t) vs s = Some s" if "\<forall>v\<in>set vs. folder_of s v = Some i" for vs
    using that by (induction vs) (simp_all add: stay)
  then have release: "release_workflows now (Some t) i s = Some s" using ws by (simp add: release_workflows_def)
  have leaf: "(j, i) \<notin> parent_of (fm_folders s)" for j
    using assms(3) mem_getChildren [OF D(1), of _ "Some i"] forest_idD [OF D(1)] by (force simp: parent_of_def)
  obtain m' where m': "updateDescendantCounts now (fo_parentId f) (filter (\<lambda>(j, f). j \<noteq> i) (fm_folders s)) = Some m'"
    "folder_forest m'" "\<forall>j. map_option folder_data (map_of m' j) = (if j = i then None else map_option folder_data (map_of (fm_folders s) j))"
    using leaf_counts [OF D(1) D(4) assms(2) leaf, of now] by blast
  let ?s' = "save_folders now (s\<lparr>fm_folders := m'\<rparr>)"
  have "deleteFolder now i recursive (Some t) s = Some (Inr f, ?s')"
    using assms(2,3) release m'(1) by (simp add: deleteFolder_def remove_folder_def delete_children_step Let_def)
  moreover have gone: "map_of m' i = None" using m'(3) [rule_format, of i] by simp
  obtain a where a: "find (\<lambda>a. as_workflowId a = w) (fm_associations s) = Some a" "as_folderId a = i"
    using assms(5) by (auto simp: folder_of_find)
  moreover have "getWorkflowFolder ?s' w = Inl (''Folder not found: '' @ i)"
    using a gone by (simp add: getWorkflowFolder_def getFolder_def)
  moreover have "\<not> folder_inv ?s'"
    using a gone folder_invD(3) [of ?s' a] by (auto simp: find_Some_iff)
  ultimately show ?thesis by blast
qed

lemma folder_delete_orphans_witness:
  "\<exists>f' s'. deleteFolder 5 ''folder-2-b'' False (Some ''folder-2-b'') sample_manager = Some (Inr f', s')
    \<and> getWorkflowFolder s' ''w'' = Inl ''Folder not found: folder-2-b''"
proof -
  have "map_of (fm_folders sample_manager) ''folder-2-b'' \<noteq> None" by code_simp
  then obtain f where f: "map_of (fm_folders sample_manager) ''folder-2-b'' = Some f" by blast
  have none: "getChildren (fm_folders sample_manager) (Some ''folder-2-b'') = []" by code_simp
  have w: "folder_of sample_manager ''w'' = Some ''folder-2-b''" by code_simp
  show ?thesis using folder_delete_orphans [OF sample_reachable f none disjI1 [OF refl] w, of 5 False] by auto
qed

end
