(* ===== verification/Sync_Queue.thy ===== *)
theory Sync_Queue
  imports Json_Doc Interfaces "HOL-Library.List_Lexorder" "HOL-Library.Char_ord"
begin

text \<open>
  The offline queue: \<open>SyncQueue\<close> of frontend/src/lib/sync-queue.ts and \<open>processQueue\<close> of
  frontend/src/lib/sync-processor.ts. The IndexedDB object store is a list of items with distinct
  identifiers, in the order of its keys, and its transactions succeed; the listeners, which only
  receive the statistics, are left out. What the server answers for an item is an argument.
\<close>

section \<open>Items and the store\<close>

datatype SyncOperationType =
    Upload_screenshot | Upload_multiple_screenshots | Delete_screenshot | Update_screenshot
  | Create_pattern | Update_pattern | Delete_pattern

datatype SyncStatus = Sq_pending | Sq_syncing | Sq_completed | Sq_failed | Sq_cancelled

datatype ConflictPolicy = Server_wins | Client_wins | Merge_both

record SyncQueueItem =
  sq_id :: ident
  sq_type :: SyncOperationType
  sq_status :: SyncStatus
  sq_priority :: int
  sq_data :: json
  sq_metadata :: "(string, json) fmap"
  sq_retryCount :: nat
  sq_maxRetries :: int
  sq_lastError :: "string option"
  sq_createdAt :: millis
  sq_updatedAt :: millis
  sq_syncedAt :: "millis option"
  sq_nextRetryAt :: "millis option"
  sq_conflictResolution :: "ConflictPolicy option"

record SyncQueue =
  q_store :: "SyncQueueItem list"
  q_syncing :: bool

text \<open>\<open>put\<close>, \<open>delete\<close> and \<open>get\<close> of the object store.\<close>

fun store_put :: "SyncQueueItem \<Rightarrow> SyncQueueItem list \<Rightarrow> SyncQueueItem list" where
  "store_put x [] = [x]"
| "store_put x (y # ys) =
     (if sq_id x = sq_id y then x # ys
      else if sq_id x < sq_id y then x # y # ys
      else y # store_put x ys)"

definition store_delete :: "ident \<Rightarrow> SyncQueueItem list \<Rightarrow> SyncQueueItem list" where
  "store_delete i xs = filter (\<lambda>x. sq_id x \<noteq> i) xs"

definition store_get :: "ident \<Rightarrow> SyncQueueItem list \<Rightarrow> SyncQueueItem option" where
  "store_get i xs = find (\<lambda>x. sq_id x = i) xs"

definition store_ok :: "SyncQueueItem list \<Rightarrow> bool" where
  "store_ok xs = sorted_wrt (<) (map sq_id xs)"

section \<open>The queue\<close>

text \<open>\<open>enqueue\<close>: an absent option is \<open>None\<close>. A duplicate key is refused.\<close>

definition enqueue ::
    "ident \<Rightarrow> millis \<Rightarrow> SyncOperationType \<Rightarrow> json \<Rightarrow> int option \<Rightarrow> int option
      \<Rightarrow> (string, json) fmap option \<Rightarrow> ConflictPolicy option \<Rightarrow> SyncQueue
      \<Rightarrow> js_error + SyncQueue \<times> SyncQueueItem" where
  "enqueue generated now type data priority maxRetries metadata policy q =
     (let item = \<lparr>sq_id = generated, sq_type = type, sq_status = Sq_pending,
            sq_priority = (case priority of None \<Rightarrow> 0 | Some p \<Rightarrow> p), sq_data = data,
            sq_metadata = (case metadata of None \<Rightarrow> fmempty | Some m \<Rightarrow> m), sq_retryCount = 0,
            sq_maxRetries = (case maxRetries of None \<Rightarrow> 3 | Some n \<Rightarrow> n), sq_lastError = None,
            sq_createdAt = now, sq_updatedAt = now, sq_syncedAt = None, sq_nextRetryAt = None,
            sq_conflictResolution = policy\<rparr>
      in if store_get generated (q_store q) \<noteq> None then Inl (Error ''ConstraintError'')
         else Inr (q\<lparr>q_store := store_put item (q_store q)\<rparr>, item))"

text \<open>The comparison of \<open>getAll\<close>, and the stable sort by it.\<close>

definition sq_before :: "SyncQueueItem \<Rightarrow> SyncQueueItem \<Rightarrow> bool" where
  "sq_before a b = (sq_priority b < sq_priority a
     \<or> sq_priority a = sq_priority b \<and> sq_createdAt a \<le> sq_createdAt b)"

fun sq_insert :: "SyncQueueItem \<Rightarrow> SyncQueueItem list \<Rightarrow> SyncQueueItem list" where
  "sq_insert x [] = [x]"
| "sq_insert x (y # ys) = (if sq_before x y then x # y # ys else y # sq_insert x ys)"

definition sq_sort :: "SyncQueueItem list \<Rightarrow> SyncQueueItem list" where
  "sq_sort xs = foldr sq_insert xs []"

definition sq_selected :: "SyncStatus option \<Rightarrow> SyncOperationType option \<Rightarrow> SyncQueueItem \<Rightarrow> bool" where
  "sq_selected status type x =
     ((case status of None \<Rightarrow> True | Some s \<Rightarrow> sq_status x = s)
      \<and> (case type of None \<Rightarrow> True | Some t \<Rightarrow> sq_type x = t))"

definition getAll ::
    "SyncStatus option \<Rightarrow> SyncOperationType option \<Rightarrow> SyncQueue \<Rightarrow> SyncQueueItem list" where
  "getAll status type q = sq_sort (filter (sq_selected status type) (q_store q))"

definition q_get :: "ident \<Rightarrow> SyncQueue \<Rightarrow> SyncQueueItem option" where
  "q_get i q = store_get i (q_store q)"

definition q_update :: "millis \<Rightarrow> SyncQueueItem \<Rightarrow> SyncQueue \<Rightarrow> SyncQueue" where
  "q_update now item q = q\<lparr>q_store := store_put (item\<lparr>sq_updatedAt := now\<rparr>) (q_store q)\<rparr>"

definition q_remove :: "ident \<Rightarrow> SyncQueue \<Rightarrow> SyncQueue" where
  "q_remove i q = q\<lparr>q_store := store_delete i (q_store q)\<rparr>"

definition clearCompleted :: "SyncQueue \<Rightarrow> SyncQueue \<times> nat" where
  "clearCompleted q =
     (let completed = getAll (Some Sq_completed) None q
      in (fold (\<lambda>x. q_remove (sq_id x)) completed q, length completed))"

definition clearAll :: "SyncQueue \<Rightarrow> SyncQueue" where
  "clearAll q = q\<lparr>q_store := []\<rparr>"

record SyncQueueStats =
  st_total :: nat
  st_pending :: nat
  st_syncing :: nat
  st_completed :: nat
  st_failed :: nat
  st_cancelled :: nat

fun count_status :: "SyncStatus \<Rightarrow> SyncQueueStats \<Rightarrow> SyncQueueStats" where
  "count_status Sq_pending s = s\<lparr>st_pending := Suc (st_pending s)\<rparr>"
| "count_status Sq_syncing s = s\<lparr>st_syncing := Suc (st_syncing s)\<rparr>"
| "count_status Sq_completed s = s\<lparr>st_completed := Suc (st_completed s)\<rparr>"
| "count_status Sq_failed s = s\<lparr>st_failed := Suc (st_failed s)\<rparr>"
| "count_status Sq_cancelled s = s\<lparr>st_cancelled := Suc (st_cancelled s)\<rparr>"

definition getStats :: "SyncQueue \<Rightarrow> SyncQueueStats" where
  "getStats q =
     (let allItems = getAll None None q
      in fold (\<lambda>x. count_status (sq_status x)) allItems
           \<lparr>st_total = length allItems, st_pending = 0, st_syncing = 0, st_completed = 0,
            st_failed = 0, st_cancelled = 0\<rparr>)"

definition getReadyToRetry :: "millis \<Rightarrow> SyncQueue \<Rightarrow> SyncQueueItem list" where
  "getReadyToRetry now q =
     filter (\<lambda>x. case sq_nextRetryAt x of None \<Rightarrow> True | Some t \<Rightarrow> t \<le> now)
       (getAll (Some Sq_failed) None q)"

definition markFailed :: "millis \<Rightarrow> ident \<Rightarrow> string \<Rightarrow> SyncQueue \<Rightarrow> SyncQueue" where
  "markFailed now i error q =
     (case q_get i q of
        None \<Rightarrow> q
      | Some item \<Rightarrow>
          let retryCount = sq_retryCount item + 1
          in if int retryCount < sq_maxRetries item
             then q_update now (item\<lparr>sq_status := Sq_failed, sq_retryCount := retryCount,
                    sq_lastError := Some error,
                    sq_nextRetryAt := Some (now + 2 ^ retryCount * 1000)\<rparr>) q
             else q_update now (item\<lparr>sq_status := Sq_failed, sq_retryCount := retryCount,
                    sq_lastError := Some error\<rparr>) q)"

definition markCompleted :: "millis \<Rightarrow> ident \<Rightarrow> (string, json) fmap option \<Rightarrow> SyncQueue \<Rightarrow> SyncQueue" where
  "markCompleted now i metadata q =
     (case q_get i q of
        None \<Rightarrow> q
      | Some item \<Rightarrow> q_update now (item\<lparr>sq_status := Sq_completed, sq_syncedAt := Some now,
          sq_metadata := sq_metadata item ++\<^sub>f (case metadata of None \<Rightarrow> fmempty | Some m \<Rightarrow> m)\<rparr>) q)"

section \<open>The processor\<close>

record SyncResult =
  sr_success :: bool
  sr_error :: "string option"
  sr_data :: "(string, json) fmap option"

text \<open>
  \<open>handler\<close> is what the four functions that call the server return for an item; they catch every
  exception, and the other kinds of operation fail.
\<close>

definition type_name :: "SyncOperationType \<Rightarrow> string" where
  "type_name t = (case t of
     Upload_screenshot \<Rightarrow> ''upload_screenshot''
   | Upload_multiple_screenshots \<Rightarrow> ''upload_multiple_screenshots''
   | Delete_screenshot \<Rightarrow> ''delete_screenshot'' | Update_screenshot \<Rightarrow> ''update_screenshot''
   | Create_pattern \<Rightarrow> ''create_pattern'' | Update_pattern \<Rightarrow> ''update_pattern''
   | Delete_pattern \<Rightarrow> ''delete_pattern'')"

definition processItem :: "(SyncQueueItem \<Rightarrow> SyncResult) \<Rightarrow> SyncQueueItem \<Rightarrow> SyncResult" where
  "processItem handler item =
     (if sq_type item \<in> set [Upload_screenshot, Upload_multiple_screenshots, Delete_screenshot,
           Update_screenshot]
      then handler item
      else \<lparr>sr_success = False,
            sr_error = Some (''Unknown operation type: '' @ type_name (sq_type item)),
            sr_data = None\<rparr>)"

text \<open>One item, at one time: the queue after it and whether it was completed.\<close>

definition process_one ::
    "millis \<Rightarrow> (SyncQueueItem \<Rightarrow> SyncResult) \<Rightarrow> SyncQueueItem \<Rightarrow> SyncQueue \<Rightarrow> SyncQueue \<times> bool" where
  "process_one now handler item q =
     (let q1 = q_update now (item\<lparr>sq_status := Sq_syncing\<rparr>) q;
          result = processItem handler item
      in if sr_success result then (markCompleted now (sq_id item) (sr_data result) q1, True)
         else (markFailed now (sq_id item) (the (or_else (sr_error result) (Some ''Unknown error''))) q1,
               False))"

fun process_items ::
    "(SyncQueueItem \<Rightarrow> SyncResult) \<Rightarrow> (nat \<Rightarrow> millis) \<Rightarrow> nat \<Rightarrow> SyncQueueItem list \<Rightarrow> SyncQueue
      \<Rightarrow> SyncQueue \<times> nat" where
  "process_items handler clock i [] q = (q, 0)"
| "process_items handler clock i (x # xs) q =
     (let (q1, ok) = process_one (clock i) handler x q;
          (q2, n) = process_items handler clock (Suc i) xs q1
      in (q2, (if ok then Suc n else n)))"

definition processQueue ::
    "bool \<Rightarrow> bool \<Rightarrow> bool \<Rightarrow> (SyncQueueItem \<Rightarrow> SyncResult) \<Rightarrow> (nat \<Rightarrow> millis) \<Rightarrow> SyncQueue
      \<Rightarrow> SyncQueue \<times> nat" where
  "processQueue processing force online handler clock q =
     (if processing \<and> \<not> force then (q, 0)
      else if \<not> online then (q, 0)
      else let q1 = q\<lparr>q_syncing := True\<rparr>;
               itemsToProcess = getAll (Some Sq_pending) None q1 @ getReadyToRetry (clock 0) q1;
               (q2, n) = process_items handler clock 1 itemsToProcess q1
           in (q2\<lparr>q_syncing := False\<rparr>, n))"

section \<open>The order of the queue\<close>

lemma sq_before_total: "\<not> sq_before a b \<Longrightarrow> sq_before b a"
  by (auto simp: sq_before_def)

lemma sq_before_trans: "sq_before a b \<Longrightarrow> sq_before b c \<Longrightarrow> sq_before a c"
  by (auto simp: sq_before_def)

lemma mset_sq_insert: "mset (sq_insert x xs) = add_mset x (mset xs)"
  by (induction xs) auto

lemma mset_sq_sort: "mset (sq_sort xs) = mset xs"
  unfolding sq_sort_def by (induction xs) (simp_all add: mset_sq_insert)

lemma set_sq_insert: "set (sq_insert x xs) = insert x (set xs)"
  by (induction xs) auto

lemma set_sq_sort [simp]: "set (sq_sort xs) = set xs"
  using mset_sq_sort [of xs] by (metis set_mset_mset)

lemma sorted_sq_insert: "sorted_wrt sq_before xs \<Longrightarrow> sorted_wrt sq_before (sq_insert x xs)"
  by (induction xs) (auto simp: set_sq_insert intro: sq_before_trans dest: sq_before_total)

lemma sorted_sq_sort: "sorted_wrt sq_before (sq_sort xs)"
  unfolding sq_sort_def by (induction xs) (simp_all add: sorted_sq_insert)

lemma filter_sq_insert:
  "filter (\<lambda>y. sq_priority y = p \<and> sq_createdAt y = c) (sq_insert x xs)
    = filter (\<lambda>y. sq_priority y = p \<and> sq_createdAt y = c) (x # xs)"
  by (induction xs) (auto simp: sq_before_def)

lemma filter_sq_sort:
  "filter (\<lambda>y. sq_priority y = p \<and> sq_createdAt y = c) (sq_sort xs)
    = filter (\<lambda>y. sq_priority y = p \<and> sq_createdAt y = c) xs"
  unfolding sq_sort_def by (induction xs) (simp_all add: filter_sq_insert)

text \<open>
  \<open>getAll\<close> returns exactly the selected items, by descending priority and, within a priority,
  ascending time of creation; items that agree in both keep the order of their keys.
\<close>

theorem queue_getAll_order:
  "mset (getAll status type q) = filter_mset (sq_selected status type) (mset (q_store q))
   \<and> sorted_wrt (\<lambda>a b. sq_priority b < sq_priority a
       \<or> sq_priority a = sq_priority b \<and> sq_createdAt a \<le> sq_createdAt b) (getAll status type q)
   \<and> filter (\<lambda>y. sq_priority y = p \<and> sq_createdAt y = c) (getAll status type q)
     = filter (\<lambda>y. sq_priority y = p \<and> sq_createdAt y = c \<and> sq_selected status type y) (q_store q)"
proof (intro conjI)
  show "mset (getAll status type q) = filter_mset (sq_selected status type) (mset (q_store q))"
    by (simp add: getAll_def mset_sq_sort)
  show "sorted_wrt (\<lambda>a b. sq_priority b < sq_priority a
      \<or> sq_priority a = sq_priority b \<and> sq_createdAt a \<le> sq_createdAt b) (getAll status type q)"
    using sorted_sq_sort unfolding getAll_def sq_before_def [abs_def] by simp
  show "filter (\<lambda>y. sq_priority y = p \<and> sq_createdAt y = c) (getAll status type q)
     = filter (\<lambda>y. sq_priority y = p \<and> sq_createdAt y = c \<and> sq_selected status type y) (q_store q)"
    unfolding getAll_def filter_sq_sort filter_filter by (rule filter_cong) auto
qed

section \<open>Failed items\<close>

lemma store_put_keys: "sq_id ` set (store_put x xs) = insert (sq_id x) (sq_id ` set xs)"
  by (induction xs) auto

lemma store_put_ok: "store_ok xs \<Longrightarrow> store_ok (store_put x xs)"
proof (induction xs)
  case (Cons y ys)
  have "sq_id y < sq_id z" if "z \<in> set (store_put x ys)" "sq_id y < sq_id x" for z
  proof -
    have "sq_id z \<in> insert (sq_id x) (sq_id ` set ys)" using that store_put_keys [of x ys] by blast
    then show ?thesis using Cons.prems that(2) by (auto simp: store_ok_def)
  qed
  with Cons show ?case by (auto simp: store_ok_def)
qed (simp add: store_ok_def)

lemma store_get_put:
  "store_get i (store_put x xs) = (if i = sq_id x then Some x else store_get i xs)"
  by (induction xs) (auto simp: store_get_def)

lemma store_get_in: "store_ok xs \<Longrightarrow> store_get i xs = Some x \<longleftrightarrow> x \<in> set xs \<and> sq_id x = i"
proof (induction xs)
  case (Cons y ys)
  then show ?case by (auto simp: store_ok_def store_get_def)
qed (simp add: store_get_def)

lemma ready_iff:
  assumes "store_ok (q_store q)" and "q_get i q = Some x"
  shows "i \<in> sq_id ` set (getReadyToRetry now q) \<longleftrightarrow>
    sq_status x = Sq_failed \<and> (case sq_nextRetryAt x of None \<Rightarrow> True | Some t \<Rightarrow> t \<le> now)"
proof -
  have in_store: "y \<in> set (q_store q) \<and> sq_id y = i \<longleftrightarrow> y = x" for y
    using assms store_get_in [of "q_store q" i y] by (auto simp: q_get_def)
  have "i \<in> sq_id ` set (getReadyToRetry now q) \<longleftrightarrow>
      (\<exists>y. (y \<in> set (q_store q) \<and> sq_id y = i) \<and> sq_status y = Sq_failed
        \<and> (case sq_nextRetryAt y of None \<Rightarrow> True | Some t \<Rightarrow> t \<le> now))"
    by (auto simp: getReadyToRetry_def getAll_def sq_selected_def)
  then show ?thesis by (simp add: in_store)
qed

text \<open>
  when a failed item is tried again. While it has retries left, that is from
  \<open>2 ^ retryCount\<close> seconds after the failure on. When its retries are used up, the item is still
  tried again: at once, or when the time that the previous failure set has passed.
\<close>

theorem queue_failed_item_returns:
  assumes "store_ok (q_store q)" and "q_get i q = Some item"
  shows "(i \<in> sq_id ` set (getReadyToRetry later (markFailed now i err q))) =
    (if int (sq_retryCount item + 1) < sq_maxRetries item
     then now + 2 ^ (sq_retryCount item + 1) * 1000 \<le> later
     else case sq_nextRetryAt item of None \<Rightarrow> True | Some t \<Rightarrow> t \<le> later)"
proof -
  have id: "sq_id item = i" using assms by (simp add: q_get_def store_get_in)
  let ?q = "markFailed now i err q"
  have ok: "store_ok (q_store ?q)"
    using assms by (simp add: markFailed_def q_update_def Let_def store_put_ok)
  show ?thesis
  proof (cases "int (sq_retryCount item + 1) < sq_maxRetries item")
    case True
    then have "q_get i ?q = Some (item\<lparr>sq_status := Sq_failed, sq_retryCount := sq_retryCount item + 1,
        sq_lastError := Some err, sq_nextRetryAt := Some (now + 2 ^ (sq_retryCount item + 1) * 1000),
        sq_updatedAt := now\<rparr>)"
      using assms(2) id by (simp add: markFailed_def q_update_def q_get_def store_get_put Let_def)
    with True show ?thesis by (simp add: ready_iff [OF ok])
  next
    case False
    then have "q_get i ?q = Some (item\<lparr>sq_status := Sq_failed, sq_retryCount := sq_retryCount item + 1,
        sq_lastError := Some err, sq_updatedAt := now\<rparr>)"
      using assms(2) id by (simp add: markFailed_def q_update_def q_get_def store_get_put Let_def)
    with False show ?thesis by (simp add: ready_iff [OF ok])
  qed
qed

definition item_example :: SyncQueueItem where
  "item_example = \<lparr>sq_id = ''i'', sq_type = Upload_screenshot, sq_status = Sq_syncing, sq_priority = 0,
     sq_data = JNull, sq_metadata = fmempty, sq_retryCount = 2, sq_maxRetries = 3, sq_lastError = None,
     sq_createdAt = 0, sq_updatedAt = 0, sq_syncedAt = None, sq_nextRetryAt = Some 4000,
     sq_conflictResolution = None\<rparr>"

theorem queue_failed_item_returns_witness:
  "''i'' \<in> sq_id ` set (getReadyToRetry 5000
     (markFailed 5000 ''i'' ''e'' \<lparr>q_store = [item_example], q_syncing = True\<rparr>))"
proof -
  have ok: "store_ok (q_store \<lparr>q_store = [item_example], q_syncing = True\<rparr>)"
    by (simp add: store_ok_def)
  have get: "q_get ''i'' \<lparr>q_store = [item_example], q_syncing = True\<rparr> = Some item_example"
    by (simp add: q_get_def store_get_def item_example_def)
  show ?thesis
    using queue_failed_item_returns [OF ok get, of 5000 5000 "''e''"] by (simp add: item_example_def)
qed

end
