(* ===== verification/Retry_Strategy.thy ===== *)
theory Retry_Strategy
  imports Json_Doc
begin

text \<open>
  \<open>RetryStrategy\<close> of frontend/src/services/retry-strategy.ts. The request is a sequence of answers:
  \<open>request n\<close> is what its \<open>n\<close>-th call returns or throws. The result is the answer that the caller
  gets and the waiting times in between, in milliseconds; \<open>None\<close> is a wait of \<open>NaN\<close>. Attempts are
  counted from 1.
\<close>

record Response =
  rs_status :: int
  rs_retryAfter :: "string option"

record RetryConfig =
  rc_maxRetries :: int
  rc_initialBackoffMs :: int
  rc_maxBackoffMs :: int

definition DEFAULT_CONFIG :: RetryConfig where
  "DEFAULT_CONFIG = \<lparr>rc_maxRetries = 3, rc_initialBackoffMs = 1000, rc_maxBackoffMs = 10000\<rparr>"

definition withMaxRetries :: "int \<Rightarrow> RetryConfig \<Rightarrow> RetryConfig" where
  "withMaxRetries maxRetries cfg =
     (if maxRetries = rc_maxRetries cfg then cfg else cfg\<lparr>rc_maxRetries := maxRetries\<rparr>)"

text \<open>\<open>parseInt(s)\<close> without a radix: a prefix \<open>0x\<close> makes it hexadecimal.\<close>

definition hex_val :: "char \<Rightarrow> nat option" where
  "hex_val c =
     (if is_digit c then Some (digit_val c)
      else if 97 \<le> (of_char c :: nat) \<and> (of_char c :: nat) \<le> 102 then Some (of_char c - 87)
      else if 65 \<le> (of_char c :: nat) \<and> (of_char c :: nat) \<le> 70 then Some (of_char c - 55)
      else None)"

definition parse_unsigned :: "string \<Rightarrow> int option" where
  "parse_unsigned s =
     (if take 2 s = ''0x'' \<or> take 2 s = ''0X''
      then let hs = takeWhile (\<lambda>c. hex_val c \<noteq> None) (drop 2 s) in
        (if hs = [] then None else Some (int (foldl (\<lambda>n c. 16 * n + the (hex_val c)) 0 hs)))
      else parse_digits s)"

definition parseInt_auto :: "string \<Rightarrow> int option" where
  "parseInt_auto s =
     (case dropWhile is_space s of
        [] \<Rightarrow> None
      | c # cs \<Rightarrow> if c = CHR ''-'' then map_option uminus (parse_unsigned cs)
                  else if c = CHR ''+'' then parse_unsigned cs
                  else parse_unsigned (c # cs))"

record RetryResult =
  rr_shouldRetry :: bool
  rr_waitMs :: "int option"
  rr_reason :: "string option"

definition calculateBackoff :: "RetryConfig \<Rightarrow> nat \<Rightarrow> int" where
  "calculateBackoff cfg attempt =
     min (rc_initialBackoffMs cfg * 2 ^ (attempt - 1)) (rc_maxBackoffMs cfg)"

definition handleRateLimitRetry :: "Response \<Rightarrow> RetryResult" where
  "handleRateLimitRetry response =
     \<lparr>rr_shouldRetry = True,
      rr_waitMs = (if truthy (rs_retryAfter response)
                   then map_option (\<lambda>n. n * 1000) (parseInt_auto (the (rs_retryAfter response)))
                   else Some (60 * 1000)),
      rr_reason = Some ''Rate limited (429)''\<rparr>"

definition handleServerErrorRetry :: "RetryConfig \<Rightarrow> nat \<Rightarrow> RetryResult" where
  "handleServerErrorRetry cfg attempt =
     \<lparr>rr_shouldRetry = True, rr_waitMs = Some (calculateBackoff cfg attempt),
      rr_reason = Some ''Server error (5xx)''\<rparr>"

definition shouldRetry :: "RetryConfig \<Rightarrow> Response \<Rightarrow> nat \<Rightarrow> RetryResult" where
  "shouldRetry cfg response attempt =
     (if int attempt > rc_maxRetries cfg then \<lparr>rr_shouldRetry = False, rr_waitMs = Some 0, rr_reason = None\<rparr>
      else if rs_status response = 429 then handleRateLimitRetry response
      else if rs_status response \<ge> 500 then handleServerErrorRetry cfg attempt
      else \<lparr>rr_shouldRetry = False, rr_waitMs = Some 0, rr_reason = None\<rparr>)"

definition canRetry :: "RetryConfig \<Rightarrow> nat \<Rightarrow> bool" where
  "canRetry cfg attempt = (int attempt \<le> rc_maxRetries cfg)"

definition getMaxRetries :: "RetryConfig \<Rightarrow> int" where
  "getMaxRetries cfg = rc_maxRetries cfg"

text \<open>\<open>n\<close> is the number of calls of the request so far, \<open>isRetryable\<close> the caller's policy if any.\<close>

function executeWithRetry ::
    "RetryConfig \<Rightarrow> (nat \<Rightarrow> js_error + Response) \<Rightarrow> (Response \<Rightarrow> bool) option \<Rightarrow> nat \<Rightarrow> nat
      \<Rightarrow> (js_error + Response) \<times> int option list" where
  "executeWithRetry cfg request isRetryable attempt n =
     (case request n of
        Inl e \<Rightarrow> (Inl e, [])
      | Inr response \<Rightarrow>
          if (case isRetryable of None \<Rightarrow> False | Some p \<Rightarrow> \<not> p response) then (Inr response, [])
          else let retryDecision = shouldRetry cfg response attempt in
            if rr_shouldRetry retryDecision
            then (let (result, waits) = executeWithRetry cfg request isRetryable (attempt + 1) (Suc n)
                  in (result, rr_waitMs retryDecision # waits))
            else (Inr response, []))"
  by pat_completeness auto

termination
  by (relation "measure (\<lambda>(cfg, request, isRetryable, attempt, n). nat (rc_maxRetries cfg + 1 - int attempt))")
    (auto simp: shouldRetry_def split: if_splits)

declare executeWithRetry.simps [simp del]

section \<open>What the caller gets\<close>

text \<open>The \<open>n\<close>-th answer ends the chain.\<close>

definition retry_stops ::
    "RetryConfig \<Rightarrow> (nat \<Rightarrow> js_error + Response) \<Rightarrow> (Response \<Rightarrow> bool) option \<Rightarrow> nat \<Rightarrow> bool" where
  "retry_stops cfg request isRetryable n =
     (rc_maxRetries cfg \<le> int n
      \<or> (case request n of
           Inl e \<Rightarrow> True
         | Inr r \<Rightarrow> (case isRetryable of None \<Rightarrow> False | Some p \<Rightarrow> \<not> p r)
                   \<or> (rs_status r \<noteq> 429 \<and> rs_status r < 500)))"

definition retry_wait :: "RetryConfig \<Rightarrow> (nat \<Rightarrow> js_error + Response) \<Rightarrow> nat \<Rightarrow> int option" where
  "retry_wait cfg request n =
     (case request n of Inl e \<Rightarrow> None | Inr r \<Rightarrow> rr_waitMs (shouldRetry cfg r (n + 1)))"

lemma execute_stop:
  "retry_stops cfg request p n \<Longrightarrow> executeWithRetry cfg request p (n + 1) n = (request n, [])"
  by (subst executeWithRetry.simps)
    (auto simp: retry_stops_def shouldRetry_def Let_def split: sum.splits option.splits)

lemma execute_go:
  assumes "\<not> retry_stops cfg request p n"
  shows "executeWithRetry cfg request p (n + 1) n =
    (let (result, waits) = executeWithRetry cfg request p (Suc n + 1) (Suc n)
     in (result, retry_wait cfg request n # waits))"
proof -
  obtain r where r: "request n = Inr r" "\<not> (case p of None \<Rightarrow> False | Some p \<Rightarrow> \<not> p r)"
      "rs_status r = 429 \<or> 500 \<le> rs_status r" "int n < rc_maxRetries cfg"
    using assms by (auto simp: retry_stops_def split: sum.splits)
  then have "rr_shouldRetry (shouldRetry cfg r (n + 1))"
    by (auto simp: shouldRetry_def handleRateLimitRetry_def handleServerErrorRetry_def)
  with r show ?thesis
    by (subst executeWithRetry.simps) (simp add: retry_wait_def Let_def)
qed

lemma least_from:
  fixes P :: "nat \<Rightarrow> bool"
  assumes "\<not> P n"
  shows "(LEAST k. n \<le> k \<and> P k) = (LEAST k. Suc n \<le> k \<and> P k)"
proof -
  have "(n \<le> k \<and> P k) = (Suc n \<le> k \<and> P k)" for k
    using assms by (cases "k = n") auto
  then show ?thesis by simp
qed

lemma execute_from:
  "executeWithRetry cfg request p (n + 1) n =
    (let k = (LEAST k. n \<le> k \<and> retry_stops cfg request p k)
     in (request k, map (retry_wait cfg request) [n..<k]))"
proof (induction "nat (rc_maxRetries cfg - int n)" arbitrary: n)
  case 0
  then have stop: "retry_stops cfg request p n" by (simp add: retry_stops_def)
  then have "(LEAST k. n \<le> k \<and> retry_stops cfg request p k) = n" by (intro Least_equality) auto
  with execute_stop [OF stop] show ?case by simp
next
  case (Suc m)
  show ?case
  proof (cases "retry_stops cfg request p n")
    case True
    then have "(LEAST k. n \<le> k \<and> retry_stops cfg request p k) = n" by (intro Least_equality) auto
    with execute_stop [OF True] show ?thesis by simp
  next
    case False
    define k where "k = (LEAST k. Suc n \<le> k \<and> retry_stops cfg request p k)"
    have "Suc n \<le> nat (rc_maxRetries cfg) + Suc n \<and> retry_stops cfg request p (nat (rc_maxRetries cfg) + Suc n)"
      by (auto simp: retry_stops_def)
    then have "Suc n \<le> k" unfolding k_def by (rule LeastI2) simp
    moreover have "executeWithRetry cfg request p (Suc n + 1) (Suc n)
        = (request k, map (retry_wait cfg request) [Suc n..<k])"
      using Suc.hyps(1) [of "Suc n"] Suc.hyps(2) by (simp add: k_def Let_def)
    ultimately show ?thesis
      using execute_go [OF False] least_from [of "retry_stops cfg request p" n, OF False]
      by (simp add: k_def [symmetric] upt_conv_Cons)
  qed
qed

text \<open>
  C38: \<open>executeWithRetry\<close> returns the first answer that ends the chain (an exception, an answer
  that the caller's policy or its status makes final, or the one after \<open>maxRetries\<close> retries), and
  has waited once before every further call. So it calls the request at most \<open>maxRetries + 1\<close> times,
  and no answer that the policy forbids to retry is followed by another call.
\<close>

theorem retry_returns_first_final:
  "executeWithRetry cfg request isRetryable 1 0 =
     (request (LEAST k. retry_stops cfg request isRetryable k),
      map (retry_wait cfg request) [0..<(LEAST k. retry_stops cfg request isRetryable k)])
   \<and> length (snd (executeWithRetry cfg request isRetryable 1 0)) \<le> nat (rc_maxRetries cfg)"
proof -
  have "retry_stops cfg request isRetryable (nat (rc_maxRetries cfg))"
    by (simp add: retry_stops_def)
  then have "(LEAST k. retry_stops cfg request isRetryable k) \<le> nat (rc_maxRetries cfg)"
    by (rule Least_le)
  then show ?thesis
    using execute_from [of cfg request isRetryable 0] by (simp add: Let_def)
qed

end
