(* ===== verification/Auth_Tokens.thy ===== *)
theory Auth_Tokens
  imports Prelude
begin

text \<open>
  Tokens in a browser tab: their storage (frontend/src/services/auth/token-storage.ts), the predicates on
  expiry times (token-validator.ts), the facade over both (token-manager.ts), and the answers of the token endpoint
  (refreshCognitoTokens of cognito-oauth.ts). A bearer is its text with the \<open>exp\<close> claim that it decodes to, in whole seconds; times are
  milliseconds. The session storage is the tab's own, the local storage is shared by all tabs.
\<close>

section \<open>Storage\<close>

record Bearer =
  br_text :: string
  br_exp :: "int option"

record TokenStorage =
  ts_access :: "Bearer option"
  ts_refresh :: "string option"
  ts_sessionAccess :: "Bearer option"
  ts_sessionRefresh :: "string option"
  ts_expiry :: "millis option"
  ts_refreshExpiry :: "millis option"
  ts_authenticated :: bool
  ts_marker :: bool

text \<open>A storage that is created finds the session storage of the tab, the local storage and the cookie.\<close>

definition storage_create :: "TokenStorage \<Rightarrow> TokenStorage" where
  "storage_create s = s\<lparr>ts_access := ts_sessionAccess s, ts_refresh := ts_sessionRefresh s\<rparr>"

definition saveAccessToken :: "Bearer option \<Rightarrow> TokenStorage \<Rightarrow> TokenStorage" where
  "saveAccessToken token s =
     (let s1 = (case token of None \<Rightarrow> s
        | Some t \<Rightarrow> if br_text t = [] then s else s\<lparr>ts_access := Some t, ts_sessionAccess := Some t, ts_marker := True\<rparr>) in
      s1\<lparr>ts_authenticated := True\<rparr>)"

definition saveRefreshToken :: "string option \<Rightarrow> TokenStorage \<Rightarrow> TokenStorage" where
  "saveRefreshToken token s = (if truthy token then s\<lparr>ts_refresh := token, ts_sessionRefresh := token\<rparr> else s)"

definition setAuthenticated :: "TokenStorage \<Rightarrow> TokenStorage" where
  "setAuthenticated s = s\<lparr>ts_authenticated := True\<rparr>"

definition saveTokenExpiry :: "millis \<Rightarrow> TokenStorage \<Rightarrow> TokenStorage" where
  "saveTokenExpiry e s = s\<lparr>ts_expiry := Some e\<rparr>"

definition clearTokenExpiry :: "TokenStorage \<Rightarrow> TokenStorage" where
  "clearTokenExpiry s = s\<lparr>ts_expiry := None\<rparr>"

definition saveRefreshTokenExpiry :: "millis \<Rightarrow> TokenStorage \<Rightarrow> TokenStorage" where
  "saveRefreshTokenExpiry e s = s\<lparr>ts_refreshExpiry := Some e\<rparr>"

definition clearTokens :: "TokenStorage \<Rightarrow> TokenStorage" where
  "clearTokens s =
     \<lparr>ts_access = None, ts_refresh = None, ts_sessionAccess = None, ts_sessionRefresh = None,
      ts_expiry = None, ts_refreshExpiry = None, ts_authenticated = False, ts_marker = False\<rparr>"

text \<open>\<open>!!token\<close>\<close>

definition has_bearer :: "TokenStorage \<Rightarrow> bool" where
  "has_bearer s = (case ts_access s of None \<Rightarrow> False | Some t \<Rightarrow> br_text t \<noteq> [])"

definition purgeStaleSession :: "bool \<Rightarrow> millis \<Rightarrow> TokenStorage \<Rightarrow> TokenStorage \<times> bool" where
  "purgeStaleSession isRemoteBackend now s =
     (if \<not> isRemoteBackend then (s, False)
      else if \<not> (ts_authenticated s \<or> ts_refreshExpiry s \<noteq> None) then (s, False)
      else if has_bearer s \<and> (case ts_expiry s of None \<Rightarrow> True | Some e \<Rightarrow> e > now) then (s, False)
      else (clearTokens s, True))"

section \<open>Expiry times\<close>

definition CLOCK_SKEW_TOLERANCE_MS :: millis where
  "CLOCK_SKEW_TOLERANCE_MS = 5 * 60 * 1000"

definition extractExpiry :: "Bearer \<Rightarrow> millis option" where
  "extractExpiry t = map_option (\<lambda>e. e * 1000) (br_exp t)"

definition isTokenExpired :: "millis \<Rightarrow> millis \<Rightarrow> bool" where
  "isTokenExpired now expiryTime = (now \<ge> expiryTime + CLOCK_SKEW_TOLERANCE_MS)"

definition isTokenExpiringSoon :: "millis \<Rightarrow> millis \<Rightarrow> millis \<Rightarrow> bool" where
  "isTokenExpiringSoon now expiryTime thresholdMs = (expiryTime - now < thresholdMs \<and> expiryTime - now > 0)"

definition time_until :: "millis \<Rightarrow> millis \<Rightarrow> millis" where
  "time_until now expiryTime = max 0 (expiryTime - now)"

definition hasValidSession :: "millis \<Rightarrow> bool \<Rightarrow> bool \<Rightarrow> millis option \<Rightarrow> bool" where
  "hasValidSession now hasAccessToken hasRefreshToken expiry =
     (hasAccessToken \<and> (case expiry of None \<Rightarrow> False | Some e \<Rightarrow> e \<noteq> 0 \<and> \<not> isTokenExpired now e) \<or> hasRefreshToken)"

section \<open>The manager\<close>

record TokenResponse =
  tk_access :: "Bearer option"
  tk_refresh :: "string option"
  tk_expiresIn :: "int option"
  tk_refreshExpiresIn :: "int option"

text \<open>\<open>seconds ? now + seconds * 1000 : null\<close>\<close>

definition expiry_in :: "millis \<Rightarrow> int option \<Rightarrow> millis option" where
  "expiry_in now seconds = (case seconds of None \<Rightarrow> None | Some n \<Rightarrow> if n = 0 then None else Some (now + n * 1000))"

definition token_expiry :: "millis \<Rightarrow> TokenResponse \<Rightarrow> millis option" where
  "token_expiry now r =
     (case Option.bind (tk_access r) extractExpiry of Some e \<Rightarrow> Some e | None \<Rightarrow> expiry_in now (tk_expiresIn r))"

definition setTokens :: "millis \<Rightarrow> TokenResponse \<Rightarrow> TokenStorage \<Rightarrow> TokenStorage" where
  "setTokens now r s =
     (let s1 = saveRefreshToken (tk_refresh r) (saveAccessToken (tk_access r) s);
          s2 = (case token_expiry now r of Some e \<Rightarrow> saveTokenExpiry e s1 | None \<Rightarrow> clearTokenExpiry s1) in
      case expiry_in now (tk_refreshExpiresIn r) of
        Some e \<Rightarrow> if e = 0 then s2 else saveRefreshTokenExpiry e s2
      | None \<Rightarrow> s2)"

definition getAccessTokenExpiry :: "TokenStorage \<Rightarrow> millis option" where
  "getAccessTokenExpiry s =
     (case ts_access s of
        Some t \<Rightarrow> if br_text t \<noteq> [] \<and> extractExpiry t \<noteq> None then extractExpiry t else ts_expiry s
      | None \<Rightarrow> ts_expiry s)"

definition hasValidToken :: "millis \<Rightarrow> TokenStorage \<Rightarrow> bool" where
  "hasValidToken now s =
     (ts_authenticated s \<and> hasValidSession now (ts_authenticated s) (ts_authenticated s) (ts_expiry s))"

definition isAccessTokenExpired :: "millis \<Rightarrow> TokenStorage \<Rightarrow> bool" where
  "isAccessTokenExpired now s =
     (case getAccessTokenExpiry s of None \<Rightarrow> True | Some e \<Rightarrow> e = 0 \<or> isTokenExpired now e)"

definition isAccessTokenExpiringSoon :: "millis \<Rightarrow> millis \<Rightarrow> TokenStorage \<Rightarrow> bool" where
  "isAccessTokenExpiringSoon now thresholdMs s =
     (case getAccessTokenExpiry s of None \<Rightarrow> False | Some e \<Rightarrow> e \<noteq> 0 \<and> isTokenExpiringSoon now e thresholdMs)"

definition getTimeUntilExpiry :: "millis \<Rightarrow> TokenStorage \<Rightarrow> millis" where
  "getTimeUntilExpiry now s =
     (case getAccessTokenExpiry s of None \<Rightarrow> 0 | Some e \<Rightarrow> if e = 0 then 0 else time_until now e)"

definition isRefreshTokenExpired :: "millis \<Rightarrow> TokenStorage \<Rightarrow> bool" where
  "isRefreshTokenExpired now s = (case ts_refreshExpiry s of None \<Rightarrow> True | Some e \<Rightarrow> e = 0 \<or> isTokenExpired now e)"

definition isRefreshTokenExpiringSoon :: "millis \<Rightarrow> millis \<Rightarrow> TokenStorage \<Rightarrow> bool" where
  "isRefreshTokenExpiringSoon now thresholdMs s =
     (case ts_refreshExpiry s of None \<Rightarrow> False | Some e \<Rightarrow> e \<noteq> 0 \<and> isTokenExpiringSoon now e thresholdMs)"

definition getTimeUntilRefreshExpiry :: "millis \<Rightarrow> TokenStorage \<Rightarrow> millis" where
  "getTimeUntilRefreshExpiry now s = (case ts_refreshExpiry s of None \<Rightarrow> 0 | Some e \<Rightarrow> if e = 0 then 0 else time_until now e)"

text \<open>The access token is stale: what a 401 must find for a refresh to be tried.\<close>

definition token_stale :: "millis \<Rightarrow> TokenStorage \<Rightarrow> bool" where
  "token_stale now s =
     (isAccessTokenExpired now s \<or> isAccessTokenExpiringSoon now 60000 s
      \<or> (case getAccessTokenExpiry s of None \<Rightarrow> False | Some e \<Rightarrow> e \<le> now))"

section \<open>The token endpoint\<close>

text \<open>No answer, or an answer with its status, the error code of its body, and its body if that can be read.\<close>

record CognitoTokens =
  ck_idToken :: Bearer
  ck_expiresIn :: "int option"

datatype CognitoAnswer = NoAnswer | CognitoAnswer int "string option" "CognitoTokens option"

datatype refresh_failure = Authoritative | Transient

definition refreshCognitoTokens :: "CognitoAnswer \<Rightarrow> refresh_failure + CognitoTokens" where
  "refreshCognitoTokens answer =
     (case answer of
        NoAnswer \<Rightarrow> Inl Transient
      | CognitoAnswer status err body \<Rightarrow>
          if status < 200 \<or> status > 299 then
            Inl (if status = 401 \<or> status = 400 \<and> err = Some ''invalid_grant'' then Authoritative else Transient)
          else (case body of None \<Rightarrow> Inl Transient | Some tokens \<Rightarrow> Inr tokens))"

section \<open>Facts\<close>

lemma cleared [simp]:
  "ts_access (clearTokens s) = None" "ts_refresh (clearTokens s) = None" "ts_authenticated (clearTokens s) = False"
  "ts_expiry (clearTokens s) = None" "ts_marker (clearTokens s) = False" "has_bearer (clearTokens s) = False"
  by (simp_all add: clearTokens_def has_bearer_def)

lemma stale_iff:
  "token_stale now s \<longleftrightarrow> (case getAccessTokenExpiry s of None \<Rightarrow> True | Some e \<Rightarrow> e = 0 \<or> e < now + 60000)"
  by (auto simp: token_stale_def isAccessTokenExpired_def isAccessTokenExpiringSoon_def isTokenExpired_def isTokenExpiringSoon_def
      CLOCK_SKEW_TOLERANCE_MS_def split: option.split)

lemma expired_stale: "isAccessTokenExpired now s \<Longrightarrow> token_stale now s"
  by (simp add: token_stale_def)

text \<open>The bearer of the tab decides when it carries a time, whatever another tab writes.\<close>

lemma own_expiry:
  "ts_access s = Some t \<Longrightarrow> br_text t \<noteq> [] \<Longrightarrow> br_exp t = Some n \<Longrightarrow> getAccessTokenExpiry (s\<lparr>ts_expiry := e\<rparr>) = Some (n * 1000)"
  by (simp add: getAccessTokenExpiry_def extractExpiry_def)

lemma set_tokens_expiry:
  assumes "tk_access r = Some t" and "br_text t \<noteq> []"
  shows "getAccessTokenExpiry (setTokens now r s) = token_expiry now r"
  using assms
  by (auto simp: setTokens_def saveAccessToken_def saveRefreshToken_def saveTokenExpiry_def clearTokenExpiry_def
      saveRefreshTokenExpiry_def getAccessTokenExpiry_def token_expiry_def extractExpiry_def Let_def split: option.splits)

end
