(* ===== verification/Token_Refresh.thy ===== *)
theory Token_Refresh
  imports Complex_Main Auth_Tokens
begin

text \<open>
  The service that keeps the bearer fresh (frontend/src/services/auth/token-refresh-service.ts): one exchange at a time, shared by
  all who wait for it, and a timer that renews before expiry. An exchange is cut at its await: it begins, and the answer of the token endpoint
  ends it. Microtasks run at once. The events \<open>session-expired\<close> and the exchanges are counted.
\<close>

section \<open>State\<close>

definition PROACTIVE_REFRESH_LEAD_MS :: millis where "PROACTIVE_REFRESH_LEAD_MS = 6 * 60 * 1000"

definition MIN_PROACTIVE_DELAY_MS :: millis where "MIN_PROACTIVE_DELAY_MS = 10 * 1000"

definition UNRESOLVED_EXPIRY_RETRY_MS :: millis where "UNRESOLVED_EXPIRY_RETRY_MS = 5 * 60 * 1000"

definition TRANSIENT_RETRY_BASE_MS :: millis where "TRANSIENT_RETRY_BASE_MS = 30 * 1000"

definition TRANSIENT_RETRY_MAX_MS :: millis where "TRANSIENT_RETRY_MAX_MS = 5 * 60 * 1000"

definition MAX_CONSECUTIVE_TRANSIENT_FAILURES :: nat where "MAX_CONSECUTIVE_TRANSIENT_FAILURES = 5"

datatype RefreshOutcome = Refreshed | ExpiredSession | TransientFailure

record RefreshService =
  rf_storage :: TokenStorage
  rf_inFlight :: "string option"
  rf_timer :: "rat option"
  rf_started :: bool
  rf_visible :: bool
  rf_failures :: nat
  rf_dispatched :: bool
  rf_lastExpiry :: "millis option"
  rf_proactiveWaits :: nat
  rf_expirations :: nat
  rf_exchanges :: nat

definition refresh_create :: "TokenStorage \<Rightarrow> bool \<Rightarrow> RefreshService" where
  "refresh_create storage visible =
     \<lparr>rf_storage = storage, rf_inFlight = None, rf_timer = None, rf_started = False, rf_visible = visible, rf_failures = 0,
      rf_dispatched = False, rf_lastExpiry = None, rf_proactiveWaits = 0, rf_expirations = 0, rf_exchanges = 0\<rparr>"

section \<open>One exchange\<close>

definition expireSession :: "RefreshService \<Rightarrow> RefreshService" where
  "expireSession s =
     (let s1 = s\<lparr>rf_failures := 0, rf_lastExpiry := None, rf_storage := clearTokens (rf_storage s), rf_timer := None\<rparr> in
      if rf_dispatched s1 then s1
      else s1\<lparr>rf_dispatched := True, rf_expirations := rf_expirations s1 + 1\<rparr>)"

text \<open>\<open>doRefresh\<close> until it waits, with the outcome when it does not.\<close>

definition doRefresh_begin :: "RefreshService \<Rightarrow> RefreshOutcome option \<times> RefreshService" where
  "doRefresh_begin s =
     (if truthy (ts_refresh (rf_storage s))
      then (None, s\<lparr>rf_inFlight := ts_refresh (rf_storage s), rf_exchanges := rf_exchanges s + 1\<rparr>)
      else (Some ExpiredSession, expireSession s))"

definition refreshWithOutcome :: "RefreshService \<Rightarrow> RefreshOutcome option \<times> RefreshService" where
  "refreshWithOutcome s = (if rf_inFlight s \<noteq> None then (None, s) else doRefresh_begin s)"

text \<open>The rest of \<open>doRefresh\<close>, given the answer of the token endpoint.\<close>

definition doRefresh_end :: "millis \<Rightarrow> CognitoAnswer \<Rightarrow> RefreshService \<Rightarrow> RefreshOutcome \<times> RefreshService" where
  "doRefresh_end now answer s =
     (let s0 = s\<lparr>rf_inFlight := None\<rparr> in
      case refreshCognitoTokens answer of
        Inr tokens \<Rightarrow>
          (Refreshed, s0\<lparr>rf_storage := setTokens now
              \<lparr>tk_access = Some (ck_idToken tokens), tk_refresh = rf_inFlight s, tk_expiresIn = ck_expiresIn tokens,
               tk_refreshExpiresIn = Some 0\<rparr> (rf_storage s0),
            rf_failures := 0, rf_dispatched := False\<rparr>)
      | Inl Authoritative \<Rightarrow> (ExpiredSession, expireSession s0)
      | Inl Transient \<Rightarrow>
          let s1 = s0\<lparr>rf_failures := rf_failures s0 + 1\<rparr> in
          if rf_failures s1 \<ge> MAX_CONSECUTIVE_TRANSIENT_FAILURES then (ExpiredSession, expireSession s1)
          else (TransientFailure, s1))"

section \<open>Renewal before expiry\<close>

definition armProactiveTimer :: "millis \<Rightarrow> rat \<Rightarrow> RefreshService \<Rightarrow> RefreshService" where
  "armProactiveTimer now delay s =
     (let s1 = s\<lparr>rf_timer := None\<rparr> in
      if \<not> rf_started s \<or> \<not> ts_authenticated (rf_storage s) \<or> \<not> rf_visible s then s1
      else s1\<lparr>rf_timer := Some (of_int now + max delay (of_int MIN_PROACTIVE_DELAY_MS))\<rparr>)"

definition proactive_delay :: "millis \<Rightarrow> rat" where
  "proactive_delay remaining =
     max (if remaining > PROACTIVE_REFRESH_LEAD_MS then of_int (remaining - PROACTIVE_REFRESH_LEAD_MS) else of_int remaining / 2)
       (of_int MIN_PROACTIVE_DELAY_MS)"

definition scheduleProactiveRefresh :: "millis \<Rightarrow> RefreshService \<Rightarrow> RefreshService" where
  "scheduleProactiveRefresh now s =
     (if getAccessTokenExpiry (rf_storage s) = None then
        (if truthy (ts_refresh (rf_storage s)) then armProactiveTimer now (of_int UNRESOLVED_EXPIRY_RETRY_MS) s
         else s\<lparr>rf_timer := None\<rparr>)
      else armProactiveTimer now (proactive_delay (getTimeUntilExpiry now (rf_storage s))) s)"

definition isRefreshDue :: "millis \<Rightarrow> TokenStorage \<Rightarrow> bool" where
  "isRefreshDue now st =
     (getAccessTokenExpiry st \<noteq> None
      \<and> (isAccessTokenExpiringSoon now PROACTIVE_REFRESH_LEAD_MS st \<or> getTimeUntilExpiry now st = 0))"

definition isRenewalNeeded :: "millis \<Rightarrow> TokenStorage \<Rightarrow> bool" where
  "isRenewalNeeded now st =
     (isRefreshDue now st \<or> getAccessTokenExpiry st = None \<and> truthy (ts_refresh st))"

text \<open>\<open>runProactiveRefresh\<close> until it waits for an exchange, and its rest, given the outcome.\<close>

definition runProactiveRefresh :: "millis \<Rightarrow> RefreshService \<Rightarrow> RefreshService" where
  "runProactiveRefresh now s =
     (if \<not> rf_started s \<or> \<not> ts_authenticated (rf_storage s) then s
      else if \<not> isRenewalNeeded now (rf_storage s) then scheduleProactiveRefresh now s
      else case refreshWithOutcome s of
          (None, s1) \<Rightarrow> s1\<lparr>rf_proactiveWaits := rf_proactiveWaits s1 + 1\<rparr>
        | (Some _, s1) \<Rightarrow> s1)"

definition transient_delay :: "nat \<Rightarrow> rat" where
  "transient_delay failures =
     of_int (min (TRANSIENT_RETRY_BASE_MS * 2 ^ (max 1 failures - 1)) TRANSIENT_RETRY_MAX_MS)"

definition proactive_rest :: "millis \<Rightarrow> RefreshOutcome \<Rightarrow> RefreshService \<Rightarrow> RefreshService" where
  "proactive_rest now outcome s =
     (case outcome of
        ExpiredSession \<Rightarrow> s
      | TransientFailure \<Rightarrow> armProactiveTimer now (transient_delay (rf_failures s)) s
      | Refreshed \<Rightarrow>
          let expiry = getAccessTokenExpiry (rf_storage s);
              stalled = (case expiry of None \<Rightarrow> True
                | Some e \<Rightarrow> (case rf_lastExpiry s of None \<Rightarrow> False | Some l \<Rightarrow> e \<le> l));
              s1 = s\<lparr>rf_lastExpiry := expiry\<rparr> in
          if stalled then armProactiveTimer now (of_int UNRESOLVED_EXPIRY_RETRY_MS) s1
          else scheduleProactiveRefresh now s1)"

definition proactive_fires :: "millis \<Rightarrow> RefreshService \<Rightarrow> RefreshService" where
  "proactive_fires now s =
     (case rf_timer s of None \<Rightarrow> s
      | Some due \<Rightarrow> if of_int now < due then s else runProactiveRefresh now (s\<lparr>rf_timer := None\<rparr>))"

definition handleVisibilityChange :: "millis \<Rightarrow> bool \<Rightarrow> RefreshService \<Rightarrow> RefreshService" where
  "handleVisibilityChange now visible s =
     (let s1 = s\<lparr>rf_visible := visible\<rparr> in
      if \<not> rf_started s1 then s1
      else if \<not> visible then s1\<lparr>rf_timer := None\<rparr> else runProactiveRefresh now s1)"

definition rf_start :: "millis \<Rightarrow> RefreshService \<Rightarrow> RefreshService" where
  "rf_start now s =
     (if rf_started s then s
      else scheduleProactiveRefresh now (s\<lparr>rf_started := True, rf_dispatched := False, rf_failures := 0\<rparr>))"

definition rf_stop :: "RefreshService \<Rightarrow> RefreshService" where
  "rf_stop s = (if \<not> rf_started s then s else s\<lparr>rf_started := False, rf_timer := None\<rparr>)"

text \<open>The end of an exchange, and the proactive runs that waited for it.\<close>

definition proactive_rests :: "millis \<Rightarrow> RefreshOutcome \<Rightarrow> RefreshService \<Rightarrow> RefreshService" where
  "proactive_rests now outcome s =
     (proactive_rest now outcome ^^ rf_proactiveWaits s) (s\<lparr>rf_proactiveWaits := 0\<rparr>)"

end
