(* ===== verification/Http_Client.thy ===== *)
theory Http_Client
  imports Token_Refresh Retry_Strategy Interfaces "HOL-Library.Sublist"
begin

text \<open>
  The HTTP client (frontend/src/services/http-client.ts) over the retry strategy and the refresh service. A call of \<open>fetch\<close>
  is a process that is cut at its awaits: its phase says what it waits for, and its log holds the answers of its requests, so that
  any number of calls, exchanges and timers interleave as events. The browser, the time-out of a request and
  the caller's signal are part of an answer: a request answers or throws.
\<close>

section \<open>The policy\<close>

record HttpOptions =
  ho_url :: string
  ho_method :: "string option"
  ho_headers :: "(string \<times> string) list"
  ho_formData :: bool
  ho_skipAuth :: bool
  ho_maxRetries :: "int option"
  ho_idempotent :: bool
  ho_noRetryStatuses :: "int list"

definition plain_request :: HttpOptions where
  "plain_request = \<lparr>ho_url = [], ho_method = None, ho_headers = [], ho_formData = False, ho_skipAuth = False,
     ho_maxRetries = None, ho_idempotent = False, ho_noRetryStatuses = []\<rparr>"

text \<open>Methods are ASCII.\<close>

definition char_upper :: "char \<Rightarrow> char" where
  "char_upper c = (if 97 \<le> (of_char c :: nat) \<and> (of_char c :: nat) \<le> 122 then char_of ((of_char c :: nat) - 32) else c)"

definition IDEMPOTENT_METHODS :: "string list" where
  "IDEMPOTENT_METHODS = [''GET'', ''HEAD'', ''PUT'', ''DELETE'', ''OPTIONS'']"

definition isRetryableStatus :: "int \<Rightarrow> string \<Rightarrow> bool \<Rightarrow> int list \<Rightarrow> bool" where
  "isRetryableStatus status method idempotent noRetryStatuses =
     (if status \<in> set noRetryStatuses then False
      else if status = 429 then True
      else if status \<ge> 500 then
        idempotent \<or> map char_upper (if method = [] then ''GET'' else method) \<in> set IDEMPOTENT_METHODS
      else False)"

definition http_method :: "HttpOptions \<Rightarrow> string" where
  "http_method opts = map char_upper (case ho_method opts of None \<Rightarrow> ''GET'' | Some m \<Rightarrow> m)"

definition is_retryable :: "HttpOptions \<Rightarrow> Response \<Rightarrow> bool" where
  "is_retryable opts r = isRetryableStatus (rs_status r) (http_method opts) (ho_idempotent opts) (ho_noRetryStatuses opts)"

section \<open>One request\<close>

definition ACTIVE_TENANT_URL_PREFIXES :: "string list" where
  "ACTIVE_TENANT_URL_PREFIXES =
     [''/api/v1/operations/'', ''/api/v1/admin-dev/'', ''/api/v1/admin/agent-sessions'', ''/api/v1/admin/sessions/census'',
      ''/api/v1/helper-tasks'', ''/api/v1/devices/pair-codes'', ''/api/v1/agent-registry'', ''/api/v1/overview/'',
      ''/api/v1/devices/resolve'', ''/api/v1/dispatch/fresh-host'', ''/api/v1/conditions/'', ''/api/v1/admin/prompt-injections'',
      ''/api/v1/design-policies'', ''/api/v1/digital-twin/'', ''/api/v1/memory/'', ''/api/v1/image-assets'', ''/api/v1/taste/'',
      ''/api/v1/plan-library'', ''/api/v1/session-repository'', ''/api/v1/fleet/test-targets'', ''/api/v1/build-records/'',
      ''/api/v1/admin/coord/overlord/'', ''/api/v1/presentation/'']"

definition isActiveTenantScopedUrl :: "string \<Rightarrow> bool" where
  "isActiveTenantScopedUrl url = list_ex (js_includes url) ACTIVE_TENANT_URL_PREFIXES"

text \<open>The headers of a request, given the selected tenant and the CSRF token.\<close>

definition request_headers :: "HttpOptions \<Rightarrow> TokenStorage \<Rightarrow> string option \<Rightarrow> string option \<Rightarrow> (string \<times> string) list" where
  "request_headers opts st activeTenant csrfToken =
     (let h0 = fold (\<lambda>(k, v) h. map_set k v h) (ho_headers opts) (if ho_formData opts then [] else [(''Content-Type'', ''application/json'')]);
          h1 = (case ts_access st of
             Some t \<Rightarrow> if \<not> ho_skipAuth opts \<and> br_text t \<noteq> [] then map_set ''Authorization'' (''Bearer '' @ br_text t) h0 else h0
           | None \<Rightarrow> h0);
          h2 = (if \<not> ho_skipAuth opts \<and> isActiveTenantScopedUrl (ho_url opts) \<and> \<not> truthy (map_of h1 ''X-Qontinui-Active-Tenant'')
                  \<and> truthy activeTenant
                then map_set ''X-Qontinui-Active-Tenant'' (the activeTenant) h1 else h1) in
      if truthy csrfToken \<and> http_method opts \<in> {''POST'', ''PUT'', ''DELETE'', ''PATCH''}
      then map_set ''X-CSRF-Token'' (the csrfToken) h2 else h2)"

section \<open>The client and its calls\<close>

datatype CallPhase =
    AwaitFirst
  | AwaitRefresh Response
  | AwaitReplay
  | AwaitChain nat
  | AwaitWait nat
  | Finished "js_error + Response"

record HttpCall =
  hc_options :: HttpOptions
  hc_phase :: CallPhase
  hc_replayed :: bool
  hc_log :: "(js_error + Response) list"

record HttpClient =
  ht_service :: RefreshService
  ht_retry :: RetryConfig
  ht_handled :: bool
  ht_unauthorized :: nat
  ht_expired :: nat
  ht_calls :: "HttpCall list"

definition http_create :: "RetryConfig \<Rightarrow> RefreshService \<Rightarrow> HttpClient" where
  "http_create retry service =
     \<lparr>ht_service = service, ht_retry = retry, ht_handled = False, ht_unauthorized = 0, ht_expired = 0, ht_calls = []\<rparr>"

definition ht_storage :: "HttpClient \<Rightarrow> TokenStorage" where
  "ht_storage c = rf_storage (ht_service c)"

definition with_storage :: "(TokenStorage \<Rightarrow> TokenStorage) \<Rightarrow> HttpClient \<Rightarrow> HttpClient" where
  "with_storage f c = c\<lparr>ht_service := (ht_service c)\<lparr>rf_storage := f (ht_storage c)\<rparr>\<rparr>"

definition MAX_POST_REFRESH_UNAUTHORIZED :: nat where "MAX_POST_REFRESH_UNAUTHORIZED = 2"

definition hadSession :: "TokenStorage \<Rightarrow> bool" where
  "hadSession st = (has_bearer st \<or> truthy (ts_refresh st) \<or> ts_authenticated st)"

text \<open>What tears the session down, with the handler set; the tokens are cleared and the handler is called.\<close>

definition maybeHandleAuthRejection :: "millis \<Rightarrow> int \<Rightarrow> bool \<Rightarrow> bool \<Rightarrow> HttpClient \<Rightarrow> HttpClient" where
  "maybeHandleAuthRejection now status skipAuth tokenKnownRejected c =
     (if skipAuth \<or> status \<noteq> 401 \<and> status \<noteq> 403 \<or> ht_handled c \<or> \<not> hadSession (ht_storage c) then c
      else let tokenUnusable = \<not> has_bearer (ht_storage c) \<or> isAccessTokenExpired now (ht_storage c) in
        if \<not> tokenUnusable \<and> \<not> tokenKnownRejected then c
        else with_storage clearTokens (c\<lparr>ht_handled := True, ht_expired := ht_expired c + 1\<rparr>))"

definition call_retry :: "HttpClient \<Rightarrow> HttpOptions \<Rightarrow> RetryConfig" where
  "call_retry c opts = (case ho_maxRetries opts of None \<Rightarrow> ht_retry c | Some n \<Rightarrow> withMaxRetries n (ht_retry c))"

definition maybeRetry :: "RetryConfig \<Rightarrow> Response \<Rightarrow> HttpCall \<Rightarrow> HttpCall" where
  "maybeRetry cfg r call =
     (if \<not> canRetry cfg 1 \<or> \<not> is_retryable (hc_options call) r then call\<lparr>hc_phase := Finished (Inr r)\<rparr>
      else call\<lparr>hc_phase := AwaitChain 1\<rparr>)"

text \<open>The answer inside the chain: the next attempt after a wait, or the end.\<close>

definition chain_answer :: "millis \<Rightarrow> RetryConfig \<Rightarrow> nat \<Rightarrow> Response \<Rightarrow> HttpCall \<Rightarrow> HttpClient \<Rightarrow> HttpCall \<times> HttpClient" where
  "chain_answer now cfg attempt r call c =
     (if is_retryable (hc_options call) r \<and> rr_shouldRetry (shouldRetry cfg r attempt)
      then (call\<lparr>hc_phase := AwaitWait attempt\<rparr>, c)
      else (call\<lparr>hc_phase := Finished (Inr r)\<rparr>,
            maybeHandleAuthRejection now (rs_status r) (ho_skipAuth (hc_options call)) False c))"

definition replay_answer :: "millis \<Rightarrow> RetryConfig \<Rightarrow> Response \<Rightarrow> HttpCall \<Rightarrow> HttpClient \<Rightarrow> HttpCall \<times> HttpClient" where
  "replay_answer now cfg r call c =
     (if rs_status r \<noteq> 401 \<and> rs_status r \<noteq> 403 then (maybeRetry cfg r call, c\<lparr>ht_unauthorized := 0\<rparr>)
      else let c1 = c\<lparr>ht_unauthorized := ht_unauthorized c + 1\<rparr> in
        (maybeRetry cfg r call,
         if ht_unauthorized c1 \<ge> MAX_POST_REFRESH_UNAUTHORIZED
         then maybeHandleAuthRejection now (rs_status r) (ho_skipAuth (hc_options call)) True c1 else c1))"

text \<open>The first answer. Without a refresh token, the refresh service answers \<open>expired\<close> at once.\<close>

definition first_answer :: "millis \<Rightarrow> RetryConfig \<Rightarrow> Response \<Rightarrow> HttpCall \<Rightarrow> HttpClient \<Rightarrow> HttpCall \<times> HttpClient" where
  "first_answer now cfg r call c =
     (let skipAuth = ho_skipAuth (hc_options call); st = ht_storage c; done = call\<lparr>hc_phase := Finished (Inr r)\<rparr> in
      if rs_status r = 401 \<and> \<not> skipAuth then
        (if \<not> hadSession st \<or> \<not> token_stale now st then (done, c)
         else if \<not> ts_authenticated st then (done, maybeHandleAuthRejection now (rs_status r) skipAuth False c)
         else (case refreshWithOutcome (ht_service c) of
             (None, service) \<Rightarrow> (call\<lparr>hc_phase := AwaitRefresh r\<rparr>, c\<lparr>ht_service := service\<rparr>)
           | (Some _, service) \<Rightarrow> (done, c\<lparr>ht_service := service, ht_handled := True\<rparr>)))
      else (maybeRetry cfg r call, maybeHandleAuthRejection now (rs_status r) skipAuth False c))"

definition awaits_answer :: "HttpCall \<Rightarrow> bool" where
  "awaits_answer call \<longleftrightarrow> (case hc_phase call of AwaitFirst \<Rightarrow> True | AwaitReplay \<Rightarrow> True | AwaitChain _ \<Rightarrow> True | _ \<Rightarrow> False)"

definition call_answer :: "millis \<Rightarrow> js_error + Response \<Rightarrow> HttpCall \<Rightarrow> HttpClient \<Rightarrow> HttpCall \<times> HttpClient" where
  "call_answer now answer call c =
     (if \<not> awaits_answer call then (call, c)
      else let logged = call\<lparr>hc_log := hc_log call @ [answer]\<rparr>; cfg = call_retry c (hc_options call) in
        case answer of
          Inl e \<Rightarrow> (logged\<lparr>hc_phase := Finished (Inl e)\<rparr>, c)
        | Inr r \<Rightarrow>
            (case hc_phase call of
               AwaitReplay \<Rightarrow> replay_answer now cfg r logged c
             | AwaitChain attempt \<Rightarrow> chain_answer now cfg attempt r logged c
             | _ \<Rightarrow> first_answer now cfg r logged c))"

text \<open>What a call does when the exchange that it waits for ends.\<close>

definition call_resumed :: "RefreshOutcome \<Rightarrow> HttpCall \<Rightarrow> HttpCall" where
  "call_resumed outcome call =
     (case hc_phase call of
        AwaitRefresh r \<Rightarrow>
          (if outcome = Refreshed then call\<lparr>hc_phase := AwaitReplay, hc_replayed := True\<rparr>
           else call\<lparr>hc_phase := Finished (Inr r)\<rparr>)
      | _ \<Rightarrow> call)"

definition awaits_refresh :: "HttpCall \<Rightarrow> bool" where
  "awaits_refresh call \<longleftrightarrow> (case hc_phase call of AwaitRefresh _ \<Rightarrow> True | _ \<Rightarrow> False)"

section \<open>Events\<close>

datatype HttpEvent =
    FetchEv HttpOptions
  | AnswerEv nat "js_error + Response" millis
  | WaitOverEv nat
  | ExchangeEv CognitoAnswer millis
  | RefreshEv
  | TimerEv millis
  | VisibilityEv bool millis
  | StartEv millis
  | StopEv
  | LoginEv TokenResponse millis
  | LogoutEv
  | SiblingEv "millis option" "millis option" bool

definition http_fetch :: "HttpOptions \<Rightarrow> HttpClient \<Rightarrow> HttpClient" where
  "http_fetch opts c =
     c\<lparr>ht_calls := ht_calls c @ [\<lparr>hc_options = opts, hc_phase = AwaitFirst, hc_replayed = False, hc_log = []\<rparr>]\<rparr>"

definition http_answer :: "nat \<Rightarrow> js_error + Response \<Rightarrow> millis \<Rightarrow> HttpClient \<Rightarrow> HttpClient" where
  "http_answer k answer now c =
     (if k \<ge> length (ht_calls c) then c
      else let (call, c1) = call_answer now answer (ht_calls c ! k) c in c1\<lparr>ht_calls := (ht_calls c)[k := call]\<rparr>)"

definition http_wait_over :: "nat \<Rightarrow> HttpClient \<Rightarrow> HttpClient" where
  "http_wait_over k c =
     (if k \<ge> length (ht_calls c) then c
      else case hc_phase (ht_calls c ! k) of
          AwaitWait attempt \<Rightarrow> c\<lparr>ht_calls := (ht_calls c)[k := (ht_calls c ! k)\<lparr>hc_phase := AwaitChain (attempt + 1)\<rparr>]\<rparr>
        | _ \<Rightarrow> c)"

definition http_exchange :: "CognitoAnswer \<Rightarrow> millis \<Rightarrow> HttpClient \<Rightarrow> HttpClient" where
  "http_exchange answer now c =
     (if rf_inFlight (ht_service c) = None then c
      else let (outcome, service) = doRefresh_end now answer (ht_service c) in
        c\<lparr>ht_service := proactive_rests now outcome service,
          ht_handled := (ht_handled c \<or> outcome = ExpiredSession \<and> list_ex awaits_refresh (ht_calls c)),
          ht_calls := map (call_resumed outcome) (ht_calls c)\<rparr>)"

definition on_service :: "(RefreshService \<Rightarrow> RefreshService) \<Rightarrow> HttpClient \<Rightarrow> HttpClient" where
  "on_service f c = c\<lparr>ht_service := f (ht_service c)\<rparr>"

text \<open>
  One event: besides what the client does, \<open>RefreshEv\<close> is a refresh that other code asks for, \<open>LoginEv\<close> and \<open>LogoutEv\<close> set and
  clear the tokens, and in \<open>SiblingEv\<close> another tab writes the local storage.
\<close>

definition http_step :: "HttpClient \<Rightarrow> HttpEvent \<Rightarrow> HttpClient" where
  "http_step c e =
     (case e of
        FetchEv opts \<Rightarrow> http_fetch opts c
      | AnswerEv k answer now \<Rightarrow> http_answer k answer now c
      | WaitOverEv k \<Rightarrow> http_wait_over k c
      | ExchangeEv answer now \<Rightarrow> http_exchange answer now c
      | RefreshEv \<Rightarrow> on_service (\<lambda>s. snd (refreshWithOutcome s)) c
      | TimerEv now \<Rightarrow> on_service (proactive_fires now) c
      | VisibilityEv visible now \<Rightarrow> on_service (handleVisibilityChange now visible) c
      | StartEv now \<Rightarrow> on_service (rf_start now) c
      | StopEv \<Rightarrow> on_service rf_stop c
      | LoginEv tokens now \<Rightarrow> with_storage (setTokens now tokens) c
      | LogoutEv \<Rightarrow> with_storage clearTokens c
      | SiblingEv e1 e2 auth \<Rightarrow>
          with_storage (\<lambda>st. st\<lparr>ts_expiry := e1, ts_refreshExpiry := e2, ts_authenticated := auth\<rparr>) c)"

end
