(* ===== verification/Http_Sessions.thy ===== *)
theory Http_Sessions
  imports Http_Client
begin

text \<open>
  What holds of the HTTP client in every interleaving of calls, exchanges and timers: how often and after which answers a request is
  made again, that a session's end is announced once, that there is one exchange at a time and nobody waits for
  none, and what the chain of retries returns.
\<close>

section \<open>The requests of a call\<close>

definition requests_made :: "HttpCall \<Rightarrow> nat" where
  "requests_made call = length (hc_log call) + (if awaits_answer call then 1 else 0)"

text \<open>The answer \<open>i\<close> may be followed by another request.\<close>

definition may_follow :: "HttpCall \<Rightarrow> nat \<Rightarrow> bool" where
  "may_follow call i \<longleftrightarrow>
     (case hc_log call ! i of Inl _ \<Rightarrow> False
      | Inr r \<Rightarrow> is_retryable (hc_options call) r
          \<or> i = 0 \<and> hc_replayed call \<and> rs_status r = 401 \<and> \<not> ho_skipAuth (hc_options call))"

definition request_bound :: "RetryConfig \<Rightarrow> HttpCall \<Rightarrow> nat" where
  "request_bound cfg call =
     (if rc_maxRetries cfg \<le> 0 then 1 else nat (rc_maxRetries cfg) + 2) + (if hc_replayed call then 1 else 0)"

definition replays :: "HttpCall \<Rightarrow> nat" where
  "replays call = (if hc_replayed call then 1 else 0)"

fun phase_ok :: "RetryConfig \<Rightarrow> HttpCall \<Rightarrow> CallPhase \<Rightarrow> bool" where
  "phase_ok cfg call AwaitFirst = (hc_log call = [] \<and> \<not> hc_replayed call)"
| "phase_ok cfg call (AwaitRefresh r) =
     (hc_log call = [Inr r] \<and> \<not> hc_replayed call \<and> rs_status r = 401 \<and> \<not> ho_skipAuth (hc_options call))"
| "phase_ok cfg call AwaitReplay = (length (hc_log call) = 1 \<and> hc_replayed call \<and> may_follow call 0)"
| "phase_ok cfg call (AwaitChain a) =
     (length (hc_log call) = a + replays call \<and> 1 \<le> a \<and> 1 \<le> rc_maxRetries cfg \<and> int a \<le> rc_maxRetries cfg + 1
      \<and> list_all (may_follow call) [0..<length (hc_log call)])"
| "phase_ok cfg call (AwaitWait a) =
     (length (hc_log call) = a + 1 + replays call \<and> 1 \<le> a \<and> int a \<le> rc_maxRetries cfg
      \<and> list_all (may_follow call) [0..<length (hc_log call)])"
| "phase_ok cfg call (Finished _) =
     (length (hc_log call) \<le> request_bound cfg call \<and> list_all (may_follow call) [0..<length (hc_log call) - 1])"

definition call_within :: "RetryConfig \<Rightarrow> HttpCall \<Rightarrow> bool" where
  "call_within cfg call = phase_ok cfg call (hc_phase call)"

lemma call_within_bounds:
  assumes "call_within cfg call"
  shows "requests_made call \<le> request_bound cfg call" "Suc i < requests_made call \<Longrightarrow> may_follow call i"
  using assms
  by (auto simp: call_within_def requests_made_def request_bound_def awaits_answer_def replays_def list_all_iff
      split: CallPhase.splits)

text \<open>Another answer in the log leaves what was said of the ones before.\<close>

lemma may_follow_log:
  "i < length (hc_log call) \<Longrightarrow> may_follow (call\<lparr>hc_log := hc_log call @ [x]\<rparr>) i = may_follow call i"
  by (simp add: may_follow_def nth_append split: sum.split)

lemma may_follow_phase [simp]: "may_follow (call\<lparr>hc_phase := p\<rparr>) = may_follow call"
  by (simp add: may_follow_def fun_eq_iff split: sum.split)

lemma request_bound_same [simp]:
  "request_bound cfg (call\<lparr>hc_phase := p\<rparr>) = request_bound cfg call" "request_bound cfg (call\<lparr>hc_log := l\<rparr>) = request_bound cfg call"
  "replays (call\<lparr>hc_phase := p\<rparr>) = replays call" "replays (call\<lparr>hc_log := l\<rparr>) = replays call"
  by (simp_all add: request_bound_def replays_def)

lemma logged_all:
  assumes "list_all (may_follow call) [0..<length (hc_log call)]"
  shows "list_all (may_follow (call\<lparr>hc_log := hc_log call @ [x]\<rparr>)) [0..<length (hc_log call)]"
  using assms by (auto simp: list_all_iff may_follow_log)

lemma retry_ok:
  assumes "length (hc_log call) = 1 + replays call" and "list_all (may_follow call) [0..<replays call]"
    and "last (hc_log call) = Inr r"
  shows "call_within cfg (maybeRetry cfg r call)"
proof -
  have "hc_log call ! replays call = Inr r" using assms(1,3) by (cases "hc_log call" rule: rev_cases) (auto simp: nth_append)
  then have "is_retryable (hc_options call) r \<Longrightarrow> list_all (may_follow call) [0..<Suc (replays call)]"
    using assms(2) by (simp add: may_follow_def)
  then show ?thesis
    using assms by (auto simp: maybeRetry_def call_within_def canRetry_def request_bound_def replays_def)
qed

lemma first_ok:
  assumes "phase_ok cfg call AwaitFirst"
  shows "call_within cfg (fst (first_answer now cfg r (call\<lparr>hc_log := hc_log call @ [Inr r]\<rparr>) c))"
proof -
  let ?call = "call\<lparr>hc_log := hc_log call @ [Inr r]\<rparr>"
  have "call_within cfg (maybeRetry cfg r ?call)"
    by (rule retry_ok) (use assms in \<open>auto simp: replays_def\<close>)
  then show ?thesis
    using assms by (auto simp: first_answer_def Let_def call_within_def request_bound_def split: option.split prod.split)
qed

lemma replay_ok:
  assumes "phase_ok cfg call AwaitReplay"
  shows "call_within cfg (fst (replay_answer now cfg r (call\<lparr>hc_log := hc_log call @ [Inr r]\<rparr>) c))"
proof -
  let ?call = "call\<lparr>hc_log := hc_log call @ [Inr r]\<rparr>"
  have "call_within cfg (maybeRetry cfg r ?call)"
    by (rule retry_ok) (use assms in \<open>auto simp: replays_def may_follow_log\<close>)
  then show ?thesis by (simp add: replay_answer_def Let_def)
qed

lemma chain_ok:
  assumes "phase_ok cfg call (AwaitChain a)"
  shows "call_within cfg (fst (chain_answer now cfg a r (call\<lparr>hc_log := hc_log call @ [Inr r]\<rparr>) c))"
proof -
  let ?call = "call\<lparr>hc_log := hc_log call @ [Inr r]\<rparr>"
  have all: "list_all (may_follow ?call) [0..<length (hc_log call)]" by (rule logged_all) (use assms in \<open>unfold phase_ok.simps, blast\<close>)
  moreover have "is_retryable (hc_options call) r \<Longrightarrow> may_follow ?call (length (hc_log call))" by (simp add: may_follow_def)
  moreover have "rr_shouldRetry (shouldRetry cfg r a) \<Longrightarrow> int a \<le> rc_maxRetries cfg"
    by (simp add: shouldRetry_def split: if_splits)
  ultimately show ?thesis
    using assms by (auto simp: chain_answer_def call_within_def request_bound_def replays_def)
qed

lemma answer_ok:
  assumes "call_within (call_retry c (hc_options call)) call"
  shows "call_within (call_retry c (hc_options call)) (fst (call_answer now answer call c))"
proof (cases "awaits_answer call")
  case True
  let ?cfg = "call_retry c (hc_options call)"
  show ?thesis
  proof (cases answer)
    case (Inl e)
    have "length (hc_log call) < request_bound ?cfg call"
      using call_within_bounds(1) [OF assms] True by (simp add: requests_made_def)
    moreover have "list_all (may_follow call) [0..<length (hc_log call)]"
      using call_within_bounds(2) [OF assms] True by (simp add: requests_made_def list_all_iff)
    ultimately show ?thesis using True Inl logged_all [of call answer] by (simp add: call_answer_def Let_def call_within_def)
  next
    case (Inr r)
    have ph: "phase_ok ?cfg call (hc_phase call)" using assms by (simp add: call_within_def)
    consider "hc_phase call = AwaitFirst" | "hc_phase call = AwaitReplay" | a where "hc_phase call = AwaitChain a"
      using True by (auto simp: awaits_answer_def split: CallPhase.splits)
    then show ?thesis
    proof cases
      case 1
      then show ?thesis using first_ok [of ?cfg call now r c] ph True Inr by (simp only: call_answer_def Let_def) simp
    next
      case 2
      then show ?thesis using replay_ok [of ?cfg call now r c] ph True Inr by (simp only: call_answer_def Let_def) simp
    next
      case (3 a)
      then show ?thesis using chain_ok [of ?cfg call a now r c] ph True Inr by (simp only: call_answer_def Let_def) simp
    qed
  qed
qed (use assms in \<open>simp add: call_answer_def\<close>)

lemma resumed_ok: "call_within cfg call \<Longrightarrow> call_within cfg (call_resumed outcome call)"
  by (cases "hc_phase call") (auto simp: call_resumed_def call_within_def may_follow_def request_bound_def)

section \<open>The state of the client\<close>

definition calls_ok :: "HttpClient \<Rightarrow> bool" where
  "calls_ok c \<longleftrightarrow> list_all (\<lambda>call. call_within (call_retry c (hc_options call)) call) (ht_calls c)"

text \<open>Who waits for an exchange waits for one that is in flight.\<close>

definition waits_ok :: "HttpClient \<Rightarrow> bool" where
  "waits_ok c \<longleftrightarrow> (list_ex awaits_refresh (ht_calls c) \<or> 0 < rf_proactiveWaits (ht_service c) \<longrightarrow> rf_inFlight (ht_service c) \<noteq> None)"

text \<open>The handler was called once at most, and never again.\<close>

definition expiry_ok :: "HttpClient \<Rightarrow> bool" where
  "expiry_ok c \<longleftrightarrow> ht_expired c \<le> 1 \<and> (0 < ht_expired c \<longrightarrow> ht_handled c)"

definition http_inv :: "HttpClient \<Rightarrow> bool" where
  "http_inv c \<longleftrightarrow> calls_ok c \<and> waits_ok c \<and> expiry_ok c"

text \<open>What a change of the service keeps: exchanges in flight end only by their answer.\<close>

definition keeps_flight :: "RefreshService \<Rightarrow> RefreshService \<Rightarrow> bool" where
  "keeps_flight s s' \<longleftrightarrow> (rf_inFlight s \<noteq> None \<longrightarrow> rf_inFlight s' = rf_inFlight s)
     \<and> (rf_proactiveWaits s < rf_proactiveWaits s' \<longrightarrow> rf_inFlight s' \<noteq> None)"

lemma keeps_refl [simp]: "keeps_flight s s"
  by (simp add: keeps_flight_def)

lemma arm_flight [simp]:
  "rf_inFlight (armProactiveTimer now d s) = rf_inFlight s" "rf_proactiveWaits (armProactiveTimer now d s) = rf_proactiveWaits s"
  "rf_inFlight (scheduleProactiveRefresh now s) = rf_inFlight s" "rf_proactiveWaits (scheduleProactiveRefresh now s) = rf_proactiveWaits s"
  "rf_inFlight (expireSession s) = rf_inFlight s" "rf_proactiveWaits (expireSession s) = rf_proactiveWaits s"
  by (simp_all add: armProactiveTimer_def scheduleProactiveRefresh_def expireSession_def Let_def)

lemma rest_flight [simp]:
  "rf_inFlight (proactive_rest now out s) = rf_inFlight s" "rf_proactiveWaits (proactive_rest now out s) = rf_proactiveWaits s"
  by (simp_all add: proactive_rest_def Let_def split: RefreshOutcome.split option.split)

lemma rests_flight [simp]: "rf_proactiveWaits (proactive_rests now out s) = 0"
proof -
  have "rf_proactiveWaits ((proactive_rest now out ^^ n) t) = rf_proactiveWaits t" for n t by (induction n) simp_all
  then show ?thesis by (simp add: proactive_rests_def)
qed

lemma refresh_flight: "refreshWithOutcome s = (out, s') \<Longrightarrow> keeps_flight s s' \<and> rf_proactiveWaits s' = rf_proactiveWaits s
    \<and> (out = None \<longrightarrow> rf_inFlight s' \<noteq> None)"
  by (auto simp: refreshWithOutcome_def doRefresh_begin_def keeps_flight_def truthy_def split: if_splits option.splits list.splits)

lemma run_flight [simp]: "keeps_flight s (runProactiveRefresh now s)"
proof -
  obtain out s' where r: "refreshWithOutcome s = (out, s')" by fastforce
  from refresh_flight [OF r] r show ?thesis
    by (auto simp: runProactiveRefresh_def keeps_flight_def split: option.split)
qed

lemma fires_flight [simp]: "keeps_flight s (proactive_fires now s)"
  using run_flight [of "s\<lparr>rf_timer := None\<rparr>" now]
  by (simp add: proactive_fires_def keeps_flight_def split: option.split)

lemma visibility_flight [simp]: "keeps_flight s (handleVisibilityChange now v s)"
  using run_flight [of "s\<lparr>rf_visible := v\<rparr>" now]
  by (cases v) (simp_all add: handleVisibilityChange_def keeps_flight_def Let_def)

lemma start_flight [simp]: "keeps_flight s (rf_start now s)" "keeps_flight s (rf_stop s)"
  by (simp_all add: rf_start_def rf_stop_def keeps_flight_def)

lemma service_inv:
  assumes "http_inv c" and "keeps_flight (ht_service c) (f (ht_service c))"
  shows "http_inv (on_service f c)"
proof -
  have "call_retry (on_service f c) = call_retry c" by (simp add: call_retry_def on_service_def fun_eq_iff split: option.split)
  then show ?thesis
    using assms by (auto simp: http_inv_def calls_ok_def waits_ok_def expiry_ok_def on_service_def keeps_flight_def)
qed

lemma storage_inv: "http_inv c \<Longrightarrow> http_inv (with_storage f c)"
proof -
  assume c: "http_inv c"
  have "with_storage f c = on_service (\<lambda>s. s\<lparr>rf_storage := f (rf_storage s)\<rparr>) c" by (simp add: with_storage_def on_service_def ht_storage_def)
  then show ?thesis using service_inv [OF c] by (simp add: keeps_flight_def)
qed

text \<open>What an answer does to the client besides its own call.\<close>

lemma rejection_fields [simp]:
  "ht_calls (maybeHandleAuthRejection now st sk kn c) = ht_calls c" "ht_retry (maybeHandleAuthRejection now st sk kn c) = ht_retry c"
  "rf_inFlight (ht_service (maybeHandleAuthRejection now st sk kn c)) = rf_inFlight (ht_service c)"
  "rf_proactiveWaits (ht_service (maybeHandleAuthRejection now st sk kn c)) = rf_proactiveWaits (ht_service c)"
  by (simp_all add: maybeHandleAuthRejection_def with_storage_def Let_def)

lemma rejection_expiry: "expiry_ok c \<Longrightarrow> expiry_ok (maybeHandleAuthRejection now st sk kn c)"
  by (auto simp: expiry_ok_def maybeHandleAuthRejection_def with_storage_def Let_def)

lemma phase_waits [simp]: "awaits_refresh (call\<lparr>hc_phase := p\<rparr>) = (case p of AwaitRefresh _ \<Rightarrow> True | _ \<Rightarrow> False)"
  by (simp add: awaits_refresh_def)

lemma retry_waits [simp]: "\<not> awaits_refresh (maybeRetry cfg r call)"
  by (simp add: maybeRetry_def awaits_refresh_def)

lemma waits_unchanged:
  "ht_calls c' = ht_calls c \<Longrightarrow> keeps_flight (ht_service c) (ht_service c') \<Longrightarrow> waits_ok c \<Longrightarrow> waits_ok c'"
  by (auto simp: waits_ok_def keeps_flight_def)

lemma rejection_waits: "waits_ok c \<Longrightarrow> waits_ok (maybeHandleAuthRejection now st sk kn c)"
  by (simp add: waits_ok_def)

lemma expiry_fields: "expiry_ok c \<Longrightarrow> expiry_ok (c\<lparr>ht_service := x\<rparr>)" "expiry_ok c \<Longrightarrow> expiry_ok (c\<lparr>ht_service := x, ht_handled := True\<rparr>)"
  "expiry_ok c \<Longrightarrow> expiry_ok (c\<lparr>ht_unauthorized := n\<rparr>)"
  by (simp_all add: expiry_ok_def)

text \<open>The parts of an answer that the invariant looks at.\<close>

definition answered :: "HttpClient \<Rightarrow> HttpCall \<Rightarrow> HttpCall \<times> HttpClient \<Rightarrow> bool" where
  "answered c call x \<longleftrightarrow> ht_calls (snd x) = ht_calls c \<and> ht_retry (snd x) = ht_retry c \<and> hc_options (fst x) = hc_options call
     \<and> (expiry_ok c \<longrightarrow> expiry_ok (snd x)) \<and> keeps_flight (ht_service c) (ht_service (snd x))
     \<and> (awaits_refresh (fst x) \<longrightarrow> awaits_refresh call \<or> rf_inFlight (ht_service (snd x)) \<noteq> None)"

lemma rejection_keeps [simp]: "keeps_flight (ht_service c) (ht_service (maybeHandleAuthRejection now st sk kn c))"
  by (simp add: keeps_flight_def)

lemma retry_options [simp]: "hc_options (maybeRetry cfg r call) = hc_options call"
  by (simp add: maybeRetry_def)

lemma first_answered: "answered c call (first_answer now cfg r (call\<lparr>hc_log := l\<rparr>) c)"
proof -
  obtain out s' where r: "refreshWithOutcome (ht_service c) = (out, s')" by fastforce
  from refresh_flight [OF r] r show ?thesis
    by (auto simp: first_answer_def answered_def Let_def rejection_expiry expiry_fields split: option.split)
qed

lemma replay_answered: "answered c call (replay_answer now cfg r (call\<lparr>hc_log := l\<rparr>) c)"
  using rejection_expiry [of "c\<lparr>ht_unauthorized := n\<rparr>" for n] rejection_keeps [of "c\<lparr>ht_unauthorized := n\<rparr>" for n]
  by (auto simp: replay_answer_def answered_def Let_def expiry_fields keeps_flight_def intro: rejection_expiry)

lemma chain_answered: "answered c call (chain_answer now cfg a r (call\<lparr>hc_log := l\<rparr>) c)"
  by (auto simp: chain_answer_def answered_def rejection_expiry)

lemma answer_answered: "answered c call (call_answer now answer call c)"
  by (auto simp: call_answer_def Let_def first_answered replay_answered chain_answered split: sum.split CallPhase.split)
    (auto simp: answered_def awaits_refresh_def)

lemma retry_same: "ht_retry c' = ht_retry c \<Longrightarrow> call_retry c' = call_retry c"
  by (simp add: call_retry_def fun_eq_iff split: option.split)

lemma answer_inv: "http_inv c \<Longrightarrow> http_inv (http_answer k answer now c)"
proof (cases "k < length (ht_calls c)")
  case True
  assume c: "http_inv c"
  let ?call = "ht_calls c ! k"
  obtain call' c' where r: "call_answer now answer ?call c = (call', c')" by fastforce
  have a: "ht_calls c' = ht_calls c" "ht_retry c' = ht_retry c" "hc_options call' = hc_options ?call" "expiry_ok c'"
    "keeps_flight (ht_service c) (ht_service c')" "awaits_refresh call' \<Longrightarrow> awaits_refresh ?call \<or> rf_inFlight (ht_service c') \<noteq> None"
    using answer_answered [of c ?call now answer] c by (auto simp: r answered_def http_inv_def)
  have mem: "?call \<in> set (ht_calls c)" using True by simp
  then have ok: "call_within (call_retry c (hc_options ?call)) call'"
    using answer_ok [of c ?call now answer] c by (simp add: r http_inv_def calls_ok_def list_all_iff)
  let ?t = "c'\<lparr>ht_calls := (ht_calls c)[k := call']\<rparr>"
  have cs: "set ((ht_calls c)[k := call']) \<subseteq> insert call' (set (ht_calls c))" by (rule set_update_subset_insert)
  have cr: "call_retry ?t = call_retry c" by (rule retry_same) (simp add: a)
  have "calls_ok ?t" unfolding calls_ok_def cr
    using cs ok c a(3) by (auto simp: http_inv_def calls_ok_def list_all_iff)
  moreover have "waits_ok ?t"
    using cs a(5,6) c mem by (auto simp: waits_ok_def http_inv_def keeps_flight_def list_ex_iff)
  ultimately show ?thesis using True r a(4) by (simp add: http_answer_def http_inv_def expiry_ok_def)
qed (simp add: http_answer_def)

lemma exchange_inv: "http_inv c \<Longrightarrow> http_inv (http_exchange answer now c)"
proof (cases "rf_inFlight (ht_service c) = None")
  case False
  assume c: "http_inv c"
  obtain out s where r: "doRefresh_end now answer (ht_service c) = (out, s)" by fastforce
  let ?t = "http_exchange answer now c"
  have t: "ht_calls ?t = map (call_resumed out) (ht_calls c)" "ht_expired ?t = ht_expired c" "ht_handled c \<Longrightarrow> ht_handled ?t"
    "ht_service ?t = proactive_rests now out s" "ht_retry ?t = ht_retry c"
    unfolding http_exchange_def if_not_P [OF False] r Let_def by simp_all
  have "\<not> awaits_refresh (call_resumed out call)" for call
    by (simp add: awaits_refresh_def call_resumed_def split: CallPhase.split)
  then have "waits_ok ?t" by (simp add: waits_ok_def t list_ex_iff)
  moreover have opts: "hc_options (call_resumed out call) = hc_options call" for call
    by (simp add: call_resumed_def split: CallPhase.split)
  have "calls_ok ?t"
    using c resumed_ok by (auto simp: calls_ok_def http_inv_def t list_all_iff retry_same [OF t(5)] opts)
  ultimately show ?thesis using c t by (simp add: http_inv_def expiry_ok_def)
qed (simp add: http_exchange_def)

lemma fetch_inv: "http_inv c \<Longrightarrow> http_inv (http_fetch opts c)"
  using retry_same [of "http_fetch opts c" c]
  by (auto simp: http_inv_def calls_ok_def waits_ok_def expiry_ok_def http_fetch_def call_within_def awaits_refresh_def)

lemma wait_inv: "http_inv c \<Longrightarrow> http_inv (http_wait_over k c)"
proof (cases "k < length (ht_calls c)")
  case True
  assume c: "http_inv c"
  show ?thesis
  proof (cases "hc_phase (ht_calls c ! k)")
    case (AwaitWait a)
    let ?call = "ht_calls c ! k" and ?call' = "(ht_calls c ! k)\<lparr>hc_phase := AwaitChain (a + 1)\<rparr>"
    let ?t = "c\<lparr>ht_calls := (ht_calls c)[k := ?call']\<rparr>"
    have "?call \<in> set (ht_calls c)" using True by simp
    then have "call_within (call_retry c (hc_options ?call)) ?call"
      using c by (simp add: http_inv_def calls_ok_def list_all_iff)
    then have ok: "call_within (call_retry c (hc_options ?call)) ?call'" using AwaitWait by (auto simp: call_within_def)
    have cs: "set ((ht_calls c)[k := ?call']) \<subseteq> insert ?call' (set (ht_calls c))" by (rule set_update_subset_insert)
    have cr: "call_retry ?t = call_retry c" by (rule retry_same) simp
    have "calls_ok ?t" unfolding calls_ok_def cr
      using cs ok c by (auto simp: http_inv_def calls_ok_def list_all_iff)
    moreover have "\<not> awaits_refresh ?call'" by (simp add: awaits_refresh_def)
    then have "waits_ok ?t" using cs c by (auto simp: waits_ok_def http_inv_def list_ex_iff)
    ultimately show ?thesis using True AwaitWait c by (simp add: http_wait_over_def http_inv_def expiry_ok_def)
  qed (use c True in \<open>simp_all add: http_wait_over_def\<close>)
qed (simp add: http_wait_over_def)

lemma http_step_inv: "http_inv c \<Longrightarrow> http_inv (http_step c e)"
proof -
  assume c: "http_inv c"
  have "keeps_flight s (snd (refreshWithOutcome s))" for s using refresh_flight [of s] by (cases "refreshWithOutcome s") auto
  then show ?thesis
    using c by (cases e) (simp_all add: http_step_def fetch_inv answer_inv wait_inv exchange_inv service_inv storage_inv)
qed

interpretation http_machine: invariant_machine http_step http_inv
  by unfold_locales (rule http_step_inv)

lemma http_initial: "http_inv (http_create retry (refresh_create storage visible))"
  by (simp add: http_inv_def calls_ok_def waits_ok_def expiry_ok_def http_create_def refresh_create_def)

lemma reached_inv: "http_inv (run http_step (http_create retry (refresh_create storage visible)) es)"
  by (rule http_machine.inv_run [OF http_initial])

lemma answer_retry: "ht_retry (http_answer k answer now c) = ht_retry c"
proof -
  obtain call' c' where r: "call_answer now answer (ht_calls c ! k) c = (call', c')" by fastforce
  then have "ht_retry c' = ht_retry c" using answer_answered [of c "ht_calls c ! k" now answer] by (simp add: answered_def)
  then show ?thesis by (simp add: http_answer_def r)
qed

lemma step_retry: "ht_retry (http_step c e) = ht_retry c"
  by (cases e) (auto simp: http_step_def answer_retry http_fetch_def http_wait_over_def http_exchange_def on_service_def
      with_storage_def Let_def split: prod.split CallPhase.split)

lemma run_retry: "ht_retry (run http_step c es) = ht_retry c"
  by (induction es arbitrary: c) (simp_all add: step_retry)

text \<open>The retry configuration of a call.\<close>

definition config_of :: "RetryConfig \<Rightarrow> HttpOptions \<Rightarrow> RetryConfig" where
  "config_of retry opts = (case ho_maxRetries opts of None \<Rightarrow> retry | Some n \<Rightarrow> withMaxRetries n retry)"

lemma call_retry_config: "call_retry c opts = config_of (ht_retry c) opts"
  by (simp add: call_retry_def config_of_def)

lemma reached_call:
  assumes "call \<in> set (ht_calls (run http_step (http_create retry (refresh_create storage visible)) es))"
  shows "call_within (config_of retry (hc_options call)) call"
  using reached_inv [of retry storage visible es] assms
  by (auto simp: http_inv_def calls_ok_def list_all_iff call_retry_config run_retry http_create_def)

section \<open>The tokens\<close>

lemma rejection_storage:
  "ht_storage (maybeHandleAuthRejection now status skipAuth known c) \<noteq> ht_storage c \<Longrightarrow>
   ht_storage (maybeHandleAuthRejection now status skipAuth known c) = clearTokens (ht_storage c)
   \<and> hadSession (ht_storage c) \<and> status \<in> {401, 403} \<and> (\<not> has_bearer (ht_storage c) \<or> isAccessTokenExpired now (ht_storage c) \<or> known)"
  by (auto simp: maybeHandleAuthRejection_def with_storage_def ht_storage_def Let_def split: if_splits)

lemma refresh_storage:
  "refreshWithOutcome s = (out, s') \<Longrightarrow> rf_storage s' \<noteq> rf_storage s \<Longrightarrow> rf_storage s' = clearTokens (rf_storage s)"
  by (auto simp: refreshWithOutcome_def doRefresh_begin_def expireSession_def Let_def split: if_splits)

text \<open>A reason for the end of a session, when an answer arrives.\<close>

definition session_dead :: "millis \<Rightarrow> HttpCall \<Rightarrow> HttpClient \<Rightarrow> bool" where
  "session_dead now call c \<longleftrightarrow> hadSession (ht_storage c)
     \<and> (\<not> has_bearer (ht_storage c) \<or> token_stale now (ht_storage c) \<or> hc_phase call = AwaitReplay \<and> 0 < ht_unauthorized c)"

text \<open>The tokens after an answer: as they were, or cleared for a reason.\<close>

definition tokens_ok :: "millis \<Rightarrow> HttpCall \<Rightarrow> HttpClient \<Rightarrow> HttpClient \<Rightarrow> bool" where
  "tokens_ok now call c c' \<longleftrightarrow> ht_storage c' = ht_storage c \<or> ht_storage c' = clearTokens (ht_storage c) \<and> session_dead now call c"

lemma rejection_tokens: "tokens_ok now call c (maybeHandleAuthRejection now status skipAuth False c)"
  using rejection_storage [of now status skipAuth False c] expired_stale [of now "ht_storage c"]
  by (auto simp: tokens_ok_def session_dead_def)

lemma first_tokens: "tokens_ok now call c (snd (first_answer now cfg r call' c))"
proof -
  obtain out s' where r: "refreshWithOutcome (ht_service c) = (out, s')" by fastforce
  have "tokens_ok now call c (c\<lparr>ht_service := s'\<rparr>) \<and> tokens_ok now call c (c\<lparr>ht_service := s', ht_handled := True\<rparr>)"
    if "hadSession (ht_storage c)" "token_stale now (ht_storage c)"
    using refresh_storage [OF r] that by (auto simp: tokens_ok_def session_dead_def ht_storage_def)
  moreover have "tokens_ok now call c c" by (simp add: tokens_ok_def)
  ultimately show ?thesis
    using rejection_tokens [of now call c] r by (simp add: first_answer_def Let_def split: option.split)
qed

lemma replay_tokens:
  assumes "hc_phase call = AwaitReplay"
  shows "tokens_ok now call c (snd (replay_answer now cfg r call' c))"
proof -
  let ?c = "c\<lparr>ht_unauthorized := ht_unauthorized c + 1\<rparr>"
  have "ht_storage (c\<lparr>ht_unauthorized := n\<rparr>) = ht_storage c" for n by (simp add: ht_storage_def)
  then have "tokens_ok now call c (maybeHandleAuthRejection now status skipAuth True ?c)" if "0 < ht_unauthorized c" for status skipAuth
    using rejection_storage [of now status skipAuth True ?c] assms that by (auto simp: tokens_ok_def session_dead_def)
  then show ?thesis
    by (simp add: replay_answer_def Let_def MAX_POST_REFRESH_UNAUTHORIZED_def) (simp add: tokens_ok_def ht_storage_def)
qed

lemma answer_tokens: "tokens_ok now call c (snd (call_answer now answer call c))"
proof -
  have same: "tokens_ok now call c c" by (simp add: tokens_ok_def)
  then have "tokens_ok now call c (snd (chain_answer now cfg a r call' c))" for cfg a r call'
    using rejection_tokens [of now call c] by (simp add: chain_answer_def)
  then show ?thesis
    using same first_tokens replay_tokens by (simp add: call_answer_def Let_def split: sum.split CallPhase.split)
qed

section \<open>The chain of retries\<close>

text \<open>What a call is given: the answers of its requests from the \<open>n\<close>-th on, and the end of each wait.\<close>

definition call_events :: "nat \<Rightarrow> (nat \<Rightarrow> js_error + Response) \<Rightarrow> millis \<Rightarrow> nat \<Rightarrow> nat \<Rightarrow> HttpEvent list" where
  "call_events k request now n m = concat (map (\<lambda>i. [AnswerEv k (request i) now, WaitOverEv k]) [n..<m])"

lemma call_events_step: "n < m \<Longrightarrow> call_events k request now n m = AnswerEv k (request n) now # WaitOverEv k # call_events k request now (Suc n) m"
  by (simp add: call_events_def upt_conv_Cons)

text \<open>The phase of a call after an answer, and after the wait for another attempt.\<close>

definition waited :: "CallPhase \<Rightarrow> CallPhase" where
  "waited p = (case p of AwaitWait a \<Rightarrow> AwaitChain (a + 1) | _ \<Rightarrow> p)"

lemma answer_length: "length (ht_calls (http_answer k answer now c)) = length (ht_calls c)"
  by (simp add: http_answer_def split: prod.split)

lemma answered_call:
  assumes "k < length (ht_calls c)"
  shows "ht_calls (http_answer k answer now c) ! k = fst (call_answer now answer (ht_calls c ! k) c)"
  using assms by (simp add: http_answer_def split: prod.split)

lemma waited_call:
  assumes "k < length (ht_calls c)"
  shows "hc_phase (ht_calls (http_wait_over k c) ! k) = waited (hc_phase (ht_calls c ! k))
    \<and> hc_options (ht_calls (http_wait_over k c) ! k) = hc_options (ht_calls c ! k)
    \<and> length (ht_calls (http_wait_over k c)) = length (ht_calls c) \<and> ht_retry (http_wait_over k c) = ht_retry c"
  using assms by (simp add: http_wait_over_def waited_def split: CallPhase.split)

text \<open>One answer and one wait, as the client runs them.\<close>

definition fed :: "nat \<Rightarrow> js_error + Response \<Rightarrow> millis \<Rightarrow> HttpClient \<Rightarrow> HttpClient" where
  "fed k answer now c = http_wait_over k (http_answer k answer now c)"

lemma fed_call:
  assumes "k < length (ht_calls c)"
  shows "hc_phase (ht_calls (fed k answer now c) ! k) = waited (hc_phase (fst (call_answer now answer (ht_calls c ! k) c)))"
    "hc_options (ht_calls (fed k answer now c) ! k) = hc_options (ht_calls c ! k)"
    "k < length (ht_calls (fed k answer now c))" "ht_retry (fed k answer now c) = ht_retry c"
  using waited_call [of k "http_answer k answer now c"] answered_call [OF assms, of answer now] assms
    answer_answered [of c "ht_calls c ! k" now answer]
  by (simp_all add: fed_def answer_length answer_retry answered_def)

lemma fed_events: "n < m \<Longrightarrow> run http_step c (call_events k request now n m) = run http_step (fed k (request n) now c) (call_events k request now (Suc n) m)"
  by (simp add: call_events_step fed_def http_step_def)

lemma fed_finished:
  "k < length (ht_calls c) \<Longrightarrow> hc_phase (ht_calls c ! k) = Finished x \<Longrightarrow>
   hc_phase (ht_calls (run http_step c (call_events k request now n m)) ! k) = Finished x"
proof (induction "m - n" arbitrary: n c)
  case 0
  then show ?case by (simp add: call_events_def)
next
  case (Suc d)
  then have "n < m" by simp
  with Suc fed_call [OF Suc.prems(1), of "request n" now] show ?case
    by (simp add: fed_events waited_def call_answer_def awaits_answer_def)
qed

lemma chain_phase:
  assumes "hc_phase call = AwaitChain a"
  shows "waited (hc_phase (fst (call_answer now answer call c))) =
    (case answer of Inl e \<Rightarrow> Finished (Inl e)
     | Inr r \<Rightarrow> if is_retryable (hc_options call) r \<and> rr_shouldRetry (shouldRetry (call_retry c (hc_options call)) r a)
         then AwaitChain (a + 1) else Finished (Inr r))"
  using assms by (simp add: call_answer_def awaits_answer_def chain_answer_def waited_def Let_def split: sum.split)

lemma chain_run:
  assumes "k < length (ht_calls c)" and "hc_phase (ht_calls c ! k) = AwaitChain a" and "hc_options (ht_calls c ! k) = opts"
    and "n + nat (rc_maxRetries (call_retry c opts) + 1 - int a) < m"
  shows "hc_phase (ht_calls (run http_step c (call_events k request now n m)) ! k)
    = Finished (fst (executeWithRetry (call_retry c opts) request (Some (is_retryable opts)) a n))"
  using assms
proof (induction "nat (rc_maxRetries (call_retry c opts) + 1 - int a)" arbitrary: a n c)
  case 0
  note prems = "0.prems"
  let ?cfg = "call_retry c opts"
  have no: "\<not> rr_shouldRetry (shouldRetry ?cfg r a)" for r using "0.hyps" by (simp add: shouldRetry_def)
  have "hc_phase (ht_calls (fed k (request n) now c) ! k) = Finished (request n)"
    using fed_call(1) [OF prems(1), of "request n" now] chain_phase [OF prems(2), of now "request n" c] no prems(3)
    by (simp split: sum.splits)
  moreover have "fst (executeWithRetry ?cfg request (Some (is_retryable opts)) a n) = request n"
    by (subst executeWithRetry.simps) (simp add: no Let_def split: sum.split)
  ultimately show ?case
    using fed_finished [OF fed_call(3) [OF prems(1)]] prems(4) by (simp add: fed_events)
next
  case (Suc d)
  let ?cfg = "call_retry c opts" and ?t = "fed k (request n) now c"
  note f = fed_call [OF Suc.prems(1), of "request n" now]
  note ph = chain_phase [OF Suc.prems(2), of now "request n" c]
  have cfg: "call_retry ?t opts = ?cfg" using retry_same [OF f(4)] by simp
  have ev: "run http_step c (call_events k request now n m) = run http_step ?t (call_events k request now (Suc n) m)"
    by (rule fed_events) (use Suc.prems(4) in simp)
  show ?case
  proof (cases "\<exists>r. request n = Inr r \<and> is_retryable opts r \<and> rr_shouldRetry (shouldRetry ?cfg r a)")
    case True
    then obtain r where r: "request n = Inr r" "is_retryable opts r" "rr_shouldRetry (shouldRetry ?cfg r a)" by blast
    have "hc_phase (ht_calls ?t ! k) = AwaitChain (a + 1)" using f(1) ph r Suc.prems(3) by simp
    moreover have "d = nat (rc_maxRetries (call_retry ?t opts) + 1 - int (a + 1))" using Suc.hyps(2) cfg by simp
    moreover have "Suc n + nat (rc_maxRetries (call_retry ?t opts) + 1 - int (a + 1)) < m" using Suc.prems(4) Suc.hyps(2) cfg by simp
    ultimately have "hc_phase (ht_calls (run http_step ?t (call_events k request now (Suc n) m)) ! k)
        = Finished (fst (executeWithRetry ?cfg request (Some (is_retryable opts)) (a + 1) (Suc n)))"
      using Suc.hyps(1) [of ?t "a + 1" "Suc n"] f(2,3) Suc.prems(3) cfg by simp
    moreover have "fst (executeWithRetry ?cfg request (Some (is_retryable opts)) a n)
        = fst (executeWithRetry ?cfg request (Some (is_retryable opts)) (a + 1) (Suc n))"
      using r by (subst executeWithRetry.simps) (simp add: Let_def split: prod.split)
    ultimately show ?thesis using ev by simp
  next
    case False
    then have "hc_phase (ht_calls ?t ! k) = Finished (request n)" using f(1) ph Suc.prems(3) by (auto split: sum.splits)
    moreover have "fst (executeWithRetry ?cfg request (Some (is_retryable opts)) a n) = request n"
      using False by (subst executeWithRetry.simps) (auto simp: Let_def split: sum.split)
    ultimately show ?thesis using fed_finished [OF f(3)] ev by simp
  qed
qed

section \<open>Properties\<close>

text \<open>
  C34: In every interleaving of calls, answers, waits, exchanges, timers, logins, logouts and writes of other tabs from a new client, an answer
  that is followed by another request of the same call, where the call is a POST or PATCH that its caller did not declare idempotent, is no exception and has
  the status 429, or it is the first answer, with status 401, of a call that does not skip authentication and was replayed after a refresh. In particular
  such a call is never issued again after an exception or a status of 500 or more.
\<close>

theorem unsafe_requests_not_repeated:
  assumes "call \<in> set (ht_calls (run http_step (http_create retry (refresh_create storage visible)) es))"
    and "http_method (hc_options call) \<in> {''POST'', ''PATCH''}" and "\<not> ho_idempotent (hc_options call)"
    and "Suc i < requests_made call"
  shows "\<exists>r. hc_log call ! i = Inr r
    \<and> (rs_status r = 429 \<or> i = 0 \<and> rs_status r = 401 \<and> hc_replayed call \<and> \<not> ho_skipAuth (hc_options call))"
proof -
  have "may_follow call i" using call_within_bounds(2) [OF reached_call [OF assms(1)] assms(4)] .
  moreover have "map char_upper ''POST'' = ''POST''" "map char_upper ''PATCH'' = ''PATCH''" by (simp_all add: char_upper_def)
  ultimately show ?thesis
    using assms(2,3)
    by (auto simp: may_follow_def is_retryable_def isRetryableStatus_def IDEMPOTENT_METHODS_def split: sum.splits if_splits)
qed

definition post_request :: HttpOptions where
  "post_request = plain_request\<lparr>ho_method := Some ''post''\<rparr>"

definition no_tokens :: TokenStorage where
  "no_tokens = \<lparr>ts_access = None, ts_refresh = None, ts_sessionAccess = None, ts_sessionRefresh = None,
      ts_expiry = None, ts_refreshExpiry = None, ts_authenticated = False, ts_marker = False\<rparr>"

definition answer_of :: "int \<Rightarrow> js_error + Response" where
  "answer_of n = Inr \<lparr>rs_status = n, rs_retryAfter = None\<rparr>"

definition posted :: HttpClient where
  "posted = run http_step (http_create DEFAULT_CONFIG (refresh_create no_tokens True))
     [FetchEv post_request, AnswerEv 0 (answer_of 429) 0, AnswerEv 0 (answer_of 503) 1]"

lemma unsafe_requests_not_repeated_witness:
  "requests_made (ht_calls posted ! 0) = 2 \<and> (\<exists>r. hc_log (ht_calls posted ! 0) ! 0 = Inr r \<and> rs_status r \<in> {401, 429})"
proof -
  have m: "ht_calls posted ! 0 \<in> set (ht_calls posted)" by (rule nth_mem) code_simp
  have f: "http_method (hc_options (ht_calls posted ! 0)) \<in> {''POST'', ''PATCH''}" "\<not> ho_idempotent (hc_options (ht_calls posted ! 0))"
    "requests_made (ht_calls posted ! 0) = 2" by code_simp+
  have i: "Suc 0 < requests_made (ht_calls posted ! 0)" using f(3) by simp
  show ?thesis
    using unsafe_requests_not_repeated [of "ht_calls posted ! 0" DEFAULT_CONFIG no_tokens True
      "[FetchEv post_request, AnswerEv 0 (answer_of 429) 0, AnswerEv 0 (answer_of 503) 1]" 0, folded posted_def] m f i by auto
qed

text \<open>
  in every interleaving from a new client, a call makes at most \<open>maxRetries + 2\<close> requests if its budget (that of the call, or else of the client) is
  positive and one if it is not, and one more if it was replayed after a refresh.
\<close>

theorem request_count_bounded:
  assumes "call \<in> set (ht_calls (run http_step (http_create retry (refresh_create storage visible)) es))"
  shows "requests_made call
    \<le> (if rc_maxRetries (config_of retry (hc_options call)) \<le> 0 then 1
        else nat (rc_maxRetries (config_of retry (hc_options call))) + 2) + (if hc_replayed call then 1 else 0)"
  using call_within_bounds(1) [OF reached_call [OF assms]] by (simp add: request_bound_def)

lemma request_count_bounded_witness: "requests_made (ht_calls posted ! 0) \<le> 5 + 1"
proof -
  have m: "ht_calls posted ! 0 \<in> set (ht_calls posted)" by (rule nth_mem) code_simp
  have "rc_maxRetries (config_of DEFAULT_CONFIG (hc_options (ht_calls posted ! 0))) = 3" by code_simp
  then show ?thesis
    using request_count_bounded [of "ht_calls posted ! 0" DEFAULT_CONFIG no_tokens True
      "[FetchEv post_request, AnswerEv 0 (answer_of 429) 0, AnswerEv 0 (answer_of 503) 1]", folded posted_def] m
    by (simp split: if_splits)
qed

text \<open>
  C35: In every interleaving of calls, answers, waits, exchanges, timers, logins, logouts and writes of other tabs from a new client, the client has called
  its handler of the session's end at most once (also if the user has logged in again since), and if a call, or a renewal by the timer, waits for an
  exchange of the refresh token, one is in flight.
\<close>

theorem session_expiry_once:
  "let c = run http_step (http_create retry (refresh_create storage visible)) es in
     ht_expired c \<le> 1
     \<and> (list_ex awaits_refresh (ht_calls c) \<or> 0 < rf_proactiveWaits (ht_service c) \<longrightarrow> rf_inFlight (ht_service c) \<noteq> None)"
  using reached_inv [of retry storage visible es] by (simp add: http_inv_def waits_ok_def expiry_ok_def Let_def)

lemma session_expiry_once_witness:
  "ht_expired (run http_step (http_create DEFAULT_CONFIG (refresh_create (no_tokens\<lparr>ts_authenticated := True\<rparr>) True))
     [FetchEv plain_request, FetchEv plain_request, AnswerEv 0 (answer_of 403) 0, SiblingEv None None True, AnswerEv 1 (answer_of 403) 0]) \<le> 1"
  using session_expiry_once [of DEFAULT_CONFIG "no_tokens\<lparr>ts_authenticated := True\<rparr>" True
    "[FetchEv plain_request, FetchEv plain_request, AnswerEv 0 (answer_of 403) 0, SiblingEv None None True, AnswerEv 1 (answer_of 403) 0]"]
  by (simp only: Let_def)

text \<open>
  an answer leaves the tokens of the tab as they are, or clears them, and clears them only for a session (a bearer, a refresh
  token or the marker is there) that is dead: there is no bearer, or the expiry that counts for it is unknown, zero, past or less than a minute ahead, or the
  answer refuses the replay of a call with a refreshed bearer, and a replay was refused since the last one that was not.
\<close>

theorem tokens_cleared_when_dead:
  assumes "k < length (ht_calls c)" and "ht_storage (http_answer k answer now c) \<noteq> ht_storage c"
  shows "ht_storage (http_answer k answer now c) = clearTokens (ht_storage c) \<and> hadSession (ht_storage c)
    \<and> (\<not> has_bearer (ht_storage c)
       \<or> (case getAccessTokenExpiry (ht_storage c) of None \<Rightarrow> True | Some e \<Rightarrow> e = 0 \<or> e < now + 60000)
       \<or> hc_phase (ht_calls c ! k) = AwaitReplay \<and> 0 < ht_unauthorized c)"
proof -
  obtain call' c' where r: "call_answer now answer (ht_calls c ! k) c = (call', c')" by fastforce
  have "ht_storage (c'\<lparr>ht_calls := cs\<rparr>) = ht_storage c'" for cs by (simp add: ht_storage_def)
  then show ?thesis
    using answer_tokens [of now "ht_calls c ! k" c answer] assms r
    by (auto simp: http_answer_def tokens_ok_def session_dead_def stale_iff)
qed

definition refused :: HttpClient where
  "refused = run http_step (http_create DEFAULT_CONFIG (refresh_create (no_tokens\<lparr>ts_authenticated := True\<rparr>) True)) [FetchEv plain_request]"

lemma tokens_cleared_when_dead_witness:
  "ht_storage (http_answer 0 (answer_of 403) 0 refused) = clearTokens (ht_storage refused) \<and> hadSession (ht_storage refused)"
proof -
  have "0 < length (ht_calls refused)" "ts_authenticated (ht_storage refused)"
    "\<not> ts_authenticated (ht_storage (http_answer 0 (answer_of 403) 0 refused))" by code_simp+
  then have "0 < length (ht_calls refused)" "ht_storage (http_answer 0 (answer_of 403) 0 refused) \<noteq> ht_storage refused" by auto
  from tokens_cleared_when_dead [OF this] show ?thesis by blast
qed

text \<open>
  C36: Take a call, in any state of the client, that has made its first request, and whose first answer is an exception or no 401 (or which
  skips authentication). Given \<open>maxRetries + 2\<close> answers or more (its own budget, or else that of the client; negative counts as 0), one after the other with
  the end of each wait and nothing else in between, all at one time of the clock, it is finished. Its result is the first answer, if that is an exception or the strategy
  or the policy does not retry it, and otherwise what \<open>executeWithRetry\<close> returns for the answers from the second on.
\<close>

theorem call_follows_retry_strategy:
  assumes "k < length (ht_calls c)" and "hc_phase (ht_calls c ! k) = AwaitFirst" and "hc_options (ht_calls c ! k) = opts"
    and "ho_skipAuth opts \<or> (case request 0 of Inl _ \<Rightarrow> True | Inr r \<Rightarrow> rs_status r \<noteq> 401)"
    and "nat (rc_maxRetries (config_of (ht_retry c) opts)) + 2 \<le> m"
  shows "hc_phase (ht_calls (run http_step c (call_events k request now 0 m)) ! k) =
    Finished (if canRetry (config_of (ht_retry c) opts) 1 \<and> (case request 0 of Inl _ \<Rightarrow> False | Inr r \<Rightarrow> is_retryable opts r)
      then fst (executeWithRetry (config_of (ht_retry c) opts) request (Some (is_retryable opts)) 1 1)
      else request 0)"
proof -
  let ?cfg = "config_of (ht_retry c) opts" and ?t = "fed k (request 0) now c"
  note f = fed_call [OF assms(1), of "request 0" now]
  have ev: "run http_step c (call_events k request now 0 m) = run http_step ?t (call_events k request now (Suc 0) m)"
    by (rule fed_events) (use assms(5) in simp)
  have cfg: "call_retry ?t opts = ?cfg" by (simp add: call_retry_config f(4))
  have ph: "hc_phase (ht_calls ?t ! k) =
      (if canRetry ?cfg 1 \<and> (case request 0 of Inl _ \<Rightarrow> False | Inr r \<Rightarrow> is_retryable opts r) then AwaitChain 1 else Finished (request 0))"
    using assms(2-4) f(1)
    by (auto simp: call_answer_def awaits_answer_def first_answer_def maybeRetry_def waited_def Let_def call_retry_config split: sum.splits)
  show ?thesis
  proof (cases "canRetry ?cfg 1 \<and> (case request 0 of Inl _ \<Rightarrow> False | Inr r \<Rightarrow> is_retryable opts r)")
    case True
    have "hc_phase (ht_calls (run http_step ?t (call_events k request now 1 m)) ! k)
        = Finished (fst (executeWithRetry (call_retry ?t opts) request (Some (is_retryable opts)) 1 1))"
      by (rule chain_run [OF f(3)]) (use True ph f(2) assms(3,5) in \<open>auto simp: cfg canRetry_def\<close>)
    then show ?thesis using True ev by (simp add: cfg)
  next
    case False
    then show ?thesis using fed_finished [OF f(3), of "request 0"] ph ev by auto
  qed
qed

definition asked :: HttpClient where
  "asked = run http_step (http_create DEFAULT_CONFIG (refresh_create no_tokens True)) [FetchEv plain_request]"

lemma call_follows_retry_strategy_witness:
  "hc_phase (ht_calls (run http_step asked (call_events 0 (\<lambda>n. answer_of (if n < 2 then 503 else 200)) 0 0 5)) ! 0) = Finished (answer_of 200)"
proof -
  let ?request = "\<lambda>n::nat. answer_of (if n < 2 then 503 else 200)" and ?cfg = "config_of (ht_retry asked) plain_request"
  have c: "0 < length (ht_calls asked)" "hc_phase (ht_calls asked ! 0) = AwaitFirst" "hc_options (ht_calls asked ! 0) = plain_request"
    by code_simp+
  have r: "ho_skipAuth plain_request \<or> (case ?request 0 of Inl _ \<Rightarrow> True | Inr r \<Rightarrow> rs_status r \<noteq> 401)" by (simp add: answer_of_def)
  have m: "nat (rc_maxRetries ?cfg) + 2 \<le> 5" by code_simp
  have "canRetry ?cfg 1 \<and> (case ?request 0 of Inl _ \<Rightarrow> False | Inr r \<Rightarrow> is_retryable plain_request r)"
    "fst (executeWithRetry ?cfg ?request (Some (is_retryable plain_request)) 1 1) = answer_of 200" by code_simp+
  with call_follows_retry_strategy [of 0 asked plain_request ?request 5 0, OF c r m] show ?thesis by (simp only: if_True simp_thms)
qed

text \<open>
  logging out does not stop an exchange: if one is in flight, the tokens are cleared, and then the token endpoint answers it with a bearer, the tab
  has that bearer, the refresh token and the marker of a session again.
\<close>

theorem logout_undone_by_refresh:
  assumes "rf_inFlight (ht_service c) = Some t" and "t \<noteq> []" and "200 \<le> status" and "status \<le> 299" and "br_text (ck_idToken tokens) \<noteq> []"
  shows "\<not> hadSession (ht_storage (http_step c LogoutEv))
    \<and> (let st = ht_storage (run http_step c [LogoutEv, ExchangeEv (CognitoAnswer status err (Some tokens)) now]) in
        ts_access st = Some (ck_idToken tokens) \<and> ts_refresh st = Some t \<and> ts_authenticated st)"
proof -
  have arm: "rf_storage (armProactiveTimer now d s) = rf_storage s" "rf_storage (scheduleProactiveRefresh now s) = rf_storage s" for d s
    by (simp_all add: armProactiveTimer_def scheduleProactiveRefresh_def Let_def)
  have "rf_storage (proactive_rest now out s) = rf_storage s" for out s
    by (simp add: proactive_rest_def arm Let_def split: RefreshOutcome.split option.split)
  then have "rf_storage ((proactive_rest now out ^^ n) s) = rf_storage s" for out n s by (induction n) simp_all
  then have rests: "rf_storage (proactive_rests now out s) = rf_storage s" for out s by (simp add: proactive_rests_def)
  show ?thesis
    using assms
    by (simp add: http_step_def with_storage_def ht_storage_def http_exchange_def doRefresh_end_def refreshCognitoTokens_def rests
        setTokens_def saveAccessToken_def saveRefreshToken_def saveTokenExpiry_def clearTokenExpiry_def expiry_in_def truthy_def
        hadSession_def Let_def split: option.split list.split)
qed

definition renewing :: HttpClient where
  "renewing = run http_step (http_create DEFAULT_CONFIG (refresh_create (no_tokens\<lparr>ts_refresh := Some ''r'', ts_authenticated := True\<rparr>) True)) [RefreshEv]"

lemma logout_undone_by_refresh_witness:
  "let st = ht_storage (run http_step renewing [LogoutEv, ExchangeEv (CognitoAnswer 200 None
      (Some \<lparr>ck_idToken = \<lparr>br_text = ''b'', br_exp = Some 9\<rparr>, ck_expiresIn = None\<rparr>)) 0]) in
     ts_access st \<noteq> None \<and> ts_refresh st = Some ''r'' \<and> ts_authenticated st"
proof -
  have "rf_inFlight (ht_service renewing) = Some ''r''" by code_simp
  from logout_undone_by_refresh [OF this, of 200 "\<lparr>ck_idToken = \<lparr>br_text = ''b'', br_exp = Some 9\<rparr>, ck_expiresIn = None\<rparr>" None 0]
  show ?thesis by (simp add: Let_def)
qed

end
