(* ===== verification/Spec2Isabelle.thy ===== *)
theory Spec2Isabelle
  imports
    Sync_Coordinator Sync_WebSocket Loading_State_Machine Debounce_Manager Conflict_Resolver
    OT_Convergence Three_Way_Merge Sync_Service
    History_Manager Layout_History Selection_Manager Clipboard_Manager
    Sequential_To_Graph Workflow_Validation Dependency_Views Folder_Manager
    Sync_Queue Retry_Strategy Http_Sessions
begin

text \<open>
  A verification library for the core logic of the qontinui web frontend (TypeScript, under
  frontend/src/). The frontend edits automation projects: workflows are graphs of actions, edits
  are recorded for undo, synchronised with a server that versions the project and may lock it,
  shared between collaborators, and sent by a client that keeps the user signed in.

  \<^bold>\<open>The parts and their theories.\<close>

  \<^item> Prelude: identifiers and times, \<open>||\<close> and \<open>??\<close> on optional strings, decimal numerals, \<open>splice\<close>,
    maps as lists in insertion order (\<open>map_set\<close>), results of code that may throw, and \<open>run\<close>, a step function
    over a list of events.
  \<^item> Interfaces: the contracts as locales. \<open>invariant_machine\<close> (an invariant over all runs),
    \<open>guarded_machine\<close> (a table of valid transitions: paths, closed sets of modes, gates),
    \<open>replicas\<close> (sites that exchange transformed operations) and \<open>undo_history\<close> (a history that
    refines a past and a future). Further locales stand with their clients: \<open>version_store\<close>
    (Version_Tracker), \<open>finite_graph\<close> (Workflow_Graph) with its extensions \<open>finite_depths\<close> (Workflow_Utils) and
    \<open>cycle_search\<close> (Dependency_Search), and \<open>climbing_loop\<close> (Folder_Counts, a loop from a folder to its root that
    rewrites each folder on its way). Every locale is interpreted on the definitions of the model.
  \<^item> Project synchronisation (lib/sync/): Sync_State_Machine (sync-state-machine.ts: \<open>sync_send\<close> is
    \<open>send\<close>), Version_Tracker (version-tracker.ts), Change_Tracker (change-tracker.ts),
    Debounce_Manager (debounce-manager.ts), Conflict_Resolver (conflict-resolver.ts), Sync_WebSocket
    (sync-websocket.ts: sockets are records whose events are steps of the relation \<open>ws_step\<close>), and Sync_Coordinator
    (sync-coordinator.ts), which owns one of each of the first three and calls them as the code does. A save is
    asynchronous: it is cut at the call of the save function, the calls under way are part of the state
    (\<open>co_inflight\<close>), and the answers are steps (\<open>co_save_returned\<close>, \<open>co_save_threw\<close>) that may come
    at any later time, in any order and between any other operations.
  \<^item> Collaboration (services/collaboration/): Json_Doc (JSON values, properties and paths of a document as
    JavaScript reads and writes them), Operational_Transform (operational-transform-service.ts) and OT_Convergence
    (its properties); Three_Way_Merge (conflict-resolution-service.ts); Collab_Sync (sync-service.ts) and Sync_Service
    (its properties), whose offline queue is drained by a loop that is cut at its awaits.
  \<^item> Editing (stores/): History_Manager (history-manager.ts), Layout_History (layout-history.ts) and Selection_Manager
    (selection-manager.ts), three stores that keep a list of entries with the index of the present one; Undo_Index
    holds what they share, and all three are interpretations of \<open>undo_history\<close>. Clipboard_Manager
    (clipboard-manager.ts) copies and pastes parts of a graph.
  \<^item> Workflows: Workflow_Graph and Workflow_Utils (lib/action-schema/workflow-utils.ts over the types
    of action-types.ts), Workflow_Validation (workflow-validation.ts), and the conversions of
    lib/workflow-converter/: Linearizability (linearizability-checker.ts), Pattern_Detector (pattern-detector.ts),
    Graph_To_Sequential (graph-to-sequential-converter.ts), Auto_Layout (auto-layout.ts) and Sequential_To_Graph
    (sequential-to-graph-converter.ts).
  \<^item> Collections of workflows (services/): Workflow_Dependencies, Dependency_Search and Dependency_Views
    (workflow-dependency-analyzer.ts: the graph, its circular dependencies, and what is derived from the
    graph), and the folders of workflow-folder-manager.ts: Workflow_Folders and Folder_Operations (the operations),
    Folder_Hierarchy (forests and climbing), Folder_Trees (trees and paths), Folder_Counts (the counts), Folder_Invariant,
    Folder_Changes and Folder_Deletion (what each operation keeps), Folder_Manager (reachable states and properties).
  \<^item> Loading and transport: Loading_State_Machine (lib/project/loading-state-machine.ts), Sync_Queue
    (lib/sync-queue.ts and the loop of lib/sync-processor.ts), Retry_Strategy (services/retry-strategy.ts),
    Auth_Tokens and Token_Refresh (services/auth/), Http_Client (services/http-client.ts) and Http_Sessions (its
    properties). A call of \<open>fetch\<close> is a process that is cut at its awaits: calls, answers, waits, exchanges of the refresh
    token, timers and other tabs interleave as events of \<open>http_step\<close>.

  \<^bold>\<open>How the code is rendered.\<close> A class is a record of its fields, a union of string literals a
  datatype, a union of event objects a datatype with their fields; a method is a function from the
  state to the new state and its result. \<open>null\<close> and an absent optional field are \<open>None\<close>; a
  \<open>Partial\<close> update has one option per field. The clock is an argument, in milliseconds, and so are
  generated identifiers, the parsed text of an import and what a server, a callback or a getter
  answers. Timers are due times in the state; that a timer fires is a step of its own. Exceptions are
  the left side of a sum. Numbers are mathematical integers, and rationals where the code divides or merges
  values: versions, positions, counters and times stay far below the limit of exact integers, \<open>2^53\<close>. Objects
  that are used as maps and whose order the code reads are association lists in that order; the objects of
  Json_Doc are finite maps, because no modelled operation reads their order, and inherited property names are
  excluded there (a document that uses one is answered with \<open>Unmodelled\<close>).

  \<^bold>\<open>Recursion and fuel.\<close> The depth-first searches (\<open>cycle_search\<close>, \<open>topo_visit\<close>, \<open>cycles_dfs\<close>, \<open>circular_dfs\<close>,
  \<open>depth_dfs\<close>) carry fuel for the depth of the recursion, \<open>graph_fuel\<close> or \<open>dep_fuel\<close>, more than the number of nodes;
  every level of the recursion marks one more node, so it is never used up (in \<open>finite_graph\<close>). The loops over a
  queue (\<open>depth_loop\<close>, \<open>collect_all\<close>, \<open>al_bfs\<close>) run at most once for every entry; their fuel is proved to be enough, so
  the functions are total. The recursions of the folder manager are partial functions: \<open>None\<close> means that the call does
  not return a value, because it climbs for ever or recurs until the stack is exhausted. In every reachable
  state each of them is proved to return. Where the code catches the exhausted stack and goes on, in importing and
  loading, the model does so too; elsewhere \<open>None\<close> stands for both. The walk along a chain of actions and the
  retries are total functions with a measure.

  \<^bold>\<open>What is proved.\<close> For the state machines: invariants of every reachable state, and what any
  sequence of events can and cannot lead to. For the coordinator: when a save may go out, what a lock and a
  reload do, and what becomes of an edit that arrives while a save is under way or after an error. For the
  web socket: one live connection, and that a lost one can be had again. For the trackers: no change is lost or
  duplicated between tracking and flushing, pending changes have a bounded delay, a version that was not loaded is
  never overwritten, and of a burst of calls the last one runs, once. For collaboration: the pairs of operations
  for which two replicas converge, inversion as undo, pairs for which they do not converge, the merge of flat documents
  key by key, and where the service loses an update, blocks its queue or multiplies it. For the stores: refinements of
  an abstract history with its undo and redo laws, and pasting as an isomorphic copy of a graph. For workflows: cycle
  detection, topological order and depths against reachability and distance in the graph, validation as a condition
  on the workflow, layout by longest paths, when a graph is converted to a sequence, and the round trip. For folders: a
  forest with exact counts in every reachable state, moving, deleting, the tree, paths, export and import. For
  dependencies: circular ones exactly. For transport: orders and bounds of queue and retries, which requests are
  repeated, when a session ends, and that a call follows the retry strategy. Theorems that show
  the code missing what its comments promise are stated as what the code does.

  \<^bold>\<open>What is not modelled.\<close> Listeners and the log (they read the state only; History_Manager, whose
  listeners get the state itself, has them), IndexedDB transactions and failures, the upload of screenshots, the decoding
  of bearers, aborting and timing out inside a request (an answer that throws), the typed wrappers around requests,
  rendering, and the backend.
\<close>

end
